(* ===== verification/Pebble_Prelude.thy ===== *)
theory Pebble_Prelude
  imports Main "HOL-Library.Word" "HOL-Library.List_Lexorder"
begin

text \<open>
  What every component of the development shares.

  \<^item> The machine types: a C++ \<open>char\<close> is a byte of 8 bits, a \<open>std::string\<close> used as a buffer, a key
    or a value is a list of bytes (binary safe, as the source demands), \<open>std::uint32_t\<close> and
    \<open>std::uint64_t\<close> are words of their width.  File names and error messages are \<open>string\<close>.
    Byte strings are ordered lexicographically on unsigned bytes, a proper prefix first, which is
    what \<open>std::string::compare\<close> and \<open>std::string_view\<close> do.
  \<^item> \<open>std::map\<close> as an association list in ascending key order, abstracted by \<open>map_of\<close>.
  \<^item> The lemma collections the component theories fill and use.
\<close>

unbundle bit_operations_syntax

type_synonym byte = "8 word"
type_synonym bytes = "byte list"
type_synonym u32 = "32 word"
type_synonym u64 = "64 word"

named_theorems layout_simps \<open>lengths and slices of encoded structures\<close>
named_theorems status_simps \<open>projections of status values\<close>
named_theorems world_frame \<open>what the system calls leave unchanged, as destruction rules\<close>

subsection \<open>Ordered maps\<close>

text \<open>
  \<open>std::map\<close> keeps one binding per key in ascending key order.  \<open>ordered_put\<close> is
  insert-or-assign; lookup is \<open>map_of\<close>.
\<close>

fun ordered_put :: "'k::linorder \<Rightarrow> 'v \<Rightarrow> ('k \<times> 'v) list \<Rightarrow> ('k \<times> 'v) list" where
  "ordered_put key val [] = [(key, val)]"
| "ordered_put key val (node # rest) =
     (if key = fst node then (key, val) # rest
      else if fst node < key then node # ordered_put key val rest
      else (key, val) # node # rest)"

abbreviation ascending :: "('k::linorder \<times> 'v) list \<Rightarrow> bool" where
  "ascending m \<equiv> sorted_wrt (<) (map fst m)"

lemma map_of_ordered_put [simp]: "map_of (ordered_put k v m) = (map_of m)(k \<mapsto> v)"
  by (induction m) (auto simp: fun_eq_iff)

lemma keys_ordered_put [simp]: "fst ` set (ordered_put k v m) = insert k (fst ` set m)"
  by (induction m) auto

lemma ordered_put_not_Nil [simp]: "ordered_put k v m \<noteq> []"
  by (cases m) auto

lemma set_keys_ordered_put: "set (map fst (ordered_put k v m)) = insert k (set (map fst m))"
  by (simp only: set_map keys_ordered_put)

lemma ascending_ordered_put:
  assumes "ascending m"
  shows "ascending (ordered_put k v m)"
  using assms
proof (induction m)
  case Nil
  then show ?case by simp
next
  case (Cons node m)
  then have rest: "ascending m" and first: "\<forall>x\<in>set (map fst m). fst node < x"
    by simp_all
  consider "k = fst node" | "fst node < k" | "k < fst node"
    by (meson linorder_less_linear)
  then show ?case
  proof cases
    case 1
    with rest first show ?thesis by simp
  next
    case 2
    then have "\<forall>x\<in>set (map fst (ordered_put k v m)). fst node < x"
      using first unfolding set_keys_ordered_put by simp
    with 2 rest Cons.IH [OF rest] show ?thesis by auto
  next
    case 3
    with rest first show ?thesis by (auto dest: order.strict_trans)
  qed
qed

lemma ascending_distinct: "ascending m \<Longrightarrow> distinct (map fst m)"
  by (simp add: strict_sorted_iff)

end
