(* ===== verification/Pebble_Codec.thy ===== *)
theory Pebble_Codec
  imports Pebble_Prelude
begin

text \<open>
  Sequences of self-delimiting encodings.  Write-ahead log records, data block entries, index
  entries and manifest table entries are all laid back to back and read by a loop that decodes one
  item, drops its bytes and goes on while there is input.  \<open>decode_loop\<close> is that loop; the locale
  \<open>item_codec\<close> states what a decoder owes its encoder and \<open>log_codec\<close> what a torn item looks like.
  The lemmas proved here once are used for every format.
\<close>

text \<open>
  \<open>while (!input.empty()) { status = Decode(&input, &item); if (status != kOk) stop; use(item); }\<close>:
  the items, the status that stopped the loop if one did, and the input not consumed.  The
  comparison of lengths makes the loop total for every argument; a decoder of the development
  always drops at least one byte (\<open>dec_shrinks\<close>).
\<close>

function decode_loop :: "(bytes \<Rightarrow> 'e + 'a \<times> bytes) \<Rightarrow> bytes \<Rightarrow> 'a list \<times> 'e option \<times> bytes" where
  "decode_loop dec input =
     (if input = [] then ([], None, [])
      else case dec input of
             Inl e \<Rightarrow> ([], Some e, input)
           | Inr (x, rest) \<Rightarrow>
               if length rest < length input
               then (case decode_loop dec rest of (xs, e, left) \<Rightarrow> (x # xs, e, left))
               else ([x], None, []))"
  by pat_completeness auto
termination
  by (relation "measure (\<lambda>(dec, input). length input)") auto

declare decode_loop.simps [simp del]

lemma decode_loop_Nil [simp]: "decode_loop dec [] = ([], None, [])"
  by (simp add: decode_loop.simps [of dec "[]"])

lemma decode_loop_stop: "bs \<noteq> [] \<Longrightarrow> dec bs = Inl e \<Longrightarrow> decode_loop dec bs = ([], Some e, bs)"
  by (simp add: decode_loop.simps [of dec bs])

lemma decode_loop_step:
  assumes "dec bs = Inr (x, rest)" and "length rest < length bs"
  shows "decode_loop dec bs = (case decode_loop dec rest of (xs, e, left) \<Rightarrow> (x # xs, e, left))"
proof -
  from assms(2) have "bs \<noteq> []" by auto
  with assms show ?thesis by (simp add: decode_loop.simps [of dec bs])
qed

lemma decode_loop_left: "decode_loop dec bs = (xs, e, left) \<Longrightarrow> length left \<le> length bs"
proof (induction dec bs arbitrary: xs rule: decode_loop.induct)
  case (1 dec bs)
  note run = "1.prems" [unfolded decode_loop.simps [of dec bs]]
  show ?case
  proof (cases "bs = []")
    case True
    with run show ?thesis by simp
  next
    case False
    show ?thesis
    proof (cases "dec bs")
      case (Inl err)
      with False run show ?thesis by simp
    next
      case (Inr p)
      obtain x rest where p: "p = (x, rest)" by (cases p)
      obtain ys f l where loop: "decode_loop dec rest = (ys, f, l)"
        by (metis prod_cases3)
      show ?thesis
      proof (cases "length rest < length bs")
        case True
        with run False Inr p loop have "left = l" "e = f"
          by auto
        with "1.IH" [OF False Inr p [symmetric] True, of ys] True loop show ?thesis
          by simp
      next
        case no: False
        with run False Inr p show ?thesis
          by (simp add: decode_loop.simps)
      qed
    qed
  qed
qed

locale item_codec =
  fixes enc :: "'a \<Rightarrow> bytes"
    and dec :: "bytes \<Rightarrow> 'e + 'a \<times> bytes"
    and valid :: "'a \<Rightarrow> bool"
  assumes dec_enc: "valid x \<Longrightarrow> dec (enc x @ rest) = Inr (x, rest)"
    and dec_shrinks: "dec bs = Inr (x, rest) \<Longrightarrow> length rest < length bs"
begin

abbreviation encs :: "'a list \<Rightarrow> bytes" where
  "encs xs \<equiv> concat (map enc xs)"

lemma decode_cons:
  assumes "valid x"
  shows "decode_loop dec (enc x @ rest) = (case decode_loop dec rest of (xs, e, left) \<Rightarrow> (x # xs, e, left))"
proof -
  have step: "dec (enc x @ rest) = Inr (x, rest)"
    by (rule dec_enc [OF assms])
  from step dec_shrinks [OF step] show ?thesis
    by (rule decode_loop_step)
qed

lemma decode_encs:
  assumes "\<forall>x\<in>set xs. valid x"
  shows "decode_loop dec (encs xs @ tail) =
    (case decode_loop dec tail of (ys, e, left) \<Rightarrow> (xs @ ys, e, left))"
  using assms by (induction xs) (auto simp: decode_cons split: prod.splits)

lemma decode_all: "\<forall>x\<in>set xs. valid x \<Longrightarrow> decode_loop dec (encs xs) = (xs, None, [])"
  using decode_encs [of xs "[]"] by simp

lemma encs_inj:
  "\<forall>x\<in>set xs. valid x \<Longrightarrow> \<forall>y\<in>set ys. valid y \<Longrightarrow> encs xs = encs ys \<Longrightarrow> xs = ys"
  by (metis decode_all prod.inject)

lemma enc_not_Nil: "valid x \<Longrightarrow> enc x \<noteq> []"
  using dec_enc [of x "[]"] dec_shrinks [of "enc x" x "[]"] by auto

end

text \<open>
  A log may end in a torn item: a proper prefix of an encoding decodes to the status \<open>torn\<close>.  Then
  every prefix of a log, cut at any byte, decodes to a prefix of its items.
\<close>

locale log_codec = item_codec enc dec valid
  for enc :: "'a \<Rightarrow> bytes" and dec :: "bytes \<Rightarrow> 'e + 'a \<times> bytes" and valid :: "'a \<Rightarrow> bool" +
  fixes torn :: 'e
  assumes dec_torn: "valid x \<Longrightarrow> 0 < n \<Longrightarrow> n < length (enc x) \<Longrightarrow> dec (take n (enc x)) = Inl torn"
begin

lemma decode_torn:
  assumes "\<forall>x\<in>set xs. valid x" and "valid y" and "0 < n" and "n < length (enc y)"
  shows "decode_loop dec (encs xs @ take n (enc y)) = (xs, Some torn, take n (enc y))"
proof -
  have "take n (enc y) \<noteq> []"
    using assms(3,4) by (cases "enc y") auto
  then have "decode_loop dec (take n (enc y)) = ([], Some torn, take n (enc y))"
    using assms(2-4) by (intro decode_loop_stop dec_torn)
  with decode_encs [OF assms(1)] show ?thesis by simp
qed

lemma cut_log:
  assumes "n \<le> length (encs xs)"
  obtains k m where "k \<le> length xs" "take n (encs xs) = encs (take k xs)"
  | k m where "k < length xs" "0 < m" "m < length (enc (xs ! k))"
    "take n (encs xs) = encs (take k xs) @ take m (enc (xs ! k))"
  using assms
proof (induction xs arbitrary: n thesis)
  case Nil
  then show ?case by simp
next
  case (Cons x xs)
  consider "n = 0" | "0 < n" "n < length (enc x)" | "length (enc x) \<le> n" by linarith
  then show ?case
  proof cases
    case 1
    then show ?thesis using Cons.prems(1) [of 0] by simp
  next
    case 2
    then show ?thesis using Cons.prems(2) [of 0 n] by simp
  next
    case 3
    define j where "j = n - length (enc x)"
    have cut: "take n (encs (x # xs)) = enc x @ take j (encs xs)"
      using 3 by (simp add: j_def)
    have "j \<le> length (encs xs)"
      using Cons.prems(3) by (simp add: j_def)
    then show ?thesis
    proof (rule Cons.IH [rotated 2])
      fix k :: nat
      assume "k \<le> length xs" "take j (encs xs) = encs (take k xs)"
      then show ?thesis using Cons.prems(1) [of "Suc k"] cut by simp
    next
      fix k m :: nat
      assume "k < length xs" "0 < m" "m < length (enc (xs ! k))"
        "take j (encs xs) = encs (take k xs) @ take m (enc (xs ! k))"
      then show ?thesis using Cons.prems(2) [of "Suc k" m] cut by simp
    qed
  qed
qed

lemma decode_prefix:
  assumes valid: "\<forall>x\<in>set xs. valid x" and n: "n \<le> length (encs xs)"
  obtains k left where "k \<le> length xs"
    "decode_loop dec (take n (encs xs)) = (take k xs, None, left)" "take n (encs xs) = encs (take k xs)"
  | k left where "k < length xs"
    "decode_loop dec (take n (encs xs)) = (take k xs, Some torn, left)"
    "take n (encs xs) = encs (take k xs) @ left"
proof (rule cut_log [OF n])
  fix k :: nat
  assume k: "k \<le> length xs" "take n (encs xs) = encs (take k xs)"
  have "\<forall>x\<in>set (take k xs). valid x"
    using valid by (auto dest: in_set_takeD)
  with k show ?thesis
    using that(1) [of k "[]"] decode_all by simp
next
  fix k m :: nat
  assume k: "k < length xs" "0 < m" "m < length (enc (xs ! k))"
    "take n (encs xs) = encs (take k xs) @ take m (enc (xs ! k))"
  have "\<forall>x\<in>set (take k xs). valid x" "valid (xs ! k)"
    using valid k(1) by (auto dest: in_set_takeD)
  with k show ?thesis
    using that(2) [of k "take m (enc (xs ! k))"] decode_torn by simp
qed

end

end
