(* ===== verification/Pebble_Coding.thy ===== *)
theory Pebble_Coding
  imports Pebble_Prelude
begin

text \<open>
  Fixed-width little-endian integers (util/coding.hpp, util/coding.cpp).  \<open>PutFixed\<close> appends to a
  buffer; \<open>DecodeFixed\<close> reads from a pointer, modelled as the list of the bytes at and after it.
  The source guarantees enough bytes before it decodes; the round-trip lemmas carry that guard.
\<close>

definition byte_of :: "'a::len word \<Rightarrow> byte" where
  "byte_of value = ucast (value AND 0xFF)"

definition PutFixed32 :: "bytes \<Rightarrow> u32 \<Rightarrow> bytes" where
  "PutFixed32 dst value =
     dst @ [byte_of value, byte_of (drop_bit 8 value),
            byte_of (drop_bit 16 value), byte_of (drop_bit 24 value)]"

definition PutFixed64 :: "bytes \<Rightarrow> u64 \<Rightarrow> bytes" where
  "PutFixed64 dst value = dst @ map (\<lambda>i. byte_of (drop_bit (8 * i) value)) [0..<8]"

definition DecodeFixed32 :: "bytes \<Rightarrow> u32" where
  "DecodeFixed32 ptr =
     ucast (ptr ! 0) OR push_bit 8 (ucast (ptr ! 1)) OR
     push_bit 16 (ucast (ptr ! 2)) OR push_bit 24 (ucast (ptr ! 3))"

definition DecodeFixed64 :: "bytes \<Rightarrow> u64" where
  "DecodeFixed64 ptr =
     fold (\<lambda>i result. push_bit 8 result OR ucast (ptr ! i)) (rev [0..<8]) 0"

subsection \<open>Layout\<close>

abbreviation fixed32 :: "u32 \<Rightarrow> bytes" where
  "fixed32 v \<equiv> PutFixed32 [] v"

abbreviation fixed64 :: "u64 \<Rightarrow> bytes" where
  "fixed64 v \<equiv> PutFixed64 [] v"

lemma PutFixed32_append: "PutFixed32 dst v = dst @ fixed32 v"
  by (simp add: PutFixed32_def)

lemma PutFixed64_append: "PutFixed64 dst v = dst @ fixed64 v"
  by (simp add: PutFixed64_def)

lemma length_fixed [simp, layout_simps]:
  "length (PutFixed32 dst v) = length dst + 4"
  "length (PutFixed64 dst w) = length dst + 8"
  by (simp_all add: PutFixed32_def PutFixed64_def)

subsection \<open>Round trips\<close>

lemma bit_byte_of: "bit (byte_of v) n \<longleftrightarrow> n < 8 \<and> bit v n"
  for v :: "'a::len word"
proof -
  have "bit (0xFF :: 'a word) n \<longleftrightarrow> n < 8 \<and> n < LENGTH('a)"
    using bit_mask_iff [where m = 8 and n = n and 'a = "'a word"]
    by (auto simp: mask_eq_exp_minus_1 possible_bit_word)
  then show ?thesis
    by (auto simp: byte_of_def bit_ucast_iff bit_and_iff dest: bit_imp_le_length)
qed

lemma DecodeFixed32_fixed32 [simp, layout_simps]: "DecodeFixed32 (fixed32 v @ rest) = v"
proof (rule bit_word_eqI)
  fix n assume n: "n < LENGTH(32)"
  then consider "n < 8" | "8 \<le> n" "n < 16" | "16 \<le> n" "n < 24" | "24 \<le> n" "n < 32"
    by fastforce
  then show "bit (DecodeFixed32 (fixed32 v @ rest)) n = bit v n"
    by cases
      (auto simp: DecodeFixed32_def PutFixed32_def bit_or_iff bit_push_bit_iff bit_ucast_iff
        bit_byte_of bit_drop_bit_eq)
qed

lemma upt_0_8: "[0..<8] = [0, 1, 2, 3, 4, 5, 6, 7::nat]"
  by (simp add: upt_rec)

lemma bit_shift_in:
  fixes ptr :: bytes and acc :: u64
  assumes "n < 64"
  shows "bit (fold (\<lambda>i result. push_bit 8 result OR ucast (ptr ! i)) (rev [0..<k]) acc) n \<longleftrightarrow>
    (if n < 8 * k then bit (ptr ! (n div 8)) (n mod 8) else bit acc (n - 8 * k))"
  using assms
proof (induction k arbitrary: acc)
  case 0
  then show ?case by simp
next
  case (Suc k)
  have top: "bit (ucast (ptr ! k) :: u64) m \<longleftrightarrow> bit (ptr ! k) m" if "m < 64" for m
    using that by (simp add: bit_ucast_iff)
  note step = Suc.IH [OF Suc.prems, of "push_bit 8 acc OR ucast (ptr ! k)"]
  consider "n < 8 * k" | "8 * k \<le> n" "n < 8 * Suc k" | "8 * Suc k \<le> n"
    by linarith
  then show ?case
  proof cases
    case 1
    with Suc show ?thesis by simp
  next
    case 2
    define m where "m = n - 8 * k"
    with 2 have n: "n = 8 * k + m" "m < 8"
      by simp_all
    then have "n div 8 = k" "n mod 8 = m"
      by simp_all
    moreover have "m < 64" using n by simp
    ultimately show ?thesis
      using n Suc.prems step by (simp add: bit_or_iff bit_push_bit_iff top)
  next
    case 3
    define m where "m = n - 8 * Suc k"
    with 3 have n: "n = 8 * k + 8 + m"
      by simp
    then have "\<not> bit (ptr ! k) (8 + m)"
      by (auto dest: bit_imp_le_length)
    with n Suc.prems step show ?thesis
      by (simp add: bit_or_iff bit_push_bit_iff top)
  qed
qed

lemma nth_fixed64: "i < 8 \<Longrightarrow> (fixed64 v @ rest) ! i = byte_of (drop_bit (8 * i) v)"
  by (simp add: PutFixed64_def nth_append)

lemma DecodeFixed64_fixed64 [simp, layout_simps]: "DecodeFixed64 (fixed64 v @ rest) = v"
proof (rule bit_word_eqI)
  fix n assume "n < LENGTH(64)"
  then have n: "n < 64" "n div 8 < 8"
    by simp_all
  have "8 * (n div 8) + n mod 8 = n"
    by simp
  with n show "bit (DecodeFixed64 (fixed64 v @ rest)) n = bit v n"
    by (simp add: DecodeFixed64_def bit_shift_in nth_fixed64 bit_byte_of bit_drop_bit_eq)
qed

text \<open>The decoders look at the first four or eight bytes only.\<close>

lemma DecodeFixed32_take: "4 \<le> k \<Longrightarrow> DecodeFixed32 (take k bs) = DecodeFixed32 bs"
  by (simp add: DecodeFixed32_def)

lemma DecodeFixed64_take: "8 \<le> k \<Longrightarrow> DecodeFixed64 (take k bs) = DecodeFixed64 bs"
  by (simp add: DecodeFixed64_def upt_0_8)

lemma fixed32_inj [simp]: "fixed32 v = fixed32 w \<longleftrightarrow> v = w"
  by (metis DecodeFixed32_fixed32)

lemma fixed64_inj [simp]: "fixed64 v = fixed64 w \<longleftrightarrow> v = w"
  by (metis DecodeFixed64_fixed64)

end
