(* ===== verification/Pebble_Crc32c.thy ===== *)
theory Pebble_Crc32c
  imports Pebble_Prelude
begin

text \<open>
  The table-driven CRC-32C of util/crc32c.hpp and util/crc32c.cpp.  The table of 256 words is the
  eightfold bit step of each byte value; \<open>ExtendCrc32c\<close> consumes one byte per table lookup and
  complements on entry and exit, so a checksum can be computed over consecutive buffers.

  The lemmas show that the table routine is the bit-serial shift register, that extending is
  concatenation, that the register is injective for a fixed input (so equal suffixes never
  repair a difference) and that every error confined to four consecutive bytes is detected.
\<close>

definition kPoly :: u32 where
  "kPoly = 0x82F63B78"

definition crc_bit :: "u32 \<Rightarrow> u32" where
  "crc_bit crc = (if crc AND 1 \<noteq> 0 then kPoly XOR drop_bit 1 crc else drop_bit 1 crc)"

definition kTable :: "u32 list" where
  "kTable = map (\<lambda>i. (crc_bit ^^ 8) (of_nat i)) [0..<256]"

definition crc_table_step :: "u32 \<Rightarrow> byte \<Rightarrow> u32" where
  "crc_table_step crc b = kTable ! unat ((crc XOR ucast b) AND 0xFF) XOR drop_bit 8 crc"

definition ExtendCrc32c :: "u32 \<Rightarrow> bytes \<Rightarrow> u32" where
  "ExtendCrc32c partial_crc data =
     foldl crc_table_step (partial_crc XOR 0xFFFFFFFF) data XOR 0xFFFFFFFF"

definition Crc32c :: "bytes \<Rightarrow> u32" where
  "Crc32c data = ExtendCrc32c 0 data"

subsection \<open>Extending is concatenation\<close>

lemma xor_cancel [simp]:
  "c XOR a = c XOR b \<longleftrightarrow> a = b" "a XOR c = b XOR c \<longleftrightarrow> a = b"
  for a b c :: u32
proof -
  show left: "c XOR a = c XOR b \<longleftrightarrow> a = b" for a b c :: u32
  proof
    assume "c XOR a = c XOR b"
    then have "(c XOR c) XOR a = (c XOR c) XOR b"
      by (simp only: xor.assoc)
    then show "a = b" by simp
  qed simp
  show "a XOR c = b XOR c \<longleftrightarrow> a = b"
    by (simp only: xor.commute [of _ c] left)
qed

lemma xor_twice [simp]: "(a XOR c) XOR c = a"
  for a c :: u32
  by (simp add: xor.assoc)

lemma ExtendCrc32c_append: "ExtendCrc32c (ExtendCrc32c c xs) ys = ExtendCrc32c c (xs @ ys)"
  by (simp add: ExtendCrc32c_def)

lemma ExtendCrc32c_Crc32c: "ExtendCrc32c (Crc32c xs) ys = Crc32c (xs @ ys)"
  by (simp add: Crc32c_def ExtendCrc32c_append)

lemma ExtendCrc32c_Nil [simp]: "ExtendCrc32c c [] = c"
  by (simp add: ExtendCrc32c_def)

subsection \<open>The bit-serial register\<close>

definition crc_serial_step :: "u32 \<Rightarrow> byte \<Rightarrow> u32" where
  "crc_serial_step crc b = (crc_bit ^^ 8) (crc XOR ucast b)"

lemma crc_bit_lsb: "crc_bit c = (if bit c 0 then kPoly XOR drop_bit 1 c else drop_bit 1 c)"
proof -
  have "c AND 1 \<noteq> 0 \<longleftrightarrow> bit c 0"
    by (metis and_one_eq bit_0 odd_iff_mod_2_eq_one zero_neq_one even_iff_mod_2_eq_zero)
  then show ?thesis by (simp add: crc_bit_def)
qed

lemma drop_bit_xor_word: "drop_bit n (a XOR b) = drop_bit n a XOR drop_bit n b"
  for a b :: u32
  by (rule bit_word_eqI) (simp add: bit_drop_bit_eq bit_xor_iff)

lemma crc_bit_xor: "crc_bit (a XOR b) = crc_bit a XOR crc_bit b"
  by (rule bit_word_eqI)
    (auto simp: crc_bit_lsb drop_bit_xor_word bit_xor_iff)

lemma crc_bits_xor: "(crc_bit ^^ n) (a XOR b) = (crc_bit ^^ n) a XOR (crc_bit ^^ n) b"
  by (induction n) (simp_all add: crc_bit_xor)

lemma crc_bits_shift:
  assumes "\<And>i. i < n \<Longrightarrow> \<not> bit c i"
  shows "(crc_bit ^^ n) c = drop_bit n c"
  using assms
proof (induction n)
  case 0
  then show ?case by simp
next
  case (Suc n)
  then have "(crc_bit ^^ n) c = drop_bit n c"
    by simp
  moreover have "\<not> bit (drop_bit n c) 0"
    using Suc.prems by (simp add: bit_drop_bit_eq)
  ultimately show ?case
    by (simp add: crc_bit_lsb [of "drop_bit n c"] drop_bit_drop_bit)
qed

lemma kTable_nth: "i < 256 \<Longrightarrow> kTable ! i = (crc_bit ^^ 8) (of_nat i)"
  by (simp add: kTable_def)

lemma unat_low_byte: "unat (c AND 0xFF) < 256"
  for c :: u32
proof -
  have "c AND 0xFF \<le> 0xFF"
    by (rule word_and_le1)
  then show ?thesis
    by (simp add: word_le_nat_alt)
qed

lemma bit_0xFF: "bit (0xFF :: u32) n \<longleftrightarrow> n < 8"
  using bit_mask_iff [where m = 8 and n = n and 'a = "32 word"]
  by (auto simp: mask_eq_exp_minus_1 possible_bit_word)

theorem crc_table_step_serial: "crc_table_step c b = crc_serial_step c b"
proof -
  define x where "x = c XOR ucast b"
  define M where "M = (0xFF :: u32)"
  have bit_M: "bit M n \<longleftrightarrow> n < 8" for n
    by (simp only: M_def bit_0xFF)
  have split: "x = (x AND M) XOR (x AND NOT M)"
    by (rule bit_word_eqI) (auto simp: bit_xor_iff bit_and_iff bit_not_iff)
  have high: "(crc_bit ^^ 8) (x AND NOT M) = drop_bit 8 (x AND NOT M)"
    by (rule crc_bits_shift) (simp add: bit_and_iff bit_not_iff bit_M)
  have "bit (ucast b :: u32) n \<Longrightarrow> n < 8" for n
    by (auto simp: bit_ucast_iff dest: bit_imp_le_length)
  then have low: "drop_bit 8 (x AND NOT M) = drop_bit 8 c"
    by (intro bit_word_eqI)
      (auto simp: bit_drop_bit_eq bit_and_iff bit_not_iff bit_M x_def bit_xor_iff
        dest: bit_imp_le_length)
  have "(crc_bit ^^ 8) x = (crc_bit ^^ 8) ((x AND M) XOR (x AND NOT M))"
    using split by simp
  also have "\<dots> = (crc_bit ^^ 8) (x AND M) XOR drop_bit 8 c"
    by (simp only: crc_bits_xor high low)
  also have "(crc_bit ^^ 8) (x AND M) = kTable ! unat (x AND M)"
    using unat_low_byte [of x] by (simp add: M_def kTable_nth)
  finally show ?thesis
    by (simp add: crc_table_step_def crc_serial_step_def x_def M_def)
qed

corollary ExtendCrc32c_serial:
  "ExtendCrc32c c data = foldl crc_serial_step (c XOR 0xFFFFFFFF) data XOR 0xFFFFFFFF"
proof -
  have "crc_table_step = crc_serial_step"
    by (intro ext) (rule crc_table_step_serial)
  then show ?thesis by (simp add: ExtendCrc32c_def)
qed

subsection \<open>Error detection\<close>

lemma crc_bit_top: "bit (crc_bit c) 31 \<longleftrightarrow> bit c 0"
proof -
  have "bit kPoly 31"
    by (simp add: kPoly_def)
  then show ?thesis
    by (auto simp: crc_bit_lsb bit_xor_iff bit_drop_bit_eq dest: bit_imp_le_length)
qed

lemma crc_bit_inj: "crc_bit a = crc_bit b \<Longrightarrow> a = b"
proof -
  assume eq: "crc_bit a = crc_bit b"
  then have lsb: "bit a 0 = bit b 0"
    by (metis crc_bit_top)
  then have "drop_bit 1 a = drop_bit 1 b"
    using eq unfolding crc_bit_lsb [of a] crc_bit_lsb [of b] by (simp split: if_splits)
  then have "bit (drop_bit 1 a) n = bit (drop_bit 1 b) n" for n
    by simp
  then have "bit a (Suc n) = bit b (Suc n)" for n
    by (simp add: bit_drop_bit_eq)
  with lsb show "a = b"
    by (intro bit_word_eqI) (metis not0_implies_Suc)
qed

lemma crc_bits_inj: "(crc_bit ^^ n) a = (crc_bit ^^ n) b \<longleftrightarrow> a = b"
  by (induction n) (auto dest: crc_bit_inj)

lemma crc_serial_step_inj: "crc_serial_step a x = crc_serial_step b x \<longleftrightarrow> a = b"
  unfolding crc_serial_step_def crc_bits_inj by simp

lemma crc_serial_inj: "foldl crc_serial_step a xs = foldl crc_serial_step b xs \<longleftrightarrow> a = b"
  by (induction xs arbitrary: a b) (simp_all add: crc_serial_step_inj)

text \<open>Up to four bytes enter the register as one little-endian word.\<close>

fun le_word :: "bytes \<Rightarrow> u32" where
  "le_word [] = 0"
| "le_word (b # bs) = ucast b XOR push_bit 8 (le_word bs)"

lemma bit_le_word: "length bs \<le> 4 \<Longrightarrow> n < 32 \<Longrightarrow> bit (le_word bs) n \<longleftrightarrow>
    n div 8 < length bs \<and> bit (bs ! (n div 8)) (n mod 8)"
proof (induction bs arbitrary: n)
  case Nil
  then show ?case by simp
next
  case (Cons b bs)
  have top: "bit b n \<Longrightarrow> n < 8"
    by (auto dest: bit_imp_le_length)
  show ?case
  proof (cases "n < 8")
    case True
    with Cons.prems show ?thesis
      by (simp add: bit_xor_iff bit_push_bit_iff bit_ucast_iff)
  next
    case False
    then have "n div 8 = Suc ((n - 8) div 8)" "n mod 8 = (n - 8) mod 8"
      by (simp_all add: le_div_geq le_mod_geq)
    with False top Cons.prems Cons.IH [of "n - 8"] show ?thesis
      by (auto simp: bit_xor_iff bit_push_bit_iff bit_ucast_iff)
  qed
qed

lemma le_word_inj:
  assumes "length xs = length ys" and "length ys \<le> 4" and "le_word xs = le_word ys"
  shows "xs = ys"
proof (rule nth_equalityI)
  fix i assume i: "i < length xs"
  show "xs ! i = ys ! i"
  proof (rule bit_word_eqI)
    fix n assume "n < LENGTH(8)"
    with i assms(1,2) have "(8 * i + n) div 8 = i" "(8 * i + n) mod 8 = n" "8 * i + n < 32"
      by simp_all
    with bit_le_word [of xs "8 * i + n"] bit_le_word [of ys "8 * i + n"] assms i
    show "bit (xs ! i) n = bit (ys ! i) n"
      by simp
  qed
qed (fact assms(1))

lemma crc_serial_word:
  "length bs \<le> 4 \<Longrightarrow> foldl crc_serial_step s bs = (crc_bit ^^ (8 * length bs)) (s XOR le_word bs)"
proof (induction bs arbitrary: s)
  case Nil
  then show ?case by simp
next
  case (Cons b bs)
  then have len: "length bs \<le> 3"
    by simp
  have "(crc_bit ^^ 8) (push_bit 8 (le_word bs)) = drop_bit 8 (push_bit 8 (le_word bs))"
    by (rule crc_bits_shift) (simp add: bit_push_bit_iff)
  also have "\<dots> = le_word bs"
    using len by (intro bit_word_eqI) (auto simp: bit_drop_bit_eq bit_push_bit_iff bit_le_word)
  finally have unshift: "le_word bs = (crc_bit ^^ 8) (push_bit 8 (le_word bs))"
    by simp
  have "foldl crc_serial_step s (b # bs) =
      (crc_bit ^^ (8 * length bs)) ((crc_bit ^^ 8) (s XOR ucast b) XOR le_word bs)"
    using Cons.IH len by (simp add: crc_serial_step_def [of s b])
  also have "\<dots> = (crc_bit ^^ (8 * length bs)) ((crc_bit ^^ 8) ((s XOR ucast b) XOR push_bit 8 (le_word bs)))"
    by (subst unshift) (simp only: crc_bits_xor)
  finally have "foldl crc_serial_step s (b # bs) =
      (crc_bit ^^ (8 * length bs + 8)) (s XOR le_word (b # bs))"
    by (simp only: funpow_add comp_apply le_word.simps xor.assoc)
  moreover have "8 * length (b # bs) = 8 * length bs + 8"
    by simp
  ultimately show ?case
    by (simp only:)
qed

theorem Crc32c_detects_burst:
  assumes "length xs = length ys" and "length ys \<le> 4" and "xs \<noteq> ys"
  shows "Crc32c (pre @ xs @ suf) \<noteq> Crc32c (pre @ ys @ suf)"
proof
  assume "Crc32c (pre @ xs @ suf) = Crc32c (pre @ ys @ suf)"
  then have "foldl crc_serial_step 0xFFFFFFFF (pre @ xs @ suf) =
      foldl crc_serial_step 0xFFFFFFFF (pre @ ys @ suf)"
    unfolding Crc32c_def ExtendCrc32c_serial xor_cancel xor.left_neutral .
  then have "foldl crc_serial_step s xs = foldl crc_serial_step s ys"
    if "s = foldl crc_serial_step 0xFFFFFFFF pre" for s
    using that by (simp add: crc_serial_inj)
  then have "le_word xs = le_word ys"
    using assms by (simp add: crc_serial_word crc_bits_inj)
  with assms show False
    by (blast dest: le_word_inj)
qed

text \<open>The check value of the CRC-32C specification, the checksum of the digits 1 to 9.\<close>

lemma Crc32c_check_value:
  "Crc32c [0x31, 0x32, 0x33, 0x34, 0x35, 0x36, 0x37, 0x38, 0x39] = 0xE3069283"
proof -
  have eight: "(crc_bit ^^ 8) c = crc_bit (crc_bit (crc_bit (crc_bit (crc_bit (crc_bit (crc_bit
      (crc_bit c)))))))" for c
    by (simp add: numeral_eq_Suc)
  show ?thesis
    by (simp add: Crc32c_def ExtendCrc32c_serial crc_serial_step_def eight crc_bit_def kPoly_def)
qed

end
