(* ===== verification/Pebble_Status.thy ===== *)
theory Pebble_Status
  imports Pebble_Prelude
begin

text \<open>
  The error model and the shared enumerations: \<open>Status\<close> and \<open>StatusCode\<close> (status.hpp/.cpp),
  \<open>EntryType\<close> (entry_type.hpp/.cpp) and \<open>LookupResult\<close> (lookup_result.hpp/.cpp).
  Every fallible operation of the source returns a \<open>Status\<close> by value; the models return it
  beside their other outputs.
\<close>

subsection \<open>Status\<close>

datatype status_code = kOk | kNotFound | kCorruption | kIOError | kInvalidArgument | kNotSupported

datatype status = Status (code: status_code) (message: string)

definition status_OK :: status where
  "status_OK = Status kOk ''''"

definition NotFound :: "string \<Rightarrow> status" where
  "NotFound msg = Status kNotFound msg"

definition Corruption :: "string \<Rightarrow> status" where
  "Corruption msg = Status kCorruption msg"

definition IOError :: "string \<Rightarrow> status" where
  "IOError msg = Status kIOError msg"

definition InvalidArgument :: "string \<Rightarrow> status" where
  "InvalidArgument msg = Status kInvalidArgument msg"

definition NotSupported :: "string \<Rightarrow> status" where
  "NotSupported msg = Status kNotSupported msg"

definition ok :: "status \<Rightarrow> bool" where
  "ok s \<longleftrightarrow> code s = kOk"

definition IsNotFound :: "status \<Rightarrow> bool" where
  "IsNotFound s \<longleftrightarrow> code s = kNotFound"

definition IsCorruption :: "status \<Rightarrow> bool" where
  "IsCorruption s \<longleftrightarrow> code s = kCorruption"

definition IsIOError :: "status \<Rightarrow> bool" where
  "IsIOError s \<longleftrightarrow> code s = kIOError"

fun CodeName :: "status_code \<Rightarrow> string" where
  "CodeName kOk = ''OK''"
| "CodeName kNotFound = ''NotFound''"
| "CodeName kCorruption = ''Corruption''"
| "CodeName kIOError = ''IOError''"
| "CodeName kInvalidArgument = ''InvalidArgument''"
| "CodeName kNotSupported = ''NotSupported''"

definition status_ToString :: "status \<Rightarrow> string" where
  "status_ToString s =
     (if ok s then ''OK''
      else let result = CodeName (code s)
           in if message s \<noteq> '''' then (result @ '': '') @ message s else result)"

lemma code_of_status [simp, status_simps]:
  "code status_OK = kOk"
  "code (NotFound m) = kNotFound"
  "code (Corruption m) = kCorruption"
  "code (IOError m) = kIOError"
  "code (InvalidArgument m) = kInvalidArgument"
  "code (NotSupported m) = kNotSupported"
  by (simp_all add: status_OK_def NotFound_def Corruption_def IOError_def InvalidArgument_def
      NotSupported_def)

lemma ok_of_status [simp, status_simps]:
  "ok status_OK"
  "\<not> ok (NotFound m)"
  "\<not> ok (Corruption m)"
  "\<not> ok (IOError m)"
  "\<not> ok (InvalidArgument m)"
  "\<not> ok (NotSupported m)"
  by (simp_all add: ok_def)

lemma IsNotFound_of_status [simp, status_simps]:
  "\<not> IsNotFound status_OK"
  "IsNotFound (NotFound m)"
  "\<not> IsNotFound (Corruption m)"
  "\<not> IsNotFound (IOError m)"
  "\<not> IsNotFound (InvalidArgument m)"
  "\<not> IsNotFound (NotSupported m)"
  by (simp_all add: IsNotFound_def)

lemma ok_not_IsNotFound: "ok s \<Longrightarrow> \<not> IsNotFound s"
  by (simp add: ok_def IsNotFound_def)

lemma CodeName_inj: "CodeName c = CodeName d \<longleftrightarrow> c = d"
  by (cases c; cases d) simp_all

lemma CodeName_no_colon: "CHR '':'' \<notin> set (CodeName c)"
  by (cases c) simp_all

text \<open>The printed form determines the code: the name has no colon and a message follows one.\<close>

lemma status_ToString_prefix:
  "takeWhile (\<lambda>c. c \<noteq> CHR '':'') (status_ToString s) = CodeName (code s)"
proof -
  have "\<And>c. c \<in> set (CodeName (code s)) \<Longrightarrow> c \<noteq> CHR '':''"
    using CodeName_no_colon [of "code s"] by blast
  then show ?thesis
    by (auto simp: status_ToString_def ok_def Let_def takeWhile_append2)
qed

subsection \<open>Entry types and lookup results\<close>

datatype entry_type = kValue | kTombstone

fun entry_type_byte :: "entry_type \<Rightarrow> byte" where
  "entry_type_byte kValue = 1"
| "entry_type_byte kTombstone = 2"

fun EntryTypeName :: "entry_type \<Rightarrow> string" where
  "EntryTypeName kValue = ''Value''"
| "EntryTypeName kTombstone = ''Tombstone''"

datatype lookup_result = kFound | kDeleted | kLookupNotFound

fun LookupResultName :: "lookup_result \<Rightarrow> string" where
  "LookupResultName kFound = ''Found''"
| "LookupResultName kDeleted = ''Deleted''"
| "LookupResultName kLookupNotFound = ''NotFound''"

lemma entry_type_byte_inj [simp]: "entry_type_byte t = entry_type_byte u \<longleftrightarrow> t = u"
  by (cases t; cases u) simp_all

end
