(* ===== verification/Pebble_Sst_Format.thy ===== *)
theory Pebble_Sst_Format
  imports Pebble_Codec Pebble_Coding Pebble_Crc32c Pebble_Status
begin

text \<open>
  The sorted table format (sstable/format.hpp, sstable/format.cpp): entries, index entries, blocks with
  their trailer, and the footer.  Shown here: entries and index entries are codecs in the sense of
  \<open>item_codec\<close>; a block gives back its contents and a change confined to four consecutive bytes of it is
  refused; a footer gives back its fields.
\<close>

definition sst_kMagic :: u32 where
  "sst_kMagic = 0x50425354"

definition sst_kFormatVersion :: byte where
  "sst_kFormatVersion = 1"

definition kEntryHeaderSize :: nat where
  "kEntryHeaderSize = 1 + 8 + 4 + 4"

definition kBlockTrailerSize :: nat where
  "kBlockTrailerSize = 1 + 4"

datatype compression_type = kNone

fun compression_byte :: "compression_type \<Rightarrow> byte" where
  "compression_byte kNone = 0"

record block_handle =
  bh_offset :: u64
  bh_size :: u64

record index_entry =
  ie_last_key :: bytes
  ie_handle :: block_handle

definition kFooterSize :: nat where
  "kFooterSize = 4 + 4 + 1 + 16 + 16 + 8"

record footer =
  ft_stored_checksum :: u32
  ft_format_version :: byte
  ft_index_handle :: block_handle
  ft_filter_handle :: block_handle
  ft_num_entries :: u64

datatype sst_decode_status =
  SstOk | SstTruncated | SstBadMagic | SstUnsupportedVersion | SstChecksumMismatch
| SstBadEntryType | SstUnsupportedCompression

fun sst_DecodeStatusName :: "sst_decode_status \<Rightarrow> string" where
  "sst_DecodeStatusName SstOk = ''Ok''"
| "sst_DecodeStatusName SstTruncated = ''Truncated''"
| "sst_DecodeStatusName SstBadMagic = ''BadMagic''"
| "sst_DecodeStatusName SstUnsupportedVersion = ''UnsupportedVersion''"
| "sst_DecodeStatusName SstChecksumMismatch = ''ChecksumMismatch''"
| "sst_DecodeStatusName SstBadEntryType = ''BadEntryType''"
| "sst_DecodeStatusName SstUnsupportedCompression = ''UnsupportedCompression''"

record sst_entry =
  se_key :: bytes
  se_sequence :: u64
  se_type :: entry_type
  se_value :: bytes

subsection \<open>Entries\<close>

definition EncodeEntry :: "bytes \<Rightarrow> u64 \<Rightarrow> entry_type \<Rightarrow> bytes \<Rightarrow> bytes \<Rightarrow> bytes" where
  "EncodeEntry key sequence type val dst =
     (let is_tombstone = (type = kTombstone);
          key_length = of_nat (length key) :: u32;
          value_length = (if is_tombstone then 0 else of_nat (length val)) :: u32;
          dst = dst @ [entry_type_byte type];
          dst = PutFixed64 dst sequence;
          dst = PutFixed32 dst key_length;
          dst = PutFixed32 dst value_length;
          dst = dst @ key
      in if \<not> is_tombstone then dst @ val else dst)"

definition DecodeEntry :: "bytes \<Rightarrow> sst_decode_status + sst_entry \<times> bytes" where
  "DecodeEntry input =
     (if length input < kEntryHeaderSize then Inl SstTruncated
      else
        let type_byte = input ! 0
        in if type_byte \<noteq> entry_type_byte kValue \<and> type_byte \<noteq> entry_type_byte kTombstone
           then Inl SstBadEntryType
           else
             let sequence = DecodeFixed64 (drop 1 input);
                 key_length = unat (DecodeFixed32 (drop 9 input));
                 value_length = unat (DecodeFixed32 (drop 13 input));
                 total = kEntryHeaderSize + key_length + value_length
             in if length input < total then Inl SstTruncated
                else Inr (\<lparr>se_key = take key_length (drop kEntryHeaderSize input),
                       se_sequence = sequence,
                       se_type = (if type_byte = entry_type_byte kValue then kValue else kTombstone),
                       se_value = take value_length (drop (kEntryHeaderSize + key_length) input)\<rparr>,
                       drop total input))"

definition EncodeIndexEntry :: "index_entry \<Rightarrow> bytes \<Rightarrow> bytes" where
  "EncodeIndexEntry entry dst =
     (let dst = PutFixed32 dst (of_nat (length (ie_last_key entry)));
          dst = dst @ ie_last_key entry;
          dst = PutFixed64 dst (bh_offset (ie_handle entry))
      in PutFixed64 dst (bh_size (ie_handle entry)))"

definition DecodeIndexEntry :: "bytes \<Rightarrow> sst_decode_status + index_entry \<times> bytes" where
  "DecodeIndexEntry input =
     (let fixed_part = 4 + 8 + 8
      in if length input < 4 then Inl SstTruncated
         else
           let key_length = unat (DecodeFixed32 input);
               total = fixed_part + key_length
           in if length input < total then Inl SstTruncated
              else Inr (\<lparr>ie_last_key = take key_length (drop 4 input),
                     ie_handle = \<lparr>bh_offset = DecodeFixed64 (drop (4 + key_length) input),
                                  bh_size = DecodeFixed64 (drop (4 + key_length + 8) input)\<rparr>\<rparr>,
                     drop total input))"

subsection \<open>Blocks\<close>

definition FinishBlock :: "bytes \<Rightarrow> bytes \<Rightarrow> bytes \<times> nat" where
  "FinishBlock block_contents dst =
     (let start = length dst;
          dst = dst @ block_contents;
          dst = dst @ [compression_byte kNone];
          crc = Crc32c block_contents;
          crc = ExtendCrc32c crc [last dst];
          dst = PutFixed32 dst crc
      in (dst, length dst - start))"

definition VerifyAndStripBlockTrailer :: "bytes \<Rightarrow> sst_decode_status + bytes" where
  "VerifyAndStripBlockTrailer raw_block =
     (if length raw_block < kBlockTrailerSize then Inl SstTruncated
      else
        let entries_len = length raw_block - kBlockTrailerSize;
            entries = take entries_len raw_block
        in if raw_block ! entries_len \<noteq> compression_byte kNone then Inl SstUnsupportedCompression
           else
             let stored_checksum = DecodeFixed32 (drop (entries_len + 1) raw_block);
                 computed = Crc32c entries;
                 computed = ExtendCrc32c computed [raw_block ! entries_len]
             in if computed \<noteq> stored_checksum then Inl SstChecksumMismatch else Inr entries)"

subsection \<open>The footer\<close>

definition footer_body :: "footer \<Rightarrow> bytes" where
  "footer_body f =
     (let body = PutFixed32 [] sst_kMagic;
          body = body @ [ft_format_version f];
          body = PutFixed64 body (bh_offset (ft_index_handle f));
          body = PutFixed64 body (bh_size (ft_index_handle f));
          body = PutFixed64 body (bh_offset (ft_filter_handle f));
          body = PutFixed64 body (bh_size (ft_filter_handle f))
      in PutFixed64 body (ft_num_entries f))"

definition EncodeFooter :: "footer \<Rightarrow> bytes \<Rightarrow> bytes" where
  "EncodeFooter f dst =
     (let body = footer_body f;
          checksum = Crc32c body
      in PutFixed32 dst checksum @ body)"

definition DecodeFooter :: "bytes \<Rightarrow> sst_decode_status + footer" where
  "DecodeFooter footer_bytes =
     (if length footer_bytes < kFooterSize then Inl SstTruncated
      else if DecodeFixed32 (drop 4 footer_bytes) \<noteq> sst_kMagic then Inl SstBadMagic
      else
        let format_version = footer_bytes ! 8
        in if format_version = 0 \<or> sst_kFormatVersion < format_version then Inl SstUnsupportedVersion
           else
             let stored_checksum = DecodeFixed32 footer_bytes;
                 computed = Crc32c (take (kFooterSize - 4) (drop 4 footer_bytes))
             in if computed \<noteq> stored_checksum then Inl SstChecksumMismatch
                else Inr \<lparr>ft_stored_checksum = stored_checksum,
                       ft_format_version = format_version,
                       ft_index_handle = \<lparr>bh_offset = DecodeFixed64 (drop 9 footer_bytes),
                                          bh_size = DecodeFixed64 (drop 17 footer_bytes)\<rparr>,
                       ft_filter_handle = \<lparr>bh_offset = DecodeFixed64 (drop 25 footer_bytes),
                                           bh_size = DecodeFixed64 (drop 33 footer_bytes)\<rparr>,
                       ft_num_entries = DecodeFixed64 (drop 41 footer_bytes)\<rparr>)"

subsection \<open>Round trips\<close>

definition entry_enc :: "sst_entry \<Rightarrow> bytes" where
  "entry_enc e = EncodeEntry (se_key e) (se_sequence e) (se_type e) (se_value e) []"

definition entry_valid :: "sst_entry \<Rightarrow> bool" where
  "entry_valid e \<longleftrightarrow> length (se_key e) < 2 ^ 32 \<and> length (se_value e) < 2 ^ 32 \<and>
     (se_type e = kTombstone \<longrightarrow> se_value e = [])"

definition index_enc :: "index_entry \<Rightarrow> bytes" where
  "index_enc e = EncodeIndexEntry e []"

definition index_valid :: "index_entry \<Rightarrow> bool" where
  "index_valid e \<longleftrightarrow> length (ie_last_key e) < 2 ^ 32"

lemma EncodeEntry_append: "EncodeEntry k q t v dst = dst @ EncodeEntry k q t v []"
  by (simp add: EncodeEntry_def PutFixed32_append [of "_ @ _"] PutFixed64_append [of "_ @ _"]
      PutFixed64_append [of "[_]"] PutFixed32_append [of "_ # _"] Let_def)

lemma EncodeIndexEntry_append: "EncodeIndexEntry e dst = dst @ EncodeIndexEntry e []"
  by (simp add: EncodeIndexEntry_def PutFixed32_append [of dst] PutFixed64_append [of "_ @ _"] Let_def)

lemma entry_enc_layout:
  "entry_valid e \<Longrightarrow> entry_enc e = [entry_type_byte (se_type e)] @ fixed64 (se_sequence e) @
     fixed32 (of_nat (length (se_key e))) @ fixed32 (of_nat (length (se_value e))) @ se_key e @ se_value e"
  by (auto simp: entry_enc_def entry_valid_def EncodeEntry_def Let_def PutFixed32_append [of "_ # _"]
      PutFixed64_append [of "[_]"])

lemma index_enc_layout:
  "index_enc e = fixed32 (of_nat (length (ie_last_key e))) @ ie_last_key e @
     fixed64 (bh_offset (ie_handle e)) @ fixed64 (bh_size (ie_handle e))"
  by (simp add: index_enc_def EncodeIndexEntry_def Let_def PutFixed64_append [of "_ @ _"])

lemma DecodeFixed_whole [simp]: "DecodeFixed32 (fixed32 v) = v" "DecodeFixed64 (fixed64 u) = u"
  using DecodeFixed32_fixed32 [of v "[]"] DecodeFixed64_fixed64 [of u "[]"] by simp_all

lemma unat_length_32: "n < 2 ^ 32 \<Longrightarrow> unat (of_nat n :: u32) = n"
  by (simp add: unat_of_nat)

lemma entry_type_byte_1 [simp]: "entry_type_byte t = 1 \<longleftrightarrow> t = kValue"
  by (cases t) simp_all

lemma DecodeEntry_enc:
  assumes "entry_valid e"
  shows "DecodeEntry (entry_enc e @ rest) = Inr (e, rest)"
proof -
  define tail where "tail = se_key e @ se_value e @ rest"
  define input where "input = [entry_type_byte (se_type e)] @ fixed64 (se_sequence e) @
    fixed32 (of_nat (length (se_key e))) @ fixed32 (of_nat (length (se_value e))) @ tail"
  have eq: "entry_enc e @ rest = input"
    using assms by (simp add: entry_enc_layout input_def tail_def)
  have lens: "unat (of_nat (length (se_key e)) :: u32) = length (se_key e)"
    "unat (of_nat (length (se_value e)) :: u32) = length (se_value e)"
    using assms by (simp_all add: entry_valid_def unat_length_32 del: One_nat_def)
  have parts: "input ! 0 = entry_type_byte (se_type e)" "DecodeFixed64 (drop 1 input) = se_sequence e"
    "DecodeFixed32 (drop 9 input) = of_nat (length (se_key e))"
    "DecodeFixed32 (drop 13 input) = of_nat (length (se_value e))"
    "length input = 17 + length tail"
    by (simp_all add: input_def)
  define pre where "pre = [entry_type_byte (se_type e)] @ fixed64 (se_sequence e) @
    fixed32 (of_nat (length (se_key e))) @ fixed32 (of_nat (length (se_value e)))"
  have "drop (length pre + n) (pre @ tail) = drop n tail" for n
    by simp
  moreover have "input = pre @ tail" "length pre = 17"
    by (simp_all add: input_def pre_def)
  ultimately have behind: "drop (17 + n) input = drop n tail" for n
    by simp
  have type: "entry_type_byte (se_type e) \<noteq> entry_type_byte kValue \<and>
      entry_type_byte (se_type e) \<noteq> entry_type_byte kTombstone \<longleftrightarrow> False"
    by (cases "se_type e") simp_all
  have "DecodeEntry input = Inr (e, rest)"
    using behind [of 0]
    by (cases "se_type e")
      (simp_all add: DecodeEntry_def kEntryHeaderSize_def parts lens type Let_def add.assoc behind
        tail_def del: One_nat_def)
  then show ?thesis by (simp only: eq)
qed

lemma DecodeEntry_shrinks: "DecodeEntry bs = Inr (e, rest) \<Longrightarrow> length rest < length bs"
  by (auto simp: DecodeEntry_def Let_def kEntryHeaderSize_def split: if_splits)

lemma DecodeIndexEntry_enc:
  assumes "index_valid e"
  shows "DecodeIndexEntry (index_enc e @ rest) = Inr (e, rest)"
proof -
  have "unat (of_nat (length (ie_last_key e)) :: u32) = length (ie_last_key e)"
    using assms by (simp add: index_valid_def unat_length_32)
  then show ?thesis
    by (simp add: DecodeIndexEntry_def index_enc_layout Let_def)
qed

lemma DecodeIndexEntry_shrinks: "DecodeIndexEntry bs = Inr (e, rest) \<Longrightarrow> length rest < length bs"
  by (auto simp: DecodeIndexEntry_def Let_def split: if_splits)

interpretation entries: item_codec entry_enc DecodeEntry entry_valid
  by unfold_locales (simp_all add: DecodeEntry_enc DecodeEntry_shrinks)

interpretation index: item_codec index_enc DecodeIndexEntry index_valid
  by unfold_locales (simp_all add: DecodeIndexEntry_enc DecodeIndexEntry_shrinks)

lemma FinishBlock_layout:
  "FinishBlock c dst = (dst @ c @ [0] @ fixed32 (Crc32c (c @ [0])), length c + kBlockTrailerSize)"
  by (simp add: FinishBlock_def ExtendCrc32c_Crc32c PutFixed32_append [of "_ @ _"] kBlockTrailerSize_def
      Let_def)

lemma VerifyAndStripBlockTrailer_split:
  "VerifyAndStripBlockTrailer (e @ [b] @ fixed32 k) =
    (if b \<noteq> 0 then Inl SstUnsupportedCompression
     else if Crc32c (e @ [b]) \<noteq> k then Inl SstChecksumMismatch else Inr e)"
  by (simp add: VerifyAndStripBlockTrailer_def kBlockTrailerSize_def ExtendCrc32c_Crc32c Let_def)

theorem VerifyAndStripBlockTrailer_FinishBlock:
  "VerifyAndStripBlockTrailer (fst (FinishBlock c [])) = Inr c"
  unfolding FinishBlock_layout fst_conv append_Nil VerifyAndStripBlockTrailer_split by simp

text \<open>
  A block whose contents or trailer byte differ from what was written within a window of four bytes is
  refused, whatever the position.
\<close>

theorem damaged_block_refused:
  assumes "c @ [0] = pre @ xs @ suf" and "length xs = length ys" and "length ys \<le> 4" and "xs \<noteq> ys"
  shows "\<exists>s. VerifyAndStripBlockTrailer (pre @ ys @ suf @ fixed32 (Crc32c (c @ [0]))) = Inl s \<and>
    s \<in> {SstUnsupportedCompression, SstChecksumMismatch}"
proof -
  define d where "d = pre @ ys @ suf"
  have len: "length d = length c + 1"
    using arg_cong [OF assms(1), of length] assms(2) by (simp add: d_def)
  then obtain e b where d: "d = e @ [b]" "length e = length c"
    by (cases d rule: rev_cases) auto
  have "Crc32c d \<noteq> Crc32c (c @ [0])"
    unfolding d_def assms(1) using Crc32c_detects_burst [OF assms(2-4), of pre suf] by (rule not_sym)
  then have differ: "Crc32c (e @ [b]) \<noteq> Crc32c (c @ [0])"
    unfolding d(1) .
  have "pre @ ys @ suf @ fixed32 (Crc32c (c @ [0])) = e @ [b] @ fixed32 (Crc32c (c @ [0]))"
    using d(1) by (simp add: d_def)
  moreover define s where "s = (if b \<noteq> 0 then SstUnsupportedCompression else SstChecksumMismatch)"
  ultimately have "VerifyAndStripBlockTrailer (pre @ ys @ suf @ fixed32 (Crc32c (c @ [0]))) = Inl s"
    using VerifyAndStripBlockTrailer_split [of e b "Crc32c (c @ [0])"] differ
    by (simp only: if_True not_False_eq_True split: if_split) blast
  then show ?thesis
    by (auto simp: s_def)
qed

lemma length_footer_body [simp]: "length (footer_body f) = 45"
  by (simp add: footer_body_def Let_def)

theorem DecodeFooter_EncodeFooter:
  assumes "ft_format_version f = sst_kFormatVersion"
  shows "DecodeFooter (EncodeFooter f []) = Inr (f\<lparr>ft_stored_checksum := Crc32c (footer_body f)\<rparr>)"
proof -
  define body where "body = footer_body f"
  have layout: "body = fixed32 sst_kMagic @ [ft_format_version f] @
      fixed64 (bh_offset (ft_index_handle f)) @ fixed64 (bh_size (ft_index_handle f)) @
      fixed64 (bh_offset (ft_filter_handle f)) @ fixed64 (bh_size (ft_filter_handle f)) @
      fixed64 (ft_num_entries f) @ []"
    by (simp add: body_def footer_body_def Let_def PutFixed64_append [of "_ @ _"])
  have enc: "EncodeFooter f [] = fixed32 (Crc32c body) @ body"
    by (simp add: EncodeFooter_def body_def Let_def)
  define h where "h = fixed32 (Crc32c body) @ body"
  have fields: "DecodeFixed32 h = Crc32c body" "DecodeFixed32 (drop 4 h) = sst_kMagic"
    "h ! 8 = ft_format_version f" "take (kFooterSize - 4) (drop 4 h) = body"
    "DecodeFixed64 (drop 9 h) = bh_offset (ft_index_handle f)"
    "DecodeFixed64 (drop 17 h) = bh_size (ft_index_handle f)"
    "DecodeFixed64 (drop 25 h) = bh_offset (ft_filter_handle f)"
    "DecodeFixed64 (drop 33 h) = bh_size (ft_filter_handle f)"
    "DecodeFixed64 (drop 41 h) = ft_num_entries f" "\<not> length h < kFooterSize"
    by (simp_all add: h_def layout kFooterSize_def nth_append)
  have "DecodeFooter h = Inr (f\<lparr>ft_stored_checksum := Crc32c body\<rparr>)"
    unfolding DecodeFooter_def fields Let_def using assms
    by (simp add: fields sst_kFormatVersion_def)
  then show ?thesis
    by (simp add: enc h_def body_def)
qed

lemma length_EncodeFooter [simp]: "length (EncodeFooter f []) = kFooterSize"
  by (simp add: EncodeFooter_def kFooterSize_def Let_def)

lemma EncodeFooter_append: "EncodeFooter f dst = dst @ EncodeFooter f []"
  by (simp add: EncodeFooter_def PutFixed32_append [of dst] Let_def)

end
