(* ===== verification/Pebble_Filenames.thy ===== *)
theory Pebble_Filenames
  imports Pebble_Prelude
begin

text \<open>
  The numbered file names of a database directory (util/filenames.hpp, util/filenames.cpp) and the
  decimal rendering behind them.  The lemmas show that a name determines its number and its kind,
  so a WAL segment, a table and the manifest never share a path.
\<close>

fun decimal :: "nat \<Rightarrow> string" where
  "decimal n =
     (if n < 10 then [char_of (48 + n)] else decimal (n div 10) @ [char_of (48 + n mod 10)])"

declare decimal.simps [simp del]

definition pad6 :: "string \<Rightarrow> string" where
  "pad6 digits = replicate (6 - length digits) CHR ''0'' @ digits"

definition NumberedFileName :: "string \<Rightarrow> u64 \<Rightarrow> string \<Rightarrow> string" where
  "NumberedFileName dbname file_number extension =
     ((dbname @ ''/'') @ pad6 (decimal (unat file_number))) @ extension"

definition WalFileName :: "string \<Rightarrow> u64 \<Rightarrow> string" where
  "WalFileName dbname file_number = NumberedFileName dbname file_number ''.wal''"

definition SstableFileName :: "string \<Rightarrow> u64 \<Rightarrow> string" where
  "SstableFileName dbname file_number = NumberedFileName dbname file_number ''.sst''"

subsection \<open>A rendered number determines the number\<close>

definition digits_value :: "string \<Rightarrow> nat" where
  "digits_value s = foldl (\<lambda>acc c. 10 * acc + (of_char c - 48)) 0 s"

lemma digits_value_append:
  "digits_value (s @ [c]) = 10 * digits_value s + (of_char c - 48)"
  by (simp add: digits_value_def)

lemma of_char_digit: "d < 10 \<Longrightarrow> (of_char (char_of (48 + d)) :: nat) = 48 + d"
  by (simp add: of_char_of take_bit_eq_mod)

lemma digits_value_decimal: "digits_value (decimal n) = n"
proof (induction n rule: decimal.induct)
  case (1 n)
  show ?case
  proof (cases "n < 10")
    case True
    then show ?thesis
      by (simp add: decimal.simps [of n] digits_value_def of_char_digit)
  next
    case False
    with 1 have "digits_value (decimal (n div 10)) = n div 10"
      by simp
    with False show ?thesis
      by (simp add: decimal.simps [of n] digits_value_append of_char_digit)
  qed
qed

lemma digits_value_zeros: "digits_value (replicate k CHR ''0'' @ s) = digits_value s"
  by (induction k) (simp_all add: digits_value_def)

lemma digits_value_pad6: "digits_value (pad6 (decimal n)) = n"
  by (simp add: pad6_def digits_value_zeros digits_value_decimal)

subsection \<open>Names are distinct\<close>

lemma append_eq_same_suffix_length:
  "length e = length f \<Longrightarrow> a @ e = b @ f \<longleftrightarrow> a = b \<and> e = f"
  by simp

lemma NumberedFileName_eq:
  assumes "length e = length f"
  shows "NumberedFileName d m e = NumberedFileName d n f \<longleftrightarrow> m = n \<and> e = f"
proof -
  have "pad6 (decimal (unat m)) = pad6 (decimal (unat n)) \<Longrightarrow> m = n"
    by (metis digits_value_pad6 word_unat_eq_iff)
  with assms show ?thesis
    by (auto simp: NumberedFileName_def)
qed

lemma WalFileName_eq [simp]: "WalFileName d m = WalFileName d n \<longleftrightarrow> m = n"
  by (simp add: WalFileName_def NumberedFileName_eq)

lemma SstableFileName_eq [simp]: "SstableFileName d m = SstableFileName d n \<longleftrightarrow> m = n"
  by (simp add: SstableFileName_def NumberedFileName_eq)

lemma WalFileName_neq_SstableFileName [simp]:
  "WalFileName d m \<noteq> SstableFileName d n" "SstableFileName d n \<noteq> WalFileName d m"
proof -
  show "WalFileName d m \<noteq> SstableFileName d n"
    by (simp add: WalFileName_def SstableFileName_def NumberedFileName_eq)
  then show "SstableFileName d n \<noteq> WalFileName d m"
    by metis
qed

text \<open>A fixed name in the directory that ends in neither extension is no numbered file.\<close>

lemma last_NumberedFileName: "e \<noteq> [] \<Longrightarrow> last (NumberedFileName d n e) = last e"
  by (simp add: NumberedFileName_def)

lemma numbered_file_neq:
  assumes "last name \<noteq> CHR ''l''" and "last name \<noteq> CHR ''t''"
  shows "WalFileName d n \<noteq> name" "SstableFileName d n \<noteq> name"
proof -
  have "last (WalFileName d n) = CHR ''l''" "last (SstableFileName d n) = CHR ''t''"
    by (simp_all add: WalFileName_def SstableFileName_def last_NumberedFileName)
  with assms show "WalFileName d n \<noteq> name" "SstableFileName d n \<noteq> name"
    by blast+
qed

text \<open>The padded number has six digits or more, and at most the twenty of a 64-bit value.\<close>

lemma length_decimal: "0 < k \<Longrightarrow> n < 10 ^ k \<Longrightarrow> length (decimal n) \<le> k"
proof (induction n arbitrary: k rule: decimal.induct)
  case (1 n)
  show ?case
  proof (cases "n < 10")
    case True
    with 1 show ?thesis by (simp add: decimal.simps [of n])
  next
    case False
    with 1 obtain j where k: "k = Suc j"
      by (cases k) auto
    with 1 False have "0 < j"
      by (cases j) auto
    with 1 False k have "length (decimal (n div 10)) \<le> j"
      by (simp add: less_mult_imp_div_less mult.commute)
    with False k show ?thesis by (simp add: decimal.simps [of n])
  qed
qed

lemma length_pad6: "6 \<le> length (pad6 s)" "length s \<le> k \<Longrightarrow> 6 \<le> k \<Longrightarrow> length (pad6 s) \<le> k"
  by (simp_all add: pad6_def)

text \<open>The formatted number and its terminating NUL fit \<open>number_buf\<close> (32 characters).\<close>

lemma number_fits_buffer: "length (pad6 (decimal (unat (n :: u64)))) < 32"
proof -
  have "unat n < 2 ^ LENGTH(64)"
    by (rule unsigned_less)
  then have "unat n < 10 ^ 20"
    by simp
  then have "length (decimal (unat n)) \<le> 20"
    using length_decimal [of 20 "unat n"] by simp
  then show ?thesis
    using length_pad6(2) [of "decimal (unat n)" 20] by simp
qed

end
