(* ===== verification/Pebble_Posix.thy ===== *)
theory Pebble_Posix
  imports Pebble_Status Pebble_Filenames
begin

text \<open>
  The file layer (util/posix_file.hpp, util/posix_file.cpp) over an explicit operating system.

  The state of the system is a \<open>world\<close>: the files by path, and a list of outcomes for the system
  calls still to come.  Each call consumes one outcome: success, a short count, an interruption by
  a signal, or an error with the text \<open>strerror\<close> gives for it; an exhausted list means success from
  here on.  So a theorem about every \<open>world\<close> is a theorem about every pattern of failing, partial
  and interrupted calls, and a theorem about a process that dies at a system call is one about the
  files left when that call fails.  What the calls do is what POSIX documents: a write or read may
  be partial, a read returns 0 only at the end of the file, no file grows past the largest
  \<open>off_t\<close>, and \<open>rename\<close> replaces its target in one step.  Directory entries are not modelled apart
  from the names of the files, and descriptors refer to paths: no code path of the program renames
  or removes a file it still holds open for reading or writing.
\<close>

subsection \<open>The operating system\<close>

datatype sys_result = SysOk | SysShort nat | SysEintr | SysErr string

record world =
  files :: "string \<rightharpoonup> bytes"
  faults :: "sys_result list"

definition next_sys :: "world \<Rightarrow> sys_result \<times> world" where
  "next_sys w = (case faults w of [] \<Rightarrow> (SysOk, w) | r # rs \<Rightarrow> (r, w\<lparr>faults := rs\<rparr>))"

fun sys_error :: "sys_result \<Rightarrow> string option" where
  "sys_error (SysErr m) = Some m"
| "sys_error SysEintr = Some ''Interrupted system call''"
| "sys_error SysOk = None"
| "sys_error (SysShort _) = None"

definition max_file_size :: nat where
  "max_file_size = 2 ^ 63 - 1"

datatype sys_ret = Ret nat | Eintr | Fail string

definition sys_stat :: "string \<Rightarrow> world \<Rightarrow> nat option \<times> world" where
  "sys_stat path w =
     (let (r, w) = next_sys w
      in (if sys_error r = None then map_option length (files w path) else None, w))"

definition sys_open :: "bool \<Rightarrow> bool \<Rightarrow> string \<Rightarrow> world \<Rightarrow> string option \<times> world" where
  "sys_open creat trunc path w =
     (let (r, w) = next_sys w
      in case sys_error r of
           Some m \<Rightarrow> (Some m, w)
         | None \<Rightarrow>
             (case files w path of
                None \<Rightarrow> if creat then (None, w\<lparr>files := (files w)(path \<mapsto> [])\<rparr>)
                        else (Some ''No such file or directory'', w)
              | Some _ \<Rightarrow> (None, if trunc then w\<lparr>files := (files w)(path \<mapsto> [])\<rparr> else w)))"

definition sys_ftruncate :: "string \<Rightarrow> nat \<Rightarrow> world \<Rightarrow> string option \<times> world" where
  "sys_ftruncate path len w =
     (let (r, w) = next_sys w
      in case sys_error r of
           Some m \<Rightarrow> (Some m, w)
         | None \<Rightarrow>
             (case files w path of
                None \<Rightarrow> (None, w)
              | Some c \<Rightarrow>
                  (None, w\<lparr>files := (files w)(path \<mapsto> take len c @ replicate (len - length c) 0)\<rparr>)))"

definition sys_rename :: "string \<Rightarrow> string \<Rightarrow> world \<Rightarrow> string option \<times> world" where
  "sys_rename src dst w =
     (let (r, w) = next_sys w
      in case sys_error r of
           Some m \<Rightarrow> (Some m, w)
         | None \<Rightarrow>
             (case files w src of
                None \<Rightarrow> (Some ''No such file or directory'', w)
              | Some c \<Rightarrow> (None, w\<lparr>files := ((files w)(src := None))(dst \<mapsto> c)\<rparr>)))"

definition sys_remove :: "string \<Rightarrow> world \<Rightarrow> world" where
  "sys_remove path w =
     (let (r, w) = next_sys w
      in if sys_error r = None then w\<lparr>files := (files w)(path := None)\<rparr> else w)"

definition sys_exists :: "string \<Rightarrow> world \<Rightarrow> bool \<times> world" where
  "sys_exists path w =
     (let (r, w) = next_sys w in (sys_error r = None \<and> files w path \<noteq> None, w))"

text \<open>\<open>std::filesystem::create_directories\<close> refuses the empty path without a system call.\<close>

definition sys_create_directories :: "string \<Rightarrow> world \<Rightarrow> string option \<times> world" where
  "sys_create_directories path w =
     (if path = [] then (Some ''Invalid argument'', w)
      else let (r, w) = next_sys w in (sys_error r, w))"

text \<open>A descriptor: the file it was opened on, \<open>O_APPEND\<close>, and its file offset.\<close>

record posix_file =
  fd_path :: string
  fd_append :: bool
  fd_pos :: nat

definition splice :: "bytes \<Rightarrow> nat \<Rightarrow> bytes \<Rightarrow> bytes" where
  "splice c pos d = take pos c @ replicate (pos - length c) 0 @ d @ drop (pos + length d) c"

definition sys_write :: "posix_file \<Rightarrow> bytes \<Rightarrow> world \<Rightarrow> sys_ret \<times> posix_file \<times> world" where
  "sys_write f buf w =
     (let (r, w) = next_sys w;
          wanted = (case r of SysShort k \<Rightarrow> min k (length buf) | _ \<Rightarrow> length buf)
      in case r of
           SysEintr \<Rightarrow> (Eintr, f, w)
         | SysErr m \<Rightarrow> (Fail m, f, w)
         | _ \<Rightarrow>
             (case files w (fd_path f) of
                None \<Rightarrow> (Ret wanted, f\<lparr>fd_pos := fd_pos f + wanted\<rparr>, w)
              | Some c \<Rightarrow>
                  let pos = (if fd_append f then length c else fd_pos f);
                      n = min wanted (max_file_size - pos)
                  in if buf \<noteq> [] \<and> max_file_size \<le> pos then (Fail ''File too large'', f, w)
                     else (Ret n, f\<lparr>fd_pos := pos + n\<rparr>,
                           w\<lparr>files := (files w)(fd_path f \<mapsto> splice c pos (take n buf))\<rparr>)))"

definition sys_pread :: "string \<Rightarrow> nat \<Rightarrow> nat \<Rightarrow> world \<Rightarrow> sys_ret \<times> bytes \<times> world" where
  "sys_pread path pos n w =
     (let (r, w) = next_sys w
      in case r of
           SysEintr \<Rightarrow> (Eintr, [], w)
         | SysErr m \<Rightarrow> (Fail m, [], w)
         | _ \<Rightarrow>
             let avail = take n (drop pos (case files w path of None \<Rightarrow> [] | Some c \<Rightarrow> c));
                 got = (case r of SysShort k \<Rightarrow> min (max 1 k) (length avail) | _ \<Rightarrow> length avail)
             in (Ret got, take got avail, w))"

subsection \<open>The file layer\<close>

definition ErrnoMessage :: "string \<Rightarrow> string \<Rightarrow> string" where
  "ErrnoMessage what err = (what @ '': '') @ err"

definition quoted :: "string \<Rightarrow> string" where
  "quoted path = CHR 0x27 # path @ [CHR 0x27]"

text \<open>The \<open>do rc = fsync(fd); while (rc != 0 && errno == EINTR)\<close> loop over the coming outcomes.\<close>

fun fsync_loop :: "sys_result list \<Rightarrow> string option \<times> sys_result list" where
  "fsync_loop [] = (None, [])"
| "fsync_loop (SysEintr # rs) = fsync_loop rs"
| "fsync_loop (SysErr m # rs) = (Some m, rs)"
| "fsync_loop (r # rs) = (None, rs)"

definition do_fsync :: "world \<Rightarrow> string option \<times> world" where
  "do_fsync w = (let (e, rs) = fsync_loop (faults w) in (e, w\<lparr>faults := rs\<rparr>))"

definition SyncDirectory :: "string \<Rightarrow> world \<Rightarrow> status \<times> world" where
  "SyncDirectory dir_path w =
     (let (r, w) = next_sys w
      in case sys_error r of
           Some m \<Rightarrow> (IOError (ErrnoMessage (''open (directory) failed for '' @ quoted dir_path) m), w)
         | None \<Rightarrow>
             (case do_fsync w of
                (Some m, w) \<Rightarrow>
                  (IOError (ErrnoMessage (''fsync (directory) failed for '' @ quoted dir_path) m), w)
              | (None, w) \<Rightarrow> (status_OK, w)))"

text \<open>\<open>std::filesystem::path::parent_path\<close>: what precedes the last separator.\<close>

definition parent_path :: "string \<Rightarrow> string" where
  "parent_path path =
     (if CHR ''/'' \<notin> set path then []
      else let dir = rev (tl (dropWhile (\<lambda>c. c \<noteq> CHR ''/'') (rev path)))
           in if dir = [] then ''/'' else dir)"

definition SyncContainingDirectory :: "string \<Rightarrow> world \<Rightarrow> status \<times> world" where
  "SyncContainingDirectory path w =
     (let parent = parent_path path;
          dir = (if parent = [] then ''.'' else parent)
      in SyncDirectory dir w)"

definition TruncateFile :: "string \<Rightarrow> u64 \<Rightarrow> world \<Rightarrow> status \<times> world" where
  "TruncateFile path len w =
     (case sys_open False False path w of
        (Some m, w) \<Rightarrow>
          (IOError (ErrnoMessage (''open (truncate-to-length) failed for '' @ quoted path) m), w)
      | (None, w) \<Rightarrow>
          (case sys_ftruncate path (unat len) w of
             (Some m, w) \<Rightarrow> (IOError (ErrnoMessage (''ftruncate failed for '' @ quoted path) m), w)
           | (None, w) \<Rightarrow>
               (case do_fsync w of
                  (Some m, w) \<Rightarrow> (IOError (ErrnoMessage (''fsync failed for '' @ quoted path) m), w)
                | (None, w) \<Rightarrow> (status_OK, w))))"

text \<open>
  The four ways to open a file.  A file created by the call has its directory synced before the
  call succeeds.
\<close>

definition created_sync :: "bool \<Rightarrow> string \<Rightarrow> posix_file \<Rightarrow> world \<Rightarrow>
    status \<times> posix_file option \<times> world" where
  "created_sync existed_before path f w =
     (if \<not> existed_before
      then (case SyncContainingDirectory path w of
              (dir_status, w) \<Rightarrow>
                if \<not> ok dir_status then (dir_status, None, w) else (status_OK, Some f, w))
      else (status_OK, Some f, w))"

definition OpenAppend :: "string \<Rightarrow> world \<Rightarrow> status \<times> posix_file option \<times> world" where
  "OpenAppend path w =
     (case sys_stat path w of
        (existing_stat, w) \<Rightarrow>
          (case sys_open True False path w of
             (Some m, w) \<Rightarrow>
               (IOError (ErrnoMessage (''open (append) failed for '' @ quoted path) m), None, w)
           | (None, w) \<Rightarrow>
               created_sync (existing_stat \<noteq> None) path
                 \<lparr>fd_path = path, fd_append = True, fd_pos = 0\<rparr> w))"

definition OpenNew :: "string \<Rightarrow> world \<Rightarrow> status \<times> posix_file option \<times> world" where
  "OpenNew path w =
     (case sys_stat path w of
        (existing_stat, w) \<Rightarrow>
          if existing_stat \<noteq> None \<and> existing_stat \<noteq> Some 0
          then (IOError (''OpenNew: refusing to open '' @ quoted path @ '': path already has '' @
                  decimal (the existing_stat) @
                  '' byte(s) of content (expected an absent or empty path)''), None, w)
          else
            (case sys_open True True path w of
               (Some m, w) \<Rightarrow>
                 (IOError (ErrnoMessage (''open (new) failed for '' @ quoted path) m), None, w)
             | (None, w) \<Rightarrow>
                 created_sync (existing_stat \<noteq> None) path
                   \<lparr>fd_path = path, fd_append = False, fd_pos = 0\<rparr> w))"

definition OpenTruncate :: "string \<Rightarrow> world \<Rightarrow> status \<times> posix_file option \<times> world" where
  "OpenTruncate path w =
     (case sys_stat path w of
        (existing_stat, w) \<Rightarrow>
          (case sys_open True True path w of
             (Some m, w) \<Rightarrow>
               (IOError (ErrnoMessage (''open (truncate) failed for '' @ quoted path) m), None, w)
           | (None, w) \<Rightarrow>
               created_sync (existing_stat \<noteq> None) path
                 \<lparr>fd_path = path, fd_append = False, fd_pos = 0\<rparr> w))"

definition OpenRead :: "string \<Rightarrow> world \<Rightarrow> status \<times> posix_file option \<times> world" where
  "OpenRead path w =
     (case sys_open False False path w of
        (Some m, w) \<Rightarrow>
          (IOError (ErrnoMessage (''open (read) failed for '' @ quoted path) m), None, w)
      | (None, w) \<Rightarrow> (status_OK, Some \<lparr>fd_path = path, fd_append = False, fd_pos = 0\<rparr>, w))"

lemma next_sys_faults:
  "next_sys w = (r, w') \<Longrightarrow> length (faults w') = length (faults w) - 1"
  "next_sys w = (r, w') \<Longrightarrow> files w' = files w"
  "next_sys w = (r, w') \<Longrightarrow> faults w = [] \<Longrightarrow> r = SysOk \<and> w' = w"
  by (auto simp: next_sys_def split: list.splits)

lemma sys_write_progress:
  assumes "sys_write f buf w = (ret, f', w')"
  shows "length (faults w') \<le> length (faults w)"
    and "ret = Eintr \<Longrightarrow> length (faults w') < length (faults w)"
    and "ret = Ret n \<Longrightarrow> buf \<noteq> [] \<Longrightarrow> length (faults w') < length (faults w) \<or> 0 < n"
  using assms
  by (auto simp: sys_write_def next_sys_def Let_def split: list.splits sys_result.splits
      option.splits if_splits prod.splits)

function Append_loop :: "posix_file \<Rightarrow> bytes \<Rightarrow> nat \<Rightarrow> world \<Rightarrow> status \<times> posix_file \<times> world" where
  "Append_loop f data written w =
     (if written < length data
      then (case sys_write f (drop written data) w of
              (Eintr, f', w') \<Rightarrow> Append_loop f' data written w'
            | (Fail m, f', w') \<Rightarrow> (IOError (ErrnoMessage ''write failed'' m), f', w')
            | (Ret n, f', w') \<Rightarrow> Append_loop f' data (written + n) w')
      else (status_OK, f, w))"
  by pat_completeness auto
termination
proof (relation "measure (\<lambda>(f, data, written, w). (length data - written) + length (faults w))",
    goal_cases)
  case 1
  show ?case by simp
next
  case (2 f data written w ret fw n f' w')
  then have "sys_write f (drop written data) w = (Ret n, f', w')"
    by simp
  from sys_write_progress(1,3) [OF this] 2(1) show ?case
    by fastforce
next
  case (3 f data written w ret fw f' w')
  then have "sys_write f (drop written data) w = (Eintr, f', w')"
    by simp
  from sys_write_progress(2) [OF this] show ?case
    by simp
qed

declare Append_loop.simps [simp del]

definition Append :: "posix_file \<Rightarrow> bytes \<Rightarrow> world \<Rightarrow> status \<times> posix_file \<times> world" where
  "Append f data w = Append_loop f data 0 w"

definition Sync :: "posix_file \<Rightarrow> world \<Rightarrow> status \<times> world" where
  "Sync f w =
     (case do_fsync w of
        (Some m, w) \<Rightarrow> (IOError (ErrnoMessage ''fsync failed'' m), w)
      | (None, w) \<Rightarrow> (status_OK, w))"

text \<open>
  \<open>Read\<close> and \<open>ReadAt\<close> fill a buffer of \<open>n\<close> bytes; \<open>got\<close> is what has arrived.  They return the
  status, the bytes, whether fewer than \<open>n\<close> arrived, the descriptor and the system.
\<close>

lemma sys_pread_progress:
  assumes "sys_pread path pos n w = (ret, bs, w')"
  shows "length (faults w') \<le> length (faults w)"
    and "ret = Eintr \<Longrightarrow> length (faults w') < length (faults w)"
    and "ret = Ret k \<Longrightarrow> length bs = k"
  using assms
  by (auto simp: sys_pread_def next_sys_def Let_def split: list.splits sys_result.splits
      option.splits if_splits prod.splits)

function Read_loop :: "posix_file \<Rightarrow> nat \<Rightarrow> bytes \<Rightarrow> world \<Rightarrow>
    status \<times> bytes \<times> bool \<times> posix_file \<times> world" where
  "Read_loop f n got w =
     (if length got < n
      then (case sys_pread (fd_path f) (fd_pos f) (n - length got) w of
              (Eintr, bs, w') \<Rightarrow> Read_loop f n got w'
            | (Fail m, bs, w') \<Rightarrow> (IOError (ErrnoMessage ''read failed'' m), [], False, f, w')
            | (Ret k, bs, w') \<Rightarrow>
                if k = 0 then (status_OK, got, True, f, w')
                else Read_loop (f\<lparr>fd_pos := fd_pos f + k\<rparr>) n (got @ bs) w')
      else (status_OK, got, False, f, w))"
  by pat_completeness auto
termination
proof (relation "measure (\<lambda>(f, n, got, w). (n - length got) + length (faults w))", goal_cases)
  case 1
  show ?case by simp
next
  case (2 f n got w ret bw k bs w')
  then have read: "sys_pread (fd_path f) (fd_pos f) (n - length got) w = (Ret k, bs, w')"
    by simp
  from sys_pread_progress(1,3) [OF read] 2(1,5) show ?case
    by fastforce
next
  case (3 f n got w ret bw bs w')
  then have "sys_pread (fd_path f) (fd_pos f) (n - length got) w = (Eintr, bs, w')"
    by simp
  from sys_pread_progress(2) [OF this] show ?case
    by simp
qed

declare Read_loop.simps [simp del]

definition Read :: "posix_file \<Rightarrow> nat \<Rightarrow> world \<Rightarrow> status \<times> bytes \<times> bool \<times> posix_file \<times> world" where
  "Read f n w = Read_loop f n [] w"

text \<open>\<open>pread\<close> takes a signed offset; a negative one is refused by the system.\<close>

definition sys_pread_off :: "string \<Rightarrow> u64 \<Rightarrow> nat \<Rightarrow> world \<Rightarrow> sys_ret \<times> bytes \<times> world" where
  "sys_pread_off path off n w =
     (if sint off < 0
      then (case next_sys w of (r, w) \<Rightarrow>
              ((case r of SysEintr \<Rightarrow> Eintr | SysErr m \<Rightarrow> Fail m | _ \<Rightarrow> Fail ''Invalid argument''), [], w))
      else sys_pread path (unat off) n w)"

lemma sys_pread_off_progress:
  assumes "sys_pread_off path off n w = (ret, bs, w')"
  shows "length (faults w') \<le> length (faults w)"
    and "ret = Eintr \<Longrightarrow> length (faults w') < length (faults w)"
    and "ret = Ret k \<Longrightarrow> length bs = k"
  using assms sys_pread_progress [of path "unat off" n w ret bs w']
  by (auto simp: sys_pread_off_def next_sys_def split: list.splits sys_result.splits if_splits prod.splits)

function ReadAt_loop :: "posix_file \<Rightarrow> u64 \<Rightarrow> nat \<Rightarrow> bytes \<Rightarrow> world \<Rightarrow>
    status \<times> bytes \<times> bool \<times> world" where
  "ReadAt_loop f off n got w =
     (if length got < n
      then (case sys_pread_off (fd_path f) (off + of_nat (length got)) (n - length got) w of
              (Eintr, bs, w') \<Rightarrow> ReadAt_loop f off n got w'
            | (Fail m, bs, w') \<Rightarrow> (IOError (ErrnoMessage ''pread failed'' m), [], False, w')
            | (Ret k, bs, w') \<Rightarrow>
                if k = 0 then (status_OK, got, True, w')
                else ReadAt_loop f off n (got @ bs) w')
      else (status_OK, got, False, w))"
  by pat_completeness auto
termination
proof (relation "measure (\<lambda>(f, off, n, got, w). (n - length got) + length (faults w))", goal_cases)
  case 1
  show ?case by simp
next
  case (2 f off n got w ret bw k bs w')
  then have read: "sys_pread_off (fd_path f) (off + of_nat (length got)) (n - length got) w = (Ret k, bs, w')"
    by simp
  from sys_pread_off_progress(1,3) [OF read] 2(1,5) show ?case
    by fastforce
next
  case (3 f off n got w ret bw bs w')
  then have "sys_pread_off (fd_path f) (off + of_nat (length got)) (n - length got) w = (Eintr, bs, w')"
    by simp
  from sys_pread_off_progress(2) [OF this] show ?case
    by simp
qed

declare ReadAt_loop.simps [simp del]

definition ReadAt :: "posix_file \<Rightarrow> u64 \<Rightarrow> nat \<Rightarrow> world \<Rightarrow> status \<times> bytes \<times> bool \<times> world" where
  "ReadAt f off n w = ReadAt_loop f off n [] w"

definition Size :: "posix_file \<Rightarrow> world \<Rightarrow> status \<times> u64 \<times> world" where
  "Size f w =
     (let (r, w) = next_sys w
      in case sys_error r of
           Some m \<Rightarrow> (IOError (ErrnoMessage ''fstat failed'' m), 0, w)
         | None \<Rightarrow>
             (status_OK, of_nat (length (case files w (fd_path f) of None \<Rightarrow> [] | Some c \<Rightarrow> c)), w))"

end
