(* ===== verification/Pebble_Files.thy ===== *)
theory Pebble_Files
  imports Pebble_Posix
begin

text \<open>
  What the file layer guarantees whatever the system calls do: which file each operation touches,
  that a successful \<open>Append\<close> has written everything and a failed one a proper prefix, that a
  successful \<open>Read\<close> returns exactly the bytes of the file at its position, and that every loop of
  the layer ends.  A second group of lemmas gives the results when no call fails.
\<close>

subsection \<open>Single calls\<close>

lemma next_sys_no_faults [simp]: "faults w = [] \<Longrightarrow> next_sys w = (SysOk, w)"
  by (simp add: next_sys_def)

lemma files_next_sys [world_frame]: "next_sys w = (r, w') \<Longrightarrow> files w' = files w"
  by (rule next_sys_faults(2))

lemma faults_Nil_eq: "faults w = [] \<Longrightarrow> w\<lparr>faults := []\<rparr> = w"
  by (metis world.surjective world.update_convs(2))

lemma do_fsync_no_faults [simp]: "faults w = [] \<Longrightarrow> do_fsync w = (None, w)"
  by (simp add: do_fsync_def faults_Nil_eq)

lemma files_do_fsync [world_frame]: "do_fsync w = (e, w') \<Longrightarrow> files w' = files w"
  by (auto simp: do_fsync_def split: prod.splits)

lemma files_Sync [world_frame]: "Sync f w = (s, w') \<Longrightarrow> files w' = files w"
  by (auto simp: Sync_def split: prod.splits option.splits dest!: world_frame)

lemma Sync_no_faults [simp]: "faults w = [] \<Longrightarrow> Sync f w = (status_OK, w)"
  by (simp add: Sync_def)

lemma Sync_error: "Sync f w = (s, w') \<Longrightarrow> \<not> ok s \<Longrightarrow> IsIOError s"
  by (auto simp: Sync_def IsIOError_def split: prod.splits option.splits)

lemma files_SyncDirectory [world_frame]: "SyncDirectory d w = (s, w') \<Longrightarrow> files w' = files w"
  by (auto simp: SyncDirectory_def split: prod.splits option.splits dest!: world_frame)

lemma SyncDirectory_no_faults [simp]: "faults w = [] \<Longrightarrow> SyncDirectory d w = (status_OK, w)"
  by (simp add: SyncDirectory_def)

lemma files_SyncContainingDirectory [world_frame]:
  "SyncContainingDirectory p w = (s, w') \<Longrightarrow> files w' = files w"
  by (auto simp: SyncContainingDirectory_def Let_def dest!: world_frame)

lemma SyncContainingDirectory_no_faults [simp]:
  "faults w = [] \<Longrightarrow> SyncContainingDirectory p w = (status_OK, w)"
  by (simp add: SyncContainingDirectory_def Let_def)

lemma files_sys_stat [world_frame]: "sys_stat p w = (r, w') \<Longrightarrow> files w' = files w"
  by (auto simp: sys_stat_def Let_def split: prod.splits dest!: world_frame)

lemma sys_stat_size: "sys_stat p w = (Some n, w') \<Longrightarrow> \<exists>c. files w p = Some c \<and> n = length c"
  by (auto simp: sys_stat_def Let_def split: prod.splits if_splits dest!: world_frame)

lemma sys_stat_no_faults [simp]:
  "faults w = [] \<Longrightarrow> sys_stat p w = (map_option length (files w p), w)"
  by (simp add: sys_stat_def)

lemma files_sys_exists [world_frame]: "sys_exists p w = (b, w') \<Longrightarrow> files w' = files w"
  by (auto simp: sys_exists_def Let_def split: prod.splits dest!: world_frame)

lemma sys_exists_no_faults [simp]:
  "faults w = [] \<Longrightarrow> sys_exists p w = (files w p \<noteq> None, w)"
  by (simp add: sys_exists_def)

lemma sys_exists_True: "sys_exists p w = (True, w') \<Longrightarrow> \<exists>c. files w p = Some c"
  by (auto simp: sys_exists_def Let_def split: prod.splits dest!: world_frame)

lemma files_Size [world_frame]: "Size f w = (s, n, w') \<Longrightarrow> files w' = files w"
  by (auto simp: Size_def Let_def split: prod.splits option.splits dest!: world_frame)

lemma Size_ok:
  "Size f w = (s, n, w') \<Longrightarrow> ok s \<Longrightarrow> files w (fd_path f) = Some c \<Longrightarrow> n = of_nat (length c)"
  by (auto simp: Size_def Let_def split: prod.splits option.splits dest!: world_frame)

lemma Size_error: "Size f w = (s, n, w') \<Longrightarrow> \<not> ok s \<Longrightarrow> IsIOError s"
  by (auto simp: Size_def IsIOError_def split: prod.splits option.splits)

lemma Size_no_faults [simp]:
  "faults w = [] \<Longrightarrow> files w (fd_path f) = Some c \<Longrightarrow> Size f w = (status_OK, of_nat (length c), w)"
  by (simp add: Size_def)

subsection \<open>Writing at the end of a file\<close>

text \<open>
  \<open>sink f c w\<close>: the descriptor writes at the end of its file, which holds \<open>c\<close> and is no longer
  than the system allows.
\<close>

definition sink :: "posix_file \<Rightarrow> bytes \<Rightarrow> world \<Rightarrow> bool" where
  "sink f c w \<longleftrightarrow> files w (fd_path f) = Some c \<and> (fd_append f \<or> fd_pos f = length c) \<and>
     length c \<le> max_file_size"

lemma splice_end [simp]: "splice c (length c) d = c @ d"
  by (simp add: splice_def)

lemma sys_write_at_end:
  assumes "sink f c w" and "next_sys w = (r, v)"
  shows "sys_write f buf w =
    (case r of
       SysEintr \<Rightarrow> (Eintr, f, v)
     | SysErr m \<Rightarrow> (Fail m, f, v)
     | _ \<Rightarrow>
         let n = min (case r of SysShort k \<Rightarrow> min k (length buf) | _ \<Rightarrow> length buf)
                   (max_file_size - length c)
         in if buf \<noteq> [] \<and> max_file_size \<le> length c then (Fail ''File too large'', f, v)
            else (Ret n, f\<lparr>fd_pos := length c + n\<rparr>,
                  v\<lparr>files := (files w)(fd_path f \<mapsto> c @ take n buf)\<rparr>))"
proof -
  have pos: "(if fd_append f then length c else fd_pos f) = length c"
    using assms(1) by (auto simp: sink_def)
  have v: "files v = files w"
    using assms(2) by (rule files_next_sys)
  show ?thesis
    using assms(1) unfolding sys_write_def assms(2) sink_def
    by (cases r) (simp_all add: v pos Let_def)
qed

lemma sink_written:
  assumes "sink f c w" and "n \<le> length buf" and "n \<le> max_file_size - length c"
    and "files v = (files w)(fd_path f \<mapsto> c @ take n buf)"
  shows "sink (f\<lparr>fd_pos := length c + n\<rparr>) (c @ take n buf) v"
  using assms by (auto simp: sink_def)

lemma sys_write_sink:
  assumes "sys_write f buf w = (ret, f', w')" and "sink f c w"
  shows "fd_path f' = fd_path f"
    and "ret = Ret n \<Longrightarrow> n \<le> length buf \<and> sink f' (c @ take n buf) w' \<and>
      files w' = (files w)(fd_path f \<mapsto> c @ take n buf)"
    and "(\<And>n. ret \<noteq> Ret n) \<Longrightarrow> f' = f \<and> files w' = files w"
proof -
  obtain r v where sys: "next_sys w = (r, v)"
    by (cases "next_sys w")
  then have v: "files w = files v"
    by (simp add: files_next_sys)
  note eq = assms(1) [unfolded sys_write_at_end [OF assms(2) sys]]
  show "fd_path f' = fd_path f"
    using eq by (auto simp: Let_def split: sys_result.splits if_splits)
  show "(\<And>n. ret \<noteq> Ret n) \<Longrightarrow> f' = f \<and> files w' = files w"
    using eq v by (auto simp: Let_def split: sys_result.splits if_splits)
  assume "ret = Ret n"
  with eq have "n \<le> length buf" "n \<le> max_file_size - length c"
    "f' = f\<lparr>fd_pos := length c + n\<rparr>" "files w' = (files w)(fd_path f \<mapsto> c @ take n buf)"
    by (auto simp: Let_def split: sys_result.splits if_splits)
  with sink_written [OF assms(2)] show "n \<le> length buf \<and> sink f' (c @ take n buf) w' \<and>
      files w' = (files w)(fd_path f \<mapsto> c @ take n buf)"
    by simp
qed

lemma sys_write_no_faults:
  assumes "sink f c w" and "faults w = []" and "length c + length buf \<le> max_file_size"
  shows "\<exists>f' w'. sys_write f buf w = (Ret (length buf), f', w') \<and> faults w' = []"
  using assms
  by (cases buf) (auto simp: sys_write_def sink_def Let_def)

lemma Append_loop_sink:
  assumes "Append_loop f data k w = (s, f', w')" and "sink f c w" and "k \<le> length data"
  shows "\<exists>n \<le> length data - k.
    files w' = (files w)(fd_path f \<mapsto> c @ take n (drop k data)) \<and>
    sink f' (c @ take n (drop k data)) w' \<and> fd_path f' = fd_path f \<and>
    (if ok s then n = length data - k else IsIOError s \<and> n < length data - k)"
  using assms
proof (induction f data k w arbitrary: c rule: Append_loop.induct)
  case (1 f data k w)
  note run = "1.prems"(1) and sink = "1.prems"(2)
  from sink have here: "(files w)(fd_path f \<mapsto> c) = files w"
    by (simp add: sink_def fun_upd_idem)
  show ?case
  proof (cases "k < length data")
    case False
    with run sink here "1.prems"(3) show ?thesis
      by (intro exI [of _ 0]) (simp add: Append_loop.simps [of f data k w])
  next
    case True
    obtain ret f1 w1 where call: "sys_write f (drop k data) w = (ret, f1, w1)"
      by (cases "sys_write f (drop k data) w") auto
    note effect = sys_write_sink [OF call sink]
    show ?thesis
    proof (cases ret)
      case Eintr
      with effect sink have "f1 = f" "files w1 = files w" "sink f1 c w1"
        by (auto simp: sink_def)
      with "1.IH"(2) [OF True call [symmetric] Eintr refl, of c] run call True Eintr "1.prems"(3)
      show ?thesis by (simp add: Append_loop.simps [of f data k w])
    next
      case (Fail m)
      with effect sink have "f1 = f" "files w1 = files w" "sink f1 c w1"
        by (auto simp: sink_def)
      with run call True Fail here show ?thesis
        by (intro exI [of _ 0]) (auto simp: Append_loop.simps [of f data k w] IsIOError_def)
    next
      case (Ret n)
      let ?c = "c @ take n (drop k data)"
      from effect(2) [OF Ret] have n: "n \<le> length data - k" and sink1: "sink f1 ?c w1"
        and files1: "files w1 = (files w)(fd_path f \<mapsto> ?c)" by auto
      have "Append_loop f1 data (k + n) w1 = (s, f', w')"
        using run call True Ret by (simp add: Append_loop.simps [of f data k w])
      moreover have "k + n \<le> length data"
        using n True by simp
      ultimately obtain m where m: "m \<le> length data - (k + n)"
        "files w' = (files w1)(fd_path f1 \<mapsto> ?c @ take m (drop (k + n) data))"
        "sink f' (?c @ take m (drop (k + n) data)) w'" "fd_path f' = fd_path f1"
        "if ok s then m = length data - (k + n) else IsIOError s \<and> m < length data - (k + n)"
        using "1.IH"(1) [OF True call [symmetric] Ret refl _ sink1] by blast
      have "take n (drop k data) @ take m (drop (k + n) data) = take (n + m) (drop k data)"
        using take_add [of n m "drop k data"] by (simp add: add.commute)
      with m n files1 effect(1) True show ?thesis
        by (intro exI [of _ "n + m"]) (auto split: if_splits)
    qed
  qed
qed

lemma sys_write_keeps_mode: "sys_write f buf w = (ret, f', w') \<Longrightarrow> fd_append f' = fd_append f"
  by (auto simp: sys_write_def Let_def split: prod.splits sys_result.splits option.splits if_splits)

lemma Append_loop_keeps_mode:
  "Append_loop f data k w = (s, f', w') \<Longrightarrow> fd_append f' = fd_append f"
proof (induction f data k w rule: Append_loop.induct)
  case (1 f data k w)
  obtain ret f1 w1 where call: "sys_write f (drop k data) w = (ret, f1, w1)"
    by (rule prod_cases3)
  note mode = sys_write_keeps_mode [OF call]
  show ?case
  proof (cases "k < length data")
    case False
    with "1.prems" show ?thesis by (simp add: Append_loop.simps [of f data k w])
  next
    case True
    show ?thesis
    proof (cases ret)
      case (Ret n)
      have "Append_loop f1 data (k + n) w1 = (s, f', w')"
        using "1.prems" call True Ret by (simp add: Append_loop.simps [of f data k w])
      with "1.IH"(1) [OF True call [symmetric] Ret refl] mode show ?thesis by simp
    next
      case Eintr
      have "Append_loop f1 data k w1 = (s, f', w')"
        using "1.prems" call True Eintr by (simp add: Append_loop.simps [of f data k w])
      with "1.IH"(2) [OF True call [symmetric] Eintr refl] mode show ?thesis by simp
    next
      case (Fail m)
      with "1.prems" call True mode show ?thesis by (simp add: Append_loop.simps [of f data k w])
    qed
  qed
qed

lemma Append_keeps_mode: "Append f data w = (s, f', w') \<Longrightarrow> fd_append f' = fd_append f"
  unfolding Append_def by (rule Append_loop_keeps_mode)

theorem Append_sink:
  assumes "Append f data w = (s, f', w')" and "sink f c w"
  shows "\<exists>n \<le> length data. files w' = (files w)(fd_path f \<mapsto> c @ take n data) \<and>
    sink f' (c @ take n data) w' \<and> fd_path f' = fd_path f \<and>
    (if ok s then n = length data else IsIOError s \<and> n < length data)"
  using Append_loop_sink [OF assms(1) [unfolded Append_def] assms(2) le0]
  by (simp only: drop_0 diff_zero)

lemma Append_ok:
  assumes "Append f data w = (s, f', w')" and "sink f c w" and "ok s"
  shows "files w' = (files w)(fd_path f \<mapsto> c @ data)" "sink f' (c @ data) w'" "fd_path f' = fd_path f"
  using Append_sink [OF assms(1,2)] assms(3) by auto

lemma Append_error:
  assumes "Append f data w = (s, f', w')" and "sink f c w" and "\<not> ok s"
  obtains n where "n < length data" "files w' = (files w)(fd_path f \<mapsto> c @ take n data)"
    "sink f' (c @ take n data) w'" "fd_path f' = fd_path f" "IsIOError s"
  using Append_sink [OF assms(1,2)] assms(3) by auto

lemma Append_no_faults:
  assumes "sink f c w" and "faults w = []" and "length c + length data \<le> max_file_size"
  shows "\<exists>f' w'. Append f data w = (status_OK, f', w') \<and> faults w' = []"
proof (cases "data = []")
  case True
  with assms show ?thesis
    by (simp add: Append_def Append_loop.simps [of f "[]" 0 w])
next
  case False
  obtain f1 w1 where call: "sys_write f data w = (Ret (length data), f1, w1)" "faults w1 = []"
    using sys_write_no_faults [OF assms] by blast
  with False show ?thesis
    by (simp add: Append_def Append_loop.simps [of f data 0 w]
        Append_loop.simps [of f1 data "length data" w1])
qed

subsection \<open>Reading\<close>

definition content :: "world \<Rightarrow> string \<Rightarrow> bytes" where
  "content w p = (case files w p of None \<Rightarrow> [] | Some c \<Rightarrow> c)"

lemma content_Some [simp]: "files w p = Some c \<Longrightarrow> content w p = c"
  by (simp add: content_def)

lemma sys_pread_content:
  assumes "sys_pread p pos n w = (ret, bs, w')" and "content w p = c"
  shows "files w' = files w"
    and "ret = Ret k \<Longrightarrow> k \<le> n \<and> bs = take k (drop pos c) \<and> length bs = k \<and>
      (k = 0 \<longrightarrow> n = 0 \<or> length c \<le> pos)"
proof -
  obtain r v where sys: "next_sys w = (r, v)"
    by (cases "next_sys w")
  then have v: "files v = files w"
    by (rule files_next_sys)
  show "files w' = files w"
    using assms v by (cases r) (auto simp: sys_pread_def content_def sys Let_def)
  assume "ret = Ret k"
  with assms v show "k \<le> n \<and> bs = take k (drop pos c) \<and> length bs = k \<and>
      (k = 0 \<longrightarrow> n = 0 \<or> length c \<le> pos)"
    by (cases r) (auto simp: sys_pread_def content_def sys Let_def min_def split: if_splits)
qed

lemma sys_pread_no_faults:
  "faults w = [] \<Longrightarrow> content w p = c \<Longrightarrow>
   sys_pread p pos n w = (Ret (length (take n (drop pos c))), take n (drop pos c), w)"
  by (simp add: sys_pread_def content_def Let_def)

lemma take_take_drop: "k \<le> j \<Longrightarrow> take k xs @ take (j - k) (drop k xs) = take j xs"
  by (metis le_add_diff_inverse take_add)

lemma Read_loop_content:
  assumes "Read_loop f n got w = (s, out, short, f', w')" and "content w (fd_path f) = c"
    and "length got \<le> n"
  shows "files w' = files w \<and> fd_path f' = fd_path f \<and>
    (if ok s
     then out = got @ take (n - length got) (drop (fd_pos f) c) \<and> short = (length out < n) \<and>
          fd_pos f' + length got = fd_pos f + length out
     else IsIOError s)"
  using assms
proof (induction f n got w rule: Read_loop.induct)
  case (1 f n got w)
  note run = "1.prems"(1) [unfolded Read_loop.simps [of f n got w]]
  show ?case
  proof (cases "length got < n")
    case False
    with run "1.prems"(2,3) show ?thesis by auto
  next
    case True
    obtain ret bs w1 where call: "sys_pread (fd_path f) (fd_pos f) (n - length got) w = (ret, bs, w1)"
      by (cases "sys_pread (fd_path f) (fd_pos f) (n - length got) w") auto
    note effect = sys_pread_content [OF call "1.prems"(2)]
    show ?thesis
    proof (cases ret)
      case Eintr
      with "1.IH"(2) [OF True call [symmetric] Eintr refl] run call True effect(1) "1.prems"
      show ?thesis by (simp add: content_def)
    next
      case (Fail m)
      with run call True effect(1) show ?thesis by (auto simp: IsIOError_def)
    next
      case (Ret k)
      note k = effect(2) [OF Ret]
      show ?thesis
      proof (cases "k = 0")
        case True
        with k run call \<open>length got < n\<close> Ret effect(1) show ?thesis by auto
      next
        case False
        let ?f1 = "f\<lparr>fd_pos := fd_pos f + k\<rparr>"
        have "files w' = files w1 \<and> fd_path f' = fd_path ?f1 \<and>
          (if ok s
           then out = (got @ bs) @ take (n - length (got @ bs)) (drop (fd_pos ?f1) c) \<and>
             short = (length out < n) \<and> fd_pos f' + length (got @ bs) = fd_pos ?f1 + length out
           else IsIOError s)"
          using False run call True Ret k effect(1) "1.prems"
          by (intro "1.IH"(1) [OF True call [symmetric] Ret refl]) (auto simp: content_def)
        moreover have "take k (drop (fd_pos f) c) @ take (n - (length got + k)) (drop (fd_pos f + k) c)
            = take (n - length got) (drop (fd_pos f) c)"
          using take_take_drop [of k "n - length got" "drop (fd_pos f) c"] k by (simp add: add.commute)
        ultimately show ?thesis
          using k effect(1) by (auto split: if_splits)
      qed
    qed
  qed
qed

lemma Read_content:
  assumes "Read f n w = (s, out, short, f', w')" and "content w (fd_path f) = c"
  shows "files w' = files w" "fd_path f' = fd_path f"
    and "ok s \<Longrightarrow> out = take n (drop (fd_pos f) c) \<and> short = (length out < n) \<and>
      fd_pos f' = fd_pos f + length out"
    and "\<not> ok s \<Longrightarrow> IsIOError s"
  using Read_loop_content [OF assms(1) [unfolded Read_def] assms(2)] by auto

lemma Read_no_faults:
  assumes "faults w = []" and "content w (fd_path f) = c"
  shows "Read f n w =
    (status_OK, take n (drop (fd_pos f) c), length (take n (drop (fd_pos f) c)) < n,
     f\<lparr>fd_pos := fd_pos f + length (take n (drop (fd_pos f) c))\<rparr>, w)"
proof -
  define out where "out = take n (drop (fd_pos f) c)"
  have first: "sys_pread (fd_path f) (fd_pos f) n w = (Ret (length out), out, w)"
    using assms by (simp add: sys_pread_no_faults out_def)
  have second: "sys_pread (fd_path f) (fd_pos f + length out) (n - length out) w = (Ret 0, [], w)"
    if "length out < n"
    using assms that by (auto simp: sys_pread_no_faults out_def)
  have "Read_loop f n [] w =
    (status_OK, out, length out < n, f\<lparr>fd_pos := fd_pos f + length out\<rparr>, w)"
  proof (cases "n = 0")
    case True
    then show ?thesis by (simp add: Read_loop.simps [of f 0 "[]" w] out_def)
  next
    case False
    show ?thesis
    proof (cases "out = []")
      case True
      with False first show ?thesis by (simp add: Read_loop.simps [of f n "[]" w])
    next
      case nonempty: False
      have "length out \<le> n" by (simp add: out_def)
      with False nonempty first second show ?thesis
        by (auto simp: Read_loop.simps [of f n "[]" w] Read_loop.simps [of _ n out w])
    qed
  qed
  then show ?thesis
    by (simp add: Read_def out_def)
qed

lemma sint_small:
  assumes "n \<le> max_file_size"
  shows "\<not> sint (of_nat n :: u64) < 0" "unat (of_nat n :: u64) = n"
proof -
  have n: "n < 2 ^ 63" using assms by (simp add: max_file_size_def)
  then show "unat (of_nat n :: u64) = n"
    by (simp add: unat_of_nat take_bit_nat_eq_self_iff)
  have "\<not> bit (of_nat n :: u64) 63"
    using n \<open>unat (of_nat n :: u64) = n\<close> by (simp add: bit_iff_odd word_arith_nat_div)
  then show "\<not> sint (of_nat n :: u64) < 0"
    using bit_last_iff [of "of_nat n :: u64"] by simp
qed

text \<open>
  \<open>ReadAt\<close> within the file: offsets up to the file's length are non-negative as \<open>off_t\<close>.
\<close>

lemma offset_in_file:
  fixes off :: u64
  assumes "unat off + m \<le> max_file_size"
  shows "unat (off + of_nat m) = unat off + m" "\<not> sint (off + of_nat m) < 0"
proof -
  have "off + of_nat m = of_nat (unat off + m)"
    by simp
  then show "unat (off + of_nat m) = unat off + m" "\<not> sint (off + of_nat m) < 0"
    using sint_small [OF assms] by metis+
qed

lemma ReadAt_loop_content:
  assumes "ReadAt_loop f off n got w = (s, out, short, w')" and "files w (fd_path f) = Some c"
    and "length c \<le> max_file_size" and "unat off \<le> length c"
    and "got = take (length got) (drop (unat off) c)" and "length got \<le> n"
  shows "files w' = files w \<and>
    (if ok s then out = take n (drop (unat off) c) \<and> short = (length out < n) else IsIOError s)"
  using assms
proof (induction f off n got w rule: ReadAt_loop.induct)
  case (1 f off n got w)
  note run = "1.prems"(1) [unfolded ReadAt_loop.simps [of f off n got w]]
  have "length got \<le> length c - unat off"
    using "1.prems"(5) by (metis length_drop length_take min.cobounded1 min_def nle_le)
  then have pos: "unat (off + of_nat (length got)) = unat off + length got"
    "\<not> sint (off + of_nat (length got)) < 0"
    using offset_in_file [of off "length got"] "1.prems"(3,4) by simp_all
  show ?case
  proof (cases "length got < n")
    case False
    then have "length got = n"
      using "1.prems"(6) by simp
    with run "1.prems"(5) show ?thesis by auto
  next
    case True
    obtain ret bs w1 where call: "sys_pread_off (fd_path f) (off + of_nat (length got))
        (n - length got) w = (ret, bs, w1)"
      by (cases "sys_pread_off (fd_path f) (off + of_nat (length got)) (n - length got) w") auto
    then have "sys_pread (fd_path f) (unat off + length got) (n - length got) w = (ret, bs, w1)"
      by (simp add: sys_pread_off_def pos)
    note effect = sys_pread_content [OF this content_Some [OF "1.prems"(2)]]
    show ?thesis
    proof (cases ret)
      case Eintr
      with "1.IH"(2) [OF True call [symmetric] Eintr refl] run call True effect(1) "1.prems"
      show ?thesis by simp
    next
      case (Fail m)
      with run call True effect(1) show ?thesis by (auto simp: IsIOError_def)
    next
      case (Ret k)
      note k = effect(2) [OF Ret]
      let ?rest = "drop (unat off) c"
      have more: "got @ bs = take (length got + k) ?rest"
        using k "1.prems"(5) take_add [of "length got" k ?rest] by (simp add: add.commute)
      show ?thesis
      proof (cases "k = 0")
        case True
        with k \<open>length got < n\<close> have "length ?rest \<le> length got"
          by auto
        then have "got = take n ?rest"
          using "1.prems"(5,6) by (metis order.trans take_all)
        moreover have "(s, out, short, w') = (status_OK, got, True, w1)"
          using True run call \<open>length got < n\<close> Ret by simp
        ultimately show ?thesis
          using effect(1) \<open>length got < n\<close> by simp
      next
        case False
        have "files w' = files w1 \<and> (if ok s then out = take n ?rest \<and> short = (length out < n)
            else IsIOError s)"
        proof (rule "1.IH"(1) [OF True call [symmetric] Ret refl False])
          show "ReadAt_loop f off n (got @ bs) w1 = (s, out, short, w')"
            using False run call True Ret by auto
          show "got @ bs = take (length (got @ bs)) ?rest"
            using more k by (metis length_append)
        qed (use True k effect(1) "1.prems" in auto)
        with effect(1) show ?thesis by simp
      qed
    qed
  qed
qed

lemma ReadAt_content:
  assumes "ReadAt f off n w = (s, out, short, w')" and "files w (fd_path f) = Some c"
    and "length c \<le> max_file_size" and "unat off \<le> length c"
  shows "files w' = files w"
    and "ok s \<Longrightarrow> out = take n (drop (unat off) c) \<and> short = (length out < n)"
    and "\<not> ok s \<Longrightarrow> IsIOError s"
  using ReadAt_loop_content [OF assms(1) [unfolded ReadAt_def] assms(2-4)] by auto

lemma ReadAt_no_faults:
  assumes "faults w = []" and "files w (fd_path f) = Some c"
    and "length c \<le> max_file_size" and "unat off \<le> length c"
  shows "ReadAt f off n w =
    (status_OK, take n (drop (unat off) c), length (take n (drop (unat off) c)) < n, w)"
proof -
  define out where "out = take n (drop (unat off) c)"
  have pread: "sys_pread_off (fd_path f) (off + of_nat m) k w =
      (Ret (length (take k (drop (unat off + m) c))), take k (drop (unat off + m) c), w)"
    if "unat off + m \<le> length c" for m k
    using that assms(3) offset_in_file [of off m] sys_pread_no_faults [OF assms(1) content_Some [OF assms(2)]]
    by (simp add: sys_pread_off_def)
  have m: "unat off + length out \<le> length c"
    using assms(4) by (simp add: out_def)
  have first: "sys_pread_off (fd_path f) (off + of_nat 0) n w = (Ret (length out), out, w)"
    using pread [of 0 n] assms(4) by (simp add: out_def)
  have second: "sys_pread_off (fd_path f) (off + of_nat (length out)) (n - length out) w = (Ret 0, [], w)"
    if "length out < n"
    using pread [OF m] that m by (auto simp: out_def)
  have "ReadAt_loop f off n [] w = (status_OK, out, length out < n, w)"
  proof (cases "n = 0")
    case True
    then show ?thesis by (simp add: ReadAt_loop.simps [of f off 0 "[]" w] out_def)
  next
    case False
    show ?thesis
    proof (cases "out = []")
      case True
      with False first show ?thesis by (simp add: ReadAt_loop.simps [of f off n "[]" w])
    next
      case nonempty: False
      have "length out \<le> n" by (simp add: out_def)
      with False nonempty first second show ?thesis
        by (auto simp: ReadAt_loop.simps [of f off n "[]" w] ReadAt_loop.simps [of f off n out w])
    qed
  qed
  then show ?thesis
    by (simp add: ReadAt_def out_def)
qed

subsection \<open>Opening, truncating, renaming and removing\<close>

lemma sys_open_effect:
  assumes "sys_open creat trunc p w = (e, w')"
  shows "e \<noteq> None \<Longrightarrow> files w' = files w"
    and "e = None \<Longrightarrow> files w p \<noteq> None \<or> creat"
    and "e = None \<Longrightarrow> files w' =
      (if trunc \<or> files w p = None then (files w)(p \<mapsto> []) else files w)"
  using assms by (auto simp: sys_open_def Let_def split: prod.splits option.splits if_splits
      dest!: files_next_sys)

lemma sys_open_no_faults [simp]:
  "faults w = [] \<Longrightarrow> files w p = Some c \<Longrightarrow> sys_open creat False p w = (None, w)"
  "faults w = [] \<Longrightarrow> sys_open True True p w = (None, w\<lparr>files := (files w)(p \<mapsto> [])\<rparr>)"
  "faults w = [] \<Longrightarrow> files w p = None \<Longrightarrow>
     sys_open True False p w = (None, w\<lparr>files := (files w)(p \<mapsto> [])\<rparr>)"
  by (auto simp: sys_open_def split: option.splits)

lemma SyncContainingDirectory_error:
  "SyncContainingDirectory p w = (s, w') \<Longrightarrow> \<not> ok s \<Longrightarrow> IsIOError s"
  by (auto simp: SyncContainingDirectory_def SyncDirectory_def Let_def IsIOError_def
      split: prod.splits option.splits)

lemma created_sync_effect:
  assumes "created_sync b p f w = (s, fo, w')"
  shows "files w' = files w" and "ok s \<Longrightarrow> fo = Some f" and "\<not> ok s \<Longrightarrow> IsIOError s \<and> fo = None"
proof -
  obtain r v where sync: "SyncContainingDirectory p w = (r, v)"
    by (cases "SyncContainingDirectory p w")
  note run = assms [unfolded created_sync_def sync prod.case]
  show "files w' = files w"
    using run files_SyncContainingDirectory [OF sync] by (auto split: if_splits)
  show "ok s \<Longrightarrow> fo = Some f" and "\<not> ok s \<Longrightarrow> IsIOError s \<and> fo = None"
    using run SyncContainingDirectory_error [OF sync] by (auto split: if_splits)
qed

lemma created_sync_no_faults [simp]:
  "faults w = [] \<Longrightarrow> created_sync b p f w = (status_OK, Some f, w)"
  by (simp add: created_sync_def)

lemma OpenRead_effect:
  assumes "OpenRead p w = (s, fo, w')"
  shows "files w' = files w"
    and "ok s \<Longrightarrow> fo = Some \<lparr>fd_path = p, fd_append = False, fd_pos = 0\<rparr> \<and> files w p \<noteq> None"
    and "\<not> ok s \<Longrightarrow> IsIOError s \<and> fo = None"
proof -
  obtain e v where op: "sys_open False False p w = (e, v)"
    by (cases "sys_open False False p w")
  note run = assms [unfolded OpenRead_def op prod.case] and effect = sys_open_effect [OF op]
  show "files w' = files w"
    using run effect by (cases e) auto
  show "ok s \<Longrightarrow> fo = Some \<lparr>fd_path = p, fd_append = False, fd_pos = 0\<rparr> \<and> files w p \<noteq> None"
    using run effect(2) by (cases e) auto
  show "\<not> ok s \<Longrightarrow> IsIOError s \<and> fo = None"
    using run by (cases e) (auto simp: IsIOError_def)
qed

lemma OpenRead_no_faults:
  "faults w = [] \<Longrightarrow> files w p = Some c \<Longrightarrow>
   OpenRead p w = (status_OK, Some \<lparr>fd_path = p, fd_append = False, fd_pos = 0\<rparr>, w)"
  by (simp add: OpenRead_def)

lemma OpenAppend_effect:
  assumes "OpenAppend p w = (s, fo, w')"
  shows "files w' = files w \<or> files w p = None \<and> files w' = (files w)(p \<mapsto> [])"
    and "ok s \<Longrightarrow> fo = Some \<lparr>fd_path = p, fd_append = True, fd_pos = 0\<rparr> \<and>
      files w' = (files w)(p \<mapsto> (case files w p of None \<Rightarrow> [] | Some c \<Rightarrow> c))"
    and "\<not> ok s \<Longrightarrow> IsIOError s \<and> fo = None"
proof -
  obtain st w1 where st: "sys_stat p w = (st, w1)"
    by (cases "sys_stat p w")
  obtain e w2 where op: "sys_open True False p w1 = (e, w2)"
    by (cases "sys_open True False p w1")
  note frame = files_sys_stat [OF st] and effect = sys_open_effect [OF op]
  note run = assms [unfolded OpenAppend_def st op prod.case]
  show "files w' = files w \<or> files w p = None \<and> files w' = (files w)(p \<mapsto> [])"
    using run effect frame by (cases e) (auto dest!: created_sync_effect(1) split: if_splits)
  show "\<not> ok s \<Longrightarrow> IsIOError s \<and> fo = None"
    using run by (cases e) (auto simp: IsIOError_def dest: created_sync_effect(3))
  assume ok: "ok s"
  with run have none: "e = None"
    by (cases e) auto
  then have cs: "created_sync (st \<noteq> None) p \<lparr>fd_path = p, fd_append = True, fd_pos = 0\<rparr> w2 =
      (s, fo, w')"
    using run by simp
  have "files w' = (files w)(p \<mapsto> (case files w p of None \<Rightarrow> [] | Some c \<Rightarrow> c))"
    using created_sync_effect(1) [OF cs] effect(3) [OF none] frame
    by (auto simp: fun_upd_idem split: option.split)
  with created_sync_effect(2) [OF cs ok]
  show "fo = Some \<lparr>fd_path = p, fd_append = True, fd_pos = 0\<rparr> \<and>
      files w' = (files w)(p \<mapsto> (case files w p of None \<Rightarrow> [] | Some c \<Rightarrow> c))"
    by simp
qed

lemma OpenAppend_no_faults:
  assumes "faults w = []"
  shows "\<exists>w'. OpenAppend p w = (status_OK, Some \<lparr>fd_path = p, fd_append = True, fd_pos = 0\<rparr>, w') \<and>
    faults w' = []"
  using assms by (cases "files w p") (simp_all add: OpenAppend_def)

lemma OpenNew_effect:
  assumes "OpenNew p w = (s, fo, w')"
  shows "files w' = files w \<or> files w' = (files w)(p \<mapsto> [])"
    and "ok s \<Longrightarrow> fo = Some \<lparr>fd_path = p, fd_append = False, fd_pos = 0\<rparr> \<and>
      files w' = (files w)(p \<mapsto> [])"
    and "\<not> ok s \<Longrightarrow> IsIOError s \<and> fo = None"
proof -
  obtain st w1 where st: "sys_stat p w = (st, w1)"
    by (cases "sys_stat p w")
  obtain e w2 where op: "sys_open True True p w1 = (e, w2)"
    by (cases "sys_open True True p w1")
  note frame = files_sys_stat [OF st] and effect = sys_open_effect [OF op]
  note run = assms [unfolded OpenNew_def st op prod.case]
  show "files w' = files w \<or> files w' = (files w)(p \<mapsto> [])"
    using run effect frame by (cases e) (auto dest!: created_sync_effect(1) split: if_splits)
  show "\<not> ok s \<Longrightarrow> IsIOError s \<and> fo = None"
    using run by (cases e) (auto simp: IsIOError_def dest: created_sync_effect(3) split: if_splits)
  show "ok s \<Longrightarrow> fo = Some \<lparr>fd_path = p, fd_append = False, fd_pos = 0\<rparr> \<and>
      files w' = (files w)(p \<mapsto> [])"
    using run effect(3) frame
    by (cases e) (auto dest: created_sync_effect(2) simp: created_sync_effect(1) split: if_splits)
qed

lemma OpenNew_no_faults:
  assumes "faults w = []" and "files w p = None \<or> files w p = Some []"
  shows "OpenNew p w = (status_OK, Some \<lparr>fd_path = p, fd_append = False, fd_pos = 0\<rparr>,
    w\<lparr>files := (files w)(p \<mapsto> [])\<rparr>)"
  using assms by (auto simp: OpenNew_def)

lemma OpenNew_refuses:
  assumes "faults w = []" and "files w p = Some c" and "c \<noteq> []"
  shows "\<exists>s. OpenNew p w = (s, None, w) \<and> IsIOError s"
  using assms by (auto simp: OpenNew_def IsIOError_def)

lemma OpenTruncate_effect:
  assumes "OpenTruncate p w = (s, fo, w')"
  shows "files w' = files w \<or> files w' = (files w)(p \<mapsto> [])"
    and "ok s \<Longrightarrow> fo = Some \<lparr>fd_path = p, fd_append = False, fd_pos = 0\<rparr> \<and>
      files w' = (files w)(p \<mapsto> [])"
    and "\<not> ok s \<Longrightarrow> IsIOError s \<and> fo = None"
proof -
  obtain st w1 where st: "sys_stat p w = (st, w1)"
    by (cases "sys_stat p w")
  obtain e w2 where op: "sys_open True True p w1 = (e, w2)"
    by (cases "sys_open True True p w1")
  note frame = files_sys_stat [OF st] and effect = sys_open_effect [OF op]
  note run = assms [unfolded OpenTruncate_def st op prod.case]
  show "files w' = files w \<or> files w' = (files w)(p \<mapsto> [])"
    using run effect frame by (cases e) (auto dest!: created_sync_effect(1) split: if_splits)
  show "\<not> ok s \<Longrightarrow> IsIOError s \<and> fo = None"
    using run by (cases e) (auto simp: IsIOError_def dest: created_sync_effect(3))
  show "ok s \<Longrightarrow> fo = Some \<lparr>fd_path = p, fd_append = False, fd_pos = 0\<rparr> \<and>
      files w' = (files w)(p \<mapsto> [])"
    using run effect(3) frame
    by (cases e) (auto dest: created_sync_effect(2) simp: created_sync_effect(1) split: if_splits)
qed

lemma OpenTruncate_no_faults:
  assumes "faults w = []"
  shows "OpenTruncate p w = (status_OK, Some \<lparr>fd_path = p, fd_append = False, fd_pos = 0\<rparr>,
    w\<lparr>files := (files w)(p \<mapsto> [])\<rparr>)"
  using assms by (simp add: OpenTruncate_def)

lemma sys_rename_effect:
  assumes "sys_rename src dst w = (e, w')"
  shows "e \<noteq> None \<Longrightarrow> files w' = files w"
    and "e = None \<Longrightarrow> \<exists>c. files w src = Some c \<and> files w' = ((files w)(src := None))(dst \<mapsto> c)"
  using assms by (auto simp: sys_rename_def Let_def split: prod.splits option.splits
      dest!: files_next_sys)

lemma sys_rename_no_faults [simp]:
  "faults w = [] \<Longrightarrow> files w src = Some c \<Longrightarrow>
   sys_rename src dst w = (None, w\<lparr>files := ((files w)(src := None))(dst \<mapsto> c)\<rparr>)"
  by (simp add: sys_rename_def)

lemma sys_remove_effect:
  "files (sys_remove p w) = files w \<or> files (sys_remove p w) = (files w)(p := None)"
  by (auto simp: sys_remove_def Let_def split: prod.splits dest!: files_next_sys)

lemma sys_remove_other [simp]: "q \<noteq> p \<Longrightarrow> files (sys_remove p w) q = files w q"
  using sys_remove_effect [of p w] by auto

lemma sys_remove_no_faults [simp]:
  "faults w = [] \<Longrightarrow> sys_remove p w = w\<lparr>files := (files w)(p := None)\<rparr>"
  by (simp add: sys_remove_def)

lemma sys_create_directories_frame [world_frame]:
  "sys_create_directories p w = (e, w') \<Longrightarrow> files w' = files w"
  by (auto simp: sys_create_directories_def Let_def split: prod.splits if_splits dest!: files_next_sys)

lemma sys_create_directories_no_faults [simp]:
  "faults w = [] \<Longrightarrow> p \<noteq> [] \<Longrightarrow> sys_create_directories p w = (None, w)"
  by (simp add: sys_create_directories_def)

lemma TruncateFile_effect:
  assumes "TruncateFile p n w = (s, w')" and "files w p = Some c" and "unat n \<le> length c"
  shows "files w' = files w \<or> files w' = (files w)(p \<mapsto> take (unat n) c)"
    and "ok s \<Longrightarrow> files w' = (files w)(p \<mapsto> take (unat n) c)"
    and "\<not> ok s \<Longrightarrow> IsIOError s"
proof -
  obtain e1 w1 where op: "sys_open False False p w = (e1, w1)"
    by (cases "sys_open False False p w")
  obtain e2 w2 where cut: "sys_ftruncate p (unat n) w1 = (e2, w2)"
    by (cases "sys_ftruncate p (unat n) w1")
  obtain e3 w3 where sync: "do_fsync w2 = (e3, w3)"
    by (cases "do_fsync w2")
  have w1: "files w1 = files w"
    using sys_open_effect [OF op] assms(2) by (cases e1) auto
  have w2: "files w2 = (if e2 = None then (files w)(p \<mapsto> take (unat n) c) else files w)"
    using cut assms(2,3) w1
    by (auto simp: sys_ftruncate_def Let_def split: prod.splits option.splits dest!: files_next_sys)
  note run = assms(1) [unfolded TruncateFile_def op cut sync prod.case] and w3 = files_do_fsync [OF sync]
  show "files w' = files w \<or> files w' = (files w)(p \<mapsto> take (unat n) c)"
    "ok s \<Longrightarrow> files w' = (files w)(p \<mapsto> take (unat n) c)" "\<not> ok s \<Longrightarrow> IsIOError s"
    using run w1 w2 w3 by (cases e1; cases e2; cases e3; auto simp: IsIOError_def)+
qed

lemma TruncateFile_no_faults:
  assumes "faults w = []" and "files w p = Some c" and "unat n \<le> length c"
  shows "TruncateFile p n w = (status_OK, w\<lparr>files := (files w)(p \<mapsto> take (unat n) c)\<rparr>)"
  using assms by (simp add: TruncateFile_def sys_ftruncate_def)

end
