(* ===== verification/Pebble_Bloom.thy ===== *)
theory Pebble_Bloom
  imports Pebble_Crc32c
begin

text \<open>
  The Bloom filter of a table (bloom/bloom_filter.hpp, bloom/bloom_filter.cpp).  A filter is one byte
  with the number of probes and the bit array.  Sizes are \<open>std::size_t\<close> and wrap; the modulus of a probe
  is the number of bits cast to 32 bits, and where that is 0 the division traps: the models return
  \<open>None\<close> there.  Shown here: no false negatives, for every set of keys and every policy; every probe is
  inside the array; which sizes cannot trap.
\<close>

subsection \<open>Hashes\<close>

definition Hash1 :: "bytes \<Rightarrow> u32" where
  "Hash1 key = Crc32c key"

definition Hash2 :: "u32 \<Rightarrow> u32" where
  "Hash2 h1 = drop_bit 15 h1 OR push_bit 17 h1"

subsection \<open>The number of probes\<close>

text \<open>
  \<open>k = bits_per_key * ln 2\<close> in IEEE double arithmetic.  The constant is
  6243314768165359 / 2 ^ 53; values are naturals in units of 2 ^ -53, and \<open>round_double\<close> is rounding to 53
  significant bits, ties to even, applied after the conversion, the product and the sum.
\<close>

fun bit_length :: "nat \<Rightarrow> nat" where
  "bit_length n = (if n = 0 then 0 else Suc (bit_length (n div 2)))"

declare bit_length.simps [simp del]

definition round_double :: "nat \<Rightarrow> nat" where
  "round_double m =
     (if bit_length m \<le> 53 then m
      else
        let unit = 2 ^ (bit_length m - 53);
            q = m div unit;
            r = m mod unit
        in unit * (if unit < 2 * r \<or> (unit = 2 * r \<and> odd q) then q + 1 else q))"

definition ChooseNumProbes :: "u64 \<Rightarrow> nat" where
  "ChooseNumProbes bits_per_key =
     (let k = round_double (round_double (unat bits_per_key) * 6243314768165359);
          probes = round_double (k + 2 ^ 52) div 2 ^ 53;
          probes = (if probes < 1 then 1 else probes)
      in if 30 < probes then 30 else probes)"

lemma ChooseNumProbes_range: "1 \<le> ChooseNumProbes b \<and> ChooseNumProbes b \<le> 30"
  by (simp add: ChooseNumProbes_def Let_def)

lemma bit_length_eq: "2 ^ k \<le> n \<Longrightarrow> n < 2 ^ Suc k \<Longrightarrow> bit_length n = Suc k"
proof (induction k arbitrary: n)
  case 0
  then have "n = 1" by simp
  then show ?case by (simp add: bit_length.simps [of "Suc 0"] bit_length.simps [of 0])
next
  case (Suc k)
  then have "bit_length (n div 2) = Suc k" by simp
  moreover have "n \<noteq> 0" using Suc.prems(1) by (metis not_less zero_less_numeral zero_less_power)
  ultimately show ?case by (simp add: bit_length.simps [of n])
qed

lemma round_double_exact: "m < 2 ^ 53 \<Longrightarrow> round_double m = m"
proof -
  have "n < 2 ^ k \<Longrightarrow> bit_length n \<le> k" for n k
    by (induction k arbitrary: n) (auto simp: bit_length.simps)
  then show "m < 2 ^ 53 \<Longrightarrow> round_double m = m"
    by (simp add: round_double_def)
qed

lemma ChooseNumProbes_default: "ChooseNumProbes 10 = 7"
proof -
  have "round_double (10 * 6243314768165359) = 62433147681653592"
    by (simp add: round_double_def bit_length_eq [of 55])
  moreover have "round_double (62433147681653592 + 2 ^ 52) = 66936747309024088"
    by (simp add: round_double_def bit_length_eq [of 55])
  ultimately show ?thesis
    by (simp add: ChooseNumProbes_def round_double_exact [of 10])
qed

subsection \<open>Building and querying\<close>

text \<open>The two inner loops: \<open>n\<close> probes are left, the next one at \<open>g\<close>.\<close>

fun set_probes :: "nat \<Rightarrow> u32 \<Rightarrow> u32 \<Rightarrow> u32 \<Rightarrow> bytes \<Rightarrow> bytes" where
  "set_probes 0 g h2 num_bits bits = bits"
| "set_probes (Suc n) g h2 num_bits bits =
     (let bit_pos = g mod num_bits;
          i = unat (bit_pos div 8)
      in set_probes n (g + h2) h2 num_bits
           (bits[i := bits ! i OR push_bit (unat (bit_pos mod 8)) 1]))"

fun check_probes :: "nat \<Rightarrow> u32 \<Rightarrow> u32 \<Rightarrow> u32 \<Rightarrow> bytes \<Rightarrow> bool" where
  "check_probes 0 g h2 num_bits bits = True"
| "check_probes (Suc n) g h2 num_bits bits =
     (let bit_pos = g mod num_bits;
          byte = bits ! unat (bit_pos div 8)
      in if byte AND push_bit (unat (bit_pos mod 8)) 1 = 0 then False
         else check_probes n (g + h2) h2 num_bits bits)"

definition filter_num_bytes :: "nat \<Rightarrow> u64 \<Rightarrow> u64" where
  "filter_num_bytes num_keys bits_per_key =
     (let num_bits = of_nat num_keys * bits_per_key;
          num_bits = (if num_bits < 64 then 64 else num_bits)
      in (num_bits + 7) div 8)"

definition BuildFilter :: "bytes list \<Rightarrow> u64 \<Rightarrow> bytes option" where
  "BuildFilter keys bits_per_key =
     (if keys = [] \<or> bits_per_key = 0 then Some []
      else
        let num_probes = ChooseNumProbes bits_per_key;
            num_bytes = filter_num_bytes (length keys) bits_per_key;
            num_bits = num_bytes * 8;
            modulus = ucast num_bits :: u32
        in if modulus = 0 then None
           else Some (of_nat num_probes #
             fold (\<lambda>key bits. let h1 = Hash1 key; h2 = Hash2 h1
                              in set_probes num_probes h1 h2 modulus bits)
               keys (replicate (unat num_bytes) 0)))"

definition KeyMayMatch :: "bytes \<Rightarrow> bytes \<Rightarrow> bool option" where
  "KeyMayMatch key fltr =
     (if length fltr < 2 then Some True
      else
        let num_probes = unat (fltr ! 0);
            bits = drop 1 fltr;
            num_bits = of_nat (length bits) * 8 :: u64;
            modulus = ucast num_bits :: u32;
            h1 = Hash1 key;
            h2 = Hash2 h1
        in if num_probes \<noteq> 0 \<and> modulus = 0 then None
           else Some (check_probes num_probes h1 h2 modulus bits))"

subsection \<open>No false negatives\<close>

text \<open>\<open>covers a b\<close>: every bit set in \<open>a\<close> is set in \<open>b\<close>.\<close>

definition covers :: "bytes \<Rightarrow> bytes \<Rightarrow> bool" where
  "covers a b \<longleftrightarrow> length a = length b \<and> (\<forall>i<length a. \<forall>n. bit (a ! i) n \<longrightarrow> bit (b ! i) n)"

lemma covers_refl [simp]: "covers a a"
  by (simp add: covers_def)

lemma covers_trans: "covers a b \<Longrightarrow> covers b c \<Longrightarrow> covers a c"
  by (auto simp: covers_def)

lemma covers_set_bit: "covers a (a[i := a ! i OR x])"
  by (cases "i < length a") (auto simp: covers_def nth_list_update bit_or_iff)

lemma set_probes_covers: "covers bits (set_probes n g h2 m bits)"
proof (induction n arbitrary: g bits)
  case 0
  then show ?case by simp
next
  case (Suc n)
  show ?case
    unfolding set_probes.simps Let_def by (rule covers_trans [OF covers_set_bit Suc.IH])
qed

lemma probe_test: "byte AND push_bit k 1 = 0 \<longleftrightarrow> \<not> bit byte k"
  for byte :: "8 word"
  unfolding push_bit_of_1 by (rule and_exp_eq_0_iff_not_bit)

text \<open>Every probe falls inside the array.\<close>

definition in_array :: "u32 \<Rightarrow> bytes \<Rightarrow> bool" where
  "in_array m bits \<longleftrightarrow> m \<noteq> 0 \<and> unat m \<le> 8 * length bits"

lemma probe_in_array:
  assumes "in_array m bits"
  shows "unat ((g mod m) div 8) < length bits"
proof -
  have "unat (g mod m) < unat m"
    using assms by (simp add: in_array_def unat_mod unat_gt_0)
  then have "unat (g mod m) < 8 * length bits"
    using assms by (simp add: in_array_def)
  then show ?thesis
    by (simp add: unat_div less_mult_imp_div_less mult.commute)
qed

lemma in_array_length: "length a = length b \<Longrightarrow> in_array m a = in_array m b"
  by (simp add: in_array_def)

lemma check_probes_mono:
  "covers a b \<Longrightarrow> in_array m a \<Longrightarrow> check_probes n g h2 m a \<Longrightarrow> check_probes n g h2 m b"
proof (induction n arbitrary: g)
  case 0
  then show ?case by simp
next
  case (Suc n)
  from probe_in_array [OF Suc.prems(2), of g] Suc show ?case
    unfolding check_probes.simps Let_def probe_test covers_def by (auto split: if_splits)
qed

lemma set_check: "in_array m bits \<Longrightarrow> check_probes n g h2 m (set_probes n g h2 m bits)"
proof (induction n arbitrary: g bits)
  case 0
  then show ?case by simp
next
  case (Suc n)
  define i where "i = unat ((g mod m) div 8)"
  define k where "k = unat ((g mod m) mod 8)"
  define b1 where "b1 = bits[i := bits ! i OR push_bit k 1]"
  have i: "i < length bits"
    using probe_in_array [OF Suc.prems] by (simp add: i_def)
  have k: "k < 8"
    by (simp add: k_def unat_mod)
  have "bit (b1 ! i) k"
    using i k by (simp add: b1_def bit_or_iff bit_exp_iff possible_bit_word)
  moreover have "covers b1 (set_probes n (g + h2) h2 m b1)"
    by (rule set_probes_covers)
  ultimately have first: "bit (set_probes n (g + h2) h2 m b1 ! i) k"
    using i by (simp add: covers_def b1_def)
  have "in_array m b1"
    using Suc.prems by (simp add: in_array_def b1_def)
  from Suc.IH [OF this, of "g + h2"] first show ?case
    unfolding check_probes.simps set_probes.simps Let_def probe_test
    by (simp only: i_def [symmetric] k_def [symmetric] b1_def [symmetric] if_True not_True_eq_False
        if_False not_not)
qed

lemma build_covers:
  "covers bits (fold (\<lambda>key. set_probes n (Hash1 key) (Hash2 (Hash1 key)) m) keys bits)"
proof (induction keys arbitrary: bits)
  case Nil
  then show ?case by simp
next
  case (Cons key keys)
  show ?case
    unfolding fold_Cons comp_def by (rule covers_trans [OF set_probes_covers Cons.IH])
qed

lemma build_check:
  assumes "in_array m bits" and "key \<in> set keys"
  shows "check_probes n (Hash1 key) (Hash2 (Hash1 key)) m
    (fold (\<lambda>key. set_probes n (Hash1 key) (Hash2 (Hash1 key)) m) keys bits)"
  using assms
proof (induction keys arbitrary: bits)
  case Nil
  then show ?case by simp
next
  case (Cons k keys)
  let ?b1 = "set_probes n (Hash1 k) (Hash2 (Hash1 k)) m bits"
  have inside: "in_array m ?b1"
    using Cons.prems(1) set_probes_covers [of bits n "Hash1 k" "Hash2 (Hash1 k)" m]
    by (simp add: covers_def in_array_def)
  show ?case
  proof (cases "key \<in> set keys")
    case True
    with Cons.IH [OF inside] show ?thesis by simp
  next
    case False
    with Cons.prems(2) have "key = k" by simp
    with set_check [OF Cons.prems(1)] check_probes_mono [OF build_covers inside] show ?thesis
      by simp
  qed
qed

lemma ucast_le_unat: "unat (ucast x :: u32) \<le> unat x"
  for x :: u64
  by (simp add: unsigned_ucast_eq take_bit_nat_less_eq_self)

theorem BuildFilter_no_false_negatives:
  assumes "BuildFilter keys bits_per_key = Some fltr" and "key \<in> set keys"
  shows "KeyMayMatch key fltr = Some True"
proof (cases "keys = [] \<or> bits_per_key = 0")
  case True
  with assms(1) have "fltr = []" by (auto simp: BuildFilter_def)
  then show ?thesis by (simp add: KeyMayMatch_def)
next
  case False
  define num_bytes where "num_bytes = filter_num_bytes (length keys) bits_per_key"
  define m where "m = (ucast (num_bytes * 8) :: u32)"
  define n where "n = ChooseNumProbes bits_per_key"
  define bits where "bits = fold (\<lambda>key. set_probes n (Hash1 key) (Hash2 (Hash1 key)) m) keys
    (replicate (unat num_bytes) 0)"
  from assms(1) False have m: "m \<noteq> 0" and fltr: "fltr = of_nat n # bits"
    by (auto simp: BuildFilter_def Let_def num_bytes_def m_def n_def bits_def split: if_splits)
  have len: "length bits = unat num_bytes"
    using build_covers [of "replicate (unat num_bytes) 0" n m keys]
    by (simp add: bits_def covers_def)
  have "unat m \<le> unat (num_bytes * 8)"
    unfolding m_def by (rule ucast_le_unat)
  also have "\<dots> \<le> unat num_bytes * 8"
    by (simp add: unat_word_ariths)
  finally have "in_array m (replicate (unat num_bytes) 0)"
    using m by (simp add: in_array_def)
  then have "check_probes n (Hash1 key) (Hash2 (Hash1 key)) m bits"
    unfolding bits_def using assms(2) by (rule build_check)
  moreover have "unat (of_nat n :: byte) = n"
    using ChooseNumProbes_range [of bits_per_key] by (simp add: n_def unat_of_nat)
  moreover have "of_nat (length bits) * 8 = num_bytes * 8"
    by (simp add: len)
  ultimately show ?thesis
    using m by (simp add: KeyMayMatch_def fltr m_def Let_def)
qed

subsection \<open>When building cannot trap\<close>

lemma BuildFilter_total:
  assumes "length keys * unat bits_per_key < 2 ^ 32 - 64"
  shows "\<exists>fltr. BuildFilter keys bits_per_key = Some fltr \<and> length fltr < 2 ^ 29"
proof (cases "keys = [] \<or> bits_per_key = 0")
  case True
  then show ?thesis by (auto simp: BuildFilter_def)
next
  case False
  define p where "p = length keys * unat bits_per_key"
  define q where "q = (max 64 p + 7) div 8"
  have p: "p < 2 ^ 32 - 64" using assms by (simp add: p_def)
  have "0 < unat bits_per_key"
    using False by (simp add: unat_gt_0)
  then have len: "length keys < 2 ^ 32"
    using p by (cases "unat bits_per_key") (auto simp: p_def)
  have prod: "unat (of_nat (length keys) * bits_per_key) = p"
    using p len by (simp add: p_def unat_word_ariths unat_of_nat)
  then have num_bits: "unat (if of_nat (length keys) * bits_per_key < (64 :: u64) then 64
      else of_nat (length keys) * bits_per_key) = max 64 p"
    by (auto simp: word_less_nat_alt)
  have bytes: "unat (filter_num_bytes (length keys) bits_per_key) = q"
    using p unfolding filter_num_bytes_def Let_def q_def
    by (simp only: unat_div unat_word_ariths num_bits) simp
  have q: "8 \<le> q" "q * 8 < 2 ^ 32" "q < 2 ^ 29 - 1"
    using p by (simp_all add: q_def)
  have "unat (ucast (filter_num_bytes (length keys) bits_per_key * 8) :: u32) = q * 8"
    using q by (simp add: unsigned_ucast_eq unat_word_ariths bytes take_bit_eq_mod)
  then have "(ucast (filter_num_bytes (length keys) bits_per_key * 8) :: u32) \<noteq> 0"
    using q(1) by (metis mult_eq_0_iff not_numeral_le_zero unat_0 zero_neq_numeral)
  moreover define n where "n = ChooseNumProbes bits_per_key"
  moreover define m where "m = (ucast (filter_num_bytes (length keys) bits_per_key * 8) :: u32)"
  ultimately have "BuildFilter keys bits_per_key = Some (of_nat n #
      fold (\<lambda>key. set_probes n (Hash1 key) (Hash2 (Hash1 key)) m) keys
        (replicate (unat (filter_num_bytes (length keys) bits_per_key)) 0))"
    using False by (simp add: BuildFilter_def Let_def)
  moreover have "length (fold (\<lambda>key. set_probes n (Hash1 key) (Hash2 (Hash1 key)) m) keys
        (replicate (unat (filter_num_bytes (length keys) bits_per_key)) 0)) = q"
    using build_covers [of "replicate (unat (filter_num_bytes (length keys) bits_per_key)) 0" n m keys]
    by (simp add: covers_def bytes)
  ultimately show ?thesis
    using q(3) by auto
qed

end
