(* ===== verification/Pebble_Sst_Writer.thy ===== *)
theory Pebble_Sst_Writer
  imports Pebble_Sst_Format Pebble_Files Pebble_Bloom
begin

text \<open>
  Writing a sorted table (sstable/writer.hpp, sstable/writer.cpp).  \<open>table_bytes\<close> says what the file of
  a table with given blocks is; \<open>writing\<close> relates the state of a writer, the file and the entries added
  so far.  Shown here: keys out of order are refused, every successful \<open>Add\<close> keeps \<open>writing\<close>, and after
  a successful \<open>Finish\<close> the file is \<open>table_bytes\<close> of nonempty blocks holding exactly the entries added,
  whatever partial writes and interruptions the system produced on the way.
\<close>

record sst_writer_options =
  wo_target_block_size_bytes :: u64
  wo_filter_bits_per_key :: u64

definition default_writer_options :: sst_writer_options where
  "default_writer_options = \<lparr>wo_target_block_size_bytes = 4096, wo_filter_bits_per_key = 10\<rparr>"

record sst_writer =
  sw_file :: posix_file
  sw_options :: sst_writer_options
  sw_current_block_entries :: bytes
  sw_last_key_in_current_block :: bytes
  sw_current_block_has_entries :: bool
  sw_file_offset :: u64
  sw_index_block :: bytes
  sw_keys_for_filter :: "bytes list"
  sw_last_key_added :: bytes
  sw_has_added_any :: bool
  sw_entries_written :: u64
  sw_finished :: bool

definition SstWriter_Open :: "string \<Rightarrow> sst_writer_options \<Rightarrow> world \<Rightarrow>
    status \<times> sst_writer option \<times> world" where
  "SstWriter_Open path options w =
     (case OpenNew path w of
        (s, None, w) \<Rightarrow> (s, None, w)
      | (s, Some file, w) \<Rightarrow>
          (status_OK, Some \<lparr>sw_file = file, sw_options = options, sw_current_block_entries = [],
             sw_last_key_in_current_block = [], sw_current_block_has_entries = False,
             sw_file_offset = 0, sw_index_block = [], sw_keys_for_filter = [],
             sw_last_key_added = [], sw_has_added_any = False, sw_entries_written = 0,
             sw_finished = False\<rparr>, w))"

definition FlushCurrentBlock :: "sst_writer \<Rightarrow> world \<Rightarrow> status \<times> sst_writer \<times> world" where
  "FlushCurrentBlock wr w =
     (if \<not> sw_current_block_has_entries wr then (status_OK, wr, w)
      else
        let (block_bytes, written) = FinishBlock (sw_current_block_entries wr) []
        in case Append (sw_file wr) block_bytes w of
             (s, file, w) \<Rightarrow>
               let wr = wr\<lparr>sw_file := file\<rparr>
               in if \<not> ok s then (s, wr, w)
                  else
                    let entry = \<lparr>ie_last_key = sw_last_key_in_current_block wr,
                                 ie_handle = \<lparr>bh_offset = sw_file_offset wr, bh_size = of_nat written\<rparr>\<rparr>
                    in (status_OK,
                        wr\<lparr>sw_index_block := EncodeIndexEntry entry (sw_index_block wr),
                           sw_file_offset := sw_file_offset wr + of_nat written,
                           sw_current_block_entries := [],
                           sw_current_block_has_entries := False\<rparr>, w))"

definition SstWriter_Add :: "bytes \<Rightarrow> bytes \<Rightarrow> u64 \<Rightarrow> entry_type \<Rightarrow> sst_writer \<Rightarrow> world \<Rightarrow>
    status \<times> sst_writer \<times> world" where
  "SstWriter_Add key val sequence type wr w =
     (if sw_finished wr then (InvalidArgument ''Writer::Add() called after Finish()'', wr, w)
      else if sw_has_added_any wr \<and> key \<le> sw_last_key_added wr
      then (InvalidArgument
              ''sstable::Writer requires keys to be added in strictly increasing order'', wr, w)
      else
        let is_tombstone = (type = kTombstone);
            wr = wr\<lparr>sw_current_block_entries :=
                   EncodeEntry key sequence type (if is_tombstone then [] else val)
                     (sw_current_block_entries wr),
                 sw_last_key_in_current_block := key,
                 sw_current_block_has_entries := True,
                 sw_keys_for_filter :=
                   (if 0 < wo_filter_bits_per_key (sw_options wr)
                    then sw_keys_for_filter wr @ [key] else sw_keys_for_filter wr),
                 sw_last_key_added := key,
                 sw_has_added_any := True,
                 sw_entries_written := sw_entries_written wr + 1\<rparr>
        in if unat (wo_target_block_size_bytes (sw_options wr)) \<le> length (sw_current_block_entries wr)
           then case FlushCurrentBlock wr w of
                  (s, wr, w) \<Rightarrow> if \<not> ok s then (s, wr, w) else (status_OK, wr, w)
           else (status_OK, wr, w))"

text \<open>
  \<open>Finish\<close> writes the last data block, the filter block if there is one, the index block and the
  footer.  \<open>None\<close> is the division by zero of \<open>BuildFilter\<close>.
\<close>

definition Finish_tail :: "block_handle \<Rightarrow> sst_writer \<Rightarrow> world \<Rightarrow> status \<times> sst_writer \<times> world" where
  "Finish_tail filter_handle wr w =
     (let (index_block_bytes, index_written) = FinishBlock (sw_index_block wr) [];
          index_handle = \<lparr>bh_offset = sw_file_offset wr, bh_size = of_nat index_written\<rparr>
      in case Append (sw_file wr) index_block_bytes w of
           (s, file, w) \<Rightarrow>
             let wr = wr\<lparr>sw_file := file\<rparr>
             in if \<not> ok s then (s, wr\<lparr>sw_finished := True\<rparr>, w)
                else
                  let wr = wr\<lparr>sw_file_offset := sw_file_offset wr + of_nat index_written\<rparr>;
                      footer = \<lparr>ft_stored_checksum = 0, ft_format_version = sst_kFormatVersion,
                                ft_index_handle = index_handle, ft_filter_handle = filter_handle,
                                ft_num_entries = sw_entries_written wr\<rparr>;
                      footer_bytes = EncodeFooter footer []
                  in case Append (sw_file wr) footer_bytes w of
                       (s, file, w) \<Rightarrow>
                         let wr = wr\<lparr>sw_file := file\<rparr>
                         in if \<not> ok s then (s, wr\<lparr>sw_finished := True\<rparr>, w)
                            else
                              let wr = wr\<lparr>sw_file_offset := sw_file_offset wr + of_nat (length footer_bytes)\<rparr>
                              in case Sync (sw_file wr) w of
                                   (s, w) \<Rightarrow> (s, wr\<lparr>sw_finished := True\<rparr>, w))"

definition SstWriter_Finish :: "sst_writer \<Rightarrow> world \<Rightarrow> (status \<times> sst_writer \<times> world) option" where
  "SstWriter_Finish wr w =
     (if sw_finished wr then Some (InvalidArgument ''Writer::Finish() called more than once'', wr, w)
      else
        case FlushCurrentBlock wr w of
          (s, wr, w) \<Rightarrow>
            if \<not> ok s then Some (s, wr\<lparr>sw_finished := True\<rparr>, w)
            else
              let filter_handle = \<lparr>bh_offset = sw_file_offset wr, bh_size = 0\<rparr>
              in if sw_keys_for_filter wr = [] then Some (Finish_tail filter_handle wr w)
                 else
                   case BuildFilter (sw_keys_for_filter wr) (wo_filter_bits_per_key (sw_options wr)) of
                     None \<Rightarrow> None
                   | Some filter_content \<Rightarrow>
                       if filter_content = [] then Some (Finish_tail filter_handle wr w)
                       else
                         let (filter_block_bytes, filter_written) = FinishBlock filter_content []
                         in case Append (sw_file wr) filter_block_bytes w of
                              (s, file, w) \<Rightarrow>
                                let wr = wr\<lparr>sw_file := file\<rparr>
                                in if \<not> ok s then Some (s, wr\<lparr>sw_finished := True\<rparr>, w)
                                   else
                                     let filter_handle = filter_handle\<lparr>bh_size := of_nat filter_written\<rparr>;
                                         wr = wr\<lparr>sw_file_offset := sw_file_offset wr + of_nat filter_written\<rparr>
                                     in Some (Finish_tail filter_handle wr w))"

subsection \<open>What a table file is\<close>

definition block_bytes :: "bytes \<Rightarrow> bytes" where
  "block_bytes c = c @ [0] @ fixed32 (Crc32c (c @ [0]))"

definition data_bytes :: "sst_entry list list \<Rightarrow> bytes" where
  "data_bytes blocks = concat (map (\<lambda>b. block_bytes (entries.encs b)) blocks)"

fun index_of :: "nat \<Rightarrow> sst_entry list list \<Rightarrow> index_entry list" where
  "index_of offset [] = []"
| "index_of offset (b # bs) =
     \<lparr>ie_last_key = se_key (last b),
      ie_handle = \<lparr>bh_offset = of_nat offset, bh_size = of_nat (length (block_bytes (entries.encs b)))\<rparr>\<rparr>
     # index_of (offset + length (block_bytes (entries.encs b))) bs"

definition filter_bytes :: "bytes \<Rightarrow> bytes" where
  "filter_bytes fltr = (if fltr = [] then [] else block_bytes fltr)"

definition table_footer :: "sst_entry list list \<Rightarrow> bytes \<Rightarrow> footer" where
  "table_footer blocks fltr =
     \<lparr>ft_stored_checksum = 0, ft_format_version = sst_kFormatVersion,
      ft_index_handle = \<lparr>bh_offset = of_nat (length (data_bytes blocks) + length (filter_bytes fltr)),
        bh_size = of_nat (length (block_bytes (index.encs (index_of 0 blocks))))\<rparr>,
      ft_filter_handle = \<lparr>bh_offset = of_nat (length (data_bytes blocks)),
        bh_size = of_nat (length (filter_bytes fltr))\<rparr>,
      ft_num_entries = of_nat (length (concat blocks))\<rparr>"

definition table_bytes :: "sst_entry list list \<Rightarrow> bytes \<Rightarrow> bytes" where
  "table_bytes blocks fltr =
     data_bytes blocks @ filter_bytes fltr @ block_bytes (index.encs (index_of 0 blocks)) @
     EncodeFooter (table_footer blocks fltr) []"

definition well_formed_blocks :: "sst_entry list list \<Rightarrow> bool" where
  "well_formed_blocks blocks \<longleftrightarrow> [] \<notin> set blocks \<and> (\<forall>e\<in>set (concat blocks). entry_valid e) \<and>
     sorted_wrt (<) (map se_key (concat blocks))"

lemma FinishBlock_bytes: "FinishBlock c [] = (block_bytes c, length (block_bytes c))"
  by (simp add: FinishBlock_layout block_bytes_def kBlockTrailerSize_def)

lemma length_block_bytes [simp]: "length (block_bytes c) = length c + 5"
  by (simp add: block_bytes_def)

lemma data_bytes_snoc: "data_bytes (bs @ [b]) = data_bytes bs @ block_bytes (entries.encs b)"
  by (simp add: data_bytes_def)

lemma index_of_append:
  "index_of off (bs @ cs) = index_of off bs @ index_of (off + length (data_bytes bs)) cs"
  by (induction bs arbitrary: off) (simp_all add: data_bytes_def add.assoc)

subsection \<open>The writer's state and what it has been given\<close>

definition all_entries :: "sst_entry list list \<Rightarrow> sst_entry list \<Rightarrow> sst_entry list" where
  "all_entries blocks cur = concat blocks @ cur"

lemma all_entries_simps [simp]:
  "all_entries [] [] = []"
  "all_entries blocks (cur @ [e]) = all_entries blocks cur @ [e]"
  "all_entries (blocks @ [cur]) [] = all_entries blocks cur"
  by (simp_all add: all_entries_def)

definition writing :: "sst_writer \<Rightarrow> sst_entry list list \<Rightarrow> sst_entry list \<Rightarrow> world \<Rightarrow> bool" where
  "writing wr blocks cur w \<longleftrightarrow>
     sink (sw_file wr) (data_bytes blocks) w \<and>
     sw_current_block_entries wr = entries.encs cur \<and>
     sw_current_block_has_entries wr = (cur \<noteq> []) \<and>
     (cur \<noteq> [] \<longrightarrow> sw_last_key_in_current_block wr = se_key (last cur)) \<and>
     sw_file_offset wr = of_nat (length (data_bytes blocks)) \<and>
     sw_index_block wr = index.encs (index_of 0 blocks) \<and>
     sw_keys_for_filter wr =
       (if 0 < wo_filter_bits_per_key (sw_options wr) then map se_key (all_entries blocks cur) else []) \<and>
     sw_has_added_any wr = (all_entries blocks cur \<noteq> []) \<and>
     (all_entries blocks cur \<noteq> [] \<longrightarrow> sw_last_key_added wr = se_key (last (all_entries blocks cur))) \<and>
     sw_entries_written wr = of_nat (length (all_entries blocks cur)) \<and>
     \<not> sw_finished wr \<and>
     [] \<notin> set blocks \<and> (\<forall>e\<in>set (all_entries blocks cur). entry_valid e) \<and>
     sorted_wrt (<) (map se_key (all_entries blocks cur))"

lemma SstWriter_Open_effect:
  assumes "SstWriter_Open path options w = (s, out, w')"
  shows "files w' = files w \<or> files w' = (files w)(path \<mapsto> [])"
    and "ok s \<Longrightarrow> \<exists>wr. out = Some wr \<and> writing wr [] [] w' \<and> sw_options wr = options \<and>
      fd_path (sw_file wr) = path \<and> files w' = (files w)(path \<mapsto> [])"
    and "\<not> ok s \<Longrightarrow> out = None \<and> IsIOError s"
proof -
  obtain r fo v where op: "OpenNew path w = (r, fo, v)"
    by (rule prod_cases3)
  note effect = OpenNew_effect [OF op]
  show "files w' = files w \<or> files w' = (files w)(path \<mapsto> [])"
    using assms effect(1) by (cases fo) (simp_all add: SstWriter_Open_def op)
  show "out = None \<and> IsIOError s" if "\<not> ok s"
  proof (cases "ok r")
    case True
    with assms effect(2) [OF True] that show ?thesis by (simp add: SstWriter_Open_def op)
  next
    case False
    with assms effect(3) [OF False] show ?thesis by (simp add: SstWriter_Open_def op)
  qed
  assume "ok s"
  have r: "ok r"
  proof (rule ccontr)
    assume "\<not> ok r"
    with assms effect(3) [OF this] \<open>ok s\<close> show False by (simp add: SstWriter_Open_def op)
  qed
  define wr where "wr = \<lparr>sw_file = the fo, sw_options = options, sw_current_block_entries = [],
     sw_last_key_in_current_block = [], sw_current_block_has_entries = False,
     sw_file_offset = 0, sw_index_block = [], sw_keys_for_filter = [],
     sw_last_key_added = [], sw_has_added_any = False, sw_entries_written = 0,
     sw_finished = False\<rparr>"
  have fo: "fo = Some \<lparr>fd_path = path, fd_append = False, fd_pos = 0\<rparr>"
    and v: "files v = (files w)(path \<mapsto> [])"
    using effect(2) [OF r] by simp_all
  have "out = Some wr" "w' = v"
    using assms by (simp_all add: SstWriter_Open_def op fo wr_def)
  moreover have "writing wr [] [] v"
    by (simp add: writing_def sink_def data_bytes_def wr_def fo v)
  ultimately show "\<exists>wr. out = Some wr \<and> writing wr [] [] w' \<and> sw_options wr = options \<and>
      fd_path (sw_file wr) = path \<and> files w' = (files w)(path \<mapsto> [])"
    using v by (intro exI [of _ wr]) (simp add: wr_def fo)
qed

lemma FlushCurrentBlock_status:
  "FlushCurrentBlock wr w = (s, wr', w') \<Longrightarrow> ok s \<Longrightarrow> s = status_OK"
  by (auto simp: FlushCurrentBlock_def FinishBlock_bytes Let_def split: if_splits prod.splits)

lemma FlushCurrentBlock_effect:
  assumes "FlushCurrentBlock wr w = (s, wr', w')" and "writing wr blocks cur w"
  shows "\<exists>c. files w' = (files w)(fd_path (sw_file wr) \<mapsto> c)"
    and "fd_path (sw_file wr') = fd_path (sw_file wr)" and "sw_options wr' = sw_options wr"
    and "\<not> ok s \<Longrightarrow> IsIOError s"
    and "ok s \<Longrightarrow> writing wr' (if cur = [] then blocks else blocks @ [cur]) [] w'"
proof -
  have sink: "sink (sw_file wr) (data_bytes blocks) w"
    using assms(2) by (simp add: writing_def)
  have old: "(files w)(fd_path (sw_file wr) \<mapsto> data_bytes blocks) = files w"
    using sink by (simp add: sink_def fun_upd_idem)
  obtain s1 f1 w1 where app: "Append (sw_file wr) (block_bytes (entries.encs cur)) w = (s1, f1, w1)"
    by (rule prod_cases3)
  from Append_sink [OF app sink] obtain n where
    n: "files w1 = (files w)(fd_path (sw_file wr) \<mapsto> data_bytes blocks @ take n (block_bytes (entries.encs cur)))"
    "sink f1 (data_bytes blocks @ take n (block_bytes (entries.encs cur))) w1"
    "fd_path f1 = fd_path (sw_file wr)"
    "if ok s1 then n = length (block_bytes (entries.encs cur)) else IsIOError s1"
    by (metis (no_types, lifting))
  define entry where "entry = \<lparr>ie_last_key = sw_last_key_in_current_block wr,
    ie_handle = \<lparr>bh_offset = sw_file_offset wr, bh_size = of_nat (length (block_bytes (entries.encs cur)))\<rparr>\<rparr>"
  define wr1 where "wr1 = wr\<lparr>sw_file := f1, sw_index_block := EncodeIndexEntry entry (sw_index_block wr),
    sw_file_offset := sw_file_offset wr + of_nat (length (block_bytes (entries.encs cur))),
    sw_current_block_entries := [], sw_current_block_has_entries := False\<rparr>"
  have run: "FlushCurrentBlock wr w =
      (if cur = [] then (status_OK, wr, w)
       else if ok s1 then (status_OK, wr1, w1) else (s1, wr\<lparr>sw_file := f1\<rparr>, w1))"
    using assms(2) app
    by (simp add: FlushCurrentBlock_def writing_def FinishBlock_bytes wr1_def entry_def Let_def
        del: length_block_bytes)
  show "\<exists>c. files w' = (files w)(fd_path (sw_file wr) \<mapsto> c)"
    using assms(1) run n(1) old [symmetric] by (cases "cur = []"; cases "ok s1") auto
  show "fd_path (sw_file wr') = fd_path (sw_file wr)" "sw_options wr' = sw_options wr"
    "\<not> ok s \<Longrightarrow> IsIOError s"
    using assms(1) run n(3,4) by (auto simp: wr1_def split: if_splits)
  assume ok: "ok s"
  show "writing wr' (if cur = [] then blocks else blocks @ [cur]) [] w'"
  proof (cases "cur = []")
    case True
    with assms run show ?thesis by simp
  next
    case False
    with assms(1) run ok have "ok s1" "wr' = wr1" "w' = w1"
      by (auto split: if_splits)
    moreover have "entry = hd (index_of (length (data_bytes blocks)) [cur])"
      using assms(2) False by (simp add: entry_def writing_def)
    then have "EncodeIndexEntry entry (sw_index_block wr) = index.encs (index_of 0 (blocks @ [cur]))"
      using assms(2) EncodeIndexEntry_append [of entry "sw_index_block wr"]
      by (simp add: writing_def index_of_append index_enc_def)
    ultimately show ?thesis
      using assms(2) n False by (simp add: writing_def wr1_def data_bytes_snoc)
  qed
qed

subsection \<open>Adding entries\<close>

definition added_entry :: "bytes \<Rightarrow> bytes \<Rightarrow> u64 \<Rightarrow> entry_type \<Rightarrow> sst_entry" where
  "added_entry key val sequence type =
     \<lparr>se_key = key, se_sequence = sequence, se_type = type,
      se_value = (if type = kTombstone then [] else val)\<rparr>"

lemma SstWriter_Add_refuses:
  assumes "writing wr blocks cur w" and "all_entries blocks cur \<noteq> []"
    and "key \<le> se_key (last (all_entries blocks cur))"
  shows "\<exists>m. SstWriter_Add key val sequence type wr w = (InvalidArgument m, wr, w)"
proof -
  have "\<not> sw_finished wr" "sw_has_added_any wr" "sw_last_key_added wr = se_key (last (all_entries blocks cur))"
    using assms(1,2) unfolding writing_def by blast+
  with assms(3) show ?thesis
    by (intro exI) (simp add: SstWriter_Add_def)
qed

lemma sorted_wrt_last:
  "sorted_wrt (<) (map f xs) \<Longrightarrow> xs \<noteq> [] \<Longrightarrow> f (last xs) < (k :: 'k :: linorder) \<Longrightarrow> x \<in> set xs \<Longrightarrow> f x < k"
  by (induction xs) (auto split: if_splits, metis last_in_set order_less_trans)

lemma SstWriter_Add_effect:
  assumes "SstWriter_Add key val sequence type wr w = (s, wr', w')" and "writing wr blocks cur w"
    and "length key < 2 ^ 32" and "length val < 2 ^ 32"
    and "all_entries blocks cur = [] \<or> se_key (last (all_entries blocks cur)) < key"
  shows "\<exists>c. files w' = (files w)(fd_path (sw_file wr) \<mapsto> c)"
    and "fd_path (sw_file wr') = fd_path (sw_file wr)" and "sw_options wr' = sw_options wr"
    and "\<not> ok s \<Longrightarrow> IsIOError s"
    and "ok s \<Longrightarrow> \<exists>blocks' cur'. writing wr' blocks' cur' w' \<and>
      all_entries blocks' cur' = all_entries blocks cur @ [added_entry key val sequence type]"
proof -
  define e where "e = added_entry key val sequence type"
  define wr1 where "wr1 = wr\<lparr>sw_current_block_entries :=
       EncodeEntry key sequence type (if type = kTombstone then [] else val) (sw_current_block_entries wr),
     sw_last_key_in_current_block := key, sw_current_block_has_entries := True,
     sw_keys_for_filter := (if 0 < wo_filter_bits_per_key (sw_options wr)
       then sw_keys_for_filter wr @ [key] else sw_keys_for_filter wr),
     sw_last_key_added := key, sw_has_added_any := True,
     sw_entries_written := sw_entries_written wr + 1\<rparr>"
  have last: "sw_has_added_any wr = (all_entries blocks cur \<noteq> [])"
    "all_entries blocks cur \<noteq> [] \<longrightarrow> sw_last_key_added wr = se_key (last (all_entries blocks cur))"
    and fin: "\<not> sw_finished wr"
    using assms(2) unfolding writing_def by blast+
  then have ord: "\<not> (sw_has_added_any wr \<and> key \<le> sw_last_key_added wr)"
    using assms(5) by force
  have flush: "(case FlushCurrentBlock wr1 w of (s, wr, w) \<Rightarrow>
      if \<not> ok s then (s, wr, w) else (status_OK, wr, w)) = FlushCurrentBlock wr1 w"
    using FlushCurrentBlock_status [of wr1 w] by (auto split: prod.split)
  have run: "SstWriter_Add key val sequence type wr w =
      (if unat (wo_target_block_size_bytes (sw_options wr1)) \<le> length (sw_current_block_entries wr1)
       then FlushCurrentBlock wr1 w else (status_OK, wr1, w))"
    unfolding SstWriter_Add_def if_not_P [OF fin] if_not_P [OF ord] Let_def wr1_def [symmetric] flush ..
  have enc: "EncodeEntry key sequence type (if type = kTombstone then [] else val) dst = dst @ entry_enc e" for dst
    by (subst EncodeEntry_append) (simp add: entry_enc_def e_def added_entry_def)
  have all_below: "\<forall>x\<in>set (all_entries blocks cur). se_key x < key"
  proof
    fix x assume x: "x \<in> set (all_entries blocks cur)"
    moreover from x have nonempty: "all_entries blocks cur \<noteq> []"
      by force
    moreover have "sorted_wrt (<) (map se_key (all_entries blocks cur))"
      using assms(2) unfolding writing_def by blast
    ultimately show "se_key x < key"
      using assms(5) sorted_wrt_last [of se_key "all_entries blocks cur" key x] by blast
  qed
  have key: "se_key e = key" and valid: "entry_valid e"
    using assms(3,4) by (auto simp: e_def added_entry_def entry_valid_def)
  have "sorted_wrt (<) (map se_key (all_entries blocks cur @ [e]))"
    using assms(2) all_below unfolding writing_def by (simp add: sorted_wrt_append key)
  then have wr1: "writing wr1 blocks (cur @ [e]) w"
    using assms(2) valid unfolding writing_def wr1_def enc
    by (simp add: key)
  define full where "full \<longleftrightarrow>
    unat (wo_target_block_size_bytes (sw_options wr1)) \<le> length (sw_current_block_entries wr1)"
  have same: "sw_file wr1 = sw_file wr" "sw_options wr1 = sw_options wr"
    by (simp_all add: wr1_def)
  have here: "(files w)(fd_path (sw_file wr) \<mapsto> data_bytes blocks) = files w"
    using assms(2) by (simp add: writing_def sink_def fun_upd_idem)
  note flushed = FlushCurrentBlock_effect [OF _ wr1, of s wr' w']
  show "\<exists>c. files w' = (files w)(fd_path (sw_file wr) \<mapsto> c)"
  proof (cases full)
    case True
    with assms(1) run flushed(1) show ?thesis by (simp add: full_def same)
  next
    case False
    with assms(1) run have "w' = w" by (simp add: full_def)
    with here show ?thesis by metis
  qed
  show "fd_path (sw_file wr') = fd_path (sw_file wr)" "sw_options wr' = sw_options wr"
    "\<not> ok s \<Longrightarrow> IsIOError s"
    using assms(1) run flushed(2-4) same by (cases full; auto simp: full_def)+
  assume ok: "ok s"
  show "\<exists>blocks' cur'. writing wr' blocks' cur' w' \<and>
      all_entries blocks' cur' = all_entries blocks cur @ [added_entry key val sequence type]"
  proof (cases full)
    case True
    with assms(1) run flushed(5) ok have "writing wr' (blocks @ [cur @ [e]]) [] w'"
      by (simp add: full_def)
    then show ?thesis
      by (intro exI [of _ "blocks @ [cur @ [e]]"] exI [of _ "[]"]) (simp add: e_def)
  next
    case False
    with assms(1) run wr1 have "writing wr' blocks (cur @ [e]) w'"
      by (simp add: full_def)
    then show ?thesis
      by (intro exI [of _ blocks] exI [of _ "cur @ [e]"]) (simp add: e_def)
  qed
qed

subsection \<open>Finishing\<close>

text \<open>One append onto the file of a writer: what a success writes, and that a failure is an error.\<close>

lemma append_step:
  assumes "Append f data w = (s, f', w')" and "sink f c w"
  shows "\<exists>c'. files w' = (files w)(fd_path f \<mapsto> c')" and "fd_path f' = fd_path f"
    and "\<not> ok s \<Longrightarrow> IsIOError s"
    and "ok s \<Longrightarrow> sink f' (c @ data) w' \<and> files w' = (files w)(fd_path f \<mapsto> c @ data)"
proof -
  from Append_sink [OF assms] obtain n where n: "files w' = (files w)(fd_path f \<mapsto> c @ take n data)"
    "fd_path f' = fd_path f" "if ok s then n = length data else IsIOError s \<and> n < length data"
    by blast
  show "\<exists>c'. files w' = (files w)(fd_path f \<mapsto> c')"
    using n(1) by blast
  show "fd_path f' = fd_path f"
    by (rule n(2))
  show "\<not> ok s \<Longrightarrow> IsIOError s"
    using n(3) by simp
  show "ok s \<Longrightarrow> sink f' (c @ data) w' \<and> files w' = (files w)(fd_path f \<mapsto> c @ data)"
    using Append_ok [OF assms] by blast
qed

lemma Finish_tail_effect:
  assumes "Finish_tail fh wr w = (s, wr', w')" and "sink (sw_file wr) c w"
    and "sw_file_offset wr = of_nat (length c)"
  defines "footer \<equiv> \<lparr>ft_stored_checksum = 0, ft_format_version = sst_kFormatVersion,
    ft_index_handle = \<lparr>bh_offset = of_nat (length c), bh_size = of_nat (length (block_bytes (sw_index_block wr)))\<rparr>,
    ft_filter_handle = fh, ft_num_entries = sw_entries_written wr\<rparr>"
  shows "\<exists>c'. files w' = (files w)(fd_path (sw_file wr) \<mapsto> c')" and "\<not> ok s \<Longrightarrow> IsIOError s"
    and "ok s \<Longrightarrow> files w' = (files w)(fd_path (sw_file wr) \<mapsto>
      c @ block_bytes (sw_index_block wr) @ EncodeFooter footer []) \<and>
      length (c @ block_bytes (sw_index_block wr) @ EncodeFooter footer []) \<le> max_file_size"
proof -
  obtain s1 f1 w1 where a1: "Append (sw_file wr) (block_bytes (sw_index_block wr)) w = (s1, f1, w1)"
    by (rule prod_cases3)
  obtain s2 f2 w2 where a2: "Append f1 (EncodeFooter footer []) w1 = (s2, f2, w2)"
    by (rule prod_cases3)
  obtain s3 w3 where a3: "Sync f2 w2 = (s3, w3)"
    by (cases "Sync f2 w2")
  have result: "(s, w') = (if \<not> ok s1 then (s1, w1) else if \<not> ok s2 then (s2, w2) else (s3, w3))"
    using assms(1)
    by (cases "ok s1"; cases "ok s2")
      (simp_all add: Finish_tail_def FinishBlock_bytes Let_def assms(3) a1 a2 [unfolded footer_def] a3
        del: length_block_bytes)
  note e1 = append_step [OF a1 assms(2)]
  show "\<exists>c'. files w' = (files w)(fd_path (sw_file wr) \<mapsto> c')"
  proof (cases "ok s1")
    case False
    with result e1(1) show ?thesis by simp
  next
    case True
    note sink1 = e1(4) [OF True]
    from append_step(1) [OF a2 conjunct1 [OF sink1]] e1(2)
    obtain c2 where "files w2 = (files w1)(fd_path (sw_file wr) \<mapsto> c2)" by auto
    with sink1 result True files_Sync [OF a3] show ?thesis
      by (auto split: if_splits)
  qed
  show "\<not> ok s \<Longrightarrow> IsIOError s"
  proof (cases "ok s1")
    case False
    with result e1(3) show "\<not> ok s \<Longrightarrow> IsIOError s" by simp
  next
    case True
    from append_step(3) [OF a2 conjunct1 [OF e1(4) [OF True]]] result True Sync_error [OF a3]
    show "\<not> ok s \<Longrightarrow> IsIOError s" by (auto split: if_splits)
  qed
  assume "ok s"
  with result have ok: "ok s1" "ok s2" "s = s3" "w' = w3"
    by (auto split: if_splits)
  note sink1 = e1(4) [OF ok(1)]
  note sink2 = append_step(4) [OF a2 conjunct1 [OF sink1] ok(2)]
  have "files w' = (files w)(fd_path (sw_file wr) \<mapsto> c @ block_bytes (sw_index_block wr) @ EncodeFooter footer [])"
    using sink1 sink2 files_Sync [OF a3] ok(4) e1(2) by simp
  moreover have "length (c @ block_bytes (sw_index_block wr) @ EncodeFooter footer []) \<le> max_file_size"
    using sink2 by (simp add: sink_def)
  ultimately show "files w' = (files w)(fd_path (sw_file wr) \<mapsto>
      c @ block_bytes (sw_index_block wr) @ EncodeFooter footer []) \<and>
      length (c @ block_bytes (sw_index_block wr) @ EncodeFooter footer []) \<le> max_file_size"
    by blast
qed

text \<open>The filter a table with these keys gets.\<close>

definition filter_for :: "u64 \<Rightarrow> sst_entry list \<Rightarrow> bytes \<Rightarrow> bool" where
  "filter_for bits es fltr \<longleftrightarrow>
     (if bits = 0 \<or> es = [] then fltr = [] else BuildFilter (map se_key es) bits = Some fltr \<and> fltr \<noteq> [])"

lemma BuildFilter_not_Nil:
  "BuildFilter keys bits = Some fltr \<Longrightarrow> keys \<noteq> [] \<Longrightarrow> bits \<noteq> 0 \<Longrightarrow> fltr \<noteq> []"
  by (auto simp: BuildFilter_def Let_def split: if_splits)

lemma writing_flushed:
  assumes "writing wr blocks [] w"
  shows "well_formed_blocks blocks" "sink (sw_file wr) (data_bytes blocks) w"
    "sw_file_offset wr = of_nat (length (data_bytes blocks))"
    "sw_index_block wr = index.encs (index_of 0 blocks)"
    "sw_entries_written wr = of_nat (length (concat blocks))"
    "sw_keys_for_filter wr = (if 0 < wo_filter_bits_per_key (sw_options wr) then map se_key (concat blocks) else [])"
  using assms by (auto simp: writing_def well_formed_blocks_def all_entries_def)

text \<open>
  The outcome of writing the entries \<open>es\<close> to the file \<open>p\<close>: nothing else changes, a failure is an I/O
  error, and a success leaves the file of a well-formed table with exactly these entries.
\<close>

definition table_written :: "string \<Rightarrow> u64 \<Rightarrow> sst_entry list \<Rightarrow> world \<Rightarrow> status \<Rightarrow> world \<Rightarrow> bool" where
  "table_written p bits es w s w' \<longleftrightarrow>
     (\<exists>c. files w' = (files w)(p \<mapsto> c)) \<and> (\<not> ok s \<longrightarrow> IsIOError s) \<and>
     (ok s \<longrightarrow> (\<exists>blocks fltr. well_formed_blocks blocks \<and> concat blocks = es \<and> filter_for bits es fltr \<and>
        files w' = (files w)(p \<mapsto> table_bytes blocks fltr) \<and>
        length (table_bytes blocks fltr) \<le> max_file_size))"

lemma Finish_tail_table:
  assumes run: "Finish_tail fh wr w1 = (s, wr', w')"
    and sink: "sink (sw_file wr) (data_bytes bs @ filter_bytes fltr) w1"
    and st: "sw_file_offset wr = of_nat (length (data_bytes bs @ filter_bytes fltr))"
      "sw_index_block wr = index.encs (index_of 0 bs)" "sw_entries_written wr = of_nat (length (concat bs))"
      "fd_path (sw_file wr) = p" "\<exists>c. files w1 = (files w)(p \<mapsto> c)"
    and fh: "fh = \<lparr>bh_offset = of_nat (length (data_bytes bs)), bh_size = of_nat (length (filter_bytes fltr))\<rparr>"
    and wf: "well_formed_blocks bs" "filter_for bits (concat bs) fltr"
  shows "table_written p bits (concat bs) w s w'"
proof -
  note t = Finish_tail_effect [OF run sink st(1)]
  obtain c1 where c1: "files w1 = (files w)(p \<mapsto> c1)"
    using st(5) by blast
  have foot: "table_footer bs fltr = \<lparr>ft_stored_checksum = 0, ft_format_version = sst_kFormatVersion,
    ft_index_handle = \<lparr>bh_offset = of_nat (length (data_bytes bs @ filter_bytes fltr)),
      bh_size = of_nat (length (block_bytes (sw_index_block wr)))\<rparr>,
    ft_filter_handle = fh, ft_num_entries = sw_entries_written wr\<rparr>"
    using st(2,3) fh by (simp add: table_footer_def)
  have table: "table_bytes bs fltr = (data_bytes bs @ filter_bytes fltr) @
      block_bytes (sw_index_block wr) @ EncodeFooter (table_footer bs fltr) []"
    using st(2) by (simp add: table_bytes_def)
  obtain c2 where "files w' = (files w1)(p \<mapsto> c2)"
    using t(1) st(4) by auto
  then have one: "\<exists>c. files w' = (files w)(p \<mapsto> c)"
    using c1 by auto
  have three: "files w' = (files w)(p \<mapsto> table_bytes bs fltr) \<and>
      length (table_bytes bs fltr) \<le> max_file_size" if "ok s"
    using t(3) [OF that, folded foot] st(4) c1 unfolding table [symmetric] by simp
  show ?thesis
    unfolding table_written_def using one three t(2) wf by blast
qed

lemma SstWriter_Finish_filter:
  assumes f1: "FlushCurrentBlock wr w = (s1, wr1, w1)" and "ok s1" and "\<not> sw_finished wr"
    and keys: "sw_keys_for_filter wr1 \<noteq> []"
    and run: "SstWriter_Finish wr w = Some (s, wr', w')"
    and a2: "\<And>fltr. BuildFilter (sw_keys_for_filter wr1) (wo_filter_bits_per_key (sw_options wr1)) = Some fltr \<Longrightarrow>
      fltr \<noteq> []"
  obtains fltr s2 f2 w2 where
    "BuildFilter (sw_keys_for_filter wr1) (wo_filter_bits_per_key (sw_options wr1)) = Some fltr"
    "Append (sw_file wr1) (block_bytes fltr) w1 = (s2, f2, w2)"
    "if ok s2 then Finish_tail \<lparr>bh_offset = sw_file_offset wr1, bh_size = of_nat (length (block_bytes fltr))\<rparr>
        (wr1\<lparr>sw_file := f2, sw_file_offset := sw_file_offset wr1 + of_nat (length (block_bytes fltr))\<rparr>) w2 = (s, wr', w')
     else s = s2 \<and> w' = w2"
proof -
  obtain fltr where fltr: "BuildFilter (sw_keys_for_filter wr1) (wo_filter_bits_per_key (sw_options wr1)) = Some fltr"
    using run f1 assms(2,3) keys
    by (cases "BuildFilter (sw_keys_for_filter wr1) (wo_filter_bits_per_key (sw_options wr1))")
      (simp_all add: SstWriter_Finish_def)
  obtain s2 f2 w2 where app: "Append (sw_file wr1) (block_bytes fltr) w1 = (s2, f2, w2)"
    by (rule prod_cases3)
  show ?thesis
    using that [OF fltr app] run f1 assms(2,3) keys fltr a2 [OF fltr] app
    by (cases "ok s2")
      (simp_all add: SstWriter_Finish_def FinishBlock_bytes Let_def del: length_block_bytes)
qed

lemma SstWriter_Finish_effect:
  assumes "SstWriter_Finish wr w = Some (s, wr', w')" and "writing wr blocks cur w"
  shows "table_written (fd_path (sw_file wr)) (wo_filter_bits_per_key (sw_options wr))
    (all_entries blocks cur) w s w'"
proof -
  let ?p = "fd_path (sw_file wr)"
  define bits where "bits = wo_filter_bits_per_key (sw_options wr)"
  obtain s1 wr1 w1 where f1: "FlushCurrentBlock wr w = (s1, wr1, w1)"
    by (rule prod_cases3)
  note e1 = FlushCurrentBlock_effect [OF f1 assms(2)]
  have fin: "\<not> sw_finished wr"
    using assms(2) by (simp add: writing_def)
  show ?thesis
  proof (cases "ok s1")
    case False
    with assms(1) f1 fin have "s = s1" "w' = w1"
      by (simp_all add: SstWriter_Finish_def)
    with e1(1,4) False show ?thesis
      by (simp add: table_written_def)
  next
    case True
    define bs where "bs = (if cur = [] then blocks else blocks @ [cur])"
    have bs: "concat bs = all_entries blocks cur"
      by (simp add: bs_def all_entries_def)
    have "writing wr1 bs [] w1"
      using e1(5) [OF True] by (simp add: bs_def)
    note st = writing_flushed [OF this]
    have keys: "sw_keys_for_filter wr1 = (if 0 < bits then map se_key (concat bs) else [])"
      using st(6) e1(3) by (simp add: bits_def)
    show ?thesis
    proof (cases "sw_keys_for_filter wr1 = []")
      case empty: True
      have "Finish_tail \<lparr>bh_offset = sw_file_offset wr1, bh_size = 0\<rparr> wr1 w1 = (s, wr', w')"
        using assms(1) f1 fin True empty by (simp add: SstWriter_Finish_def)
      moreover have "filter_for bits (concat bs) []"
        using empty keys by (auto simp: filter_for_def word_greater_zero_iff split: if_splits)
      ultimately show ?thesis
        using st(1-5) e1(1,2) unfolding bs [symmetric] bits_def [symmetric]
        by (intro Finish_tail_table [where wr = wr1 and ?w1.0 = w1 and fltr = "[]"])
          (simp_all add: filter_bytes_def)
    next
      case False
      with keys have bits: "bits \<noteq> 0" "map se_key (concat bs) \<noteq> []" "sw_keys_for_filter wr1 = map se_key (concat bs)"
        by (auto split: if_splits)
      have opt: "wo_filter_bits_per_key (sw_options wr1) = bits"
        using e1(3) by (simp add: bits_def)
      obtain fltr s2 f2 w2 where fltr: "BuildFilter (map se_key (concat bs)) bits = Some fltr"
        and a2: "Append (sw_file wr1) (block_bytes fltr) w1 = (s2, f2, w2)"
        and run: "if ok s2 then Finish_tail \<lparr>bh_offset = sw_file_offset wr1, bh_size = of_nat (length (block_bytes fltr))\<rparr>
            (wr1\<lparr>sw_file := f2, sw_file_offset := sw_file_offset wr1 + of_nat (length (block_bytes fltr))\<rparr>) w2 = (s, wr', w')
          else s = s2 \<and> w' = w2"
        using SstWriter_Finish_filter [OF f1 True fin False assms(1)] BuildFilter_not_Nil [OF _ bits(2,1)]
        unfolding opt bits(3) by metis
      have ne: "fltr \<noteq> []"
        by (rule BuildFilter_not_Nil [OF fltr bits(2,1)])
      then have fb: "filter_bytes fltr = block_bytes fltr"
        by (simp add: filter_bytes_def)
      note e2 = append_step [OF a2 st(2)]
      have c2: "\<exists>c. files w2 = (files w)(?p \<mapsto> c)"
        using e2(1) e1(1,2) by auto
      have filt: "filter_for bits (concat bs) fltr"
        using fltr ne bits(1,2) by (auto simp: filter_for_def)
      show ?thesis
      proof (cases "ok s2")
        case no: False
        with run e2(3) c2 show ?thesis by (simp add: table_written_def)
      next
        case yes: True
        with run show ?thesis
          using st(1-5) e2(2,4) e1(2) c2 filt unfolding bs [symmetric] bits_def [symmetric]
          by (intro Finish_tail_table [where fltr = fltr and ?w1.0 = w2 and wr =
                "wr1\<lparr>sw_file := f2, sw_file_offset := sw_file_offset wr1 + of_nat (length (block_bytes fltr))\<rparr>"])
            (simp_all add: fb del: length_block_bytes)
      qed
    qed
  qed
qed

end
