(* ===== verification/Pebble_Block_Cache.thy ===== *)
theory Pebble_Block_Cache
  imports Pebble_Prelude
begin

text \<open>
  The cache of data blocks shared by the open tables (cache/block_cache.hpp, cache/block_cache.cpp):
  a list of nodes, most recently used first, and an index from keys to nodes.  A \<open>std::list\<close> iterator is
  the identity of a node, which moving the node keeps.  The class takes its own lock in every method,
  so a method is one step.

  Shown here: the index and the list agree after every operation, the byte count is exact and within
  the capacity whenever a method returns, a hit returns what was last inserted under the key, and
  eviction takes the least recently used nodes and no more than it must.
\<close>

type_synonym cache_key = "u64 \<times> u64"

record cache_node =
  cn_id :: nat
  cn_key :: cache_key
  cn_block :: bytes

record block_cache =
  bc_capacity_bytes :: u64
  bc_current_bytes :: u64
  bc_lru :: "cache_node list"
  bc_index :: "cache_key \<rightharpoonup> nat"
  bc_fresh :: nat
  bc_hits :: u64
  bc_misses :: u64
  bc_inserts :: u64
  bc_evictions :: u64

definition new_block_cache :: "u64 \<Rightarrow> block_cache" where
  "new_block_cache capacity_bytes =
     \<lparr>bc_capacity_bytes = capacity_bytes, bc_current_bytes = 0, bc_lru = [], bc_index = Map.empty,
      bc_fresh = 0, bc_hits = 0, bc_misses = 0, bc_inserts = 0, bc_evictions = 0\<rparr>"

text \<open>Dereferencing an iterator, unlinking its node, and \<open>splice\<close> to the front.\<close>

definition node_at :: "nat \<Rightarrow> cache_node list \<Rightarrow> cache_node option" where
  "node_at i lru = List.find (\<lambda>n. cn_id n = i) lru"

definition unlink :: "nat \<Rightarrow> cache_node list \<Rightarrow> cache_node list" where
  "unlink i lru = filter (\<lambda>n. cn_id n \<noteq> i) lru"

definition Cache_Lookup :: "u64 \<Rightarrow> u64 \<Rightarrow> block_cache \<Rightarrow> bytes option \<times> block_cache" where
  "Cache_Lookup file_id block_offset c =
     (case bc_index c (file_id, block_offset) of
        None \<Rightarrow> (None, c\<lparr>bc_misses := bc_misses c + 1\<rparr>)
      | Some it \<Rightarrow>
          (case node_at it (bc_lru c) of
             None \<Rightarrow> (None, c)
           | Some node \<Rightarrow>
               (Some (cn_block node),
                c\<lparr>bc_lru := node # unlink it (bc_lru c), bc_hits := bc_hits c + 1\<rparr>)))"

function EvictToCapacity :: "block_cache \<Rightarrow> block_cache" where
  "EvictToCapacity c =
     (if bc_capacity_bytes c < bc_current_bytes c \<and> bc_lru c \<noteq> []
      then
        let node = last (bc_lru c)
        in EvictToCapacity
             (c\<lparr>bc_current_bytes := bc_current_bytes c - of_nat (length (cn_block node)),
                bc_index := (bc_index c)(cn_key node := None),
                bc_lru := butlast (bc_lru c),
                bc_evictions := bc_evictions c + 1\<rparr>)
      else c)"
  by pat_completeness auto
termination
  by (relation "measure (\<lambda>c. length (bc_lru c))") auto

declare EvictToCapacity.simps [simp del]

definition Cache_Insert :: "u64 \<Rightarrow> u64 \<Rightarrow> bytes \<Rightarrow> block_cache \<Rightarrow> block_cache" where
  "Cache_Insert file_id block_offset block c =
     (let key = (file_id, block_offset);
          c = (case Option.bind (bc_index c key) (\<lambda>it. node_at it (bc_lru c)) of
                 Some node \<Rightarrow>
                   c\<lparr>bc_current_bytes := bc_current_bytes c - of_nat (length (cn_block node)) +
                        of_nat (length block),
                     bc_lru := node\<lparr>cn_block := block\<rparr> # unlink (cn_id node) (bc_lru c)\<rparr>
               | None \<Rightarrow>
                   c\<lparr>bc_lru := \<lparr>cn_id = bc_fresh c, cn_key = key, cn_block = block\<rparr> # bc_lru c,
                     bc_current_bytes := bc_current_bytes c + of_nat (length block),
                     bc_index := (bc_index c)(key \<mapsto> bc_fresh c),
                     bc_fresh := bc_fresh c + 1\<rparr>)
      in EvictToCapacity (c\<lparr>bc_inserts := bc_inserts c + 1\<rparr>))"

definition Cache_Erase :: "u64 \<Rightarrow> block_cache \<Rightarrow> block_cache" where
  "Cache_Erase file_id c =
     fold (\<lambda>node c.
             if fst (cn_key node) = file_id
             then c\<lparr>bc_current_bytes := bc_current_bytes c - of_nat (length (cn_block node)),
                    bc_index := (bc_index c)(cn_key node := None),
                    bc_lru := unlink (cn_id node) (bc_lru c)\<rparr>
             else c)
       (bc_lru c) c"

subsection \<open>The invariant\<close>

definition lru_bytes :: "cache_node list \<Rightarrow> nat" where
  "lru_bytes lru = sum_list (map (length \<circ> cn_block) lru)"

definition lru_index :: "cache_node list \<Rightarrow> cache_key \<rightharpoonup> nat" where
  "lru_index lru = map_of (map (\<lambda>n. (cn_key n, cn_id n)) lru)"

text \<open>\<open>linked\<close> holds between steps of a method, \<open>cache_inv\<close> whenever one returns.\<close>

definition linked :: "block_cache \<Rightarrow> bool" where
  "linked c \<longleftrightarrow> distinct (map cn_id (bc_lru c)) \<and> distinct (map cn_key (bc_lru c)) \<and>
     bc_index c = lru_index (bc_lru c) \<and> (\<forall>n\<in>set (bc_lru c). cn_id n < bc_fresh c) \<and>
     unat (bc_current_bytes c) = lru_bytes (bc_lru c)"

definition cache_inv :: "block_cache \<Rightarrow> bool" where
  "cache_inv c \<longleftrightarrow> linked c \<and> bc_current_bytes c \<le> bc_capacity_bytes c"

definition cache_view :: "block_cache \<Rightarrow> cache_key \<rightharpoonup> bytes" where
  "cache_view c = map_of (map (\<lambda>n. (cn_key n, cn_block n)) (bc_lru c))"

lemma new_block_cache_inv [simp]: "cache_inv (new_block_cache n)" "cache_view (new_block_cache n) = Map.empty"
  by (simp_all add: cache_inv_def linked_def new_block_cache_def lru_bytes_def lru_index_def cache_view_def)

lemma lru_bytes_simps [simp]:
  "lru_bytes [] = 0"
  "lru_bytes (n # ns) = length (cn_block n) + lru_bytes ns"
  "lru_bytes (ns @ ms) = lru_bytes ns + lru_bytes ms"
  by (simp_all add: lru_bytes_def)

lemma lru_index_split:
  assumes "distinct (map cn_key (xs @ n # ys))"
  shows "lru_index (xs @ n # ys) (cn_key n) = Some (cn_id n)"
    and "k \<noteq> cn_key n \<Longrightarrow> lru_index (xs @ n # ys) k = lru_index (xs @ ys) k"
    and "lru_index (xs @ ys) (cn_key n) = None"
proof -
  have absent: "lru_index zs k = None \<longleftrightarrow> k \<notin> cn_key ` set zs" for zs k
    by (auto simp: lru_index_def map_of_eq_None_iff image_iff)
  have app: "lru_index (zs @ zs') = lru_index zs' ++ lru_index zs" for zs zs'
    by (simp add: lru_index_def)
  have cons: "lru_index (n # zs) = (lru_index zs)(cn_key n \<mapsto> cn_id n)" for zs
    by (simp add: lru_index_def)
  have fresh: "lru_index xs (cn_key n) = None" "lru_index ys (cn_key n) = None"
    using assms by (auto simp: absent)
  show "lru_index (xs @ n # ys) (cn_key n) = Some (cn_id n)"
    by (simp add: app cons map_add_def fresh)
  show "k \<noteq> cn_key n \<Longrightarrow> lru_index (xs @ n # ys) k = lru_index (xs @ ys) k"
    by (simp add: app cons map_add_def split: option.split)
  show "lru_index (xs @ ys) (cn_key n) = None"
    by (simp add: app map_add_def fresh)
qed

lemma node_at_split:
  assumes "distinct (map cn_id (xs @ n # ys))"
  shows "node_at (cn_id n) (xs @ n # ys) = Some n" "unlink (cn_id n) (xs @ n # ys) = xs @ ys"
proof -
  have "find (\<lambda>m. cn_id m = cn_id n) (zs @ n # ys) = Some n" if "cn_id n \<notin> cn_id ` set zs" for zs
    using that by (induction zs) auto
  then show "node_at (cn_id n) (xs @ n # ys) = Some n"
    using assms by (simp add: node_at_def)
  have same: "filter (\<lambda>m. cn_id m \<noteq> cn_id n) zs = zs" if "cn_id n \<notin> cn_id ` set zs" for zs
    using that by (intro filter_True) (auto simp: image_iff)
  show "unlink (cn_id n) (xs @ n # ys) = xs @ ys"
    using assms same [of xs] same [of ys] by (simp add: unlink_def)
qed

lemma linked_lookup:
  assumes "linked c" and "bc_index c key = Some it"
  obtains xs n ys where "bc_lru c = xs @ n # ys" "cn_key n = key" "cn_id n = it"
    "node_at it (bc_lru c) = Some n" "unlink it (bc_lru c) = xs @ ys" "cache_view c key = Some (cn_block n)"
proof -
  have index: "bc_index c = map_of (map (\<lambda>n. (cn_key n, cn_id n)) (bc_lru c))"
    using assms(1) by (simp add: linked_def lru_index_def)
  then obtain n where n: "n \<in> set (bc_lru c)" "cn_key n = key" "cn_id n = it"
    using assms(2) by (auto dest!: map_of_SomeD)
  then obtain xs ys where split: "bc_lru c = xs @ n # ys"
    by (meson split_list)
  have "cache_view c key = Some (cn_block n)"
    using assms(1) n(2) unfolding cache_view_def linked_def split
    by (auto simp: map_add_def map_of_eq_None_iff image_iff split: option.splits dest!: map_of_SomeD)
  then show ?thesis
    using that [OF split n(2,3)] node_at_split [of xs n ys] assms(1) n(3) split
    by (simp add: linked_def)
qed

lemma index_miss: "linked c \<Longrightarrow> bc_index c key = None \<Longrightarrow> cache_view c key = None"
  by (auto simp: linked_def lru_index_def cache_view_def map_of_eq_None_iff image_iff)

text \<open>Moving a node to the front, with new bytes for it.\<close>

lemma linked_promote:
  assumes "linked c" and "bc_lru c = xs @ n # ys" and "cn_key m = cn_key n" and "cn_id m = cn_id n"
    and "unat cur = lru_bytes (m # xs @ ys)"
  shows "linked (c\<lparr>bc_current_bytes := cur, bc_lru := m # xs @ ys\<rparr>)"
proof -
  have "lru_index (m # xs @ ys) = lru_index (xs @ n # ys)"
  proof
    fix k
    show "lru_index (m # xs @ ys) k = lru_index (xs @ n # ys) k"
      using assms(1-4) lru_index_split [of xs n ys]
      by (cases "k = cn_key n") (auto simp: linked_def lru_index_def)
  qed
  with assms show ?thesis
    by (auto simp: linked_def)
qed

lemma cache_view_promote:
  assumes "linked c" and "bc_lru c = xs @ n # ys" and "cn_key m = cn_key n"
  shows "cache_view (c\<lparr>bc_current_bytes := cur, bc_lru := m # xs @ ys\<rparr>) =
    (cache_view c)(cn_key n \<mapsto> cn_block m)"
proof
  fix k
  have "cn_key n \<notin> cn_key ` set (xs @ ys)"
    using assms(1,2) by (auto simp: linked_def)
  then show "cache_view (c\<lparr>bc_current_bytes := cur, bc_lru := m # xs @ ys\<rparr>) k =
      ((cache_view c)(cn_key n \<mapsto> cn_block m)) k"
    using assms(2,3) by (auto simp: cache_view_def map_add_def split: option.splits)
qed

lemma Cache_Lookup_hit:
  assumes "cache_inv c" and "Cache_Lookup f off c = (Some block, c')"
  shows "cache_view c (f, off) = Some block" and "cache_inv c'" and "cache_view c' = cache_view c"
    and "cn_key (hd (bc_lru c')) = (f, off)"
proof -
  from assms(2) obtain it where it: "bc_index c (f, off) = Some it"
    by (auto simp: Cache_Lookup_def split: option.splits)
  have linked: "linked c"
    using assms(1) by (simp add: cache_inv_def)
  obtain xs n ys where n: "bc_lru c = xs @ n # ys" "cn_key n = (f, off)" "cn_id n = it"
    "node_at it (bc_lru c) = Some n" "unlink it (bc_lru c) = xs @ ys" "cache_view c (f, off) = Some (cn_block n)"
    by (rule linked_lookup [OF linked it])
  have c': "block = cn_block n" "c' = c\<lparr>bc_lru := n # xs @ ys, bc_hits := bc_hits c + 1\<rparr>"
    using assms(2) it n(4,5) by (auto simp: Cache_Lookup_def)
  show "cache_view c (f, off) = Some block"
    using n(6) c'(1) by simp
  have "unat (bc_current_bytes c) = lru_bytes (n # xs @ ys)"
    using linked n(1) by (simp add: linked_def)
  from linked_promote [OF linked n(1) refl refl this] show "cache_inv c'"
    using assms(1) by (simp add: c'(2) cache_inv_def linked_def)
  show "cache_view c' = cache_view c"
    using cache_view_promote [OF linked n(1) refl, of "bc_current_bytes c"] n(2,6)
    by (simp add: c'(2) cache_view_def fun_upd_idem)
  show "cn_key (hd (bc_lru c')) = (f, off)"
    by (simp add: c'(2) n(2))
qed

lemma Cache_Lookup_miss:
  assumes "cache_inv c" and "Cache_Lookup f off c = (None, c')"
  shows "cache_view c (f, off) = None" and "cache_inv c'" and "cache_view c' = cache_view c"
proof -
  have linked: "linked c"
    using assms(1) by (simp add: cache_inv_def)
  have none: "bc_index c (f, off) = None"
  proof (rule ccontr)
    assume "bc_index c (f, off) \<noteq> None"
    then obtain it where it: "bc_index c (f, off) = Some it" by blast
    obtain n where "node_at it (bc_lru c) = Some n"
      by (rule linked_lookup [OF linked it])
    with it assms(2) show False
      by (simp add: Cache_Lookup_def)
  qed
  then have c': "c' = c\<lparr>bc_misses := bc_misses c + 1\<rparr>"
    using assms(2) by (simp add: Cache_Lookup_def)
  show "cache_view c (f, off) = None"
    using linked none by (rule index_miss)
  show "cache_inv c'" "cache_view c' = cache_view c"
    using assms(1) by (simp_all add: c' cache_inv_def linked_def cache_view_def)
qed

subsection \<open>Eviction\<close>

text \<open>
  Dropping the least recently used node keeps the index and the list in step; eviction stops as soon
  as the bytes fit, so what stays is the longest prefix of the list within the capacity.
\<close>

lemma unat_less_64: "unat x < 2 ^ 64"
  for x :: u64
  by (rule order_less_le_trans [OF unsigned_less]) simp

lemma linked_drop_last:
  assumes "linked c" and "bc_lru c \<noteq> []"
  shows "linked (c\<lparr>bc_current_bytes := bc_current_bytes c - of_nat (length (cn_block (last (bc_lru c)))),
    bc_index := (bc_index c)(cn_key (last (bc_lru c)) := None),
    bc_lru := butlast (bc_lru c), bc_evictions := e\<rparr>)"
proof -
  define xs n where "xs = butlast (bc_lru c)" and "n = last (bc_lru c)"
  have lru: "bc_lru c = xs @ [n]"
    using assms(2) by (simp add: xs_def n_def)
  have bytes: "unat (bc_current_bytes c) = lru_bytes xs + length (cn_block n)"
    using assms(1) by (simp add: linked_def lru)
  then have "length (cn_block n) < 2 ^ 64"
    using unat_less_64 [of "bc_current_bytes c"] by simp
  then have size: "unat (of_nat (length (cn_block n)) :: u64) = length (cn_block n)"
    by (simp add: unat_of_nat)
  then have "of_nat (length (cn_block n)) \<le> bc_current_bytes c"
    using bytes by (simp add: word_le_nat_alt)
  then have cur: "unat (bc_current_bytes c - of_nat (length (cn_block n))) = lru_bytes xs"
    using bytes size by (simp add: unat_sub)
  have dist: "distinct (map cn_key (xs @ n # []))"
    using assms(1) by (simp add: linked_def lru)
  have index: "(lru_index (xs @ [n]))(cn_key n := None) = lru_index xs"
  proof
    fix k
    show "((lru_index (xs @ [n]))(cn_key n := None)) k = lru_index xs k"
      using lru_index_split [OF dist] by (cases "k = cn_key n") simp_all
  qed
  show ?thesis
    using assms(1) cur index by (simp add: linked_def lru)
qed

lemma EvictToCapacity_effect:
  assumes "linked c"
  shows "linked (EvictToCapacity c) \<and>
    bc_capacity_bytes (EvictToCapacity c) = bc_capacity_bytes c \<and>
    bc_current_bytes (EvictToCapacity c) \<le> bc_capacity_bytes c \<and>
    (\<exists>dropped. bc_lru c = bc_lru (EvictToCapacity c) @ dropped \<and>
      (dropped \<noteq> [] \<longrightarrow>
        unat (bc_capacity_bytes c) < lru_bytes (bc_lru (EvictToCapacity c) @ [hd dropped])))"
  using assms
proof (induction c rule: EvictToCapacity.induct)
  case (1 c)
  show ?case
  proof (cases "bc_capacity_bytes c < bc_current_bytes c \<and> bc_lru c \<noteq> []")
    case False
    then have same: "EvictToCapacity c = c"
      by (subst EvictToCapacity.simps) (rule if_not_P [OF False])
    have "bc_current_bytes c \<le> bc_capacity_bytes c"
    proof (cases "bc_lru c = []")
      case True
      with "1.prems" have "unat (bc_current_bytes c) = 0"
        by (simp add: linked_def)
      then show ?thesis by (simp add: word_le_nat_alt)
    next
      case nonempty: False
      with False show ?thesis by simp
    qed
    with "1.prems" same show ?thesis by simp
  next
    case True
    define d where "d = c\<lparr>bc_current_bytes := bc_current_bytes c - of_nat (length (cn_block (last (bc_lru c)))),
      bc_index := (bc_index c)(cn_key (last (bc_lru c)) := None),
      bc_lru := butlast (bc_lru c), bc_evictions := bc_evictions c + 1\<rparr>"
    have step: "EvictToCapacity c = EvictToCapacity d"
      using True by (simp add: EvictToCapacity.simps [of c] d_def Let_def)
    have linked_d: "linked d"
      unfolding d_def using "1.prems" True by (intro linked_drop_last) simp_all
    have lru: "bc_lru c = bc_lru d @ [last (bc_lru c)]" and cap: "bc_capacity_bytes d = bc_capacity_bytes c"
      using True by (simp_all add: d_def)
    have ih: "linked (EvictToCapacity d) \<and>
      bc_capacity_bytes (EvictToCapacity d) = bc_capacity_bytes d \<and>
      bc_current_bytes (EvictToCapacity d) \<le> bc_capacity_bytes d \<and>
      (\<exists>dropped. bc_lru d = bc_lru (EvictToCapacity d) @ dropped \<and>
        (dropped \<noteq> [] \<longrightarrow>
          unat (bc_capacity_bytes d) < lru_bytes (bc_lru (EvictToCapacity d) @ [hd dropped])))"
      using "1.IH" [OF True refl] linked_d unfolding d_def by blast
    then obtain dropped where dropped: "bc_lru d = bc_lru (EvictToCapacity d) @ dropped"
      "dropped \<noteq> [] \<longrightarrow> unat (bc_capacity_bytes d) < lru_bytes (bc_lru (EvictToCapacity d) @ [hd dropped])"
      by blast
    have "unat (bc_capacity_bytes c) < lru_bytes (bc_lru c)"
      using True "1.prems" by (simp add: linked_def word_less_nat_alt)
    with dropped lru have "unat (bc_capacity_bytes c) <
        lru_bytes (bc_lru (EvictToCapacity d) @ [hd (dropped @ [last (bc_lru c)])])"
      using cap by (cases dropped) auto
    moreover have "bc_lru c = bc_lru (EvictToCapacity d) @ (dropped @ [last (bc_lru c)])"
      using lru dropped(1) by simp
    ultimately show ?thesis
      unfolding step using ih cap by (metis append_is_Nil_conv not_Cons_self2)
  qed
qed

lemma cache_view_prefix:
  assumes "distinct (map cn_key (xs @ ys))" and "map_of (map (\<lambda>n. (cn_key n, cn_block n)) xs) k = Some b"
  shows "map_of (map (\<lambda>n. (cn_key n, cn_block n)) (xs @ ys)) k = Some b"
  using assms by (simp add: map_add_Some_iff)

subsection \<open>Inserting\<close>

text \<open>
  After an insertion every binding of the cache is the new one or an old one; the new block is the
  most recently used if it fits at all.  The sizes involved must not wrap: that they stay below 2 ^ 64
  is the only condition.
\<close>

lemma unat_add_small: "unat x + n < 2 ^ 64 \<Longrightarrow> unat (x + of_nat n) = unat x + n"
  for x :: u64
  by (simp add: unat_word_ariths unat_of_nat)

lemma unat_diff_small: "n \<le> unat x \<Longrightarrow> unat (x - of_nat n) = unat x - n"
  for x :: u64
proof -
  assume n: "n \<le> unat x"
  then have small: "unat (of_nat n :: u64) = n"
    using unat_less_64 [of x] by (simp add: unat_of_nat)
  with n have "of_nat n \<le> x"
    by (simp add: word_le_nat_alt)
  with small show "unat (x - of_nat n) = unat x - n"
    by (simp add: unat_sub)
qed

lemma Cache_Insert_front:
  assumes "cache_inv c" and "unat (bc_capacity_bytes c) + length block < 2 ^ 64"
  obtains c1 where "Cache_Insert f off block c = EvictToCapacity c1" "linked c1"
    "bc_capacity_bytes c1 = bc_capacity_bytes c"
    "cache_view c1 = (cache_view c)((f, off) \<mapsto> block)"
    "bc_lru c1 \<noteq> []" "cn_key (hd (bc_lru c1)) = (f, off)" "cn_block (hd (bc_lru c1)) = block"
proof -
  have linked: "linked c" and cur: "unat (bc_current_bytes c) \<le> unat (bc_capacity_bytes c)"
    using assms(1) by (simp_all add: cache_inv_def word_le_nat_alt)
  have bytes: "unat (bc_current_bytes c) = lru_bytes (bc_lru c)"
    using linked by (simp add: linked_def)
  show ?thesis
  proof (cases "bc_index c (f, off)")
    case None
    define c1 where "c1 = c\<lparr>bc_lru := \<lparr>cn_id = bc_fresh c, cn_key = (f, off), cn_block = block\<rparr> # bc_lru c,
      bc_current_bytes := bc_current_bytes c + of_nat (length block),
      bc_index := (bc_index c)((f, off) \<mapsto> bc_fresh c), bc_fresh := bc_fresh c + 1,
      bc_inserts := bc_inserts c + 1\<rparr>"
    have "unat (bc_current_bytes c + of_nat (length block)) = lru_bytes (bc_lru c) + length block"
      using unat_add_small [of "bc_current_bytes c" "length block"] cur assms(2) bytes by simp
    moreover have "(f, off) \<notin> cn_key ` set (bc_lru c)"
      using None linked by (auto simp: linked_def lru_index_def map_of_eq_None_iff image_iff)
    moreover have "bc_fresh c \<notin> cn_id ` set (bc_lru c)"
      using linked by (auto simp: linked_def)
    ultimately have "linked c1"
      using linked by (auto simp: c1_def linked_def lru_index_def)
    moreover have "Cache_Insert f off block c = EvictToCapacity c1"
      by (simp add: Cache_Insert_def None c1_def Let_def)
    ultimately show ?thesis
      using that [of c1] by (simp add: c1_def cache_view_def)
  next
    case (Some it)
    obtain xs n ys where n: "bc_lru c = xs @ n # ys" "cn_key n = (f, off)" "cn_id n = it"
      "node_at it (bc_lru c) = Some n" "unlink it (bc_lru c) = xs @ ys" "cache_view c (f, off) = Some (cn_block n)"
      by (rule linked_lookup [OF linked Some])
    define m where "m = n\<lparr>cn_block := block\<rparr>"
    define cur1 where "cur1 = bc_current_bytes c - of_nat (length (cn_block n)) + of_nat (length block)"
    define c1 where "c1 = c\<lparr>bc_current_bytes := cur1, bc_lru := m # xs @ ys\<rparr>"
    have "unat (bc_current_bytes c - of_nat (length (cn_block n))) = lru_bytes (xs @ ys)"
      using unat_diff_small [of "length (cn_block n)" "bc_current_bytes c"] bytes n(1) by simp
    then have "unat cur1 = lru_bytes (m # xs @ ys)"
      using unat_add_small [of "bc_current_bytes c - of_nat (length (cn_block n))" "length block"]
        cur assms(2) bytes n(1) by (simp add: cur1_def m_def)
    then have linked1: "linked c1"
      unfolding c1_def using linked n(1) by (intro linked_promote) (simp_all add: m_def)
    have view1: "cache_view c1 = (cache_view c)((f, off) \<mapsto> block)"
      unfolding c1_def using cache_view_promote [OF linked n(1), of m cur1] n(2) by (simp add: m_def)
    have "Cache_Insert f off block c = EvictToCapacity (c1\<lparr>bc_inserts := bc_inserts c1 + 1\<rparr>)"
      using n(3-5) by (simp add: Cache_Insert_def Some c1_def m_def cur1_def Let_def)
    with linked1 view1 show ?thesis
      using that [of "c1\<lparr>bc_inserts := bc_inserts c1 + 1\<rparr>"] n(2)
      by (simp add: c1_def m_def linked_def cache_view_def)
  qed
qed

theorem Cache_Insert_effect:
  assumes "cache_inv c" and "unat (bc_capacity_bytes c) + length block < 2 ^ 64"
  shows "cache_inv (Cache_Insert f off block c)"
    and "bc_capacity_bytes (Cache_Insert f off block c) = bc_capacity_bytes c"
    and "cache_view (Cache_Insert f off block c) \<subseteq>\<^sub>m (cache_view c)((f, off) \<mapsto> block)"
    and "length block \<le> unat (bc_capacity_bytes c) \<Longrightarrow>
      cache_view (Cache_Insert f off block c) (f, off) = Some block"
proof -
  obtain c1 where c1: "Cache_Insert f off block c = EvictToCapacity c1" "linked c1"
    "bc_capacity_bytes c1 = bc_capacity_bytes c"
    "cache_view c1 = (cache_view c)((f, off) \<mapsto> block)"
    "bc_lru c1 \<noteq> []" "cn_key (hd (bc_lru c1)) = (f, off)" "cn_block (hd (bc_lru c1)) = block"
    by (rule Cache_Insert_front [OF assms])
  from EvictToCapacity_effect [OF c1(2)] obtain dropped
    where e: "linked (EvictToCapacity c1)" "bc_capacity_bytes (EvictToCapacity c1) = bc_capacity_bytes c1"
      "bc_current_bytes (EvictToCapacity c1) \<le> bc_capacity_bytes c1"
      and lru: "bc_lru c1 = bc_lru (EvictToCapacity c1) @ dropped"
      and more: "dropped \<noteq> [] \<longrightarrow>
        unat (bc_capacity_bytes c1) < lru_bytes (bc_lru (EvictToCapacity c1) @ [hd dropped])"
    by blast
  show "cache_inv (Cache_Insert f off block c)"
    using e by (simp add: c1(1) cache_inv_def)
  show "bc_capacity_bytes (Cache_Insert f off block c) = bc_capacity_bytes c"
    using e c1(1,3) by simp
  have dist: "distinct (map cn_key (bc_lru (EvictToCapacity c1) @ dropped))"
    using c1(2) lru by (simp add: linked_def)
  show "cache_view (Cache_Insert f off block c) \<subseteq>\<^sub>m (cache_view c)((f, off) \<mapsto> block)"
    unfolding map_le_def
  proof
    fix k
    assume "k \<in> dom (cache_view (Cache_Insert f off block c))"
    then obtain b where b: "cache_view (Cache_Insert f off block c) k = Some b"
      by blast
    then have "map_of (map (\<lambda>n. (cn_key n, cn_block n)) (bc_lru (EvictToCapacity c1))) k = Some b"
      by (simp add: cache_view_def c1(1))
    from cache_view_prefix [OF dist this] have "cache_view c1 k = Some b"
      by (simp only: cache_view_def lru)
    with b show "cache_view (Cache_Insert f off block c) k = ((cache_view c)((f, off) \<mapsto> block)) k"
      by (simp only: c1(4))
  qed
  assume fits: "length block \<le> unat (bc_capacity_bytes c)"
  have "bc_lru (EvictToCapacity c1) \<noteq> []"
  proof
    assume empty: "bc_lru (EvictToCapacity c1) = []"
    with lru c1(5) have "dropped = bc_lru c1" "dropped \<noteq> []"
      by simp_all
    with more empty c1(3,7) fits show False
      by simp
  qed
  then obtain n ns where front: "bc_lru (EvictToCapacity c1) = n # ns"
    by (cases "bc_lru (EvictToCapacity c1)") auto
  with lru c1(6,7) have "cn_key n = (f, off)" "cn_block n = block"
    by simp_all
  with front show "cache_view (Cache_Insert f off block c) (f, off) = Some block"
    by (simp add: c1(1) cache_view_def)
qed

subsection \<open>Erasing a file\<close>

lemma linked_remove:
  assumes "linked c" and "bc_lru c = xs @ n # ys"
  shows "linked (c\<lparr>bc_current_bytes := bc_current_bytes c - of_nat (length (cn_block n)),
    bc_index := (bc_index c)(cn_key n := None), bc_lru := xs @ ys\<rparr>)"
proof -
  have "unat (bc_current_bytes c - of_nat (length (cn_block n))) = lru_bytes (xs @ ys)"
    using assms unat_diff_small [of "length (cn_block n)" "bc_current_bytes c"]
    by (simp add: linked_def)
  moreover have "(lru_index (xs @ n # ys))(cn_key n := None) = lru_index (xs @ ys)"
  proof
    fix k
    show "((lru_index (xs @ n # ys))(cn_key n := None)) k = lru_index (xs @ ys) k"
      using lru_index_split [of xs n ys] assms by (cases "k = cn_key n") (auto simp: linked_def)
  qed
  ultimately show ?thesis
    using assms by (auto simp: linked_def)
qed

lemma erase_scan:
  fixes f :: u64
  defines "step \<equiv> \<lambda>node c.
    if fst (cn_key node) = f
    then c\<lparr>bc_current_bytes := bc_current_bytes c - of_nat (length (cn_block node)),
           bc_index := (bc_index c)(cn_key node := None),
           bc_lru := unlink (cn_id node) (bc_lru c)\<rparr>
    else c"
  assumes "linked c" and "bc_lru c = keep @ ns"
  shows "linked (fold step ns c) \<and> bc_capacity_bytes (fold step ns c) = bc_capacity_bytes c \<and>
    bc_lru (fold step ns c) = keep @ filter (\<lambda>n. fst (cn_key n) \<noteq> f) ns"
  using assms(2,3)
proof (induction ns arbitrary: keep c)
  case Nil
  then show ?case by simp
next
  case (Cons n ns)
  show ?case
  proof (cases "fst (cn_key n) = f")
    case False
    then have "step n c = c" by (simp add: step_def)
    with Cons.IH [of c "keep @ [n]"] Cons.prems False show ?thesis by simp
  next
    case True
    have "unlink (cn_id n) (bc_lru c) = keep @ ns"
      using node_at_split(2) [of keep n ns] Cons.prems by (simp add: linked_def)
    then have step: "step n c = c\<lparr>bc_current_bytes := bc_current_bytes c - of_nat (length (cn_block n)),
        bc_index := (bc_index c)(cn_key n := None), bc_lru := keep @ ns\<rparr>"
      using True by (simp add: step_def)
    with linked_remove [OF Cons.prems] have "linked (step n c)"
      by simp
    from Cons.IH [OF this, of keep] True step show ?thesis by simp
  qed
qed

theorem Cache_Erase_effect:
  assumes "cache_inv c"
  shows "cache_inv (Cache_Erase f c)"
    and "cache_view (Cache_Erase f c) = (\<lambda>k. if fst k = f then None else cache_view c k)"
proof -
  have linked: "linked c" using assms by (simp add: cache_inv_def)
  note scan = erase_scan [OF linked, of "[]" "bc_lru c" f, simplified, folded Cache_Erase_def]
  have lru: "bc_lru (Cache_Erase f c) = filter (\<lambda>n. fst (cn_key n) \<noteq> f) (bc_lru c)"
    using scan by simp
  have "lru_bytes (filter P ns) \<le> lru_bytes ns" for P and ns :: "cache_node list"
    by (induction ns) auto
  then have "unat (bc_current_bytes (Cache_Erase f c)) \<le> unat (bc_current_bytes c)"
    using scan linked lru by (simp add: linked_def)
  with scan assms show "cache_inv (Cache_Erase f c)"
    by (simp add: cache_inv_def word_le_nat_alt)
  have view: "map_of (map (\<lambda>n. (cn_key n, cn_block n)) (filter (\<lambda>n. fst (cn_key n) \<noteq> f) ns)) k =
      (if fst k = f then None else map_of (map (\<lambda>n. (cn_key n, cn_block n)) ns) k)" for ns k
    by (induction ns) auto
  show "cache_view (Cache_Erase f c) = (\<lambda>k. if fst k = f then None else cache_view c k)"
    by (rule ext) (simp only: cache_view_def lru view)
qed

end
