(* ===== verification/Pebble_Memtable.thy ===== *)
theory Pebble_Memtable
  imports Pebble_Status
begin

text \<open>
  The in-memory write buffer and the stack of buffers (memtable/memtable.hpp and .cpp,
  memtable/memtable_list.hpp and .cpp).  A table is the ordered map of its entries with the running
  estimate of its size; the list is the active table and the frozen ones, newest first.  Tables have
  an address, because \<open>RemoveImmutable\<close> compares pointers.

  What a layer of the store says of a key is a map to entries (\<open>layer\<close>); \<open>overlay\<close> is the merge in
  which the newest layer wins.  Shown here: the invariant of a table (ascending keys, tombstones
  without a value, the estimate equal to the sum it stands for), the lookup of the list against
  \<open>overlay\<close>, and that freezing does not change what is read.
\<close>

subsection \<open>Layers\<close>

record mem_entry =
  me_sequence :: u64
  me_type :: entry_type
  me_value :: bytes

type_synonym layer = "bytes \<rightharpoonup> mem_entry"

text \<open>
  The contract of every \<open>Get\<close>: \<open>value\<close> and \<open>sequence\<close> are output parameters, left alone when there is
  nothing to report; a tombstone reports its sequence number only.
\<close>

type_synonym lookup_output = "lookup_result \<times> bytes \<times> u64"

definition lookup_in :: "layer \<Rightarrow> bytes \<Rightarrow> bytes \<Rightarrow> u64 \<Rightarrow> lookup_output" where
  "lookup_in m key value sequence =
     (case m key of
        None \<Rightarrow> (kLookupNotFound, value, sequence)
      | Some e \<Rightarrow>
          if me_type e = kTombstone then (kDeleted, value, me_sequence e)
          else (kFound, me_value e, me_sequence e))"

definition overlay :: "layer list \<Rightarrow> layer" where
  "overlay ms = foldr (\<lambda>newer older. older ++ newer) ms Map.empty"

text \<open>What the user sees of a layer: the live values.\<close>

definition live :: "layer \<Rightarrow> (bytes \<rightharpoonup> bytes)" where
  "live m = (\<lambda>key. case m key of
     None \<Rightarrow> None
   | Some e \<Rightarrow> if me_type e = kTombstone then None else Some (me_value e))"

lemma overlay_simps [simp]:
  "overlay [] = Map.empty"
  "overlay (m # ms) = overlay ms ++ m"
  by (simp_all add: overlay_def)

lemma overlay_append: "overlay (ms @ ns) = overlay ns ++ overlay ms"
  by (induction ms) (simp_all add: map_add_assoc)

lemma lookup_in_result:
  "fst (lookup_in m key value sequence) = kLookupNotFound \<longleftrightarrow> m key = None"
  "fst (lookup_in m key value sequence) = kFound \<longleftrightarrow> live m key \<noteq> None"
  "live m key = Some v \<Longrightarrow> fst (snd (lookup_in m key value sequence)) = v"
  by (auto simp: lookup_in_def live_def split: option.splits if_splits)

lemma lookup_in_empty [simp]: "lookup_in Map.empty key value sequence = (kLookupNotFound, value, sequence)"
  by (simp add: lookup_in_def)

lemma lookup_in_newer:
  "m key \<noteq> None \<Longrightarrow> lookup_in (older ++ m) key value sequence = lookup_in m key value sequence"
  "m key = None \<Longrightarrow> lookup_in (older ++ m) key value sequence = lookup_in older key value sequence"
  by (auto simp: lookup_in_def map_add_def)

lemma lookup_in_not_found:
  "m key = None \<Longrightarrow> lookup_in m key value sequence = (kLookupNotFound, value, sequence)"
  by (simp add: lookup_in_def)

lemma live_update:
  "live (m(key \<mapsto> e)) = (if me_type e = kTombstone then (live m)(key := None)
     else (live m)(key \<mapsto> me_value e))"
  by (auto simp: live_def fun_eq_iff)

text \<open>
  Layers that answer lookups: whatever structure keeps a layer, its \<open>Get\<close> is \<open>lookup_in\<close> of the map
  it stands for.  Searching a stack of them from the newest on is one lookup in their overlay.
\<close>

fun search_layers :: "('l \<Rightarrow> bytes \<Rightarrow> bytes \<Rightarrow> u64 \<Rightarrow> lookup_output) \<Rightarrow> 'l list \<Rightarrow>
    bytes \<Rightarrow> bytes \<Rightarrow> u64 \<Rightarrow> lookup_output" where
  "search_layers get [] key value sequence = (kLookupNotFound, value, sequence)"
| "search_layers get (l # ls) key value sequence =
     (case get l key value sequence of
        (result, value, sequence) \<Rightarrow>
          if result \<noteq> kLookupNotFound then (result, value, sequence)
          else search_layers get ls key value sequence)"

locale lookup_layer =
  fixes get :: "'l \<Rightarrow> bytes \<Rightarrow> bytes \<Rightarrow> u64 \<Rightarrow> lookup_output"
    and view :: "'l \<Rightarrow> layer"
  assumes get_view: "get l key value sequence = lookup_in (view l) key value sequence"
begin

lemma search_overlay:
  "search_layers get ls key v s = lookup_in (overlay (map view ls)) key v s"
proof (induction ls arbitrary: v s)
  case Nil
  then show ?case by simp
next
  case (Cons l ls)
  show ?case
  proof (cases "view l key = None")
    case True
    with Cons show ?thesis
      by (simp add: get_view lookup_in_newer lookup_in_not_found)
  next
    case False
    with lookup_in_result(1) [of "view l" key v s] show ?thesis
      by (auto simp: get_view lookup_in_newer split: prod.splits)
  qed
qed

end

subsection \<open>The table\<close>

definition kPerEntryOverheadBytes :: u64 where
  "kPerEntryOverheadBytes = 32"

definition kDefaultSizeThresholdBytes :: u64 where
  "kDefaultSizeThresholdBytes = 4 * 1024 * 1024"

record memtable =
  mt_address :: nat
  mt_table :: "(bytes \<times> mem_entry) list"
  mt_approximate_memory_usage :: u64

definition new_memtable :: "nat \<Rightarrow> memtable" where
  "new_memtable address = \<lparr>mt_address = address, mt_table = [], mt_approximate_memory_usage = 0\<rparr>"

definition EntryCost :: "nat \<Rightarrow> nat \<Rightarrow> u64" where
  "EntryCost key_size value_size = of_nat key_size + of_nat value_size + kPerEntryOverheadBytes"

definition MemTable_Put :: "bytes \<Rightarrow> bytes \<Rightarrow> u64 \<Rightarrow> memtable \<Rightarrow> memtable" where
  "MemTable_Put key value sequence t =
     (let entry = \<lparr>me_sequence = sequence, me_type = kValue, me_value = value\<rparr>;
          new_cost = EntryCost (length key) (length value)
      in case map_of (mt_table t) key of
           Some old \<Rightarrow>
             t\<lparr>mt_approximate_memory_usage :=
                 mt_approximate_memory_usage t - EntryCost (length key) (length (me_value old)) + new_cost,
               mt_table := ordered_put key entry (mt_table t)\<rparr>
         | None \<Rightarrow>
             t\<lparr>mt_approximate_memory_usage := mt_approximate_memory_usage t + new_cost,
               mt_table := ordered_put key entry (mt_table t)\<rparr>)"

definition MemTable_Delete :: "bytes \<Rightarrow> u64 \<Rightarrow> memtable \<Rightarrow> memtable" where
  "MemTable_Delete key sequence t =
     (let entry = \<lparr>me_sequence = sequence, me_type = kTombstone, me_value = []\<rparr>;
          new_cost = EntryCost (length key) 0
      in case map_of (mt_table t) key of
           Some old \<Rightarrow>
             t\<lparr>mt_approximate_memory_usage :=
                 mt_approximate_memory_usage t - EntryCost (length key) (length (me_value old)) + new_cost,
               mt_table := ordered_put key entry (mt_table t)\<rparr>
         | None \<Rightarrow>
             t\<lparr>mt_approximate_memory_usage := mt_approximate_memory_usage t + new_cost,
               mt_table := ordered_put key entry (mt_table t)\<rparr>)"

definition MemTable_Get :: "memtable \<Rightarrow> bytes \<Rightarrow> bytes \<Rightarrow> u64 \<Rightarrow> lookup_output" where
  "MemTable_Get t key value sequence =
     (case map_of (mt_table t) key of
        None \<Rightarrow> (kLookupNotFound, value, sequence)
      | Some entry \<Rightarrow>
          if me_type entry = kTombstone then (kDeleted, value, me_sequence entry)
          else (kFound, me_value entry, me_sequence entry))"

definition MemTable_empty :: "memtable \<Rightarrow> bool" where
  "MemTable_empty t \<longleftrightarrow> mt_table t = []"

definition table_view :: "memtable \<Rightarrow> layer" where
  "table_view t = map_of (mt_table t)"

interpretation memtable: lookup_layer MemTable_Get table_view
  by unfold_locales (simp add: MemTable_Get_def lookup_in_def table_view_def split: option.split)

subsection \<open>The invariant of a table\<close>

definition entries_cost :: "(bytes \<times> mem_entry) list \<Rightarrow> u64" where
  "entries_cost es = sum_list (map (\<lambda>(k, e). EntryCost (length k) (length (me_value e))) es)"

definition memtable_inv :: "memtable \<Rightarrow> bool" where
  "memtable_inv t \<longleftrightarrow> ascending (mt_table t) \<and>
     (\<forall>(k, e)\<in>set (mt_table t). me_type e = kTombstone \<longrightarrow> me_value e = []) \<and>
     mt_approximate_memory_usage t = entries_cost (mt_table t)"

lemma new_memtable_inv [simp]: "memtable_inv (new_memtable a)"
  by (simp add: memtable_inv_def new_memtable_def entries_cost_def)

lemma table_view_new [simp]: "table_view (new_memtable a) = Map.empty"
  by (simp add: table_view_def new_memtable_def)

lemma map_of_beyond: "ascending es \<Longrightarrow> \<forall>x\<in>fst ` set es. k < x \<Longrightarrow> map_of es k = None"
  by (metis map_of_eq_None_iff order_less_irrefl)

lemma entries_cost_put:
  assumes "ascending es"
  shows "entries_cost (ordered_put k e es) =
    (case map_of es k of
       Some old \<Rightarrow> entries_cost es - EntryCost (length k) (length (me_value old))
     | None \<Rightarrow> entries_cost es) + EntryCost (length k) (length (me_value e))"
  using assms
proof (induction es)
  case Nil
  then show ?case by (simp add: entries_cost_def)
next
  case (Cons node es)
  obtain x d where node: "node = (x, d)" by (cases node)
  have above: "map_of es k = None" if "k < x"
    using Cons.prems that unfolding node by (intro map_of_beyond) auto
  have "map_of es x = None"
    using Cons.prems unfolding node by (intro map_of_beyond) auto
  with Cons above show ?case
    by (auto simp: node entries_cost_def algebra_simps split: option.split)
qed

lemma ordered_put_values:
  "(k', e') \<in> set (ordered_put k e es) \<Longrightarrow> (k', e') = (k, e) \<or> (k', e') \<in> set es"
  by (induction es) (auto split: if_splits)

lemma memtable_update:
  assumes "memtable_inv t" and "me_type e = kTombstone \<Longrightarrow> me_value e = []"
    and "t' = t\<lparr>mt_approximate_memory_usage :=
      (case map_of (mt_table t) k of
         Some old \<Rightarrow> mt_approximate_memory_usage t - EntryCost (length k) (length (me_value old))
       | None \<Rightarrow> mt_approximate_memory_usage t) + EntryCost (length k) (length (me_value e)),
      mt_table := ordered_put k e (mt_table t)\<rparr>"
  shows "memtable_inv t'" and "table_view t' = (table_view t)(k \<mapsto> e)"
  using assms ascending_ordered_put [of "mt_table t" k e]
  by (auto simp: memtable_inv_def entries_cost_put table_view_def dest!: ordered_put_values
      split: option.splits)

lemma MemTable_Put_eq:
  "MemTable_Put key v sequence t =
   (let e = \<lparr>me_sequence = sequence, me_type = kValue, me_value = v\<rparr>
    in t\<lparr>mt_approximate_memory_usage :=
      (case map_of (mt_table t) key of
         Some old \<Rightarrow> mt_approximate_memory_usage t - EntryCost (length key) (length (me_value old))
       | None \<Rightarrow> mt_approximate_memory_usage t) + EntryCost (length key) (length (me_value e)),
      mt_table := ordered_put key e (mt_table t)\<rparr>)"
  by (simp add: MemTable_Put_def Let_def split: option.split)

lemma MemTable_Delete_eq:
  "MemTable_Delete key sequence t =
   (let e = \<lparr>me_sequence = sequence, me_type = kTombstone, me_value = []\<rparr>
    in t\<lparr>mt_approximate_memory_usage :=
      (case map_of (mt_table t) key of
         Some old \<Rightarrow> mt_approximate_memory_usage t - EntryCost (length key) (length (me_value old))
       | None \<Rightarrow> mt_approximate_memory_usage t) + EntryCost (length key) (length (me_value e)),
      mt_table := ordered_put key e (mt_table t)\<rparr>)"
  by (simp add: MemTable_Delete_def Let_def split: option.split)

lemma MemTable_Put_inv:
  assumes "memtable_inv t"
  shows "memtable_inv (MemTable_Put key v sequence t)"
    and "table_view (MemTable_Put key v sequence t) =
      (table_view t)(key \<mapsto> \<lparr>me_sequence = sequence, me_type = kValue, me_value = v\<rparr>)"
  using memtable_update [OF assms, of "\<lparr>me_sequence = sequence, me_type = kValue, me_value = v\<rparr>" _ key]
  by (simp_all add: MemTable_Put_eq Let_def)

lemma MemTable_Delete_inv:
  assumes "memtable_inv t"
  shows "memtable_inv (MemTable_Delete key sequence t)"
    and "table_view (MemTable_Delete key sequence t) =
      (table_view t)(key \<mapsto> \<lparr>me_sequence = sequence, me_type = kTombstone, me_value = []\<rparr>)"
  using memtable_update [OF assms, of "\<lparr>me_sequence = sequence, me_type = kTombstone, me_value = []\<rparr>" _ key]
  by (simp_all add: MemTable_Delete_eq Let_def)

lemma MemTable_address [simp]:
  "mt_address (MemTable_Put k v s t) = mt_address t"
  "mt_address (MemTable_Delete k s t) = mt_address t"
  by (simp_all add: MemTable_Put_eq MemTable_Delete_eq Let_def)

lemma MemTable_not_empty [simp]:
  "\<not> MemTable_empty (MemTable_Put k v s t)"
  "\<not> MemTable_empty (MemTable_Delete k s t)"
  by (simp_all add: MemTable_Put_eq MemTable_Delete_eq MemTable_empty_def Let_def)

subsection \<open>The list of tables\<close>

text \<open>\<open>ml_fresh\<close> is the address the next \<open>make_shared\<close> gives.\<close>

record memtable_list =
  ml_active :: memtable
  ml_immutables :: "memtable list"
  ml_fresh :: nat

definition new_memtable_list :: memtable_list where
  "new_memtable_list = \<lparr>ml_active = new_memtable 0, ml_immutables = [], ml_fresh = 1\<rparr>"

definition List_Put :: "bytes \<Rightarrow> bytes \<Rightarrow> u64 \<Rightarrow> memtable_list \<Rightarrow> memtable_list" where
  "List_Put key value sequence l = l\<lparr>ml_active := MemTable_Put key value sequence (ml_active l)\<rparr>"

definition List_Delete :: "bytes \<Rightarrow> u64 \<Rightarrow> memtable_list \<Rightarrow> memtable_list" where
  "List_Delete key sequence l = l\<lparr>ml_active := MemTable_Delete key sequence (ml_active l)\<rparr>"

definition List_Get :: "memtable_list \<Rightarrow> bytes \<Rightarrow> bytes \<Rightarrow> u64 \<Rightarrow> lookup_output" where
  "List_Get l key value sequence =
     (case MemTable_Get (ml_active l) key value sequence of
        (result, value, sequence) \<Rightarrow>
          if result \<noteq> kLookupNotFound then (result, value, sequence)
          else search_layers MemTable_Get (ml_immutables l) key value sequence)"

definition Freeze :: "memtable_list \<Rightarrow> memtable_list" where
  "Freeze l = l\<lparr>ml_immutables := ml_active l # ml_immutables l,
                ml_active := new_memtable (ml_fresh l), ml_fresh := ml_fresh l + 1\<rparr>"

fun erase_first :: "nat \<Rightarrow> memtable list \<Rightarrow> memtable list" where
  "erase_first address [] = []"
| "erase_first address (t # ts) = (if mt_address t = address then ts else t # erase_first address ts)"

definition RemoveImmutable :: "memtable \<Rightarrow> memtable_list \<Rightarrow> memtable_list" where
  "RemoveImmutable t l = l\<lparr>ml_immutables := erase_first (mt_address t) (ml_immutables l)\<rparr>"

definition ActiveShouldFlush :: "memtable_list \<Rightarrow> u64 \<Rightarrow> bool" where
  "ActiveShouldFlush l size_threshold_bytes \<longleftrightarrow>
     size_threshold_bytes \<le> mt_approximate_memory_usage (ml_active l)"

definition ImmutableCount :: "memtable_list \<Rightarrow> nat" where
  "ImmutableCount l = length (ml_immutables l)"

subsection \<open>The invariant of the list and what it reads\<close>

definition list_tables :: "memtable_list \<Rightarrow> memtable list" where
  "list_tables l = ml_active l # ml_immutables l"

definition list_view :: "memtable_list \<Rightarrow> layer" where
  "list_view l = overlay (map table_view (list_tables l))"

definition memtable_list_inv :: "memtable_list \<Rightarrow> bool" where
  "memtable_list_inv l \<longleftrightarrow> (\<forall>t\<in>set (list_tables l). memtable_inv t \<and> mt_address t < ml_fresh l) \<and>
     distinct (map mt_address (list_tables l)) \<and> (\<forall>t\<in>set (ml_immutables l). \<not> MemTable_empty t)"

theorem List_Get_view: "List_Get l key value sequence = lookup_in (list_view l) key value sequence"
proof -
  have "List_Get l key value sequence = search_layers MemTable_Get (list_tables l) key value sequence"
    by (simp add: List_Get_def list_tables_def)
  then show ?thesis
    by (simp add: memtable.search_overlay list_view_def)
qed

lemma new_memtable_list_inv [simp]: "memtable_list_inv new_memtable_list"
  by (simp add: memtable_list_inv_def new_memtable_list_def list_tables_def) (simp add: new_memtable_def)

lemma list_view_new [simp]: "list_view new_memtable_list = Map.empty"
  by (simp add: list_view_def list_tables_def new_memtable_list_def)

lemma List_Put_inv:
  assumes "memtable_list_inv l"
  shows "memtable_list_inv (List_Put k v s l)"
    and "list_view (List_Put k v s l) = (list_view l)(k \<mapsto> \<lparr>me_sequence = s, me_type = kValue, me_value = v\<rparr>)"
  using assms
  by (auto simp: memtable_list_inv_def List_Put_def list_view_def list_tables_def MemTable_Put_inv)

lemma List_Delete_inv:
  assumes "memtable_list_inv l"
  shows "memtable_list_inv (List_Delete k s l)"
    and "list_view (List_Delete k s l) = (list_view l)(k \<mapsto> \<lparr>me_sequence = s, me_type = kTombstone, me_value = []\<rparr>)"
  using assms
  by (auto simp: memtable_list_inv_def List_Delete_def list_view_def list_tables_def MemTable_Delete_inv)

lemma Freeze_inv:
  assumes "memtable_list_inv l" and "\<not> MemTable_empty (ml_active l)"
  shows "memtable_list_inv (Freeze l)"
  using assms
  by (fastforce simp: memtable_list_inv_def Freeze_def list_tables_def new_memtable_def
      memtable_inv_def entries_cost_def)

lemma Freeze_view: "list_view (Freeze l) = list_view l"
  by (simp add: Freeze_def list_view_def list_tables_def)

lemma erase_first_last:
  "distinct (map mt_address (ts @ [t])) \<Longrightarrow> erase_first (mt_address t) (ts @ [t]) = ts"
  by (induction ts) auto

lemma RemoveImmutable_oldest:
  assumes "memtable_list_inv l" and "ml_immutables l = ts @ [t]"
  shows "ml_immutables (RemoveImmutable t l) = ts" and "memtable_list_inv (RemoveImmutable t l)"
    and "list_view l = table_view t ++ list_view (RemoveImmutable t l)"
proof -
  have "distinct (map mt_address (ts @ [t]))"
    using assms by (simp add: memtable_list_inv_def list_tables_def)
  then show rest: "ml_immutables (RemoveImmutable t l) = ts"
    using assms(2) by (simp add: RemoveImmutable_def erase_first_last)
  have active: "ml_active (RemoveImmutable t l) = ml_active l" "ml_fresh (RemoveImmutable t l) = ml_fresh l"
    by (simp_all add: RemoveImmutable_def)
  show "memtable_list_inv (RemoveImmutable t l)"
    using assms active rest by (auto simp: memtable_list_inv_def list_tables_def)
  show "list_view l = table_view t ++ list_view (RemoveImmutable t l)"
    using assms(2) active rest
    by (simp add: list_view_def list_tables_def overlay_append)
qed

end
