(* ===== verification/Pebble_Sst_Reader.thy ===== *)
theory Pebble_Sst_Reader
  imports Pebble_Sst_Writer Pebble_Block_Cache Pebble_Memtable
begin

text \<open>
  Reading a sorted table (sstable/reader.hpp, sstable/reader.cpp).  A reader may share the block cache;
  its counters are atomics.  Shown here: opening a file that holds a table succeeds unless the system
  fails a call, and then gives that table's index and filter; \<open>Get\<close> on it is \<open>lookup_in\<close> of its entries
  and the scan delivers them in order, through the cache and through the file alike; a block handle that
  leaves the file is refused before anything is read.
\<close>

definition ToStatus :: "sst_decode_status \<Rightarrow> string \<Rightarrow> status" where
  "ToStatus st what =
     (if st = SstUnsupportedVersion \<or> st = SstUnsupportedCompression
      then NotSupported ((what @ '': '') @ sst_DecodeStatusName st)
      else Corruption ((what @ '': '') @ sst_DecodeStatusName st))"

definition ValidateHandleInBounds :: "block_handle \<Rightarrow> u64 \<Rightarrow> string \<Rightarrow> status" where
  "ValidateHandleInBounds handle file_size what =
     (if file_size < bh_size handle \<or> file_size - bh_size handle < bh_offset handle
      then Corruption (what @ '': block handle extends beyond file size'')
      else status_OK)"

record sst_reader =
  sr_file :: posix_file
  sr_footer :: footer
  sr_index :: "index_entry list"
  sr_filter :: bytes
  sr_file_size :: u64
  sr_file_id :: u64
  sr_filter_checks :: u64
  sr_filter_rejections :: u64
  sr_cache_hits :: u64
  sr_cache_misses :: u64
  sr_data_blocks_read :: u64

text \<open>\<open>ReadBlock\<close> returns the status and the entries of the block.\<close>

definition ReadBlock :: "sst_reader \<Rightarrow> block_handle \<Rightarrow> world \<Rightarrow> status \<times> bytes \<times> world" where
  "ReadBlock rd handle w =
     (let bounds_status = ValidateHandleInBounds handle (sr_file_size rd) ''sstable block''
      in if \<not> ok bounds_status then (bounds_status, [], w)
         else
           case ReadAt (sr_file rd) (bh_offset handle) (unat (bh_size handle)) w of
             (s, raw_block, short_read, w) \<Rightarrow>
               if \<not> ok s then (s, [], w)
               else if short_read then (Corruption ''short read while reading sstable block'', [], w)
               else
                 case VerifyAndStripBlockTrailer raw_block of
                   Inl ds \<Rightarrow> (ToStatus ds ''sstable block'', [], w)
                 | Inr entries \<Rightarrow> (status_OK, entries, w))"

text \<open>The second half of \<open>Open\<close>: the index and the filter of a reader whose footer has been read.\<close>

definition load_index :: "sst_reader \<Rightarrow> world \<Rightarrow> status \<times> sst_reader \<times> world" where
  "load_index rd w =
     (if 0 < bh_size (ft_index_handle (sr_footer rd))
      then case ReadBlock rd (ft_index_handle (sr_footer rd)) w of
             (s, index_entries_view, w) \<Rightarrow>
               if \<not> ok s then (s, rd, w)
               else
                 case decode_loop DecodeIndexEntry index_entries_view of
                   (es, Some ds, _) \<Rightarrow> (ToStatus ds ''sstable index entry'', rd, w)
                 | (es, None, _) \<Rightarrow> (status_OK, rd\<lparr>sr_index := sr_index rd @ es\<rparr>, w)
      else (status_OK, rd, w))"

definition load_filter :: "sst_reader \<Rightarrow> world \<Rightarrow> status \<times> sst_reader \<times> world" where
  "load_filter rd w =
     (if 0 < bh_size (ft_filter_handle (sr_footer rd))
      then case ReadBlock rd (ft_filter_handle (sr_footer rd)) w of
             (s, filter_entries_view, w) \<Rightarrow>
               if \<not> ok s then (s, rd, w)
               else (status_OK, rd\<lparr>sr_filter := filter_entries_view\<rparr>, w)
      else (status_OK, rd, w))"

definition SstReader_Open :: "string \<Rightarrow> u64 \<Rightarrow> world \<Rightarrow> status \<times> sst_reader option \<times> world" where
  "SstReader_Open path file_id w =
     (case OpenRead path w of
        (s, None, w) \<Rightarrow> (s, None, w)
      | (s, Some file, w) \<Rightarrow>
          case Size file w of
            (s, file_size, w) \<Rightarrow>
              if \<not> ok s then (s, None, w)
              else if file_size < of_nat kFooterSize
              then (Corruption ''sstable file is smaller than a footer'', None, w)
              else
                case ReadAt file (file_size - of_nat kFooterSize) kFooterSize w of
                  (s, footer_buf, short_read, w) \<Rightarrow>
                    if \<not> ok s then (s, None, w)
                    else if short_read
                    then (Corruption ''short read while reading sstable footer'', None, w)
                    else
                      case DecodeFooter footer_buf of
                        Inl ds \<Rightarrow> (ToStatus ds ''sstable footer'', None, w)
                      | Inr footer \<Rightarrow>
                          let rd = \<lparr>sr_file = file, sr_footer = footer, sr_index = [], sr_filter = [],
                                    sr_file_size = file_size, sr_file_id = file_id,
                                    sr_filter_checks = 0, sr_filter_rejections = 0, sr_cache_hits = 0,
                                    sr_cache_misses = 0, sr_data_blocks_read = 0\<rparr>;
                              s1 = ValidateHandleInBounds (ft_index_handle footer) file_size
                                     ''sstable index handle'';
                              s2 = ValidateHandleInBounds (ft_filter_handle footer) file_size
                                     ''sstable filter handle''
                          in if \<not> ok s1 then (s1, None, w)
                             else if \<not> ok s2 then (s2, None, w)
                             else
                               case load_index rd w of
                                 (s, rd, w) \<Rightarrow>
                                   if \<not> ok s then (s, None, w)
                                   else
                                     case load_filter rd w of
                                       (s, rd, w) \<Rightarrow>
                                         if \<not> ok s then (s, None, w) else (status_OK, Some rd, w))"

text \<open>
  \<open>ReadDataBlock\<close> with the cache the reader was opened with (\<open>nullptr\<close> is \<open>None\<close>); the reader is
  returned for its counters.
\<close>

definition ReadDataBlock :: "sst_reader \<Rightarrow> block_handle \<Rightarrow> block_cache option \<Rightarrow> world \<Rightarrow>
    status \<times> bytes \<times> sst_reader \<times> block_cache option \<times> world" where
  "ReadDataBlock rd handle cache w =
     (let (hit, cache) =
        (case cache of
           None \<Rightarrow> (None, None)
         | Some c \<Rightarrow>
             (case Cache_Lookup (sr_file_id rd) (bh_offset handle) c of (hit, c) \<Rightarrow> (hit, Some c)))
      in case hit of
           Some entries \<Rightarrow>
             (status_OK, entries, rd\<lparr>sr_cache_hits := sr_cache_hits rd + 1\<rparr>, cache, w)
         | None \<Rightarrow>
             case ReadBlock rd handle w of
               (s, entries, w) \<Rightarrow>
                 if \<not> ok s then (s, [], rd, cache, w)
                 else
                   let rd = rd\<lparr>sr_data_blocks_read := sr_data_blocks_read rd + 1\<rparr>
                   in case cache of
                        None \<Rightarrow> (status_OK, entries, rd, None, w)
                      | Some c \<Rightarrow>
                          (status_OK, entries, rd\<lparr>sr_cache_misses := sr_cache_misses rd + 1\<rparr>,
                           Some (Cache_Insert (sr_file_id rd) (bh_offset handle) entries c), w))"

text \<open>\<open>std::lower_bound\<close> over the index, as the position of the first entry not below the key.\<close>

definition index_lower_bound :: "index_entry list \<Rightarrow> bytes \<Rightarrow> index_entry option" where
  "index_lower_bound index key = List.find (\<lambda>e. \<not> ie_last_key e < key) index"

text \<open>The loop of \<open>Get\<close> over the entries of a block: the output as in \<open>lookup_output\<close>.\<close>

function scan_block :: "bytes \<Rightarrow> bytes \<Rightarrow> bytes \<Rightarrow> u64 \<Rightarrow> status \<times> lookup_output" where
  "scan_block entries_view key val sequence =
     (if entries_view = [] then (status_OK, kLookupNotFound, val, sequence)
      else
        case DecodeEntry entries_view of
          Inl ds \<Rightarrow> (ToStatus ds ''sstable data entry'', kLookupNotFound, val, sequence)
        | Inr (entry, rest) \<Rightarrow>
            if se_key entry = key
            then if se_type entry = kTombstone
                 then (status_OK, kDeleted, val, se_sequence entry)
                 else (status_OK, kFound, se_value entry, se_sequence entry)
            else if key < se_key entry then (status_OK, kLookupNotFound, val, sequence)
            else scan_block rest key val sequence)"
  by pat_completeness auto
termination
  by (relation "measure (\<lambda>(bs, _). length bs)") (auto dest!: sym [of _ "DecodeEntry _"] DecodeEntry_shrinks)

declare scan_block.simps [simp del]

text \<open>
  \<open>Get\<close>: the status, the result with its outputs, the reader, the cache and the system; \<open>None\<close> is
  the division by zero of \<open>KeyMayMatch\<close>.
\<close>

definition SstReader_Get :: "sst_reader \<Rightarrow> bytes \<Rightarrow> bytes \<Rightarrow> u64 \<Rightarrow> block_cache option \<Rightarrow> world \<Rightarrow>
    (status \<times> lookup_output \<times> sst_reader \<times> block_cache option \<times> world) option" where
  "SstReader_Get rd key val sequence cache w =
     (case (if sr_filter rd \<noteq> [] then KeyMayMatch key (sr_filter rd) else Some True) of
        None \<Rightarrow> None
      | Some may_match \<Rightarrow>
          let rd = (if sr_filter rd \<noteq> [] then rd\<lparr>sr_filter_checks := sr_filter_checks rd + 1\<rparr> else rd)
          in if \<not> may_match
             then Some (status_OK, (kLookupNotFound, val, sequence),
                    rd\<lparr>sr_filter_rejections := sr_filter_rejections rd + 1\<rparr>, cache, w)
             else
               case index_lower_bound (sr_index rd) key of
                 None \<Rightarrow> Some (status_OK, (kLookupNotFound, val, sequence), rd, cache, w)
               | Some it \<Rightarrow>
                   (case ReadDataBlock rd (ie_handle it) cache w of
                      (s, entries, rd, cache, w) \<Rightarrow>
                        if \<not> ok s then Some (s, (kLookupNotFound, val, sequence), rd, cache, w)
                        else
                          case scan_block entries key val sequence of
                            (s, out) \<Rightarrow> Some (s, out, rd, cache, w)))"

text \<open>\<open>ForEachEntry\<close>: the entries handed to the callback, in order, with the final status.\<close>

fun ForEachEntry_loop :: "index_entry list \<Rightarrow> sst_reader \<Rightarrow> block_cache option \<Rightarrow> world \<Rightarrow>
    status \<times> sst_entry list \<times> sst_reader \<times> block_cache option \<times> world" where
  "ForEachEntry_loop [] rd cache w = (status_OK, [], rd, cache, w)"
| "ForEachEntry_loop (index_entry # rest) rd cache w =
     (case ReadDataBlock rd (ie_handle index_entry) cache w of
        (s, entries, rd, cache, w) \<Rightarrow>
          if \<not> ok s then (s, [], rd, cache, w)
          else
            case decode_loop DecodeEntry entries of
              (es, Some ds, _) \<Rightarrow> (ToStatus ds ''sstable data entry'', es, rd, cache, w)
            | (es, None, _) \<Rightarrow>
                (case ForEachEntry_loop rest rd cache w of
                   (s, es', rd, cache, w) \<Rightarrow> (s, es @ es', rd, cache, w)))"

definition ForEachEntry :: "sst_reader \<Rightarrow> block_cache option \<Rightarrow> world \<Rightarrow>
    status \<times> sst_entry list \<times> sst_reader \<times> block_cache option \<times> world" where
  "ForEachEntry rd cache w = ForEachEntry_loop (sr_index rd) rd cache w"

subsection \<open>Handles\<close>

theorem ValidateHandleInBounds_correct:
  "ok (ValidateHandleInBounds h n what) \<longleftrightarrow> unat (bh_offset h) + unat (bh_size h) \<le> unat n"
proof -
  have "\<not> n - bh_size h < bh_offset h \<longleftrightarrow> unat (bh_offset h) + unat (bh_size h) \<le> unat n"
    if "bh_size h \<le> n"
    using that unat_sub [OF that] by (auto simp: word_less_nat_alt word_le_nat_alt)
  moreover have "bh_size h \<le> n" if "unat (bh_offset h) + unat (bh_size h) \<le> unat n"
    using that by (simp add: word_le_nat_alt)
  ultimately show ?thesis
    by (auto simp: ValidateHandleInBounds_def not_less)
qed

lemma ReadBlock_out_of_bounds:
  "unat (sr_file_size rd) < unat (bh_offset h) + unat (bh_size h) \<Longrightarrow>
   \<exists>m. ReadBlock rd h w = (Corruption m, [], w)"
  using ValidateHandleInBounds_correct [of h "sr_file_size rd" "''sstable block''"]
  by (auto simp: ReadBlock_def ValidateHandleInBounds_def Let_def)

text \<open>A handle of a block in the file.\<close>

definition handle_at :: "nat \<Rightarrow> bytes \<Rightarrow> block_handle" where
  "handle_at off d = \<lparr>bh_offset = of_nat off, bh_size = of_nat (length (block_bytes d))\<rparr>"

lemma max_file_size_64: "n \<le> max_file_size \<Longrightarrow> unat (of_nat n :: u64) = n"
  by (simp add: max_file_size_def unat_of_nat)

lemma verify_block_bytes: "VerifyAndStripBlockTrailer (block_bytes d) = Inr d"
  using VerifyAndStripBlockTrailer_FinishBlock [of d] by (simp add: FinishBlock_bytes)

lemma ReadBlock_content:
  assumes "ReadBlock rd (handle_at (length pre) d) w = (s, out, w')"
    and "files w (fd_path (sr_file rd)) = Some (pre @ block_bytes d @ post)"
    and "sr_file_size rd = of_nat (length (pre @ block_bytes d @ post))"
    and "length (pre @ block_bytes d @ post) \<le> max_file_size"
  shows "files w' = files w" and "ok s \<Longrightarrow> s = status_OK \<and> out = d" and "\<not> ok s \<Longrightarrow> IsIOError s"
    and "faults w = [] \<Longrightarrow> ok s \<and> w' = w"
proof -
  let ?c = "pre @ block_bytes d @ post"
  let ?h = "handle_at (length pre) d"
  have "unat (bh_offset ?h) = length pre" "unat (bh_size ?h) = length (block_bytes d)"
    using assms(4) by (simp_all add: handle_at_def max_file_size_64 del: length_block_bytes)
  moreover have "unat (sr_file_size rd) = length ?c"
    unfolding assms(3) by (rule max_file_size_64 [OF assms(4)])
  ultimately have sizes: "unat (bh_offset ?h) = length pre" "unat (bh_size ?h) = length (block_bytes d)"
    "unat (sr_file_size rd) = length ?c" .
  then have bounds: "ok (ValidateHandleInBounds ?h (sr_file_size rd) ''sstable block'')"
    by (simp add: ValidateHandleInBounds_correct del: length_block_bytes)
  obtain s1 raw short w1 where r: "ReadAt (sr_file rd) (bh_offset ?h) (length (block_bytes d)) w = (s1, raw, short, w1)"
    by (rule prod_cases4)
  have off: "unat (bh_offset ?h) \<le> length ?c"
    by (simp add: sizes)
  note effect = ReadAt_content [OF r assms(2,4) off]
  have slice: "take (length (block_bytes d)) (drop (unat (bh_offset ?h)) ?c) = block_bytes d"
    by (simp add: sizes del: length_block_bytes)
  have run: "(s, out, w') = (if ok s1 then (status_OK, d, w1) else (s1, [], w1))"
    using assms(1) bounds r effect(2) verify_block_bytes [of d]
    by (cases "ok s1") (simp_all add: ReadBlock_def sizes slice Let_def del: length_block_bytes)
  show "files w' = files w" "ok s \<Longrightarrow> s = status_OK \<and> out = d" "\<not> ok s \<Longrightarrow> IsIOError s"
    using run effect(1,3) by (cases "ok s1"; simp)+
  assume nf: "faults w = []"
  from ReadAt_no_faults [OF this assms(2,4) off, of "length (block_bytes d)"] r run
  show "ok s \<and> w' = w"
    by (simp add: slice)
qed

subsection \<open>Opening a table\<close>

definition table_file :: "bytes \<Rightarrow> sst_entry list list \<Rightarrow> bytes \<Rightarrow> bool" where
  "table_file c blocks fltr \<longleftrightarrow>
     c = table_bytes blocks fltr \<and> well_formed_blocks blocks \<and> length c \<le> max_file_size"

definition reads_table :: "sst_reader \<Rightarrow> string \<Rightarrow> u64 \<Rightarrow> sst_entry list list \<Rightarrow> bytes \<Rightarrow> bool" where
  "reads_table rd path file_id blocks fltr \<longleftrightarrow>
     fd_path (sr_file rd) = path \<and> sr_file_id rd = file_id \<and> sr_index rd = index_of 0 blocks \<and>
     sr_filter rd = fltr \<and> sr_file_size rd = of_nat (length (table_bytes blocks fltr)) \<and>
     well_formed_blocks blocks"

lemma index_of_valid:
  assumes "well_formed_blocks blocks"
  shows "\<forall>e\<in>set (index_of off blocks). index_valid e"
proof -
  have "e \<in> set (index_of off bs) \<Longrightarrow> \<exists>b\<in>set bs. ie_last_key e = se_key (last b)" for e off bs
    by (induction bs arbitrary: off) auto
  note origin = this
  show ?thesis
  proof
    fix e assume "e \<in> set (index_of off blocks)"
    from origin [OF this] obtain b where b: "b \<in> set blocks" "ie_last_key e = se_key (last b)"
      by blast
    then have "last b \<in> set (concat blocks)"
      using assms by (auto simp: well_formed_blocks_def intro!: bexI [of _ b] last_in_set)
    then show "index_valid e"
      using assms b(2) by (auto simp: well_formed_blocks_def index_valid_def entry_valid_def)
  qed
qed

lemma decode_index_of:
  "well_formed_blocks blocks \<Longrightarrow>
   decode_loop DecodeIndexEntry (index.encs (index_of 0 blocks)) = (index_of 0 blocks, None, [])"
  by (intro index.decode_all index_of_valid)

lemma table_bytes_split:
  "table_bytes blocks fltr =
    (data_bytes blocks @ filter_bytes fltr) @ block_bytes (index.encs (index_of 0 blocks)) @
      EncodeFooter (table_footer blocks fltr) []"
  "fltr \<noteq> [] \<Longrightarrow> table_bytes blocks fltr =
    data_bytes blocks @ block_bytes fltr @
      (block_bytes (index.encs (index_of 0 blocks)) @ EncodeFooter (table_footer blocks fltr) [])"
  by (simp_all add: table_bytes_def filter_bytes_def)

lemma table_footer_handles:
  "ft_index_handle (table_footer blocks fltr) =
    handle_at (length (data_bytes blocks @ filter_bytes fltr)) (index.encs (index_of 0 blocks))"
  "fltr \<noteq> [] \<Longrightarrow> ft_filter_handle (table_footer blocks fltr) = handle_at (length (data_bytes blocks)) fltr"
  "fltr = [] \<Longrightarrow> ft_filter_handle (table_footer blocks fltr) =
    \<lparr>bh_offset = of_nat (length (data_bytes blocks)), bh_size = 0\<rparr>"
  by (simp_all add: table_footer_def handle_at_def filter_bytes_def)

lemma handle_at_nonempty:
  "length (block_bytes d) \<le> max_file_size \<Longrightarrow> 0 < bh_size (handle_at off d)"
proof -
  assume "length (block_bytes d) \<le> max_file_size"
  then have "unat (bh_size (handle_at off d)) = length (block_bytes d)"
    unfolding handle_at_def block_handle.simps by (rule max_file_size_64)
  then show ?thesis
    by (simp add: word_less_nat_alt)
qed

lemma load_index_effect:
  assumes "load_index rd w = (s, rd', w')" and "files w (fd_path (sr_file rd)) = Some c"
    and "table_file c blocks fltr" and "sr_file_size rd = of_nat (length c)"
    and "ft_index_handle (sr_footer rd) = ft_index_handle (table_footer blocks fltr)" and "sr_index rd = []"
  shows "files w' = files w" and "ok s \<Longrightarrow> rd' = rd\<lparr>sr_index := index_of 0 blocks\<rparr>"
    and "\<not> ok s \<Longrightarrow> IsIOError s" and "faults w = [] \<Longrightarrow> ok s \<and> w' = w"
proof -
  let ?i = "index.encs (index_of 0 blocks)"
  let ?pre = "data_bytes blocks @ filter_bytes fltr"
  let ?post = "EncodeFooter (table_footer blocks fltr) []"
  have c: "c = ?pre @ block_bytes ?i @ ?post"
    using assms(3) by (simp add: table_file_def table_bytes_split(1))
  have wf: "well_formed_blocks blocks" and len: "length c \<le> max_file_size"
    using assms(3) unfolding table_file_def by blast+
  have "0 < bh_size (ft_index_handle (sr_footer rd))"
    using len unfolding assms(5) table_footer_handles c by (intro handle_at_nonempty) simp
  moreover obtain s1 out w1 where r: "ReadBlock rd (ft_index_handle (sr_footer rd)) w = (s1, out, w1)"
    by (rule prod_cases3)
  ultimately have run: "(s, rd', w') = (if \<not> ok s1 then (s1, rd, w1)
      else case decode_loop DecodeIndexEntry out of
             (es, Some ds, _) \<Rightarrow> (ToStatus ds ''sstable index entry'', rd, w1)
           | (es, None, _) \<Rightarrow> (status_OK, rd\<lparr>sr_index := sr_index rd @ es\<rparr>, w1))"
    using assms(1) by (simp add: load_index_def split: if_splits)
  note effect = ReadBlock_content [OF r [unfolded assms(5) table_footer_handles(1)]
      assms(2) [unfolded c] assms(4) [unfolded c] len [unfolded c]]
  have run: "(s, rd', w') = (if \<not> ok s1 then (s1, rd, w1)
      else (status_OK, rd\<lparr>sr_index := index_of 0 blocks\<rparr>, w1))"
    using run effect(2) decode_index_of [OF wf] assms(6) by (cases "ok s1") simp_all
  show "files w' = files w" "ok s \<Longrightarrow> rd' = rd\<lparr>sr_index := index_of 0 blocks\<rparr>" "\<not> ok s \<Longrightarrow> IsIOError s"
    "faults w = [] \<Longrightarrow> ok s \<and> w' = w"
    using run effect by (cases "ok s1"; simp)+
qed

lemma load_filter_effect:
  assumes "load_filter rd w = (s, rd', w')" and "files w (fd_path (sr_file rd)) = Some c"
    and "table_file c blocks fltr" and "sr_file_size rd = of_nat (length c)"
    and "ft_filter_handle (sr_footer rd) = ft_filter_handle (table_footer blocks fltr)" and "sr_filter rd = []"
  shows "files w' = files w" and "ok s \<Longrightarrow> rd' = rd\<lparr>sr_filter := fltr\<rparr>"
    and "\<not> ok s \<Longrightarrow> IsIOError s" and "faults w = [] \<Longrightarrow> ok s \<and> w' = w"
proof -
  have len: "length c \<le> max_file_size"
    using assms(3) unfolding table_file_def by blast
  have "files w' = files w \<and> (ok s \<longrightarrow> rd' = rd\<lparr>sr_filter := fltr\<rparr>) \<and> (\<not> ok s \<longrightarrow> IsIOError s) \<and>
    (faults w = [] \<longrightarrow> ok s \<and> w' = w)"
  proof (cases "fltr = []")
    case True
    with assms(1,5,6) show ?thesis
      by (auto simp: load_filter_def table_footer_handles)
  next
    case False
    let ?pre = "data_bytes blocks"
    let ?post = "block_bytes (index.encs (index_of 0 blocks)) @ EncodeFooter (table_footer blocks fltr) []"
    have c: "c = ?pre @ block_bytes fltr @ ?post"
      using assms(3) by (simp add: table_file_def table_bytes_split(2) [OF False])
    have "0 < bh_size (ft_filter_handle (sr_footer rd))"
      using len unfolding assms(5) table_footer_handles(2) [OF False] c by (intro handle_at_nonempty) simp
    moreover obtain s1 out w1 where r: "ReadBlock rd (ft_filter_handle (sr_footer rd)) w = (s1, out, w1)"
      by (rule prod_cases3)
    ultimately have run: "(s, rd', w') = (if \<not> ok s1 then (s1, rd, w1)
        else (status_OK, rd\<lparr>sr_filter := out\<rparr>, w1))"
      using assms(1) by (simp add: load_filter_def split: if_splits)
    note effect = ReadBlock_content [OF r [unfolded assms(5) table_footer_handles(2) [OF False]]
        assms(2) [unfolded c] assms(4) [unfolded c] len [unfolded c]]
    show ?thesis
      using run effect by (cases "ok s1") auto
  qed
  then show "files w' = files w" "ok s \<Longrightarrow> rd' = rd\<lparr>sr_filter := fltr\<rparr>" "\<not> ok s \<Longrightarrow> IsIOError s"
    "faults w = [] \<Longrightarrow> ok s \<and> w' = w"
    by blast+
qed

lemma table_length: "kFooterSize \<le> length (table_bytes blocks fltr)"
  by (simp add: table_bytes_def)

lemma table_footer_decodes:
  "DecodeFooter (EncodeFooter (table_footer blocks fltr) []) =
    Inr ((table_footer blocks fltr)\<lparr>ft_stored_checksum := Crc32c (footer_body (table_footer blocks fltr))\<rparr>)"
  by (rule DecodeFooter_EncodeFooter) (simp add: table_footer_def)

lemma table_handles_in_bounds:
  assumes "length (table_bytes blocks fltr) \<le> max_file_size"
  shows "ok (ValidateHandleInBounds (ft_index_handle (table_footer blocks fltr))
      (of_nat (length (table_bytes blocks fltr))) what)"
    and "ok (ValidateHandleInBounds (ft_filter_handle (table_footer blocks fltr))
      (of_nat (length (table_bytes blocks fltr))) what)"
proof -
  let ?c = "table_bytes blocks fltr"
  have size: "unat (of_nat (length ?c) :: u64) = length ?c"
    by (rule max_file_size_64 [OF assms])
  have parts: "length (data_bytes blocks) + length (filter_bytes fltr) +
      length (block_bytes (index.encs (index_of 0 blocks))) \<le> length ?c"
    by (simp add: table_bytes_def)
  then have small: "unat (of_nat n :: u64) = n" if "n \<le> length ?c" for n
    using that assms by (intro max_file_size_64) simp
  show "ok (ValidateHandleInBounds (ft_index_handle (table_footer blocks fltr)) (of_nat (length ?c)) what)"
    unfolding ValidateHandleInBounds_correct size using parts
    by (simp add: table_footer_def small del: length_block_bytes of_nat_add)
  show "ok (ValidateHandleInBounds (ft_filter_handle (table_footer blocks fltr)) (of_nat (length ?c)) what)"
    unfolding ValidateHandleInBounds_correct size using parts
    by (simp add: table_footer_def small del: length_block_bytes of_nat_add)
qed

text \<open>The footer is read from the last bytes of the file.\<close>

lemma read_footer:
  assumes "files w (fd_path f) = Some (table_bytes blocks fltr)"
    and "length (table_bytes blocks fltr) \<le> max_file_size"
    and "ReadAt f (of_nat (length (table_bytes blocks fltr)) - of_nat kFooterSize) kFooterSize w = (s, out, short, w')"
  shows "files w' = files w" and "ok s \<Longrightarrow> out = EncodeFooter (table_footer blocks fltr) [] \<and> \<not> short"
    and "\<not> ok s \<Longrightarrow> IsIOError s" and "faults w = [] \<Longrightarrow> ok s \<and> w' = w"
proof -
  let ?c = "table_bytes blocks fltr"
  let ?off = "of_nat (length ?c) - of_nat kFooterSize :: u64"
  have off: "unat ?off = length ?c - kFooterSize"
    using unat_diff_small [of kFooterSize "of_nat (length ?c)"] max_file_size_64 [OF assms(2)] table_length
    by simp
  then have le: "unat ?off \<le> length ?c" by simp
  note effect = ReadAt_content [OF assms(3,1,2) le]
  have split: "?c = (data_bytes blocks @ filter_bytes fltr @ block_bytes (index.encs (index_of 0 blocks))) @
      EncodeFooter (table_footer blocks fltr) []"
    by (simp add: table_bytes_def)
  have "drop (unat ?off) ?c = EncodeFooter (table_footer blocks fltr) []"
    unfolding off by (subst (2) split) (simp add: table_bytes_def)
  then have slice: "take kFooterSize (drop (unat ?off) ?c) = EncodeFooter (table_footer blocks fltr) []"
    by simp
  show "files w' = files w" "\<not> ok s \<Longrightarrow> IsIOError s"
    by (rule effect(1), erule effect(3))
  show "ok s \<Longrightarrow> out = EncodeFooter (table_footer blocks fltr) [] \<and> \<not> short"
    using effect(2) slice by simp
  show "faults w = [] \<Longrightarrow> ok s \<and> w' = w"
    using ReadAt_no_faults [OF _ assms(1,2) le, of kFooterSize] assms(3) by simp
qed

theorem SstReader_Open_table:
  assumes "SstReader_Open path file_id w = (s, out, w')" and "files w path = Some c"
    and "table_file c blocks fltr"
  shows "files w' = files w" and "ok s \<Longrightarrow> \<exists>rd. out = Some rd \<and> reads_table rd path file_id blocks fltr"
    and "\<not> ok s \<Longrightarrow> IsIOError s \<and> out = None" and "faults w = [] \<Longrightarrow> ok s \<and> w' = w"
proof -
  have c: "c = table_bytes blocks fltr" and len: "length (table_bytes blocks fltr) \<le> max_file_size"
    and wf: "well_formed_blocks blocks"
    using assms(3) unfolding table_file_def by blast+
  obtain s1 fo w1 where op: "OpenRead path w = (s1, fo, w1)" by (rule prod_cases3)
  note e1 = OpenRead_effect [OF op]
  let ?f = "\<lparr>fd_path = path, fd_append = False, fd_pos = 0\<rparr>"
  obtain s2 n w2 where sz: "Size ?f w1 = (s2, n, w2)" by (rule prod_cases3)
  have file1: "files w1 (fd_path ?f) = Some c"
    using e1(1) assms(2) by simp
  note e2 = files_Size [OF sz] Size_ok [OF sz _ file1] Size_error [OF sz]
  obtain s3 buf short w3 where ft: "ReadAt ?f (of_nat (length c) - of_nat kFooterSize) kFooterSize w2 = (s3, buf, short, w3)"
    by (rule prod_cases4)
  have file2: "files w2 (fd_path ?f) = Some (table_bytes blocks fltr)"
    using e2(1) file1 c by simp
  note e3 = read_footer [OF file2 len ft [unfolded c]]
  define foot where "foot = (table_footer blocks fltr)\<lparr>ft_stored_checksum := Crc32c (footer_body (table_footer blocks fltr))\<rparr>"
  define rd where "rd = \<lparr>sr_file = ?f, sr_footer = foot, sr_index = [], sr_filter = [],
    sr_file_size = of_nat (length c), sr_file_id = file_id, sr_filter_checks = 0,
    sr_filter_rejections = 0, sr_cache_hits = 0, sr_cache_misses = 0, sr_data_blocks_read = 0\<rparr>"
  obtain s4 rd4 w4 where li: "load_index rd w3 = (s4, rd4, w4)" by (rule prod_cases3)
  have file3: "files w3 (fd_path (sr_file rd)) = Some c"
    using e3(1) file2 c by (simp add: rd_def)
  have e4: "files w4 = files w3" "ok s4 \<Longrightarrow> rd4 = rd\<lparr>sr_index := index_of 0 blocks\<rparr>"
    "\<not> ok s4 \<Longrightarrow> IsIOError s4" "faults w3 = [] \<Longrightarrow> ok s4 \<and> w4 = w3"
    using load_index_effect [OF li file3 assms(3)] by (simp_all add: rd_def foot_def)
  obtain s5 rd5 w5 where lf: "load_filter (rd\<lparr>sr_index := index_of 0 blocks\<rparr>) w4 = (s5, rd5, w5)" by (rule prod_cases3)
  have file4: "files w4 (fd_path (sr_file (rd\<lparr>sr_index := index_of 0 blocks\<rparr>))) = Some c"
    using e4(1) file3 by simp
  have e5: "files w5 = files w4" "ok s5 \<Longrightarrow> rd5 = rd\<lparr>sr_index := index_of 0 blocks, sr_filter := fltr\<rparr>"
    "\<not> ok s5 \<Longrightarrow> IsIOError s5" "faults w4 = [] \<Longrightarrow> ok s5 \<and> w5 = w4"
    using load_filter_effect [OF lf file4 assms(3)] by (simp_all add: rd_def foot_def)
  have not_small: "\<not> (of_nat (length c) :: u64) < of_nat kFooterSize"
    using max_file_size_64 [OF len] table_length [of blocks fltr] max_file_size_64 [of kFooterSize]
    by (simp add: word_less_nat_alt c max_file_size_def kFooterSize_def)
  have bounds: "ok (ValidateHandleInBounds (ft_index_handle foot) (of_nat (length c)) what)"
    "ok (ValidateHandleInBounds (ft_filter_handle foot) (of_nat (length c)) what)" for what
    using table_handles_in_bounds [OF len] by (simp_all add: c foot_def)
  have dec: "DecodeFooter (EncodeFooter (table_footer blocks fltr) []) = Inr foot"
    by (simp add: table_footer_decodes foot_def)
  have run: "(s, out, w') =
      (if \<not> ok s1 then (s1, None, w1)
       else if \<not> ok s2 then (s2, None, w2)
       else if \<not> ok s3 then (s3, None, w3)
       else if \<not> ok s4 then (s4, None, w4)
       else if \<not> ok s5 then (s5, None, w5)
       else (status_OK, Some (rd\<lparr>sr_index := index_of 0 blocks, sr_filter := fltr\<rparr>), w5))"
  proof (cases "ok s1")
    case False
    with assms(1) op e1(3) show ?thesis by (simp add: SstReader_Open_def)
  next
    case ok1: True
    then have fo: "fo = Some ?f" using e1(2) by simp
    show ?thesis
    proof (cases "ok s2")
      case False
      with assms(1) op fo sz ok1 show ?thesis by (simp add: SstReader_Open_def)
    next
      case ok2: True
      then have n: "n = of_nat (length c)" using e2(2) by simp
      show ?thesis
      proof (cases "ok s3")
        case False
        with assms(1) op fo sz ok1 ok2 n ft not_small show ?thesis by (simp add: SstReader_Open_def)
      next
        case ok3: True
        have "(s, out, w') = (case load_index rd w3 of (s, rd, w) \<Rightarrow>
            if \<not> ok s then (s, None, w)
            else case load_filter rd w of (s, rd, w) \<Rightarrow>
              if \<not> ok s then (s, None, w) else (status_OK, Some rd, w))"
          using assms(1) op fo sz ok1 ok2 n ft not_small ok3 e3(2) [OF ok3] dec bounds
          by (simp add: SstReader_Open_def rd_def Let_def)
        then show ?thesis
          using li e4(2) lf e5(2) ok1 ok2 ok3 by (cases "ok s4"; cases "ok s5") simp_all
      qed
    qed
  qed
  have frames: "files w1 = files w" "files w2 = files w" "files w3 = files w" "files w4 = files w" "files w5 = files w"
    using e1(1) e2(1) e3(1) e4(1) e5(1) by simp_all
  have errs: "\<not> ok s1 \<Longrightarrow> IsIOError s1" "\<not> ok s2 \<Longrightarrow> IsIOError s2" "\<not> ok s3 \<Longrightarrow> IsIOError s3"
    "\<not> ok s4 \<Longrightarrow> IsIOError s4" "\<not> ok s5 \<Longrightarrow> IsIOError s5"
    using e1(3) e2(3) e3(3) e4(3) e5(3) by blast+
  show "files w' = files w" "\<not> ok s \<Longrightarrow> IsIOError s \<and> out = None"
    using run frames errs by (simp_all split: if_splits)
  have "reads_table (rd\<lparr>sr_index := index_of 0 blocks, sr_filter := fltr\<rparr>) path file_id blocks fltr"
    by (simp add: reads_table_def rd_def c wf)
  with run show "ok s \<Longrightarrow> \<exists>rd. out = Some rd \<and> reads_table rd path file_id blocks fltr"
    by (auto split: if_splits)
  assume nf: "faults w = []"
  have "ok s1 \<and> w1 = w"
    using OpenRead_no_faults [OF nf assms(2)] op by simp
  moreover from this have "ok s2 \<and> w2 = w"
    using Size_no_faults [of w ?f c] nf file1 sz by simp
  ultimately show "ok s \<and> w' = w"
    using nf run e3(4) e4(4) e5(4) by simp
qed

subsection \<open>Finding the block and scanning it\<close>

definition entries_map :: "sst_entry list \<Rightarrow> layer" where
  "entries_map es = map_of (map (\<lambda>e. (se_key e,
     \<lparr>me_sequence = se_sequence e, me_type = se_type e, me_value = se_value e\<rparr>)) es)"

lemma entries_map_simps [simp]:
  "entries_map [] = Map.empty"
  "entries_map (e # es) = (entries_map es)(se_key e \<mapsto>
     \<lparr>me_sequence = se_sequence e, me_type = se_type e, me_value = se_value e\<rparr>)"
  "entries_map (es @ fs) = entries_map fs ++ entries_map es"
  by (simp_all add: entries_map_def)

lemma entries_map_None: "key \<notin> se_key ` set es \<Longrightarrow> entries_map es key = None"
  by (auto simp: entries_map_def map_of_eq_None_iff image_iff)

lemma scan_block_encs:
  assumes "\<forall>e\<in>set es. entry_valid e" and "sorted_wrt (<) (map se_key es)"
  shows "scan_block (entries.encs es) key v q = (status_OK, lookup_in (entries_map es) key v q)"
  using assms
proof (induction es)
  case Nil
  then show ?case by (simp add: scan_block.simps [of "[]"])
next
  case (Cons e es)
  define bs where "bs = entries.encs (e # es)"
  have ne: "bs \<noteq> []"
    using entries.enc_not_Nil [of e] Cons.prems(1) by (simp add: bs_def)
  have dec: "DecodeEntry bs = Inr (e, entries.encs es)"
    using DecodeEntry_enc [of e] Cons.prems(1) by (simp add: bs_def)
  have step: "scan_block (entries.encs (e # es)) key v q =
      (if se_key e = key
       then if se_type e = kTombstone then (status_OK, kDeleted, v, se_sequence e)
            else (status_OK, kFound, se_value e, se_sequence e)
       else if key < se_key e then (status_OK, kLookupNotFound, v, q)
       else scan_block (entries.encs es) key v q)"
    unfolding bs_def [symmetric] scan_block.simps [of bs] using ne dec by simp
  note step = step [unfolded list.map concat.simps]
  consider "se_key e = key" | "key < se_key e" | "se_key e < key"
    by (meson linorder_less_linear)
  then show ?case
  proof cases
    case 1
    then show ?thesis by (simp add: step lookup_in_def)
  next
    case 2
    then have "entries_map (e # es) key = None"
      using Cons.prems(2) by (intro entries_map_None) (auto dest: order.strict_trans)
    with 2 show ?thesis
      by (simp add: step lookup_in_not_found del: entries_map_simps)
  next
    case 3
    have "lookup_in (entries_map (e # es)) key v q = lookup_in (entries_map es) key v q"
      using 3 by (auto simp: lookup_in_def)
    moreover have "scan_block (entries.encs (e # es)) key v q = scan_block (entries.encs es) key v q"
      unfolding list.map concat.simps step using 3 by (metis order_less_asym order_less_irrefl)
    moreover have "scan_block (entries.encs es) key v q = (status_OK, lookup_in (entries_map es) key v q)"
      using Cons by simp
    ultimately show ?thesis by (simp only:)
  qed
qed

lemma last_key_bound:
  "sorted_wrt (<) (map se_key b) \<Longrightarrow> e \<in> set b \<Longrightarrow> se_key e \<le> se_key (last b)"
proof (induction b)
  case (Cons x b)
  show ?case
  proof (cases "b = []")
    case False
    with Cons show ?thesis by (auto intro: order.strict_implies_order)
  qed (use Cons.prems in simp)
qed simp

lemma find_block:
  assumes "well_formed_blocks blocks"
  shows "case List.find (\<lambda>e. \<not> ie_last_key e < key) (index_of off blocks) of
      None \<Rightarrow> entries_map (concat blocks) key = None
    | Some e \<Rightarrow> \<exists>i<length blocks. e = index_of off blocks ! i \<and>
        entries_map (concat blocks) key = entries_map (blocks ! i) key"
  using assms
proof (induction blocks arbitrary: off)
  case Nil
  then show ?case by simp
next
  case (Cons b bs)
  have wf: "well_formed_blocks bs" and b: "b \<noteq> []" "sorted_wrt (<) (map se_key b)"
    and later: "\<forall>x\<in>set b. \<forall>y\<in>set (concat bs). se_key x < se_key y"
    using Cons.prems by (auto simp: well_formed_blocks_def sorted_wrt_append)
  show ?case
  proof (cases "se_key (last b) < key")
    case False
    then have "entries_map (concat bs) key = None"
      using later b(1) by (intro entries_map_None) (fastforce dest: bspec [OF _ last_in_set])
    then have "entries_map (concat (b # bs)) key = entries_map b key"
      by (simp add: map_add_def split: option.split)
    with False show ?thesis by force
  next
    case True
    then have "entries_map b key = None"
      using last_key_bound [OF b(2)] by (intro entries_map_None) (auto dest: order.strict_trans1)
    then have same: "entries_map (concat (b # bs)) key = entries_map (concat bs) key"
      by (simp add: map_add_def)
    let ?next = "off + length (block_bytes (entries.encs b))"
    show ?thesis
    proof (cases "List.find (\<lambda>e. \<not> ie_last_key e < key) (index_of ?next bs)")
      case None
      with Cons.IH [OF wf, of ?next] True same show ?thesis
        by (simp del: length_block_bytes concat.simps)
    next
      case (Some e)
      with Cons.IH [OF wf, of ?next] obtain i where "i < length bs" "e = index_of ?next bs ! i"
        "entries_map (concat bs) key = entries_map (bs ! i) key" by auto
      with Some True same show ?thesis
        by (simp del: length_block_bytes concat.simps) (intro exI [of _ "Suc i"], simp)
    qed
  qed
qed

lemma sorted_block:
  "sorted_wrt (<) (map se_key (concat blocks)) \<Longrightarrow> b \<in> set blocks \<Longrightarrow> sorted_wrt (<) (map se_key b)"
  by (induction blocks) (auto simp: sorted_wrt_append)

lemma length_index_of [simp]: "length (index_of off bs) = length bs"
  by (induction bs arbitrary: off) simp_all

lemma index_of_nth:
  "i < length bs \<Longrightarrow> index_of off bs ! i =
    \<lparr>ie_last_key = se_key (last (bs ! i)),
     ie_handle = handle_at (off + length (data_bytes (take i bs))) (entries.encs (bs ! i))\<rparr>"
proof (induction bs arbitrary: off i)
  case (Cons b bs)
  then show ?case
    by (cases i) (simp_all add: handle_at_def data_bytes_def add.assoc)
qed simp

lemma data_bytes_split:
  "i < length bs \<Longrightarrow> data_bytes bs =
    data_bytes (take i bs) @ block_bytes (entries.encs (bs ! i)) @ data_bytes (drop (Suc i) bs)"
  by (subst id_take_nth_drop) (simp_all add: data_bytes_def)

lemma block_offsets_increase:
  assumes "i < j" and "j < length bs"
  shows "length (data_bytes (take i bs)) < length (data_bytes (take j bs))"
proof -
  have "length (data_bytes (take i bs)) < length (data_bytes (take (Suc i) bs))"
    using assms by (simp add: take_Suc_conv_app_nth data_bytes_snoc)
  also have "take j bs = take (Suc i) bs @ take (j - Suc i) (drop (Suc i) bs)"
    using take_add [of "Suc i" "j - Suc i" bs] assms(1) by simp
  then have "length (data_bytes (take (Suc i) bs)) \<le> length (data_bytes (take j bs))"
    by (simp add: data_bytes_def)
  finally show ?thesis .
qed

subsection \<open>The cache and the tables\<close>

text \<open>
  The cache is shared by the tables \<open>T\<close>, which are known by their file number: what it holds for a
  block of a table are that block's entries.
\<close>

definition coherent :: "(u64 \<rightharpoonup> sst_entry list list) \<Rightarrow> block_cache \<Rightarrow> bool" where
  "coherent T c \<longleftrightarrow> (\<forall>f blocks i bs. T f = Some blocks \<longrightarrow> i < length blocks \<longrightarrow>
     cache_view c (f, of_nat (length (data_bytes (take i blocks)))) = Some bs \<longrightarrow>
     bs = entries.encs (blocks ! i))"

definition good_cache :: "(u64 \<rightharpoonup> sst_entry list list) \<Rightarrow> block_cache option \<Rightarrow> bool" where
  "good_cache T cache \<longleftrightarrow>
     (case cache of
        None \<Rightarrow> True
      | Some c \<Rightarrow> cache_inv c \<and> unat (bc_capacity_bytes c) \<le> 2 ^ 63 \<and> coherent T c)"

lemma coherent_view: "coherent T c \<Longrightarrow> cache_view c' \<subseteq>\<^sub>m cache_view c \<Longrightarrow> coherent T c'"
  by (auto simp: coherent_def map_le_def dom_def)

lemma offset_inj:
  assumes "of_nat (length (data_bytes (take i bs))) = (of_nat (length (data_bytes (take j bs))) :: u64)"
    and "i < length bs" and "j < length bs" and "length (data_bytes bs) \<le> max_file_size"
  shows "i = j"
proof -
  have "length (data_bytes (take k bs)) \<le> max_file_size" if "k < length bs" for k
    using assms(4) data_bytes_split [OF that] by simp
  then have "length (data_bytes (take i bs)) = length (data_bytes (take j bs))"
    using assms(1-3) max_file_size_64 by metis
  then show ?thesis
    using block_offsets_increase [of i j bs] block_offsets_increase [of j i bs] assms(2,3)
    by (metis less_irrefl linorder_less_linear)
qed

lemma coherent_insert:
  assumes "coherent T c" and "cache_view c' \<subseteq>\<^sub>m
      (cache_view c)((f, of_nat (length (data_bytes (take i blocks)))) \<mapsto> entries.encs (blocks ! i))"
    and "T f = Some blocks" and "i < length blocks" and "length (data_bytes blocks) \<le> max_file_size"
  shows "coherent T c'"
  unfolding coherent_def
proof (intro allI impI)
  fix g :: u64 and bl :: "sst_entry list list" and j bs
  let ?k = "(g, of_nat (length (data_bytes (take j bl))) :: u64)"
  assume g: "T g = Some bl" "j < length bl" and view: "cache_view c' ?k = Some bs"
  then have new: "((cache_view c)((f, of_nat (length (data_bytes (take i blocks)))) \<mapsto> entries.encs (blocks ! i))) ?k = Some bs"
    using assms(2) by (auto simp: map_le_def dom_def)
  show "bs = entries.encs (bl ! j)"
  proof (cases "?k = (f, of_nat (length (data_bytes (take i blocks))))")
    case True
    then have "bl = blocks" "i = j"
      using g assms(3-5) offset_inj [of j blocks i] by auto
    with new True show ?thesis by simp
  next
    case False
    with new have "cache_view c ?k = Some bs" by (simp del: fun_upd_apply add: fun_upd_other)
    with assms(1) g show ?thesis unfolding coherent_def by blast
  qed
qed

lemma good_cache_lookup:
  assumes "good_cache T (Some c)" and "Cache_Lookup f off c = (hit, c')"
  shows "good_cache T (Some c')" and "hit = cache_view c (f, off)"
    and "cache_view c' = cache_view c"
proof -
  have inv: "cache_inv c" and rest: "unat (bc_capacity_bytes c) \<le> 2 ^ 63" "coherent T c"
    using assms(1) by (simp_all add: good_cache_def)
  have cap: "bc_capacity_bytes c' = bc_capacity_bytes c"
    using assms(2) by (auto simp: Cache_Lookup_def split: option.splits)
  have "cache_inv c' \<and> cache_view c' = cache_view c \<and> hit = cache_view c (f, off)"
  proof (cases hit)
    case None
    from Cache_Lookup_miss [OF inv assms(2) [unfolded None]] None show ?thesis by simp
  next
    case (Some b)
    from Cache_Lookup_hit [OF inv assms(2) [unfolded Some]] Some show ?thesis by simp
  qed
  with rest cap show "good_cache T (Some c')" "hit = cache_view c (f, off)" "cache_view c' = cache_view c"
    by (simp_all add: good_cache_def coherent_def)
qed

lemma good_cache_insert:
  assumes "good_cache T (Some c)" and "T f = Some blocks" and "i < length blocks"
    and "length (data_bytes blocks) \<le> max_file_size"
  shows "good_cache T (Some (Cache_Insert f (of_nat (length (data_bytes (take i blocks))))
    (entries.encs (blocks ! i)) c))"
proof -
  have "length (entries.encs (blocks ! i)) \<le> max_file_size"
    using assms(4) data_bytes_split [OF assms(3)] by simp
  then have small: "unat (bc_capacity_bytes c) + length (entries.encs (blocks ! i)) < 2 ^ 64"
    using assms(1) by (simp add: good_cache_def max_file_size_def)
  have inv: "cache_inv c" using assms(1) by (simp add: good_cache_def)
  note effect = Cache_Insert_effect [OF inv small, of f "of_nat (length (data_bytes (take i blocks)))"]
  have "coherent T (Cache_Insert f (of_nat (length (data_bytes (take i blocks))))
      (entries.encs (blocks ! i)) c)"
  proof (rule coherent_insert [where blocks = blocks])
    show "coherent T c" using assms(1) by (simp add: good_cache_def)
  qed (rule effect(3) assms(2-4))+
  with assms(1) effect(1,2) show ?thesis
    by (simp add: good_cache_def)
qed

subsection \<open>Lookups\<close>

text \<open>
  What every read of a table keeps: the files, the reader's table, the cache.  A failure is an I/O
  error, and there is none unless the system fails a call.
\<close>

definition read_keeps :: "(u64 \<rightharpoonup> sst_entry list list) \<Rightarrow> sst_reader \<Rightarrow> block_cache option \<Rightarrow> world \<Rightarrow>
    status \<Rightarrow> sst_reader \<Rightarrow> block_cache option \<Rightarrow> world \<Rightarrow> bool" where
  "read_keeps T rd cache w s rd' cache' w' \<longleftrightarrow>
     files w' = files w \<and> good_cache T cache' \<and> (cache' = None \<longleftrightarrow> cache = None) \<and>
     sr_file rd' = sr_file rd \<and> sr_index rd' = sr_index rd \<and> sr_filter rd' = sr_filter rd \<and>
     sr_file_size rd' = sr_file_size rd \<and> sr_file_id rd' = sr_file_id rd \<and>
     (\<not> ok s \<longrightarrow> IsIOError s) \<and> (faults w = [] \<longrightarrow> ok s \<and> w' = w)"

lemma read_keeps_reads_table:
  "read_keeps T rd cache w s rd' cache' w' \<Longrightarrow> reads_table rd p f blocks fltr \<Longrightarrow> reads_table rd' p f blocks fltr"
  by (simp add: read_keeps_def reads_table_def)

definition table_on_disk :: "sst_reader \<Rightarrow> string \<Rightarrow> u64 \<Rightarrow> sst_entry list list \<Rightarrow> bytes \<Rightarrow> world \<Rightarrow> bool" where
  "table_on_disk rd path f blocks fltr w \<longleftrightarrow>
     reads_table rd path f blocks fltr \<and> files w path = Some (table_bytes blocks fltr) \<and>
     length (table_bytes blocks fltr) \<le> max_file_size"

lemma ReadDataBlock_content:
  assumes "ReadDataBlock rd (ie_handle (index_of 0 blocks ! i)) cache w = (s, out, rd', cache', w')"
    and "table_on_disk rd path f blocks fltr w" and "i < length blocks"
    and "T f = Some blocks" and "good_cache T cache"
  shows "read_keeps T rd cache w s rd' cache' w'" and "ok s \<Longrightarrow> out = entries.encs (blocks ! i)"
proof -
  let ?off = "length (data_bytes (take i blocks))"
  let ?d = "entries.encs (blocks ! i)"
  have rd: "fd_path (sr_file rd) = path" "sr_file_id rd = f"
    "sr_file_size rd = of_nat (length (table_bytes blocks fltr))"
    and disk: "files w path = Some (table_bytes blocks fltr)"
    and len: "length (table_bytes blocks fltr) \<le> max_file_size"
    using assms(2) by (simp_all add: table_on_disk_def reads_table_def)
  have handle: "ie_handle (index_of 0 blocks ! i) = handle_at ?off ?d"
    using index_of_nth [OF assms(3), of 0] by simp
  obtain post where split: "table_bytes blocks fltr = data_bytes (take i blocks) @ block_bytes ?d @ post"
    using data_bytes_split [OF assms(3)] by (simp add: table_bytes_def)
  have data: "length (data_bytes blocks) \<le> max_file_size"
    using len by (simp add: table_bytes_def)
  obtain hit c1 where look: "(case cache of None \<Rightarrow> (None, None)
      | Some c \<Rightarrow> (case Cache_Lookup (sr_file_id rd) (bh_offset (handle_at ?off ?d)) c of (hit, c) \<Rightarrow> (hit, Some c))) = (hit, c1)"
    by fastforce
  have c1: "good_cache T c1" "c1 = None \<longleftrightarrow> cache = None" "hit = Some bs \<Longrightarrow> bs = ?d" for bs
  proof (atomize (full), cases cache)
    case None
    with look assms(5) show "good_cache T c1 \<and> (c1 = None) = (cache = None) \<and> (hit = Some bs \<longrightarrow> bs = ?d)"
      by auto
  next
    case (Some c)
    obtain c' where l: "Cache_Lookup (sr_file_id rd) (bh_offset (handle_at ?off ?d)) c = (hit, c')" "c1 = Some c'"
      using look Some by (auto split: prod.splits)
    note g = good_cache_lookup [OF assms(5) [unfolded Some] l(1)]
    have "bs = ?d" if "hit = Some bs"
      using that g(2) assms(3-5) Some rd(2) by (auto simp: good_cache_def coherent_def handle_at_def)
    with g(1) l(2) Some show "good_cache T c1 \<and> (c1 = None) = (cache = None) \<and> (hit = Some bs \<longrightarrow> bs = ?d)"
      by simp
  qed
  note run = assms(1) [unfolded handle ReadDataBlock_def look prod.case Let_def]
  show "read_keeps T rd cache w s rd' cache' w'" "ok s \<Longrightarrow> out = ?d"
  proof (atomize (full), cases hit)
    case (Some bs)
    with run c1 assms(5) show "read_keeps T rd cache w s rd' cache' w' \<and> (ok s \<longrightarrow> out = ?d)"
      by (auto simp: read_keeps_def)
  next
    case None
    obtain s1 bs w1 where r: "ReadBlock rd (handle_at ?off ?d) w = (s1, bs, w1)"
      by (rule prod_cases3)
    note b = ReadBlock_content [OF r, unfolded rd(1,3), OF disk [unfolded split] _ len [unfolded split]]
    have b: "files w1 = files w" "ok s1 \<Longrightarrow> bs = ?d" "\<not> ok s1 \<Longrightarrow> IsIOError s1" "faults w = [] \<Longrightarrow> ok s1 \<and> w1 = w"
      using b split by simp_all
    show "read_keeps T rd cache w s rd' cache' w' \<and> (ok s \<longrightarrow> out = ?d)"
    proof (cases "ok s1")
      case False
      with run None r have "s = s1" "rd' = rd" "cache' = c1" "w' = w1"
        by simp_all
      with b False c1 show ?thesis by (auto simp: read_keeps_def)
    next
      case True
      show ?thesis
      proof (cases c1)
        case no: None
        with run None r True have "s = status_OK" "out = bs" "cache' = None" "w' = w1"
          "rd' = rd\<lparr>sr_data_blocks_read := sr_data_blocks_read rd + 1\<rparr>"
          by simp_all
        with b True c1 no show ?thesis by (auto simp: read_keeps_def)
      next
        case c: (Some c)
        with run None r True b(2) have res: "s = status_OK" "out = bs" "w' = w1"
          "cache' = Some (Cache_Insert f (of_nat ?off) ?d c)"
          "rd' = rd\<lparr>sr_data_blocks_read := sr_data_blocks_read rd + 1,
                  sr_cache_misses := sr_cache_misses rd + 1\<rparr>"
          by (auto simp: handle_at_def rd(2))
        have "good_cache T cache'"
          unfolding res(4) using c1(1) c by (intro good_cache_insert assms(3,4) data) simp
        with res b True c1 c show ?thesis by (auto simp: read_keeps_def)
      qed
    qed
  qed
qed

lemma KeyMayMatch_trap: "KeyMayMatch k fltr = None \<longleftrightarrow> KeyMayMatch k' fltr = None"
  by (auto simp: KeyMayMatch_def Let_def)

lemma filter_for_answers:
  assumes "filter_for bits es fltr" and "fltr \<noteq> []"
  obtains b where "KeyMayMatch key fltr = Some b" "\<not> b \<Longrightarrow> entries_map es key = None"
proof -
  have built: "BuildFilter (map se_key es) bits = Some fltr" and "es \<noteq> []"
    using assms by (auto simp: filter_for_def split: if_splits)
  note hits = BuildFilter_no_false_negatives [OF built]
  have "KeyMayMatch (se_key (hd es)) fltr \<noteq> None"
    using hits [of "se_key (hd es)"] \<open>es \<noteq> []\<close> by simp
  then obtain b where b: "KeyMayMatch key fltr = Some b"
    using KeyMayMatch_trap [of key fltr "se_key (hd es)"] by (cases "KeyMayMatch key fltr") auto
  moreover have "entries_map es key = None" if "\<not> b"
  proof (rule entries_map_None)
    show "key \<notin> se_key ` set es"
      using hits [of key] b that by auto
  qed
  ultimately show ?thesis using that by blast
qed

text \<open>\<open>Get\<close> after the filter.\<close>

lemma read_keeps_counters:
  "read_keeps T (rd\<lparr>sr_filter_checks := n\<rparr>) cache w s rd' cache' w' = read_keeps T rd cache w s rd' cache' w'"
  "table_on_disk (rd\<lparr>sr_filter_checks := n\<rparr>) path f blocks fltr w = table_on_disk rd path f blocks fltr w"
  by (simp_all add: read_keeps_def table_on_disk_def reads_table_def)

lemma Get_block:
  assumes "(case index_lower_bound (sr_index rd) key of
       None \<Rightarrow> Some (status_OK, (kLookupNotFound, v, q), rd, cache, w)
     | Some it \<Rightarrow>
         (case ReadDataBlock rd (ie_handle it) cache w of
            (s, entries, rd, cache, w) \<Rightarrow>
              if \<not> ok s then Some (s, (kLookupNotFound, v, q), rd, cache, w)
              else case scan_block entries key v q of (s, out) \<Rightarrow> Some (s, out, rd, cache, w))) =
     Some (s, out, rd', cache', w')"
    and "table_on_disk rd path f blocks fltr w" and "T f = Some blocks" and "good_cache T cache"
  shows "read_keeps T rd cache w s rd' cache' w' \<and>
    (ok s \<longrightarrow> out = lookup_in (entries_map (concat blocks)) key v q)"
proof -
  have index: "sr_index rd = index_of 0 blocks" and wf: "well_formed_blocks blocks"
    using assms(2) by (simp_all add: table_on_disk_def reads_table_def)
  note find = find_block [OF wf, of key 0]
  show ?thesis
  proof (cases "index_lower_bound (index_of 0 blocks) key")
    case None
    with find have "entries_map (concat blocks) key = None"
      by (simp add: index_lower_bound_def)
    with None assms(1,4) index show ?thesis
      by (auto simp: read_keeps_def lookup_in_not_found)
  next
    case (Some it)
    with find obtain i where i: "i < length blocks" "it = index_of 0 blocks ! i"
      "entries_map (concat blocks) key = entries_map (blocks ! i) key"
      by (auto simp: index_lower_bound_def)
    obtain s1 bs rd1 c1 w1 where r: "ReadDataBlock rd (ie_handle it) cache w = (s1, bs, rd1, c1, w1)"
      by (rule prod_cases5)
    note effect = ReadDataBlock_content [where T = T, OF r [unfolded i(2)] assms(2) i(1) assms(3,4)]
    have "\<forall>e\<in>set (blocks ! i). entry_valid e" "sorted_wrt (<) (map se_key (blocks ! i))"
      using wf nth_mem [OF i(1)] sorted_block [OF _ nth_mem [OF i(1)]]
      by (auto simp: well_formed_blocks_def)
    then have scan: "scan_block (entries.encs (blocks ! i)) key v q =
        (status_OK, lookup_in (entries_map (concat blocks)) key v q)"
      by (simp add: scan_block_encs lookup_in_def i(3))
    show ?thesis
      using assms(1) Some r effect scan index by (cases "ok s1") (auto simp: read_keeps_def)
  qed
qed

theorem SstReader_Get_table:
  assumes "table_on_disk rd path f blocks fltr w" and "filter_for bits (concat blocks) fltr"
    and "T f = Some blocks" and "good_cache T cache"
  shows "\<exists>s out rd' cache' w'. SstReader_Get rd key v q cache w = Some (s, out, rd', cache', w') \<and>
    read_keeps T rd cache w s rd' cache' w' \<and>
    (ok s \<longrightarrow> out = lookup_in (entries_map (concat blocks)) key v q)"
proof -
  have fl: "sr_filter rd = fltr"
    using assms(1) by (simp add: table_on_disk_def reads_table_def)
  define rd1 where "rd1 = (if fltr \<noteq> [] then rd\<lparr>sr_filter_checks := sr_filter_checks rd + 1\<rparr> else rd)"
  have disk1: "table_on_disk rd1 path f blocks fltr w"
    using assms(1) unfolding rd1_def by (cases "fltr = []") (simp_all add: read_keeps_counters)
  have keeps1: "read_keeps T rd1 cache w s rd' cache' w' = read_keeps T rd cache w s rd' cache' w'" for s rd' cache' w'
    unfolding rd1_def by (cases "fltr = []") (simp_all add: read_keeps_counters)
  obtain b where b: "(if fltr \<noteq> [] then KeyMayMatch key fltr else Some True) = Some b"
    "\<not> b \<Longrightarrow> entries_map (concat blocks) key = None"
  proof (cases "fltr = []")
    case False
    from filter_for_answers [OF assms(2) False, of key] obtain b where
      "KeyMayMatch key fltr = Some b" "\<not> b \<Longrightarrow> entries_map (concat blocks) key = None"
      by blast
    with False that show ?thesis by simp
  qed (use that in auto)
  note run = SstReader_Get_def [where rd = rd and key = key and val = v and sequence = q and cache = cache and w = w,
      unfolded fl, unfolded b(1) option.case Let_def, folded rd1_def]
  show ?thesis
  proof (cases b)
    case False
    have "read_keeps T rd cache w status_OK (rd1\<lparr>sr_filter_rejections := sr_filter_rejections rd1 + 1\<rparr>) cache w"
      using assms(4) by (auto simp: read_keeps_def rd1_def)
    with run False b(2) show ?thesis
      by (simp add: lookup_in_not_found)
  next
    case True
    define out where "out = (case index_lower_bound (sr_index rd1) key of
       None \<Rightarrow> Some (status_OK, (kLookupNotFound, v, q), rd1, cache, w)
     | Some it \<Rightarrow>
         (case ReadDataBlock rd1 (ie_handle it) cache w of
            (s, entries, rd, cache, w) \<Rightarrow>
              if \<not> ok s then Some (s, (kLookupNotFound, v, q), rd, cache, w)
              else case scan_block entries key v q of (s, out) \<Rightarrow> Some (s, out, rd, cache, w)))"
    have "out \<noteq> None"
      by (auto simp: out_def split: option.split prod.split)
    then obtain s o' rd' cache' w' where o': "out = Some (s, o', rd', cache', w')"
      by auto
    have "SstReader_Get rd key v q cache w = out"
      using run True by (simp add: out_def)
    with o' Get_block [OF o' [unfolded out_def] disk1 assms(3,4)] show ?thesis
      by (simp add: keeps1)
  qed
qed

lemma ForEachEntry_loop_table:
  assumes "ForEachEntry_loop (drop i (index_of 0 blocks)) rd cache w = (s, es, rd', cache', w')"
    and "table_on_disk rd path f blocks fltr w" and "T f = Some blocks" and "good_cache T cache"
    and "i \<le> length blocks"
  shows "read_keeps T rd cache w s rd' cache' w' \<and> (\<exists>rest. concat (drop i blocks) = es @ rest) \<and>
    (ok s \<longrightarrow> es = concat (drop i blocks))"
  using assms
proof (induction "length blocks - i" arbitrary: i rd cache w es)
  case 0
  then have "drop i (index_of 0 blocks) = []"
    by (simp add: length_index_of)
  with 0 show ?case by (auto simp: read_keeps_def)
next
  case (Suc n)
  then have i: "i < length blocks" by simp
  then have first: "drop i (index_of 0 blocks) = index_of 0 blocks ! i # drop (Suc i) (index_of 0 blocks)"
    and firstb: "drop i blocks = blocks ! i # drop (Suc i) blocks"
    by (simp_all add: Cons_nth_drop_Suc length_index_of)
  obtain s1 bs rd1 c1 w1 where r: "ReadDataBlock rd (ie_handle (index_of 0 blocks ! i)) cache w = (s1, bs, rd1, c1, w1)"
    by (rule prod_cases5)
  note effect = ReadDataBlock_content [where T = T, OF r Suc.prems(2) i Suc.prems(3,4)]
  note run = Suc.prems(1) [unfolded first ForEachEntry_loop.simps r prod.case]
  show ?case
  proof (cases "ok s1")
    case False
    with run effect(1) show ?thesis by (auto simp: read_keeps_def)
  next
    case True
    have "\<forall>e\<in>set (blocks ! i). entry_valid e"
      using Suc.prems(2) nth_mem [OF i] by (auto simp: table_on_disk_def reads_table_def well_formed_blocks_def)
    then have dec: "decode_loop DecodeEntry bs = (blocks ! i, None, [])"
      using effect(2) [OF True] by (simp add: entries.decode_all)
    obtain es1 where rest: "ForEachEntry_loop (drop (Suc i) (index_of 0 blocks)) rd1 c1 w1 = (s, es1, rd', cache', w')"
      and es: "es = blocks ! i @ es1"
      using run True dec by (auto split: prod.splits)
    have disk1: "table_on_disk rd1 path f blocks fltr w1" and c1: "good_cache T c1"
      using Suc.prems(2) effect(1) by (auto simp: table_on_disk_def read_keeps_reads_table read_keeps_def reads_table_def)
    have "read_keeps T rd1 c1 w1 s rd' cache' w' \<and> (\<exists>rest. concat (drop (Suc i) blocks) = es1 @ rest) \<and>
      (ok s \<longrightarrow> es1 = concat (drop (Suc i) blocks))"
      using Suc.hyps(2) i by (intro Suc.hyps(1) [OF _ rest disk1 Suc.prems(3) c1]) auto
    with effect(1) True es firstb show ?thesis
      by (auto simp: read_keeps_def)
  qed
qed

theorem ForEachEntry_table:
  assumes "ForEachEntry rd cache w = (s, es, rd', cache', w')"
    and "table_on_disk rd path f blocks fltr w" and "T f = Some blocks" and "good_cache T cache"
  shows "read_keeps T rd cache w s rd' cache' w'"
    and "\<exists>rest. concat blocks = es @ rest" and "ok s \<Longrightarrow> es = concat blocks"
proof -
  have "sr_index rd = index_of 0 blocks"
    using assms(2) by (simp add: table_on_disk_def reads_table_def)
  then have "ForEachEntry_loop (drop 0 (index_of 0 blocks)) rd cache w = (s, es, rd', cache', w')"
    using assms(1) by (simp add: ForEachEntry_def)
  from ForEachEntry_loop_table [OF this assms(2-4)]
  show "read_keeps T rd cache w s rd' cache' w'" "\<exists>rest. concat blocks = es @ rest" "ok s \<Longrightarrow> es = concat blocks"
    by auto
qed

end
