(* ===== verification/Pebble_Wal_Reader.thy ===== *)
theory Pebble_Wal_Reader
  imports Pebble_Wal_Record Pebble_Files
begin

text \<open>
  Reading a write-ahead log (wal/reader.hpp, wal/reader.cpp).  \<open>ReadNext\<close> and \<open>Replay\<close> run on the
  operating system; \<open>log_dec\<close> says what one record of a byte string is, and \<open>log_scan\<close> what a whole
  log holds.  Shown here: \<open>Replay\<close> ends on every file and under every pattern of failing reads, what it
  delivers is always a prefix of the log's records, and if no read fails it is exactly \<open>log_scan\<close>.
\<close>

datatype read_result =
  ReadOk | ReadEndOfLog | ReadTruncated | ReadCorruption | ReadUnsupportedVersion

fun ReadResultName :: "read_result \<Rightarrow> string" where
  "ReadResultName ReadOk = ''Ok''"
| "ReadResultName ReadEndOfLog = ''EndOfLog''"
| "ReadResultName ReadTruncated = ''Truncated''"
| "ReadResultName ReadCorruption = ''Corruption''"
| "ReadResultName ReadUnsupportedVersion = ''UnsupportedVersion''"

record wal_reader =
  wrd_file :: posix_file
  wrd_exhausted :: bool
  wrd_terminal_result :: read_result
  wrd_bytes_consumed :: u64

definition WalReader_Open :: "string \<Rightarrow> world \<Rightarrow> status \<times> wal_reader option \<times> world" where
  "WalReader_Open path w =
     (case OpenRead path w of
        (s, None, w) \<Rightarrow> (s, None, w)
      | (s, Some file, w) \<Rightarrow>
          (status_OK, Some \<lparr>wrd_file = file, wrd_exhausted = False,
             wrd_terminal_result = ReadEndOfLog, wrd_bytes_consumed = 0\<rparr>, w))"

text \<open>\<open>exhausted_ = true; terminal_result_ = r; return terminal_result_;\<close>\<close>

definition terminate_with :: "read_result \<Rightarrow> posix_file \<Rightarrow> wal_reader \<Rightarrow> world \<Rightarrow>
    (read_result + wal_record) \<times> wal_reader \<times> world" where
  "terminate_with r file rd w =
     (Inl r, rd\<lparr>wrd_file := file, wrd_exhausted := True, wrd_terminal_result := r\<rparr>, w)"

text \<open>
  The result of \<open>ReadNext\<close> is the terminal on the left, or the record it returned with \<open>kOk\<close> on the
  right.  \<open>ReadPayload\<close> is its second half, from a valid header on.
\<close>

definition ReadPayload :: "decoded_header \<Rightarrow> bytes \<Rightarrow> posix_file \<Rightarrow> wal_reader \<Rightarrow> world \<Rightarrow>
    (read_result + wal_record) \<times> wal_reader \<times> world" where
  "ReadPayload decoded header_buf file rd w =
     (let payload_len = unat (dh_key_length decoded) + unat (dh_value_length decoded)
      in case (if 0 < payload_len then Read file payload_len w
               else (status_OK, [], False, file, w)) of
           (s, payload_buf, payload_short, file, w) \<Rightarrow>
             if \<not> ok s then terminate_with ReadCorruption file rd w
             else if payload_short then terminate_with ReadTruncated file rd w
             else
               case DecodeBody decoded header_buf payload_buf of
                 Inl _ \<Rightarrow> terminate_with ReadCorruption file rd w
               | Inr record \<Rightarrow>
                   (Inr record,
                    rd\<lparr>wrd_file := file, wrd_bytes_consumed := wrd_bytes_consumed rd +
                         of_nat (wal_kHeaderSize + payload_len)\<rparr>, w))"

definition ReadNext :: "wal_reader \<Rightarrow> world \<Rightarrow> (read_result + wal_record) \<times> wal_reader \<times> world" where
  "ReadNext rd w =
     (if wrd_exhausted rd then (Inl (wrd_terminal_result rd), rd, w)
      else
        case Read (wrd_file rd) wal_kHeaderSize w of
          (s, header_buf, header_short, file, w) \<Rightarrow>
            if \<not> ok s then terminate_with ReadCorruption file rd w
            else if header_buf = [] then terminate_with ReadEndOfLog file rd w
            else if header_short then terminate_with ReadTruncated file rd w
            else
              case DecodeHeader header_buf of
                Inl header_status \<Rightarrow>
                  terminate_with (if header_status = WalUnsupportedVersion
                    then ReadUnsupportedVersion else ReadCorruption) file rd w
              | Inr decoded \<Rightarrow> ReadPayload decoded header_buf file rd w)"

subsection \<open>What one record of a log is\<close>

definition log_dec :: "bytes \<Rightarrow> read_result + wal_record \<times> bytes" where
  "log_dec bs =
     (if bs = [] then Inl ReadEndOfLog
      else if length bs < wal_kHeaderSize then Inl ReadTruncated
      else case DecodeHeader (take wal_kHeaderSize bs) of
             Inl e \<Rightarrow> Inl (if e = WalUnsupportedVersion then ReadUnsupportedVersion else ReadCorruption)
           | Inr decoded \<Rightarrow>
               let payload_len = unat (dh_key_length decoded) + unat (dh_value_length decoded);
                   payload = take payload_len (drop wal_kHeaderSize bs)
               in if length payload < payload_len then Inl ReadTruncated
                  else case DecodeBody decoded (take wal_kHeaderSize bs) payload of
                         Inl _ \<Rightarrow> Inl ReadCorruption
                       | Inr record \<Rightarrow> Inr (record, drop (wal_kHeaderSize + payload_len) bs))"

lemma log_dec_shrinks: "log_dec bs = Inr (r, rest) \<Longrightarrow> length rest < length bs"
  by (auto simp: log_dec_def Let_def wal_kHeaderSize_def split: if_splits sum.splits)

lemma log_dec_header:
  assumes "length h = wal_kHeaderSize"
  shows "log_dec (h @ bs) =
    (case DecodeHeader h of
       Inl e \<Rightarrow> Inl (if e = WalUnsupportedVersion then ReadUnsupportedVersion else ReadCorruption)
     | Inr decoded \<Rightarrow>
         let payload_len = unat (dh_key_length decoded) + unat (dh_value_length decoded)
         in if length bs < payload_len then Inl ReadTruncated
            else case DecodeBody decoded h (take payload_len bs) of
                   Inl _ \<Rightarrow> Inl ReadCorruption
                 | Inr record \<Rightarrow> Inr (record, drop payload_len bs))"
proof -
  have "h @ bs \<noteq> []"
    using assms by (auto simp: wal_kHeaderSize_def)
  with assms show ?thesis
    by (simp add: log_dec_def Let_def min_def cong: if_cong split: sum.split)
qed

lemma header_of_lengths:
  "recoverable r \<Longrightarrow>
   unat (dh_key_length (header_of c r)) + unat (dh_value_length (header_of c r)) =
   length (wr_key r @ wr_value r)"
  by (simp add: header_of_def recoverable_def length_fits)

lemma wal_enc_split:
  assumes "recoverable r"
  obtains c h p where "wal_enc r = h @ p" "h = fixed32 c @ wal_header r" "length h = wal_kHeaderSize"
    "p = wr_key r @ wr_value r" "DecodeHeader h = Inr (header_of c r)"
    "DecodeBody (header_of c r) h p = Inr r"
proof
  define c where "c = Crc32c (wal_header r @ wr_key r @ wr_value r)"
  show "wal_enc r = (fixed32 c @ wal_header r) @ (wr_key r @ wr_value r)"
    using assms by (simp add: wal_enc_layout c_def)
  show "length (fixed32 c @ wal_header r) = wal_kHeaderSize"
    by (simp add: wal_kHeaderSize_def)
  show "DecodeHeader (fixed32 c @ wal_header r) = Inr (header_of c r)"
    using DecodeHeader_encoded [OF assms, of c "[]"] by simp
  show "DecodeBody (header_of c r) (fixed32 c @ wal_header r) (wr_key r @ wr_value r) = Inr r"
    using DecodeBody_encoded [OF assms refl, of c c] by (simp add: c_def)
qed (rule refl)+

lemma log_dec_enc:
  assumes "recoverable r"
  shows "log_dec (wal_enc r @ rest) = Inr (r, rest)"
proof -
  obtain c h p where enc: "wal_enc r = h @ p" and h: "length h = wal_kHeaderSize"
    and p: "p = wr_key r @ wr_value r" and dec: "DecodeHeader h = Inr (header_of c r)"
    "DecodeBody (header_of c r) h p = Inr r"
    by (rule wal_enc_split [OF assms])
  have "\<not> length (p @ rest) < length p"
    by simp
  with dec(2) show ?thesis
    unfolding enc append_assoc log_dec_header [OF h] dec(1)
    by (simp add: header_of_lengths [OF assms] p [symmetric] Let_def del: length_append)
qed

lemma log_dec_torn:
  assumes "recoverable r" and "0 < n" and "n < length (wal_enc r)"
  shows "log_dec (take n (wal_enc r)) = Inl ReadTruncated"
proof -
  obtain c h p where enc: "wal_enc r = h @ p" and h: "length h = wal_kHeaderSize"
    and p: "p = wr_key r @ wr_value r" and dec: "DecodeHeader h = Inr (header_of c r)"
    "DecodeBody (header_of c r) h p = Inr r"
    by (rule wal_enc_split [OF assms(1)])
  show ?thesis
  proof (cases "n < wal_kHeaderSize")
    case True
    then have "length (take n (wal_enc r)) < wal_kHeaderSize"
      by simp
    moreover have "take n (wal_enc r) \<noteq> []"
      using assms(2,3) by (cases "wal_enc r") auto
    ultimately show ?thesis
      unfolding log_dec_def by simp
  next
    case False
    define m where "m = n - wal_kHeaderSize"
    have "take n (wal_enc r) = h @ take m p" "m < length p"
      using False assms(3) by (simp_all add: enc h m_def)
    then show ?thesis
      by (simp add: log_dec_header [OF h] dec header_of_lengths [OF assms(1)] p [symmetric] Let_def
          del: length_append)
  qed
qed

interpretation wal: log_codec wal_enc log_dec recoverable ReadTruncated
  by unfold_locales (simp_all add: log_dec_enc log_dec_torn log_dec_shrinks)

subsection \<open>Reading records from the file\<close>

text \<open>
  \<open>ReadNext\<close> on the file is \<open>log_dec\<close> on its bytes from the reader's position, except that a read the
  system fails is reported as corruption.
\<close>

definition read_position :: "wal_reader \<Rightarrow> nat" where
  "read_position rd = fd_pos (wrd_file rd)"

lemma Read_payload_content:
  assumes "(if 0 < n then Read f n w else (status_OK, [], False, f, w)) = (s, out, short, f', w')"
    and "content w (fd_path f) = c"
  shows "files w' = files w" "fd_path f' = fd_path f"
    and "ok s \<Longrightarrow> out = take n (drop (fd_pos f) c) \<and> short = (length out < n) \<and>
      fd_pos f' = fd_pos f + length out"
    and "faults w = [] \<Longrightarrow> ok s \<and> faults w' = []"
proof -
  show "files w' = files w" "fd_path f' = fd_path f"
    "ok s \<Longrightarrow> out = take n (drop (fd_pos f) c) \<and> short = (length out < n) \<and>
      fd_pos f' = fd_pos f + length out"
    using assms Read_content [of f n w s out short f' w' c] by (auto split: if_splits)
  show "faults w = [] \<Longrightarrow> ok s \<and> faults w' = []"
    using assms Read_no_faults [of w f c n] by (auto split: if_splits)
qed

lemma ReadPayload_refines:
  assumes "ReadPayload d hdr f rd w = (res, rd', w')" and "content w (fd_path f) = c"
    and "DecodeHeader hdr = Inr d" and "length hdr = wal_kHeaderSize"
    and "fd_pos f \<le> length c" and "\<not> wrd_exhausted rd"
  shows "files w' = files w \<and> fd_path (wrd_file rd') = fd_path f \<and>
    (faults w = [] \<longrightarrow> faults w' = []) \<and>
    (case res of
       Inr r \<Rightarrow>
         log_dec (hdr @ drop (fd_pos f) c) = Inr (r, drop (read_position rd') c) \<and>
         \<not> wrd_exhausted rd' \<and>
         fd_pos f \<le> read_position rd' \<and> read_position rd' \<le> length c \<and>
         wrd_bytes_consumed rd' = wrd_bytes_consumed rd +
           of_nat (wal_kHeaderSize + (read_position rd' - fd_pos f))
     | Inl t \<Rightarrow>
         (log_dec (hdr @ drop (fd_pos f) c) = Inl t \<or> t = ReadCorruption \<and> faults w \<noteq> []) \<and>
         wrd_exhausted rd' \<and> wrd_terminal_result rd' = t \<and>
         wrd_bytes_consumed rd' = wrd_bytes_consumed rd)"
proof -
  define n where "n = unat (dh_key_length d) + unat (dh_value_length d)"
  obtain s out short f2 w2 where r:
    "(if 0 < n then Read f n w else (status_OK, [], False, f, w)) = (s, out, short, f2, w2)"
    by (rule prod_cases5)
  note run = assms(1) [unfolded ReadPayload_def, folded n_def, unfolded r prod.case Let_def,
      folded n_def, unfolded r prod.case]
  note effect = Read_payload_content [OF r assms(2)]
  note dec = log_dec_header [OF assms(4), of "drop (fd_pos f) c", unfolded assms(3) sum.case Let_def,
      folded n_def]
  consider "\<not> ok s" | "ok s" "short" | "ok s" "\<not> short" by blast
  then show ?thesis
  proof cases
    case 1
    with run have "(res, rd', w') = terminate_with ReadCorruption f2 rd w2"
      by simp
    moreover have "faults w \<noteq> []"
      using 1 effect(4) by blast
    ultimately show ?thesis
      using effect(1,2) by (simp add: terminate_with_def)
  next
    case 2
    with run have res: "(res, rd', w') = terminate_with ReadTruncated f2 rd w2"
      by simp
    from effect(3) 2 have "length (drop (fd_pos f) c) < n"
      by auto
    with dec have "log_dec (hdr @ drop (fd_pos f) c) = Inl ReadTruncated"
      by simp
    with res effect(1,2,4) show ?thesis
      by (simp add: terminate_with_def)
  next
    case 3
    note out = effect(3) [OF 3(1)]
    with 3 have full: "\<not> length (drop (fd_pos f) c) < n" and len: "length out = n"
      by auto
    have pos: "fd_pos f2 = fd_pos f + n" "fd_pos f + n \<le> length c"
      using out len full assms(5) by auto
    have parts: "take n (drop (fd_pos f) c) = out" "drop n (drop (fd_pos f) c) = drop (fd_pos f2) c"
      unfolding pos(1) drop_drop by (rule conjunct1 [OF out, symmetric], simp only: add.commute)
    have dec3: "log_dec (hdr @ drop (fd_pos f) c) =
        (case DecodeBody d hdr out of Inl _ \<Rightarrow> Inl ReadCorruption
         | Inr record \<Rightarrow> Inr (record, drop (fd_pos f2) c))"
      unfolding dec parts using full by simp
    show ?thesis
    proof (cases "DecodeBody d hdr out")
      case (Inl e)
      with run 3 have "(res, rd', w') = terminate_with ReadCorruption f2 rd w2"
        by simp
      with dec3 Inl effect(1,2,4) show ?thesis
        by (simp add: terminate_with_def)
    next
      case (Inr r)
      with run 3 have "(res, rd', w') = (Inr r, rd\<lparr>wrd_file := f2,
          wrd_bytes_consumed := wrd_bytes_consumed rd + of_nat (wal_kHeaderSize + n)\<rparr>, w2)"
        by simp
      with dec3 Inr effect(1,2,4) pos assms(6) show ?thesis
        by (simp add: read_position_def)
    qed
  qed
qed

lemma ReadNext_refines:
  assumes "ReadNext rd w = (res, rd', w')" and "\<not> wrd_exhausted rd"
    and "content w (fd_path (wrd_file rd)) = c" and "bs = drop (read_position rd) c"
  shows "files w' = files w \<and> fd_path (wrd_file rd') = fd_path (wrd_file rd) \<and>
    (faults w = [] \<longrightarrow> faults w' = []) \<and>
    (case res of
       Inr r \<Rightarrow>
         log_dec bs = Inr (r, drop (read_position rd') c) \<and> \<not> wrd_exhausted rd' \<and>
         read_position rd < read_position rd' \<and> read_position rd' \<le> length c \<and>
         wrd_bytes_consumed rd' = wrd_bytes_consumed rd + of_nat (read_position rd' - read_position rd)
     | Inl t \<Rightarrow>
         (log_dec bs = Inl t \<or> t = ReadCorruption \<and> faults w \<noteq> []) \<and> wrd_exhausted rd' \<and>
         wrd_terminal_result rd' = t \<and> wrd_bytes_consumed rd' = wrd_bytes_consumed rd)"
proof -
  let ?f = "wrd_file rd"
  have len: "wal_kHeaderSize = 26" by (simp add: wal_kHeaderSize_def)
  obtain s hdr short f1 w1 where r: "Read ?f wal_kHeaderSize w = (s, hdr, short, f1, w1)"
    by (rule prod_cases5)
  note effect = Read_content [OF r assms(3)]
  have nf: "faults w = [] \<Longrightarrow> ok s \<and> faults w1 = []"
    using r Read_no_faults [of w ?f c wal_kHeaderSize] assms(3) by auto
  note run = assms(1) [unfolded ReadNext_def r prod.case]
  consider "\<not> ok s" | "ok s" "short" | "ok s" "\<not> short" by blast
  then show ?thesis
  proof cases
    case 1
    with run assms(2) effect(1,2) nf show ?thesis
      by (auto simp: terminate_with_def)
  next
    case 2
    note out = effect(3) [OF 2(1)]
    have "length bs < wal_kHeaderSize" "hdr = bs"
      using out 2(2) assms(4) by (auto simp: read_position_def)
    then have "log_dec bs = Inl (if hdr = [] then ReadEndOfLog else ReadTruncated)"
      by (simp add: log_dec_def)
    with run assms(2) effect(1,2) nf 2 show ?thesis
      by (auto simp: terminate_with_def split: if_splits)
  next
    case 3
    note out = effect(3) [OF 3(1)]
    have hdr: "length hdr = wal_kHeaderSize" "hdr \<noteq> []"
      using out 3(2) by (auto simp: len)
    have pos: "fd_pos f1 = read_position rd + wal_kHeaderSize" "fd_pos f1 \<le> length c"
      using out hdr by (auto simp: read_position_def)
    have bs: "bs = hdr @ drop (fd_pos f1) c"
      using out hdr assms(4) unfolding pos(1) read_position_def
      by (metis add.commute append_take_drop_id drop_drop)
    show ?thesis
    proof (cases "DecodeHeader hdr")
      case (Inl e)
      have "log_dec bs = Inl (if e = WalUnsupportedVersion then ReadUnsupportedVersion else ReadCorruption)"
        unfolding bs log_dec_header [OF hdr(1)] Inl by simp
      with Inl run assms(2) effect(1,2) nf 3 hdr(2) show ?thesis
        by (auto simp: terminate_with_def)
    next
      case (Inr d)
      have "ReadPayload d hdr f1 rd w1 = (res, rd', w')"
        using Inr run assms(2) 3 hdr(2) by simp
      moreover have "content w1 (fd_path f1) = c"
        using effect(1,2) assms(3) by (simp add: content_def)
      ultimately have "files w' = files w1 \<and> fd_path (wrd_file rd') = fd_path f1 \<and>
        (faults w1 = [] \<longrightarrow> faults w' = []) \<and>
        (case res of
           Inr r \<Rightarrow>
             log_dec bs = Inr (r, drop (read_position rd') c) \<and> \<not> wrd_exhausted rd' \<and>
             fd_pos f1 \<le> read_position rd' \<and> read_position rd' \<le> length c \<and>
             wrd_bytes_consumed rd' = wrd_bytes_consumed rd +
               of_nat (wal_kHeaderSize + (read_position rd' - fd_pos f1))
         | Inl t \<Rightarrow>
             (log_dec bs = Inl t \<or> t = ReadCorruption \<and> faults w1 \<noteq> []) \<and>
             wrd_exhausted rd' \<and> wrd_terminal_result rd' = t \<and>
             wrd_bytes_consumed rd' = wrd_bytes_consumed rd)"
        unfolding bs using Inr hdr(1) pos(2) assms(2) by (rule ReadPayload_refines)
      then show ?thesis
        using effect(1,2) nf pos(1) len by (auto split: sum.splits)
    qed
  qed
qed

subsection \<open>Replaying the whole log\<close>

lemma ReadNext_record_progress:
  assumes "ReadNext rd w = (Inr r, rd', w')"
  shows "length (content w' (fd_path (wrd_file rd'))) - read_position rd' <
    length (content w (fd_path (wrd_file rd))) - read_position rd"
proof -
  have "\<not> wrd_exhausted rd"
    using assms by (auto simp: ReadNext_def)
  from ReadNext_refines [OF assms this refl refl] show ?thesis
    by (auto simp: content_def)
qed

function Replay :: "wal_reader \<Rightarrow> world \<Rightarrow>
    wal_record list \<times> u64 \<times> read_result \<times> wal_reader \<times> world" where
  "Replay rd w =
     (case ReadNext rd w of
        (Inl r, rd', w') \<Rightarrow> ([], 0, r, rd', w')
      | (Inr record, rd', w') \<Rightarrow>
          (case Replay rd' w' of
             (records, replayed, terminal, rd'', w'') \<Rightarrow>
               (record # records, replayed + 1, terminal, rd'', w'')))"
  by pat_completeness auto
termination
  by (relation "measure (\<lambda>(rd, w). length (content w (fd_path (wrd_file rd))) - read_position rd)")
    (use ReadNext_record_progress in \<open>auto dest!: sym [of _ "ReadNext _ _"]\<close>)

declare Replay.simps [simp del]

definition valid_prefix_length :: "wal_reader \<Rightarrow> u64" where
  "valid_prefix_length rd = wrd_bytes_consumed rd"

text \<open>
  What the bytes of a log hold: the records before the first one that is not fully present and
  valid, why the scan stopped there, and the length of what precedes that point.
\<close>

definition log_scan :: "bytes \<Rightarrow> wal_record list \<times> read_result \<times> nat" where
  "log_scan c =
     (case decode_loop log_dec c of
        (records, e, left) \<Rightarrow>
          (records, case e of None \<Rightarrow> ReadEndOfLog | Some t \<Rightarrow> t, length c - length left))"

lemma log_scan_stop: "log_dec c = Inl t \<Longrightarrow> log_scan c = ([], t, 0)"
  by (cases "c = []") (auto simp: log_scan_def log_dec_def decode_loop_stop)

lemma log_scan_record:
  assumes "log_dec c = Inr (r, rest)" and "log_scan rest = (rs, t, n)"
  shows "log_scan c = (r # rs, t, n + (length c - length rest))"
proof -
  obtain xs err left where rest: "decode_loop log_dec rest = (xs, err, left)"
    by (rule prod_cases3)
  note less = log_dec_shrinks [OF assms(1)]
  have "decode_loop log_dec c = (r # xs, err, left)"
    using decode_loop_step [of log_dec c r rest] assms(1) less rest by simp
  with rest assms(2) less decode_loop_left [OF rest] show ?thesis
    by (auto simp: log_scan_def)
qed

theorem Replay_refines:
  assumes "Replay rd w = (rs, n, t, rd', w')" and "\<not> wrd_exhausted rd"
    and "content w (fd_path (wrd_file rd)) = c" and "log_scan (drop (read_position rd) c) = (all, e, len)"
    and "read_position rd \<le> length c"
  shows "files w' = files w \<and> n = of_nat (length rs) \<and> (faults w = [] \<longrightarrow> faults w' = []) \<and>
    (\<exists>rest. all = rs @ rest) \<and>
    (rs = all \<and> t = e \<and> valid_prefix_length rd' = valid_prefix_length rd + of_nat len \<or>
     t = ReadCorruption \<and> faults w \<noteq> [])"
  using assms
proof (induction rd w arbitrary: rs n all len rule: Replay.induct)
  case (1 rd w)
  obtain res rd1 w1 where next_record: "ReadNext rd w = (res, rd1, w1)"
    by (rule prod_cases3)
  note step = ReadNext_refines [OF next_record "1.prems"(2,3) refl]
  note run = "1.prems"(1) [unfolded Replay.simps [of rd w] next_record prod.case]
  show ?case
  proof (cases res)
    case (Inl r)
    with run have "rs = []" "n = 0" "t = r" "rd' = rd1" "w' = w1"
      by auto
    with step Inl "1.prems"(4) show ?thesis
      by (auto simp: log_scan_stop valid_prefix_length_def)
  next
    case (Inr r)
    obtain rs1 n1 where rest: "Replay rd1 w1 = (rs1, n1, t, rd', w')" "rs = r # rs1" "n = n1 + 1"
      using run Inr by (auto split: prod.splits)
    obtain all1 e1 len1 where scan: "log_scan (drop (read_position rd1) c) = (all1, e1, len1)"
      by (rule prod_cases3)
    from step Inr have dec: "log_dec (drop (read_position rd) c) = Inr (r, drop (read_position rd1) c)"
      and pos: "read_position rd < read_position rd1" "read_position rd1 \<le> length c"
      and rd1: "\<not> wrd_exhausted rd1" "content w1 (fd_path (wrd_file rd1)) = c"
        "valid_prefix_length rd1 = valid_prefix_length rd + of_nat (read_position rd1 - read_position rd)"
      and w1: "files w1 = files w" "faults w = [] \<longrightarrow> faults w1 = []"
      using "1.prems"(3) by (auto simp: content_def valid_prefix_length_def)
    have all: "all = r # all1" "e = e1" "len = len1 + (read_position rd1 - read_position rd)"
      using log_scan_record [OF dec scan] "1.prems"(4) pos by auto
    have "files w' = files w1 \<and> n1 = of_nat (length rs1) \<and> (faults w1 = [] \<longrightarrow> faults w' = []) \<and>
      (\<exists>rest. all1 = rs1 @ rest) \<and>
      (rs1 = all1 \<and> t = e \<and> valid_prefix_length rd' = valid_prefix_length rd1 + of_nat len1 \<or>
       t = ReadCorruption \<and> faults w1 \<noteq> [])"
      using "1.IH" [OF next_record [symmetric] Inr refl rest(1) rd1(1,2) _ pos(2)] scan all(2)
      by auto
    then show ?thesis
      using rest all rd1(3) w1 by (auto simp: add.commute add.left_commute)
  qed
qed

text \<open>A log is written record by record; what it holds after a crash is a prefix, cut at any byte.\<close>

lemma log_scan_encs: "\<forall>r\<in>set rs. recoverable r \<Longrightarrow> log_scan (wal.encs rs) = (rs, ReadEndOfLog, length (wal.encs rs))"
  by (simp add: log_scan_def wal.decode_all)

lemma log_scan_cut:
  assumes "\<forall>r\<in>set rs. recoverable r" and "n \<le> length (wal.encs rs)"
  shows "\<exists>k t. k \<le> length rs \<and> log_scan (take n (wal.encs rs)) = (take k rs, t, length (wal.encs (take k rs))) \<and>
    (t = ReadEndOfLog \<and> take n (wal.encs rs) = wal.encs (take k rs) \<or> t = ReadTruncated) \<and>
    length (wal.encs (take k rs)) \<le> n"
proof (rule wal.decode_prefix [OF assms])
  fix k left
  assume k: "k \<le> length rs" "decode_loop log_dec (take n (wal.encs rs)) = (take k rs, None, left)"
    "take n (wal.encs rs) = wal.encs (take k rs)"
  have "\<forall>r\<in>set (take k rs). recoverable r"
    using assms(1) by (auto dest: in_set_takeD)
  then have "log_scan (take n (wal.encs rs)) = (take k rs, ReadEndOfLog, length (wal.encs (take k rs)))"
    unfolding k(3) by (rule log_scan_encs)
  moreover have "length (wal.encs (take k rs)) = n"
    using assms(2) k(3) by (metis length_take min.absorb2)
  ultimately show ?thesis using k by auto
next
  fix k left
  assume k: "k < length rs" "decode_loop log_dec (take n (wal.encs rs)) = (take k rs, Some ReadTruncated, left)"
    "take n (wal.encs rs) = wal.encs (take k rs) @ left"
  have n: "n = length (wal.encs (take k rs)) + length left"
    using assms(2) arg_cong [OF k(3), of length] by simp
  have "log_scan (take n (wal.encs rs)) = (take k rs, ReadTruncated, length (wal.encs (take k rs)))"
    unfolding log_scan_def k(2) using assms(2) n by simp
  with k n show ?thesis
    by (intro exI [of _ k] exI [of _ ReadTruncated]) auto
qed

end
