(* ===== verification/Pebble_Wal_Writer.thy ===== *)
theory Pebble_Wal_Writer
  imports Pebble_Wal_Reader
begin

text \<open>
  Writing a write-ahead log (wal/writer.hpp, wal/writer.cpp).  Shown here: the writer accepts exactly
  the records a reader can recover; an accepted record extends the log by that record and a failed
  append leaves a log whose scan is unchanged apart from at most that record; the counters bound how
  many accepted records a policy leaves unsynced.
\<close>

datatype sync_policy = kEveryWrite | kBatched | kExplicit

record wal_writer =
  ww_file :: posix_file
  ww_policy :: sync_policy
  ww_batch_size :: u64
  ww_records_written :: u64
  ww_records_since_sync :: u64
  ww_sync_count :: u64

definition WalWriter_Open :: "string \<Rightarrow> sync_policy \<Rightarrow> u64 \<Rightarrow> world \<Rightarrow>
    status \<times> wal_writer option \<times> world" where
  "WalWriter_Open path policy batch_size w =
     (if policy = kBatched \<and> batch_size = 0
      then (InvalidArgument ''batch_size must be >= 1 for SyncPolicy::kBatched'', None, w)
      else
        case OpenAppend path w of
          (s, None, w) \<Rightarrow> (s, None, w)
        | (s, Some file, w) \<Rightarrow>
            (status_OK, Some \<lparr>ww_file = file, ww_policy = policy, ww_batch_size = batch_size,
               ww_records_written = 0, ww_records_since_sync = 0, ww_sync_count = 0\<rparr>, w))"

definition WalWriter_Sync :: "wal_writer \<Rightarrow> world \<Rightarrow> status \<times> wal_writer \<times> world" where
  "WalWriter_Sync wr w =
     (case Sync (ww_file wr) w of
        (s, w) \<Rightarrow>
          if \<not> ok s then (s, wr, w)
          else (status_OK, wr\<lparr>ww_sync_count := ww_sync_count wr + 1, ww_records_since_sync := 0\<rparr>, w))"

definition AddRecord :: "wal_writer \<Rightarrow> wal_record \<Rightarrow> world \<Rightarrow> status \<times> wal_writer \<times> world" where
  "AddRecord wr record w =
     (if kMaxKeyLength < length (wr_key record)
      then (InvalidArgument ''WAL record key exceeds kMaxKeyLength'', wr, w)
      else
        let is_delete = (wr_type record = kDelete)
        in if \<not> is_delete \<and> kMaxValueLength < length (wr_value record)
           then (InvalidArgument ''WAL record value exceeds kMaxValueLength'', wr, w)
           else
             let buf = EncodeRecord record []
             in case Append (ww_file wr) buf w of
                  (s, file, w) \<Rightarrow>
                    let wr = wr\<lparr>ww_file := file\<rparr>
                    in if \<not> ok s then (s, wr, w)
                       else
                         let wr = wr\<lparr>ww_records_written := ww_records_written wr + 1,
                                     ww_records_since_sync := ww_records_since_sync wr + 1\<rparr>
                         in if ww_policy wr = kEveryWrite then WalWriter_Sync wr w
                            else if ww_policy wr = kBatched \<and>
                                    ww_batch_size wr \<le> ww_records_since_sync wr
                            then WalWriter_Sync wr w
                            else (status_OK, wr, w))"

subsection \<open>Opening\<close>

lemma WalWriter_Open_effect:
  assumes "WalWriter_Open path policy batch w = (s, out, w')"
  shows "files w' = files w \<or> files w path = None \<and> files w' = (files w)(path \<mapsto> [])"
    and "ok s \<Longrightarrow> \<exists>wr. out = Some wr \<and> fd_path (ww_file wr) = path \<and> fd_append (ww_file wr) \<and>
      files w' = (files w)(path \<mapsto> content w path) \<and> ww_policy wr = policy \<and>
      ww_batch_size wr = batch \<and> ww_records_since_sync wr = 0"
    and "\<not> ok s \<Longrightarrow> out = None"
proof -
  obtain r fo v where op: "OpenAppend path w = (r, fo, v)"
    by (rule prod_cases3)
  note effect = OpenAppend_effect [OF op]
  note run = assms [unfolded WalWriter_Open_def op prod.case]
  have fo: "fo = None \<longleftrightarrow> \<not> ok r"
    using effect(2,3) by (cases "ok r") auto
  show "files w' = files w \<or> files w path = None \<and> files w' = (files w)(path \<mapsto> [])"
    using run effect(1) by (auto split: if_splits option.splits)
  show "\<not> ok s \<Longrightarrow> out = None"
    using run by (auto split: if_splits option.splits)
  show "ok s \<Longrightarrow> \<exists>wr. out = Some wr \<and> fd_path (ww_file wr) = path \<and> fd_append (ww_file wr) \<and>
      files w' = (files w)(path \<mapsto> content w path) \<and> ww_policy wr = policy \<and>
      ww_batch_size wr = batch \<and> ww_records_since_sync wr = 0"
    using run effect(2) fo by (auto simp: content_def split: if_splits option.splits)
qed

lemma WalWriter_Open_no_faults:
  assumes "faults w = []" and "policy = kBatched \<longrightarrow> batch \<noteq> 0"
  shows "\<exists>wr w'. WalWriter_Open path policy batch w = (status_OK, Some wr, w') \<and> faults w' = []"
  using OpenAppend_no_faults [OF assms(1), of path] assms(2) by (auto simp: WalWriter_Open_def)

subsection \<open>Appending a record\<close>

text \<open>A writer on a log: it appends, and the log's bytes are \<open>c\<close>.\<close>

definition log_sink :: "wal_writer \<Rightarrow> bytes \<Rightarrow> world \<Rightarrow> bool" where
  "log_sink wr c w \<longleftrightarrow> fd_append (ww_file wr) \<and> files w (fd_path (ww_file wr)) = Some c \<and>
     length c \<le> max_file_size"

lemma WalWriter_Sync_effect:
  assumes "WalWriter_Sync wr w = (s, wr', w')"
  shows "files w' = files w" "ww_file wr' = ww_file wr" "ww_policy wr' = ww_policy wr"
    "ww_batch_size wr' = ww_batch_size wr" "ok s \<Longrightarrow> ww_records_since_sync wr' = 0"
  using assms files_Sync [of "ww_file wr" w] by (auto simp: WalWriter_Sync_def split: prod.splits if_splits)

lemma AddRecord_rejects:
  "\<not> within_bounds r \<Longrightarrow> \<exists>m. AddRecord wr r w = (InvalidArgument m, wr, w)"
  by (auto simp: AddRecord_def within_bounds_def Let_def)

lemma AddRecord_accepts:
  assumes "within_bounds r"
  shows "AddRecord wr r w =
    (case Append (ww_file wr) (wal_enc r) w of
       (s, file, w) \<Rightarrow>
         let wr = wr\<lparr>ww_file := file\<rparr>
         in if \<not> ok s then (s, wr, w)
            else
              let wr = wr\<lparr>ww_records_written := ww_records_written wr + 1,
                          ww_records_since_sync := ww_records_since_sync wr + 1\<rparr>
              in if ww_policy wr = kEveryWrite \<or>
                    ww_policy wr = kBatched \<and> ww_batch_size wr \<le> ww_records_since_sync wr
                 then WalWriter_Sync wr w
                 else (status_OK, wr, w))"
  using assms by (auto simp: AddRecord_def within_bounds_def Let_def cong: if_cong split: prod.splits)

text \<open>
  Whatever the system does, the file ends up with a prefix of the record's encoding behind its old
  bytes, the whole of it exactly when the append itself succeeded; a success of \<open>AddRecord\<close> implies
  that, and so does a failure of the sync behind the append.
\<close>

lemma AddRecord_effect:
  assumes "AddRecord wr r w = (s, wr', w')" and "log_sink wr c w"
  shows "\<exists>n \<le> length (wal_enc r). files w' = (files w)(fd_path (ww_file wr) \<mapsto> c @ take n (wal_enc r)) \<and>
    log_sink wr' (c @ take n (wal_enc r)) w' \<and> fd_path (ww_file wr') = fd_path (ww_file wr) \<and>
    ww_policy wr' = ww_policy wr \<and> ww_batch_size wr' = ww_batch_size wr \<and>
    (ok s \<longrightarrow> within_bounds r \<and> n = length (wal_enc r)) \<and> (\<not> within_bounds r \<longrightarrow> n = 0 \<and> wr' = wr \<and> w' = w)"
proof (cases "within_bounds r")
  case False
  with AddRecord_rejects [OF False, of wr w] assms show ?thesis
    by (intro exI [of _ 0]) (auto simp: log_sink_def fun_upd_idem)
next
  case True
  obtain s1 f1 w1 where app: "Append (ww_file wr) (wal_enc r) w = (s1, f1, w1)"
    by (rule prod_cases3)
  have "sink (ww_file wr) c w"
    using assms(2) by (simp add: log_sink_def sink_def)
  from Append_sink [OF app this] obtain n where n: "n \<le> length (wal_enc r)"
    and f1: "files w1 = (files w)(fd_path (ww_file wr) \<mapsto> c @ take n (wal_enc r))"
    "sink f1 (c @ take n (wal_enc r)) w1" "fd_path f1 = fd_path (ww_file wr)"
    and full: "if ok s1 then n = length (wal_enc r) else IsIOError s1 \<and> n < length (wal_enc r)"
    by blast
  have mode: "fd_append f1"
    using Append_keeps_mode [OF app] assms(2) by (simp add: log_sink_def)
  note run = assms(1) [unfolded AddRecord_accepts [OF True] app prod.case Let_def]
  define wr1 where "wr1 = wr\<lparr>ww_file := f1\<rparr>"
  define wr2 where "wr2 = wr1\<lparr>ww_records_written := ww_records_written wr1 + 1,
    ww_records_since_sync := ww_records_since_sync wr1 + 1\<rparr>"
  have "files w' = files w1 \<and> ww_file wr' = f1 \<and> ww_policy wr' = ww_policy wr \<and>
    ww_batch_size wr' = ww_batch_size wr"
    using run [folded wr1_def, folded wr2_def] WalWriter_Sync_effect [of wr2 w1 s wr' w']
    by (auto simp: wr1_def wr2_def split: if_splits)
  moreover have "ok s1" if "ok s"
    using run that by (auto split: if_splits)
  ultimately show ?thesis
    using n f1 full mode True
    by (intro exI [of _ n]) (auto simp: log_sink_def sink_def)
qed

lemma AddRecord_ok:
  assumes "AddRecord wr r w = (s, wr', w')" and "log_sink wr c w" and "ok s"
  shows "files w' = (files w)(fd_path (ww_file wr) \<mapsto> c @ wal_enc r)" "log_sink wr' (c @ wal_enc r) w'"
    "fd_path (ww_file wr') = fd_path (ww_file wr)" "within_bounds r"
  using AddRecord_effect [OF assms(1,2)] assms(3) by auto

lemma AddRecord_no_faults:
  assumes "within_bounds r" and "log_sink wr c w" and "faults w = []"
    and "length c + length (wal_enc r) \<le> max_file_size"
  shows "\<exists>wr' w'. AddRecord wr r w = (status_OK, wr', w') \<and> faults w' = []"
proof -
  have "sink (ww_file wr) c w"
    using assms(2) by (simp add: log_sink_def sink_def)
  from Append_no_faults [OF this assms(3,4)] obtain f1 w1
    where "Append (ww_file wr) (wal_enc r) w = (status_OK, f1, w1)" "faults w1 = []" by blast
  then show ?thesis
    by (auto simp: AddRecord_accepts [OF assms(1)] WalWriter_Sync_def Let_def)
qed

subsection \<open>Logs\<close>

text \<open>A log without a torn end: the encodings of records, each within bounds.\<close>

definition clean_log :: "bytes \<Rightarrow> wal_record list \<Rightarrow> bool" where
  "clean_log c rs \<longleftrightarrow> c = concat (map wal_enc rs) \<and> (\<forall>r\<in>set rs. recoverable r)"

lemma clean_log_Nil [simp]: "clean_log [] []"
  by (simp add: clean_log_def)

lemma clean_log_scan: "clean_log c rs \<Longrightarrow> log_scan c = (rs, ReadEndOfLog, length c)"
  by (auto simp: clean_log_def log_scan_encs)

lemma clean_log_append:
  "clean_log c rs \<Longrightarrow> within_bounds r \<Longrightarrow> clean_log (c @ wal_enc r) (rs @ [persisted r])"
  by (auto simp: clean_log_def)

lemma clean_log_take:
  assumes "clean_log c rs" and "n \<le> length c"
  obtains k t where "k \<le> length rs" "clean_log (concat (map wal_enc (take k rs))) (take k rs)"
    "log_scan (take n c) = (take k rs, t, length (concat (map wal_enc (take k rs))))"
    "t = ReadEndOfLog \<and> take n c = concat (map wal_enc (take k rs)) \<or> t = ReadTruncated"
    "length (concat (map wal_enc (take k rs))) \<le> n"
proof -
  have valid: "\<forall>r\<in>set rs. recoverable r" and c: "c = concat (map wal_enc rs)"
    using assms(1) by (simp_all add: clean_log_def)
  have "clean_log (concat (map wal_enc (take k rs))) (take k rs)" for k
    using valid by (auto simp: clean_log_def dest: in_set_takeD)
  with log_scan_cut [OF valid, of n] assms(2) that show ?thesis
    unfolding c by blast
qed

text \<open>
  A torn append onto a clean log leaves the log's records, or the log's records and the new one:
  nothing acknowledged is lost and nothing else appears.
\<close>

lemma torn_append_scan:
  assumes "clean_log c rs" and "within_bounds r" and "n \<le> length (wal_enc r)"
  shows "log_scan (c @ take n (wal_enc r)) =
    (if n = length (wal_enc r) then (rs @ [persisted r], ReadEndOfLog, length c + n)
     else if n = 0 then (rs, ReadEndOfLog, length c)
     else (rs, ReadTruncated, length c))"
proof -
  consider "n = length (wal_enc r)" | "n = 0" "n < length (wal_enc r)" | "0 < n" "n < length (wal_enc r)"
    using assms(3) by linarith
  then show ?thesis
  proof cases
    case 1
    with clean_log_scan [OF clean_log_append [OF assms(1,2)]] show ?thesis by simp
  next
    case 2
    with clean_log_scan [OF assms(1)] show ?thesis by simp
  next
    case 3
    have "decode_loop log_dec (wal.encs rs @ take n (wal_enc (persisted r))) =
        (rs, Some ReadTruncated, take n (wal_enc (persisted r)))"
      using assms(1,2) 3 by (intro wal.decode_torn) (simp_all add: clean_log_def)
    with 3 assms(1) show ?thesis
      by (simp add: log_scan_def clean_log_def)
  qed
qed

subsection \<open>What a policy leaves unsynced\<close>

theorem AddRecord_sync_policy:
  assumes "AddRecord wr r w = (s, wr', w')" and "ok s"
  shows "ww_policy wr = kEveryWrite \<Longrightarrow> ww_records_since_sync wr' = 0"
    and "ww_policy wr = kBatched \<Longrightarrow> ww_batch_size wr \<noteq> 0 \<Longrightarrow> ww_records_since_sync wr' < ww_batch_size wr"
proof -
  have bounds: "within_bounds r"
    using AddRecord_rejects [of r wr w] assms by (cases "within_bounds r") auto
  obtain s1 f1 w1 where app: "Append (ww_file wr) (wal_enc r) w = (s1, f1, w1)"
    by (rule prod_cases3)
  define wr1 where "wr1 = wr\<lparr>ww_file := f1\<rparr>"
  define wr2 where "wr2 = wr1\<lparr>ww_records_written := ww_records_written wr1 + 1,
    ww_records_since_sync := ww_records_since_sync wr1 + 1\<rparr>"
  note run = assms(1) [unfolded AddRecord_accepts [OF bounds] app prod.case Let_def,
      folded wr1_def, folded wr2_def]
  have sync: "ww_records_since_sync wr' = 0" if "WalWriter_Sync wr2 w1 = (s, wr', w')"
    using WalWriter_Sync_effect(5) [OF that assms(2)] .
  show "ww_policy wr = kEveryWrite \<Longrightarrow> ww_records_since_sync wr' = 0"
    using run assms(2) sync by (auto simp: wr1_def wr2_def split: if_splits)
  show "ww_records_since_sync wr' < ww_batch_size wr"
    if "ww_policy wr = kBatched" "ww_batch_size wr \<noteq> 0"
    using run assms(2) sync that
    by (auto simp: wr1_def wr2_def not_le word_neq_0_conv split: if_splits)
qed

end
