(* ===== verification/Pebble_Manifest_Format.thy ===== *)
theory Pebble_Manifest_Format
  imports Pebble_Coding Pebble_Crc32c
begin

text \<open>
  The manifest format (manifest/format.hpp, manifest/format.cpp): a whole file with one checksum, a
  header and the table entries.  Shown here: a manifest within the table limit gives back its fields;
  any file of another length than its table count says is refused; a change confined to four
  consecutive bytes of a manifest is refused, wherever it falls.
\<close>

record table_file_info =
  tf_file_number :: u64
  tf_level :: u32

record manifest_data =
  mf_next_file_number :: u64
  mf_wal_file_number :: u64
  mf_last_sequence :: u64
  mf_tables :: "table_file_info list"

definition default_manifest :: manifest_data where
  "default_manifest = \<lparr>mf_next_file_number = 1, mf_wal_file_number = 0, mf_last_sequence = 0,
     mf_tables = []\<rparr>"

definition mf_kMagic :: u32 where
  "mf_kMagic = 0x50424D46"

definition mf_kFormatVersion :: byte where
  "mf_kFormatVersion = 1"

definition kManifestFileName :: string where
  "kManifestFileName = ''MANIFEST''"

definition kManifestTempFileName :: string where
  "kManifestTempFileName = ''MANIFEST.tmp''"

definition mf_kHeaderSize :: nat where
  "mf_kHeaderSize = 4 + 4 + 1 + 8 + 8 + 8 + 4"

definition kTableEntrySize :: nat where
  "kTableEntrySize = 8 + 4"

definition kMaxTableCount :: u32 where
  "kMaxTableCount = push_bit 20 1"

datatype mf_decode_status =
  MfOk | MfTruncated | MfBadMagic | MfUnsupportedVersion | MfBadTableCount | MfBadLength
| MfChecksumMismatch

fun mf_DecodeStatusName :: "mf_decode_status \<Rightarrow> string" where
  "mf_DecodeStatusName MfOk = ''Ok''"
| "mf_DecodeStatusName MfTruncated = ''Truncated''"
| "mf_DecodeStatusName MfBadMagic = ''BadMagic''"
| "mf_DecodeStatusName MfUnsupportedVersion = ''UnsupportedVersion''"
| "mf_DecodeStatusName MfBadTableCount = ''BadTableCount''"
| "mf_DecodeStatusName MfBadLength = ''BadLength''"
| "mf_DecodeStatusName MfChecksumMismatch = ''ChecksumMismatch''"

text \<open>The checksummed part of the file; the loop over the tables appends one entry each.\<close>

definition put_table :: "table_file_info \<Rightarrow> bytes \<Rightarrow> bytes" where
  "put_table t body = PutFixed32 (PutFixed64 body (tf_file_number t)) (tf_level t)"

definition manifest_body :: "manifest_data \<Rightarrow> bytes" where
  "manifest_body d =
     (let body = PutFixed32 [] mf_kMagic;
          body = body @ [mf_kFormatVersion];
          body = PutFixed64 body (mf_next_file_number d);
          body = PutFixed64 body (mf_wal_file_number d);
          body = PutFixed64 body (mf_last_sequence d);
          body = PutFixed32 body (of_nat (length (mf_tables d)))
      in fold put_table (mf_tables d) body)"

definition EncodeManifest :: "manifest_data \<Rightarrow> bytes \<Rightarrow> bytes" where
  "EncodeManifest d dst =
     (let body = manifest_body d;
          checksum = Crc32c body
      in PutFixed32 dst checksum @ body)"

text \<open>The decoding loop: \<open>n\<close> tables from \<open>offset\<close> on.\<close>

fun get_tables :: "nat \<Rightarrow> bytes \<Rightarrow> nat \<Rightarrow> table_file_info list" where
  "get_tables 0 bs offset = []"
| "get_tables (Suc n) bs offset =
     \<lparr>tf_file_number = DecodeFixed64 (drop offset bs), tf_level = DecodeFixed32 (drop (offset + 8) bs)\<rparr> #
     get_tables n bs (offset + kTableEntrySize)"

definition DecodeManifest :: "bytes \<Rightarrow> mf_decode_status + manifest_data" where
  "DecodeManifest bs =
     (if length bs < mf_kHeaderSize then Inl MfTruncated
      else if DecodeFixed32 (drop 4 bs) \<noteq> mf_kMagic then Inl MfBadMagic
      else
        let format_version = bs ! 8
        in if format_version = 0 \<or> mf_kFormatVersion < format_version then Inl MfUnsupportedVersion
           else
             let num_tables = DecodeFixed32 (drop 33 bs)
             in if kMaxTableCount < num_tables then Inl MfBadTableCount
                else
                  let expected_size = mf_kHeaderSize + unat num_tables * kTableEntrySize
                  in if length bs < expected_size then Inl MfTruncated
                     else if expected_size < length bs then Inl MfBadLength
                     else
                       let stored_checksum = DecodeFixed32 bs;
                           computed = Crc32c (take (expected_size - 4) (drop 4 bs))
                       in if computed \<noteq> stored_checksum then Inl MfChecksumMismatch
                          else Inr \<lparr>mf_next_file_number = DecodeFixed64 (drop 9 bs),
                                 mf_wal_file_number = DecodeFixed64 (drop 17 bs),
                                 mf_last_sequence = DecodeFixed64 (drop 25 bs),
                                 mf_tables = get_tables (unat num_tables) bs mf_kHeaderSize\<rparr>)"

subsection \<open>Round trip\<close>

definition table_enc :: "table_file_info \<Rightarrow> bytes" where
  "table_enc t = fixed64 (tf_file_number t) @ fixed32 (tf_level t)"

lemma length_table_enc [simp, layout_simps]: "length (table_enc t) = 12"
  by (simp add: table_enc_def)

lemma put_table_enc: "put_table t body = body @ table_enc t"
  unfolding put_table_def table_enc_def PutFixed64_append [of body] PutFixed32_append [of "_ @ _"]
  by simp

lemma fold_put_table: "fold put_table ts body = body @ concat (map table_enc ts)"
  by (induction ts arbitrary: body) (simp_all add: put_table_enc)

lemma length_table_encs [simp]: "length (concat (map table_enc ts)) = 12 * length ts"
  by (induction ts) simp_all

lemma manifest_body_layout:
  "manifest_body d = fixed32 mf_kMagic @ [mf_kFormatVersion] @ fixed64 (mf_next_file_number d) @
     fixed64 (mf_wal_file_number d) @ fixed64 (mf_last_sequence d) @
     fixed32 (of_nat (length (mf_tables d))) @ concat (map table_enc (mf_tables d))"
  unfolding manifest_body_def Let_def fold_put_table PutFixed64_append [of "_ @ _"]
    PutFixed32_append [of "_ @ _"] append_assoc by (rule refl)

lemma EncodeManifest_layout: "EncodeManifest d [] = fixed32 (Crc32c (manifest_body d)) @ manifest_body d"
  by (simp add: EncodeManifest_def Let_def)

lemma length_manifest_body [simp]: "length (manifest_body d) = 33 + 12 * length (mf_tables d)"
  by (simp add: manifest_body_layout)

lemma get_tables_encs:
  "length pre = offset \<Longrightarrow> get_tables (length ts) (pre @ concat (map table_enc ts)) offset = ts"
proof (induction ts arbitrary: pre offset)
  case Nil
  then show ?case by simp
next
  case (Cons t ts)
  define tail where "tail = concat (map table_enc ts)"
  have whole: "pre @ concat (map table_enc (t # ts)) = (pre @ table_enc t) @ tail"
    by (simp add: tail_def)
  have "get_tables (length ts) ((pre @ table_enc t) @ tail) (offset + kTableEntrySize) = ts"
    unfolding tail_def using Cons.prems by (intro Cons.IH) (simp add: kTableEntrySize_def)
  moreover have "drop offset ((pre @ table_enc t) @ tail) = table_enc t @ tail"
    "drop (offset + 8) ((pre @ table_enc t) @ tail) = fixed32 (tf_level t) @ tail"
    using Cons.prems by (simp_all add: table_enc_def)
  ultimately show ?case
    unfolding whole by (simp add: table_enc_def)
qed

lemma kMaxTableCount_less: "\<not> kMaxTableCount < n \<longleftrightarrow> unat n \<le> 2 ^ 20"
  by (simp add: kMaxTableCount_def word_less_nat_alt not_less)

lemma DecodeManifest_EncodeManifest:
  assumes "length (mf_tables d) \<le> unat kMaxTableCount"
  shows "DecodeManifest (EncodeManifest d []) = Inr d"
proof -
  define h where "h = EncodeManifest d []"
  have h: "h = (fixed32 (Crc32c (manifest_body d)) @ fixed32 mf_kMagic @ [mf_kFormatVersion] @
      fixed64 (mf_next_file_number d) @ fixed64 (mf_wal_file_number d) @ fixed64 (mf_last_sequence d) @
      fixed32 (of_nat (length (mf_tables d)))) @ concat (map table_enc (mf_tables d))"
    by (simp add: h_def EncodeManifest_layout manifest_body_layout)
  have max: "unat kMaxTableCount = 2 ^ 20"
    by (simp add: kMaxTableCount_def)
  have count: "unat (of_nat (length (mf_tables d)) :: u32) = length (mf_tables d)"
    using assms max by (simp add: unat_of_nat take_bit_nat_eq_self_iff)
  have fields: "DecodeFixed32 h = Crc32c (manifest_body d)" "DecodeFixed32 (drop 4 h) = mf_kMagic"
    "h ! 8 = mf_kFormatVersion" "DecodeFixed64 (drop 9 h) = mf_next_file_number d"
    "DecodeFixed64 (drop 17 h) = mf_wal_file_number d" "DecodeFixed64 (drop 25 h) = mf_last_sequence d"
    "DecodeFixed32 (drop 33 h) = of_nat (length (mf_tables d))"
    "length h = 37 + 12 * length (mf_tables d)"
    by (simp_all add: h nth_append)
  have body: "take (33 + length (mf_tables d) * 12) (drop 4 h) = manifest_body d"
    by (simp add: h_def EncodeManifest_layout mult.commute)
  have tables: "get_tables (length (mf_tables d)) h 37 = mf_tables d"
    unfolding h by (rule get_tables_encs) simp
  have small: "\<not> kMaxTableCount < of_nat (length (mf_tables d))"
    using assms max count unfolding kMaxTableCount_less by simp
  show ?thesis
    unfolding h_def [symmetric] DecodeManifest_def fields Let_def count
    using small by (simp add: mf_kHeaderSize_def kTableEntrySize_def mf_kFormatVersion_def body tables mult.commute)
qed

subsection \<open>What is refused\<close>

lemma fixed32_DecodeFixed32:
  assumes "4 \<le> length bs"
  shows "fixed32 (DecodeFixed32 bs) = take 4 bs"
proof -
  obtain a b c d rest where bs: "bs = a # b # c # d # rest"
    using assms by (metis Suc_le_length_iff numeral_eq_Suc pred_numeral_simps(2,3) semiring_norm(26,27)
        BitM.simps(1))
  have [simp]: "\<not> bit v (8 + n)" "\<not> bit v (16 + n)" "\<not> bit v (24 + n)" for v :: byte and n
    by (auto dest: bit_imp_le_length)
  have "byte_of (DecodeFixed32 bs) = a" "byte_of (drop_bit 8 (DecodeFixed32 bs)) = b"
    "byte_of (drop_bit 16 (DecodeFixed32 bs)) = c" "byte_of (drop_bit 24 (DecodeFixed32 bs)) = d"
    by (auto intro!: bit_word_eqI simp: bs bit_byte_of bit_drop_bit_eq DecodeFixed32_def bit_or_iff
        bit_push_bit_iff bit_ucast_iff dest: bit_imp_le_length)
  then show ?thesis
    by (simp add: bs PutFixed32_def)
qed

text \<open>What an accepted file looks like.\<close>

lemma DecodeManifest_run:
  assumes "DecodeManifest bs = Inr d" and "n = unat (DecodeFixed32 (drop 33 bs))"
  shows "DecodeFixed32 (drop 4 bs) = mf_kMagic" "length bs = mf_kHeaderSize + n * kTableEntrySize"
    "Crc32c (take (mf_kHeaderSize + n * kTableEntrySize - 4) (drop 4 bs)) = DecodeFixed32 bs"
    "mf_tables d = get_tables n bs mf_kHeaderSize"
proof -
  note run = assms(1) [unfolded DecodeManifest_def Let_def, folded assms(2)]
  show "DecodeFixed32 (drop 4 bs) = mf_kMagic" using run by (simp split: if_splits)
  show "length bs = mf_kHeaderSize + n * kTableEntrySize" using run by (simp split: if_splits)
  show "Crc32c (take (mf_kHeaderSize + n * kTableEntrySize - 4) (drop 4 bs)) = DecodeFixed32 bs"
    using run by (simp split: if_splits)
  show "mf_tables d = get_tables n bs mf_kHeaderSize" using run by (auto split: if_splits)
qed

lemma length_get_tables [simp]: "length (get_tables n bs off) = n"
  by (induction n arbitrary: off) simp_all

lemma expected_size: "mf_kHeaderSize + n * kTableEntrySize = 37 + 12 * n"
  by (simp add: mf_kHeaderSize_def kTableEntrySize_def)

lemma DecodeManifest_accepts:
  assumes "DecodeManifest bs = Inr d"
  shows "DecodeFixed32 (drop 4 bs) = mf_kMagic" "Crc32c (drop 4 bs) = DecodeFixed32 bs"
    "length bs = 37 + 12 * unat (DecodeFixed32 (drop 33 bs))"
    "length (mf_tables d) = unat (DecodeFixed32 (drop 33 bs))"
proof -
  note run = DecodeManifest_run [OF assms refl]
  show "DecodeFixed32 (drop 4 bs) = mf_kMagic" by (rule run(1))
  show "length bs = 37 + 12 * unat (DecodeFixed32 (drop 33 bs))"
    using run(2) unfolding expected_size .
  have "take (length bs - 4) (drop 4 bs) = drop 4 bs"
    by simp
  then show "Crc32c (drop 4 bs) = DecodeFixed32 bs"
    using run(3) unfolding run(2) [symmetric] by (simp only:)
  show "length (mf_tables d) = unat (DecodeFixed32 (drop 33 bs))"
    unfolding run(4) by (rule length_get_tables)
qed

lemma window_at_front:
  assumes "length pre < 4" and "length xs = length ys" and "length ys \<le> 4"
  shows "drop 8 (pre @ xs @ suf) = drop 8 (pre @ ys @ suf)"
  using assms by simp

lemma accepted_bursts_equal:
  assumes "DecodeManifest (pre @ xs @ suf) = Inr d" and "DecodeManifest (pre @ ys @ suf) = Inr e"
    and "length xs = length ys" and "length ys \<le> 4"
  shows "xs = ys"
proof (rule ccontr)
  assume neq: "xs \<noteq> ys"
  define a b where "a = pre @ xs @ suf" and "b = pre @ ys @ suf"
  note A = DecodeManifest_accepts [OF assms(1), folded a_def]
    and B = DecodeManifest_accepts [OF assms(2), folded b_def]
  have len: "length a = length b" "4 \<le> length a" "4 \<le> length (drop 4 a)" "4 \<le> length (drop 4 b)"
    using A(3) assms(3) by (simp_all add: a_def b_def)
  show False
  proof (cases "length pre < 4")
    case True
    have four: "take 4 (drop 4 a) = take 4 (drop 4 b)"
      using fixed32_DecodeFixed32 [OF len(3)] fixed32_DecodeFixed32 [OF len(4)] A(1) B(1) by simp
    have "drop 8 a = drop 8 b"
      unfolding a_def b_def by (rule window_at_front [OF True assms(3,4)])
    then have "drop 4 a = drop 4 b"
      using four append_take_drop_id [of 4 "drop 4 a"] append_take_drop_id [of 4 "drop 4 b"] by simp
    moreover from this have "take 4 a = take 4 b"
      using fixed32_DecodeFixed32 [of a] fixed32_DecodeFixed32 [of b] len(1,2) A(2) B(2) by simp
    ultimately have "a = b"
      by (metis append_take_drop_id)
    with neq show False by (simp add: a_def b_def)
  next
    case False
    then have "drop 4 a = drop 4 pre @ xs @ suf" "drop 4 b = drop 4 pre @ ys @ suf" "take 4 a = take 4 b"
      by (simp_all add: a_def b_def)
    moreover from this(3) have "DecodeFixed32 a = DecodeFixed32 b"
      by (metis DecodeFixed32_take order_refl)
    ultimately show False
      using A(2) B(2) Crc32c_detects_burst [OF assms(3,4) neq, of "drop 4 pre" suf] by simp
  qed
qed

lemma damaged_manifest_refused:
  assumes "EncodeManifest d [] = pre @ xs @ suf" and "length (mf_tables d) \<le> unat kMaxTableCount"
    and "length xs = length ys" and "length ys \<le> 4" and "xs \<noteq> ys"
  shows "\<exists>s. DecodeManifest (pre @ ys @ suf) = Inl s"
proof (cases "DecodeManifest (pre @ ys @ suf)")
  case (Inr e)
  with DecodeManifest_EncodeManifest [OF assms(2)] accepted_bursts_equal [of pre xs suf d ys e] assms
  show ?thesis by simp
qed blast

text \<open>A manifest cut short or with bytes after it is refused.\<close>

lemma other_length_refused:
  assumes "length bs \<noteq> 37 + 12 * unat (DecodeFixed32 (drop 33 bs))"
  shows "\<exists>s. DecodeManifest bs = Inl s"
  using DecodeManifest_accepts(3) assms by (cases "DecodeManifest bs") blast+

lemma cut_manifest_refused:
  assumes "n < length (EncodeManifest d [])" and "length (mf_tables d) \<le> unat kMaxTableCount"
  shows "\<exists>s. DecodeManifest (take n (EncodeManifest d [])) = Inl s"
proof (cases "DecodeManifest (take n (EncodeManifest d []))")
  case (Inr e)
  define h where "h = EncodeManifest d []"
  define count where "count = (\<lambda>bs :: bytes. unat (DecodeFixed32 (drop 33 bs)))"
  have size: "length (take n h) = 37 + 12 * count (take n h)"
    using DecodeManifest_accepts(3) [OF Inr] by (simp only: h_def count_def)
  have full: "length h = 37 + 12 * count h"
    using DecodeManifest_accepts(3) [OF DecodeManifest_EncodeManifest [OF assms(2)]]
    by (simp only: h_def count_def)
  have n: "n < length h"
    using assms(1) by (simp only: h_def)
  with size have "37 \<le> n" by simp
  then have "count (take n h) = count h"
    unfolding count_def drop_take by (simp add: DecodeFixed32_take)
  with size full n have False by simp
  then show ?thesis by simp
qed blast

end
