(* ===== verification/Pebble_Manifest.thy ===== *)
theory Pebble_Manifest
  imports Pebble_Files Pebble_Manifest_Format
begin

text \<open>
  Loading and publishing the manifest (manifest/manifest.hpp, manifest/manifest.cpp).  Publishing
  writes a temporary file, syncs it and renames it over the manifest; \<open>published\<close> tells the caller
  whether the rename happened.  Shown here: at every failure point the manifest on disk is either the
  one before or the one saved, as \<open>published\<close> says; loading gives back the manifest on disk.
\<close>

definition ManifestPath :: "string \<Rightarrow> string" where
  "ManifestPath dbname = (dbname @ ''/'') @ kManifestFileName"

definition TempManifestPath :: "string \<Rightarrow> string" where
  "TempManifestPath dbname = (dbname @ ''/'') @ kManifestTempFileName"

definition LoadManifest :: "string \<Rightarrow> world \<Rightarrow> status \<times> manifest_data option \<times> world" where
  "LoadManifest dbname w =
     (let path = ManifestPath dbname
      in case sys_exists path w of
           (False, w) \<Rightarrow> (NotFound (''no manifest at '' @ quoted path), None, w)
         | (True, w) \<Rightarrow>
             (case OpenRead path w of
                (s, None, w) \<Rightarrow> (s, None, w)
              | (s, Some file, w) \<Rightarrow>
                  (case Size file w of
                     (s, size', w) \<Rightarrow>
                       if \<not> ok s then (s, None, w)
                       else
                         (case Read file (unat size') w of
                            (s, contents, short_read, file, w) \<Rightarrow>
                              if \<not> ok s then (s, None, w)
                              else
                                (case DecodeManifest contents of
                                   Inl ds \<Rightarrow>
                                     (Corruption (''manifest decode failed: '' @ mf_DecodeStatusName ds), None, w)
                                 | Inr d \<Rightarrow> (status_OK, Some d, w))))))"

definition SaveManifest :: "string \<Rightarrow> manifest_data \<Rightarrow> world \<Rightarrow> status \<times> bool \<times> world" where
  "SaveManifest dbname d w =
     (let temp_path = TempManifestPath dbname;
          final_path = ManifestPath dbname;
          encoded = EncodeManifest d []
      in case OpenTruncate temp_path w of
           (s, None, w) \<Rightarrow> (s, False, w)
         | (s, Some file, w) \<Rightarrow>
             (case Append file encoded w of
                (s, file, w) \<Rightarrow>
                  if \<not> ok s then (s, False, w)
                  else
                    (case Sync file w of
                       (s, w) \<Rightarrow>
                         if \<not> ok s then (s, False, w)
                         else
                           (case sys_rename temp_path final_path w of
                              (Some m, w) \<Rightarrow>
                                (IOError (''rename('' @ quoted temp_path @ '' -> '' @ quoted final_path @
                                   '') failed: '' @ m), False, w)
                            | (None, w) \<Rightarrow>
                                (case SyncDirectory dbname w of (s, w) \<Rightarrow> (s, True, w))))))"

lemma manifest_paths_neq [simp]:
  "TempManifestPath d \<noteq> ManifestPath d" "ManifestPath d \<noteq> TempManifestPath d"
  by (simp_all add: TempManifestPath_def ManifestPath_def kManifestTempFileName_def kManifestFileName_def)

subsection \<open>Publishing\<close>

text \<open>
  The outcomes of a save: not published, with at most the temporary file changed; or published, with
  the new manifest in place and the temporary file gone.
\<close>

lemma SaveManifest_outcome:
  assumes "SaveManifest dbname d w = (s, published, w')"
  shows "ok s \<Longrightarrow> published" and "\<not> ok s \<Longrightarrow> IsIOError s"
    and "\<not> published \<Longrightarrow>
      files w' = files w \<or> (\<exists>c. files w' = (files w)(TempManifestPath dbname \<mapsto> c))"
    and "published \<Longrightarrow> files w' =
      (files w)(TempManifestPath dbname := None, ManifestPath dbname \<mapsto> EncodeManifest d [])"
proof -
  let ?temp = "TempManifestPath dbname" and ?final = "ManifestPath dbname"
  obtain s1 fo w1 where op: "OpenTruncate ?temp w = (s1, fo, w1)"
    by (rule prod_cases3)
  note run = assms [unfolded SaveManifest_def Let_def op prod.case] and opened = OpenTruncate_effect [OF op]
  have "(ok s \<longrightarrow> published) \<and> (\<not> ok s \<longrightarrow> IsIOError s) \<and>
    (\<not> published \<longrightarrow> files w' = files w \<or> (\<exists>c. files w' = (files w)(?temp \<mapsto> c))) \<and>
    (published \<longrightarrow> files w' = (files w)(?temp := None, ?final \<mapsto> EncodeManifest d []))"
  proof (cases "ok s1")
    case False
    with run opened show ?thesis by auto
  next
    case True
    note opened = opened(2) [OF True]
    then have sink: "sink \<lparr>fd_path = ?temp, fd_append = False, fd_pos = 0\<rparr> [] w1"
      by (simp add: sink_def max_file_size_def)
    obtain s2 f2 w2 where ap: "Append \<lparr>fd_path = ?temp, fd_append = False, fd_pos = 0\<rparr>
        (EncodeManifest d []) w1 = (s2, f2, w2)"
      by (rule prod_cases3)
    note run = run [unfolded conjunct1 [OF opened] option.case ap prod.case]
    obtain n where n: "files w2 = (files w)(?temp \<mapsto> take n (EncodeManifest d []))"
      "ok s2 \<Longrightarrow> n = length (EncodeManifest d [])" "\<not> ok s2 \<Longrightarrow> IsIOError s2"
      using Append_sink [OF ap sink] opened by (auto split: if_splits)
    show ?thesis
    proof (cases "ok s2")
      case False
      with run n show ?thesis by auto
    next
      case True
      with n have w2: "files w2 = (files w)(?temp \<mapsto> EncodeManifest d [])"
        by simp
      obtain s3 w3 where sy: "Sync f2 w2 = (s3, w3)"
        by (cases "Sync f2 w2")
      have w3: "files w3 = files w2" using sy by (rule files_Sync)
      show ?thesis
      proof (cases "ok s3")
        case False
        with run True sy w2 w3 Sync_error [OF sy] show ?thesis by auto
      next
        case synced: True
        obtain e w4 where rn: "sys_rename ?temp ?final w3 = (e, w4)"
          by (cases "sys_rename ?temp ?final w3")
        note renamed = sys_rename_effect [OF rn]
        obtain s5 w5 where sd: "SyncDirectory dbname w4 = (s5, w5)"
          by (cases "SyncDirectory dbname w4")
        have io: "\<not> ok s5 \<Longrightarrow> IsIOError s5"
          using sd by (auto simp: SyncDirectory_def IsIOError_def Let_def split: prod.splits option.splits)
        note run = run [unfolded sy prod.case]
        show ?thesis
        proof (cases e)
          case (Some m)
          with run True synced rn renamed(1) w2 w3 show ?thesis by (auto simp: IsIOError_def)
        next
          case None
          with run True synced rn sd have "s = s5" "published" "w' = w5"
            by simp_all
          moreover have "files w4 = (files w)(?temp := None, ?final \<mapsto> EncodeManifest d [])"
            using renamed(2) [OF None] w2 w3 by auto
          ultimately show ?thesis
            using io files_SyncDirectory [OF sd] by auto
        qed
      qed
    qed
  qed
  then show "ok s \<Longrightarrow> published" "\<not> ok s \<Longrightarrow> IsIOError s"
    "\<not> published \<Longrightarrow> files w' = files w \<or> (\<exists>c. files w' = (files w)(?temp \<mapsto> c))"
    "published \<Longrightarrow> files w' = (files w)(?temp := None, ?final \<mapsto> EncodeManifest d [])"
    by blast+
qed

lemma SaveManifest_no_faults:
  assumes "faults w = []" and "length (mf_tables d) \<le> unat kMaxTableCount"
  shows "\<exists>w'. SaveManifest dbname d w = (status_OK, True, w') \<and> faults w' = []"
proof -
  let ?f = "\<lparr>fd_path = TempManifestPath dbname, fd_append = False, fd_pos = 0\<rparr>"
    and ?w = "w\<lparr>files := (files w)(TempManifestPath dbname \<mapsto> [])\<rparr>"
  have sink: "sink ?f [] ?w"
    by (simp add: sink_def max_file_size_def)
  have "length (EncodeManifest d []) \<le> max_file_size"
    using assms(2) by (simp add: EncodeManifest_layout max_file_size_def kMaxTableCount_def)
  then obtain f' w' where ap: "Append ?f (EncodeManifest d []) ?w = (status_OK, f', w')" "faults w' = []"
    using Append_no_faults [OF sink] assms(1) by fastforce
  then have "files w' (TempManifestPath dbname) = Some (EncodeManifest d [])"
    using Append_ok(1) [OF ap(1) sink] by simp
  with ap assms(1) show ?thesis
    by (simp add: SaveManifest_def Let_def OpenTruncate_no_faults)
qed

subsection \<open>Loading\<close>

lemma LoadManifest_effect:
  assumes "LoadManifest dbname w = (s, out, w')"
  shows "files w' = files w" and "ok s \<longleftrightarrow> out \<noteq> None"
    and "files w (ManifestPath dbname) = None \<Longrightarrow> IsNotFound s"
    and "files w (ManifestPath dbname) = Some c \<Longrightarrow> length c \<le> max_file_size \<Longrightarrow>
      (\<exists>d. s = status_OK \<and> out = Some d \<and> DecodeManifest c = Inr d) \<or>
      IsCorruption s \<and> (\<exists>e. DecodeManifest c = Inl e) \<or> IsNotFound s \<or> IsIOError s"
proof -
  let ?path = "ManifestPath dbname"
  obtain b w1 where ex: "sys_exists ?path w = (b, w1)"
    by (cases "sys_exists ?path w")
  obtain s2 fo w2 where op: "OpenRead ?path w1 = (s2, fo, w2)"
    by (rule prod_cases3)
  note run = assms [unfolded LoadManifest_def Let_def ex op prod.case] and frame1 = files_sys_exists [OF ex]
    and opened = OpenRead_effect [OF op]
  have "files w' = files w \<and> (ok s \<longleftrightarrow> out \<noteq> None) \<and> (files w ?path = None \<longrightarrow> IsNotFound s) \<and>
    (files w ?path = Some c \<longrightarrow> length c \<le> max_file_size \<longrightarrow>
      (\<exists>d. s = status_OK \<and> out = Some d \<and> DecodeManifest c = Inr d) \<or>
      IsCorruption s \<and> (\<exists>e. DecodeManifest c = Inl e) \<or> IsNotFound s \<or> IsIOError s)"
  proof (cases "b \<and> ok s2")
    case False
    with run frame1 opened sys_exists_True [of ?path w w1] ex show ?thesis
      by (cases b) (auto simp: IsNotFound_def)
  next
    case True
    let ?f = "\<lparr>fd_path = ?path, fd_append = False, fd_pos = 0\<rparr>"
    obtain c' where c': "files w ?path = Some c'"
      using sys_exists_True [of ?path w w1] ex True by auto
    note opened = opened(1) opened(2) [OF conjunct2 [OF True]]
    obtain s3 n w3 where sz: "Size ?f w2 = (s3, n, w3)"
      by (rule prod_cases3)
    obtain s4 bs short f4 w4 where rd: "Read ?f (unat n) w3 = (s4, bs, short, f4, w4)"
      by (rule prod_cases5)
    have run: "(if \<not> ok s3 then (s3, None, w3) else if \<not> ok s4 then (s4, None, w4)
      else case DecodeManifest bs of
         Inl ds \<Rightarrow> (Corruption (''manifest decode failed: '' @ mf_DecodeStatusName ds), None, w4)
       | Inr d \<Rightarrow> (status_OK, Some d, w4)) = (s, out, w')"
      using run True opened sz rd by (auto split: if_splits)
    have w3: "files w3 = files w"
      using files_Size [OF sz] opened frame1 by simp
    note read = Read_content [OF rd refl]
    have w4: "files w4 = files w" using read(1) w3 by simp
    have bs: "bs = c'" if "length c' \<le> max_file_size" "ok s3" "ok s4"
    proof -
      have "n = of_nat (length c')"
        using Size_ok [OF sz that(2)] opened frame1 c' by simp
      then have "unat n = length c'"
        using sint_small(2) [OF that(1)] by simp
      then show ?thesis
        using read(3) [OF that(3)] w3 c' by simp
    qed
    show ?thesis
    proof (cases "ok s3 \<and> ok s4")
      case False
      with run w3 w4 c' Size_error [OF sz] read(4) show ?thesis
        by (cases "ok s3") auto
    next
      case ok: True
      with run have run: "(case DecodeManifest bs of
         Inl ds \<Rightarrow> (Corruption (''manifest decode failed: '' @ mf_DecodeStatusName ds), None, w4)
       | Inr d \<Rightarrow> (status_OK, Some d, w4)) = (s, out, w')" by simp
      show ?thesis
        using run bs ok w4 c' by (cases "DecodeManifest bs") (auto simp: IsCorruption_def)
    qed
  qed
  then show "files w' = files w" "ok s \<longleftrightarrow> out \<noteq> None"
    "files w ?path = None \<Longrightarrow> IsNotFound s"
    "files w ?path = Some c \<Longrightarrow> length c \<le> max_file_size \<Longrightarrow>
      (\<exists>d. s = status_OK \<and> out = Some d \<and> DecodeManifest c = Inr d) \<or>
      IsCorruption s \<and> (\<exists>e. DecodeManifest c = Inl e) \<or> IsNotFound s \<or> IsIOError s"
    by blast+
qed

lemma LoadManifest_no_faults:
  assumes "faults w = []"
  shows "files w (ManifestPath dbname) = None \<Longrightarrow> \<exists>s. LoadManifest dbname w = (s, None, w) \<and> IsNotFound s"
    and "files w (ManifestPath dbname) = Some c \<Longrightarrow> length c \<le> max_file_size \<Longrightarrow> DecodeManifest c = Inr d \<Longrightarrow>
      LoadManifest dbname w = (status_OK, Some d, w)"
proof -
  show "files w (ManifestPath dbname) = None \<Longrightarrow> \<exists>s. LoadManifest dbname w = (s, None, w) \<and> IsNotFound s"
    using assms by (simp add: LoadManifest_def Let_def IsNotFound_def)
  assume c: "files w (ManifestPath dbname) = Some c" "length c \<le> max_file_size" "DecodeManifest c = Inr d"
  then show "LoadManifest dbname w = (status_OK, Some d, w)"
    using assms sint_small(2) [OF c(2)]
    by (simp add: LoadManifest_def Let_def OpenRead_no_faults Read_no_faults)
qed

subsection \<open>Sequences of saves\<close>

text \<open>
  What a client may rely on: a save that was published holds the new data, one that was not leaves the
  old data, and success implies publication.  So after any sequence of saves, whatever failed, the data
  held is that of the last published one.
\<close>

fun saves :: "('d \<Rightarrow> world \<Rightarrow> status \<times> bool \<times> world) \<Rightarrow> 'd list \<Rightarrow> world \<Rightarrow> bool list \<times> world" where
  "saves save [] w = ([], w)"
| "saves save (d # ds) w =
     (case save d w of (s, published, w) \<Rightarrow> case saves save ds w of (ps, w) \<Rightarrow> (published # ps, w))"

definition last_published :: "'d \<Rightarrow> 'd list \<Rightarrow> bool list \<Rightarrow> 'd" where
  "last_published e ds ps = last (e # map fst (filter snd (zip ds ps)))"

locale atomic_publish =
  fixes save :: "'d \<Rightarrow> world \<Rightarrow> status \<times> bool \<times> world" and holds :: "'d \<Rightarrow> world \<Rightarrow> bool"
  assumes published_holds: "save d w = (s, True, w') \<Longrightarrow> holds d w'"
    and unpublished_keeps: "save d w = (s, False, w') \<Longrightarrow> holds e w \<Longrightarrow> holds e w'"
begin

lemma saves_hold_last:
  "saves save ds w = (ps, w') \<Longrightarrow> holds e w \<Longrightarrow> holds (last_published e ds ps) w'"
proof (induction ds arbitrary: e w ps w')
  case Nil
  then show ?case by (simp add: last_published_def)
next
  case (Cons d ds)
  obtain s p w1 where save: "save d w = (s, p, w1)"
    by (rule prod_cases3)
  obtain qs w2 where rest: "saves save ds w1 = (qs, w2)"
    by (cases "saves save ds w1")
  with Cons.prems(1) save have ps: "ps = p # qs" "w' = w2"
    by simp_all
  show ?case
  proof (cases p)
    case True
    with save have "holds d w1" by (simp add: published_holds)
    from Cons.IH [OF rest [unfolded ps(2) [symmetric]] this] show ?thesis
      by (simp add: ps True last_published_def)
  next
    case False
    with save Cons.prems(2) have "holds e w1" by (simp add: unpublished_keeps)
    from Cons.IH [OF rest [unfolded ps(2) [symmetric]] this] show ?thesis
      by (simp add: ps False last_published_def)
  qed
qed

end

definition manifest_holds :: "string \<Rightarrow> manifest_data \<Rightarrow> world \<Rightarrow> bool" where
  "manifest_holds dbname d w \<longleftrightarrow> files w (ManifestPath dbname) = Some (EncodeManifest d [])"

interpretation manifest: atomic_publish "SaveManifest dbname" "manifest_holds dbname"
proof unfold_locales
  show "SaveManifest dbname d w = (s, True, w') \<Longrightarrow> manifest_holds dbname d w'" for d w s w'
    using SaveManifest_outcome(4) [of dbname d w s True w'] by (simp add: manifest_holds_def)
  show "SaveManifest dbname d w = (s, False, w') \<Longrightarrow> manifest_holds dbname e w \<Longrightarrow> manifest_holds dbname e w'"
    for d w s w' e
    using SaveManifest_outcome(3) [of dbname d w s False w'] by (auto simp: manifest_holds_def)
qed

lemma LoadManifest_holds:
  assumes "LoadManifest dbname w = (s, out, w')" and "manifest_holds dbname d w"
    and "length (mf_tables d) \<le> unat kMaxTableCount"
  shows "ok s \<Longrightarrow> out = Some d" "\<not> ok s \<Longrightarrow> IsIOError s \<or> IsNotFound s" "faults w = [] \<Longrightarrow> ok s"
proof -
  have size: "length (EncodeManifest d []) \<le> max_file_size"
    using assms(3) by (simp add: EncodeManifest_layout max_file_size_def kMaxTableCount_def)
  note decode = DecodeManifest_EncodeManifest [OF assms(3)]
  note effect = LoadManifest_effect(4) [OF assms(1) assms(2) [unfolded manifest_holds_def] size, unfolded decode]
  show "ok s \<Longrightarrow> out = Some d" "\<not> ok s \<Longrightarrow> IsIOError s \<or> IsNotFound s"
    using effect by (auto simp: IsIOError_def IsNotFound_def ok_def)
  show "faults w = [] \<Longrightarrow> ok s"
    using LoadManifest_no_faults(2) [OF _ assms(2) [unfolded manifest_holds_def] size decode] assms(1) by simp
qed

end
