(* ===== verification/Pebble_Db.thy ===== *)
theory Pebble_Db
  imports Pebble_Sst_Reader Pebble_Wal_Writer Pebble_Manifest "HOL-Library.Monad_Syntax"
begin

text \<open>
  The store (db.hpp, db.cpp): opening and recovering a directory, \<open>Put\<close>, \<open>Delete\<close>, \<open>Get\<close>,
  \<open>Flush\<close>, \<open>Compact\<close> and the counters.  Every operation holds the store's lock for its whole duration,
  so it is a function of the store and the system; the counters that \<open>Get\<close> updates under the shared lock
  are atomic increments.  \<open>None\<close> is behaviour the language leaves undefined: the division by zero in the
  Bloom filter, or a persistent store without a log writer.
\<close>

record db_options =
  op_memtable_size_threshold_bytes :: u64
  op_wal_sync_policy :: sync_policy
  op_wal_batch_size :: u64
  op_filter_bits_per_key :: u64
  op_block_cache_capacity_bytes :: u64

definition default_options :: db_options where
  "default_options = \<lparr>op_memtable_size_threshold_bytes = kDefaultSizeThresholdBytes,
     op_wal_sync_policy = kEveryWrite, op_wal_batch_size = 1, op_filter_bits_per_key = 10,
     op_block_cache_capacity_bytes = 8 * 1024 * 1024\<rparr>"

record db_stats =
  st_put_count :: u64
  st_delete_count :: u64
  st_get_count :: u64
  st_get_hit_count :: u64
  st_get_miss_count :: u64
  st_live_key_count :: u64
  st_sstable_count :: u64
  st_flush_count :: u64

definition zero_stats :: db_stats where
  "zero_stats = \<lparr>st_put_count = 0, st_delete_count = 0, st_get_count = 0, st_get_hit_count = 0,
     st_get_miss_count = 0, st_live_key_count = 0, st_sstable_count = 0, st_flush_count = 0\<rparr>"

record db =
  db_options :: db_options
  db_dbname :: string
  db_memtables :: memtable_list
  db_wal_writer :: "wal_writer option"
  db_current_wal_number :: u64
  db_next_file_number :: u64
  db_next_sequence :: u64
  db_manifest :: manifest_data
  db_block_cache :: "block_cache option"
  db_tables :: "sst_reader list"
  db_live_key_count :: u64
  db_stats :: db_stats
  db_get_count :: u64
  db_get_hit_count :: u64
  db_get_miss_count :: u64

text \<open>The constructors: \<open>DB(options)\<close> in memory, \<open>DB(dbname, options)\<close> before \<open>Recover\<close>.\<close>

definition new_db :: "db_options \<Rightarrow> db" where
  "new_db options = \<lparr>db_options = options, db_dbname = [], db_memtables = new_memtable_list,
     db_wal_writer = None, db_current_wal_number = 0, db_next_file_number = 1, db_next_sequence = 1,
     db_manifest = default_manifest, db_block_cache = None, db_tables = [], db_live_key_count = 0,
     db_stats = zero_stats, db_get_count = 0, db_get_hit_count = 0, db_get_miss_count = 0\<rparr>"

definition new_persistent_db :: "string \<Rightarrow> db_options \<Rightarrow> db" where
  "new_persistent_db dbname options = (new_db options)\<lparr>db_dbname := dbname,
     db_block_cache := Some (new_block_cache (op_block_cache_capacity_bytes options))\<rparr>"

definition persistent :: "db \<Rightarrow> bool" where
  "persistent db \<longleftrightarrow> db_dbname db \<noteq> []"

subsection \<open>The merged read path\<close>

text \<open>
  The loop over the tables, newest first: a reader's failure is returned, the first table with a record
  of the key ends the search.
\<close>

fun search_tables :: "bytes \<Rightarrow> lookup_output \<Rightarrow> sst_reader list \<Rightarrow> block_cache option \<Rightarrow> world \<Rightarrow>
    (status \<times> lookup_output \<times> sst_reader list \<times> block_cache option \<times> world) option" where
  "search_tables key out [] cache w = Some (status_OK, out, [], cache, w)"
| "search_tables key (result, val, sequence) (rd # rds) cache w =
     do {
       (s, out, rd, cache, w) \<leftarrow> SstReader_Get rd key val sequence cache w;
       if \<not> ok s \<or> fst out \<noteq> kLookupNotFound then Some (s, out, rd # rds, cache, w)
       else do {
         (s, out, rds, cache, w) \<leftarrow> search_tables key out rds cache w;
         Some (s, out, rd # rds, cache, w)
       }
     }"

definition merged_lookup :: "db \<Rightarrow> bytes \<Rightarrow> bytes \<Rightarrow> world \<Rightarrow> (status \<times> lookup_output \<times> db \<times> world) option" where
  "merged_lookup db key val w =
     (let out = List_Get (db_memtables db) key val 0
      in if fst out = kLookupNotFound
         then do {
           (s, out, rds, cache, w) \<leftarrow>
             search_tables key out (rev (db_tables db)) (db_block_cache db) w;
           Some (s, out, db\<lparr>db_tables := rev rds, db_block_cache := cache\<rparr>, w)
         }
         else Some (status_OK, out, db, w))"

text \<open>\<open>Get\<close>: the status, what \<open>*value\<close> holds afterwards, the store and the system.\<close>

definition DB_Get :: "db \<Rightarrow> bytes \<Rightarrow> bytes \<Rightarrow> world \<Rightarrow> (status \<times> bytes \<times> db \<times> world) option" where
  "DB_Get db key val w =
     do {
       let db = db\<lparr>db_get_count := db_get_count db + 1\<rparr>;
       (s, (result, val, sequence), db, w) \<leftarrow> merged_lookup db key val w;
       if \<not> ok s then Some (s, val, db, w)
       else if result = kFound
       then Some (status_OK, val, db\<lparr>db_get_hit_count := db_get_hit_count db + 1\<rparr>, w)
       else Some (NotFound [], val, db\<lparr>db_get_miss_count := db_get_miss_count db + 1\<rparr>, w)
     }"

definition IsKeyCurrentlyLive :: "db \<Rightarrow> bytes \<Rightarrow> world \<Rightarrow> (bool \<times> db \<times> world) option" where
  "IsKeyCurrentlyLive db key w =
     do {
       (s, (result, discard_value, discard_sequence), db, w) \<leftarrow> merged_lookup db key [] w;
       Some (ok s \<and> result = kFound, db, w)
     }"

text \<open>The scan of every layer that seeds the live key count: \<open>try_emplace\<close> keeps the first sighting.\<close>

definition try_emplace :: "bytes \<Rightarrow> bool \<Rightarrow> (bytes \<times> bool) list \<Rightarrow> (bytes \<times> bool) list" where
  "try_emplace key is_live resolved =
     (if map_of resolved key = None then ordered_put key is_live resolved else resolved)"

definition record_memtable :: "memtable \<Rightarrow> (bytes \<times> bool) list \<Rightarrow> (bytes \<times> bool) list" where
  "record_memtable t resolved =
     fold (\<lambda>(key, e). try_emplace key (me_type e = kValue)) (mt_table t) resolved"

fun record_tables :: "sst_reader list \<Rightarrow> block_cache option \<Rightarrow> world \<Rightarrow> (bytes \<times> bool) list \<Rightarrow>
    (bytes \<times> bool) list \<times> sst_reader list \<times> block_cache option \<times> world" where
  "record_tables [] cache w resolved = (resolved, [], cache, w)"
| "record_tables (rd # rds) cache w resolved =
     (case ForEachEntry rd cache w of
        (s, es, rd, cache, w) \<Rightarrow>
          (case record_tables rds cache w
                  (fold (\<lambda>e. try_emplace (se_key e) (se_type e = kValue)) es resolved) of
             (resolved, rds, cache, w) \<Rightarrow> (resolved, rd # rds, cache, w)))"

definition ComputeLiveKeyCount :: "db \<Rightarrow> world \<Rightarrow> u64 \<times> db \<times> world" where
  "ComputeLiveKeyCount db w =
     (let resolved = record_memtable (ml_active (db_memtables db)) [];
          resolved = fold record_memtable (ml_immutables (db_memtables db)) resolved
      in case record_tables (rev (db_tables db)) (db_block_cache db) w resolved of
           (resolved, rds, cache, w) \<Rightarrow>
             (of_nat (length (filter snd resolved)),
              db\<lparr>db_tables := rev rds, db_block_cache := cache\<rparr>, w))"

subsection \<open>Flushing\<close>

fun add_entries :: "(bytes \<times> mem_entry) list \<Rightarrow> sst_writer \<Rightarrow> world \<Rightarrow> status \<times> sst_writer \<times> world" where
  "add_entries [] wr w = (status_OK, wr, w)"
| "add_entries ((key, entry) # es) wr w =
     (case SstWriter_Add key (me_value entry) (me_sequence entry) (me_type entry) wr w of
        (s, wr, w) \<Rightarrow> if \<not> ok s then (s, wr, w) else add_entries es wr w)"

text \<open>Writing one frozen table to its file and opening a reader on it.\<close>

definition write_table :: "db \<Rightarrow> memtable \<Rightarrow> u64 \<Rightarrow> world \<Rightarrow> (status \<times> sst_reader option \<times> world) option" where
  "write_table db frozen table_number w =
     (let table_path = SstableFileName (db_dbname db) table_number;
          writer_options = default_writer_options
            \<lparr>wo_filter_bits_per_key := op_filter_bits_per_key (db_options db)\<rparr>
      in case SstWriter_Open table_path writer_options w of
           (s, None, w) \<Rightarrow> Some (s, None, w)
         | (s, Some writer, w) \<Rightarrow>
             (case add_entries (mt_table frozen) writer w of
                (s, writer, w) \<Rightarrow>
                  if \<not> ok s then Some (s, None, w)
                  else do {
                    (s, writer, w) \<leftarrow> SstWriter_Finish writer w;
                    if \<not> ok s then Some (s, None, w)
                    else Some (SstReader_Open table_path table_number w)
                  }))"

text \<open>Publishing it: the manifest that names it, then the store that reads from it.\<close>

definition publish_table :: "db \<Rightarrow> memtable \<Rightarrow> u64 \<Rightarrow> sst_reader \<Rightarrow> world \<Rightarrow> status \<times> db \<times> world" where
  "publish_table db frozen table_number reader w =
     (let new_manifest = (db_manifest db)
            \<lparr>mf_next_file_number := db_next_file_number db,
             mf_wal_file_number := db_current_wal_number db,
             mf_last_sequence := db_next_sequence db - 1,
             mf_tables := mf_tables (db_manifest db) @ [\<lparr>tf_file_number = table_number, tf_level = 0\<rparr>]\<rparr>
      in case SaveManifest (db_dbname db) new_manifest w of
           (s, published, w) \<Rightarrow>
             if \<not> ok s \<and> \<not> published then (s, db, w)
             else (s, db\<lparr>db_manifest := new_manifest, db_tables := db_tables db @ [reader],
                         db_memtables := RemoveImmutable frozen (db_memtables db),
                         db_stats := (db_stats db)\<lparr>st_flush_count := st_flush_count (db_stats db) + 1\<rparr>\<rparr>, w))"

text \<open>One round of the loop: the oldest frozen table becomes a published table.\<close>

definition flush_one :: "db \<Rightarrow> world \<Rightarrow> (status \<times> db \<times> world) option" where
  "flush_one db w =
     (let frozen = last (ml_immutables (db_memtables db));
          table_number = db_next_file_number db;
          db = db\<lparr>db_next_file_number := db_next_file_number db + 1\<rparr>
      in do {
        (s, reader, w) \<leftarrow> write_table db frozen table_number w;
        case reader of
          None \<Rightarrow> Some (s, db, w)
        | Some reader \<Rightarrow> Some (publish_table db frozen table_number reader w)
      })"

text \<open>
  A round that succeeds has removed the frozen table it wrote, so the loop over the frozen tables ends.
\<close>

lemma OpenRead_None: "OpenRead p w = (s, None, w') \<Longrightarrow> \<not> ok s"
  using OpenRead_effect(2) by fastforce

lemma SstReader_Open_None: "SstReader_Open p f w = (s, None, w') \<Longrightarrow> \<not> ok s"
  by (auto simp: SstReader_Open_def Let_def ToStatus_def split: prod.splits option.splits if_splits sum.splits
      dest: OpenRead_None)

lemma SstWriter_Open_None: "SstWriter_Open p opts w = (s, None, w') \<Longrightarrow> \<not> ok s"
  using SstWriter_Open_effect(2) [of p opts w s None w'] by auto

lemma write_table_None:
  assumes "write_table db frozen n w = Some (s, None, w')"
  shows "\<not> ok s"
  using assms
  by (auto simp: write_table_def Let_def bind_eq_Some_conv split: prod.splits option.splits if_splits
      dest: SstReader_Open_None SstWriter_Open_None)

lemma length_erase_first:
  "t \<in> set ts \<Longrightarrow> length (erase_first (mt_address t) ts) < length ts"
  by (induction ts) auto

lemma publish_table_progress:
  assumes "publish_table db frozen n rd w = (s, db', w')" and "ok s"
  shows "db_memtables db' = RemoveImmutable frozen (db_memtables db)"
  using assms by (auto simp: publish_table_def Let_def split: prod.splits if_splits)

lemma flush_one_progress:
  assumes "flush_one db w = Some (s, db', w')" and "ok s" and "0 < ImmutableCount (db_memtables db)"
  shows "ImmutableCount (db_memtables db') < ImmutableCount (db_memtables db)"
proof -
  let ?l = "db_memtables db" and ?db = "db\<lparr>db_next_file_number := db_next_file_number db + 1\<rparr>"
  obtain s1 reader w1 where wt: "write_table ?db (last (ml_immutables ?l)) (db_next_file_number db) w =
      Some (s1, reader, w1)"
    using assms(1) by (auto simp: flush_one_def Let_def bind_eq_Some_conv)
  note run = assms(1) [unfolded flush_one_def Let_def wt bind.bind_lunit prod.case]
  obtain rd where "reader = Some rd"
    using run assms(2) write_table_None [of ?db "last (ml_immutables ?l)" "db_next_file_number db" w s1 w1] wt
    by (cases reader) auto
  with run have "publish_table ?db (last (ml_immutables ?l)) (db_next_file_number db) rd w1 = (s, db', w')"
    by simp
  from publish_table_progress [OF this assms(2)]
  have "db_memtables db' = RemoveImmutable (last (ml_immutables ?l)) ?l"
    by simp
  with assms(3) length_erase_first [OF last_in_set, of "ml_immutables ?l"] show ?thesis
    by (simp add: ImmutableCount_def RemoveImmutable_def)
qed

function flush_rounds :: "db \<Rightarrow> world \<Rightarrow> (status \<times> db \<times> world) option" where
  "flush_rounds db w =
     (if 0 < ImmutableCount (db_memtables db)
      then (case flush_one db w of
              None \<Rightarrow> None
            | Some (s, db', w') \<Rightarrow> if \<not> ok s then Some (s, db', w') else flush_rounds db' w')
      else Some (status_OK, db, w))"
  by pat_completeness auto
termination
  by (relation "measure (\<lambda>(db, w). ImmutableCount (db_memtables db))") (auto dest: flush_one_progress)

declare flush_rounds.simps [simp del]

text \<open>Changing over to a new log, once every record of the old one is in a published table.\<close>

definition rotate_wal :: "db \<Rightarrow> world \<Rightarrow> status \<times> db \<times> world" where
  "rotate_wal db w =
     (let new_wal_number = db_next_file_number db;
          db = db\<lparr>db_next_file_number := db_next_file_number db + 1\<rparr>
      in case WalWriter_Open (WalFileName (db_dbname db) new_wal_number)
                (op_wal_sync_policy (db_options db)) (op_wal_batch_size (db_options db)) w of
           (ws, None, w) \<Rightarrow> (ws, db, w)
         | (ws, Some new_wal_writer, w) \<Rightarrow>
             (let rotated_manifest = (db_manifest db)\<lparr>mf_wal_file_number := new_wal_number\<rparr>
              in case SaveManifest (db_dbname db) rotated_manifest w of
                   (rs, rotate_published, w) \<Rightarrow>
                     if \<not> ok rs \<and> \<not> rotate_published then (rs, db, w)
                     else
                       let old_wal_path = WalFileName (db_dbname db) (db_current_wal_number db);
                           db = db\<lparr>db_manifest := rotated_manifest, db_wal_writer := Some new_wal_writer,
                                   db_current_wal_number := new_wal_number\<rparr>;
                           w = sys_remove old_wal_path w
                       in (rs, db, w)))"

definition FlushLocked :: "db \<Rightarrow> world \<Rightarrow> (status \<times> db \<times> world) option" where
  "FlushLocked db w =
     (if \<not> persistent db then Some (status_OK, db, w)
      else
        let db = (if \<not> MemTable_empty (ml_active (db_memtables db))
                  then db\<lparr>db_memtables := Freeze (db_memtables db)\<rparr> else db)
        in if ImmutableCount (db_memtables db) = 0 then Some (status_OK, db, w)
           else do {
             (s, db, w) \<leftarrow> flush_rounds db w;
             if \<not> ok s then Some (s, db, w) else Some (rotate_wal db w)
           })"

definition DB_Flush :: "db \<Rightarrow> world \<Rightarrow> (status \<times> db \<times> world) option" where
  "DB_Flush db w = FlushLocked db w"

definition DB_Compact :: "db \<Rightarrow> world \<Rightarrow> (status \<times> db \<times> world) option" where
  "DB_Compact db w = Some (status_OK, db, w)"

subsection \<open>Writing\<close>

text \<open>The write-ahead step both writes begin with.\<close>

definition log_write :: "db \<Rightarrow> wal_record \<Rightarrow> world \<Rightarrow> (status \<times> db \<times> world) option" where
  "log_write db record w =
     (if persistent db
      then (case db_wal_writer db of
              None \<Rightarrow> None
            | Some wr \<Rightarrow>
                (case AddRecord wr record w of
                   (s, wr, w) \<Rightarrow> Some (s, db\<lparr>db_wal_writer := Some wr\<rparr>, w)))
      else Some (status_OK, db, w))"

text \<open>The automatic flush both writes end with.\<close>

definition maybe_flush :: "db \<Rightarrow> world \<Rightarrow> (status \<times> db \<times> world) option" where
  "maybe_flush db w =
     (if persistent db \<and>
         ActiveShouldFlush (db_memtables db) (op_memtable_size_threshold_bytes (db_options db))
      then FlushLocked db w
      else Some (status_OK, db, w))"

definition DB_Put :: "db \<Rightarrow> bytes \<Rightarrow> bytes \<Rightarrow> world \<Rightarrow> (status \<times> db \<times> world) option" where
  "DB_Put db key val w =
     do {
       let sequence = db_next_sequence db;
       (s, db, w) \<leftarrow> log_write db
         \<lparr>wr_sequence = sequence, wr_type = kPut, wr_key = key, wr_value = val\<rparr> w;
       if \<not> ok s then Some (s, db, w)
       else do {
         let db = db\<lparr>db_next_sequence := db_next_sequence db + 1\<rparr>;
         (was_live, db, w) \<leftarrow> IsKeyCurrentlyLive db key w;
         let db = db\<lparr>db_memtables := List_Put key val sequence (db_memtables db)\<rparr>;
         let db = (if \<not> was_live then db\<lparr>db_live_key_count := db_live_key_count db + 1\<rparr> else db);
         let db = db\<lparr>db_stats := (db_stats db)\<lparr>st_put_count := st_put_count (db_stats db) + 1\<rparr>\<rparr>;
         maybe_flush db w
       }
     }"

definition DB_Delete :: "db \<Rightarrow> bytes \<Rightarrow> world \<Rightarrow> (status \<times> db \<times> world) option" where
  "DB_Delete db key w =
     do {
       let sequence = db_next_sequence db;
       (s, db, w) \<leftarrow> log_write db
         \<lparr>wr_sequence = sequence, wr_type = kDelete, wr_key = key, wr_value = []\<rparr> w;
       if \<not> ok s then Some (s, db, w)
       else do {
         let db = db\<lparr>db_next_sequence := db_next_sequence db + 1\<rparr>;
         (was_live, db, w) \<leftarrow> IsKeyCurrentlyLive db key w;
         let db = db\<lparr>db_memtables := List_Delete key sequence (db_memtables db)\<rparr>;
         let db = (if was_live then db\<lparr>db_live_key_count := db_live_key_count db - 1\<rparr> else db);
         let db = db\<lparr>db_stats := (db_stats db)\<lparr>st_delete_count := st_delete_count (db_stats db) + 1\<rparr>\<rparr>;
         maybe_flush db w
       }
     }"

definition DB_GetStats :: "db \<Rightarrow> db_stats" where
  "DB_GetStats db = (db_stats db)\<lparr>st_get_count := db_get_count db,
     st_get_hit_count := db_get_hit_count db, st_get_miss_count := db_get_miss_count db,
     st_sstable_count := of_nat (length (db_tables db)), st_live_key_count := db_live_key_count db\<rparr>"

subsection \<open>Opening\<close>

fun open_tables :: "string \<Rightarrow> table_file_info list \<Rightarrow> world \<Rightarrow> status \<times> sst_reader list \<times> world" where
  "open_tables dbname [] w = (status_OK, [], w)"
| "open_tables dbname (t # ts) w =
     (case SstReader_Open (SstableFileName dbname (tf_file_number t)) (tf_file_number t) w of
        (s, None, w) \<Rightarrow> (s, [], w)
      | (s, Some reader, w) \<Rightarrow>
          (case open_tables dbname ts w of (s, rds, w) \<Rightarrow> (s, reader # rds, w)))"

text \<open>The callback of \<open>Replay\<close>: the highest sequence number and the memtables.\<close>

definition replay_record :: "wal_record \<Rightarrow> u64 \<times> memtable_list \<Rightarrow> u64 \<times> memtable_list" where
  "replay_record record = (\<lambda>(max_sequence_seen, memtables).
     (if max_sequence_seen < wr_sequence record then wr_sequence record else max_sequence_seen,
      if wr_type record = kPut then List_Put (wr_key record) (wr_value record) (wr_sequence record) memtables
      else List_Delete (wr_key record) (wr_sequence record) memtables))"

definition recover_wal :: "db \<Rightarrow> world \<Rightarrow> status \<times> u64 \<times> db \<times> world" where
  "recover_wal db w =
     (let wal_number = mf_wal_file_number (db_manifest db);
          path = WalFileName (db_dbname db) wal_number
      in case WalReader_Open path w of
           (rs, None, w) \<Rightarrow> (rs, 0, db, w)
         | (rs, Some wal_reader, w) \<Rightarrow>
             (case Replay wal_reader w of
                (records, replayed, terminal, wal_reader, w) \<Rightarrow>
                  (case fold replay_record records (mf_last_sequence (db_manifest db), db_memtables db) of
                     (max_sequence_seen, memtables) \<Rightarrow>
                       let db = db\<lparr>db_memtables := memtables\<rparr>
                       in if terminal = ReadCorruption \<or> terminal = ReadUnsupportedVersion
                          then (Corruption (''WAL '' @ decimal (unat wal_number) @
                                  '' corrupted during replay: '' @ ReadResultName terminal), 0, db, w)
                          else
                            (case (if terminal = ReadTruncated
                                   then TruncateFile path (valid_prefix_length wal_reader) w
                                   else (status_OK, w)) of
                               (ts, w) \<Rightarrow>
                                 if \<not> ok ts then (ts, 0, db, w)
                                 else
                                   (case WalWriter_Open path (op_wal_sync_policy (db_options db))
                                           (op_wal_batch_size (db_options db)) w of
                                      (ws, None, w) \<Rightarrow> (ws, 0, db, w)
                                    | (ws, Some writer, w) \<Rightarrow>
                                        (status_OK, max_sequence_seen,
                                         db\<lparr>db_wal_writer := Some writer,
                                            db_current_wal_number := wal_number\<rparr>, w))))))"

definition create_wal :: "db \<Rightarrow> world \<Rightarrow> status \<times> u64 \<times> db \<times> world" where
  "create_wal db w =
     (let max_sequence_seen = mf_last_sequence (db_manifest db);
          wal_number = db_next_file_number db;
          db = db\<lparr>db_current_wal_number := wal_number,
                  db_next_file_number := db_next_file_number db + 1\<rparr>
      in case WalWriter_Open (WalFileName (db_dbname db) wal_number)
                (op_wal_sync_policy (db_options db)) (op_wal_batch_size (db_options db)) w of
           (ws, None, w) \<Rightarrow> (ws, 0, db, w)
         | (ws, Some writer, w) \<Rightarrow>
             (let db = db\<lparr>db_wal_writer := Some writer,
                          db_manifest := (db_manifest db)
                            \<lparr>mf_next_file_number := db_next_file_number db,
                             mf_wal_file_number := wal_number,
                             mf_last_sequence := max_sequence_seen\<rparr>\<rparr>
              in case SaveManifest (db_dbname db) (db_manifest db) w of
                   (ss, published, w) \<Rightarrow> (ss, max_sequence_seen, db, w)))"

definition Recover :: "db \<Rightarrow> world \<Rightarrow> status \<times> db \<times> world" where
  "Recover db w =
     (case LoadManifest (db_dbname db) w of
        (manifest_status, loaded, w) \<Rightarrow>
          if \<not> ok manifest_status \<and> \<not> IsNotFound manifest_status then (manifest_status, db, w)
          else
            let db = (if ok manifest_status then db\<lparr>db_manifest := the loaded\<rparr> else db);
                db = db\<lparr>db_next_file_number := mf_next_file_number (db_manifest db)\<rparr>
            in case open_tables (db_dbname db) (mf_tables (db_manifest db)) w of
                 (ts, rds, w) \<Rightarrow>
                   let db = db\<lparr>db_tables := rds\<rparr>
                   in if \<not> ok ts then (ts, db, w)
                      else
                        (case (if mf_wal_file_number (db_manifest db) \<noteq> 0 then recover_wal db w
                               else create_wal db w) of
                           (s, max_sequence_seen, db, w) \<Rightarrow>
                             if \<not> ok s then (s, db, w)
                             else
                               let db = db\<lparr>db_next_sequence := max_sequence_seen + 1\<rparr>
                               in case ComputeLiveKeyCount db w of
                                    (n, db, w) \<Rightarrow> (status_OK, db\<lparr>db_live_key_count := n\<rparr>, w)))"

definition DB_Open :: "string \<Rightarrow> db_options \<Rightarrow> world \<Rightarrow> status \<times> db option \<times> world" where
  "DB_Open dbname options w =
     (case sys_create_directories dbname w of
        (Some m, w) \<Rightarrow> (IOError (''failed to create DB directory '' @ quoted dbname @ '': '' @ m), None, w)
      | (None, w) \<Rightarrow>
          (case Recover (new_persistent_db dbname options) w of
             (s, db, w) \<Rightarrow> if \<not> ok s then (s, None, w) else (status_OK, Some db, w)))"

end
