(* ===== verification/Pebble_Db_Read.thy ===== *)
theory Pebble_Db_Read
  imports Pebble_Db
begin

text \<open>
  Reading the store.  \<open>readable\<close> says what the readers, the cache and the files of a store have in
  common with a list of stored tables \<open>G\<close>, oldest first; \<open>db_layer\<close> is the merge of all layers.  Shown
  here: a lookup answers from that merge or reports an I/O error, whatever the system does, and no
  read changes a file, a table or what is read.
\<close>

text \<open>A stored table: its file number, its blocks and its filter.\<close>

record stored_table =
  stt_number :: u64
  stt_blocks :: "sst_entry list list"
  stt_filter :: bytes

definition table_layer :: "stored_table \<Rightarrow> layer" where
  "table_layer t = entries_map (concat (stt_blocks t))"

definition blocks_of :: "stored_table list \<Rightarrow> u64 \<rightharpoonup> sst_entry list list" where
  "blocks_of G = map_of (map (\<lambda>t. (stt_number t, stt_blocks t)) G)"

definition open_table :: "string \<Rightarrow> world \<Rightarrow> sst_reader \<Rightarrow> stored_table \<Rightarrow> bool" where
  "open_table dbname w rd t \<longleftrightarrow>
     table_on_disk rd (SstableFileName dbname (stt_number t)) (stt_number t) (stt_blocks t) (stt_filter t) w \<and>
     (\<exists>bits. filter_for bits (concat (stt_blocks t)) (stt_filter t))"

text \<open>
  The cache may only hold blocks of the stored tables: it stays right whatever tables come later.
\<close>

definition cache_for :: "stored_table list \<Rightarrow> block_cache option \<Rightarrow> bool" where
  "cache_for G cache \<longleftrightarrow> (\<forall>T. blocks_of G \<subseteq>\<^sub>m T \<longrightarrow> good_cache T cache)"

definition readable :: "stored_table list \<Rightarrow> db \<Rightarrow> world \<Rightarrow> bool" where
  "readable G db w \<longleftrightarrow> memtable_list_inv (db_memtables db) \<and>
     list_all2 (open_table (db_dbname db) w) (db_tables db) G \<and> distinct (map stt_number G) \<and>
     cache_for G (db_block_cache db)"

definition tables_layer :: "stored_table list \<Rightarrow> layer" where
  "tables_layer G = overlay (map table_layer (rev G))"

definition db_layer :: "stored_table list \<Rightarrow> db \<Rightarrow> layer" where
  "db_layer G db = tables_layer G ++ list_view (db_memtables db)"

lemma tables_layer_simps [simp]:
  "tables_layer [] = Map.empty"
  "tables_layer (G @ [t]) = tables_layer G ++ table_layer t"
  by (simp_all add: tables_layer_def)

lemma blocks_of_member: "distinct (map stt_number G) \<Longrightarrow> t \<in> set G \<Longrightarrow> blocks_of G (stt_number t) = Some (stt_blocks t)"
  by (force simp: blocks_of_def comp_def intro!: map_of_is_SomeI)

lemma open_table_frame:
  "files w' (SstableFileName dbname (stt_number t)) = files w (SstableFileName dbname (stt_number t)) \<Longrightarrow>
   open_table dbname w' rd t = open_table dbname w rd t"
  by (simp add: open_table_def table_on_disk_def)

lemma open_tables_frame:
  assumes "list_all2 (open_table dbname w) rds G"
    and "\<And>t. t \<in> set G \<Longrightarrow> files w' (SstableFileName dbname (stt_number t)) = files w (SstableFileName dbname (stt_number t))"
  shows "list_all2 (open_table dbname w') rds G"
  by (rule list.rel_mono_strong [OF assms(1)]) (simp add: open_table_frame [of w' dbname _ w] assms(2))

lemma open_table_keeps:
  "open_table dbname w rd t \<Longrightarrow> read_keeps T rd cache w s rd' cache' w' \<Longrightarrow> open_table dbname w' rd' t"
  by (auto simp: open_table_def table_on_disk_def read_keeps_def reads_table_def)

subsection \<open>Lookups\<close>

text \<open>What a read of the store keeps, apart from its counters.\<close>

definition search_keeps :: "stored_table list \<Rightarrow> string \<Rightarrow> stored_table list \<Rightarrow> block_cache option \<Rightarrow> world \<Rightarrow>
    status \<Rightarrow> sst_reader list \<Rightarrow> block_cache option \<Rightarrow> world \<Rightarrow> bool" where
  "search_keeps G0 dbname G cache w s rds' cache' w' \<longleftrightarrow>
     files w' = files w \<and> cache_for G0 cache' \<and> (cache' = None \<longleftrightarrow> cache = None) \<and>
     list_all2 (open_table dbname w) rds' G \<and>
     (\<not> ok s \<longrightarrow> IsIOError s) \<and> (faults w = [] \<longrightarrow> ok s \<and> w' = w)"

lemma open_tables_files:
  "list_all2 (open_table dbname w) rds G \<Longrightarrow> files w' = files w \<Longrightarrow> list_all2 (open_table dbname w') rds G"
  by (erule open_tables_frame) simp

lemma SstReader_Get_stored:
  assumes "open_table dbname w rd t" and "t \<in> set G0" and "distinct (map stt_number G0)" and "cache_for G0 cache"
  shows "\<exists>s out rd' cache' w'. SstReader_Get rd key v q cache w = Some (s, out, rd', cache', w') \<and>
    read_keeps (blocks_of G0) rd cache w s rd' cache' w' \<and> cache_for G0 cache' \<and>
    (ok s \<longrightarrow> out = lookup_in (table_layer t) key v q)"
proof -
  obtain bits where disk: "table_on_disk rd (SstableFileName dbname (stt_number t)) (stt_number t) (stt_blocks t) (stt_filter t) w"
    and filt: "filter_for bits (concat (stt_blocks t)) (stt_filter t)"
    using assms(1) by (auto simp: open_table_def)
  have own: "blocks_of G0 (stt_number t) = Some (stt_blocks t)"
    using assms(2,3) by (simp add: blocks_of_member)
  have get: "\<exists>s out rd' cache' w'. SstReader_Get rd key v q cache w = Some (s, out, rd', cache', w') \<and>
      read_keeps T rd cache w s rd' cache' w' \<and> (ok s \<longrightarrow> out = lookup_in (table_layer t) key v q)"
    if "blocks_of G0 \<subseteq>\<^sub>m T" for T
  proof -
    have "T (stt_number t) = Some (stt_blocks t)" "good_cache T cache"
      using that own assms(4) by (auto simp: map_le_def dom_def cache_for_def)
    from SstReader_Get_table [OF disk filt this, of key v q] show ?thesis
      unfolding table_layer_def .
  qed
  from get [OF map_le_refl] obtain s out rd' cache' w' where run: "SstReader_Get rd key v q cache w = Some (s, out, rd', cache', w')"
    and keeps: "read_keeps (blocks_of G0) rd cache w s rd' cache' w'" "ok s \<Longrightarrow> out = lookup_in (table_layer t) key v q"
    by blast
  have "cache_for G0 cache'"
    unfolding cache_for_def
  proof (intro allI impI)
    fix T assume "blocks_of G0 \<subseteq>\<^sub>m T"
    from get [OF this] run show "good_cache T cache'"
      by (auto simp: read_keeps_def)
  qed
  with run keeps show ?thesis by blast
qed

lemma search_tables_effect:
  assumes "list_all2 (open_table dbname w) rds G" and "set G \<subseteq> set G0" and "distinct (map stt_number G0)"
    and "cache_for G0 cache"
  shows "\<exists>s out rds' cache' w'. search_tables key (kLookupNotFound, v, q) rds cache w = Some (s, out, rds', cache', w') \<and>
    search_keeps G0 dbname G cache w s rds' cache' w' \<and>
    (ok s \<longrightarrow> out = lookup_in (overlay (map table_layer G)) key v q)"
  using assms
proof (induction rds arbitrary: G cache w)
  case Nil
  then show ?case by (auto simp: search_keeps_def)
next
  case (Cons rd rds)
  obtain t ts where G: "G = t # ts" "open_table dbname w rd t" "list_all2 (open_table dbname w) rds ts"
    using Cons.prems(1) by (auto simp: list_all2_Cons1)
  then have sub: "t \<in> set G0" "set ts \<subseteq> set G0"
    using Cons.prems(2) by auto
  obtain s1 out1 rd1 c1 w1 where get: "SstReader_Get rd key v q cache w = Some (s1, out1, rd1, c1, w1)"
    and keeps: "read_keeps (blocks_of G0) rd cache w s1 rd1 c1 w1" "cache_for G0 c1"
    and ans: "ok s1 \<Longrightarrow> out1 = lookup_in (table_layer t) key v q"
    using SstReader_Get_stored [OF G(2) sub(1) Cons.prems(3,4), of key v q] by blast
  have w1: "files w1 = files w" "c1 = None \<longleftrightarrow> cache = None" "faults w = [] \<Longrightarrow> ok s1 \<and> w1 = w"
      "\<not> ok s1 \<Longrightarrow> IsIOError s1"
    using keeps by (auto simp: read_keeps_def)
  have rd1: "open_table dbname w rd1 t"
    using open_table_keeps [OF G(2) keeps(1)] open_table_frame [of w1 dbname t w rd1] w1(1) by simp
  show ?case
  proof (cases "ok s1 \<and> fst out1 = kLookupNotFound")
    case False
    with get G rd1 w1 keeps(2) ans show ?thesis
      by (intro exI [of _ s1] exI [of _ out1] exI [of _ "rd1 # rds"] exI [of _ c1] exI [of _ w1])
        (auto simp: search_keeps_def lookup_in_result lookup_in_newer)
  next
    case True
    then have miss: "table_layer t key = None" "out1 = (kLookupNotFound, v, q)"
      using ans lookup_in_result(1) [of "table_layer t" key v q] by (auto simp: lookup_in_not_found)
    obtain s2 out2 rds2 c2 w2 where rest: "search_tables key (kLookupNotFound, v, q) rds c1 w1 = Some (s2, out2, rds2, c2, w2)"
      and keeps2: "search_keeps G0 dbname ts c1 w1 s2 rds2 c2 w2"
      and ans2: "ok s2 \<Longrightarrow> out2 = lookup_in (overlay (map table_layer ts)) key v q"
      using Cons.IH [OF open_tables_files [OF G(3) w1(1)] sub(2) Cons.prems(3) keeps(2)] by blast
    have "list_all2 (open_table dbname w) rds2 ts"
      using keeps2 w1(1) by (auto simp: search_keeps_def intro: open_tables_files)
    then have "search_keeps G0 dbname G cache w s2 (rd1 # rds2) c2 w2"
      using keeps2 G(1) rd1 w1 by (auto simp: search_keeps_def)
    with get rest miss True ans2 G(1) show ?thesis
      by (auto simp: lookup_in_newer)
  qed
qed

lemma overlay_rev_map: "overlay (map table_layer (rev G)) = tables_layer G"
  by (simp add: tables_layer_def)

lemma merged_lookup_effect:
  assumes "readable G db w"
  shows "\<exists>s out rds cache w'. merged_lookup db key v w =
      Some (s, out, db\<lparr>db_tables := rds, db_block_cache := cache\<rparr>, w') \<and>
    readable G (db\<lparr>db_tables := rds, db_block_cache := cache\<rparr>) w' \<and> files w' = files w \<and>
    (cache = None \<longleftrightarrow> db_block_cache db = None) \<and>
    (ok s \<longrightarrow> out = lookup_in (db_layer G db) key v 0) \<and> (\<not> ok s \<longrightarrow> IsIOError s) \<and>
    (faults w = [] \<longrightarrow> ok s \<and> w' = w)"
proof (cases "fst (List_Get (db_memtables db) key v 0) = kLookupNotFound")
  case False
  then have "list_view (db_memtables db) key \<noteq> None"
    by (simp add: List_Get_view lookup_in_result)
  then have "lookup_in (db_layer G db) key v 0 = List_Get (db_memtables db) key v 0"
    by (simp add: db_layer_def List_Get_view lookup_in_newer)
  with False assms show ?thesis
    by (intro exI [of _ status_OK] exI [of _ "List_Get (db_memtables db) key v 0"] exI [of _ "db_tables db"]
        exI [of _ "db_block_cache db"] exI [of _ w]) (simp add: merged_lookup_def)
next
  case True
  then have none: "list_view (db_memtables db) key = None"
    by (simp add: List_Get_view lookup_in_result)
  then have get: "List_Get (db_memtables db) key v 0 = (kLookupNotFound, v, 0)"
    by (simp add: List_Get_view lookup_in_not_found)
  have rev: "list_all2 (open_table (db_dbname db) w) (rev (db_tables db)) (rev G)"
    using assms by (simp add: readable_def list_all2_rev)
  have T: "set (rev G) \<subseteq> set G" "distinct (map stt_number G)" "cache_for G (db_block_cache db)"
    using assms by (simp_all add: readable_def)
  obtain s out rds c w' where run: "search_tables key (kLookupNotFound, v, 0) (rev (db_tables db)) (db_block_cache db) w =
      Some (s, out, rds, c, w')"
    and keeps: "search_keeps G (db_dbname db) (rev G) (db_block_cache db) w s rds c w'"
    and ans: "ok s \<Longrightarrow> out = lookup_in (overlay (map table_layer (rev G))) key v 0"
    using search_tables_effect [OF rev T] by blast
  have "list_all2 (open_table (db_dbname db) w') (rev rds) G"
    using keeps by (auto simp: search_keeps_def list_all2_rev1 intro: open_tables_files)
  with run keeps ans get none assms show ?thesis
    by (intro exI [of _ s] exI [of _ out] exI [of _ "rev rds"] exI [of _ c] exI [of _ w'])
      (auto simp: merged_lookup_def readable_def search_keeps_def db_layer_def overlay_rev_map lookup_in_newer)
qed

text \<open>The counters do not matter to reading.\<close>

lemma readable_counters [simp]:
  "readable G (db\<lparr>db_get_count := a\<rparr>) w = readable G db w"
  "readable G (db\<lparr>db_get_hit_count := a\<rparr>) w = readable G db w"
  "readable G (db\<lparr>db_get_miss_count := a\<rparr>) w = readable G db w"
  "readable G (db\<lparr>db_live_key_count := a\<rparr>) w = readable G db w"
  "readable G (db\<lparr>db_next_sequence := a\<rparr>) w = readable G db w"
  "readable G (db\<lparr>db_next_file_number := a\<rparr>) w = readable G db w"
  "readable G (db\<lparr>db_stats := st\<rparr>) w = readable G db w"
  "readable G (db\<lparr>db_wal_writer := wr\<rparr>) w = readable G db w"
  "db_layer G (db\<lparr>db_get_count := a\<rparr>) = db_layer G db"
  by (simp_all add: readable_def db_layer_def)

text \<open>What reading leaves alone: everything but the readers' counters, the cache and the statistics.\<close>

definition same_core :: "db \<Rightarrow> db \<Rightarrow> bool" where
  "same_core db db' \<longleftrightarrow> db_options db' = db_options db \<and> db_dbname db' = db_dbname db \<and>
     db_memtables db' = db_memtables db \<and> db_wal_writer db' = db_wal_writer db \<and>
     db_current_wal_number db' = db_current_wal_number db \<and>
     db_next_file_number db' = db_next_file_number db \<and> db_next_sequence db' = db_next_sequence db \<and>
     db_manifest db' = db_manifest db"

text \<open>
  \<open>Get\<close> against the map of live values: the value, \<open>NotFound\<close> with \<open>*value\<close> untouched, or an I/O error;
  without a failing call never the last.
\<close>

lemma DB_Get_effect:
  assumes "readable G db w"
  shows "\<exists>s v' db' w'. DB_Get db key v w = Some (s, v', db', w') \<and> readable G db' w' \<and> files w' = files w \<and>
    same_core db db' \<and>
    (case live (db_layer G db) key of
       Some u \<Rightarrow> s = status_OK \<and> v' = u \<or> IsIOError s
     | None \<Rightarrow> IsNotFound s \<and> v' = v \<or> IsIOError s) \<and>
    (faults w = [] \<longrightarrow> \<not> IsIOError s \<and> w' = w)"
proof -
  let ?db = "db\<lparr>db_get_count := db_get_count db + 1\<rparr>"
  have "readable G ?db w"
    using assms by simp
  then obtain s out rds c w' where run: "merged_lookup ?db key v w =
      Some (s, out, ?db\<lparr>db_tables := rds, db_block_cache := c\<rparr>, w')"
    and keeps: "readable G (?db\<lparr>db_tables := rds, db_block_cache := c\<rparr>) w'" "files w' = files w"
    and ans: "ok s \<Longrightarrow> out = lookup_in (db_layer G ?db) key v 0"
    and io: "\<not> ok s \<Longrightarrow> IsIOError s" and nf: "faults w = [] \<Longrightarrow> ok s \<and> w' = w"
    using merged_lookup_effect [of G ?db w key v] by blast
  obtain r v' q where out: "out = (r, v', q)"
    by (rule prod_cases3)
  note ans = ans [unfolded out readable_counters]
  note get = DB_Get_def [where db = db and key = key and val = v and w = w, unfolded Let_def run out
      bind.bind_lunit prod.case]
  show ?thesis
  proof (cases "ok s")
    case False
    with get keeps io nf show ?thesis
      by (intro exI [of _ s] exI [of _ v'] exI [of _ "?db\<lparr>db_tables := rds, db_block_cache := c\<rparr>"] exI [of _ w'])
        (auto simp: same_core_def split: option.split)
  next
    case True
    note ans = ans [OF True]
    show ?thesis
    proof (cases "live (db_layer G db) key")
      case None
      then have "r \<noteq> kFound" "v' = v"
        using ans by (auto simp: lookup_in_def live_def split: option.splits if_splits)
      with get keeps nf True None show ?thesis
        by (simp add: same_core_def IsNotFound_def NotFound_def IsIOError_def)
    next
      case (Some u)
      then have "r = kFound" "v' = u"
        using ans by (auto simp: lookup_in_def live_def split: option.splits if_splits)
      with get keeps nf True Some show ?thesis
        by (simp add: same_core_def IsIOError_def)
    qed
  qed
qed

lemma IsKeyCurrentlyLive_effect:
  assumes "readable G db w"
  shows "\<exists>b rds cache w'. IsKeyCurrentlyLive db key w = Some (b, db\<lparr>db_tables := rds, db_block_cache := cache\<rparr>, w') \<and>
    readable G (db\<lparr>db_tables := rds, db_block_cache := cache\<rparr>) w' \<and> files w' = files w \<and>
    (cache = None \<longleftrightarrow> db_block_cache db = None) \<and>
    (faults w = [] \<longrightarrow> b = (live (db_layer G db) key \<noteq> None) \<and> w' = w)"
proof -
  obtain s out rds c w' where run: "merged_lookup db key [] w =
      Some (s, out, db\<lparr>db_tables := rds, db_block_cache := c\<rparr>, w')"
    and keeps: "readable G (db\<lparr>db_tables := rds, db_block_cache := c\<rparr>) w'" "files w' = files w"
      "c = None \<longleftrightarrow> db_block_cache db = None"
    and ans: "ok s \<Longrightarrow> out = lookup_in (db_layer G db) key [] 0"
    and nf: "faults w = [] \<Longrightarrow> ok s \<and> w' = w"
    using merged_lookup_effect [OF assms, of key "[]"] by metis
  obtain r v' q where out: "out = (r, v', q)"
    by (rule prod_cases3)
  note ans = ans [unfolded out]
  have "faults w = [] \<Longrightarrow> ok s \<and> (r = kFound \<longleftrightarrow> live (db_layer G db) key \<noteq> None)"
    using nf ans lookup_in_result(2) [of "db_layer G db" key "[]" 0] by (metis fst_conv)
  with run keeps nf out show ?thesis
    by (intro exI [of _ "ok s \<and> r = kFound"] exI [of _ rds] exI [of _ c] exI [of _ w'])
      (auto simp: IsKeyCurrentlyLive_def)
qed

lemma db_layer_same_core: "same_core db db' \<Longrightarrow> db_layer G db' = db_layer G db"
  by (simp add: same_core_def db_layer_def)

end
