(* ===== verification/Pebble_Db_Flush.thy ===== *)
theory Pebble_Db_Flush
  imports Pebble_Db_Read
begin

text \<open>
  Flushing (\<open>FlushLocked\<close> of db.cpp).  \<open>stored\<close> is the invariant of a persistent store against its
  directory, \<open>logged\<close> says that the log and the published tables hold everything that was written.
  Shown here: whatever the system does, a flush that returns keeps both and changes nothing of what
  is read.
\<close>

subsection \<open>Writing a frozen table\<close>

definition entry_of :: "bytes \<times> mem_entry \<Rightarrow> sst_entry" where
  "entry_of = (\<lambda>(key, e). added_entry key (me_value e) (me_sequence e) (me_type e))"

definition within_limits :: "memtable \<Rightarrow> bool" where
  "within_limits t \<longleftrightarrow> (\<forall>(key, e)\<in>set (mt_table t). length key \<le> kMaxKeyLength \<and>
     length (me_value e) \<le> kMaxValueLength)"

lemma within_limits_lengths:
  "within_limits t \<Longrightarrow> (key, e) \<in> set (mt_table t) \<Longrightarrow> length key < 2 ^ 32 \<and> length (me_value e) < 2 ^ 32"
  by (fastforce simp: within_limits_def kMaxKeyLength_def kMaxValueLength_def)

lemma entries_map_entry_of:
  assumes "\<forall>(k, e)\<in>set es. me_type e = kTombstone \<longrightarrow> me_value e = []"
  shows "entries_map (map entry_of es) = map_of es"
  using assms
proof (induction es)
  case Nil
  then show ?case by simp
next
  case (Cons x es)
  obtain k e where x: "x = (k, e)" by (cases x)
  with Cons.prems have "(if me_type e = kTombstone then [] else me_value e) = me_value e"
    by auto
  moreover have "\<lparr>me_sequence = me_sequence e, me_type = me_type e, me_value = me_value e\<rparr> = e"
    by simp
  moreover have "entries_map (map entry_of es) = map_of es"
    using Cons by simp
  ultimately show ?case
    unfolding x list.map entries_map_simps(2)
    by (simp only: entry_of_def added_entry_def prod.case sst_entry.simps) simp
qed

lemma add_entries_effect:
  assumes "add_entries es wr w = (s, wr', w')" and "writing wr blocks cur w"
    and "\<forall>(k, e)\<in>set es. length k < 2 ^ 32 \<and> length (me_value e) < 2 ^ 32" and "ascending es"
    and "all_entries blocks cur = [] \<or> (\<forall>k\<in>fst ` set es. se_key (last (all_entries blocks cur)) < k)"
    and "files w = (files v)(fd_path (sw_file wr) \<mapsto> c)"
  shows "(\<exists>c. files w' = (files v)(fd_path (sw_file wr) \<mapsto> c)) \<and> fd_path (sw_file wr') = fd_path (sw_file wr) \<and>
    sw_options wr' = sw_options wr \<and> (\<not> ok s \<longrightarrow> IsIOError s) \<and>
    (ok s \<longrightarrow> (\<exists>blocks' cur'. writing wr' blocks' cur' w' \<and>
      all_entries blocks' cur' = all_entries blocks cur @ map entry_of es))"
  using assms
proof (induction es arbitrary: wr w blocks cur c)
  case Nil
  then show ?case by auto
next
  case (Cons x es)
  obtain k e where x: "x = (k, e)" by (cases x)
  obtain s1 wr1 w1 where add: "SstWriter_Add k (me_value e) (me_sequence e) (me_type e) wr w = (s1, wr1, w1)"
    by (rule prod_cases3)
  have first: "all_entries blocks cur = [] \<or> se_key (last (all_entries blocks cur)) < k"
    using Cons.prems(5) x by auto
  have lens: "length k < 2 ^ 32" "length (me_value e) < 2 ^ 32"
    using Cons.prems(3) x by simp_all
  note effect = SstWriter_Add_effect [OF add Cons.prems(2) lens first]
  obtain c1 where c1: "files w1 = (files v)(fd_path (sw_file wr1) \<mapsto> c1)"
    using effect(1,2) Cons.prems(6) by (auto simp del: fun_upd_apply)
  show ?case
  proof (cases "ok s1")
    case False
    with Cons.prems(1) x add have "s = s1" "wr' = wr1" "w' = w1" by simp_all
    with False effect c1 show ?thesis by auto
  next
    case True
    then obtain b2 c2 where next1: "writing wr1 b2 c2 w1"
      "all_entries b2 c2 = all_entries blocks cur @ [entry_of x]"
      using effect(5) by (auto simp: x entry_of_def)
    have run: "add_entries es wr1 w1 = (s, wr', w')"
      using Cons.prems(1) x add True by simp
    have "\<forall>k'\<in>fst ` set es. se_key (last (all_entries b2 c2)) < k'"
      using Cons.prems(4) unfolding next1(2) by (simp add: x entry_of_def added_entry_def)
    then have "(\<exists>c. files w' = (files v)(fd_path (sw_file wr1) \<mapsto> c)) \<and> fd_path (sw_file wr') = fd_path (sw_file wr1) \<and>
      sw_options wr' = sw_options wr1 \<and> (\<not> ok s \<longrightarrow> IsIOError s) \<and>
      (ok s \<longrightarrow> (\<exists>blocks' cur'. writing wr' blocks' cur' w' \<and>
        all_entries blocks' cur' = all_entries b2 c2 @ map entry_of es))"
      using Cons.prems(3,4) by (intro Cons.IH [OF run next1(1) _ _ _ c1]) auto
    then show ?thesis
      using effect(2,3) next1(2) by (simp del: fun_upd_apply)
  qed
qed

text \<open>
  The outcome of writing one table: only its file changes; without a reader the status is an I/O error;
  with one, the file holds exactly the frozen table's entries.
\<close>

lemma write_table_effect:
  assumes "write_table db frozen n w = Some (s, reader, w')" and "memtable_inv frozen" and "within_limits frozen"
  shows "q \<noteq> SstableFileName (db_dbname db) n \<Longrightarrow> files w' q = files w q"
    and "reader = None \<Longrightarrow> IsIOError s"
    and "reader = Some rd \<Longrightarrow> ok s \<and> (\<exists>t. stt_number t = n \<and> open_table (db_dbname db) w' rd t \<and>
      table_layer t = table_view frozen)"
proof -
  let ?p = "SstableFileName (db_dbname db) n"
    and ?opts = "default_writer_options\<lparr>wo_filter_bits_per_key := op_filter_bits_per_key (db_options db)\<rparr>"
  obtain s1 wo w1 where op: "SstWriter_Open ?p ?opts w = (s1, wo, w1)"
    by (rule prod_cases3)
  note opened = SstWriter_Open_effect [OF op]
  note run = assms(1) [unfolded write_table_def Let_def op prod.case]
  have "(\<forall>q. q \<noteq> ?p \<longrightarrow> files w' q = files w q) \<and> (reader = None \<longrightarrow> IsIOError s) \<and>
    (\<forall>rd. reader = Some rd \<longrightarrow> ok s \<and> (\<exists>t. stt_number t = n \<and> open_table (db_dbname db) w' rd t \<and>
      table_layer t = table_view frozen))"
  proof (cases "ok s1")
    case False
    with opened(3) have "wo = None" "IsIOError s1" by simp_all
    with run opened(1) show ?thesis by auto
  next
    case True
    then obtain wr where wr: "wo = Some wr" "writing wr [] [] w1" "sw_options wr = ?opts"
      "fd_path (sw_file wr) = ?p" "files w1 = (files w)(?p \<mapsto> [])"
      using opened(2) by auto
    obtain s2 wr2 w2 where add: "add_entries (mt_table frozen) wr w1 = (s2, wr2, w2)"
      by (rule prod_cases3)
    have asc: "ascending (mt_table frozen)" "\<forall>(k, e)\<in>set (mt_table frozen). me_type e = kTombstone \<longrightarrow> me_value e = []"
      using assms(2) by (simp_all add: memtable_inv_def)
    have lens: "\<forall>(k, e)\<in>set (mt_table frozen). length k < 2 ^ 32 \<and> length (me_value e) < 2 ^ 32"
      using within_limits_lengths [OF assms(3)] by blast
    have files1: "files w1 = (files w)(fd_path (sw_file wr) \<mapsto> [])"
      using wr by simp
    note effect = add_entries_effect [OF add wr(2) lens asc(1) disjI1 files1, simplified, unfolded wr(4)]
    note run = run [unfolded wr(1) option.case add prod.case]
    show ?thesis
    proof (cases "ok s2")
      case False
      with run effect show ?thesis by auto
    next
      case True
      then obtain b c where state: "writing wr2 b c w2" "all_entries b c = map entry_of (mt_table frozen)"
        and wr2: "fd_path (sw_file wr2) = ?p" "sw_options wr2 = ?opts"
        using effect wr(3) by auto
      obtain c2 where c2: "files w2 = (files w)(?p \<mapsto> c2)"
        using effect by auto
      obtain s3 wr3 w3 where fin: "SstWriter_Finish wr2 w2 = Some (s3, wr3, w3)"
        and run: "(if \<not> ok s3 then Some (s3, None, w3) else Some (SstReader_Open ?p n w3)) = Some (s, reader, w')"
        using run True by (auto simp: bind_eq_Some_conv)
      have written: "table_written ?p (op_filter_bits_per_key (db_options db)) (map entry_of (mt_table frozen)) w2 s3 w3"
        using SstWriter_Finish_effect [OF fin state(1)] unfolding wr2 state(2) by simp
      show ?thesis
      proof (cases "ok s3")
        case False
        with run written c2 show ?thesis by (auto simp: table_written_def)
      next
        case True
        then obtain blocks fltr where table: "well_formed_blocks blocks" "concat blocks = map entry_of (mt_table frozen)"
          "filter_for (op_filter_bits_per_key (db_options db)) (concat blocks) fltr"
          "files w3 = (files w)(?p \<mapsto> table_bytes blocks fltr)" "length (table_bytes blocks fltr) \<le> max_file_size"
          using written c2 by (auto simp: table_written_def)
        have open3: "SstReader_Open ?p n w3 = (s, reader, w')"
          using run True by simp
        have "files w3 ?p = Some (table_bytes blocks fltr)" "table_file (table_bytes blocks fltr) blocks fltr"
          using table by (simp_all add: table_file_def)
        note rd = SstReader_Open_table [OF open3 this]
        define t where "t = \<lparr>stt_number = n, stt_blocks = blocks, stt_filter = fltr\<rparr>"
        have layer: "table_layer t = table_view frozen"
          by (simp add: t_def table_layer_def table(2) entries_map_entry_of [OF asc(2)] table_view_def)
        have "open_table (db_dbname db) w' r t" if "reader = Some r" "ok s" for r
          using rd(1,2) that table by (auto simp: open_table_def table_on_disk_def t_def)
        with rd layer table(4) show ?thesis
          by (cases "ok s") (auto simp: t_def intro!: exI [of _ t])
      qed
    qed
  qed
  then show "q \<noteq> ?p \<Longrightarrow> files w' q = files w q" "reader = None \<Longrightarrow> IsIOError s"
    "reader = Some rd \<Longrightarrow> ok s \<and> (\<exists>t. stt_number t = n \<and> open_table (db_dbname db) w' rd t \<and>
      table_layer t = table_view frozen)"
    by blast+
qed

subsection \<open>The invariants of a persistent store\<close>

definition stored :: "stored_table list \<Rightarrow> db \<Rightarrow> world \<Rightarrow> bool" where
  "stored G db w \<longleftrightarrow> persistent db \<and> readable G db w \<and>
     manifest_holds (db_dbname db) (db_manifest db) w \<and>
     map stt_number G = map tf_file_number (mf_tables (db_manifest db)) \<and>
     (\<forall>t\<in>set G. stt_number t < mf_next_file_number (db_manifest db)) \<and>
     mf_next_file_number (db_manifest db) \<le> db_next_file_number db \<and>
     (\<forall>t\<in>set (list_tables (db_memtables db)). within_limits t)"

text \<open>What the records of a log say of each key, the last record winning.\<close>

definition record_entry :: "wal_record \<Rightarrow> mem_entry" where
  "record_entry r = \<lparr>me_sequence = wr_sequence r,
     me_type = (if wr_type r = kPut then kValue else kTombstone),
     me_value = (if wr_type r = kPut then wr_value r else [])\<rparr>"

definition replay_layer :: "wal_record list \<Rightarrow> layer" where
  "replay_layer rs = fold (\<lambda>r m. m(wr_key r \<mapsto> record_entry r)) rs Map.empty"

text \<open>
  How far a log can be trusted: clean, with a torn record at its end, or with records behind a torn one.
  \<open>log_holds c rs g\<close>: the bytes \<open>c\<close> of a log hold the records \<open>rs\<close>, as far as the grade says.
  \<open>logged\<close>: replaying the log over the published tables gives the layer \<open>L\<close>, every key in memory is in
  the log, and the logs still to be created are empty.
\<close>

datatype log_grade = Clean | Torn | Broken

fun log_holds :: "bytes \<Rightarrow> wal_record list \<Rightarrow> log_grade \<Rightarrow> bool" where
  "log_holds c rs Clean \<longleftrightarrow> clean_log c rs"
| "log_holds c rs Torn \<longleftrightarrow> (\<exists>t n. log_scan c = (rs, t, n) \<and>
     (t = ReadEndOfLog \<and> n = length c \<or> t = ReadTruncated) \<and> n \<le> length c \<and> clean_log (take n c) rs)"
| "log_holds c rs Broken \<longleftrightarrow> True"

definition logged :: "stored_table list \<Rightarrow> layer \<Rightarrow> log_grade \<Rightarrow> db \<Rightarrow> world \<Rightarrow> bool" where
  "logged G L g db w \<longleftrightarrow>
     (\<exists>wr c rs. db_wal_writer db = Some wr \<and>
        fd_path (ww_file wr) = WalFileName (db_dbname db) (db_current_wal_number db) \<and>
        log_sink wr c w \<and> log_holds c rs g \<and> tables_layer G ++ replay_layer rs = L \<and>
        dom (list_view (db_memtables db)) \<subseteq> dom (replay_layer rs)) \<and>
     mf_wal_file_number (db_manifest db) = db_current_wal_number db \<and> db_current_wal_number db \<noteq> 0 \<and>
     db_current_wal_number db \<le> mf_next_file_number (db_manifest db) \<and>
     (\<forall>n. mf_next_file_number (db_manifest db) \<le> n \<longrightarrow> n \<noteq> db_current_wal_number db \<longrightarrow>
        content w (WalFileName (db_dbname db) n) = [])"

lemma clean_log_holds: "clean_log c rs \<Longrightarrow> log_holds c rs g"
  by (cases g) (auto simp: clean_log_scan)

lemma replay_layer_simps [simp]:
  "replay_layer [] = Map.empty"
  "replay_layer (rs @ [r]) = (replay_layer rs)(wr_key r \<mapsto> record_entry r)"
  by (simp_all add: replay_layer_def)

lemma numbered_paths [simp]:
  "WalFileName d n \<noteq> ManifestPath e" "WalFileName d n \<noteq> TempManifestPath e"
  "SstableFileName d n \<noteq> ManifestPath e" "SstableFileName d n \<noteq> TempManifestPath e"
proof -
  have "last (ManifestPath e) = CHR ''T''" "last (TempManifestPath e) = CHR ''p''"
    by (simp_all add: ManifestPath_def TempManifestPath_def kManifestFileName_def kManifestTempFileName_def)
  then show "WalFileName d n \<noteq> ManifestPath e" "WalFileName d n \<noteq> TempManifestPath e"
    "SstableFileName d n \<noteq> ManifestPath e" "SstableFileName d n \<noteq> TempManifestPath e"
    using numbered_file_neq [of "TempManifestPath e" d n] last_NumberedFileName [of "''.wal''" d n]
      last_NumberedFileName [of "''.sst''" d n]
    by (auto simp: WalFileName_def SstableFileName_def)
qed

text \<open>What the two invariants depend on.\<close>

lemma stored_frame:
  assumes "stored G db w" and "files w' (ManifestPath (db_dbname db)) = files w (ManifestPath (db_dbname db))"
    and "\<And>t. t \<in> set G \<Longrightarrow> files w' (SstableFileName (db_dbname db) (stt_number t)) =
      files w (SstableFileName (db_dbname db) (stt_number t))"
  shows "stored G db w'"
  using assms open_tables_frame [of "db_dbname db" w "db_tables db" G w']
  by (auto simp: stored_def readable_def manifest_holds_def)

lemma logged_frame:
  assumes "logged G L g db w"
    and "\<And>n. files w' (WalFileName (db_dbname db) n) = files w (WalFileName (db_dbname db) n)"
  shows "logged G L g db w'"
  using assms unfolding logged_def log_sink_def content_def by metis

subsection \<open>One round\<close>

lemma cache_for_new: "cache_for G cache \<Longrightarrow> cache_for (G @ [t]) cache"
proof -
  have "blocks_of G \<subseteq>\<^sub>m blocks_of (G @ [t])"
    by (auto simp: blocks_of_def map_le_def map_add_def dom_def split: option.split)
  then show "cache_for G cache \<Longrightarrow> cache_for (G @ [t]) cache"
    by (auto simp: cache_for_def intro: map_le_trans)
qed

text \<open>\<open>SaveManifest\<close> leaves every numbered file alone.\<close>

lemma SaveManifest_numbered:
  assumes "SaveManifest d data w = (s, published, w')"
  shows "files w' (WalFileName d n) = files w (WalFileName d n)"
    "files w' (SstableFileName d n) = files w (SstableFileName d n)"
    and "\<not> published \<Longrightarrow> files w' (ManifestPath d) = files w (ManifestPath d)"
    and "published \<Longrightarrow> manifest_holds d data w'"
proof -
  have "(\<forall>n. files w' (WalFileName d n) = files w (WalFileName d n)) \<and>
    (\<forall>n. files w' (SstableFileName d n) = files w (SstableFileName d n)) \<and>
    (\<not> published \<longrightarrow> files w' (ManifestPath d) = files w (ManifestPath d)) \<and>
    (published \<longrightarrow> manifest_holds d data w')"
    using SaveManifest_outcome(3,4) [OF assms] by (cases published) (auto simp: manifest_holds_def)
  then show "files w' (WalFileName d n) = files w (WalFileName d n)"
    "files w' (SstableFileName d n) = files w (SstableFileName d n)"
    "\<not> published \<Longrightarrow> files w' (ManifestPath d) = files w (ManifestPath d)"
    "published \<Longrightarrow> manifest_holds d data w'"
    by blast+
qed

lemma publish_layers:
  assumes "dom F \<subseteq> dom R"
  shows "(T ++ F) ++ R = T ++ (R :: layer)"
proof -
  have "F ++ R = R"
    using assms by (auto simp: map_add_def fun_eq_iff dom_def split: option.split)
  then show ?thesis by (metis map_add_assoc)
qed

lemma RemoveImmutable_tables:
  assumes "memtable_list_inv l" and "ml_immutables l = ts @ [frozen]"
  shows "set (list_tables (RemoveImmutable frozen l)) \<subseteq> set (list_tables l)"
    and "ml_active (RemoveImmutable frozen l) = ml_active l"
    and "dom (list_view (RemoveImmutable frozen l)) \<subseteq> dom (list_view l)"
    and "dom (table_view frozen) \<subseteq> dom (list_view l)"
    and "list_view l = table_view frozen ++ list_view (RemoveImmutable frozen l)"
  using RemoveImmutable_oldest [OF assms] assms(2)
  by (auto simp: list_tables_def RemoveImmutable_def)

lemma published_stored:
  assumes "stored G db w" and "manifest_holds (db_dbname db) m w'"
    and "\<And>n. files w' (SstableFileName (db_dbname db) n) = files w (SstableFileName (db_dbname db) n)"
    and t: "stt_number t = n" "open_table (db_dbname db) w rd t" "table_layer t = table_view frozen"
    and n: "mf_next_file_number (db_manifest db) \<le> n" "n < db_next_file_number db"
    and l: "ml_immutables (db_memtables db) = ts @ [frozen]"
    and m: "mf_next_file_number m = db_next_file_number db"
      "mf_tables m = mf_tables (db_manifest db) @ [\<lparr>tf_file_number = n, tf_level = 0\<rparr>]"
    and db': "db' = db\<lparr>db_manifest := m, db_tables := db_tables db @ [rd],
      db_memtables := RemoveImmutable frozen (db_memtables db), db_stats := st\<rparr>"
  shows "stored (G @ [t]) db' w'" and "db_layer (G @ [t]) db' = db_layer G db"
proof -
  have read: "readable G db w" and old: "\<forall>u\<in>set G. stt_number u < mf_next_file_number (db_manifest db)"
    and inv: "memtable_list_inv (db_memtables db)"
    and rest: "persistent db" "mf_next_file_number (db_manifest db) \<le> db_next_file_number db"
      "map stt_number G = map tf_file_number (mf_tables (db_manifest db))"
      "\<forall>t\<in>set (list_tables (db_memtables db)). within_limits t"
    using assms(1) by (auto simp: stored_def readable_def)
  note rem = RemoveImmutable_tables [OF inv l] and oldest = RemoveImmutable_oldest [OF inv l]
  have fresh: "n \<notin> set (map stt_number G)"
    using old n(1) by (auto simp: not_less)
  have "list_all2 (open_table (db_dbname db) w) (db_tables db @ [rd]) (G @ [t])"
    using read t(2) by (simp add: readable_def list_all2_appendI)
  then have "list_all2 (open_table (db_dbname db) w') (db_tables db @ [rd]) (G @ [t])"
    by (rule open_tables_frame) (rule assms(3))
  moreover have "distinct (map stt_number (G @ [t]))"
    using read fresh t(1) by (simp add: readable_def)
  moreover have "cache_for (G @ [t]) (db_block_cache db)"
    using read by (intro cache_for_new) (simp add: readable_def)
  ultimately have read': "readable (G @ [t]) db' w'"
    using oldest(2) by (simp add: readable_def db')
  moreover have "stt_number u < db_next_file_number db" if "u \<in> set (G @ [t])" for u
    using that old t(1) n by (auto intro: less_le_trans le_less_trans dest: less_trans)
  ultimately show "stored (G @ [t]) db' w'"
    using assms(2) rest rem(1) t(1) m by (auto simp: stored_def db' persistent_def)
  show "db_layer (G @ [t]) db' = db_layer G db"
    using rem(5) t(3) by (simp add: db_layer_def db' map_add_assoc)
qed

lemma published_logged:
  assumes "logged G L g db w"
    and "\<And>n. files w' (WalFileName (db_dbname db) n) = files w (WalFileName (db_dbname db) n)"
    and l: "memtable_list_inv (db_memtables db)" "ml_immutables (db_memtables db) = ts @ [frozen]"
    and t: "table_layer t = table_view frozen"
    and m: "mf_next_file_number (db_manifest db) \<le> mf_next_file_number m"
      "mf_wal_file_number m = db_current_wal_number db"
    and db': "db' = db\<lparr>db_manifest := m, db_tables := rds,
      db_memtables := RemoveImmutable frozen (db_memtables db), db_stats := st\<rparr>"
  shows "logged (G @ [t]) L g db' w'"
proof -
  note rem = RemoveImmutable_tables [OF l]
  obtain wr c rs where wr: "db_wal_writer db = Some wr"
      "fd_path (ww_file wr) = WalFileName (db_dbname db) (db_current_wal_number db)"
      "log_sink wr c w" "log_holds c rs g" "tables_layer G ++ replay_layer rs = L"
      "dom (list_view (db_memtables db)) \<subseteq> dom (replay_layer rs)"
    using assms(1) by (auto simp: logged_def)
  have "log_sink wr c w'"
    using wr(2,3) assms(2) by (simp add: log_sink_def)
  moreover have "dom (table_view frozen) \<subseteq> dom (replay_layer rs)"
    using rem(4) wr(6) by (rule subset_trans)
  then have "tables_layer (G @ [t]) ++ replay_layer rs = L"
    using wr(5) t by (simp add: publish_layers)
  moreover have "dom (list_view (RemoveImmutable frozen (db_memtables db))) \<subseteq> dom (replay_layer rs)"
    using rem(3) wr(6) by (rule subset_trans)
  ultimately show ?thesis
    using wr(1,2,4) assms(1,2) m unfolding logged_def db'
    by (auto simp: content_def intro: order_trans)
qed

text \<open>
  The outcome of a round, from \<open>db\<close> to \<open>db'\<close>: either an I/O error with the store as it was apart from
  the file number used up, or one frozen table less and the manifest up to date.
\<close>

definition round_done :: "stored_table list \<Rightarrow> layer \<Rightarrow> log_grade \<Rightarrow> db \<Rightarrow> status \<Rightarrow> db \<Rightarrow> world \<Rightarrow> bool" where
  "round_done G L g db s db' w' \<longleftrightarrow>
     (\<exists>G'. stored G' db' w' \<and> logged G' L g db' w' \<and> db_layer G' db' = db_layer G db) \<and>
     ml_active (db_memtables db') = ml_active (db_memtables db) \<and>
     (\<not> ok s \<longrightarrow> IsIOError s) \<and>
     (ok s \<longrightarrow> ImmutableCount (db_memtables db') < ImmutableCount (db_memtables db) \<and>
        mf_next_file_number (db_manifest db') = db_next_file_number db' \<and>
        db_current_wal_number db' < db_next_file_number db')"

text \<open>What no part of a flush touches.\<close>

definition same_setup :: "db \<Rightarrow> db \<Rightarrow> bool" where
  "same_setup db db' \<longleftrightarrow> db_options db' = db_options db \<and> db_dbname db' = db_dbname db \<and>
     db_next_sequence db' = db_next_sequence db \<and> (db_block_cache db' = None \<longleftrightarrow> db_block_cache db = None)"

lemma same_setup_refl [simp]: "same_setup db db"
  by (simp add: same_setup_def)

lemma same_setup_trans: "same_setup a b \<Longrightarrow> same_setup b c \<Longrightarrow> same_setup a c"
  by (simp add: same_setup_def)

lemma publish_table_effect:
  assumes "publish_table db frozen n rd w = (s, db', w')"
    and "stored G db w" and "logged G L g db w" and l: "ml_immutables (db_memtables db) = ts @ [frozen]"
    and n: "mf_next_file_number (db_manifest db) \<le> n" "n < db_next_file_number db"
    and t: "stt_number t = n" "open_table (db_dbname db) w rd t" "table_layer t = table_view frozen"
  shows "round_done G L g db s db' w'" and "same_setup db db'"
    and "db_next_file_number db' = db_next_file_number db"
proof -
  have inv: "memtable_list_inv (db_memtables db)"
    using assms(2) by (simp add: stored_def readable_def)
  define m where "m = (db_manifest db)
    \<lparr>mf_next_file_number := db_next_file_number db, mf_wal_file_number := db_current_wal_number db,
     mf_last_sequence := db_next_sequence db - 1,
     mf_tables := mf_tables (db_manifest db) @ [\<lparr>tf_file_number = n, tf_level = 0\<rparr>]\<rparr>"
  obtain s1 published w1 where save: "SaveManifest (db_dbname db) m w = (s1, published, w1)"
    by (rule prod_cases3)
  note io = SaveManifest_outcome(1,2) [OF save] and frame = SaveManifest_numbered [OF save]
  note run = assms(1) [unfolded publish_table_def Let_def, folded m_def, unfolded save prod.case]
  have "round_done G L g db s db' w' \<and> same_setup db db' \<and> db_next_file_number db' = db_next_file_number db"
  proof (cases published)
    case False
    with run io(1) have eq: "s = s1" "db' = db" "w' = w1" "\<not> ok s1"
      by (auto split: if_splits)
    have "stored G db w1"
      by (rule stored_frame [OF assms(2)]) (use frame False in simp_all)
    moreover have "logged G L g db w1"
      by (rule logged_frame [OF assms(3)]) (rule frame(1))
    ultimately show ?thesis
      using eq io(2) by (auto simp: round_done_def)
  next
    case True
    define st where "st = (db_stats db)\<lparr>st_flush_count := st_flush_count (db_stats db) + 1\<rparr>"
    have eq: "s = s1" "w' = w1" "db' = db\<lparr>db_manifest := m, db_tables := db_tables db @ [rd],
        db_memtables := RemoveImmutable frozen (db_memtables db), db_stats := st\<rparr>"
      using run True by (simp_all add: st_def)
    have holds: "manifest_holds (db_dbname db) m w1"
      using frame(4) True by simp
    have new: "mf_next_file_number m = db_next_file_number db" "mf_wal_file_number m = db_current_wal_number db"
      "mf_tables m = mf_tables (db_manifest db) @ [\<lparr>tf_file_number = n, tf_level = 0\<rparr>]"
      "mf_next_file_number (db_manifest db) \<le> mf_next_file_number m"
      using n by (simp_all add: m_def)
    note st = published_stored [OF assms(2) holds frame(2) t n l new(1,3) eq(3)]
    have lg: "logged (G @ [t]) L g db' w1"
      by (rule published_logged [OF assms(3) frame(1) inv l t(3) new(4) new(2)]) (simp add: eq(3))
    have "db_current_wal_number db \<le> mf_next_file_number (db_manifest db)"
      using assms(3) by (simp add: logged_def)
    then have "db_current_wal_number db < db_next_file_number db"
      using n by (meson le_less_trans order_trans)
    moreover have "ImmutableCount (RemoveImmutable frozen (db_memtables db)) < ImmutableCount (db_memtables db)"
      using RemoveImmutable_oldest(1) [OF inv l] l by (simp add: ImmutableCount_def)
    ultimately show ?thesis
      using st lg eq io(2) new(1) RemoveImmutable_tables(2) [OF inv l]
      by (auto simp: round_done_def same_setup_def)
  qed
  then show "round_done G L g db s db' w'" "same_setup db db'"
    "db_next_file_number db' = db_next_file_number db" by blast+
qed

lemma next_file_number_step:
  "unat (n :: u64) + k < 2 ^ 64 \<Longrightarrow> 0 < k \<Longrightarrow> n < n + 1 \<and> unat (n + 1) = unat n + 1"
  by (simp add: word_less_nat_alt unat_word_ariths)

lemma flush_one_effect:
  assumes "flush_one db w = Some (s, db', w')" and "stored G db w" and "logged G L g db w"
    and "0 < ImmutableCount (db_memtables db)" and "unat (db_next_file_number db) + k < 2 ^ 64" and "0 < k"
  shows "round_done G L g db s db' w'" and "same_setup db db'"
    and "db_next_file_number db' = db_next_file_number db + 1"
proof -
  define n where "n = db_next_file_number db"
  define db1 where "db1 = db\<lparr>db_next_file_number := n + 1\<rparr>"
  have "ml_immutables (db_memtables db) \<noteq> []"
    using assms(4) by (simp add: ImmutableCount_def)
  then obtain ts frozen where l: "ml_immutables (db_memtables db) = ts @ [frozen]"
    by (metis append_butlast_last_id)
  note step = next_file_number_step [OF assms(5,6), folded n_def]
  have mono: "mf_next_file_number (db_manifest db) \<le> n" "n < db_next_file_number db1"
    using assms(2) step by (simp_all add: stored_def n_def db1_def)
  have stored1: "stored G db1 w"
    using assms(2) step by (auto simp: stored_def db1_def n_def persistent_def intro: order_trans less_imp_le)
  have logged1: "logged G L g db1 w"
    using assms(3) by (simp add: logged_def db1_def)
  have frozen: "memtable_inv frozen" "within_limits frozen"
    using assms(2) l by (auto simp: stored_def readable_def memtable_list_inv_def list_tables_def)
  obtain s1 reader w1 where wt: "write_table db1 frozen n w = Some (s1, reader, w1)"
    using assms(1) l by (auto simp: flush_one_def Let_def bind_eq_Some_conv n_def db1_def)
  note run = assms(1) [unfolded flush_one_def Let_def l last_snoc, folded n_def, folded db1_def, unfolded wt bind.bind_lunit prod.case]
  note effect = write_table_effect [OF wt frozen]
  have dbname: "db_dbname db1 = db_dbname db"
    by (simp add: db1_def)
  have fresh: "stt_number u \<noteq> n" if "u \<in> set G" for u
    using that assms(2) mono(1) by (auto simp: stored_def)
  have stored2: "stored G db1 w1"
    using effect(1) fresh by (intro stored_frame [OF stored1]) (auto simp: not_sym [OF numbered_paths(3)])
  have logged2: "logged G L g db1 w1"
    using effect(1) by (intro logged_frame [OF logged1]) auto
  have "round_done G L g db1 s db' w' \<and> same_setup db1 db' \<and> db_next_file_number db' = db_next_file_number db1"
  proof (cases reader)
    case None
    with run have "s = s1" "db' = db1" "w' = w1" by simp_all
    with None effect(2) stored2 logged2 show ?thesis
      by (auto simp: round_done_def ok_def IsIOError_def)
  next
    case (Some rd)
    with run have pub: "publish_table db1 frozen n rd w1 = (s, db', w')" by simp
    obtain t where t: "stt_number t = n" "open_table (db_dbname db1) w1 rd t" "table_layer t = table_view frozen"
      using effect(3) [OF Some] by blast
    have l1: "ml_immutables (db_memtables db1) = ts @ [frozen]" "mf_next_file_number (db_manifest db1) \<le> n"
      using l mono(1) by (simp_all add: db1_def)
    from publish_table_effect [OF pub stored2 logged2 l1 mono(2) t] show ?thesis by blast
  qed
  then show "round_done G L g db s db' w'" "same_setup db db'"
    "db_next_file_number db' = db_next_file_number db + 1"
    by (auto simp: round_done_def same_setup_def db1_def db_layer_def n_def)
qed

text \<open>The loop.\<close>

lemma flush_rounds_effect:
  assumes "flush_rounds db w = Some (s, db', w')" and "stored G db w" and "logged G L g db w"
    and "0 < ImmutableCount (db_memtables db)"
    and "unat (db_next_file_number db) + ImmutableCount (db_memtables db) + k < 2 ^ 64"
  shows "\<exists>G'. stored G' db' w' \<and> logged G' L g db' w' \<and> db_layer G' db' = db_layer G db \<and>
    ml_active (db_memtables db') = ml_active (db_memtables db) \<and> same_setup db db' \<and> (\<not> ok s \<longrightarrow> IsIOError s) \<and>
    (ok s \<longrightarrow> ImmutableCount (db_memtables db') = 0 \<and>
      mf_next_file_number (db_manifest db') = db_next_file_number db' \<and>
      db_current_wal_number db' < db_next_file_number db' \<and> unat (db_next_file_number db') + k < 2 ^ 64)"
  using assms
proof (induction db w arbitrary: G rule: flush_rounds.induct)
  case (1 db w)
  obtain s1 db1 w1 where one: "flush_one db w = Some (s1, db1, w1)"
    using "1.prems"(1,4) by (auto simp: flush_rounds.simps [of db w] split: option.splits)
  have room: "unat (db_next_file_number db) + (ImmutableCount (db_memtables db) + k) < 2 ^ 64"
    "0 < ImmutableCount (db_memtables db) + k"
    using "1.prems"(4,5) by simp_all
  note round = flush_one_effect [OF one "1.prems"(2,3,4) room]
  note run = "1.prems"(1) [unfolded flush_rounds.simps [of db w] one option.case prod.case]
  obtain G1 where G1: "stored G1 db1 w1" "logged G1 L g db1 w1" "db_layer G1 db1 = db_layer G db"
    and act: "ml_active (db_memtables db1) = ml_active (db_memtables db)"
    and io: "\<not> ok s1 \<Longrightarrow> IsIOError s1"
    and okay: "ok s1 \<Longrightarrow> ImmutableCount (db_memtables db1) < ImmutableCount (db_memtables db) \<and>
        mf_next_file_number (db_manifest db1) = db_next_file_number db1 \<and>
        db_current_wal_number db1 < db_next_file_number db1"
    using round(1) unfolding round_done_def by blast
  show ?case
  proof (cases "ok s1")
    case False
    with run "1.prems"(4) have "s = s1" "db' = db1" "w' = w1" by simp_all
    with False G1 act io round(2) show ?thesis by blast
  next
    case True
    then have rest: "flush_rounds db1 w1 = Some (s, db', w')"
      using run "1.prems"(4) by simp
    have next1: "unat (db_next_file_number db1) = unat (db_next_file_number db) + 1"
      using round(3) next_file_number_step [OF room] by simp
    show ?thesis
    proof (cases "0 < ImmutableCount (db_memtables db1)")
      case False
      then have "s = status_OK" "db' = db1" "w' = w1"
        using rest by (simp_all add: flush_rounds.simps [of db1 w1])
      with False G1 act okay [OF True] round(2) next1 "1.prems"(4,5) show ?thesis
        by (intro exI [of _ G1]) simp
    next
      case more: True
      have room1: "unat (db_next_file_number db1) + ImmutableCount (db_memtables db1) + k < 2 ^ 64"
        using okay [OF True] next1 "1.prems"(5) by linarith
      have "\<exists>G'. stored G' db' w' \<and> logged G' L g db' w' \<and> db_layer G' db' = db_layer G1 db1 \<and>
        ml_active (db_memtables db') = ml_active (db_memtables db1) \<and> same_setup db1 db' \<and> (\<not> ok s \<longrightarrow> IsIOError s) \<and>
        (ok s \<longrightarrow> ImmutableCount (db_memtables db') = 0 \<and>
          mf_next_file_number (db_manifest db') = db_next_file_number db' \<and>
          db_current_wal_number db' < db_next_file_number db' \<and> unat (db_next_file_number db') + k < 2 ^ 64)"
        using "1.IH" [OF "1.prems"(4) one refl refl _ rest G1(1,2) more room1] True by simp
      then show ?thesis
        using G1(3) act same_setup_trans [OF round(2)] by (metis (no_types, lifting))
    qed
  qed
qed

subsection \<open>The change of log\<close>

text \<open>
  The outcome of a flush: what is read stays, and the log recovers either what it recovered before or,
  after a change of log, exactly what is read.
\<close>

definition flushed :: "stored_table list \<Rightarrow> layer \<Rightarrow> log_grade \<Rightarrow> db \<Rightarrow> db \<Rightarrow> world \<Rightarrow> bool \<Rightarrow> bool" where
  "flushed G L g db db' w' rotated \<longleftrightarrow>
     (\<exists>G'. stored G' db' w' \<and> db_layer G' db' = db_layer G db \<and>
        (if rotated then logged G' (db_layer G db) Clean db' w' else logged G' L g db' w')) \<and>
     same_setup db db'"

lemma WalWriter_Open_frame:
  assumes "WalWriter_Open p policy batch w = (s, out, w')"
  shows "q \<noteq> p \<Longrightarrow> files w' q = files w q" and "content w' q = content w q" and "ok s \<longleftrightarrow> out \<noteq> None"
  using WalWriter_Open_effect [OF assms] by (cases "ok s"; auto simp: content_def)+

lemma new_log:
  assumes "WalWriter_Open p policy batch w = (s, Some wr, w')" and "content w p = []"
  shows "fd_path (ww_file wr) = p" "log_sink wr [] w'"
proof -
  have "ok s" using WalWriter_Open_frame(3) [OF assms(1)] by simp
  with WalWriter_Open_effect(2) [OF assms(1)] assms(2) show "fd_path (ww_file wr) = p" "log_sink wr [] w'"
    by (auto simp: log_sink_def max_file_size_def)
qed

lemma rotate_wal_cases:
  fixes db :: db
  defines "n \<equiv> db_next_file_number db" and "d \<equiv> db_dbname db"
    and "m \<equiv> (db_manifest db)\<lparr>mf_wal_file_number := db_next_file_number db\<rparr>"
    and "opened \<equiv> WalWriter_Open (WalFileName (db_dbname db) (db_next_file_number db))
      (op_wal_sync_policy (db_options db)) (op_wal_batch_size (db_options db))"
  assumes "rotate_wal db w = (s, db', w')"
  obtains
    (not_opened) "opened w = (s, None, w')" "db' = db\<lparr>db_next_file_number := n + 1\<rparr>"
  | (not_published) wr s1 w1 where "opened w = (s1, Some wr, w1)" "SaveManifest d m w1 = (s, False, w')"
      "db' = db\<lparr>db_next_file_number := n + 1\<rparr>"
  | (rotated) wr s1 w1 w2 where "opened w = (s1, Some wr, w1)" "SaveManifest d m w1 = (s, True, w2)"
      "w' = sys_remove (WalFileName d (db_current_wal_number db)) w2"
      "db' = db\<lparr>db_next_file_number := n + 1, db_manifest := m, db_wal_writer := Some wr,
        db_current_wal_number := n\<rparr>"
proof -
  obtain s1 wo w1 where op: "opened w = (s1, wo, w1)"
    by (rule prod_cases3)
  show ?thesis
  proof (cases wo)
    case None
    with assms(5) op not_opened show ?thesis
      by (simp add: rotate_wal_def Let_def opened_def n_def)
  next
    case (Some wr)
    obtain s2 published w2 where save: "SaveManifest d m w1 = (s2, published, w2)"
      by (rule prod_cases3)
    show ?thesis
    proof (cases published)
      case True
      with assms(5) op save Some rotated show ?thesis
        by (simp add: rotate_wal_def Let_def opened_def n_def m_def d_def)
    next
      case False
      with SaveManifest_outcome(1) [OF save] have "\<not> ok s2" by blast
      with assms(5) op save Some not_published False show ?thesis
        by (simp add: rotate_wal_def Let_def opened_def n_def m_def d_def)
    qed
  qed
qed

lemma rotate_wal_effect:
  assumes "rotate_wal db w = (s, db', w')" and "stored G db w" and "logged G L g db w"
    and "list_view (db_memtables db) = Map.empty"
    and "mf_next_file_number (db_manifest db) = db_next_file_number db"
    and "db_current_wal_number db < db_next_file_number db" and "unat (db_next_file_number db) + 1 < 2 ^ 64"
  shows "(\<exists>rotated. flushed G L g db db' w' rotated \<and> (ok s \<longrightarrow> rotated)) \<and>
    db_memtables db' = db_memtables db"
proof -
  define n where "n = db_next_file_number db"
  define db1 where "db1 = db\<lparr>db_next_file_number := n + 1\<rparr>"
  let ?d = "db_dbname db"
  note step = next_file_number_step [OF assms(7), folded n_def, simplified]
  have stored1: "stored G db1 w"
    using assms(2) step by (auto simp: stored_def db1_def n_def persistent_def intro: order_trans less_imp_le)
  have logged1: "logged G L g db1 w"
    using assms(3) by (simp add: logged_def db1_def)
  have setup1: "db_dbname db1 = ?d" "same_setup db db1" "db_layer G db1 = db_layer G db"
    by (simp_all add: db1_def same_setup_def db_layer_def)
  have empty: "content w (WalFileName ?d n) = []"
    using assms(3,5,6) by (auto simp: logged_def n_def)
  have opened: "stored G db1 v \<and> logged G L g db1 v"
    if "WalWriter_Open (WalFileName ?d n) (op_wal_sync_policy (db_options db)) (op_wal_batch_size (db_options db)) w = (t, wo, v)"
    for t wo v
  proof -
    note frame = WalWriter_Open_frame [OF that]
    have "files v (WalFileName ?d k) = files w (WalFileName ?d k)" if "k \<noteq> n" for k
      using frame(1) that by simp
    with logged1 frame(2) have "logged G L g db1 v"
      using assms(6) unfolding logged_def log_sink_def by (auto simp: db1_def n_def)
    moreover have "stored G db1 v"
      by (rule stored_frame [OF stored1]) (auto intro!: frame(1) simp: setup1(1) not_sym [OF numbered_paths(1)])
    ultimately show ?thesis by blast
  qed
  from assms(1) show ?thesis
  proof (cases rule: rotate_wal_cases)
    case not_opened
    from opened [OF not_opened(1) [folded n_def]] WalWriter_Open_frame(3) [OF not_opened(1)] setup1
    show ?thesis
      by (intro conjI exI [of _ False]) (auto simp: not_opened(2) flushed_def db1_def n_def)
  next
    case (not_published wr t v)
    note frame = SaveManifest_numbered [OF not_published(2)] and io = SaveManifest_outcome(1) [OF not_published(2)]
    have v: "stored G db1 v" "logged G L g db1 v"
      using opened [OF not_published(1) [folded n_def]] by simp_all
    have "stored G db1 w'"
      by (rule stored_frame [OF v(1)]) (use frame(2,3) setup1 in simp_all)
    moreover have "logged G L g db1 w'"
      by (rule logged_frame [OF v(2)]) (use frame(1) setup1 in simp)
    ultimately show ?thesis
      using io setup1 by (intro conjI exI [of _ False]) (auto simp: not_published(3) flushed_def db1_def n_def)
  next
    case (rotated wr t v u)
    define m where "m = (db_manifest db)\<lparr>mf_wal_file_number := n\<rparr>"
    note frame = SaveManifest_numbered [OF rotated(2) [folded n_def, folded m_def]]
    note frame1 = WalWriter_Open_frame [OF rotated(1)]
    have v: "stored G db1 v" "logged G L g db1 v"
      using opened [OF rotated(1) [folded n_def]] by simp_all
    have w': "files w' q = files u q" if "q \<noteq> WalFileName ?d (db_current_wal_number db)" for q
      using that rotated(3) by simp
    have db': "db' = db1\<lparr>db_manifest := m, db_wal_writer := Some wr, db_current_wal_number := n\<rparr>"
      using rotated(4) by (simp add: db1_def m_def n_def)
    have tables: "files w' (SstableFileName ?d k) = files v (SstableFileName ?d k)" for k
      using w' frame(2) by simp
    have "manifest_holds ?d m w'"
      using frame(4) w' [of "ManifestPath ?d"] by (simp add: manifest_holds_def not_sym [OF numbered_paths(1)])
    then have "stored G db' w'"
      using v(1) open_tables_frame [of ?d v "db_tables db" G w', OF _ tables]
      by (auto simp: stored_def readable_def db' m_def setup1(1) db1_def persistent_def)
    moreover have "logged G (db_layer G db) Clean db' w'"
    proof -
      have log: "fd_path (ww_file wr) = WalFileName ?d n" "log_sink wr [] v"
        using new_log [OF rotated(1)] empty by (simp_all add: n_def)
      have other: "n \<noteq> db_current_wal_number db"
        using assms(6) by (auto simp: n_def)
      then have "files w' (WalFileName ?d n) = files v (WalFileName ?d n)"
        using w' frame(1) by simp
      then have "log_sink wr [] w'"
        using log by (simp add: log_sink_def)
      moreover have "content w' (WalFileName ?d k) = []" if "n \<le> k" "k \<noteq> n" for k
      proof -
        have k: "k \<noteq> db_current_wal_number db"
          using that assms(6) by (auto simp: n_def)
        then have "content w' (WalFileName ?d k) = content v (WalFileName ?d k)"
          using w' frame(1) by (simp add: content_def)
        then show ?thesis
          using k that v(2) assms(5) by (auto simp: logged_def db1_def n_def)
      qed
      moreover have "db_current_wal_number db < n"
        using assms(6) by (simp add: n_def)
      then have "n \<noteq> 0" by auto
      ultimately show ?thesis
        using log(1) assms(4,5)
        by (auto simp: logged_def db' m_def db1_def n_def db_layer_def clean_log_holds intro!: exI [of _ "[]"])
    qed
    moreover have "db_layer G db' = db_layer G db" "same_setup db db'"
      by (simp_all add: db' db1_def db_layer_def same_setup_def)
    ultimately show ?thesis
      by (intro conjI exI [of _ True]) (auto simp: flushed_def db' db1_def)
  qed
qed

subsection \<open>The whole flush\<close>

lemma Freeze_within_limits:
  "\<forall>t\<in>set (list_tables l). within_limits t \<Longrightarrow> \<forall>t\<in>set (list_tables (Freeze l)). within_limits t"
  by (auto simp: list_tables_def Freeze_def within_limits_def new_memtable_def)

lemma freeze_active:
  assumes "stored G db w" and "logged G L g db w" and "\<not> MemTable_empty (ml_active (db_memtables db))"
    and "db' = db\<lparr>db_memtables := Freeze (db_memtables db)\<rparr>"
  shows "stored G db' w" "logged G L g db' w" "db_layer G db' = db_layer G db" "same_setup db db'"
    "MemTable_empty (ml_active (db_memtables db'))"
    "ImmutableCount (db_memtables db') = ImmutableCount (db_memtables db) + 1"
proof -
  have inv: "memtable_list_inv (db_memtables db)"
    using assms(1) by (simp add: stored_def readable_def)
  note frozen = Freeze_inv [OF inv assms(3)] Freeze_view [of "db_memtables db"]
  show "stored G db' w"
    using assms(1) frozen(1) Freeze_within_limits [of "db_memtables db"]
    by (auto simp: stored_def readable_def assms(4) persistent_def)
  show "logged G L g db' w"
    using assms(2) frozen(2) by (simp add: logged_def assms(4))
  show "db_layer G db' = db_layer G db" "same_setup db db'"
    using frozen(2) by (simp_all add: assms(4) db_layer_def same_setup_def)
  show "MemTable_empty (ml_active (db_memtables db'))"
    "ImmutableCount (db_memtables db') = ImmutableCount (db_memtables db) + 1"
    by (simp_all add: assms(4) Freeze_def MemTable_empty_def new_memtable_def ImmutableCount_def)
qed

lemma empty_list_view:
  "MemTable_empty (ml_active l) \<Longrightarrow> ImmutableCount l = 0 \<Longrightarrow> list_view l = Map.empty"
  by (simp add: list_view_def list_tables_def ImmutableCount_def MemTable_empty_def table_view_def)

text \<open>There is room for the file numbers a flush may use.\<close>

definition numbers_left :: "nat \<Rightarrow> db \<Rightarrow> bool" where
  "numbers_left k db \<longleftrightarrow> unat (db_next_file_number db) + ImmutableCount (db_memtables db) + k < 2 ^ 64"

lemma FlushLocked_effect:
  assumes "FlushLocked db w = Some (s, db', w')" and "stored G db w" and "logged G L g db w"
    and "numbers_left 2 db"
  shows "\<exists>rotated. flushed G L g db db' w' rotated \<and>
    (ok s \<longrightarrow> list_view (db_memtables db) \<noteq> Map.empty \<longrightarrow> rotated)"
proof -
  define db1 where "db1 = (if \<not> MemTable_empty (ml_active (db_memtables db))
    then db\<lparr>db_memtables := Freeze (db_memtables db)\<rparr> else db)"
  have "persistent db" using assms(2) by (simp add: stored_def)
  then have run: "(if ImmutableCount (db_memtables db1) = 0 then Some (status_OK, db1, w)
      else do {(s, db, w) \<leftarrow> flush_rounds db1 w; if \<not> ok s then Some (s, db, w) else Some (rotate_wal db w)}) =
      Some (s, db', w')"
    using assms(1) [unfolded FlushLocked_def Let_def, folded db1_def] by simp
  have one: "stored G db1 w" "logged G L g db1 w" "db_layer G db1 = db_layer G db" "same_setup db db1"
    "MemTable_empty (ml_active (db_memtables db1))"
    "unat (db_next_file_number db1) + ImmutableCount (db_memtables db1) + 1 < 2 ^ 64"
    using freeze_active [OF assms(2,3) _ refl] assms(2-4) by (auto simp: db1_def numbers_left_def)
  show ?thesis
  proof (cases "ImmutableCount (db_memtables db1) = 0")
    case True
    with run have eq: "db' = db1" "w' = w" by simp_all
    have "db1 = db"
      using True by (auto simp: db1_def Freeze_def ImmutableCount_def)
    then have "list_view (db_memtables db) = Map.empty"
      using True one(5) empty_list_view by simp
    with one eq show ?thesis
      by (intro exI [of _ False]) (auto simp: flushed_def)
  next
    case False
    obtain s2 db2 w2 where rounds: "flush_rounds db1 w = Some (s2, db2, w2)"
      and rest: "(if \<not> ok s2 then Some (s2, db2, w2) else Some (rotate_wal db2 w2)) = Some (s, db', w')"
      using run False by (auto simp: bind_eq_Some_conv)
    obtain G2 where two: "stored G2 db2 w2" "logged G2 L g db2 w2" "db_layer G2 db2 = db_layer G db1"
      "ml_active (db_memtables db2) = ml_active (db_memtables db1)" "same_setup db1 db2"
      and good: "ok s2 \<Longrightarrow> ImmutableCount (db_memtables db2) = 0 \<and>
        mf_next_file_number (db_manifest db2) = db_next_file_number db2 \<and>
        db_current_wal_number db2 < db_next_file_number db2 \<and> unat (db_next_file_number db2) + 1 < 2 ^ 64"
      using flush_rounds_effect [OF rounds one(1,2) _ one(6)] False by blast
    show ?thesis
    proof (cases "ok s2")
      case False
      with rest have "s = s2" "db' = db2" "w' = w2" by simp_all
      with two one(3,4) False show ?thesis
        by (intro exI [of _ False]) (auto simp: flushed_def intro: same_setup_trans)
    next
      case True
      with rest have rot: "rotate_wal db2 w2 = (s, db', w')" by simp
      have "list_view (db_memtables db2) = Map.empty"
        using good [OF True] two(4) one(5) by (intro empty_list_view) simp_all
      from rotate_wal_effect [OF rot two(1,2) this] good [OF True]
      obtain rotated where "flushed G2 L g db2 db' w' rotated" "ok s \<longrightarrow> rotated" by blast
      then show ?thesis
        using two(3,5) one(3,4) same_setup_trans [OF one(4) same_setup_trans [OF two(5)]]
        by (intro exI [of _ rotated]) (auto simp: flushed_def split: if_splits)
    qed
  qed
qed

end
