(* ===== verification/Pebble_Db_Write.thy ===== *)
theory Pebble_Db_Write
  imports Pebble_Db_Flush
begin

text \<open>
  Writing (\<open>Put\<close> and \<open>Delete\<close> of db.cpp).  Shown here: a write that returns has been applied as a whole or
  not at all, to what is read and to what the log recovers alike; one that reports success has been
  applied to both.
\<close>

lemma stored_read:
  assumes "stored G db w" and "same_core db db'" and "readable G db' w'" and "files w' = files w"
  shows "stored G db' w'"
  using assms by (auto simp: stored_def same_core_def manifest_holds_def persistent_def)

lemma logged_read:
  assumes "logged G L g db w" and "same_core db db'" and "files w' = files w"
  shows "logged G L g db' w'"
  using assms by (simp add: logged_def same_core_def log_sink_def content_def)

text \<open>How a log is graded after one more record went through \<open>AddRecord\<close>, successfully or not.\<close>

fun after_ok :: "log_grade \<Rightarrow> log_grade" where
  "after_ok Clean = Clean"
| "after_ok Torn = Broken"
| "after_ok Broken = Broken"

fun after_error :: "log_grade \<Rightarrow> log_grade" where
  "after_error Clean = Torn"
| "after_error Torn = Broken"
| "after_error Broken = Broken"

lemma record_entry_persisted [simp]:
  "record_entry (persisted r) = record_entry r" "wr_key (persisted r) = wr_key r"
  by (auto simp: record_entry_def persisted_def)

lemma log_holds_append:
  assumes "log_holds c rs g" and "within_bounds r"
  shows "log_holds (c @ wal_enc r) (rs @ [persisted r]) (after_ok g)"
  using assms clean_log_append by (cases g) auto

lemma log_holds_torn:
  assumes "log_holds c rs g" and "within_bounds r" and "n \<le> length (wal_enc r)"
  shows "log_holds (c @ take n (wal_enc r)) (if n = length (wal_enc r) then rs @ [persisted r] else rs) (after_error g)"
proof (cases g)
  case Clean
  then have clean: "clean_log c rs" using assms(1) by simp
  show ?thesis
    using torn_append_scan [OF clean assms(2,3)] clean clean_log_append [OF clean assms(2)]
    by (auto simp: Clean)
qed simp_all

text \<open>
  The log step of a write.  When it succeeds the log covers the key, so it stays in step with any
  memtables that hold the key as well.
\<close>

lemma log_write_effect:
  assumes "log_write db r w = Some (s, db', w')" and "stored G db w" and "logged G L g db w"
  shows "stored G db' w'" and "\<exists>wr. db' = db\<lparr>db_wal_writer := wr\<rparr>"
    and "ok s \<Longrightarrow> within_bounds r"
    and "ok s \<Longrightarrow> dom (list_view l) \<subseteq> insert (wr_key r) (dom (list_view (db_memtables db))) \<Longrightarrow>
      logged G (L(wr_key r \<mapsto> record_entry r)) (after_ok g) (db'\<lparr>db_memtables := l\<rparr>) w'"
    and "\<not> ok s \<Longrightarrow> (db' = db \<and> w' = w) \<or> logged G L (after_error g) db' w' \<or>
      logged G (L(wr_key r \<mapsto> record_entry r)) (after_error g) db' w'"
proof -
  let ?p = "WalFileName (db_dbname db) (db_current_wal_number db)"
  have "persistent db" using assms(2) by (simp add: stored_def)
  obtain wr c rs where wr: "db_wal_writer db = Some wr" "fd_path (ww_file wr) = ?p" "log_sink wr c w"
      "log_holds c rs g" "tables_layer G ++ replay_layer rs = L"
      "dom (list_view (db_memtables db)) \<subseteq> dom (replay_layer rs)"
    using assms(3) by (auto simp: logged_def)
  have nums: "mf_wal_file_number (db_manifest db) = db_current_wal_number db" "db_current_wal_number db \<noteq> 0"
      "db_current_wal_number db \<le> mf_next_file_number (db_manifest db)"
      "\<forall>n. mf_next_file_number (db_manifest db) \<le> n \<longrightarrow> n \<noteq> db_current_wal_number db \<longrightarrow>
        content w (WalFileName (db_dbname db) n) = []"
    using assms(3) by (simp_all add: logged_def)
  obtain wr' where add: "AddRecord wr r w = (s, wr', w')" and db': "db' = db\<lparr>db_wal_writer := Some wr'\<rparr>"
    using assms(1) \<open>persistent db\<close> wr(1) by (auto simp: log_write_def split: prod.splits)
  obtain n where n: "n \<le> length (wal_enc r)" and files: "files w' = (files w)(?p \<mapsto> c @ take n (wal_enc r))"
    and sink: "log_sink wr' (c @ take n (wal_enc r)) w'" "fd_path (ww_file wr') = ?p"
    and full: "ok s \<Longrightarrow> within_bounds r \<and> n = length (wal_enc r)"
    and out: "\<not> within_bounds r \<Longrightarrow> wr' = wr \<and> w' = w"
    using AddRecord_effect [OF add wr(3)] wr(2) by auto
  show "\<exists>wr. db' = db\<lparr>db_wal_writer := wr\<rparr>" using db' by blast
  show "ok s \<Longrightarrow> within_bounds r" using full by blast
  have "stored G db w'"
    by (rule stored_frame [OF assms(2)]) (auto simp: files not_sym [OF numbered_paths(1)])
  then show "stored G db' w'"
    by (simp add: db' stored_def persistent_def)
  have others: "content w' (WalFileName (db_dbname db) k) = []"
    if "mf_next_file_number (db_manifest db) \<le> k" "k \<noteq> db_current_wal_number db" for k
    using nums(4) that by (simp add: content_def files)
  have log: "logged G (tables_layer G ++ replay_layer rs') g' (db'\<lparr>db_memtables := l\<rparr>) w'"
    if "log_holds (c @ take n (wal_enc r)) rs' g'" "dom (list_view l) \<subseteq> dom (replay_layer rs')" for rs' g' l
    using that sink nums others unfolding logged_def by (auto simp: db')
  have new: "tables_layer G ++ replay_layer (rs @ [persisted r]) = L(wr_key r \<mapsto> record_entry r)"
    using wr(5) by (auto simp: fun_eq_iff map_add_def)
  show "logged G (L(wr_key r \<mapsto> record_entry r)) (after_ok g) (db'\<lparr>db_memtables := l\<rparr>) w'"
    if "ok s" "dom (list_view l) \<subseteq> insert (wr_key r) (dom (list_view (db_memtables db)))"
  proof -
    have "dom (list_view l) \<subseteq> insert (wr_key r) (dom (replay_layer rs))"
      using that(2) wr(6) by blast
    then have "dom (list_view l) \<subseteq> dom (replay_layer (rs @ [persisted r]))"
      by simp
    moreover have "log_holds (c @ take n (wal_enc r)) (rs @ [persisted r]) (after_ok g)"
      using log_holds_append [OF wr(4)] full [OF that(1)] by simp
    ultimately show ?thesis
      using log unfolding new [symmetric] by blast
  qed
  show "(db' = db \<and> w' = w) \<or> logged G L (after_error g) db' w' \<or>
      logged G (L(wr_key r \<mapsto> record_entry r)) (after_error g) db' w'" if "\<not> ok s"
  proof (cases "within_bounds r")
    case False
    with out wr(1) show ?thesis by (simp add: db')
  next
    case True
    define rs' where "rs' = (if n = length (wal_enc r) then rs @ [persisted r] else rs)"
    have "log_holds (c @ take n (wal_enc r)) rs' (after_error g)"
      unfolding rs'_def by (rule log_holds_torn [OF wr(4) True n])
    moreover have "dom (list_view (db_memtables db)) \<subseteq> dom (replay_layer rs')"
      using wr(6) by (auto simp: rs'_def)
    ultimately have "logged G (tables_layer G ++ replay_layer rs') (after_error g) (db'\<lparr>db_memtables := db_memtables db\<rparr>) w'"
      by (rule log)
    moreover have "db'\<lparr>db_memtables := db_memtables db\<rparr> = db'"
      by (simp add: db')
    ultimately show ?thesis
      using new wr(5) by (auto simp: rs'_def split: if_splits)
  qed
qed

text \<open>The outcome of a write of entry \<open>e\<close> at \<open>key\<close>.\<close>

definition write_outcome :: "stored_table list \<Rightarrow> layer \<Rightarrow> log_grade \<Rightarrow> db \<Rightarrow> bytes \<Rightarrow> mem_entry \<Rightarrow>
    status \<Rightarrow> db \<Rightarrow> world \<Rightarrow> bool" where
  "write_outcome G L g db key e s db' w' \<longleftrightarrow>
     db_options db' = db_options db \<and> db_dbname db' = db_dbname db \<and>
     (\<exists>G' L' g'. stored G' db' w' \<and> logged G' L' g' db' w' \<and>
        (db_layer G' db' = (db_layer G db)(key \<mapsto> e) \<and>
           (L' = L(key \<mapsto> e) \<and> g' = after_ok g \<or> L' = db_layer G' db' \<and> g' = Clean) \<or>
         \<not> ok s \<and> db_layer G' db' = db_layer G db \<and>
           (L' = L \<and> g' = g \<or> L' = L \<and> g' = after_error g \<or> L' = L(key \<mapsto> e) \<and> g' = after_error g)))"

lemma maybe_flush_effect:
  assumes "maybe_flush db w = Some (s, db', w')" and "stored G db w" and "logged G L g db w" and "numbers_left 2 db"
  shows "\<exists>rotated. flushed G L g db db' w' rotated"
  using assms FlushLocked_effect [of db w s db' w' G L g]
  by (auto simp: maybe_flush_def flushed_def same_setup_def split: if_splits)

lemma write_tail:
  assumes live: "IsKeyCurrentlyLive db key w = Some (b, db1, w1)"
    and flush: "maybe_flush (db1\<lparr>db_memtables := l, db_live_key_count := n, db_stats := st\<rparr>) w1 = Some (s, db', w')"
    and stored: "stored G db w" and logged: "logged G L g (db\<lparr>db_memtables := l\<rparr>) w"
    and room: "numbers_left 2 db"
    and l: "memtable_list_inv l" "list_view l = (list_view (db_memtables db))(key \<mapsto> e)"
      "\<forall>t\<in>set (list_tables l). within_limits t" "ml_immutables l = ml_immutables (db_memtables db)"
  shows "db_options db' = db_options db \<and> db_dbname db' = db_dbname db \<and>
    (\<exists>G' L' g'. stored G' db' w' \<and> logged G' L' g' db' w' \<and> db_layer G' db' = (db_layer G db)(key \<mapsto> e) \<and>
      (L' = L \<and> g' = g \<or> L' = db_layer G' db' \<and> g' = Clean))"
proof -
  have "readable G db w" using stored by (simp add: stored_def)
  from IsKeyCurrentlyLive_effect [OF this, of key] live obtain rds c
    where db1: "db1 = db\<lparr>db_tables := rds, db_block_cache := c\<rparr>" and read: "readable G db1 w1"
      and files: "files w1 = files w"
    by auto
  define db2 where "db2 = db1\<lparr>db_memtables := l, db_live_key_count := n, db_stats := st\<rparr>"
  have "stored G db1 w1"
    using stored_read [OF stored _ read files] by (simp add: db1 same_core_def)
  then have stored2: "stored G db2 w1"
    using l(1,3) by (auto simp: stored_def readable_def db2_def persistent_def)
  have "logged G L g (db1\<lparr>db_memtables := l\<rparr>) w1"
    using logged_read [OF logged _ files] by (simp add: db1 same_core_def)
  then have logged2: "logged G L g db2 w1"
    by (simp add: logged_def db2_def)
  have "numbers_left 2 db2"
    using room l(4) by (simp add: numbers_left_def db2_def db1 ImmutableCount_def)
  from maybe_flush_effect [OF flush [folded db2_def] stored2 logged2 this]
  obtain rotated G' where same: "same_setup db2 db'" and G': "stored G' db' w'" "db_layer G' db' = db_layer G db2"
      "if rotated then logged G' (db_layer G db2) Clean db' w' else logged G' L g db' w'"
    unfolding flushed_def by blast
  have "db_layer G db2 = (db_layer G db)(key \<mapsto> e)"
    by (auto simp: db_layer_def db2_def l(2) fun_eq_iff map_add_def)
  moreover have "db_options db2 = db_options db" "db_dbname db2 = db_dbname db"
    unfolding db2_def db1 by simp_all
  ultimately show ?thesis
    using same G'
    by (cases rotated; intro conjI exI [of _ G']
        exI [of _ "if rotated then db_layer G' db' else L"] exI [of _ "if rotated then Clean else g"])
      (simp_all add: same_setup_def)
qed

lemma within_limits_put:
  assumes "within_limits t" and "length key \<le> kMaxKeyLength" and "length v \<le> kMaxValueLength"
  shows "within_limits (MemTable_Put key v q t)" "within_limits (MemTable_Delete key q t)"
  using assms by (auto simp: within_limits_def MemTable_Put_eq MemTable_Delete_eq Let_def dest!: ordered_put_values)

lemma List_within_limits:
  assumes "\<forall>t\<in>set (list_tables l). within_limits t" and "length key \<le> kMaxKeyLength"
  shows "length v \<le> kMaxValueLength \<Longrightarrow> \<forall>t\<in>set (list_tables (List_Put key v q l)). within_limits t"
    and "\<forall>t\<in>set (list_tables (List_Delete key q l)). within_limits t"
  using assms within_limits_put(1) [of _ key v q] within_limits_put(2) [of _ key "[]" q]
  by (auto simp: list_tables_def List_Put_def List_Delete_def)

lemma write_rejected:
  assumes "\<not> ok s" and "stored G db' w'" and "db_layer G db' = db_layer G db"
    and "logged G L g db' w' \<or> logged G L (after_error g) db' w' \<or> logged G (L(key \<mapsto> e)) (after_error g) db' w'"
    and "db_options db' = db_options db" and "db_dbname db' = db_dbname db"
  shows "write_outcome G L g db key e s db' w'"
  unfolding write_outcome_def using assms by blast

text \<open>
  \<open>Put\<close> and \<open>Delete\<close> differ in the record, the update of the active memtable and the counters.
\<close>

lemma write_effect:
  assumes log: "log_write db r w = Some (s1, db1, w1)"
    and inv: "stored G db w" "logged G L g db w" "numbers_left 2 db"
    and rejected: "\<not> ok s1 \<Longrightarrow> s = s1 \<and> db' = db1 \<and> w' = w1"
    and applied: "ok s1 \<Longrightarrow> \<exists>b db3 w3 n st.
      IsKeyCurrentlyLive (db1\<lparr>db_next_sequence := db_next_sequence db1 + 1\<rparr>) (wr_key r) w1 = Some (b, db3, w3) \<and>
      maybe_flush (db3\<lparr>db_memtables := upd (db_memtables db3), db_live_key_count := n, db_stats := st\<rparr>) w3 = Some (s, db', w')"
    and upd: "\<And>l. memtable_list_inv l \<Longrightarrow> memtable_list_inv (upd l) \<and>
        list_view (upd l) = (list_view l)(wr_key r \<mapsto> record_entry r)"
      "\<And>l. within_bounds r \<Longrightarrow> \<forall>t\<in>set (list_tables l). within_limits t \<Longrightarrow> \<forall>t\<in>set (list_tables (upd l)). within_limits t"
      "\<And>l. ml_immutables (upd l) = ml_immutables l"
  shows "write_outcome G L g db (wr_key r) (record_entry r) s db' w'"
proof -
  let ?key = "wr_key r" and ?e = "record_entry r"
  note effect = log_write_effect [OF log inv(1,2)]
  obtain wr where db1: "db1 = db\<lparr>db_wal_writer := wr\<rparr>" using effect(2) by blast
  show ?thesis
  proof (cases "ok s1")
    case False
    from db1 have "db_layer G db1 = db_layer G db" by (simp add: db_layer_def)
    moreover have "logged G L g db1 w1 \<or> logged G L (after_error g) db1 w1 \<or> logged G (L(?key \<mapsto> ?e)) (after_error g) db1 w1"
      using effect(5) [OF False] inv(2) by blast
    ultimately show ?thesis
      using effect(1) rejected [OF False] False db1 by (intro write_rejected) simp_all
  next
    case True
    define db2 where "db2 = db1\<lparr>db_next_sequence := db_next_sequence db1 + 1\<rparr>"
    define l where "l = upd (db_memtables db)"
    obtain b db3 w3 n st where live: "IsKeyCurrentlyLive db2 ?key w1 = Some (b, db3, w3)"
      and run: "maybe_flush (db3\<lparr>db_memtables := upd (db_memtables db3), db_live_key_count := n, db_stats := st\<rparr>) w3 = Some (s, db', w')"
      using applied [OF True] unfolding db2_def by blast
    have stored2: "stored G db2 w1"
      using effect(1) by (simp add: stored_def db2_def persistent_def)
    have "db_memtables db3 = db_memtables db"
      using IsKeyCurrentlyLive_effect [of G db2 w1 ?key] live stored2 by (auto simp: stored_def db2_def db1)
    with run have run: "maybe_flush (db3\<lparr>db_memtables := l, db_live_key_count := n, db_stats := st\<rparr>) w3 = Some (s, db', w')"
      by (simp add: l_def)
    have old: "memtable_list_inv (db_memtables db)" "\<forall>t\<in>set (list_tables (db_memtables db)). within_limits t"
      using inv(1) by (simp_all add: stored_def readable_def)
    have l: "memtable_list_inv l" "list_view l = (list_view (db_memtables db2))(?key \<mapsto> ?e)"
      "\<forall>t\<in>set (list_tables l). within_limits t" "ml_immutables l = ml_immutables (db_memtables db2)"
      using upd(1) [OF old(1)] upd(2) [OF effect(3) [OF True] old(2)] upd(3)
      by (simp_all add: l_def db2_def db1)
    have "dom (list_view l) \<subseteq> insert ?key (dom (list_view (db_memtables db)))"
      by (simp add: l(2) db2_def db1)
    from effect(4) [OF True this] have logged2: "logged G (L(?key \<mapsto> ?e)) (after_ok g) (db2\<lparr>db_memtables := l\<rparr>) w1"
      by (simp add: logged_def db2_def)
    have room: "numbers_left 2 db2"
      using inv(3) by (simp add: numbers_left_def db2_def db1)
    have same: "db_layer G db2 = db_layer G db" "db_options db2 = db_options db" "db_dbname db2 = db_dbname db"
      by (simp_all add: db2_def db1 db_layer_def)
    from write_tail [OF live run stored2 logged2 room l] show ?thesis
      unfolding write_outcome_def same by metis
  qed
qed

lemma DB_Put_effect:
  assumes "DB_Put db key v w = Some (s, db', w')" and "stored G db w" and "logged G L g db w" and "numbers_left 2 db"
  shows "\<exists>q. write_outcome G L g db key \<lparr>me_sequence = q, me_type = kValue, me_value = v\<rparr> s db' w'"
proof -
  define q where "q = db_next_sequence db"
  define r where "r = \<lparr>wr_sequence = q, wr_type = kPut, wr_key = key, wr_value = v\<rparr>"
  have e: "record_entry r = \<lparr>me_sequence = q, me_type = kValue, me_value = v\<rparr>" "wr_key r = key"
    by (simp_all add: r_def record_entry_def)
  obtain s1 db1 w1 where log: "log_write db r w = Some (s1, db1, w1)"
    using assms(1) by (auto simp: DB_Put_def Let_def r_def q_def bind_eq_Some_conv)
  note run = assms(1) [unfolded DB_Put_def Let_def, folded q_def, folded r_def, unfolded log bind.bind_lunit prod.case]
  have "write_outcome G L g db (wr_key r) (record_entry r) s db' w'"
  proof (rule write_effect [OF log assms(2-4), where upd = "List_Put key v q"])
    assume "ok s1"
    with run obtain b db3 w3 where live: "IsKeyCurrentlyLive (db1\<lparr>db_next_sequence := db_next_sequence db1 + 1\<rparr>) key w1 = Some (b, db3, w3)"
      by (auto simp: bind_eq_Some_conv)
    define n where "n = (if \<not> b then db_live_key_count db3 + 1 else db_live_key_count db3)"
    define st where "st = (db_stats db3)\<lparr>st_put_count := st_put_count (db_stats db3) + 1\<rparr>"
    have "maybe_flush (db3\<lparr>db_memtables := List_Put key v q (db_memtables db3), db_live_key_count := n, db_stats := st\<rparr>) w3 =
        Some (s, db', w')"
      using run \<open>ok s1\<close> live by (cases b) (simp_all add: n_def st_def)
    with live show "\<exists>b db3 w3 n st.
      IsKeyCurrentlyLive (db1\<lparr>db_next_sequence := db_next_sequence db1 + 1\<rparr>) (wr_key r) w1 = Some (b, db3, w3) \<and>
      maybe_flush (db3\<lparr>db_memtables := List_Put key v q (db_memtables db3), db_live_key_count := n, db_stats := st\<rparr>) w3 =
        Some (s, db', w')"
      unfolding e by blast
  next
    show "memtable_list_inv l \<Longrightarrow> memtable_list_inv (List_Put key v q l) \<and>
        list_view (List_Put key v q l) = (list_view l)(wr_key r \<mapsto> record_entry r)" for l
      unfolding e using List_Put_inv [of l key v q] by blast
    show "within_bounds r \<Longrightarrow> \<forall>t\<in>set (list_tables l). within_limits t \<Longrightarrow>
        \<forall>t\<in>set (list_tables (List_Put key v q l)). within_limits t" for l
      by (rule List_within_limits) (simp_all add: within_bounds_def r_def)
    show "ml_immutables (List_Put key v q l) = ml_immutables l" for l
      by (simp add: List_Put_def)
    show "\<not> ok s1 \<Longrightarrow> s = s1 \<and> db' = db1 \<and> w' = w1"
      using run by simp
  qed
  then show ?thesis unfolding e by blast
qed

lemma DB_Delete_effect:
  assumes "DB_Delete db key w = Some (s, db', w')" and "stored G db w" and "logged G L g db w" and "numbers_left 2 db"
  shows "\<exists>q. write_outcome G L g db key \<lparr>me_sequence = q, me_type = kTombstone, me_value = []\<rparr> s db' w'"
proof -
  define q where "q = db_next_sequence db"
  define r where "r = \<lparr>wr_sequence = q, wr_type = kDelete, wr_key = key, wr_value = []\<rparr>"
  have e: "record_entry r = \<lparr>me_sequence = q, me_type = kTombstone, me_value = []\<rparr>" "wr_key r = key"
    by (simp_all add: r_def record_entry_def)
  obtain s1 db1 w1 where log: "log_write db r w = Some (s1, db1, w1)"
    using assms(1) by (auto simp: DB_Delete_def Let_def r_def q_def bind_eq_Some_conv)
  note run = assms(1) [unfolded DB_Delete_def Let_def, folded q_def, folded r_def, unfolded log bind.bind_lunit prod.case]
  have "write_outcome G L g db (wr_key r) (record_entry r) s db' w'"
  proof (rule write_effect [OF log assms(2-4), where upd = "List_Delete key q"])
    assume "ok s1"
    with run obtain b db3 w3 where live: "IsKeyCurrentlyLive (db1\<lparr>db_next_sequence := db_next_sequence db1 + 1\<rparr>) key w1 = Some (b, db3, w3)"
      by (auto simp: bind_eq_Some_conv)
    define n where "n = (if b then db_live_key_count db3 - 1 else db_live_key_count db3)"
    define st where "st = (db_stats db3)\<lparr>st_delete_count := st_delete_count (db_stats db3) + 1\<rparr>"
    have "maybe_flush (db3\<lparr>db_memtables := List_Delete key q (db_memtables db3), db_live_key_count := n, db_stats := st\<rparr>) w3 =
        Some (s, db', w')"
      using run \<open>ok s1\<close> live by (cases b) (simp_all add: n_def st_def)
    with live show "\<exists>b db3 w3 n st.
      IsKeyCurrentlyLive (db1\<lparr>db_next_sequence := db_next_sequence db1 + 1\<rparr>) (wr_key r) w1 = Some (b, db3, w3) \<and>
      maybe_flush (db3\<lparr>db_memtables := List_Delete key q (db_memtables db3), db_live_key_count := n, db_stats := st\<rparr>) w3 =
        Some (s, db', w')"
      unfolding e by blast
  next
    show "memtable_list_inv l \<Longrightarrow> memtable_list_inv (List_Delete key q l) \<and>
        list_view (List_Delete key q l) = (list_view l)(wr_key r \<mapsto> record_entry r)" for l
      unfolding e using List_Delete_inv [of l key q] by blast
    show "within_bounds r \<Longrightarrow> \<forall>t\<in>set (list_tables l). within_limits t \<Longrightarrow>
        \<forall>t\<in>set (list_tables (List_Delete key q l)). within_limits t" for l
      by (rule List_within_limits) (simp_all add: within_bounds_def r_def)
    show "ml_immutables (List_Delete key q l) = ml_immutables l" for l
      by (simp add: List_Delete_def)
    show "\<not> ok s1 \<Longrightarrow> s = s1 \<and> db' = db1 \<and> w' = w1"
      using run by simp
  qed
  then show ?thesis unfolding e by blast
qed

end
