(* ===== verification/Pebble_Db_Recover.thy ===== *)
theory Pebble_Db_Recover
  imports Pebble_Db_Write
begin

text \<open>
  Recovery (\<open>Open\<close>, \<open>Recover\<close> and \<open>ComputeLiveKeyCount\<close> of db.cpp).  \<open>on_disk\<close> says what a directory
  must hold for its store to be recoverable with the layer \<open>L\<close>.  Shown here: every state of a store whose
  log is not broken leaves such a directory behind, an attempt to open it either succeeds with exactly
  that layer or leaves it as recoverable as it was, and it succeeds when the system does not fail.
\<close>

subsection \<open>Replaying the log into the memtables\<close>

lemma replay_record_effect:
  assumes "replay_record r (q, l) = (q', l')" and "memtable_list_inv l"
  shows "memtable_list_inv l'" and "list_view l' = (list_view l)(wr_key r \<mapsto> record_entry r)"
    and "ml_immutables l' = ml_immutables l" and "q \<le> q'" and "wr_sequence r \<le> q'"
    and "recoverable r \<Longrightarrow> \<forall>t\<in>set (list_tables l). within_limits t \<Longrightarrow> \<forall>t\<in>set (list_tables l'). within_limits t"
proof -
  have q': "q' = (if q < wr_sequence r then wr_sequence r else q)"
    and l': "l' = (if wr_type r = kPut then List_Put (wr_key r) (wr_value r) (wr_sequence r) l
      else List_Delete (wr_key r) (wr_sequence r) l)"
    using assms(1) by (simp_all add: replay_record_def)
  show "memtable_list_inv l'" "list_view l' = (list_view l)(wr_key r \<mapsto> record_entry r)"
    using List_Put_inv [OF assms(2), of "wr_key r" "wr_value r" "wr_sequence r"]
      List_Delete_inv [OF assms(2), of "wr_key r" "wr_sequence r"]
    by (simp_all add: l' record_entry_def)
  show "ml_immutables l' = ml_immutables l"
    by (simp add: l' List_Put_def List_Delete_def)
  show "q \<le> q'" "wr_sequence r \<le> q'"
    by (auto simp: q')
  show "\<forall>t\<in>set (list_tables l'). within_limits t" if "recoverable r" "\<forall>t\<in>set (list_tables l). within_limits t"
  proof (cases "wr_type r = kPut")
    case True
    with List_within_limits(1) [OF that(2), of "wr_key r" "wr_value r"] that(1) show ?thesis
      by (simp add: l' recoverable_def)
  next
    case False
    with List_within_limits(2) [OF that(2), of "wr_key r"] that(1) show ?thesis
      by (simp add: l' recoverable_def)
  qed
qed

lemma replay_effect:
  assumes "fold replay_record rs (q, new_memtable_list) = (q', l')" and "\<forall>r\<in>set rs. recoverable r"
  shows "memtable_list_inv l'" and "list_view l' = replay_layer rs" and "ml_immutables l' = []"
    and "q \<le> q'" and "\<forall>r\<in>set rs. wr_sequence r \<le> q'" and "\<forall>t\<in>set (list_tables l'). within_limits t"
proof -
  have "memtable_list_inv l' \<and> list_view l' = replay_layer rs \<and> ml_immutables l' = [] \<and> q \<le> q' \<and>
    (\<forall>r\<in>set rs. wr_sequence r \<le> q') \<and> (\<forall>t\<in>set (list_tables l'). within_limits t)"
    using assms
  proof (induction rs arbitrary: q' l' rule: rev_induct)
    case Nil
    then show ?case
      by (auto simp: list_tables_def new_memtable_list_def new_memtable_def within_limits_def list_view_def
          memtable_list_inv_def memtable_inv_def entries_cost_def table_view_def)
  next
    case (snoc r rs)
    obtain q1 l1 where prefix: "fold replay_record rs (q, new_memtable_list) = (q1, l1)"
      by (cases "fold replay_record rs (q, new_memtable_list)")
    with snoc.prems(1) have last: "replay_record r (q1, l1) = (q', l')"
      by simp
    have IH: "memtable_list_inv l1" "list_view l1 = replay_layer rs" "ml_immutables l1 = []" "q \<le> q1"
      "\<forall>r\<in>set rs. wr_sequence r \<le> q1" "\<forall>t\<in>set (list_tables l1). within_limits t"
      using snoc.IH [OF prefix] snoc.prems(2) by simp_all
    note effect = replay_record_effect [OF last IH(1)]
    show ?case
      using effect(1-5) effect(6) [OF _ IH(6)] IH(2-5) snoc.prems(2) by (auto intro: order_trans)
  qed
  then show "memtable_list_inv l'" "list_view l' = replay_layer rs" "ml_immutables l' = []"
    "q \<le> q'" "\<forall>r\<in>set rs. wr_sequence r \<le> q'" "\<forall>t\<in>set (list_tables l'). within_limits t"
    by blast+
qed

subsection \<open>Counting the live keys\<close>

lemma try_emplace_view:
  "map_of (try_emplace k b resolved) = [k \<mapsto> b] ++ map_of resolved"
  by (auto simp: try_emplace_def map_of_ordered_put fun_eq_iff map_add_def split: option.split)

lemma try_emplace_ascending: "ascending resolved \<Longrightarrow> ascending (try_emplace k b resolved)"
  by (simp add: try_emplace_def ascending_ordered_put)

text \<open>The scan keeps what newer layers said: folding a layer in puts it beneath the result so far.\<close>

definition liveness :: "layer \<Rightarrow> (bytes \<rightharpoonup> bool)" where
  "liveness m = (\<lambda>k. map_option (\<lambda>e. me_type e = kValue) (m k))"

lemma liveness_add [simp]: "liveness (m ++ n) = liveness m ++ liveness n" "liveness Map.empty = Map.empty"
  by (auto simp: liveness_def fun_eq_iff map_add_def split: option.split)

lemma liveness_upd [simp]: "liveness (m(k \<mapsto> e)) = (liveness m)(k \<mapsto> me_type e = kValue)"
  by (auto simp: liveness_def fun_eq_iff)

lemma fold_try_emplace_view:
  "map_of (fold (\<lambda>x. try_emplace (f x) (g x)) xs resolved) =
   map_of (map (\<lambda>x. (f x, g x)) xs) ++ map_of resolved"
proof (induction xs arbitrary: resolved)
  case (Cons x xs)
  have "map_of (map (\<lambda>x. (f x, g x)) xs) ++ ([f x \<mapsto> g x] ++ map_of resolved) =
      (map_of (map (\<lambda>x. (f x, g x)) xs))(f x \<mapsto> g x) ++ map_of resolved"
    unfolding map_add_assoc by (simp only: map_add_upd map_add_empty)
  then show ?case
    by (simp only: fold_Cons o_apply list.map map_of.simps fst_conv snd_conv Cons.IH try_emplace_view)
qed simp

lemma fold_try_emplace_ascending:
  "ascending resolved \<Longrightarrow> ascending (fold (\<lambda>x. try_emplace (f x) (g x)) xs resolved)"
  by (induction xs arbitrary: resolved) (simp_all add: try_emplace_ascending)

lemma liveness_map_of: "liveness (map_of es) = map_of (map (\<lambda>(k, e). (k, me_type e = kValue)) es)"
  by (induction es) (auto simp del: fun_upd_apply simp: fun_upd_def [symmetric])

lemma liveness_entries_map: "liveness (entries_map es) = map_of (map (\<lambda>e. (se_key e, se_type e = kValue)) es)"
  by (induction es) (simp_all del: fun_upd_apply)

lemma liveness_table_layer:
  "liveness (table_layer t) = map_of (map (\<lambda>e. (se_key e, se_type e = kValue)) (concat (stt_blocks t)))"
  by (simp add: table_layer_def liveness_entries_map)

lemma record_memtable_view:
  "map_of (record_memtable t resolved) = liveness (table_view t) ++ map_of resolved"
  using fold_try_emplace_view [of fst "\<lambda>(k, e). me_type e = kValue" "mt_table t" resolved]
  by (simp add: record_memtable_def table_view_def liveness_map_of case_prod_beta')

lemma record_memtable_ascending: "ascending resolved \<Longrightarrow> ascending (record_memtable t resolved)"
  using fold_try_emplace_ascending [of resolved fst "\<lambda>(k, e). me_type e = kValue" "mt_table t"]
  by (simp add: record_memtable_def case_prod_beta')

lemma record_memtables_view:
  "map_of (fold record_memtable ts resolved) = liveness (overlay (map table_view ts)) ++ map_of resolved"
  by (induction ts arbitrary: resolved) (simp_all add: record_memtable_view)

lemma record_memtables_ascending: "ascending resolved \<Longrightarrow> ascending (fold record_memtable ts resolved)"
  by (induction ts arbitrary: resolved) (simp_all add: record_memtable_ascending)

lemma ForEachEntry_stored:
  assumes "ForEachEntry rd cache w = (s, es, rd', cache', w')"
    and "open_table dbname w rd t" and "t \<in> set G0" and "distinct (map stt_number G0)" and "cache_for G0 cache"
  shows "read_keeps (blocks_of G0) rd cache w s rd' cache' w'" and "cache_for G0 cache'"
    and "ok s \<Longrightarrow> es = concat (stt_blocks t)"
proof -
  have disk: "table_on_disk rd (SstableFileName dbname (stt_number t)) (stt_number t) (stt_blocks t) (stt_filter t) w"
    using assms(2) by (simp add: open_table_def)
  have keeps: "read_keeps T rd cache w s rd' cache' w'" if "blocks_of G0 \<subseteq>\<^sub>m T" for T
  proof -
    have "T (stt_number t) = Some (stt_blocks t)" "good_cache T cache"
      using that blocks_of_member [OF assms(4,3)] assms(5) by (auto simp: map_le_def dom_def cache_for_def)
    from ForEachEntry_table(1) [OF assms(1) disk this] show ?thesis .
  qed
  from keeps [OF map_le_refl] show "read_keeps (blocks_of G0) rd cache w s rd' cache' w'" .
  from keeps show "cache_for G0 cache'"
    by (auto simp: cache_for_def read_keeps_def)
  show "es = concat (stt_blocks t)" if "ok s"
    using ForEachEntry_table(3) [of rd cache w s es rd' cache' w', OF assms(1) disk, of "blocks_of G0"]
      blocks_of_member [OF assms(4,3)] assms(5) that
    by (simp add: cache_for_def)
qed

lemma record_tables_effect:
  assumes "record_tables rds cache w resolved = (resolved', rds', cache', w')"
    and "list_all2 (open_table dbname w) rds G" and "set G \<subseteq> set G0" and "distinct (map stt_number G0)"
    and "cache_for G0 cache"
  shows "search_keeps G0 dbname G cache w status_OK rds' cache' w' \<and>
    (ascending resolved \<longrightarrow> ascending resolved') \<and>
    (faults w = [] \<longrightarrow> map_of resolved' = liveness (overlay (map table_layer G)) ++ map_of resolved)"
  using assms
proof (induction rds arbitrary: G cache w resolved rds')
  case Nil
  then show ?case by (auto simp: search_keeps_def)
next
  case (Cons rd rds)
  obtain t ts where G: "G = t # ts" "open_table dbname w rd t" "list_all2 (open_table dbname w) rds ts"
    using Cons.prems(2) by (auto simp: list_all2_Cons1)
  then have sub: "t \<in> set G0" "set ts \<subseteq> set G0" using Cons.prems(3) by auto
  obtain s1 es rd1 c1 w1 where each: "ForEachEntry rd cache w = (s1, es, rd1, c1, w1)"
    by (rule prod_cases5)
  note effect = ForEachEntry_stored [OF each G(2) sub(1) Cons.prems(4,5)]
  obtain rds2 where rest: "record_tables rds c1 w1 (fold (\<lambda>e. try_emplace (se_key e) (se_type e = kValue)) es resolved) =
      (resolved', rds2, cache', w')" and rds': "rds' = rd1 # rds2"
    using Cons.prems(1) each by (auto split: prod.splits)
  have w1: "files w1 = files w" "c1 = None \<longleftrightarrow> cache = None" "faults w = [] \<Longrightarrow> ok s1 \<and> w1 = w"
    using effect(1) by (auto simp: read_keeps_def)
  note IH = Cons.IH [OF rest open_tables_files [OF G(3) w1(1)] sub(2) Cons.prems(4) effect(2)]
  have rd1: "open_table dbname w rd1 t"
    using open_table_keeps [OF G(2) effect(1)] open_table_frame [of w1 dbname t w rd1] w1(1) by simp
  have "search_keeps G0 dbname G cache w status_OK rds' cache' w'"
    using conjunct1 [OF IH] rd1 w1 G(1) open_tables_files [of dbname w1 rds2 ts w] by (auto simp: search_keeps_def rds')
  moreover have "ascending resolved \<longrightarrow> ascending resolved'"
    using IH fold_try_emplace_ascending [of resolved se_key "\<lambda>e. se_type e = kValue" es] by simp
  moreover have "map_of resolved' = liveness (overlay (map table_layer G)) ++ map_of resolved" if "faults w = []"
    using IH effect(3) w1(3) [OF that] that G(1)
      fold_try_emplace_view [of se_key "\<lambda>e. se_type e = kValue" es resolved]
    by (simp add: liveness_table_layer)
  ultimately show ?case by simp
qed

lemma count_live:
  assumes "ascending resolved" and "map_of resolved = liveness m"
  shows "length (filter snd resolved) = card (dom (live m))"
proof -
  have distinct: "distinct (map fst resolved)"
    by (rule ascending_distinct [OF assms(1)])
  then have "inj_on fst (set (filter snd resolved))"
    by (auto simp: distinct_map inj_on_def)
  then have "card (fst ` set (filter snd resolved)) = length (filter snd resolved)"
    using distinct distinct_card [of "filter snd resolved"] by (simp add: card_image distinct_map)
  moreover have "fst ` set (filter snd resolved) = {k. map_of resolved k = Some True}"
    using distinct by (force simp: map_of_eq_Some_iff)
  moreover have "{k. liveness m k = Some True} = dom (live m)"
  proof -
    have "e = kValue \<longleftrightarrow> e \<noteq> kTombstone" for e by (cases e) simp_all
    then show ?thesis by (auto simp: liveness_def live_def split: option.splits if_splits)
  qed
  ultimately show ?thesis by (simp add: assms(2))
qed

lemma ComputeLiveKeyCount_effect:
  assumes "ComputeLiveKeyCount db w = (n, db', w')" and "readable G db w"
  shows "same_core db db' \<and> readable G db' w' \<and> files w' = files w \<and>
    (faults w = [] \<longrightarrow> w' = w \<and> n = of_nat (card (dom (live (db_layer G db)))))"
proof -
  define resolved where "resolved = fold record_memtable (list_tables (db_memtables db)) []"
  obtain resolved' rds cache where scan: "record_tables (rev (db_tables db)) (db_block_cache db) w resolved =
      (resolved', rds, cache, w')" and n: "n = of_nat (length (filter snd resolved'))"
    and db': "db' = db\<lparr>db_tables := rev rds, db_block_cache := cache\<rparr>"
    using assms(1) by (auto simp: ComputeLiveKeyCount_def Let_def resolved_def list_tables_def split: prod.splits)
  have "list_all2 (open_table (db_dbname db) w) (rev (db_tables db)) (rev G)"
    using assms(2) by (simp add: readable_def)
  from record_tables_effect [OF scan this, of G] assms(2)
  have effect: "search_keeps G (db_dbname db) (rev G) (db_block_cache db) w status_OK rds cache w'"
    "ascending resolved \<longrightarrow> ascending resolved'"
    "faults w = [] \<longrightarrow> map_of resolved' = liveness (overlay (map table_layer (rev G))) ++ map_of resolved"
    by (simp_all add: readable_def)
  have kept: "files w' = files w" "cache_for G cache" "faults w = [] \<Longrightarrow> w' = w"
    using effect(1) by (auto simp: search_keeps_def)
  have "list_all2 (open_table (db_dbname db) w) rds (rev G)"
    using effect(1) by (simp add: search_keeps_def)
  then have "list_all2 (open_table (db_dbname db) w) (rev rds) G"
    by (simp add: list_all2_rev1)
  from open_tables_files [OF this kept(1)] have "readable G db' w'"
    using assms(2) kept(2) by (simp add: readable_def db')
  moreover have "n = of_nat (card (dom (live (db_layer G db))))" if "faults w = []"
  proof -
    have "map_of resolved = liveness (list_view (db_memtables db))"
      by (simp add: resolved_def record_memtables_view list_view_def)
    with effect(3) that have "map_of resolved' = liveness (db_layer G db)"
      by (simp add: db_layer_def tables_layer_def)
    moreover have "ascending resolved'"
      using effect(2) record_memtables_ascending [of "[]"] by (simp add: resolved_def)
    ultimately show ?thesis by (simp add: n count_live)
  qed
  ultimately show ?thesis
    using kept by (simp add: same_core_def db')
qed

subsection \<open>Recoverable directories\<close>

definition stored_file :: "string \<Rightarrow> world \<Rightarrow> stored_table \<Rightarrow> bool" where
  "stored_file dbname w t \<longleftrightarrow>
     (\<exists>c. files w (SstableFileName dbname (stt_number t)) = Some c \<and> table_file c (stt_blocks t) (stt_filter t)) \<and>
     (\<exists>bits. filter_for bits (concat (stt_blocks t)) (stt_filter t))"

text \<open>The manifest \<open>m\<close>, the tables \<open>G\<close> it names and the records \<open>rs\<close> of the log it names.\<close>

definition directory :: "string \<Rightarrow> world \<Rightarrow> manifest_data \<Rightarrow> stored_table list \<Rightarrow> wal_record list \<Rightarrow> log_grade \<Rightarrow> bool" where
  "directory dbname w m G rs g \<longleftrightarrow> manifest_holds dbname m w \<and> length (mf_tables m) \<le> unat kMaxTableCount \<and>
     map stt_number G = map tf_file_number (mf_tables m) \<and> distinct (map stt_number G) \<and>
     (\<forall>t\<in>set G. stored_file dbname w t \<and> stt_number t < mf_next_file_number m) \<and>
     mf_wal_file_number m \<noteq> 0 \<and> mf_wal_file_number m \<le> mf_next_file_number m \<and>
     (\<exists>c. files w (WalFileName dbname (mf_wal_file_number m)) = Some c \<and> length c \<le> max_file_size \<and> log_holds c rs g) \<and>
     (\<forall>n. mf_next_file_number m \<le> n \<longrightarrow> n \<noteq> mf_wal_file_number m \<longrightarrow> content w (WalFileName dbname n) = [])"

definition on_disk :: "string \<Rightarrow> world \<Rightarrow> layer \<Rightarrow> bool" where
  "on_disk dbname w L \<longleftrightarrow>
     (\<exists>m G rs. directory dbname w m G rs Torn \<and> tables_layer G ++ replay_layer rs = L)"

lemma stored_file_frame:
  "stored_file dbname w t \<Longrightarrow>
   files w' (SstableFileName dbname (stt_number t)) = files w (SstableFileName dbname (stt_number t)) \<Longrightarrow>
   stored_file dbname w' t"
  by (simp add: stored_file_def)

lemma open_table_stored_file: "open_table dbname w rd t \<Longrightarrow> stored_file dbname w t"
  by (auto simp: open_table_def stored_file_def table_on_disk_def reads_table_def table_file_def)

lemma log_holds_Torn: "log_holds c rs g \<Longrightarrow> g \<noteq> Broken \<Longrightarrow> log_holds c rs Torn"
  using clean_log_holds [of c rs Torn] by (cases g) auto

text \<open>
  A process can die at any point between two operations, and inside one at any system call: whatever
  store the failing operation left behind, its directory is recoverable with the layer the log covers.
\<close>

lemma crash_on_disk:
  assumes "stored G db w" and "logged G L g db w" and "g \<noteq> Broken"
    and "length (mf_tables (db_manifest db)) \<le> unat kMaxTableCount"
  shows "on_disk (db_dbname db) w L"
proof -
  obtain wr c rs where wal: "db_wal_writer db = Some wr"
      "fd_path (ww_file wr) = WalFileName (db_dbname db) (db_current_wal_number db)"
      "log_sink wr c w" "log_holds c rs g" "tables_layer G ++ replay_layer rs = L"
    and num: "mf_wal_file_number (db_manifest db) = db_current_wal_number db" "db_current_wal_number db \<noteq> 0"
      "db_current_wal_number db \<le> mf_next_file_number (db_manifest db)"
      "\<forall>n. mf_next_file_number (db_manifest db) \<le> n \<longrightarrow> n \<noteq> db_current_wal_number db \<longrightarrow>
        content w (WalFileName (db_dbname db) n) = []"
    using assms(2) by (auto simp: logged_def)
  have "stored_file (db_dbname db) w t" if "t \<in> set G" for t
    using assms(1) that open_table_stored_file
    by (fastforce simp: stored_def readable_def list_all2_conv_all_nth in_set_conv_nth)
  then have "directory (db_dbname db) w (db_manifest db) G rs Torn"
    using assms(1,4) wal num log_holds_Torn [OF wal(4) assms(3)]
    by (auto simp: directory_def stored_def readable_def log_sink_def)
  with wal(5) show ?thesis by (auto simp: on_disk_def)
qed

lemma open_tables_effect:
  assumes "open_tables dbname ts w = (s, rds, w')" and "map tf_file_number ts = map stt_number G"
    and "\<forall>t\<in>set G. stored_file dbname w t"
  shows "files w' = files w \<and> (ok s \<longrightarrow> list_all2 (open_table dbname w) rds G) \<and> (\<not> ok s \<longrightarrow> IsIOError s) \<and>
    (faults w = [] \<longrightarrow> ok s \<and> w' = w)"
  using assms
proof (induction ts arbitrary: G w rds)
  case Nil
  then show ?case by auto
next
  case (Cons x ts)
  obtain t G' where G: "G = t # G'" "tf_file_number x = stt_number t" "map tf_file_number ts = map stt_number G'"
    using Cons.prems(2) by (cases G) auto
  obtain s1 out w1 where op: "SstReader_Open (SstableFileName dbname (stt_number t)) (stt_number t) w = (s1, out, w1)"
    by (rule prod_cases3)
  obtain c where c: "files w (SstableFileName dbname (stt_number t)) = Some c" "table_file c (stt_blocks t) (stt_filter t)"
    and bits: "\<exists>bits. filter_for bits (concat (stt_blocks t)) (stt_filter t)"
    using Cons.prems(3) by (auto simp: stored_file_def G)
  note effect = SstReader_Open_table [OF op c]
  show ?case
  proof (cases "ok s1")
    case False
    then have "s = s1 \<and> w' = w1"
      using Cons.prems(1) op effect(3) by (simp add: G)
    with False effect show ?thesis by auto
  next
    case True
    with effect(2) obtain rd where rd: "out = Some rd"
      "reads_table rd (SstableFileName dbname (stt_number t)) (stt_number t) (stt_blocks t) (stt_filter t)"
      by blast
    obtain rds1 where rest: "open_tables dbname ts w1 = (s, rds1, w')" and rds: "rds = rd # rds1"
      using Cons.prems(1) op rd(1) by (auto simp: G split: prod.splits)
    have "open_table dbname w rd t"
      using rd(2) c bits by (auto simp: open_table_def table_on_disk_def table_file_def)
    moreover have "\<forall>t\<in>set G'. stored_file dbname w1 t"
      using Cons.prems(3) effect(1) by (auto simp: G stored_file_def)
    note IH = Cons.IH [OF rest G(3) this]
    moreover have "ok s \<longrightarrow> list_all2 (open_table dbname w) rds1 G'"
      using IH open_tables_files [of dbname w1 rds1 G' w] effect(1) by auto
    ultimately show ?thesis
      using effect True by (auto simp: G rds)
  qed
qed

subsection \<open>Recovering the log\<close>

lemma directory_log_cut:
  assumes "directory dbname w m G rs g"
    and "files w' = (files w)(WalFileName dbname (mf_wal_file_number m) \<mapsto> c)" and "clean_log c rs" and "length c \<le> max_file_size"
  shows "directory dbname w' m G rs g'"
  using assms clean_log_holds [OF assms(3), of g']
  by (auto simp: directory_def manifest_holds_def stored_file_def content_def numbered_paths [symmetric]
      simp del: numbered_paths)

lemma directory_files: "directory dbname w m G rs g \<Longrightarrow> files w' = files w \<Longrightarrow> directory dbname w' m G rs g"
  unfolding directory_def manifest_holds_def stored_file_def content_def by (erule ssubst, assumption)

definition wal_recovered :: "db \<Rightarrow> wal_record list \<Rightarrow> u64 \<Rightarrow> db \<Rightarrow> world \<Rightarrow> bool" where
  "wal_recovered db rs q db' w' \<longleftrightarrow>
     (\<exists>wr l c. db' = db\<lparr>db_memtables := l, db_wal_writer := Some wr,
          db_current_wal_number := mf_wal_file_number (db_manifest db)\<rparr> \<and>
        fd_path (ww_file wr) = WalFileName (db_dbname db) (mf_wal_file_number (db_manifest db)) \<and>
        log_sink wr c w' \<and> clean_log c rs \<and> memtable_list_inv l \<and> list_view l = replay_layer rs \<and>
        ml_immutables l = [] \<and> (\<forall>t\<in>set (list_tables l). within_limits t)) \<and>
     mf_last_sequence (db_manifest db) \<le> q \<and> (\<forall>r\<in>set rs. wr_sequence r \<le> q)"

lemma recover_wal_effect:
  assumes run: "recover_wal db w = (s, q, db', w')"
    and dir: "directory (db_dbname db) w (db_manifest db) G rs Torn"
    and fresh: "db_memtables db = new_memtable_list"
  shows "directory (db_dbname db) w' (db_manifest db) G rs Torn"
    and "\<And>p. p \<noteq> WalFileName (db_dbname db) (mf_wal_file_number (db_manifest db)) \<Longrightarrow> files w' p = files w p"
    and "ok s \<Longrightarrow> wal_recovered db rs q db' w'"
    and "faults w = [] \<Longrightarrow> op_wal_sync_policy (db_options db) = kBatched \<longrightarrow> op_wal_batch_size (db_options db) \<noteq> 0 \<Longrightarrow>
      ok s \<and> faults w' = []"
proof -
  let ?path = "WalFileName (db_dbname db) (mf_wal_file_number (db_manifest db))"
  let ?batched = "op_wal_sync_policy (db_options db) = kBatched \<longrightarrow> op_wal_batch_size (db_options db) \<noteq> 0"
  define opened where "opened = WalWriter_Open ?path (op_wal_sync_policy (db_options db)) (op_wal_batch_size (db_options db))"
  obtain c t n where c: "files w ?path = Some c" "length c \<le> max_file_size" "log_scan c = (rs, t, n)"
    and t: "t = ReadEndOfLog \<and> n = length c \<or> t = ReadTruncated" "n \<le> length c" and clean: "clean_log (take n c) rs"
    using dir by (auto simp: directory_def)
  have n: "unat (of_nat n :: u64) = n" "length (take n c) \<le> max_file_size"
    using c(2) t(2) by (simp_all add: max_file_size_64)
  obtain s1 out w1 where op: "OpenRead ?path w = (s1, out, w1)"
    by (rule prod_cases3)
  note opened_read = OpenRead_effect [OF op]
  let ?done = "directory (db_dbname db) w' (db_manifest db) G rs Torn \<and>
    (\<forall>p. p \<noteq> ?path \<longrightarrow> files w' p = files w p) \<and> (ok s \<longrightarrow> wal_recovered db rs q db' w') \<and>
    (faults w = [] \<longrightarrow> ?batched \<longrightarrow> ok s \<and> faults w' = [])"
  have ?done
  proof (cases "ok s1")
    case False
    have "faults w \<noteq> []" using False OpenRead_no_faults [OF _ c(1)] op by auto
    with False opened_read op run directory_files [OF dir, of w'] show ?thesis
      by (auto simp: recover_wal_def WalReader_Open_def)
  next
    case True
    define rd where "rd = \<lparr>wrd_file = \<lparr>fd_path = ?path, fd_append = False, fd_pos = 0\<rparr>, wrd_exhausted = False,
      wrd_terminal_result = ReadEndOfLog, wrd_bytes_consumed = 0\<rparr>"
    obtain records k terminal rd2 w2 where replay: "Replay rd w1 = (records, k, terminal, rd2, w2)"
      by (rule prod_cases5)
    obtain q2 l2 where replayed: "fold replay_record records (mf_last_sequence (db_manifest db), new_memtable_list) = (q2, l2)"
      by (cases "fold replay_record records (mf_last_sequence (db_manifest db), new_memtable_list)")
    have w1: "files w1 = files w" "faults w = [] \<longrightarrow> w1 = w"
      using opened_read(1) OpenRead_no_faults [OF _ c(1)] op by auto
    have rd: "WalReader_Open ?path w = (status_OK, Some rd, w1)"
      using op opened_read(2) [OF True] by (simp add: WalReader_Open_def rd_def)
    have "Replay rd w1 = (records, k, terminal, rd2, w2)" "\<not> wrd_exhausted rd"
      "content w1 (fd_path (wrd_file rd)) = c" "log_scan (drop (read_position rd) c) = (rs, t, n)"
      "read_position rd \<le> length c"
      using replay c w1 by (simp_all add: rd_def read_position_def)
    from Replay_refines [OF this] have w2: "files w2 = files w" "faults w = [] \<longrightarrow> faults w2 = []"
      and outcome: "records = rs \<and> terminal = t \<and> valid_prefix_length rd2 = of_nat n \<or>
        terminal = ReadCorruption \<and> faults w1 \<noteq> []"
      using w1 by (auto simp: rd_def valid_prefix_length_def)
    note run = run [unfolded recover_wal_def Let_def rd replay fresh replayed prod.case option.case, folded opened_def]
    show ?thesis
    proof (cases "terminal = ReadCorruption \<or> terminal = ReadUnsupportedVersion")
      case True
      with run have "\<not> ok s" "w' = w2"
        by (auto simp: ok_def)
      moreover have "faults w \<noteq> []"
        using outcome t(1) True w1(2) by auto
      ultimately show ?thesis
        using directory_files [OF dir w2(1)] w2(1) by simp
    next
      case False
      with outcome have all: "records = rs" "terminal = t" "valid_prefix_length rd2 = of_nat n" by auto
      note replayed = replay_effect [OF replayed [unfolded all(1)]]
      define cut where "cut = (if terminal = ReadTruncated then TruncateFile ?path (of_nat n) w2 else (status_OK, w2))"
      obtain s3 w3 where w3: "cut = (s3, w3)" by (cases cut)
      have cut_case: "terminal = ReadTruncated \<and> TruncateFile ?path (of_nat n) w2 = (s3, w3) \<or>
          n = length c \<and> s3 = status_OK \<and> w3 = w2"
        using w3 t(1) all(2) by (auto simp: cut_def split: if_splits)
      have c2: "files w2 ?path = Some c" using w2(1) c(1) by simp
      have "(files w3 = files w \<or> files w3 = (files w)(?path \<mapsto> take n c)) \<and>
          (ok s3 \<longrightarrow> files w3 = (files w)(?path \<mapsto> take n c)) \<and> (faults w = [] \<longrightarrow> ok s3 \<and> faults w3 = [])"
        using cut_case
      proof
        assume "terminal = ReadTruncated \<and> TruncateFile ?path (of_nat n) w2 = (s3, w3)"
        then have tr: "TruncateFile ?path (of_nat n) w2 = (s3, w3)" by simp
        with TruncateFile_effect [OF tr c2] TruncateFile_no_faults [OF _ c2, of "of_nat n"] n t(2) w2 show ?thesis
          by auto
      qed (use w2 c(1) in \<open>auto simp: fun_upd_idem\<close>)
      then have cut: "files w3 = files w \<or> files w3 = (files w)(?path \<mapsto> take n c)"
          "ok s3 \<longrightarrow> files w3 = (files w)(?path \<mapsto> take n c)" "faults w = [] \<longrightarrow> ok s3 \<and> faults w3 = []"
        by blast+
      have dir3: "directory (db_dbname db) w3 (db_manifest db) G rs Torn" "\<forall>p. p \<noteq> ?path \<longrightarrow> files w3 p = files w p"
        using cut(1) directory_files [OF dir] directory_log_cut [OF dir _ clean n(2)] by auto
      have run: "(if \<not> ok s3 then (s3, 0, db\<lparr>db_memtables := l2\<rparr>, w3)
          else case opened w3 of
             (ws, None, w) \<Rightarrow> (ws, 0, db\<lparr>db_memtables := l2\<rparr>, w)
           | (ws, Some writer, w) \<Rightarrow> (status_OK, q2, db\<lparr>db_memtables := l2, db_wal_writer := Some writer,
               db_current_wal_number := mf_wal_file_number (db_manifest db)\<rparr>, w)) = (s, q, db', w')"
        using run [unfolded all(3) w3 [unfolded cut_def]] False by (cases "ok s3") (simp_all add: opened_def)
      show ?thesis
      proof (cases "ok s3")
        case False
        with run dir3 cut(3) show ?thesis by auto
      next
        case True
        then have c3: "files w3 = (files w)(?path \<mapsto> take n c)" using cut(2) by simp
        obtain s4 out4 w4 where op4: "opened w3 = (s4, out4, w4)" by (rule prod_cases3)
        note effect4 = WalWriter_Open_effect [OF op4 [unfolded opened_def]]
        have w4: "files w4 = files w3" using effect4(1) c3 by auto
        have opened_ok: "faults w = [] \<longrightarrow> ?batched \<longrightarrow> ok s4 \<and> faults w4 = []"
        proof (intro impI)
          assume "faults w = []" ?batched
          with WalWriter_Open_no_faults [of w3 "op_wal_sync_policy (db_options db)" "op_wal_batch_size (db_options db)" ?path]
            cut(3) op4 show "ok s4 \<and> faults w4 = []" by (auto simp: opened_def)
        qed
        show ?thesis
        proof (cases "ok s4")
          case False
          with effect4(3) run op4 True have "s = s4" "w' = w4" by simp_all
          then show ?thesis
            using False w4 dir3 directory_files [OF dir3(1) w4] opened_ok by auto
        next
          case True
          then obtain wr where wr: "out4 = Some wr" "fd_path (ww_file wr) = ?path" "fd_append (ww_file wr)"
            using effect4(2) by blast
          have out: "s = status_OK" "q = q2" "w' = w4" "db' = db\<lparr>db_memtables := l2, db_wal_writer := Some wr,
              db_current_wal_number := mf_wal_file_number (db_manifest db)\<rparr>"
            using run \<open>ok s3\<close> op4 wr(1) by simp_all
          have "log_sink wr (take n c) w'"
            using wr n(2) c3 w4 out(3) by (simp add: log_sink_def)
          moreover have "\<forall>r\<in>set rs. recoverable r" using clean by (simp add: clean_log_def)
          ultimately have "wal_recovered db rs q db' w'"
            using replayed wr(2) clean out unfolding wal_recovered_def by blast
          then show ?thesis
            using out dir3 w4 directory_files [OF dir3(1) w4] opened_ok by auto
        qed
      qed
    qed
  qed
  then show "directory (db_dbname db) w' (db_manifest db) G rs Torn"
    "\<And>p. p \<noteq> ?path \<Longrightarrow> files w' p = files w p" "ok s \<Longrightarrow> wal_recovered db rs q db' w'"
    "faults w = [] \<Longrightarrow> ?batched \<Longrightarrow> ok s \<and> faults w' = []"
    by blast+
qed

subsection \<open>Recovering the store\<close>

lemma LoadManifest_found:
  assumes "LoadManifest dbname w = (s, out, w')" and "sys_exists (ManifestPath dbname) w = (True, w1)"
  shows "\<not> IsNotFound s"
proof -
  obtain s2 fo w2 where op: "OpenRead (ManifestPath dbname) w1 = (s2, fo, w2)"
    by (rule prod_cases3)
  note run = assms(1) [unfolded LoadManifest_def Let_def assms(2) op prod.case bool.case]
  show ?thesis
  proof (cases "ok s2")
    case False
    with run OpenRead_effect(3) [OF op] show ?thesis
      by (auto simp: IsIOError_def IsNotFound_def)
  next
    case True
    then obtain f where f: "fo = Some f" using OpenRead_effect(2) [OF op] by blast
    obtain s3 n w3 where sz: "Size f w2 = (s3, n, w3)"
      by (rule prod_cases3)
    obtain s4 bs short f4 w4 where rd: "Read f (unat n) w3 = (s4, bs, short, f4, w4)"
      by (rule prod_cases5)
    have "\<not> ok s3 \<Longrightarrow> \<not> IsNotFound s3" "\<not> ok s4 \<Longrightarrow> \<not> IsNotFound s4"
      using Size_error [OF sz] Read_content(4) [OF rd refl] by (auto simp: IsIOError_def IsNotFound_def)
    with run f sz rd show ?thesis
      by (cases "DecodeManifest bs"; cases "ok s3"; cases "ok s4") (auto simp: IsNotFound_def)
  qed
qed

definition recovered :: "string \<Rightarrow> db_options \<Rightarrow> manifest_data \<Rightarrow> stored_table list \<Rightarrow> wal_record list \<Rightarrow> db \<Rightarrow> world \<Rightarrow> bool" where
  "recovered dbname options m G rs db w \<longleftrightarrow> stored G db w \<and> logged G (tables_layer G ++ replay_layer rs) Clean db w \<and>
     db_layer G db = tables_layer G ++ replay_layer rs \<and> db_options db = options \<and> db_dbname db = dbname \<and>
     db_manifest db = m \<and> db_next_file_number db = mf_next_file_number m \<and> ml_immutables (db_memtables db) = []"

lemma recovered_intro:
  assumes "wal_recovered db0 rs q db w" and "directory (db_dbname db0) w (db_manifest db0) G rs Torn"
    and "persistent db0" and "list_all2 (open_table (db_dbname db0) w) (db_tables db0) G"
    and "cache_for G (db_block_cache db0)" and "db_next_file_number db0 = mf_next_file_number (db_manifest db0)"
  shows "recovered (db_dbname db0) (db_options db0) (db_manifest db0) G rs (db\<lparr>db_next_sequence := n\<rparr>) w"
proof -
  obtain wr l c where db: "db = db0\<lparr>db_memtables := l, db_wal_writer := Some wr,
          db_current_wal_number := mf_wal_file_number (db_manifest db0)\<rparr>"
    and wr: "fd_path (ww_file wr) = WalFileName (db_dbname db0) (mf_wal_file_number (db_manifest db0))"
      "log_sink wr c w" "clean_log c rs"
    and l: "memtable_list_inv l" "list_view l = replay_layer rs" "ml_immutables l = []"
      "\<forall>t\<in>set (list_tables l). within_limits t"
    using assms(1) by (auto simp: wal_recovered_def)
  have "stored G (db\<lparr>db_next_sequence := n\<rparr>) w"
    using assms(2-6) l by (auto simp: stored_def readable_def directory_def persistent_def db)
  moreover have "logged G (tables_layer G ++ replay_layer rs) Clean (db\<lparr>db_next_sequence := n\<rparr>) w"
    using assms(2) wr l(2) unfolding logged_def directory_def db by auto
  ultimately show ?thesis
    using l(2,3) assms(6) by (simp add: recovered_def db_layer_def db)
qed

lemma recovered_read:
  assumes "recovered dbname options m G rs db w" and "same_core db db'" and "readable G db' w'" and "files w' = files w"
  shows "recovered dbname options m G rs (db'\<lparr>db_live_key_count := n\<rparr>) w'"
proof -
  let ?db = "db'\<lparr>db_live_key_count := n\<rparr>"
  have core: "same_core db ?db" and "readable G ?db w'"
    using assms(2,3) by (simp_all add: same_core_def readable_def)
  with assms(1,4) stored_read [of G db w ?db w'] logged_read [of G _ Clean db w ?db w'] db_layer_same_core [of db ?db G]
  show ?thesis
    unfolding recovered_def same_core_def by metis
qed

lemma new_persistent_db_simps [simp]:
  "db_dbname (new_persistent_db d options) = d" "db_options (new_persistent_db d options) = options"
  "db_memtables (new_persistent_db d options) = new_memtable_list"
  "db_manifest (new_persistent_db d options) = default_manifest"
  "db_block_cache (new_persistent_db d options) = Some (new_block_cache (op_block_cache_capacity_bytes options))"
  by (simp_all add: new_persistent_db_def new_db_def)

definition usable_options :: "db_options \<Rightarrow> bool" where
  "usable_options options \<longleftrightarrow> unat (op_block_cache_capacity_bytes options) \<le> 2 ^ 63"

lemma new_cache_for:
  "usable_options options \<Longrightarrow> cache_for G (Some (new_block_cache (op_block_cache_capacity_bytes options)))"
  by (simp add: cache_for_def good_cache_def coherent_def usable_options_def) (simp add: new_block_cache_def)

abbreviation batch_allowed :: "db_options \<Rightarrow> bool" where
  "batch_allowed options \<equiv> op_wal_sync_policy options = kBatched \<longrightarrow> op_wal_batch_size options \<noteq> 0"

lemma Recover_effect:
  assumes run: "Recover (new_persistent_db d options) w = (s, db', w')" and d: "d \<noteq> []"
    and dir: "directory d w m G rs Torn" and options: "usable_options options"
    and found: "sys_exists (ManifestPath d) w = (True, w0)"
  shows "directory d w' m G rs Torn" and "ok s \<Longrightarrow> recovered d options m G rs db' w'"
    and "faults w = [] \<Longrightarrow> batch_allowed options \<Longrightarrow> ok s \<and> faults w' = [] \<and>
      db_live_key_count db' = of_nat (card (dom (live (db_layer G db'))))"
proof -
  let ?done = "directory d w' m G rs Torn \<and> (ok s \<longrightarrow> recovered d options m G rs db' w') \<and>
    (faults w = [] \<longrightarrow> batch_allowed options \<longrightarrow> ok s \<and> faults w' = [] \<and>
      db_live_key_count db' = of_nat (card (dom (live (db_layer G db')))))"
  have holds: "manifest_holds d m w" "length (mf_tables m) \<le> unat kMaxTableCount"
    and tables: "map tf_file_number (mf_tables m) = map stt_number G" "\<forall>t\<in>set G. stored_file d w t"
    using dir by (auto simp: directory_def)
  obtain s1 loaded w1 where load: "LoadManifest d w = (s1, loaded, w1)"
    by (rule prod_cases3)
  note loaded = LoadManifest_holds [OF load holds] and w1 = LoadManifest_effect(1) [OF load]
  have s1: "\<not> IsNotFound s1" by (rule LoadManifest_found [OF load found])
  have ?done
  proof (cases "ok s1")
    case False
    with run load s1 have "s = s1" "w' = w1" by (simp_all add: Recover_def)
    with False loaded(3) directory_files [OF dir w1] show ?thesis by auto
  next
    case True
    define db1 where "db1 = (new_persistent_db d options)\<lparr>db_manifest := m, db_next_file_number := mf_next_file_number m\<rparr>"
    obtain s2 rds w2 where op: "open_tables d (mf_tables m) w1 = (s2, rds, w2)"
      by (rule prod_cases3)
    have "\<forall>t\<in>set G. stored_file d w1 t" using tables(2) w1 by (simp add: stored_file_def)
    from open_tables_effect [OF op tables(1) this] w1
    have w2: "files w2 = files w" and opened: "ok s2 \<longrightarrow> list_all2 (open_table d w1) rds G"
      and nf2: "faults w1 = [] \<longrightarrow> ok s2 \<and> w2 = w1" by auto
    have size: "length (EncodeManifest m []) \<le> max_file_size"
      using holds(2) by (simp add: EncodeManifest_layout max_file_size_def kMaxTableCount_def)
    have nf1: "faults w = [] \<Longrightarrow> w1 = w"
      using LoadManifest_no_faults(2) [OF _ holds(1) [unfolded manifest_holds_def] size
          DecodeManifest_EncodeManifest [OF holds(2)]] load by simp
    define db2 where "db2 = db1\<lparr>db_tables := rds\<rparr>"
    have wal: "mf_wal_file_number m \<noteq> 0" using dir by (simp add: directory_def)
    have run: "(if \<not> ok s2 then (s2, db2, w2)
        else case recover_wal db2 w2 of (s, max_sequence_seen, db, w) \<Rightarrow>
               if \<not> ok s then (s, db, w)
               else case ComputeLiveKeyCount (db\<lparr>db_next_sequence := max_sequence_seen + 1\<rparr>) w of
                      (n, db, w) \<Rightarrow> (status_OK, db\<lparr>db_live_key_count := n\<rparr>, w)) = (s, db', w')"
      using run [unfolded Recover_def Let_def] True load loaded(1) wal op
      by (cases "ok s2") (simp_all add: db1_def db2_def)
    note dir2 = directory_files [OF dir w2]
    show ?thesis
    proof (cases "ok s2")
      case False
      with run dir2 nf1 nf2 show ?thesis by auto
    next
      case True
      obtain s3 q db3 w3 where rec: "recover_wal db2 w2 = (s3, q, db3, w3)"
        by (rule prod_cases4)
      have db2: "db_dbname db2 = d" "db_manifest db2 = m" "db_memtables db2 = new_memtable_list"
          "db_options db2 = options" "persistent db2" "db_tables db2 = rds" "db_next_file_number db2 = mf_next_file_number m"
          "db_block_cache db2 = Some (new_block_cache (op_block_cache_capacity_bytes options))"
        by (simp_all add: db2_def db1_def persistent_def d)
      note effect = recover_wal_effect [OF rec, of G rs, unfolded db2, OF dir2 refl]
      show ?thesis
      proof (cases "ok s3")
        case False
        with run True rec effect nf1 nf2 show ?thesis by auto
      next
        case ok3: True
        let ?db = "db3\<lparr>db_next_sequence := q + 1\<rparr>"
        obtain n db4 w4 where count: "ComputeLiveKeyCount ?db w3 = (n, db4, w4)"
          by (rule prod_cases3)
        have out: "s = status_OK" "db' = db4\<lparr>db_live_key_count := n\<rparr>" "w' = w4"
          using run True rec ok3 count by simp_all
        have "list_all2 (open_table d w3) rds G"
        proof (rule open_tables_frame)
          show "list_all2 (open_table d w1) rds G" using opened True by simp
          show "files w3 (SstableFileName d (stt_number t)) = files w1 (SstableFileName d (stt_number t))" for t
            using effect(2) w1 w2 by simp
        qed
        from recovered_intro [OF effect(3) [OF ok3], unfolded db2, OF effect(1) db2(5) this new_cache_for [OF options] refl]
        have r3: "recovered d options m G rs ?db w3" .
        then have "readable G ?db w3" by (simp add: recovered_def stored_def)
        note counted = ComputeLiveKeyCount_effect [OF count this]
        then have "recovered d options m G rs db' w'"
          using recovered_read [OF r3, of db4 w4 n] out by simp
        moreover have "directory d w' m G rs Torn"
          using directory_files [OF effect(1)] counted out by simp
        moreover have "faults w' = [] \<and> db_live_key_count db' = of_nat (card (dom (live (db_layer G db'))))"
          if "faults w = []" "batch_allowed options"
          using effect(4) that nf1 nf2 counted db_layer_same_core [of ?db db4 G] out(2,3) by (simp add: db_layer_def)
        ultimately show ?thesis using out(1) by auto
      qed
    qed
  qed
  then show "directory d w' m G rs Torn" "ok s \<Longrightarrow> recovered d options m G rs db' w'"
    "faults w = [] \<Longrightarrow> batch_allowed options \<Longrightarrow> ok s \<and> faults w' = [] \<and>
      db_live_key_count db' = of_nat (card (dom (live (db_layer G db'))))"
    by blast+
qed

subsection \<open>Opening\<close>

text \<open>
  \<open>LoadManifest\<close> takes a failing \<open>exists\<close> for a missing manifest (manifest.cpp:26).  What follows is
  about openings where the call does not fail: it is the second one \<open>Open\<close> makes.
\<close>

definition exists_works :: "world \<Rightarrow> bool" where
  "exists_works w \<longleftrightarrow> length (faults w) < 2 \<or> sys_error (faults w ! 1) = None"

lemma exists_works_found:
  assumes "sys_create_directories d w = (None, w1)" and "exists_works w" and "files w (ManifestPath d) \<noteq> None"
  shows "\<exists>w2. sys_exists (ManifestPath d) w1 = (True, w2)"
proof -
  have "faults w1 = tl (faults w)" "files w1 = files w"
    using assms(1) by (auto simp: sys_create_directories_def next_sys_def Let_def split: if_splits list.splits)
  with assms(2,3) show ?thesis
    by (cases "faults w" rule: remdups_adj.cases)
      (auto simp: exists_works_def sys_exists_def next_sys_def Let_def)
qed

lemma DB_Open_directory:
  assumes run: "DB_Open d options w = (s, out, w')" and dir: "directory d w m G rs Torn"
    and options: "usable_options options" and "exists_works w"
  shows "directory d w' m G rs Torn"
    and "ok s \<Longrightarrow> \<exists>db. out = Some db \<and> recovered d options m G rs db w'" and "\<not> ok s \<Longrightarrow> out = None"
    and "d \<noteq> [] \<Longrightarrow> faults w = [] \<Longrightarrow> batch_allowed options \<Longrightarrow> \<exists>db. ok s \<and> out = Some db \<and> faults w' = [] \<and>
      db_live_key_count db = of_nat (card (dom (live (db_layer G db))))"
proof -
  obtain e w1 where mk: "sys_create_directories d w = (e, w1)"
    by (cases "sys_create_directories d w")
  have w1: "files w1 = files w" using mk by (rule sys_create_directories_frame)
  note dir1 = directory_files [OF dir w1]
  let ?done = "directory d w' m G rs Torn \<and> (ok s \<longrightarrow> (\<exists>db. out = Some db \<and> recovered d options m G rs db w')) \<and>
    (\<not> ok s \<longrightarrow> out = None) \<and> (d \<noteq> [] \<longrightarrow> faults w = [] \<longrightarrow> batch_allowed options \<longrightarrow>
      (\<exists>db. ok s \<and> out = Some db \<and> faults w' = [] \<and>
        db_live_key_count db = of_nat (card (dom (live (db_layer G db))))))"
  have ?done
  proof (cases e)
    case (Some msg)
    have "d = [] \<or> faults w \<noteq> []"
      using mk Some sys_create_directories_no_faults [of w d] by auto
    with run mk Some dir1 show ?thesis by (auto simp: DB_Open_def)
  next
    case None
    have d: "d \<noteq> []" using mk None by (auto simp: sys_create_directories_def)
    have "files w (ManifestPath d) \<noteq> None" using dir by (simp add: directory_def manifest_holds_def)
    then obtain w2 where found: "sys_exists (ManifestPath d) w1 = (True, w2)"
      using exists_works_found [OF mk [unfolded None] assms(4)] by blast
    obtain s1 db w3 where rec: "Recover (new_persistent_db d options) w1 = (s1, db, w3)"
      by (rule prod_cases3)
    note effect = Recover_effect [OF rec d dir1 options found]
    have "faults w = [] \<Longrightarrow> w1 = w" using mk d sys_create_directories_no_faults [of w d] by simp
    with run mk None rec effect show ?thesis
      by (auto simp: DB_Open_def split: if_splits)
  qed
  then show "directory d w' m G rs Torn" "ok s \<Longrightarrow> \<exists>db. out = Some db \<and> recovered d options m G rs db w'"
    "\<not> ok s \<Longrightarrow> out = None"
    "d \<noteq> [] \<Longrightarrow> faults w = [] \<Longrightarrow> batch_allowed options \<Longrightarrow> \<exists>db. ok s \<and> out = Some db \<and> faults w' = [] \<and>
      db_live_key_count db = of_nat (card (dom (live (db_layer G db))))"
    by blast+
qed

text \<open>An attempt to open a recoverable directory.\<close>

lemma DB_Open_effect:
  assumes "DB_Open d options w = (s, out, w')" and "on_disk d w L"
    and "usable_options options" and "exists_works w"
  shows "on_disk d w' L"
    and "ok s \<Longrightarrow> \<exists>db G. out = Some db \<and> stored G db w' \<and> logged G L Clean db w' \<and> db_layer G db = L \<and>
      db_options db = options \<and> db_dbname db = d \<and> length (mf_tables (db_manifest db)) \<le> unat kMaxTableCount"
    and "\<not> ok s \<Longrightarrow> out = None"
    and "d \<noteq> [] \<Longrightarrow> faults w = [] \<Longrightarrow> batch_allowed options \<Longrightarrow> \<exists>db. ok s \<and> out = Some db \<and>
      db_live_key_count db = of_nat (card (dom (live L)))"
proof -
  obtain m G rs where dir: "directory d w m G rs Torn" and L: "tables_layer G ++ replay_layer rs = L"
    using assms(2) by (auto simp: on_disk_def)
  note effect = DB_Open_directory [OF assms(1) dir assms(3,4)]
  show "on_disk d w' L" using effect(1) L by (auto simp: on_disk_def)
  show "ok s \<Longrightarrow> \<exists>db G. out = Some db \<and> stored G db w' \<and> logged G L Clean db w' \<and> db_layer G db = L \<and>
      db_options db = options \<and> db_dbname db = d \<and> length (mf_tables (db_manifest db)) \<le> unat kMaxTableCount"
    using effect(2) L dir by (auto simp: recovered_def directory_def)
  show "\<not> ok s \<Longrightarrow> out = None" by (rule effect(3))
  show "d \<noteq> [] \<Longrightarrow> faults w = [] \<Longrightarrow> batch_allowed options \<Longrightarrow> \<exists>db. ok s \<and> out = Some db \<and>
      db_live_key_count db = of_nat (card (dom (live L)))"
    using effect(2,4) L by (auto simp: recovered_def)
qed

subsection \<open>Creating a store\<close>

text \<open>
  A directory without a manifest and without log records: \<open>Open\<close> creates an empty store, or leaves the
  directory empty, or with the manifest of an empty store.
\<close>

definition fresh_dir :: "string \<Rightarrow> world \<Rightarrow> bool" where
  "fresh_dir dbname w \<longleftrightarrow> files w (ManifestPath dbname) = None \<and> (\<forall>n. content w (WalFileName dbname n) = [])"

definition first_manifest :: manifest_data where
  "first_manifest = default_manifest\<lparr>mf_next_file_number := 2, mf_wal_file_number := 1\<rparr>"

lemma fresh_dir_frame:
  "fresh_dir d w \<Longrightarrow> files w' (ManifestPath d) = files w (ManifestPath d) \<Longrightarrow>
   (\<And>n. content w' (WalFileName d n) = content w (WalFileName d n)) \<Longrightarrow> fresh_dir d w'"
  by (simp add: fresh_dir_def)

lemma create_wal_effect:
  fixes d options
  defines "db \<equiv> (new_persistent_db d options)\<lparr>db_next_file_number := 1, db_tables := []\<rparr>"
  assumes run: "create_wal db w = (s, q, db', w')" and fresh: "fresh_dir d w"
  shows "fresh_dir d w' \<or> directory d w' first_manifest [] [] Torn"
    and "ok s \<Longrightarrow> \<exists>wr. db' = db\<lparr>db_current_wal_number := 1, db_next_file_number := 2, db_wal_writer := Some wr,
      db_manifest := first_manifest\<rparr> \<and> fd_path (ww_file wr) = WalFileName d 1 \<and> log_sink wr [] w' \<and>
      directory d w' first_manifest [] [] Torn"
    and "faults w = [] \<Longrightarrow> batch_allowed options \<Longrightarrow> ok s \<and> faults w' = []"
proof -
  have none: "content w (WalFileName d n) = []" for n using fresh by (simp add: fresh_dir_def)
  have db: "db_dbname db = d" "db_options db = options" "db_next_file_number db = 1" "db_manifest db = default_manifest"
    by (simp_all add: db_def)
  obtain s1 out w1 where op: "WalWriter_Open (WalFileName d 1) (op_wal_sync_policy options) (op_wal_batch_size options) w =
      (s1, out, w1)" by (rule prod_cases3)
  note opened = WalWriter_Open_frame [OF op] and effect = WalWriter_Open_effect [OF op]
  obtain s2 published w2 where save: "SaveManifest d first_manifest w1 = (s2, published, w2)"
    by (rule prod_cases3)
  note saved = SaveManifest_numbered [OF save] and outcome = SaveManifest_outcome [OF save]
  have m: "first_manifest\<lparr>mf_last_sequence := mf_last_sequence default_manifest\<rparr> = first_manifest"
    and m': "default_manifest\<lparr>mf_next_file_number := 2, mf_wal_file_number := 1\<rparr> = first_manifest"
    by (simp_all add: first_manifest_def default_manifest_def)
  have run: "(case out of None \<Rightarrow> (s1, 0, db\<lparr>db_current_wal_number := 1, db_next_file_number := 2\<rparr>, w1)
      | Some wr \<Rightarrow> (s2, mf_last_sequence default_manifest, db\<lparr>db_current_wal_number := 1, db_next_file_number := 2,
          db_wal_writer := Some wr, db_manifest := first_manifest\<rparr>, w2)) = (s, q, db', w')"
    using run [unfolded create_wal_def Let_def] op save by (cases out) (simp_all add: db m m')
  have fresh1: "fresh_dir d w1"
    by (rule fresh_dir_frame [OF fresh]) (use opened(1) [OF numbered_paths(1) [of d 1 d, symmetric]] opened(2) in simp_all)
  have no_faults1: "out \<noteq> None \<and> faults w1 = []" if "faults w = []" "batch_allowed options"
    using WalWriter_Open_no_faults [OF that(1,2), of "WalFileName d 1"] op by auto
  show "fresh_dir d w' \<or> directory d w' first_manifest [] [] Torn"
    "ok s \<Longrightarrow> \<exists>wr. db' = db\<lparr>db_current_wal_number := 1, db_next_file_number := 2, db_wal_writer := Some wr,
      db_manifest := first_manifest\<rparr> \<and> fd_path (ww_file wr) = WalFileName d 1 \<and> log_sink wr [] w' \<and>
      directory d w' first_manifest [] [] Torn"
    "faults w = [] \<Longrightarrow> batch_allowed options \<Longrightarrow> ok s \<and> faults w' = []"
  proof (atomize (full), cases out)
    case None
    then have "\<not> ok s1" using opened(3) by simp
    with None run fresh1 no_faults1
    show "(fresh_dir d w' \<or> directory d w' first_manifest [] [] Torn) \<and>
      (ok s \<longrightarrow> (\<exists>wr. db' = db\<lparr>db_current_wal_number := 1, db_next_file_number := 2, db_wal_writer := Some wr,
        db_manifest := first_manifest\<rparr> \<and> fd_path (ww_file wr) = WalFileName d 1 \<and> log_sink wr [] w' \<and>
        directory d w' first_manifest [] [] Torn)) \<and>
      (faults w = [] \<longrightarrow> batch_allowed options \<longrightarrow> ok s \<and> faults w' = [])"
      by auto
  next
    case (Some wr)
    note log = new_log [OF op [unfolded Some] none]
    from run Some have out: "s = s2" "w' = w2" "db' = db\<lparr>db_current_wal_number := 1, db_next_file_number := 2,
        db_wal_writer := Some wr, db_manifest := first_manifest\<rparr>"
      by simp_all
    have sink: "log_sink wr [] w2" using log saved(1) by (simp add: log_sink_def)
    have published: "directory d w2 first_manifest [] [] Torn" if "published"
    proof -
      have "files w2 (WalFileName d 1) = Some []" "content w2 (WalFileName d n) = []" for n
        using log saved(1) opened(2) none by (simp_all add: log_sink_def content_def)
      moreover have "log_holds [] [] Torn" by (rule clean_log_holds) simp
      ultimately show ?thesis
        using saved(4) [OF that] by (simp add: directory_def first_manifest_def default_manifest_def)
    qed
    have unpublished: "fresh_dir d w2" if "\<not> published"
      by (rule fresh_dir_frame [OF fresh1]) (use saved that in \<open>simp_all add: content_def\<close>)
    have "ok s2 \<and> faults w2 = []" if "faults w = []" "batch_allowed options"
      using SaveManifest_no_faults [of w1 first_manifest d] no_faults1 [OF that] save
      by (auto simp: first_manifest_def default_manifest_def)
    with published unpublished sink log(1) outcome(1) out
    show "(fresh_dir d w' \<or> directory d w' first_manifest [] [] Torn) \<and>
      (ok s \<longrightarrow> (\<exists>wr. db' = db\<lparr>db_current_wal_number := 1, db_next_file_number := 2, db_wal_writer := Some wr,
        db_manifest := first_manifest\<rparr> \<and> fd_path (ww_file wr) = WalFileName d 1 \<and> log_sink wr [] w' \<and>
        directory d w' first_manifest [] [] Torn)) \<and>
      (faults w = [] \<longrightarrow> batch_allowed options \<longrightarrow> ok s \<and> faults w' = [])"
      by blast
  qed
qed

lemma DB_Open_fresh:
  assumes run: "DB_Open d options w = (s, out, w')" and fresh: "fresh_dir d w" and options: "usable_options options"
  shows "fresh_dir d w' \<or> on_disk d w' Map.empty"
    and "ok s \<Longrightarrow> \<exists>db. out = Some db \<and> stored [] db w' \<and> logged [] Map.empty Clean db w' \<and> db_layer [] db = Map.empty \<and>
      db_options db = options \<and> db_dbname db = d \<and> mf_tables (db_manifest db) = [] \<and>
      db_next_file_number db = 2 \<and> ImmutableCount (db_memtables db) = 0"
    and "\<not> ok s \<Longrightarrow> out = None"
    and "d \<noteq> [] \<Longrightarrow> faults w = [] \<Longrightarrow> batch_allowed options \<Longrightarrow> ok s \<and> faults w' = [] \<and>
      (\<forall>db. out = Some db \<longrightarrow> db_live_key_count db = 0)"
proof -
  obtain e w1 where mk: "sys_create_directories d w = (e, w1)"
    by (cases "sys_create_directories d w")
  have w1: "files w1 = files w" using mk by (rule sys_create_directories_frame)
  have fresh1: "fresh_dir d w1"
    by (rule fresh_dir_frame [OF fresh]) (simp_all add: w1 content_def)
  let ?made = "\<lambda>db. stored [] db w' \<and> logged [] Map.empty Clean db w' \<and> db_layer [] db = Map.empty \<and>
      db_options db = options \<and> db_dbname db = d \<and> mf_tables (db_manifest db) = [] \<and>
      db_next_file_number db = 2 \<and> ImmutableCount (db_memtables db) = 0"
  have "(fresh_dir d w' \<or> on_disk d w' Map.empty) \<and> (ok s \<longrightarrow> (\<exists>db. out = Some db \<and> ?made db)) \<and>
    (\<not> ok s \<longrightarrow> out = None) \<and> (d \<noteq> [] \<longrightarrow> faults w = [] \<longrightarrow> batch_allowed options \<longrightarrow> ok s \<and> faults w' = [] \<and>
      (\<forall>db. out = Some db \<longrightarrow> db_live_key_count db = 0))"
  proof (cases e)
    case (Some msg)
    have "d = [] \<or> faults w \<noteq> []"
      using mk Some sys_create_directories_no_faults [of w d] by auto
    with run mk Some fresh1 show ?thesis by (auto simp: DB_Open_def)
  next
    case None
    have d: "d \<noteq> []" using mk None by (auto simp: sys_create_directories_def)
    obtain s2 loaded w2 where load: "LoadManifest d w1 = (s2, loaded, w2)"
      by (rule prod_cases3)
    have w2: "files w2 = files w1" "IsNotFound s2" "\<not> ok s2"
      using LoadManifest_effect(1,3) [OF load] fresh1 by (auto simp: fresh_dir_def IsNotFound_def ok_def)
    have fresh2: "fresh_dir d w2"
      by (rule fresh_dir_frame [OF fresh1]) (simp_all add: w2 content_def)
    have no_faults2: "faults w = [] \<Longrightarrow> w2 = w"
      using mk d sys_create_directories_no_faults [of w d] LoadManifest_no_faults(1) [of w d] load fresh
      by (auto simp: fresh_dir_def)
    let ?db = "(new_persistent_db d options)\<lparr>db_next_file_number := 1, db_tables := []\<rparr>"
    obtain s3 q db3 w3 where made: "create_wal ?db w2 = (s3, q, db3, w3)"
      by (rule prod_cases4)
    note effect = create_wal_effect [OF made fresh2]
    have run: "(if \<not> ok s3 then (s3, None, w3)
        else case ComputeLiveKeyCount (db3\<lparr>db_next_sequence := q + 1\<rparr>) w3 of
               (n, db, w) \<Rightarrow> (status_OK, Some (db\<lparr>db_live_key_count := n\<rparr>), w)) = (s, out, w')"
      using run [unfolded DB_Open_def Recover_def Let_def] mk None load w2(2,3) made
      by (simp add: default_manifest_def split: if_splits prod.splits)
    have "directory d w3 first_manifest [] [] Torn \<Longrightarrow> on_disk d w3 Map.empty"
      by (force simp: on_disk_def)
    with effect(1) have kept3: "fresh_dir d w3 \<or> on_disk d w3 Map.empty" by blast
    show ?thesis
    proof (cases "ok s3")
      case False
      with run effect(3) no_faults2 kept3 show ?thesis by auto
    next
      case True
      then obtain wr where db3: "db3 = ?db\<lparr>db_current_wal_number := 1, db_next_file_number := 2, db_wal_writer := Some wr,
          db_manifest := first_manifest\<rparr>" and wr: "fd_path (ww_file wr) = WalFileName d 1" "log_sink wr [] w3"
        and dir: "directory d w3 first_manifest [] [] Torn"
        using effect(2) by blast
      let ?db4 = "db3\<lparr>db_next_sequence := q + 1\<rparr>"
      have "stored [] ?db4 w3"
        using dir new_cache_for [OF options, of "[]"]
        by (simp add: stored_def readable_def directory_def persistent_def db3 d first_manifest_def default_manifest_def)
          (simp add: list_tables_def new_memtable_list_def new_memtable_def within_limits_def)
      moreover have "logged [] Map.empty Clean ?db4 w3"
        using dir wr by (auto simp: logged_def directory_def db3 first_manifest_def default_manifest_def
            intro!: exI [of _ "[]"])
      moreover have empty: "db_layer [] ?db4 = Map.empty" by (simp add: db_layer_def db3)
      ultimately have "recovered d options first_manifest [] [] ?db4 w3"
        by (simp add: recovered_def db3 new_memtable_list_def) (simp add: first_manifest_def)
      moreover from this have "readable [] ?db4 w3" by (simp add: recovered_def stored_def)
      obtain n db5 w5 where count: "ComputeLiveKeyCount ?db4 w3 = (n, db5, w5)"
        by (rule prod_cases3)
      note counted = ComputeLiveKeyCount_effect [OF count \<open>readable [] ?db4 w3\<close>]
      ultimately have "recovered d options first_manifest [] [] (db5\<lparr>db_live_key_count := n\<rparr>) w5"
        using recovered_read [of d options first_manifest "[]" "[]" ?db4 w3 db5 w5 n] by blast
      moreover have "on_disk d w5 Map.empty"
        using directory_files [OF dir, of w5] counted by (force simp: on_disk_def)
      moreover have "n = 0" if "faults w3 = []"
        using counted that by (simp add: empty) (simp add: live_def)
      ultimately show ?thesis
        using run True count effect(3) no_faults2 counted
        by (auto simp: recovered_def first_manifest_def default_manifest_def ImmutableCount_def)
    qed
  qed
  then show "fresh_dir d w' \<or> on_disk d w' Map.empty"
    "ok s \<Longrightarrow> \<exists>db. out = Some db \<and> ?made db" "\<not> ok s \<Longrightarrow> out = None"
    "d \<noteq> [] \<Longrightarrow> faults w = [] \<Longrightarrow> batch_allowed options \<Longrightarrow> ok s \<and> faults w' = [] \<and>
      (\<forall>db. out = Some db \<longrightarrow> db_live_key_count db = 0)"
    by blast+
qed

end
