(* ===== verification/Pebble_Db_Steps.thy ===== *)
theory Pebble_Db_Steps
  imports Pebble_Db_Recover
begin

text \<open>
  The store as a machine: its operations, each under any pattern of failing system calls, crashes at any
  point and reopenings.  The machine refines a key-value map with a recoverable copy (\<open>spec_step\<close>); what
  a history of reads and writes can show follows from that specification alone.
\<close>

subsection \<open>Runs and simulations\<close>

inductive run :: "('s \<Rightarrow> 'e \<Rightarrow> 's \<Rightarrow> bool) \<Rightarrow> 's \<Rightarrow> 'e list \<Rightarrow> 's \<Rightarrow> bool" for step where
  run_Nil: "run step c [] c"
| run_Cons: "step c e c' \<Longrightarrow> run step c' es c'' \<Longrightarrow> run step c (e # es) c''"

inductive_simps run_simps: "run step c [] c'" "run step c (e # es) c'"

lemma run_append: "run step c es c' \<Longrightarrow> run step c' fs c'' \<Longrightarrow> run step c (es @ fs) c''"
  by (induction rule: run.induct) (auto intro: run.intros)

locale forward_simulation =
  fixes cstep :: "'c \<Rightarrow> 'e \<Rightarrow> 'c \<Rightarrow> bool" and astep :: "'a \<Rightarrow> 'e \<Rightarrow> 'a \<Rightarrow> bool" and matches :: "'c \<Rightarrow> 'a \<Rightarrow> bool"
  assumes simulates: "matches c a \<Longrightarrow> cstep c e c' \<Longrightarrow> \<exists>a'. astep a e a' \<and> matches c' a'"
begin

lemma trace_inclusion:
  assumes "run cstep c es c'" and "matches c a"
  shows "\<exists>a'. run astep a es a' \<and> matches c' a'"
  using assms
proof (induction arbitrary: a rule: run.induct)
  case (run_Nil c)
  then show ?case by (blast intro: run.run_Nil)
next
  case (run_Cons c e c' es c'')
  obtain a' where "astep a e a'" "matches c' a'"
    using simulates [OF run_Cons.prems run_Cons.hyps(1)] by blast
  with run_Cons.IH show ?case by (blast intro: run.run_Cons)
qed

end

subsection \<open>The specification\<close>

text \<open>
  What a caller sees, and what happens to the process.  \<open>EvWrite k (Some v)\<close> is a \<open>Put\<close>,
  \<open>EvWrite k None\<close> a \<open>Delete\<close>; \<open>EvRead k v s v'\<close> is a \<open>Get\<close> whose result parameter held \<open>v\<close> before
  and \<open>v'\<close> after the call.
\<close>

datatype event =
    EvWrite bytes "bytes option" status
  | EvRead bytes bytes status bytes
  | EvFlush status
  | EvCrash
  | EvOpen status

type_synonym contents = "bytes \<rightharpoonup> bytes"

text \<open>
  \<open>Up V P g\<close>: open, showing \<open>V\<close>; if the process died, \<open>P\<close> would be recovered, as far as the grade \<open>g\<close>
  says.  \<open>Lost\<close>: a crash with a broken log, about which nothing is promised.
\<close>

datatype spec_state = Up contents contents log_grade | Down contents | Lost

definition answers :: "bytes option \<Rightarrow> bytes \<Rightarrow> status \<Rightarrow> bytes \<Rightarrow> bool" where
  "answers u v s v' \<longleftrightarrow>
     (case u of Some x \<Rightarrow> s = status_OK \<and> v' = x | None \<Rightarrow> IsNotFound s \<and> v' = v) \<or> IsIOError s"

inductive spec_step :: "spec_state \<Rightarrow> event \<Rightarrow> spec_state \<Rightarrow> bool" where
  write_applied: "spec_step (Up V P g) (EvWrite k u s) (Up (V(k := u)) (P(k := u)) (after_ok g))"
| write_flushed: "spec_step (Up V P g) (EvWrite k u s) (Up (V(k := u)) (V(k := u)) Clean)"
| write_refused: "\<not> ok s \<Longrightarrow> P' = P \<and> g' = g \<or> (P' = P \<or> P' = P(k := u)) \<and> g' = after_error g \<Longrightarrow>
     spec_step (Up V P g) (EvWrite k u s) (Up V P' g')"
| read: "answers (V k) v s v' \<Longrightarrow> spec_step (Up V P g) (EvRead k v s v') (Up V P g)"
| flush_kept: "spec_step (Up V P g) (EvFlush s) (Up V P g)"
| flush_done: "spec_step (Up V P g) (EvFlush s) (Up V V Clean)"
| crash: "g \<noteq> Broken \<Longrightarrow> spec_step (Up V P g) EvCrash (Down P)"
| crash_lost: "spec_step (Up V P Broken) EvCrash Lost"
| open_ok: "ok s \<Longrightarrow> spec_step (Down P) (EvOpen s) (Up P P Clean)"
| open_failed: "\<not> ok s \<Longrightarrow> spec_step (Down P) (EvOpen s) (Down P)"
| lost: "spec_step Lost e Lost"

inductive_cases spec_write: "spec_step (Up V P g) (EvWrite k u s) a"
inductive_cases spec_read: "spec_step (Up V P g) (EvRead k v s v') a"
inductive_cases spec_flush: "spec_step (Up V P g) (EvFlush s) a"
inductive_cases spec_crash: "spec_step (Up V P g) EvCrash a"
inductive_cases spec_open: "spec_step (Down P) (EvOpen s) a"
inductive_cases spec_up: "spec_step (Up V P g) e a"
inductive_cases spec_down: "spec_step (Down P) e a"

text \<open>
  A history as its caller sees it: every read answers with the last write of its key, or reports an I/O
  error; crashes and reopenings leave no trace.
\<close>

fun history :: "contents \<Rightarrow> event list \<Rightarrow> bool" where
  "history V [] \<longleftrightarrow> True"
| "history V (EvWrite k u s # es) \<longleftrightarrow> history (V(k := u)) es"
| "history V (EvRead k v s v' # es) \<longleftrightarrow> answers (V k) v s v' \<and> history V es"
| "history V (_ # es) \<longleftrightarrow> history V es"

fun after :: "contents \<Rightarrow> event list \<Rightarrow> contents" where
  "after V [] = V"
| "after V (EvWrite k u s # es) = after (V(k := u)) es"
| "after V (_ # es) = after V es"

definition acknowledged :: "event \<Rightarrow> bool" where
  "acknowledged e \<longleftrightarrow> (case e of EvWrite k u s \<Rightarrow> ok s | _ \<Rightarrow> True)"

lemma spec_acknowledged:
  assumes "run spec_step a es a'" and "a = Down V \<or> a = Up V V Clean" and "\<forall>e\<in>set es. acknowledged e"
  shows "history V es" and "a' = Down (after V es) \<or> a' = Up (after V es) (after V es) Clean"
proof -
  have "history V es \<and> (a' = Down (after V es) \<or> a' = Up (after V es) (after V es) Clean)"
    using assms
  proof (induction arbitrary: V rule: run.induct)
    case (run_Nil a)
    then show ?case by auto
  next
    case (run_Cons a e a1 es a')
    have acked: "acknowledged e" "\<forall>e\<in>set es. acknowledged e" using run_Cons.prems(2) by auto
    have "history V (e # es) \<longleftrightarrow> (case e of EvRead k v s v' \<Rightarrow> answers (V k) v s v' | _ \<Rightarrow> True) \<and> history (after V [e]) es"
      "after V (e # es) = after (after V [e]) es"
      by (cases e; simp)+
    moreover have "(a1 = Down (after V [e]) \<or> a1 = Up (after V [e]) (after V [e]) Clean) \<and>
      (case e of EvRead k v s v' \<Rightarrow> answers (V k) v s v' | _ \<Rightarrow> True)"
      using run_Cons.prems(1) run_Cons.hyps(1) acked(1)
      by (auto simp: acknowledged_def elim!: spec_up spec_down)
    ultimately show ?case
      using run_Cons.IH [of "after V [e]"] acked(2) by simp
  qed
  then show "history V es" "a' = Down (after V es) \<or> a' = Up (after V es) (after V es) Clean"
    by blast+
qed

subsection \<open>The store\<close>

text \<open>
  Any outcomes \<open>fs\<close> of the system calls may precede an operation.  The guards keep the store within its
  numbers: an operation that may flush needs file numbers left, a directory can only be reopened while
  its manifest lists at most \<open>kMaxTableCount\<close> tables, and \<open>exists\<close> must not fail when a store is opened.
\<close>

datatype store = Running db world | Stopped world

inductive store_step :: "string \<Rightarrow> db_options \<Rightarrow> store \<Rightarrow> event \<Rightarrow> store \<Rightarrow> bool" for d options where
  put: "DB_Put db k v (w\<lparr>faults := fs\<rparr>) = Some (s, db', w') \<Longrightarrow> numbers_left 2 db \<Longrightarrow>
     store_step d options (Running db w) (EvWrite k (Some v) s) (Running db' w')"
| delete: "DB_Delete db k (w\<lparr>faults := fs\<rparr>) = Some (s, db', w') \<Longrightarrow> numbers_left 2 db \<Longrightarrow>
     store_step d options (Running db w) (EvWrite k None s) (Running db' w')"
| get: "DB_Get db k v (w\<lparr>faults := fs\<rparr>) = Some (s, v', db', w') \<Longrightarrow>
     store_step d options (Running db w) (EvRead k v s v') (Running db' w')"
| flush: "DB_Flush db (w\<lparr>faults := fs\<rparr>) = Some (s, db', w') \<Longrightarrow> numbers_left 2 db \<Longrightarrow>
     store_step d options (Running db w) (EvFlush s) (Running db' w')"
| crash: "length (mf_tables (db_manifest db)) \<le> unat kMaxTableCount \<Longrightarrow>
     store_step d options (Running db w) EvCrash (Stopped w)"
| open_ok: "DB_Open d options (w\<lparr>faults := fs\<rparr>) = (s, Some db, w') \<Longrightarrow> exists_works (w\<lparr>faults := fs\<rparr>) \<Longrightarrow>
     store_step d options (Stopped w) (EvOpen s) (Running db w')"
| open_failed: "DB_Open d options (w\<lparr>faults := fs\<rparr>) = (s, None, w') \<Longrightarrow> exists_works (w\<lparr>faults := fs\<rparr>) \<Longrightarrow>
     store_step d options (Stopped w) (EvOpen s) (Stopped w')"

fun store_matches :: "string \<Rightarrow> store \<Rightarrow> spec_state \<Rightarrow> bool" where
  "store_matches d c Lost \<longleftrightarrow> True"
| "store_matches d (Running db w) (Up V P g) \<longleftrightarrow> db_dbname db = d \<and>
     (\<exists>G L. stored G db w \<and> logged G L g db w \<and> live (db_layer G db) = V \<and> live L = P)"
| "store_matches d (Stopped w) (Down P) \<longleftrightarrow> (\<exists>L. on_disk d w L \<and> live L = P) \<or> fresh_dir d w \<and> P = Map.empty"
| "store_matches d _ _ \<longleftrightarrow> False"

lemma store_matches_Running:
  "store_matches d (Running db w) a \<longleftrightarrow> a = Lost \<or> (\<exists>V P g. a = Up V P g \<and> store_matches d (Running db w) (Up V P g))"
  by (cases a) auto

lemma store_matches_Stopped:
  "store_matches d (Stopped w) a \<longleftrightarrow> a = Lost \<or> (\<exists>P. a = Down P \<and> store_matches d (Stopped w) (Down P))"
  by (cases a) auto

lemma stored_faults [simp]: "stored G db (w\<lparr>faults := fs\<rparr>) = stored G db w"
  using stored_frame [of G db w "w\<lparr>faults := fs\<rparr>"] stored_frame [of G db "w\<lparr>faults := fs\<rparr>" w] by auto

lemma logged_faults [simp]: "logged G L g db (w\<lparr>faults := fs\<rparr>) = logged G L g db w"
  using logged_frame [of G L g db w "w\<lparr>faults := fs\<rparr>"] logged_frame [of G L g db "w\<lparr>faults := fs\<rparr>" w] by auto

lemma directory_faults [simp]: "directory d (w\<lparr>faults := fs\<rparr>) m G rs g = directory d w m G rs g"
  using directory_files [of d w m G rs g "w\<lparr>faults := fs\<rparr>"] directory_files [of d "w\<lparr>faults := fs\<rparr>" m G rs g w] by auto

lemma on_disk_faults [simp]: "on_disk d (w\<lparr>faults := fs\<rparr>) L = on_disk d w L"
  by (simp add: on_disk_def)

lemma fresh_dir_faults [simp]: "fresh_dir d (w\<lparr>faults := fs\<rparr>) = fresh_dir d w"
  by (simp add: fresh_dir_def content_def)

text \<open>A write, from its outcome in terms of layers.\<close>

lemma write_matches:
  assumes "write_outcome G L g db k e s db' w'" and "db_dbname db = d"
    and u: "u = (if me_type e = kTombstone then None else Some (me_value e))"
  shows "\<exists>a. spec_step (Up (live (db_layer G db)) (live L) g) (EvWrite k u s) a \<and> store_matches d (Running db' w') a"
proof -
  have upd: "live (m(k \<mapsto> e)) = (live m)(k := u)" for m
    by (simp add: live_update u)
  obtain G' L' g' where inv: "stored G' db' w'" "logged G' L' g' db' w'" "db_dbname db' = d"
    and cases: "db_layer G' db' = (db_layer G db)(k \<mapsto> e) \<and>
           (L' = L(k \<mapsto> e) \<and> g' = after_ok g \<or> L' = db_layer G' db' \<and> g' = Clean) \<or>
         \<not> ok s \<and> db_layer G' db' = db_layer G db \<and>
           (L' = L \<and> g' = g \<or> L' = L \<and> g' = after_error g \<or> L' = L(k \<mapsto> e) \<and> g' = after_error g)"
    using assms(1,2) unfolding write_outcome_def by blast
  let ?a = "Up (live (db_layer G' db')) (live L') g'"
  have "spec_step (Up (live (db_layer G db)) (live L) g) (EvWrite k u s) ?a"
    using cases by (auto simp: upd intro: spec_step.intros)
  moreover have "store_matches d (Running db' w') ?a"
    using inv by auto
  ultimately show ?thesis by blast
qed

text \<open>The simulation, one case for each operation.\<close>

lemma store_simulates:
  assumes "store_matches d c a" and "store_step d options c e c'" and "usable_options options"
  shows "\<exists>a'. spec_step a e a' \<and> store_matches d c' a'"
proof (cases "a = Lost")
  case True
  then show ?thesis using spec_step.lost by force
next
  case False
  from assms(2) show ?thesis
  proof cases
    case (put db k v fs w s db' w')
    with assms(1) False obtain G L g where a: "a = Up (live (db_layer G db)) (live L) g" and inv:
      "stored G db (w\<lparr>faults := fs\<rparr>)" "logged G L g db (w\<lparr>faults := fs\<rparr>)" "db_dbname db = d"
      by (auto simp: store_matches_Running [of d db w])
    obtain q where "write_outcome G L g db k \<lparr>me_sequence = q, me_type = kValue, me_value = v\<rparr> s db' w'"
      using DB_Put_effect [OF put(4) inv(1,2) put(5)] by blast
    from write_matches [OF this inv(3)] show ?thesis unfolding a put by simp
  next
    case (delete db k fs w s db' w')
    with assms(1) False obtain G L g where a: "a = Up (live (db_layer G db)) (live L) g" and inv:
      "stored G db (w\<lparr>faults := fs\<rparr>)" "logged G L g db (w\<lparr>faults := fs\<rparr>)" "db_dbname db = d"
      by (auto simp: store_matches_Running [of d db w])
    obtain q where "write_outcome G L g db k \<lparr>me_sequence = q, me_type = kTombstone, me_value = []\<rparr> s db' w'"
      using DB_Delete_effect [OF delete(4) inv(1,2) delete(5)] by blast
    from write_matches [OF this inv(3)] show ?thesis unfolding a delete by simp
  next
    case (get db k v fs w s v' db' w')
    with assms(1) False obtain G L g where a: "a = Up (live (db_layer G db)) (live L) g" and inv:
      "stored G db (w\<lparr>faults := fs\<rparr>)" "logged G L g db (w\<lparr>faults := fs\<rparr>)" "db_dbname db = d"
      by (auto simp: store_matches_Running [of d db w])
    have "readable G db (w\<lparr>faults := fs\<rparr>)" using inv(1) by (simp add: stored_def)
    from DB_Get_effect [OF this, of k v] get(4)
    have read: "readable G db' w'" "files w' = files (w\<lparr>faults := fs\<rparr>)" "same_core db db'"
      and ans: "case live (db_layer G db) k of Some u \<Rightarrow> s = status_OK \<and> v' = u \<or> IsIOError s
        | None \<Rightarrow> IsNotFound s \<and> v' = v \<or> IsIOError s"
      by auto
    have "answers (live (db_layer G db) k) v s v'"
      using ans by (auto simp: answers_def split: option.splits)
    then have "spec_step a (EvRead k v s v') a"
      unfolding a by (rule spec_step.read)
    moreover have "store_matches d (Running db' w') a"
      using stored_read [OF inv(1) read(3,1,2)] logged_read [OF inv(2) read(3,2)] db_layer_same_core [OF read(3), of G]
        read(3) inv(3) unfolding a by (auto simp: same_core_def intro!: exI [of _ G] exI [of _ L])
    ultimately show ?thesis unfolding get by blast
  next
    case (flush db fs w s db' w')
    with assms(1) False obtain G L g where a: "a = Up (live (db_layer G db)) (live L) g" and inv:
      "stored G db (w\<lparr>faults := fs\<rparr>)" "logged G L g db (w\<lparr>faults := fs\<rparr>)" "db_dbname db = d"
      by (auto simp: store_matches_Running [of d db w])
    obtain rotated where "flushed G L g db db' w' rotated"
      using FlushLocked_effect [OF flush(4) [unfolded DB_Flush_def] inv(1,2) flush(5)] by blast
    then obtain G' where out: "stored G' db' w'" "db_layer G' db' = db_layer G db" "db_dbname db' = d"
      "if rotated then logged G' (db_layer G db) Clean db' w' else logged G' L g db' w'"
      using inv(3) by (auto simp: flushed_def same_setup_def)
    define a' where "a' = (if rotated then Up (live (db_layer G db)) (live (db_layer G db)) Clean else a)"
    have "spec_step a (EvFlush s) a'"
      by (auto simp: a a'_def intro: spec_step.intros)
    moreover have "store_matches d (Running db' w') a'"
      using out by (cases rotated) (auto simp: a a'_def intro!: exI [of _ G'])
    ultimately show ?thesis unfolding flush by blast
  next
    case (crash db w)
    with assms(1) False obtain G L g where a: "a = Up (live (db_layer G db)) (live L) g" and inv:
      "stored G db w" "logged G L g db w" "db_dbname db = d"
      by (auto simp: store_matches_Running [of d db w])
    show ?thesis
    proof (cases "g = Broken")
      case True
      with spec_step.crash_lost show ?thesis unfolding a crash by (metis store_matches.simps(1))
    next
      case False
      have "store_matches d (Stopped w) (Down (live L))"
        using crash_on_disk [OF inv(1,2) False crash(4)] inv(3) by auto
      with spec_step.crash [OF False] show ?thesis unfolding a crash by blast
    qed
  next
    case (open_ok fs w s db w')
    have ok: "ok s" using open_ok(4) by (auto simp: DB_Open_def split: prod.splits option.splits if_splits)
    from assms(1) False obtain P where a: "a = Down P" and P: "(\<exists>L. on_disk d w L \<and> live L = P) \<or> fresh_dir d w \<and> P = Map.empty"
      unfolding open_ok(1) store_matches_Stopped [of d w a] by auto
    from P have "store_matches d (Running db w') (Up P P Clean)"
    proof
      assume "\<exists>L. on_disk d w L \<and> live L = P"
      then obtain L where L: "on_disk d (w\<lparr>faults := fs\<rparr>) L" "live L = P" by auto
      from DB_Open_effect(2) [OF open_ok(4) L(1) assms(3) open_ok(5) ok] L(2) show ?thesis by auto
    next
      assume "fresh_dir d w \<and> P = Map.empty"
      then have "fresh_dir d (w\<lparr>faults := fs\<rparr>)" "P = Map.empty" by simp_all
      moreover from DB_Open_fresh(2) [OF open_ok(4) this(1) assms(3) ok] this(2) show ?thesis
        by (force simp: live_def)
    qed
    with spec_step.open_ok [OF ok] show ?thesis unfolding a open_ok by blast
  next
    case (open_failed fs w s w')
    have ok: "\<not> ok s" using open_failed(4) by (auto simp: DB_Open_def split: prod.splits option.splits if_splits)
    from assms(1) False obtain P where a: "a = Down P" and P: "(\<exists>L. on_disk d w L \<and> live L = P) \<or> fresh_dir d w \<and> P = Map.empty"
      unfolding open_failed(1) store_matches_Stopped [of d w a] by auto
    from P have "store_matches d (Stopped w') (Down P)"
    proof
      assume "\<exists>L. on_disk d w L \<and> live L = P"
      then obtain L where L: "on_disk d (w\<lparr>faults := fs\<rparr>) L" "live L = P" by auto
      from DB_Open_effect(1) [OF open_failed(4) L(1) assms(3) open_failed(5)] L(2) show ?thesis by auto
    next
      assume fresh: "fresh_dir d w \<and> P = Map.empty"
      then have "fresh_dir d (w\<lparr>faults := fs\<rparr>)" by simp
      from DB_Open_fresh(1) [OF open_failed(4) this assms(3)] fresh show ?thesis
        by (force simp: live_def)
    qed
    with spec_step.open_failed [OF ok] show ?thesis unfolding a open_failed by blast
  qed
qed

interpretation store: forward_simulation "store_step d options" spec_step
  "\<lambda>c a. usable_options options \<and> store_matches d c a"
  by unfold_locales (use store_simulates in blast)

end
