(* ===== verification/Pebble_Db_Live.thy ===== *)
theory Pebble_Db_Live
  imports Pebble_Db_Steps
begin

text \<open>
  The store on a system that does not fail: a write within the format's limits is acknowledged, and
  \<open>live_key_count\<close>, kept up to date one write at a time, is the number of keys a reader would find.
\<close>

lemma finite_db_layer: "finite (dom (db_layer G db))"
proof -
  have "finite (dom (overlay ms))" if "\<forall>m\<in>set ms. finite (dom m)" for ms
    using that by (induction ms) auto
  moreover have "finite (dom (table_layer t))" for t
    unfolding table_layer_def entries_map_def by (rule finite_dom_map_of)
  moreover have "finite (dom (table_view t))" for t
    unfolding table_view_def by (rule finite_dom_map_of)
  ultimately show ?thesis by (simp add: db_layer_def tables_layer_def list_view_def)
qed

lemma finite_live: "finite (dom m) \<Longrightarrow> finite (dom (live m))"
  by (rule finite_subset [of _ "dom m"]) (auto simp: live_def split: option.splits)

definition count_exact :: "stored_table list \<Rightarrow> db \<Rightarrow> bool" where
  "count_exact G db \<longleftrightarrow> db_live_key_count db = of_nat (card (dom (live (db_layer G db))))"

lemma count_step:
  assumes "finite (dom (V :: contents))"
  shows "card (dom (V(k \<mapsto> v))) = (if V k = None then card (dom V) + 1 else card (dom V))"
    and "card (dom (V(k := None))) = (if V k = None then card (dom V) else card (dom V) - 1)"
    and "V k \<noteq> None \<Longrightarrow> 0 < card (dom V)"
proof -
  show "card (dom (V(k \<mapsto> v))) = (if V k = None then card (dom V) + 1 else card (dom V))"
    using assms by (simp add: card_insert_if domIff)
  have "card (dom V - {k}) = (if k \<in> dom V then card (dom V) - 1 else card (dom V))"
    by (rule card_Diff_singleton_if)
  then show "card (dom (V(k := None))) = (if V k = None then card (dom V) else card (dom V) - 1)"
    by (simp only: dom_fun_upd domIff if_True) simp
  show "V k \<noteq> None \<Longrightarrow> 0 < card (dom V)"
    using assms by (auto simp: card_gt_0_iff)
qed

text \<open>The log has room for a record, and the batch size is one the writer accepts.\<close>

definition log_room :: "db \<Rightarrow> world \<Rightarrow> wal_record \<Rightarrow> bool" where
  "log_room db w r \<longleftrightarrow>
     length (content w (WalFileName (db_dbname db) (db_current_wal_number db))) + length (wal_enc r) \<le> max_file_size"

lemma log_write_no_faults:
  assumes "stored G db w" and "logged G L g db w" and "faults w = []" and "within_bounds r" and "log_room db w r"
  shows "\<exists>wr w'. log_write db r w = Some (status_OK, db\<lparr>db_wal_writer := Some wr\<rparr>, w') \<and> faults w' = []"
proof -
  have "persistent db" using assms(1) by (simp add: stored_def)
  obtain wr c where wr: "db_wal_writer db = Some wr" "log_sink wr c w"
      "fd_path (ww_file wr) = WalFileName (db_dbname db) (db_current_wal_number db)"
    using assms(2) by (auto simp: logged_def)
  then have "length c + length (wal_enc r) \<le> max_file_size"
    using assms(5) by (auto simp: log_room_def log_sink_def)
  from AddRecord_no_faults [OF assms(4) wr(2) assms(3) this] \<open>persistent db\<close> wr(1) show ?thesis
    by (auto simp: log_write_def)
qed

lemma maybe_flush_below:
  "\<not> ActiveShouldFlush (db_memtables db) (op_memtable_size_threshold_bytes (db_options db)) \<Longrightarrow>
   maybe_flush db w = Some (status_OK, db, w)"
  by (simp add: maybe_flush_def)

abbreviation below_threshold :: "db \<Rightarrow> memtable_list \<Rightarrow> bool" where
  "below_threshold db l \<equiv> \<not> ActiveShouldFlush l (op_memtable_size_threshold_bytes (db_options db))"

lemma live_lookup_no_faults:
  assumes "stored G db w" and "logged G L g db w" and "faults w = []" and "within_bounds r" and "log_room db w r"
  shows "\<exists>wr w' rds cache. log_write db r w = Some (status_OK, db\<lparr>db_wal_writer := Some wr\<rparr>, w') \<and> faults w' = [] \<and>
    IsKeyCurrentlyLive (db\<lparr>db_wal_writer := Some wr, db_next_sequence := n\<rparr>) (wr_key r) w' =
      Some (live (db_layer G db) (wr_key r) \<noteq> None, db\<lparr>db_wal_writer := Some wr, db_next_sequence := n,
        db_tables := rds, db_block_cache := cache\<rparr>, w')"
proof -
  obtain wr w' where log: "log_write db r w = Some (status_OK, db\<lparr>db_wal_writer := Some wr\<rparr>, w')" "faults w' = []"
    using log_write_no_faults [OF assms] by blast
  have "stored G (db\<lparr>db_wal_writer := Some wr\<rparr>) w'"
    by (rule log_write_effect(1) [OF log(1) assms(1,2)])
  then have "readable G (db\<lparr>db_wal_writer := Some wr, db_next_sequence := n\<rparr>) w'"
    by (auto simp: stored_def readable_def)
  from IsKeyCurrentlyLive_effect [OF this, of "wr_key r"] log show ?thesis
    by (simp add: db_layer_def) blast
qed

theorem DB_Put_acknowledged:
  assumes inv: "stored G db w" "logged G L g db w" and "faults w = []"
    and r: "r = \<lparr>wr_sequence = db_next_sequence db, wr_type = kPut, wr_key = k, wr_value = v\<rparr>"
    and "within_bounds r" and "log_room db w r"
    and "below_threshold db (List_Put k v (db_next_sequence db) (db_memtables db))"
  shows "\<exists>db' w'. DB_Put db k v w = Some (status_OK, db', w') \<and> faults w' = [] \<and>
    db_manifest db' = db_manifest db \<and> db_options db' = db_options db \<and>
    db_next_file_number db' = db_next_file_number db \<and>
    db_memtables db' = List_Put k v (db_next_sequence db) (db_memtables db) \<and> (count_exact G db \<longrightarrow> count_exact G db')"
proof -
  obtain wr w1 rds cache where run: "log_write db r w = Some (status_OK, db\<lparr>db_wal_writer := Some wr\<rparr>, w1)" "faults w1 = []"
    "IsKeyCurrentlyLive (db\<lparr>db_wal_writer := Some wr, db_next_sequence := db_next_sequence db + 1\<rparr>) k w1 =
      Some (live (db_layer G db) k \<noteq> None, db\<lparr>db_wal_writer := Some wr, db_next_sequence := db_next_sequence db + 1,
        db_tables := rds, db_block_cache := cache\<rparr>, w1)"
    using live_lookup_no_faults [OF inv assms(3,5,6), of "db_next_sequence db + 1"] by (auto simp: r)
  define n where "n = (if live (db_layer G db) k = None then db_live_key_count db + 1 else db_live_key_count db)"
  define db' where "db' = db\<lparr>db_wal_writer := Some wr, db_next_sequence := db_next_sequence db + 1,
    db_tables := rds, db_block_cache := cache,
    db_memtables := List_Put k v (db_next_sequence db) (db_memtables db), db_live_key_count := n,
    db_stats := (db_stats db)\<lparr>st_put_count := st_put_count (db_stats db) + 1\<rparr>\<rparr>"
  have "maybe_flush db' w1 = Some (status_OK, db', w1)"
    using assms(7) by (intro maybe_flush_below) (simp add: db'_def)
  with run have "DB_Put db k v w = Some (status_OK, db', w1)"
    by (cases "live (db_layer G db) k") (simp_all add: DB_Put_def Let_def r db'_def n_def)
  moreover have "count_exact G db'" if "count_exact G db"
  proof -
    have "memtable_list_inv (db_memtables db)" using inv(1) by (simp add: stored_def readable_def)
    then have "db_layer G db' = (db_layer G db)(k \<mapsto> \<lparr>me_sequence = db_next_sequence db, me_type = kValue, me_value = v\<rparr>)"
      by (simp add: db_layer_def db'_def List_Put_inv)
    then have "live (db_layer G db') = (live (db_layer G db))(k \<mapsto> v)"
      by (simp add: live_update)
    then show ?thesis
      using that count_step(1) [OF finite_live [OF finite_db_layer], of G db k v]
      by (simp add: count_exact_def db'_def n_def)
  qed
  moreover have "db_manifest db' = db_manifest db" "db_options db' = db_options db"
    "db_next_file_number db' = db_next_file_number db"
    "db_memtables db' = List_Put k v (db_next_sequence db) (db_memtables db)" by (simp_all add: db'_def)
  ultimately show ?thesis using run(2) by blast
qed

theorem DB_Delete_acknowledged:
  assumes inv: "stored G db w" "logged G L g db w" and "faults w = []"
    and r: "r = \<lparr>wr_sequence = db_next_sequence db, wr_type = kDelete, wr_key = k, wr_value = []\<rparr>"
    and "within_bounds r" and "log_room db w r"
    and "below_threshold db (List_Delete k (db_next_sequence db) (db_memtables db))"
  shows "\<exists>db' w'. DB_Delete db k w = Some (status_OK, db', w') \<and> faults w' = [] \<and>
    db_manifest db' = db_manifest db \<and> (count_exact G db \<longrightarrow> count_exact G db')"
proof -
  obtain wr w1 rds cache where run: "log_write db r w = Some (status_OK, db\<lparr>db_wal_writer := Some wr\<rparr>, w1)" "faults w1 = []"
    "IsKeyCurrentlyLive (db\<lparr>db_wal_writer := Some wr, db_next_sequence := db_next_sequence db + 1\<rparr>) k w1 =
      Some (live (db_layer G db) k \<noteq> None, db\<lparr>db_wal_writer := Some wr, db_next_sequence := db_next_sequence db + 1,
        db_tables := rds, db_block_cache := cache\<rparr>, w1)"
    using live_lookup_no_faults [OF inv assms(3,5,6), of "db_next_sequence db + 1"] by (auto simp: r)
  define n where "n = (if live (db_layer G db) k = None then db_live_key_count db else db_live_key_count db - 1)"
  define db' where "db' = db\<lparr>db_wal_writer := Some wr, db_next_sequence := db_next_sequence db + 1,
    db_tables := rds, db_block_cache := cache,
    db_memtables := List_Delete k (db_next_sequence db) (db_memtables db), db_live_key_count := n,
    db_stats := (db_stats db)\<lparr>st_delete_count := st_delete_count (db_stats db) + 1\<rparr>\<rparr>"
  have "maybe_flush db' w1 = Some (status_OK, db', w1)"
    using assms(7) by (intro maybe_flush_below) (simp add: db'_def)
  with run have "DB_Delete db k w = Some (status_OK, db', w1)"
    by (cases "live (db_layer G db) k") (simp_all add: DB_Delete_def Let_def r db'_def n_def)
  moreover have "count_exact G db'" if "count_exact G db"
  proof -
    have "memtable_list_inv (db_memtables db)" using inv(1) by (simp add: stored_def readable_def)
    then have "db_layer G db' = (db_layer G db)(k \<mapsto> \<lparr>me_sequence = db_next_sequence db, me_type = kTombstone, me_value = []\<rparr>)"
      by (simp add: db_layer_def db'_def List_Delete_inv)
    then have live': "live (db_layer G db') = (live (db_layer G db))(k := None)"
      by (simp add: live_update)
    have "db_live_key_count db' = n" by (simp add: db'_def)
    then show ?thesis
      using that count_step(2,3) [OF finite_live [OF finite_db_layer], of G db k] of_nat_diff [of 1]
      unfolding count_exact_def live' n_def by (cases "live (db_layer G db) k") simp_all
  qed
  moreover have "db_manifest db' = db_manifest db" by (simp add: db'_def)
  ultimately show ?thesis using run(2) by blast
qed

end
