(* ===== verification/Pebble_Demo.thy ===== *)
theory Pebble_Demo
  imports Pebble_Db_Live
begin

text \<open>
  A concrete history on an empty file system that does not fail: open, \<open>Put\<close>, crash, reopen, \<open>Get\<close>.
  It shows that the hypotheses of the properties of the store can hold together.
\<close>

definition empty_world :: world where
  "empty_world = \<lparr>files = Map.empty, faults = []\<rparr>"

definition demo_history :: "event list" where
  "demo_history = [EvOpen status_OK, EvWrite [1] (Some [2]) status_OK, EvCrash, EvOpen status_OK,
     EvRead [1] [] status_OK [2]]"

lemma empty_world_fresh [simp]: "fresh_dir d empty_world" "faults empty_world = []"
  "empty_world\<lparr>faults := []\<rparr> = empty_world"
  by (simp_all add: empty_world_def fresh_dir_def content_def)

lemma exists_works_no_faults [simp]: "faults w = [] \<Longrightarrow> exists_works w"
  by (simp add: exists_works_def)

lemma default_options_usable [simp]: "usable_options default_options" "batch_allowed default_options"
  by (simp_all add: default_options_def usable_options_def)

lemma DB_Open_ok_status: "DB_Open d options w = (s, out, w') \<Longrightarrow> ok s \<Longrightarrow> s = status_OK"
  by (auto simp: DB_Open_def split: prod.splits option.splits if_splits)

text \<open>A store without contents, as \<open>Open\<close> creates it: its active memtable and its log are empty.\<close>

definition empty_store :: "db \<Rightarrow> world \<Rightarrow> bool" where
  "empty_store db w \<longleftrightarrow> faults w = [] \<and> stored [] db w \<and> logged [] Map.empty Clean db w \<and>
     db_layer [] db = Map.empty \<and> db_options db = default_options \<and> db_dbname db = ''db'' \<and>
     mf_tables (db_manifest db) = [] \<and> db_next_file_number db = 2 \<and> ImmutableCount (db_memtables db) = 0 \<and>
     db_live_key_count db = 0"

lemma demo_open:
  obtains db w where "DB_Open ''db'' default_options empty_world = (status_OK, Some db, w)" "empty_store db w"
proof -
  obtain s out w where op: "DB_Open ''db'' default_options empty_world = (s, out, w)"
    by (rule prod_cases3)
  note effect = DB_Open_fresh [OF op empty_world_fresh(1) default_options_usable(1)]
  have ok: "ok s" "faults w = []" "\<forall>db. out = Some db \<longrightarrow> db_live_key_count db = 0" using effect(4) by simp_all
  show thesis
    using that effect(2) [OF ok(1)] op DB_Open_ok_status [OF op ok(1)] ok(2,3) unfolding empty_store_def by blast
qed

lemma empty_store_simps:
  assumes "empty_store db w"
  shows "mt_table (ml_active (db_memtables db)) = []" "memtable_list_inv (db_memtables db)"
    and "content w (WalFileName (db_dbname db) (db_current_wal_number db)) = []"
    and "numbers_left 2 db" "readable [] db w" "stored [] db w" "logged [] Map.empty Clean db w" "faults w = []"
    and "db_layer [] db = Map.empty" "db_live_key_count db = of_nat (card (dom (live (db_layer [] db))))"
proof -
  have st: "faults w = []" "stored [] db w" "logged [] Map.empty Clean db w" "db_layer [] db = Map.empty"
    "db_next_file_number db = 2" "ImmutableCount (db_memtables db) = 0" "db_live_key_count db = 0"
    using assms by (simp_all add: empty_store_def)
  have "table_view (ml_active (db_memtables db)) = Map.empty"
    using st(4,6) by (simp add: db_layer_def list_view_def list_tables_def ImmutableCount_def)
  then show "mt_table (ml_active (db_memtables db)) = []"
    by (simp add: table_view_def)
  obtain wr c rs where wr: "fd_path (ww_file wr) = WalFileName (db_dbname db) (db_current_wal_number db)"
    "log_sink wr c w" "clean_log c rs" "replay_layer rs = Map.empty"
    using st(3) by (auto simp: logged_def)
  have "rs = []"
    using wr(4) by (cases rs rule: rev_cases) auto
  with wr show "content w (WalFileName (db_dbname db) (db_current_wal_number db)) = []"
    by (auto simp: log_sink_def clean_log_def)
  show "memtable_list_inv (db_memtables db)" "readable [] db w"
    using st(2) by (simp_all add: stored_def readable_def)
  show "numbers_left 2 db" using st(5,6) by (simp add: numbers_left_def)
  show "db_live_key_count db = of_nat (card (dom (live (db_layer [] db))))"
    using st(4,7) by (simp add: live_def)
qed (use assms in \<open>simp_all add: empty_store_def\<close>)

definition demo_record :: "db \<Rightarrow> record_type \<Rightarrow> bytes \<Rightarrow> wal_record" where
  "demo_record db t v = \<lparr>wr_sequence = db_next_sequence db, wr_type = t, wr_key = [1], wr_value = v\<rparr>"

lemma demo_bounds: "length v \<le> 1 \<Longrightarrow> within_bounds (demo_record db t v)"
  by (simp add: within_bounds_def demo_record_def kMaxKeyLength_def kMaxValueLength_def)

lemma demo_room: "empty_store db w \<Longrightarrow> length v \<le> 1 \<Longrightarrow> t = kDelete \<longrightarrow> v = [] \<Longrightarrow> log_room db w (demo_record db t v)"
  using empty_store_simps(3) [of db w]
  by (simp add: log_room_def demo_record_def length_wal_enc recoverable_def kMaxKeyLength_def kMaxValueLength_def max_file_size_def)

lemma demo_below:
  assumes "empty_store db w"
  shows "below_threshold db (List_Put [1] [2] q (db_memtables db))" "below_threshold db (List_Delete [1] q (db_memtables db))"
proof -
  let ?t = "ml_active (db_memtables db)"
  let ?p = "MemTable_Put [1] [2] q ?t" and ?d = "MemTable_Delete [1] q ?t"
  have "memtable_inv ?t" and table: "mt_table ?t = []"
    using empty_store_simps(1,2) [OF assms] by (simp_all add: memtable_list_inv_def list_tables_def)
  then have "memtable_inv ?p" "memtable_inv ?d"
    using MemTable_Put_inv(1) MemTable_Delete_inv(1) by blast+
  then have usage: "mt_approximate_memory_usage ?p = entries_cost (mt_table ?p)"
      "mt_approximate_memory_usage ?d = entries_cost (mt_table ?d)"
    by (simp_all add: memtable_inv_def)
  have "entries_cost (mt_table ?p) = 34" "entries_cost (mt_table ?d) = 33"
    by (simp_all add: MemTable_Put_eq MemTable_Delete_eq entries_cost_def Let_def EntryCost_def kPerEntryOverheadBytes_def table)
  moreover have "op_memtable_size_threshold_bytes (db_options db) = 4194304"
    using assms by (simp add: empty_store_def default_options_def kDefaultSizeThresholdBytes_def)
  ultimately show "below_threshold db (List_Put [1] [2] q (db_memtables db))"
    "below_threshold db (List_Delete [1] q (db_memtables db))"
    using usage by (simp_all add: ActiveShouldFlush_def List_Put_def List_Delete_def)
qed

lemma demo_put:
  assumes "empty_store db w"
  obtains db' w' where "DB_Put db [1] [2] w = Some (status_OK, db', w')" "faults w' = []" "mf_tables (db_manifest db') = []"
    "db_options db' = default_options" "db_next_file_number db' = 2"
    "db_memtables db' = List_Put [1] [2] (db_next_sequence db) (db_memtables db)"
  using that DB_Put_acknowledged [OF empty_store_simps(6-8) [OF assms] demo_record_def demo_bounds demo_room [OF assms] demo_below(1) [OF assms]]
    assms by (auto simp: empty_store_def)

lemma demo_delete:
  assumes "empty_store db w"
  obtains db' w' where "DB_Delete db [1] w = Some (status_OK, db', w')" "faults w' = []"
  using that DB_Delete_acknowledged [OF empty_store_simps(6-8) [OF assms] demo_record_def demo_bounds demo_room [OF assms] demo_below(2) [OF assms]]
  by auto

lemma demo_run: "\<exists>c. run (store_step ''db'' default_options) (Stopped empty_world) demo_history c"
proof -
  let ?step = "store_step ''db'' default_options"
  obtain db1 w1 where 1: "DB_Open ''db'' default_options empty_world = (status_OK, Some db1, w1)" "empty_store db1 w1"
    by (rule demo_open)
  obtain db2 w2 where 2: "DB_Put db1 [1] [2] w1 = Some (status_OK, db2, w2)" "faults w2 = []"
    "mf_tables (db_manifest db2) = []"
    by (rule demo_put [OF 1(2)])
  note start = empty_store_simps [OF 1(2)]
  have same: "w1\<lparr>faults := []\<rparr> = w1" "w2\<lparr>faults := []\<rparr> = w2"
    using start(8) 2(2) by (simp_all add: faults_Nil_eq)
  have step1: "?step (Stopped empty_world) (EvOpen status_OK) (Running db1 w1)"
    using store_step.open_ok [of "''db''" default_options "[]" empty_world] 1(1) by simp
  have step2: "?step (Running db1 w1) (EvWrite [1] (Some [2]) status_OK) (Running db2 w2)"
    using store_step.put [of db1 "[1]" "[2]" "[]" w1] 2(1) start(4) same by simp
  have step3: "?step (Running db2 w2) EvCrash (Stopped w2)"
    by (rule store_step.crash) (simp add: 2(3))
  have m1: "store_matches ''db'' (Stopped empty_world) (Down Map.empty)"
    by simp
  have "run ?step (Stopped empty_world) [EvOpen status_OK, EvWrite [1] (Some [2]) status_OK, EvCrash] (Stopped w2)"
    by (blast intro: run.intros step1 step2 step3)
  from store.trace_inclusion [OF this, of "Down Map.empty"]
  obtain a where a: "run spec_step (Down Map.empty) [EvOpen status_OK, EvWrite [1] (Some [2]) status_OK, EvCrash] a"
    "store_matches ''db'' (Stopped w2) a"
    using m1 default_options_usable(1) by blast
  have "a = Down [[1] \<mapsto> [2]]"
    using spec_acknowledged(2) [OF a(1), of Map.empty] a(2) by (auto simp: acknowledged_def)
  with a(2) obtain L where L: "on_disk ''db'' w2 L" "live L = [[1] \<mapsto> [2]]"
    by (auto dest: fun_cong)
  obtain s3 out3 w3 where op3: "DB_Open ''db'' default_options w2 = (s3, out3, w3)"
    by (rule prod_cases3)
  note effect3 = DB_Open_effect [OF op3 L(1) default_options_usable(1) exists_works_no_faults [OF 2(2)]]
  obtain db3 where "ok s3" "out3 = Some db3"
    using effect3(4) 2(2) by auto
  then have 3: "DB_Open ''db'' default_options w2 = (status_OK, Some db3, w3)"
    using op3 DB_Open_ok_status [OF op3] by simp
  obtain G where G: "stored G db3 w3" "db_layer G db3 = L"
    using effect3(2) \<open>ok s3\<close> \<open>out3 = Some db3\<close> by auto
  have step4: "?step (Stopped w2) (EvOpen status_OK) (Running db3 w3)"
    using store_step.open_ok [of "''db''" default_options "[]" w2] 3 2(2) same by simp
  have "readable G db3 (w3\<lparr>faults := []\<rparr>)"
    using G(1) stored_faults [of G db3 "[]" w3] by (simp add: stored_def)
  from DB_Get_effect [OF this, of "[1]" "[]"] G(2) L(2)
  obtain db4 w4 where get: "DB_Get db3 [1] [] (w3\<lparr>faults := []\<rparr>) = Some (status_OK, [2], db4, w4)"
    by auto
  have step5: "?step (Running db3 w3) (EvRead [1] [] status_OK [2]) (Running db4 w4)"
    by (rule store_step.get [OF get])
  show ?thesis
    unfolding demo_history_def by (blast intro: run.intros step1 step2 step3 step4 step5)
qed

end
