(* ===== verification/Pebble_Divergences.thy ===== *)
theory Pebble_Divergences
  imports Pebble_Demo
begin

text \<open>
  Where the store does not do what its comments say, or what its callers would expect: each lemma is a
  run of the code as it is.
\<close>

subsection \<open>The write-ahead log\<close>

text \<open>
  An append that fails after its first byte leaves that byte in the file.  The writer stays usable, so the
  next record, appended whole and acknowledged, stands behind the stray byte: a replay stops there with
  \<open>kCorruption\<close>, because the magic number it finds is shifted by one byte.
\<close>

lemma shifted_magic:
  assumes "recoverable r"
  shows "DecodeFixed32 (drop 4 (b # wal_enc r)) \<noteq> wal_kMagic"
proof -
  let ?bs = "drop 4 (b # wal_enc r)"
  have magic: "fixed32 wal_kMagic = [0x31, 0x4B, 0x42, 0x50]"
    by code_simp
  define sum where "sum = fixed32 (Crc32c (wal_header r @ wr_key r @ wr_value r))"
  have "length sum = 4" by (simp add: sum_def)
  then obtain c0 c1 c2 c3 where crc: "sum = [c0, c1, c2, c3]"
    by (auto simp: length_Suc_conv numeral_eq_Suc)
  have enc: "wal_enc r = sum @ wal_header r @ wr_key r @ wr_value r"
    by (simp add: sum_def wal_enc_layout [OF assms])
  have bs: "?bs = c3 # 0x31 # 0x4B # 0x42 # drop 7 (wal_enc r)"
    by (simp add: enc crc wal_header_def magic)
  then have "fixed32 (DecodeFixed32 ?bs) = [c3, 0x31, 0x4B, 0x42]"
    using fixed32_DecodeFixed32 [of ?bs] by simp
  with magic show ?thesis by auto
qed

lemma stray_byte_corrupts:
  assumes "clean_log c rs" and "recoverable r"
  shows "log_scan (c @ b # wal_enc r) = (rs, ReadCorruption, length c)"
proof -
  let ?tail = "b # wal_enc r"
  have "take wal_kHeaderSize ?tail \<noteq> []" and len: "wal_kHeaderSize \<le> length ?tail"
    using length_wal_enc [OF assms(2)] by (simp_all add: wal_kHeaderSize_def)
  have "DecodeFixed32 (drop 4 (take wal_kHeaderSize ?tail)) = DecodeFixed32 (drop 4 ?tail)"
    by (simp add: wal_kHeaderSize_def drop_take DecodeFixed32_take del: drop_Suc_Cons take_Suc_Cons)
  with shifted_magic [OF assms(2), of b] len have "DecodeHeader (take wal_kHeaderSize ?tail) = Inl WalBadMagic"
    by (simp add: DecodeHeader_def Let_def)
  with len have stop: "log_dec ?tail = Inl ReadCorruption"
    by (simp add: log_dec_def)
  have "decode_loop log_dec (concat (map wal_enc rs) @ ?tail) = (rs, Some ReadCorruption, ?tail)"
    using wal.decode_encs [of rs ?tail] decode_loop_stop [of ?tail log_dec, OF _ stop] assms(1)
    by (simp add: clean_log_def)
  with assms(1) show ?thesis by (simp add: log_scan_def clean_log_def)
qed

subsection \<open>File numbers\<close>

text \<open>
  The manifest that a rotation publishes keeps the \<open>next_file_number\<close> of the last table: it is the
  number of the new log itself, so the store that is opened next hands that number out again.
\<close>

lemma rotation_keeps_next_number:
  assumes "rotate_wal db w = (s, db', w')" and "mf_next_file_number (db_manifest db) = db_next_file_number db"
    and "ok s"
  shows "mf_wal_file_number (db_manifest db') = mf_next_file_number (db_manifest db') \<and>
    manifest_holds (db_dbname db) (db_manifest db') w'"
  using assms(1)
proof (cases rule: rotate_wal_cases)
  case (not_opened)
  then have "\<not> ok s" using WalWriter_Open_frame(3) [OF not_opened(1)] by simp
  with assms(3) show ?thesis by simp
next
  case (not_published wr s1 w1)
  then have "\<not> ok s" using SaveManifest_outcome(1) [OF not_published(2)] by blast
  with assms(3) show ?thesis by simp
next
  case (rotated wr s1 w1 w2)
  have "db_manifest db' = (db_manifest db)\<lparr>mf_wal_file_number := db_next_file_number db\<rparr>"
    by (simp add: rotated(4))
  moreover have "manifest_holds (db_dbname db) ((db_manifest db)\<lparr>mf_wal_file_number := db_next_file_number db\<rparr>) w'"
    using SaveManifest_numbered(4) [OF rotated(2) TrueI] unfolding rotated(3) manifest_holds_def
    by (subst sys_remove_other) (simp_all add: numbered_paths(1) [symmetric] del: numbered_paths)
  ultimately show ?thesis using assms(2) by simp
qed

text \<open>
  A table file left behind by a crash before its manifest was published: the first flush after the store
  is reopened hands out its number again, and fails.
\<close>

lemma orphan_fails_flush:
  assumes "faults w = []" and "files w (SstableFileName (db_dbname db) (db_next_file_number db)) = Some c" and "c \<noteq> []"
  shows "\<exists>s. flush_one db w = Some (s, db\<lparr>db_next_file_number := db_next_file_number db + 1\<rparr>, w) \<and> IsIOError s"
proof -
  let ?p = "SstableFileName (db_dbname db) (db_next_file_number db)"
  obtain s where "OpenNew ?p w = (s, None, w)" "IsIOError s"
    using OpenNew_refuses [OF assms] by blast
  then show ?thesis
    by (simp add: flush_one_def write_table_def SstWriter_Open_def Let_def)
qed

text \<open>
  After a rotation has failed there is nothing left to flush, so a retry returns at once: the rotation is
  not retried.
\<close>

lemma nothing_pending_returns:
  "MemTable_empty (ml_active (db_memtables db)) \<Longrightarrow> ImmutableCount (db_memtables db) = 0 \<Longrightarrow>
   FlushLocked db w = Some (status_OK, db, w)"
  by (simp add: FlushLocked_def)

subsection \<open>Errors taken for absence\<close>

text \<open>
  A failing \<open>exists\<close> makes \<open>Open\<close> create a new store over the manifest of an existing one.
\<close>

lemma exists_error_forgets:
  assumes "faults w = [SysOk, SysErr msg]" and "d \<noteq> []" and "batch_allowed options"
  shows "\<exists>db w'. DB_Open d options w = (status_OK, Some db, w') \<and> mf_tables (db_manifest db) = [] \<and>
    list_view (db_memtables db) = Map.empty \<and> manifest_holds d first_manifest w'"
proof -
  define w2 where "w2 = w\<lparr>faults := []\<rparr>"
  have mk: "sys_create_directories d w = (None, w\<lparr>faults := [SysErr msg]\<rparr>)"
    using assms(1,2) by (simp add: sys_create_directories_def next_sys_def)
  obtain m where load: "LoadManifest d (w\<lparr>faults := [SysErr msg]\<rparr>) = (NotFound m, None, w2)"
    by (simp add: LoadManifest_def sys_exists_def next_sys_def w2_def)
  have "faults w2 = []" by (simp add: w2_def)
  obtain wr w3 where op: "WalWriter_Open (WalFileName d 1) (op_wal_sync_policy options) (op_wal_batch_size options) w2 =
      (status_OK, Some wr, w3)" "faults w3 = []"
    using WalWriter_Open_no_faults [OF \<open>faults w2 = []\<close> assms(3)] by blast
  have m: "(default_manifest\<lparr>mf_next_file_number := 2, mf_wal_file_number := 1,
      mf_last_sequence := mf_last_sequence default_manifest\<rparr>) = first_manifest"
    by (simp add: first_manifest_def default_manifest_def)
  obtain w4 where save: "SaveManifest d first_manifest w3 = (status_OK, True, w4)"
    using SaveManifest_no_faults [OF op(2), of first_manifest d] by (auto simp: first_manifest_def default_manifest_def)
  have holds: "manifest_holds d first_manifest w4"
    using SaveManifest_numbered(4) [OF save] by simp
  have "default_manifest\<lparr>mf_next_file_number := 2, mf_wal_file_number := 1, mf_last_sequence := 0\<rparr> = first_manifest"
    "mf_next_file_number default_manifest = 1" "mf_wal_file_number default_manifest = 0" "mf_tables default_manifest = []"
    "mf_last_sequence default_manifest = 0" "mf_tables first_manifest = []"
    by (simp_all add: first_manifest_def default_manifest_def)
  then show ?thesis
    using mk load op(1) save holds
    by (simp add: DB_Open_def Recover_def create_wal_def ComputeLiveKeyCount_def Let_def IsNotFound_def)
qed

text \<open>A failing \<open>stat\<close> lets \<open>OpenNew\<close> truncate a file that has content.\<close>

lemma stat_error_truncates:
  assumes "faults w = [SysErr msg]" and "files w p = Some c"
  shows "\<exists>f w'. OpenNew p w = (status_OK, Some f, w') \<and> files w' p = Some []"
  using assms by (simp add: OpenNew_def sys_stat_def sys_open_def next_sys_def)

subsection \<open>Limits\<close>

text \<open>A manifest with too many tables is written, and cannot be read back.\<close>

lemma too_many_tables_refused:
  assumes "unat kMaxTableCount < length (mf_tables m)" and "length (mf_tables m) < 2 ^ 32"
  shows "DecodeManifest (EncodeManifest m []) = Inl MfBadTableCount"
proof -
  define h where "h = EncodeManifest m []"
  have h: "h = (fixed32 (Crc32c (manifest_body m)) @ fixed32 mf_kMagic @ [mf_kFormatVersion] @
      fixed64 (mf_next_file_number m) @ fixed64 (mf_wal_file_number m) @ fixed64 (mf_last_sequence m) @
      fixed32 (of_nat (length (mf_tables m)))) @ concat (map table_enc (mf_tables m))"
    by (simp add: h_def EncodeManifest_layout manifest_body_layout)
  have count: "unat (of_nat (length (mf_tables m)) :: u32) = length (mf_tables m)"
    using assms(2) by (simp add: unat_of_nat take_bit_nat_eq_self_iff)
  have fields: "DecodeFixed32 (drop 4 h) = mf_kMagic" "h ! 8 = mf_kFormatVersion"
    "DecodeFixed32 (drop 33 h) = of_nat (length (mf_tables m))" "length h = 37 + 12 * length (mf_tables m)"
    by (simp_all add: h nth_append)
  have "kMaxTableCount < of_nat (length (mf_tables m))"
    using assms(1) count by (simp add: word_less_nat_alt)
  then show ?thesis
    unfolding h_def [symmetric] DecodeManifest_def fields Let_def
    by (simp add: mf_kHeaderSize_def mf_kFormatVersion_def)
qed

lemma filter_size_trap: "BuildFilter [[]] 4294967296 = None"
  by (simp add: BuildFilter_def filter_num_bytes_def Let_def)

end
