(* ===== verification/Pebble_Wal_Cut.thy ===== *)
theory Pebble_Wal_Cut
  imports Pebble_Divergences
begin

text \<open>
  Logs that were cut, or torn by a failed append, as the code reads them: \<open>WalReader_Open\<close> and \<open>Replay\<close>
  (wal/reader.cpp) on the file, after what \<open>AddRecord\<close> (wal/writer.cpp) or a crash left in it.
\<close>

subsection \<open>Opening and replaying a file\<close>

lemma WalReader_Open_no_faults:
  assumes "faults w = []" and "files w p = Some c"
  shows "WalReader_Open p w = (status_OK, Some \<lparr>wrd_file = \<lparr>fd_path = p, fd_append = False, fd_pos = 0\<rparr>,
    wrd_exhausted = False, wrd_terminal_result = ReadEndOfLog, wrd_bytes_consumed = 0\<rparr>, w)"
  using OpenRead_no_faults [OF assms] by (simp add: WalReader_Open_def)

lemma WalReader_Open_reader:
  assumes "WalReader_Open p w = (s, Some rd, w')"
  shows "files w' = files w" and "fd_path (wrd_file rd) = p" and "read_position rd = 0" and "\<not> wrd_exhausted rd"
    and "valid_prefix_length rd = 0"
proof -
  obtain s1 fo w1 where op: "OpenRead p w = (s1, fo, w1)" by (rule prod_cases3)
  note effect = OpenRead_effect [OF op]
  have "ok s1" using assms effect(3) by (cases "ok s1") (auto simp: WalReader_Open_def op)
  with effect(1,2) assms show "files w' = files w" "fd_path (wrd_file rd) = p" "read_position rd = 0"
    "\<not> wrd_exhausted rd" "valid_prefix_length rd = 0"
    by (auto simp: WalReader_Open_def op read_position_def valid_prefix_length_def)
qed

text \<open>Without failing reads a replay from the start delivers exactly what the scan of the bytes says.\<close>

lemma Replay_scan:
  assumes "WalReader_Open p w0 = (s, Some rd, w)" and "faults w = []" and "files w0 p = Some c"
    and "log_scan c = (all, e, len)"
  obtains rd' w' where "Replay rd w = (all, of_nat (length all), e, rd', w')" and "valid_prefix_length rd' = of_nat len"
    and "files w' = files w0"
proof -
  note rd = WalReader_Open_reader [OF assms(1)]
  obtain rs n t rd' w' where run: "Replay rd w = (rs, n, t, rd', w')" by (rule prod_cases5)
  have c: "content w (fd_path (wrd_file rd)) = c" using rd(1,2) assms(3) by (simp add: content_def)
  from Replay_refines [OF run rd(4) c] assms(2,4) rd(1,3,5)
  have "rs = all" "n = of_nat (length all)" "t = e" "valid_prefix_length rd' = of_nat len" "files w' = files w0" by auto
  with run that show ?thesis by blast
qed

subsection \<open>A log cut anywhere\<close>

lemma cut_point:
  "n \<le> length (concat (map f rs)) \<Longrightarrow> \<exists>k\<le>length rs. length (concat (map f (take k rs))) \<le> n \<and>
    (k < length rs \<longrightarrow> n < length (concat (map f (take (Suc k) rs))))"
proof (induction rs arbitrary: n)
  case (Cons r rs)
  show ?case
  proof (cases "n < length (f r)")
    case True
    then show ?thesis by (intro exI [of _ 0]) simp
  next
    case False
    with Cons.prems have "n - length (f r) \<le> length (concat (map f rs))" by auto
    from Cons.IH [OF this] obtain k where "k \<le> length rs" "length (concat (map f (take k rs))) \<le> n - length (f r)"
      "k < length rs \<longrightarrow> n - length (f r) < length (concat (map f (take (Suc k) rs)))" by blast
    with False show ?thesis by (intro exI [of _ "Suc k"]) auto
  qed
qed simp

lemma recoverable_within: "recoverable r \<Longrightarrow> within_bounds r \<and> persisted r = r"
  by (cases r) (auto simp: recoverable_def within_bounds_def persisted_def)

lemma cut_log_scan:
  assumes "clean_log c rs" and "n \<le> length c"
  obtains k where "k \<le> length rs" and "length (concat (map wal_enc (take k rs))) \<le> n"
    and "k < length rs \<longrightarrow> n < length (concat (map wal_enc (take (Suc k) rs)))"
    and "log_scan (take n c) = (take k rs,
      if length (concat (map wal_enc (take k rs))) = n then ReadEndOfLog else ReadTruncated,
      length (concat (map wal_enc (take k rs))))"
proof -
  have c: "c = concat (map wal_enc rs)" and rec: "\<forall>r\<in>set rs. recoverable r" using assms(1) by (simp_all add: clean_log_def)
  obtain k where k: "k \<le> length rs" "length (concat (map wal_enc (take k rs))) \<le> n"
    "k < length rs \<longrightarrow> n < length (concat (map wal_enc (take (Suc k) rs)))"
    using cut_point [of n wal_enc rs] assms(2) unfolding c by blast
  let ?c = "concat (map wal_enc (take k rs))"
  have clean: "clean_log ?c (take k rs)" using rec by (auto simp: clean_log_def dest: in_set_takeD)
  have "log_scan (take n c) = (take k rs, if length ?c = n then ReadEndOfLog else ReadTruncated, length ?c)"
  proof (cases "k < length rs")
    case True
    let ?r = "rs ! k" and ?m = "n - length ?c"
    have split: "rs = take k rs @ ?r # drop (Suc k) rs" using True by (simp add: id_take_nth_drop)
    have "c = ?c @ wal_enc ?r @ concat (map wal_enc (drop (Suc k) rs))"
      unfolding c by (subst (1) split) simp
    moreover have m: "?m < length (wal_enc ?r)" using k(2,3) True by (simp add: take_Suc_conv_app_nth)
    ultimately have cut: "take n c = ?c @ take ?m (wal_enc ?r)" using k(2) by simp
    have "within_bounds ?r" using rec True recoverable_within by simp
    from torn_append_scan [OF clean this, of ?m] m k(2) show ?thesis
      unfolding cut by auto
  next
    case False
    then have "take k rs = rs" "n = length c" using k(1,2) assms(2) by (simp_all add: c)
    then show ?thesis using clean_log_scan [OF assms(1)] by (simp add: c)
  qed
  with k that show ?thesis by blast
qed

subsection \<open>A torn append\<close>

lemma Append_one_byte:
  assumes "fd_append f" and "files w (fd_path f) = Some c" and "length c < max_file_size" and "2 \<le> length data"
    and "faults w = [SysShort 1, SysErr m]"
  shows "Append f data w = (IOError (ErrnoMessage ''write failed'' m), f\<lparr>fd_pos := length c + 1\<rparr>,
    \<lparr>files = (files w)(fd_path f \<mapsto> c @ [hd data]), faults = []\<rparr>)"
proof -
  obtain a b ds where data: "data = a # b # ds" using assms(4) by (cases data; cases "tl data") auto
  have w: "w = \<lparr>files = files w, faults = [SysShort 1, SysErr m]\<rparr>" using assms(5) by simp
  have first: "sys_write f data w = (Ret 1, f\<lparr>fd_pos := length c + 1\<rparr>,
      \<lparr>files = (files w)(fd_path f \<mapsto> c @ [a]), faults = [SysErr m]\<rparr>)"
    using assms(1-3) by (subst w) (simp add: sys_write_def next_sys_def Let_def splice_def data)
  have second: "sys_write f' ds' \<lparr>files = fs, faults = [SysErr m]\<rparr> = (Fail m, f', \<lparr>files = fs, faults = []\<rparr>)" for f' ds' fs
    by (simp add: sys_write_def next_sys_def Let_def)
  have "0 < length data" "Suc 0 < length data" "a = hd data" by (simp_all add: data)
  then show ?thesis
    unfolding Append_def using first second
    by (simp add: Append_loop.simps [of f data 0 w] Append_loop.simps [of _ data "Suc 0"])
qed

lemma AddRecord_one_byte:
  assumes "log_sink wr c w" and "length c < max_file_size" and "within_bounds r" and "faults w = [SysShort 1, SysErr m]"
  obtains wr' w' where "AddRecord wr r w = (IOError (ErrnoMessage ''write failed'' m), wr', w')"
    and "log_sink wr' (c @ [hd (wal_enc r)]) w'" and "faults w' = []" and "fd_path (ww_file wr') = fd_path (ww_file wr)"
proof -
  have sink: "fd_append (ww_file wr)" "files w (fd_path (ww_file wr)) = Some c" using assms(1) by (simp_all add: log_sink_def)
  have "recoverable (persisted r)" "wal_enc (persisted r) = wal_enc r"
    using assms(3) by simp_all
  then have "2 \<le> length (wal_enc r)" using length_wal_enc [of "persisted r"] by simp
  note app = Append_one_byte [OF sink assms(2) this assms(4)]
  show ?thesis
    by (rule that [of "wr\<lparr>ww_file := (ww_file wr)\<lparr>fd_pos := length c + 1\<rparr>\<rparr>"
          "\<lparr>files = (files w)(fd_path (ww_file wr) \<mapsto> c @ [hd (wal_enc r)]), faults = []\<rparr>"])
      (use sink(1) assms(2) in \<open>simp_all add: AddRecord_accepts [OF assms(3)] app log_sink_def\<close>)
qed

end
