(* ===== verification/Pebble_Db_Total.thy ===== *)
theory Pebble_Db_Total
  imports Pebble_Db_Live
begin

text \<open>
  No operation of a store runs into undefined behaviour: \<open>None\<close> stands for the division by zero a Bloom
  filter of a multiple of \<open>2 ^ 32\<close> bits leads to, and for a persistent store without a log writer.  The
  first cannot happen while the tables in memory stay below the size \<open>filters_fit\<close> says, the second not
  at all.
\<close>

definition filter_fits :: "db_options \<Rightarrow> nat \<Rightarrow> bool" where
  "filter_fits options n \<longleftrightarrow> n * unat (op_filter_bits_per_key options) < 2 ^ 32 - 64"

definition flushable :: "db_options \<Rightarrow> memtable \<Rightarrow> bool" where
  "flushable options t \<longleftrightarrow> memtable_inv t \<and> within_limits t \<and> filter_fits options (length (mt_table t))"

abbreviation all_flushable :: "db \<Rightarrow> bool" where
  "all_flushable db \<equiv> \<forall>t\<in>set (ml_immutables (db_memtables db)). flushable (db_options db) t"

lemma ex_triple [simp]: "\<exists>a b c. x = (a, b, c)"
  by (cases x) auto

lemma FlushCurrentBlock_keys:
  assumes "FlushCurrentBlock wr w = (s, wr', w')"
  shows "sw_keys_for_filter wr' = sw_keys_for_filter wr" "sw_options wr' = sw_options wr"
  using assms by (auto simp: FlushCurrentBlock_def Let_def split: prod.splits if_splits)

lemma writing_keys: "writing wr blocks cur w \<Longrightarrow> length (sw_keys_for_filter wr) \<le> length (all_entries blocks cur)"
  unfolding writing_def by (elim conjE) simp

lemma SstWriter_Finish_total:
  assumes "length (sw_keys_for_filter wr) * unat (wo_filter_bits_per_key (sw_options wr)) < 2 ^ 32 - 64"
  shows "SstWriter_Finish wr w \<noteq> None"
proof -
  obtain s wr1 w1 where flush: "FlushCurrentBlock wr w = (s, wr1, w1)"
    by (rule prod_cases3)
  note same = FlushCurrentBlock_keys [OF flush]
  obtain fltr where "BuildFilter (sw_keys_for_filter wr1) (wo_filter_bits_per_key (sw_options wr1)) = Some fltr"
    using BuildFilter_total [OF assms] same by auto
  with flush show ?thesis
    by (simp add: SstWriter_Finish_def Let_def del: not_None_eq split: prod.splits)
qed

lemma write_table_total:
  assumes "flushable (db_options db) frozen"
  shows "write_table db frozen n w \<noteq> None"
proof -
  let ?p = "SstableFileName (db_dbname db) n"
    and ?opts = "default_writer_options\<lparr>wo_filter_bits_per_key := op_filter_bits_per_key (db_options db)\<rparr>"
  have frozen: "memtable_inv frozen" "within_limits frozen"
    "length (mt_table frozen) * unat (op_filter_bits_per_key (db_options db)) < 2 ^ 32 - 64"
    using assms by (simp_all add: flushable_def filter_fits_def)
  obtain s wo w1 where op: "SstWriter_Open ?p ?opts w = (s, wo, w1)"
    by (rule prod_cases3)
  show ?thesis
  proof (cases wo)
    case None
    with op show ?thesis by (simp add: write_table_def)
  next
    case (Some wr)
    then have "ok s" using SstWriter_Open_effect(3) [OF op] by fastforce
    then have wr: "writing wr [] [] w1" "sw_options wr = ?opts" "files w1 = (files w)(fd_path (sw_file wr) \<mapsto> [])"
      using SstWriter_Open_effect(2) [OF op] Some by auto
    obtain s2 wr2 w2 where add: "add_entries (mt_table frozen) wr w1 = (s2, wr2, w2)"
      by (rule prod_cases3)
    have "ascending (mt_table frozen)" using frozen(1) by (simp add: memtable_inv_def)
    moreover have "\<forall>(k, e)\<in>set (mt_table frozen). length k < 2 ^ 32 \<and> length (me_value e) < 2 ^ 32"
      using within_limits_lengths [OF frozen(2)] by blast
    ultimately have added: "sw_options wr2 = ?opts"
      "ok s2 \<Longrightarrow> \<exists>blocks cur. writing wr2 blocks cur w2 \<and> all_entries blocks cur = map entry_of (mt_table frozen)"
      using add_entries_effect [OF add wr(1) _ _ _ wr(3)] wr(2) by (auto simp: all_entries_def)
    have "SstWriter_Finish wr2 w2 \<noteq> None" if ok2: "ok s2"
    proof (rule SstWriter_Finish_total)
      from added(2) [OF ok2] have "length (sw_keys_for_filter wr2) \<le> length (mt_table frozen)"
        using writing_keys by fastforce
      then have "length (sw_keys_for_filter wr2) * unat (op_filter_bits_per_key (db_options db)) \<le>
          length (mt_table frozen) * unat (op_filter_bits_per_key (db_options db))"
        by (rule mult_le_mono1)
      from le_less_trans [OF this frozen(3)]
      show "length (sw_keys_for_filter wr2) * unat (wo_filter_bits_per_key (sw_options wr2)) < 2 ^ 32 - 64"
        by (simp add: added(1))
    qed
    with op Some add show ?thesis
      by (cases "ok s2") (auto simp: write_table_def Let_def simp del: not_None_eq)
  qed
qed

lemma publish_table_memtables:
  assumes "publish_table db frozen n rd w = (s, db', w')"
  shows "db_options db' = db_options db \<and>
    (db_memtables db' = db_memtables db \<or> db_memtables db' = RemoveImmutable frozen (db_memtables db))"
  using assms by (auto simp: publish_table_def Let_def split: prod.splits if_splits)

lemma set_erase_first: "set (erase_first a ts) \<subseteq> set ts"
  by (induction ts) auto

lemma flush_one_total:
  assumes "all_flushable db" and "0 < ImmutableCount (db_memtables db)"
  shows "\<exists>s db' w'. flush_one db w = Some (s, db', w') \<and> all_flushable db'"
proof -
  let ?frozen = "last (ml_immutables (db_memtables db))"
    and ?db = "db\<lparr>db_next_file_number := db_next_file_number db + 1\<rparr>"
  have "flushable (db_options ?db) ?frozen"
    using assms by (simp add: ImmutableCount_def)
  then obtain s rd w1 where wt: "write_table ?db ?frozen (db_next_file_number db) w = Some (s, rd, w1)"
    using write_table_total [of ?db ?frozen "db_next_file_number db" w] by auto
  show ?thesis
  proof (cases rd)
    case None
    with wt assms(1) show ?thesis by (simp add: flush_one_def Let_def)
  next
    case (Some r)
    obtain s2 db2 w2 where pub: "publish_table ?db ?frozen (db_next_file_number db) r w1 = (s2, db2, w2)"
      by (rule prod_cases3)
    have "all_flushable db2"
      using publish_table_memtables [OF pub] assms(1) set_erase_first [of "mt_address ?frozen" "ml_immutables (db_memtables db)"]
      by (auto simp: RemoveImmutable_def)
    with wt Some pub show ?thesis by (simp add: flush_one_def Let_def)
  qed
qed

lemma flush_rounds_total:
  "all_flushable db \<Longrightarrow> \<exists>r. flush_rounds db w = Some r"
proof (induction db w rule: flush_rounds.induct)
  case (1 db w)
  show ?case
  proof (cases "0 < ImmutableCount (db_memtables db)")
    case True
    obtain s db' w' where one: "flush_one db w = Some (s, db', w')" "all_flushable db'"
      using flush_one_total [OF "1.prems" True] by blast
    with 1 True show ?thesis
      by (cases "ok s") (auto simp: flush_rounds.simps [of db w])
  qed (simp add: flush_rounds.simps [of db w])
qed

text \<open>What \<open>Put\<close> and \<open>Delete\<close> may add to the active table.\<close>

definition filters_fit :: "db \<Rightarrow> bool" where
  "filters_fit db \<longleftrightarrow> filter_fits (db_options db) (length (mt_table (ml_active (db_memtables db))) + 1) \<and>
     (\<forall>t\<in>set (ml_immutables (db_memtables db)). filter_fits (db_options db) (length (mt_table t)))"

lemma filter_fits_mono: "filter_fits options n \<Longrightarrow> m \<le> n \<Longrightarrow> filter_fits options m"
  unfolding filter_fits_def by (meson le_less_trans mult_le_mono1)

lemma FlushLocked_total:
  assumes "memtable_list_inv (db_memtables db)" and "\<forall>t\<in>set (list_tables (db_memtables db)). within_limits t"
    and "\<forall>t\<in>set (list_tables (db_memtables db)). filter_fits (db_options db) (length (mt_table t))"
  shows "FlushLocked db w \<noteq> None"
proof -
  have all: "\<forall>t\<in>set (list_tables (db_memtables db)). flushable (db_options db) t"
    using assms by (simp add: flushable_def memtable_list_inv_def)
  define db1 where "db1 = (if \<not> MemTable_empty (ml_active (db_memtables db))
    then db\<lparr>db_memtables := Freeze (db_memtables db)\<rparr> else db)"
  have "all_flushable db1"
    using all by (simp add: db1_def list_tables_def Freeze_def)
  from flush_rounds_total [OF this, of w] show ?thesis
    by (auto simp: FlushLocked_def Let_def simp flip: db1_def)
qed

lemma ordered_put_length: "length (ordered_put k v m) \<le> length m + 1"
  by (induction m) auto

lemma MemTable_length:
  "length (mt_table (MemTable_Put k v q t)) \<le> length (mt_table t) + 1"
  "length (mt_table (MemTable_Delete k q t)) \<le> length (mt_table t) + 1"
  using ordered_put_length by (simp_all add: MemTable_Put_eq MemTable_Delete_eq Let_def)

lemma List_filter_fits:
  assumes "filters_fit db"
  shows "\<forall>t\<in>set (list_tables (List_Put k v q (db_memtables db))). filter_fits (db_options db) (length (mt_table t))"
    and "\<forall>t\<in>set (list_tables (List_Delete k q (db_memtables db))). filter_fits (db_options db) (length (mt_table t))"
  using assms MemTable_length filter_fits_mono
  by (auto simp: filters_fit_def list_tables_def List_Put_def List_Delete_def)

lemma log_write_total:
  assumes "stored G db w" and "logged G L g db w"
  shows "\<exists>s wr w'. log_write db r w = Some (s, db\<lparr>db_wal_writer := Some wr\<rparr>, w')"
  using assms by (auto simp: log_write_def stored_def logged_def split: prod.splits)

text \<open>The part behind the log of both writes.\<close>

lemma write_total:
  assumes "stored G db1 w1" and "db1 = db\<lparr>db_wal_writer := wr\<rparr>" and "within_bounds r"
    and upd: "\<And>l. memtable_list_inv l \<Longrightarrow> memtable_list_inv (upd l)"
      "\<And>l. \<forall>t\<in>set (list_tables l). within_limits t \<Longrightarrow> \<forall>t\<in>set (list_tables (upd l)). within_limits t"
    and fit: "\<forall>t\<in>set (list_tables (upd (db_memtables db))). filter_fits (db_options db) (length (mt_table t))"
  shows "\<exists>b db3 w3. IsKeyCurrentlyLive (db1\<lparr>db_next_sequence := n\<rparr>) k w1 = Some (b, db3, w3) \<and>
    (\<forall>m st. maybe_flush (db3\<lparr>db_memtables := upd (db_memtables db3), db_live_key_count := m, db_stats := st\<rparr>) w3 \<noteq> None)"
proof -
  have old: "memtable_list_inv (db_memtables db)" "\<forall>t\<in>set (list_tables (db_memtables db)). within_limits t"
    using assms(1) by (simp_all add: assms(2) stored_def readable_def)
  have "readable G (db1\<lparr>db_next_sequence := n\<rparr>) w1"
    using assms(1) by (auto simp: stored_def readable_def)
  from IsKeyCurrentlyLive_effect [OF this, of k] obtain b rds cache w3
    where live: "IsKeyCurrentlyLive (db1\<lparr>db_next_sequence := n\<rparr>) k w1 =
      Some (b, db1\<lparr>db_next_sequence := n, db_tables := rds, db_block_cache := cache\<rparr>, w3)"
    by auto
  have "maybe_flush (db1\<lparr>db_next_sequence := n, db_tables := rds, db_block_cache := cache,
      db_memtables := upd (db_memtables db), db_live_key_count := m, db_stats := st\<rparr>) w3 \<noteq> None" for m st
    using FlushLocked_total [of "db1\<lparr>db_next_sequence := n, db_tables := rds, db_block_cache := cache,
      db_memtables := upd (db_memtables db), db_live_key_count := m, db_stats := st\<rparr>" w3] upd(1) [OF old(1)] upd(2) [OF old(2)] fit
    by (simp add: maybe_flush_def assms(2))
  with live show ?thesis by (auto simp: assms(2))
qed

theorem DB_Put_defined:
  assumes "stored G db w" and "logged G L g db w" and "filters_fit db"
  shows "DB_Put db k v w \<noteq> None"
proof -
  define q where "q = db_next_sequence db"
  define r where "r = \<lparr>wr_sequence = q, wr_type = kPut, wr_key = k, wr_value = v\<rparr>"
  obtain s wr w1 where log: "log_write db r w = Some (s, db\<lparr>db_wal_writer := Some wr\<rparr>, w1)"
    using log_write_total [OF assms(1,2)] by blast
  show ?thesis
  proof (cases "ok s")
    case False
    with log show ?thesis by (simp add: DB_Put_def Let_def flip: q_def r_def)
  next
    case True
    let ?db1 = "db\<lparr>db_wal_writer := Some wr\<rparr>"
    note effect = log_write_effect(1,3) [OF log assms(1,2)]
    have bounds: "within_bounds r" by (rule effect(2) [OF True])
    have u1: "memtable_list_inv l \<Longrightarrow> memtable_list_inv (List_Put k v q l)" for l
      by (rule List_Put_inv(1))
    have u2: "\<forall>t\<in>set (list_tables l). within_limits t \<Longrightarrow> \<forall>t\<in>set (list_tables (List_Put k v q l)). within_limits t" for l
      by (rule List_within_limits(1)) (use bounds in \<open>simp_all add: within_bounds_def r_def\<close>)
    obtain b db3 w3 where live: "IsKeyCurrentlyLive (?db1\<lparr>db_next_sequence := db_next_sequence ?db1 + 1\<rparr>) k w1 = Some (b, db3, w3)"
      and rest: "\<forall>m st. maybe_flush (db3\<lparr>db_memtables := List_Put k v q (db_memtables db3), db_live_key_count := m, db_stats := st\<rparr>) w3 \<noteq> None"
      using write_total [where upd = "List_Put k v q", OF effect(1) refl bounds u1 u2 List_filter_fits(1) [OF assms(3)], of "db_next_sequence ?db1 + 1" k]
      by blast
    have "DB_Put db k v w = maybe_flush (db3\<lparr>db_memtables := List_Put k v q (db_memtables db3),
        db_live_key_count := (if b then db_live_key_count db3 else db_live_key_count db3 + 1),
        db_stats := (db_stats db3)\<lparr>st_put_count := st_put_count (db_stats db3) + 1\<rparr>\<rparr>) w3"
      using log live True unfolding DB_Put_def Let_def q_def [symmetric] r_def [symmetric] by simp
    with rest show ?thesis by simp
  qed
qed

theorem DB_Delete_defined:
  assumes "stored G db w" and "logged G L g db w" and "filters_fit db"
  shows "DB_Delete db k w \<noteq> None"
proof -
  define q where "q = db_next_sequence db"
  define r where "r = \<lparr>wr_sequence = q, wr_type = kDelete, wr_key = k, wr_value = []\<rparr>"
  obtain s wr w1 where log: "log_write db r w = Some (s, db\<lparr>db_wal_writer := Some wr\<rparr>, w1)"
    using log_write_total [OF assms(1,2)] by blast
  show ?thesis
  proof (cases "ok s")
    case False
    with log show ?thesis by (simp add: DB_Delete_def Let_def flip: q_def r_def)
  next
    case True
    let ?db1 = "db\<lparr>db_wal_writer := Some wr\<rparr>"
    note effect = log_write_effect(1,3) [OF log assms(1,2)]
    have bounds: "within_bounds r" by (rule effect(2) [OF True])
    have u1: "memtable_list_inv l \<Longrightarrow> memtable_list_inv (List_Delete k q l)" for l
      by (rule List_Delete_inv(1))
    have u2: "\<forall>t\<in>set (list_tables l). within_limits t \<Longrightarrow> \<forall>t\<in>set (list_tables (List_Delete k q l)). within_limits t" for l
      by (rule List_within_limits(2)) (use bounds in \<open>simp_all add: within_bounds_def r_def\<close>)
    obtain b db3 w3 where live: "IsKeyCurrentlyLive (?db1\<lparr>db_next_sequence := db_next_sequence ?db1 + 1\<rparr>) k w1 = Some (b, db3, w3)"
      and rest: "\<forall>m st. maybe_flush (db3\<lparr>db_memtables := List_Delete k q (db_memtables db3), db_live_key_count := m, db_stats := st\<rparr>) w3 \<noteq> None"
      using write_total [where upd = "List_Delete k q", OF effect(1) refl bounds u1 u2 List_filter_fits(2) [OF assms(3)], of "db_next_sequence ?db1 + 1" k]
      by blast
    have "DB_Delete db k w = maybe_flush (db3\<lparr>db_memtables := List_Delete k q (db_memtables db3),
        db_live_key_count := (if b then db_live_key_count db3 - 1 else db_live_key_count db3),
        db_stats := (db_stats db3)\<lparr>st_delete_count := st_delete_count (db_stats db3) + 1\<rparr>\<rparr>) w3"
      using log live True unfolding DB_Delete_def Let_def q_def [symmetric] r_def [symmetric] by simp
    with rest show ?thesis by simp
  qed
qed

theorem DB_Flush_defined:
  assumes "stored G db w" and "filters_fit db"
  shows "DB_Flush db w \<noteq> None"
proof -
  have "filter_fits (db_options db) (length (mt_table t))" if "t \<in> set (list_tables (db_memtables db))" for t
    using that assms(2) filter_fits_mono by (auto simp: filters_fit_def list_tables_def)
  with FlushLocked_total [of db w] assms(1) show ?thesis
    by (simp add: DB_Flush_def stored_def readable_def)
qed

end
