(* ===== verification/Pebble_Flush_Live.thy ===== *)
theory Pebble_Flush_Live
  imports Pebble_Demo Pebble_Db_Total
begin

text \<open>
  The write of a table and a flush on a system that does not fail, for a memtable with one entry: they
  succeed.  It shows that what is assumed of a written table and of a flush with something to flush can hold.
\<close>

subsection \<open>Writing a table\<close>

lemma single_block: "concat bs = [e] \<Longrightarrow> [] \<notin> set bs \<Longrightarrow> bs = [[e]]"
  by (cases bs; cases "hd bs"; cases "tl bs"; auto)

lemma FlushCurrentBlock_no_faults:
  assumes "writing wr blocks cur w" and "faults w = []"
    and "length (data_bytes blocks) + length (entries.encs cur) + 5 \<le> max_file_size"
  obtains wr' w' where "FlushCurrentBlock wr w = (status_OK, wr', w')" and "faults w' = []"
proof -
  have "sink (sw_file wr) (data_bytes blocks) w" using assms(1) by (simp add: writing_def)
  then obtain f w1 where "Append (sw_file wr) (block_bytes (entries.encs cur)) w = (status_OK, f, w1)" "faults w1 = []"
    using Append_no_faults [of "sw_file wr" "data_bytes blocks" w "block_bytes (entries.encs cur)"] assms(2,3) by auto
  then have "\<exists>wr' w'. FlushCurrentBlock wr w = (status_OK, wr', w') \<and> faults w' = []"
    using assms(1,2) by (simp add: FlushCurrentBlock_def writing_def FinishBlock_bytes Let_def del: length_block_bytes)
  with that show ?thesis by blast
qed

lemma Finish_tail_no_faults:
  assumes "sink (sw_file wr) c w" and "faults w = []"
    and "length c + length (sw_index_block wr) + 5 + kFooterSize \<le> max_file_size"
  obtains wr' w' where "Finish_tail fh wr w = (status_OK, wr', w')" and "faults w' = []"
proof -
  obtain f1 w1 where a1: "Append (sw_file wr) (block_bytes (sw_index_block wr)) w = (status_OK, f1, w1)" "faults w1 = []"
    using Append_no_faults [OF assms(1,2), of "block_bytes (sw_index_block wr)"] assms(3) by auto
  have sink: "sink f1 (c @ block_bytes (sw_index_block wr)) w1"
    using append_step(4) [OF a1(1) assms(1)] by simp
  have "\<exists>f2 w2. Append f1 (EncodeFooter footer []) w1 = (status_OK, f2, w2) \<and> faults w2 = []" for footer
    using Append_no_faults [OF sink a1(2), of "EncodeFooter footer []"] assms(3) by simp
  then obtain f2 w2 where a2: "Append f1 (EncodeFooter
      \<lparr>ft_stored_checksum = 0, ft_format_version = sst_kFormatVersion,
        ft_index_handle = \<lparr>bh_offset = sw_file_offset wr, bh_size = of_nat (length (block_bytes (sw_index_block wr)))\<rparr>,
        ft_filter_handle = fh, ft_num_entries = sw_entries_written wr\<rparr> []) w1 = (status_OK, f2, w2)" "faults w2 = []"
    by blast
  have "\<exists>wr' w'. Finish_tail fh wr w = (status_OK, wr', w') \<and> faults w' = []"
    by (simp add: Finish_tail_def FinishBlock_bytes Let_def a1 a2 del: length_block_bytes)
  with that show ?thesis by blast
qed

lemma SstWriter_Finish_no_faults:
  assumes "writing wr b c w" and "all_entries b c = [e]" and "faults w = []"
    and "length (se_key e) + length (se_value e) < 2 ^ 32"
    and "unat (wo_filter_bits_per_key (sw_options wr)) < 2 ^ 32 - 64"
  obtains wr' w' where "SstWriter_Finish wr w = Some (status_OK, wr', w')" and "faults w' = []"
proof -
  have valid: "entry_valid e" using assms(1,2) by (simp add: writing_def)
  have len: "length (entry_enc e) = 17 + length (se_key e) + length (se_value e)"
    using valid by (simp add: entry_enc_layout)
  have "length (data_bytes b) + length (entries.encs c) \<le> length (entry_enc e) + 5"
  proof (cases "c = []")
    case True
    then have "b = [[e]]" using assms(1,2) by (intro single_block) (simp_all add: writing_def all_entries_def)
    with True show ?thesis by (simp add: data_bytes_def)
  next
    case False
    then have "concat b = [] \<and> c = [e]" using assms(2) by (cases "concat b") (auto simp: all_entries_def)
    moreover have "[] \<notin> set b" using assms(1) by (simp add: writing_def)
    ultimately have "b = [] \<and> c = [e]" by (cases b) auto
    then show ?thesis by (simp add: data_bytes_def)
  qed
  then have "length (data_bytes b) + length (entries.encs c) + 5 \<le> max_file_size"
    using len assms(4) by (simp add: max_file_size_def)
  then obtain wr1 w1 where f1: "FlushCurrentBlock wr w = (status_OK, wr1, w1)" "faults w1 = []"
    by (rule FlushCurrentBlock_no_faults [OF assms(1,3)])
  define bs where "bs = (if c = [] then b else b @ [c])"
  have opt: "sw_options wr1 = sw_options wr" using FlushCurrentBlock_effect(3) [OF f1(1) assms(1)] .
  have w1: "writing wr1 bs [] w1" using FlushCurrentBlock_effect(5) [OF f1(1) assms(1)] by (simp add: bs_def)
  note st = writing_flushed [OF w1]
  have "concat bs = [e]" using assms(2) by (cases "c = []") (simp_all add: bs_def all_entries_def)
  then have bs: "bs = [[e]]" using w1 by (intro single_block) (simp_all add: writing_def)
  have data: "length (data_bytes bs) = length (entry_enc e) + 5" by (simp add: bs data_bytes_def)
  have idx: "length (sw_index_block wr1) = 20 + length (se_key e)"
    using st(4) by (simp add: bs index_enc_layout)
  have fin: "\<not> sw_finished wr" using assms(1) by (simp add: writing_def)
  have "\<exists>wr' w'. SstWriter_Finish wr w = Some (status_OK, wr', w') \<and> faults w' = []"
  proof (cases "sw_keys_for_filter wr1 = []")
    case True
    have "length (data_bytes bs) + length (sw_index_block wr1) + 5 + kFooterSize \<le> max_file_size"
      using data idx len assms(4) by (simp add: max_file_size_def kFooterSize_def)
    then obtain wr3 w3 where "Finish_tail \<lparr>bh_offset = sw_file_offset wr1, bh_size = 0\<rparr> wr1 w1 = (status_OK, wr3, w3)"
        "faults w3 = []"
      using Finish_tail_no_faults [OF st(2) f1(2)] by blast
    then show ?thesis
      using f1 fin True by (simp add: SstWriter_Finish_def Let_def)
  next
    case False
    let ?bits = "wo_filter_bits_per_key (sw_options wr)"
    have keys: "sw_keys_for_filter wr1 = [se_key e]" "?bits \<noteq> 0"
      using False st(6) opt by (auto simp: bs split: if_splits)
    obtain fltr where fltr: "BuildFilter [se_key e] ?bits = Some fltr" "length fltr < 2 ^ 29"
      using BuildFilter_total [of "[se_key e]" ?bits] assms(5) by auto
    have ne: "fltr \<noteq> []" using BuildFilter_not_Nil [OF fltr(1)] keys(2) by simp
    obtain f2 w2 where a2: "Append (sw_file wr1) (block_bytes fltr) w1 = (status_OK, f2, w2)" "faults w2 = []"
      using Append_no_faults [OF st(2) f1(2), of "block_bytes fltr"] data len fltr(2) assms(4)
      by (auto simp: max_file_size_def)
    have sink: "sink f2 (data_bytes bs @ block_bytes fltr) w2" using append_step(4) [OF a2(1) st(2)] by simp
    let ?wr2 = "wr1\<lparr>sw_file := f2, sw_file_offset := sw_file_offset wr1 + of_nat (length (block_bytes fltr))\<rparr>"
    have "length (data_bytes bs @ block_bytes fltr) + length (sw_index_block ?wr2) + 5 + kFooterSize \<le> max_file_size"
      using data idx len fltr(2) assms(4) by (simp add: max_file_size_def kFooterSize_def)
    moreover have "sink (sw_file ?wr2) (data_bytes bs @ block_bytes fltr) w2" using sink by simp
    ultimately obtain wr3 w3 where "Finish_tail \<lparr>bh_offset = sw_file_offset wr1,
        bh_size = of_nat (length (block_bytes fltr))\<rparr> ?wr2 w2 = (status_OK, wr3, w3)" "faults w3 = []"
      using Finish_tail_no_faults [OF _ a2(2)] by blast
    then show ?thesis
      using f1 fin keys fltr(1) ne a2 opt
      by (simp add: SstWriter_Finish_def FinishBlock_bytes Let_def del: length_block_bytes)
  qed
  with that show ?thesis by blast
qed

lemma write_one_entry:
  assumes "memtable_inv t" and "within_limits t" and "mt_table t = [(k, e)]" and "length k + length (me_value e) < 1000"
    and "faults w = []" and "files w (SstableFileName (db_dbname db) n) = None"
    and "unat (op_filter_bits_per_key (db_options db)) < 2 ^ 32 - 64"
  obtains rd w' where "write_table db t n w = Some (status_OK, Some rd, w')" and "faults w' = []"
proof -
  let ?p = "SstableFileName (db_dbname db) n"
  let ?opts = "default_writer_options\<lparr>wo_filter_bits_per_key := op_filter_bits_per_key (db_options db)\<rparr>"
  obtain s1 wo w1 where op: "SstWriter_Open ?p ?opts w = (s1, wo, w1)" by (rule prod_cases3)
  have s1: "s1 = status_OK" "faults w1 = []"
    using op OpenNew_no_faults [OF assms(5), of ?p] assms(5,6) by (auto simp: SstWriter_Open_def)
  then obtain wr where wr: "wo = Some wr" "writing wr [] [] w1" "sw_options wr = ?opts" "fd_path (sw_file wr) = ?p"
    using SstWriter_Open_effect(2) [OF op] by auto
  have lens: "length k < 2 ^ 32" "length (me_value e) < 2 ^ 32" using assms(4) by simp_all
  obtain s2 wr2 w2 where add: "SstWriter_Add k (me_value e) (me_sequence e) (me_type e) wr w1 = (s2, wr2, w2)"
    by (rule prod_cases3)
  have "s2 = status_OK \<and> w2 = w1"
  proof -
    have fresh: "\<not> sw_finished wr" "\<not> sw_has_added_any wr" "sw_current_block_entries wr = []"
      using wr(2) by (simp_all add: writing_def)
    have enc: "EncodeEntry k (me_sequence e) (me_type e) v [] = entry_enc \<lparr>se_key = k, se_sequence = me_sequence e,
        se_type = me_type e, se_value = v\<rparr>" for v
      by (simp add: entry_enc_def)
    have "length (EncodeEntry k (me_sequence e) (me_type e) (if me_type e = kTombstone then [] else me_value e) []) < 4096"
      unfolding enc using assms(4) lens by (subst entry_enc_layout) (auto simp: entry_valid_def)
    then show ?thesis
      using add fresh wr(3) by (auto simp: SstWriter_Add_def Let_def default_writer_options_def split: if_splits)
  qed
  then have s2: "s2 = status_OK" "faults w2 = []" using s1 by simp_all
  have first: "all_entries [] ([] :: sst_entry list) = [] \<or> se_key (last (all_entries [] ([] :: sst_entry list))) < k" by simp
  note effect = SstWriter_Add_effect [OF add wr(2) lens first]
  obtain b c where bc: "writing wr2 b c w2" "all_entries b c = [added_entry k (me_value e) (me_sequence e) (me_type e)]"
    using effect(5) s2(1) by auto
  have small: "length (se_key (added_entry k (me_value e) (me_sequence e) (me_type e))) +
      length (se_value (added_entry k (me_value e) (me_sequence e) (me_type e))) < 2 ^ 32"
    using assms(4) by (simp add: added_entry_def)
  have bits: "unat (wo_filter_bits_per_key (sw_options wr2)) < 2 ^ 32 - 64" using effect(3) wr(3) assms(7) by simp
  obtain wr3 w3 where fin: "SstWriter_Finish wr2 w2 = Some (status_OK, wr3, w3)" "faults w3 = []"
    by (rule SstWriter_Finish_no_faults [OF bc s2(2) small bits])
  have "table_written ?p (wo_filter_bits_per_key (sw_options wr2)) (all_entries b c) w2 status_OK w3"
    using SstWriter_Finish_effect [OF fin(1) bc(1)] effect(2) wr(4) by simp
  moreover have "ok status_OK" by simp
  ultimately obtain blocks fltr where written: "files w3 = (files w2)(?p \<mapsto> table_bytes blocks fltr)"
      and table: "well_formed_blocks blocks" "length (table_bytes blocks fltr) \<le> max_file_size"
    unfolding table_written_def by blast
  have on_file: "files w3 ?p = Some (table_bytes blocks fltr)" using written by simp
  from table have "table_file (table_bytes blocks fltr) blocks fltr" by (simp add: table_file_def)
  obtain s out w4 where open4: "SstReader_Open ?p n w3 = (s, out, w4)" by (rule prod_cases3)
  note opened = SstReader_Open_table [OF open4 on_file \<open>table_file _ _ _\<close>]
  obtain rd where "out = Some rd" "ok s" "w4 = w3" using opened(2,4) fin(2) by auto
  moreover have run: "write_table db t n w = Some (s, out, w4)"
    using op wr(1) add s2(1) fin(1) open4 by (simp add: write_table_def Let_def assms(3))
  moreover have "s = status_OK"
    using open4 \<open>ok s\<close> \<open>out = Some rd\<close> by (auto simp: SstReader_Open_def Let_def split: prod.splits option.splits if_splits sum.splits)
  ultimately show ?thesis using that fin(2) by blast
qed

subsection \<open>A flush\<close>

lemma flush_one_entry:
  assumes st: "stored G db w" and "faults w = []" and entry: "mt_table (ml_active (db_memtables db)) = [(k, e)]"
    and "ImmutableCount (db_memtables db) = 0" and "length k + length (me_value e) < 1000"
    and free: "files w (SstableFileName (db_dbname db) (db_next_file_number db)) = None"
    and opts: "unat (op_filter_bits_per_key (db_options db)) < 2 ^ 32 - 64" "batch_allowed (db_options db)"
    and room: "length (mf_tables (db_manifest db)) < unat kMaxTableCount"
  obtains db' w' where "DB_Flush db w = Some (status_OK, db', w')"
proof -
  let ?l = "db_memtables db" and ?n = "db_next_file_number db"
  let ?t = "ml_active ?l"
  let ?db = "db\<lparr>db_memtables := Freeze ?l, db_next_file_number := ?n + 1\<rparr>"
  have "memtable_inv ?t" "within_limits ?t"
    using st by (simp_all add: stored_def readable_def memtable_list_inv_def list_tables_def)
  then obtain rd w1 where table: "write_table ?db ?t ?n w = Some (status_OK, Some rd, w1)" "faults w1 = []"
    using write_one_entry [of ?t k e w ?db ?n] entry assms(2,5) free opts(1) by auto
  have frozen: "ml_immutables (Freeze ?l) = [?t]" using assms(4) by (simp add: Freeze_def ImmutableCount_def)
  obtain db2 w2 where pub: "publish_table ?db ?t ?n rd w1 = (status_OK, db2, w2)" "faults w2 = []"
      "db_memtables db2 = RemoveImmutable ?t (Freeze ?l)" "db_options db2 = db_options db"
      "length (mf_tables (db_manifest db2)) = length (mf_tables (db_manifest db)) + 1"
    using SaveManifest_no_faults [OF table(2), of "(db_manifest ?db)\<lparr>mf_next_file_number := db_next_file_number ?db,
        mf_wal_file_number := db_current_wal_number ?db, mf_last_sequence := db_next_sequence ?db - 1,
        mf_tables := mf_tables (db_manifest ?db) @ [\<lparr>tf_file_number = ?n, tf_level = 0\<rparr>]\<rparr>" "db_dbname ?db"] room
    by (auto simp: publish_table_def Let_def)
  have empty: "ImmutableCount (db_memtables db2) = 0"
    using pub(3) frozen by (simp add: ImmutableCount_def RemoveImmutable_def)
  have "flush_one (db\<lparr>db_memtables := Freeze ?l\<rparr>) w = Some (status_OK, db2, w2)"
    using table(1) pub(1) frozen by (simp add: flush_one_def Let_def)
  then have rounds: "flush_rounds (db\<lparr>db_memtables := Freeze ?l\<rparr>) w = Some (status_OK, db2, w2)"
    using frozen empty by (simp add: flush_rounds.simps [of "db\<lparr>db_memtables := Freeze ?l\<rparr>" w] flush_rounds.simps [of db2 w2]
        ImmutableCount_def)
  obtain wr w3 where wal: "WalWriter_Open (WalFileName (db_dbname db2) (db_next_file_number db2))
      (op_wal_sync_policy (db_options db2)) (op_wal_batch_size (db_options db2)) w2 = (status_OK, Some wr, w3)" "faults w3 = []"
    using WalWriter_Open_no_faults [OF pub(2), of "op_wal_sync_policy (db_options db2)" "op_wal_batch_size (db_options db2)"]
      opts(2) pub(4) by fastforce
  obtain w4 where "SaveManifest (db_dbname db2) ((db_manifest db2)\<lparr>mf_wal_file_number := db_next_file_number db2\<rparr>) w3 =
      (status_OK, True, w4)"
    using SaveManifest_no_faults [OF wal(2), of "(db_manifest db2)\<lparr>mf_wal_file_number := db_next_file_number db2\<rparr>"] room pub(5)
    by auto
  then have "\<exists>db' w'. rotate_wal db2 w2 = (status_OK, db', w')"
    using wal(1) by (simp add: rotate_wal_def Let_def)
  moreover have "DB_Flush db w = Some (rotate_wal db2 w2)"
    using rounds st frozen entry
    by (simp add: DB_Flush_def FlushLocked_def Let_def MemTable_empty_def stored_def ImmutableCount_def)
  ultimately show ?thesis using that by auto
qed

end
