(* ===== verification/Pebble_Store_Properties.thy ===== *)
theory Pebble_Store_Properties
  imports Pebble_Wal_Cut Pebble_Flush_Live
begin

text \<open>
  The properties of PebbleDB's store, over \<open>Open\<close>, \<open>Put\<close>, \<open>Delete\<close>, \<open>Get\<close> and \<open>Flush\<close>.  Each is followed
  by a witness: the demonstration history on an empty file system satisfies its hypotheses.
\<close>

text \<open>The demonstration store after its \<open>Put\<close>: one entry in the active memtable and in the log.\<close>

definition demo_entry :: "u64 \<Rightarrow> mem_entry" where
  "demo_entry q = \<lparr>me_sequence = q, me_type = kValue, me_value = [2]\<rparr>"

lemma demo_filled:
  obtains db w q where "faults w = []" "stored [] db w" "logged [] [[1] \<mapsto> demo_entry q] Clean db w"
    "db_layer [] db = [[1] \<mapsto> demo_entry q]" "list_view (db_memtables db) = [[1] \<mapsto> demo_entry q]"
    "db_options db = default_options" "db_next_file_number db = 2" "mf_tables (db_manifest db) = []"
    "mt_table (ml_active (db_memtables db)) = [([1], demo_entry q)]" "ImmutableCount (db_memtables db) = 0"
proof -
  obtain db w where db: "empty_store db w" by (rule demo_open)
  note start = empty_store_simps [OF db]
  obtain db' w' where put: "DB_Put db [1] [2] w = Some (status_OK, db', w')" "faults w' = []" "mf_tables (db_manifest db') = []"
    "db_options db' = default_options" "db_next_file_number db' = 2"
    "db_memtables db' = List_Put [1] [2] (db_next_sequence db) (db_memtables db)"
    by (rule demo_put [OF db])
  let ?q = "db_next_sequence db"
  obtain q G L g where out: "stored G db' w'" "logged G L g db' w'" "g = Clean"
      "db_layer G db' = [[1] \<mapsto> demo_entry q]" "L = [[1] \<mapsto> demo_entry q]"
    using DB_Put_effect [OF put(1) start(6,7,4)] start(9) by (auto simp: write_outcome_def demo_entry_def)
  have "G = []" using out(1) put(3) by (simp add: stored_def)
  have "list_view (db_memtables db) = Map.empty" using start(9) by (simp add: db_layer_def)
  then have view: "list_view (db_memtables db') = [[1] \<mapsto> demo_entry ?q]"
    using List_Put_inv(2) [OF start(2)] by (simp add: put(6) demo_entry_def)
  with out(4) have "[[1] \<mapsto> demo_entry ?q] = [[1 :: byte] \<mapsto> demo_entry q]" by (simp add: db_layer_def \<open>G = []\<close>)
  from map_upd_eqD1 [OF this] have q: "q = ?q" by (simp add: demo_entry_def)
  have "mt_table (ml_active (db_memtables db')) = [([1], demo_entry ?q)]" "ImmutableCount (db_memtables db') = 0"
    using start(1) db by (simp_all add: put(6) List_Put_def MemTable_Put_def demo_entry_def ImmutableCount_def empty_store_def)
  with out view put that [of w' db' q] show ?thesis by (simp add: \<open>G = []\<close> q)
qed

text \<open>C1: Durability.  Take any history of a store with usable options that starts in a fresh directory: opens, writes,
  reads, flushes and crashes, with system calls failing, returning short or being interrupted in any
  pattern, except that the \<open>exists\<close> call on the manifest within an open answers, and as long as file
  numbers are left and the manifest has room for its tables.  If
  every write of the history was acknowledged, then every read, before or after any number of crashes
  and reopenings, answered with the last write of its key or reported an I/O error.\<close>

theorem acknowledged_writes_are_durable:
  assumes "run (store_step d options) (Stopped w) es c" and "fresh_dir d w" and "usable_options options"
    and "\<forall>e\<in>set es. acknowledged e"
  shows "history Map.empty es"
proof -
  obtain a where "run spec_step (Down Map.empty) es a"
    using store.trace_inclusion [OF assms(1), of "Down Map.empty"] assms(2,3) by auto
  from spec_acknowledged(1) [OF this _ assms(4)] show ?thesis by simp
qed

theorem acknowledged_writes_are_durable_witness:
  "(\<exists>c. run (store_step ''db'' default_options) (Stopped empty_world) demo_history c) \<and> history Map.empty demo_history"
proof -
  obtain c where "run (store_step ''db'' default_options) (Stopped empty_world) demo_history c"
    using demo_run by blast
  moreover have "history Map.empty demo_history"
    by (rule acknowledged_writes_are_durable [OF calculation])
      (simp_all add: demo_history_def acknowledged_def)
  ultimately show ?thesis by blast
qed

text \<open>C2: The store refines its specification, a key-value map with a recoverable copy and a grade
  of its log: every run from a fresh directory, failed writes and lost logs included, is a run of the
  specification that ends in a matching state.\<close>

theorem store_refines_specification:
  assumes "run (store_step d options) (Stopped w) es c" and "fresh_dir d w" and "usable_options options"
  shows "\<exists>a. run spec_step (Down Map.empty) es a \<and> store_matches d c a"
  using store.trace_inclusion [OF assms(1), of "Down Map.empty"] assms(2,3) by auto

theorem store_refines_specification_witness:
  "\<exists>c a. run spec_step (Down Map.empty) demo_history a \<and> store_matches ''db'' c a"
proof -
  obtain c where "run (store_step ''db'' default_options) (Stopped empty_world) demo_history c"
    using demo_run by blast
  from store_refines_specification [OF this] show ?thesis by auto
qed

text \<open>C3: Recovery.  Wherever an operation of a store left it, as long as its log is not broken (no record
  was appended behind the remains of a failed append) and its manifest names no more tables than the
  format allows, the directory can be opened again, with usable options, by a system whose calls do not
  fail: \<open>Open\<close> returns a store that shows exactly what the log and the tables covered, and whose live key
  count is the number of its keys.\<close>

theorem crash_then_open_recovers:
  assumes "stored G db w" and "logged G L g db w" and "g \<noteq> Broken"
    and "length (mf_tables (db_manifest db)) \<le> unat kMaxTableCount"
    and "usable_options options" and "batch_allowed options"
  shows "\<exists>db' w' G'. DB_Open (db_dbname db) options (w\<lparr>faults := []\<rparr>) = (status_OK, Some db', w') \<and>
    readable G' db' w' \<and> db_layer G' db' = L \<and> db_live_key_count db' = of_nat (card (dom (live L)))"
proof -
  have disk: "on_disk (db_dbname db) (w\<lparr>faults := []\<rparr>) L"
    using crash_on_disk [OF assms(1-4)] by simp
  have d: "db_dbname db \<noteq> []" using assms(1) by (simp add: stored_def persistent_def)
  obtain s out w' where op: "DB_Open (db_dbname db) options (w\<lparr>faults := []\<rparr>) = (s, out, w')"
    by (rule prod_cases3)
  note effect = DB_Open_effect [OF op disk assms(5) exists_works_no_faults]
  obtain db' where "ok s" "out = Some db'" "db_live_key_count db' = of_nat (card (dom (live L)))"
    using effect(4) d assms(6) by auto
  moreover obtain G' where "stored G' db' w'" "db_layer G' db' = L"
    using effect(2) calculation(1,2) by auto
  ultimately show ?thesis
    using op DB_Open_ok_status [OF op] by (auto simp: stored_def)
qed

theorem crash_then_open_recovers_witness:
  "\<exists>(db :: db) w db' w' G q. faults w = [] \<and> list_view (db_memtables db) = [[1] \<mapsto> demo_entry q] \<and>
     DB_Open (db_dbname db) default_options w = (status_OK, Some db', w') \<and>
     readable G db' w' \<and> db_layer G db' = [[1] \<mapsto> demo_entry q] \<and> db_live_key_count db' = 1"
proof -
  obtain db w q where db: "faults w = []" "stored [] db w" "logged [] [[1] \<mapsto> demo_entry q] Clean db w"
    "list_view (db_memtables db) = [[1] \<mapsto> demo_entry q]" "mf_tables (db_manifest db) = []"
    by (rule demo_filled) blast
  have "w\<lparr>faults := []\<rparr> = w" using db(1) by simp
  moreover have "card (dom (live [[1] \<mapsto> demo_entry q])) = 1" by (simp add: live_update demo_entry_def) (simp add: live_def)
  ultimately obtain db' w' G where "DB_Open (db_dbname db) default_options w = (status_OK, Some db', w')"
      "readable G db' w'" "db_layer G db' = [[1] \<mapsto> demo_entry q]" "db_live_key_count db' = 1"
    using crash_then_open_recovers [OF db(2,3), of default_options] db(5) by auto
  with db(1,4) show ?thesis by blast
qed

text \<open>C4: Opening a recoverable directory with usable options is safe when calls fail, whichever they are and at whatever step,
  except the \<open>exists\<close> call on the manifest: when \<open>Open\<close> succeeds the store shows exactly the recoverable
  contents, and in every case, also when it gives up half way through the recovery, the directory is as
  recoverable as it was.\<close>

theorem open_keeps_directory_recoverable:
  assumes "DB_Open d options w = (s, out, w')" and "on_disk d w L" and "usable_options options" and "exists_works w"
  shows "on_disk d w' L \<and>
    (if ok s then \<exists>db G. out = Some db \<and> readable G db w' \<and> db_layer G db = L else out = None)"
  using DB_Open_effect [OF assms] by (cases "ok s") (auto simp: stored_def)

theorem open_keeps_directory_recoverable_witness:
  "\<exists>w. on_disk ''db'' w Map.empty \<and>
     on_disk ''db'' (snd (snd (DB_Open ''db'' default_options (w\<lparr>faults := [SysOk, SysOk, SysErr ''EIO'']\<rparr>)))) Map.empty"
proof -
  obtain db w where "empty_store db w" by (rule demo_open)
  then have db: "stored [] db w" "logged [] Map.empty Clean db w" "db_dbname db = ''db''" "mf_tables (db_manifest db) = []"
    by (simp_all add: empty_store_def)
  have disk: "on_disk ''db'' w Map.empty"
    using crash_on_disk [OF db(1,2)] db(3,4) by simp
  let ?w = "w\<lparr>faults := [SysOk, SysOk, SysErr ''EIO'']\<rparr>"
  obtain s out w' where op: "DB_Open ''db'' default_options ?w = (s, out, w')"
    by (rule prod_cases3)
  have "on_disk ''db'' ?w Map.empty" "exists_works ?w"
    using disk by (simp_all add: exists_works_def)
  from open_keeps_directory_recoverable [OF op this(1) default_options_usable(1) this(2)] op disk show ?thesis
    by auto
qed

lemma write_outcome_cases:
  assumes "write_outcome G L g db k e s db' w'"
  shows "\<exists>G' L' g'. stored G' db' w' \<and> logged G' L' g' db' w' \<and>
    (db_layer G' db' = (db_layer G db)(k \<mapsto> e) \<or> \<not> ok s \<and> db_layer G' db' = db_layer G db) \<and>
    (g = Clean \<longrightarrow>
      db_layer G' db' = (db_layer G db)(k \<mapsto> e) \<and> g' = Clean \<and> (L' = L(k \<mapsto> e) \<or> L' = db_layer G' db') \<or>
      \<not> ok s \<and> db_layer G' db' = db_layer G db \<and> g' \<noteq> Broken \<and> (L' = L \<or> L' = L(k \<mapsto> e)))"
proof -
  obtain G' L' g' where "stored G' db' w'" "logged G' L' g' db' w'"
    and "db_layer G' db' = (db_layer G db)(k \<mapsto> e) \<and>
           (L' = L(k \<mapsto> e) \<and> g' = after_ok g \<or> L' = db_layer G' db' \<and> g' = Clean) \<or>
         \<not> ok s \<and> db_layer G' db' = db_layer G db \<and>
           (L' = L \<and> g' = g \<or> L' = L \<and> g' = after_error g \<or> L' = L(k \<mapsto> e) \<and> g' = after_error g)"
    using assms unfolding write_outcome_def by blast
  then show ?thesis by (intro exI [of _ G'] exI [of _ L'] exI [of _ g']) (cases g; simp; elim conjE disjE; simp)
qed

text \<open>C8: A \<open>Put\<close> that returns, while file numbers are left, has been applied as a whole or not at all.  What is read is the old contents
  with the new entry, or, only when it reports an error, the old contents.  What a crash would recover:
  over a log without the remains of a failed append, an applied \<open>Put\<close> leaves such a log, from which the
  entry is recovered with everything else, and a refused one leaves a log that still recovers the old
  contents or those with the new entry.  (Behind the remains of a failed append nothing is promised.)\<close>

theorem put_is_all_or_nothing:
  assumes "DB_Put db k v w = Some (s, db', w')" and "stored G db w" and "logged G L g db w" and "numbers_left 2 db"
  shows "\<exists>q G' L' g'. stored G' db' w' \<and> logged G' L' g' db' w' \<and>
    (let e = \<lparr>me_sequence = q, me_type = kValue, me_value = v\<rparr>; old = db_layer G db; new = db_layer G' db' in
      (new = old(k \<mapsto> e) \<or> \<not> ok s \<and> new = old) \<and>
      (g = Clean \<longrightarrow>
        new = old(k \<mapsto> e) \<and> g' = Clean \<and> (L' = L(k \<mapsto> e) \<or> L' = new) \<or>
        \<not> ok s \<and> new = old \<and> g' \<noteq> Broken \<and> (L' = L \<or> L' = L(k \<mapsto> e))))"
proof -
  obtain q where "write_outcome G L g db k \<lparr>me_sequence = q, me_type = kValue, me_value = v\<rparr> s db' w'"
    using DB_Put_effect [OF assms] ..
  from write_outcome_cases [OF this] show ?thesis unfolding Let_def by (rule exI [where x = q])
qed

theorem put_is_all_or_nothing_witness:
  "\<exists>(db :: db) w db' w' q G' L'. DB_Put db [1] [2] w = Some (status_OK, db', w') \<and>
     db_layer G' db' = [[1] \<mapsto> demo_entry q] \<and> logged G' L' Clean db' w' \<and> L' = [[1] \<mapsto> demo_entry q]"
proof -
  obtain db w where db: "empty_store db w" by (rule demo_open)
  obtain db' w' where put: "DB_Put db [1] [2] w = Some (status_OK, db', w')"
    by (rule demo_put [OF db])
  from put_is_all_or_nothing [OF put empty_store_simps(6,7,4) [OF db]] empty_store_simps(9) [OF db]
  obtain q G' L' where "db_layer G' db' = [[1] \<mapsto> demo_entry q]" "logged G' L' Clean db' w'" "L' = [[1] \<mapsto> demo_entry q]"
    by (auto simp: demo_entry_def Let_def)
  with put show ?thesis by blast
qed

text \<open>The same of a \<open>Delete\<close>, which writes a tombstone.\<close>

theorem delete_is_all_or_nothing:
  assumes "DB_Delete db k w = Some (s, db', w')" and "stored G db w" and "logged G L g db w" and "numbers_left 2 db"
  shows "\<exists>q G' L' g'. stored G' db' w' \<and> logged G' L' g' db' w' \<and>
    (let e = \<lparr>me_sequence = q, me_type = kTombstone, me_value = []\<rparr>; old = db_layer G db; new = db_layer G' db' in
      (new = old(k \<mapsto> e) \<or> \<not> ok s \<and> new = old) \<and>
      (g = Clean \<longrightarrow>
        new = old(k \<mapsto> e) \<and> g' = Clean \<and> (L' = L(k \<mapsto> e) \<or> L' = new) \<or>
        \<not> ok s \<and> new = old \<and> g' \<noteq> Broken \<and> (L' = L \<or> L' = L(k \<mapsto> e))))"
proof -
  obtain q where "write_outcome G L g db k \<lparr>me_sequence = q, me_type = kTombstone, me_value = []\<rparr> s db' w'"
    using DB_Delete_effect [OF assms] ..
  from write_outcome_cases [OF this] show ?thesis unfolding Let_def by (rule exI [where x = q])
qed

text \<open>C9: \<open>Get\<close> on a readable store always returns.  It answers from the merge of the memtables and
  the tables, newest first, or reports an I/O error: it finds the live value of the key and reports
  \<open>NotFound\<close>, leaving the result alone, exactly when there is none.  It changes no file, no table and no
  later answer, and without failing system calls there is no error.\<close>

theorem get_answers_from_merge:
  assumes "readable G db w"
  shows "\<exists>s v' db' w'. DB_Get db k v w = Some (s, v', db', w') \<and> answers (live (db_layer G db) k) v s v' \<and>
    readable G db' w' \<and> db_layer G db' = db_layer G db \<and> files w' = files w \<and>
    (faults w = [] \<longrightarrow> \<not> IsIOError s)"
  using DB_Get_effect [OF assms, of k v] db_layer_same_core [of db _ G]
  by (fastforce simp: answers_def split: option.splits)

theorem get_answers_from_merge_witness:
  "\<exists>(db :: db) w s db' w'. DB_Get db [1] [7] w = Some (s, [7], db', w') \<and> IsNotFound s"
proof -
  obtain db w where db: "empty_store db w" by (rule demo_open)
  obtain s v' db' w' where "DB_Get db [1] [7] w = Some (s, v', db', w')" "IsNotFound s" "v' = [7]"
    using get_answers_from_merge [OF empty_store_simps(5) [OF db], of "[1]" "[7]"] empty_store_simps(8,9) [OF db]
    by (auto simp: answers_def live_def)
  then show ?thesis by blast
qed

text \<open>C11: Without failing system calls a \<open>Put\<close> within the limits of the format that stays below the flush
  threshold is acknowledged, and keeps the live key count equal to the number of keys a reader finds,
  whether the key was new, overwritten or deleted before.\<close>

theorem put_is_acknowledged_and_counted:
  assumes "stored G db w" and "logged G L g db w" and "faults w = []"
    and "within_bounds \<lparr>wr_sequence = db_next_sequence db, wr_type = kPut, wr_key = k, wr_value = v\<rparr>"
    and "log_room db w \<lparr>wr_sequence = db_next_sequence db, wr_type = kPut, wr_key = k, wr_value = v\<rparr>"
    and "below_threshold db (List_Put k v (db_next_sequence db) (db_memtables db))"
    and "db_live_key_count db = of_nat (card (dom (live (db_layer G db))))"
  shows "\<exists>db' w'. DB_Put db k v w = Some (status_OK, db', w') \<and>
    db_live_key_count db' = of_nat (card (dom (live (db_layer G db'))))"
  using DB_Put_acknowledged [OF assms(1-3) refl assms(4-6)] assms(7) by (auto simp: count_exact_def)

theorem put_is_acknowledged_and_counted_witness:
  "\<exists>(db :: db) w db' w'. DB_Put db [1] [2] w = Some (status_OK, db', w')"
proof -
  obtain db w where db: "empty_store db w" by (rule demo_open)
  note start = empty_store_simps [OF db]
  have r: "demo_record db kPut [2] = \<lparr>wr_sequence = db_next_sequence db, wr_type = kPut, wr_key = [1], wr_value = [2]\<rparr>"
    by (simp add: demo_record_def)
  have "within_bounds (demo_record db kPut [2])" "log_room db w (demo_record db kPut [2])"
    using demo_bounds demo_room [OF db] by simp_all
  from put_is_acknowledged_and_counted [OF start(6,7,8) this [unfolded r] demo_below(1) [OF db] start(10)]
  show ?thesis by blast
qed

lemma FlushLocked_empties:
  assumes "FlushLocked db w = Some (s, db', w')" and "stored G db w" and "logged G L g db w"
    and "numbers_left 2 db" and "ok s"
  shows "list_view (db_memtables db') = Map.empty"
proof -
  define db1 where "db1 = (if \<not> MemTable_empty (ml_active (db_memtables db))
    then db\<lparr>db_memtables := Freeze (db_memtables db)\<rparr> else db)"
  have "persistent db" using assms(2) by (simp add: stored_def)
  then have run: "(if ImmutableCount (db_memtables db1) = 0 then Some (status_OK, db1, w)
      else do {(s, db, w) \<leftarrow> flush_rounds db1 w; if \<not> ok s then Some (s, db, w) else Some (rotate_wal db w)}) =
      Some (s, db', w')"
    using assms(1) [unfolded FlushLocked_def Let_def, folded db1_def] by simp
  have one: "stored G db1 w" "logged G L g db1 w" "MemTable_empty (ml_active (db_memtables db1))"
    "unat (db_next_file_number db1) + ImmutableCount (db_memtables db1) + 1 < 2 ^ 64"
    using freeze_active [OF assms(2,3) _ refl] assms(2-4) by (auto simp: db1_def numbers_left_def)
  show ?thesis
  proof (cases "ImmutableCount (db_memtables db1) = 0")
    case True
    with run one(3) empty_list_view show ?thesis by simp
  next
    case False
    obtain s2 db2 w2 where rounds: "flush_rounds db1 w = Some (s2, db2, w2)"
      and rest: "(if \<not> ok s2 then Some (s2, db2, w2) else Some (rotate_wal db2 w2)) = Some (s, db', w')"
      using run False by (auto simp: bind_eq_Some_conv)
    have "ok s2" using rest assms(5) by (auto split: if_splits)
    then obtain G2 where two: "stored G2 db2 w2" "logged G2 L g db2 w2" "ImmutableCount (db_memtables db2) = 0"
      "ml_active (db_memtables db2) = ml_active (db_memtables db1)"
      "mf_next_file_number (db_manifest db2) = db_next_file_number db2"
      "db_current_wal_number db2 < db_next_file_number db2" "unat (db_next_file_number db2) + 1 < 2 ^ 64"
      using flush_rounds_effect [OF rounds one(1,2) _ one(4)] False by blast
    have "list_view (db_memtables db2) = Map.empty" using two(3,4) one(3) by (intro empty_list_view) simp_all
    moreover have "rotate_wal db2 w2 = (s, db', w')" using rest \<open>ok s2\<close> by simp
    ultimately show ?thesis using rotate_wal_effect [OF _ two(1,2) _ two(5-7)] by metis
  qed
qed

text \<open>C10: A \<open>Flush\<close> that returns, successfully or with an error at any point of its work, while file numbers are left, has
  changed no answer of the store.  If it succeeds the memtables are empty and the tables alone hold
  everything the store shows; if moreover there was something to flush, a crash afterwards recovers all
  of it, whatever was wrong with the old log, because the new one is clean.\<close>

theorem flush_keeps_contents:
  assumes "DB_Flush db w = Some (s, db', w')" and "stored G db w" and "logged G L g db w" and "numbers_left 2 db"
  shows "\<exists>G'. stored G' db' w' \<and> db_layer G' db' = db_layer G db \<and>
    (logged G' L g db' w' \<or> logged G' (db_layer G db) Clean db' w') \<and>
    (ok s \<longrightarrow> list_view (db_memtables db') = Map.empty \<and> tables_layer G' = db_layer G db \<and>
      (list_view (db_memtables db) \<noteq> Map.empty \<longrightarrow> logged G' (db_layer G db) Clean db' w'))"
proof -
  note run = assms(1) [unfolded DB_Flush_def]
  obtain rotated where "flushed G L g db db' w' rotated" "ok s \<longrightarrow> list_view (db_memtables db) \<noteq> Map.empty \<longrightarrow> rotated"
    using FlushLocked_effect [OF run assms(2-4)] by blast
  moreover have "ok s \<Longrightarrow> tables_layer G' = db_layer G' db'" for G'
    using FlushLocked_empties [OF run assms(2-4)] by (simp add: db_layer_def)
  ultimately show ?thesis
    using FlushLocked_empties [OF run assms(2-4)] by (fastforce simp: flushed_def split: if_splits)
qed

theorem flush_keeps_contents_witness:
  "\<exists>(db :: db) w db' w' G' q. list_view (db_memtables db) = [[1] \<mapsto> demo_entry q] \<and>
     DB_Flush db w = Some (status_OK, db', w') \<and> stored G' db' w' \<and>
     list_view (db_memtables db') = Map.empty \<and> tables_layer G' = [[1] \<mapsto> demo_entry q]"
proof -
  obtain db w q where db: "faults w = []" "stored [] db w" "logged [] [[1] \<mapsto> demo_entry q] Clean db w"
    "db_layer [] db = [[1] \<mapsto> demo_entry q]" "list_view (db_memtables db) = [[1] \<mapsto> demo_entry q]"
    "db_options db = default_options" "db_next_file_number db = 2" "mf_tables (db_manifest db) = []"
    "mt_table (ml_active (db_memtables db)) = [([1], demo_entry q)]" "ImmutableCount (db_memtables db) = 0"
    by (rule demo_filled)
  let ?p = "SstableFileName (db_dbname db) (db_next_file_number db)"
  let ?w = "w\<lparr>files := (files w)(?p := None)\<rparr>"
  have "ManifestPath (db_dbname db) \<noteq> ?p" using numbered_paths(3) [symmetric] .
  then have st: "stored [] db ?w" and lg: "logged [] [[1] \<mapsto> demo_entry q] Clean db ?w"
    using stored_frame [OF db(2), of ?w] logged_frame [OF db(3), of ?w] by simp_all
  have limits: "unat (op_filter_bits_per_key default_options) < 2 ^ 32 - 64" "0 < unat kMaxTableCount"
    by (simp_all add: default_options_def kMaxTableCount_def)
  obtain db' w' where flush: "DB_Flush db ?w = Some (status_OK, db', w')"
    using flush_one_entry [OF st _ db(9,10)] db(1,6,8) limits by (auto simp: demo_entry_def)
  have "numbers_left 2 db" using db(7,10) by (simp add: numbers_left_def)
  from flush_keeps_contents [OF flush st lg this] db(4)
  obtain G' where "stored G' db' w'" "list_view (db_memtables db') = Map.empty" "tables_layer G' = [[1] \<mapsto> demo_entry q]"
    by auto
  with db(5) flush show ?thesis by blast
qed

text \<open>Opening a directory without a manifest and without log records creates an empty store, or
  fails and leaves the directory fresh or with the manifest of an empty store; without failing system
  calls it succeeds.\<close>

theorem open_fresh_directory:
  assumes "DB_Open d options w = (s, out, w')" and "fresh_dir d w" and "usable_options options"
  shows "(fresh_dir d w' \<or> on_disk d w' Map.empty) \<and>
    (if ok s then \<exists>db. out = Some db \<and> readable [] db w' \<and> db_layer [] db = Map.empty else out = None) \<and>
    (d \<noteq> [] \<and> faults w = [] \<and> batch_allowed options \<longrightarrow> ok s)"
  using DB_Open_fresh [OF assms] by (cases "ok s") (auto simp: stored_def)

theorem open_fresh_directory_witness:
  "\<exists>db w. DB_Open ''db'' default_options empty_world = (status_OK, Some db, w) \<and> readable [] db w"
proof -
  obtain db w where op: "DB_Open ''db'' default_options empty_world = (status_OK, Some db, w)"
    by (rule demo_open)
  from open_fresh_directory [OF op empty_world_fresh(1) default_options_usable(1)] op show ?thesis
    by auto
qed

text \<open>C13: The manifest is published atomically: after any sequence of attempts to save manifests,
  with failures in any of their steps, the directory holds exactly the last one whose \<open>rename\<close>
  happened, which is the one \<open>published\<close> reports, or the old one if none did.\<close>

theorem manifest_publication_is_atomic:
  assumes "saves (SaveManifest d) ms w = (ps, w')" and "manifest_holds d m w"
  shows "manifest_holds d (last_published m ms ps) w'"
  using assms by (rule manifest.saves_hold_last)

theorem manifest_publication_is_atomic_witness:
  "manifest_holds ''db'' (last_published first_manifest [default_manifest]
       (fst (saves (SaveManifest ''db'') [default_manifest]
          \<lparr>files = [ManifestPath ''db'' \<mapsto> EncodeManifest first_manifest []], faults = [SysOk, SysOk, SysErr ''EIO'']\<rparr>)))
     (snd (saves (SaveManifest ''db'') [default_manifest]
          \<lparr>files = [ManifestPath ''db'' \<mapsto> EncodeManifest first_manifest []], faults = [SysOk, SysOk, SysErr ''EIO'']\<rparr>))"
  by (rule manifest_publication_is_atomic) (auto simp: manifest_holds_def)

text \<open>The manifest a log rotation publishes has the number of the new log as its next file
  number: the counter the rotation advanced is not stored, and a store opened from this manifest hands
  the number out again.\<close>

theorem rotation_publishes_stale_counter:
  assumes "rotate_wal db w = (s, db', w')" and "mf_next_file_number (db_manifest db) = db_next_file_number db" and "ok s"
  shows "mf_next_file_number (db_manifest db') = mf_wal_file_number (db_manifest db') \<and>
    manifest_holds (db_dbname db) (db_manifest db') w'"
  using rotation_keeps_next_number [OF assms] by simp

theorem rotation_publishes_stale_counter_witness:
  "\<exists>(db :: db) w db' w'. rotate_wal db w = (status_OK, db', w') \<and>
     mf_next_file_number (db_manifest db') = mf_wal_file_number (db_manifest db')"
proof -
  define db where "db = (new_persistent_db ''db'' default_options)\<lparr>db_next_file_number := 1\<rparr>"
  obtain wr w1 where op: "WalWriter_Open (WalFileName ''db'' 1) kEveryWrite 1 empty_world = (status_OK, Some wr, w1)" "faults w1 = []"
    using WalWriter_Open_no_faults [of empty_world kEveryWrite 1 "WalFileName ''db'' 1"] by auto
  let ?m = "default_manifest\<lparr>mf_wal_file_number := 1\<rparr>"
  obtain w2 where save: "SaveManifest ''db'' ?m w1 = (status_OK, True, w2)"
    using SaveManifest_no_faults [OF op(2), of ?m "''db''"] by (auto simp: default_manifest_def)
  define db' where "db' = snd (rotate_wal db empty_world)"
  have rotate: "rotate_wal db empty_world = (status_OK, fst db', snd db')"
    using op(1) save by (simp add: rotate_wal_def db_def db'_def default_options_def)
  have "mf_next_file_number (db_manifest (fst db')) = mf_wal_file_number (db_manifest (fst db'))"
    using rotation_publishes_stale_counter [OF rotate] by (simp add: db_def default_manifest_def)
  with rotate show ?thesis by blast
qed

text \<open>C39: An append that fails after writing one byte leaves that byte in the log and the writer usable: the
  next \<open>AddRecord\<close> succeeds, and so the record is acknowledged, but a replay of the log stops in front of
  the stray byte with \<open>kCorruption\<close> and delivers only the older records, for every log and every record
  within the limits.\<close>

theorem append_after_torn_append_is_lost:
  assumes "log_sink wr c w" and "clean_log c rs" and "within_bounds r" and "within_bounds r'"
    and "length c + 1 + length (wal_enc r') \<le> max_file_size" and "faults w = [SysShort 1, SysErr m]"
  shows "\<exists>s wr1 w1 wr2 w2 rd w3 rd' w4.
    AddRecord wr r w = (s, wr1, w1) \<and> \<not> ok s \<and>
    AddRecord wr1 r' w1 = (status_OK, wr2, w2) \<and>
    WalReader_Open (fd_path (ww_file wr)) w2 = (status_OK, Some rd, w3) \<and>
    Replay rd w3 = (rs, of_nat (length rs), ReadCorruption, rd', w4)"
proof -
  let ?p = "fd_path (ww_file wr)"
  obtain wr1 w1 where torn: "AddRecord wr r w = (IOError (ErrnoMessage ''write failed'' m), wr1, w1)"
    "log_sink wr1 (c @ [hd (wal_enc r)]) w1" "faults w1 = []" "fd_path (ww_file wr1) = ?p"
    using AddRecord_one_byte [OF assms(1) _ assms(3,6)] assms(5) by auto
  obtain wr2 w2 where app: "AddRecord wr1 r' w1 = (status_OK, wr2, w2)" "faults w2 = []"
    using AddRecord_no_faults [OF assms(4) torn(2,3)] assms(5) by auto
  have on_file: "files w2 ?p = Some (c @ hd (wal_enc r) # wal_enc r')"
    using AddRecord_effect [OF app(1) torn(2)] torn(4) by auto
  have "recoverable (persisted r')" "wal_enc (persisted r') = wal_enc r'"
    using assms(4) by simp_all
  with stray_byte_corrupts [OF assms(2), of "persisted r'" "hd (wal_enc r)"]
  have scan: "log_scan (c @ hd (wal_enc r) # wal_enc r') = (rs, ReadCorruption, length c)" by simp
  note op = WalReader_Open_no_faults [OF app(2) on_file]
  obtain rd' w4 where "Replay \<lparr>wrd_file = \<lparr>fd_path = ?p, fd_append = False, fd_pos = 0\<rparr>, wrd_exhausted = False,
      wrd_terminal_result = ReadEndOfLog, wrd_bytes_consumed = 0\<rparr> w2 = (rs, of_nat (length rs), ReadCorruption, rd', w4)"
    by (rule Replay_scan [OF op app(2) on_file scan])
  moreover have "\<not> ok (IOError (ErrnoMessage ''write failed'' m))" by simp
  ultimately show ?thesis using torn(1) app(1) op by blast
qed

theorem append_after_torn_append_is_lost_witness:
  "\<exists>s wr1 w1 wr2 w2 rd w3 rd' w4.
     AddRecord \<lparr>ww_file = \<lparr>fd_path = ''l'', fd_append = True, fd_pos = 0\<rparr>, ww_policy = kEveryWrite, ww_batch_size = 1,
         ww_records_written = 0, ww_records_since_sync = 0, ww_sync_count = 0\<rparr> \<lparr>wr_sequence = 1, wr_type = kPut, wr_key = [1], wr_value = [2]\<rparr>
       \<lparr>files = [''l'' \<mapsto> []], faults = [SysShort 1, SysErr ''EIO'']\<rparr> = (s, wr1, w1) \<and> \<not> ok s \<and>
     AddRecord wr1 \<lparr>wr_sequence = 2, wr_type = kPut, wr_key = [3], wr_value = [4]\<rparr> w1 = (status_OK, wr2, w2) \<and>
     WalReader_Open ''l'' w2 = (status_OK, Some rd, w3) \<and> Replay rd w3 = ([], 0, ReadCorruption, rd', w4)"
  using append_after_torn_append_is_lost [of "\<lparr>ww_file = \<lparr>fd_path = ''l'', fd_append = True, fd_pos = 0\<rparr>,
      ww_policy = kEveryWrite, ww_batch_size = 1,
      ww_records_written = 0, ww_records_since_sync = 0, ww_sync_count = 0\<rparr>" "[]"
      "\<lparr>files = [''l'' \<mapsto> []], faults = [SysShort 1, SysErr ''EIO'']\<rparr>" "[]"
      "\<lparr>wr_sequence = 1, wr_type = kPut, wr_key = [1], wr_value = [2]\<rparr>"
      "\<lparr>wr_sequence = 2, wr_type = kPut, wr_key = [3], wr_value = [4]\<rparr>" "''EIO''"]
  by (simp add: log_sink_def clean_log_def length_wal_enc recoverable_def within_bounds_def kMaxKeyLength_def
      kMaxValueLength_def max_file_size_def)

text \<open>C40: When the \<open>exists\<close> call on the manifest fails, \<open>Open\<close> takes the store for a new one: whatever
  the directory held, it succeeds with an empty table list and overwrites the manifest.\<close>

theorem exists_error_discards_manifest:
  assumes "faults w = [SysOk, SysErr msg]" and "d \<noteq> []" and "batch_allowed options"
  shows "\<exists>db w'. DB_Open d options w = (status_OK, Some db, w') \<and> mf_tables (db_manifest db) = [] \<and>
    list_view (db_memtables db) = Map.empty \<and> manifest_holds d first_manifest w'"
  using assms by (rule exists_error_forgets)

theorem exists_error_discards_manifest_witness:
  "\<exists>db w'. DB_Open ''db'' default_options
      \<lparr>files = [ManifestPath ''db'' \<mapsto> EncodeManifest default_manifest []], faults = [SysOk, SysErr ''EACCES'']\<rparr> =
     (status_OK, Some db, w') \<and> manifest_holds ''db'' first_manifest w'"
  using exists_error_discards_manifest [of "\<lparr>files = [ManifestPath ''db'' \<mapsto> EncodeManifest default_manifest []],
      faults = [SysOk, SysErr ''EACCES'']\<rparr>" "''EACCES''" "''db''" default_options]
  by auto

text \<open>C12: No operation runs into undefined behaviour, whatever the system calls do: as long as the
  memtables are small enough for their Bloom filters (fewer than \<open>2 ^ 32 - 64\<close> bits), the division by the
  filter's size is defined and every write finds the log writer.\<close>

theorem operations_are_defined:
  assumes "stored G db w" and "logged G L g db w" and "filters_fit db"
  shows "DB_Put db k v w \<noteq> None \<and> DB_Delete db k w \<noteq> None \<and> DB_Get db k v w \<noteq> None \<and> DB_Flush db w \<noteq> None"
proof -
  have "DB_Get db k v w \<noteq> None"
    using DB_Get_effect [of G db w k v] assms(1) by (auto simp: stored_def)
  with DB_Put_defined [OF assms] DB_Delete_defined [OF assms] DB_Flush_defined [OF assms(1,3)] show ?thesis
    by simp
qed

theorem operations_are_defined_witness:
  "\<exists>(db :: db) w. filters_fit db \<and> DB_Put db [1] [2] (w\<lparr>faults := [SysErr ''EIO'']\<rparr>) \<noteq> None"
proof -
  obtain db w where db: "empty_store db w" by (rule demo_open)
  note start = empty_store_simps [OF db]
  have fit: "filters_fit db"
    using db start(1) by (simp add: filters_fit_def filter_fits_def empty_store_def default_options_def ImmutableCount_def)
  have "DB_Put db [1] [2] (w\<lparr>faults := [SysErr ''EIO'']\<rparr>) \<noteq> None"
    using operations_are_defined [OF _ _ fit, of "[]" "w\<lparr>faults := [SysErr ''EIO'']\<rparr>" Map.empty Clean "[1]" "[2]"] start(6,7)
    by simp
  with fit show ?thesis by blast
qed

end
