(* ===== verification/Pebble_Properties.thy ===== *)
theory Pebble_Properties
  imports Pebble_Wal_Cut Pebble_Flush_Live
begin

text \<open>
  The properties of PebbleDB's components, each stated over the definitions of one or two of them
  and proved from their lemmas.
\<close>

text \<open>C28: A lookup through the list of memtables, the active table first and then the frozen ones from
  the newest on, is one lookup in the merge of all the tables in which the newest entry of a key
  wins, tombstones included.\<close>

theorem memtable_list_lookup_is_merge:
  "List_Get l key value sequence = lookup_in (list_view l) key value sequence"
  by (rule List_Get_view)

text \<open>C32: The bounds check of a block handle accepts exactly the handles that lie inside the file, for
  all 64-bit offsets and sizes: the comparison cannot be fooled by wrap-around.\<close>

theorem handle_bounds_check_exact:
  "ok (ValidateHandleInBounds h n what) \<longleftrightarrow> unat (bh_offset h) + unat (bh_size h) \<le> unat n"
  by (rule ValidateHandleInBounds_correct)

text \<open>C23: Writing a memtable to a table file touches no other file; if it fails, it reports an I/O
  error; if it returns a reader, that reader serves a table file on disk whose contents are exactly the
  memtable's entries, tombstones included, together with a filter that covers its keys.\<close>

theorem written_table_holds_memtable:
  assumes "write_table db frozen n w = Some (s, reader, w')" and "memtable_inv frozen" and "within_limits frozen"
  shows "(\<forall>q. q \<noteq> SstableFileName (db_dbname db) n \<longrightarrow> files w' q = files w q) \<and>
    (case reader of
       None \<Rightarrow> IsIOError s
     | Some rd \<Rightarrow> ok s \<and> (\<exists>t. stt_number t = n \<and> open_table (db_dbname db) w' rd t \<and> table_layer t = table_view frozen))"
  using write_table_effect [OF assms] by (auto split: option.split)

theorem written_table_holds_memtable_witness:
  "\<exists>rd w' t. write_table (new_persistent_db ''db'' default_options) (MemTable_Put [1] [2] 5 (new_memtable 0)) 1
      \<lparr>files = Map.empty, faults = []\<rparr> = Some (status_OK, Some rd, w') \<and>
     open_table ''db'' w' rd t \<and> table_layer t = [[1] \<mapsto> \<lparr>me_sequence = 5, me_type = kValue, me_value = [2]\<rparr>]"
proof -
  let ?db = "new_persistent_db ''db'' default_options" and ?t = "MemTable_Put [1] [2] 5 (new_memtable 0)"
  let ?e = "\<lparr>me_sequence = 5, me_type = kValue, me_value = [2]\<rparr>"
  have empty: "memtable_inv (new_memtable 0)" "table_view (new_memtable 0) = Map.empty"
    by (simp_all add: new_memtable_def memtable_inv_def entries_cost_def table_view_def)
  have t: "mt_table ?t = [([1], ?e)]" by (simp add: MemTable_Put_def new_memtable_def)
  have inv: "memtable_inv ?t" "table_view ?t = [[1] \<mapsto> ?e]" using MemTable_Put_inv [OF empty(1)] empty(2) by simp_all
  have limits: "within_limits ?t" by (simp add: within_limits_def t kMaxKeyLength_def kMaxValueLength_def)
  obtain rd w' where run: "write_table ?db ?t 1 \<lparr>files = Map.empty, faults = []\<rparr> = Some (status_OK, Some rd, w')"
    by (rule write_one_entry [OF inv(1) limits t, of "\<lparr>files = Map.empty, faults = []\<rparr>" ?db 1])
      (simp_all add: default_options_def)
  from written_table_holds_memtable [OF run inv(1) limits] run inv(2) show ?thesis by auto
qed

lemma length_PutFixed: "length (PutFixed32 dst v) = length dst + 4" "length (PutFixed64 dst u) = length dst + 8"
  by (simp_all add: PutFixed32_append [of dst] PutFixed64_append [of dst])

text \<open>C24: A table file opened by the reader answers every lookup with the entry the table holds for the
  key: the newest value, the tombstone, or not found when the table has no entry, whatever the filter
  says of the key; the only other outcome is an I/O error.\<close>

theorem table_lookup_is_exact:
  assumes "SstReader_Open path n w = (s, Some rd, w1)" and "files w path = Some c" and "table_file c blocks fltr"
    and "filter_for bits (concat blocks) fltr"
  shows "\<exists>s' out rd' w'. SstReader_Get rd key v q None w1 = Some (s', out, rd', None, w') \<and>
    (if ok s' then out = lookup_in (entries_map (concat blocks)) key v q else IsIOError s') \<and>
    (faults w = [] \<longrightarrow> ok s')"
proof -
  have "ok s" using SstReader_Open_table(3) [OF assms(1-3)] by blast
  with SstReader_Open_table(1,2,4) [OF assms(1-3)] have rd: "reads_table rd path n blocks fltr" "files w1 = files w"
    "faults w = [] \<longrightarrow> w1 = w" by auto
  then have "table_on_disk rd path n blocks fltr w1"
    using assms(2,3) by (auto simp: table_on_disk_def table_file_def)
  from SstReader_Get_table [OF this assms(4), of "[n \<mapsto> blocks]" None key v q] rd(3) show ?thesis
    by (force simp: good_cache_def read_keeps_def)
qed

theorem table_lookup_is_exact_witness:
  "\<exists>rd s' rd' w'. SstReader_Get rd [1] [] 0 None
      \<lparr>files = [''t.sst'' \<mapsto> table_bytes [[\<lparr>se_key = [1], se_sequence = 5, se_type = kValue, se_value = [2]\<rparr>]] []], faults = []\<rparr> =
    Some (s', (kFound, [2], 5), rd', None, w')"
proof -
  let ?blocks = "[[\<lparr>se_key = [1], se_sequence = 5, se_type = kValue, se_value = [2]\<rparr>]]"
  let ?w = "\<lparr>files = [''t.sst'' \<mapsto> table_bytes ?blocks []], faults = []\<rparr>"
  have tf: "table_file (table_bytes ?blocks []) ?blocks []"
    by (simp add: table_file_def well_formed_blocks_def entry_valid_def table_bytes_def data_bytes_def filter_bytes_def
        max_file_size_def index_enc_def entry_enc_def EncodeEntry_def EncodeIndexEntry_def Let_def kFooterSize_def length_PutFixed)
  obtain s out w1 where op: "SstReader_Open ''t.sst'' 7 ?w = (s, out, w1)"
    by (rule prod_cases3)
  have "files ?w ''t.sst'' = Some (table_bytes ?blocks [])" by simp
  note opened = SstReader_Open_table [OF op this tf]
  obtain rd where "out = Some rd" "w1 = ?w" using opened(2,4) by auto
  with op have "SstReader_Open ''t.sst'' 7 ?w = (s, Some rd, ?w)" by simp
  from table_lookup_is_exact [OF this _ tf, of 0 "[1]" "[]" 0] obtain s' rd' w'
    where "SstReader_Get rd [1] [] 0 None ?w = Some (s', (kFound, [2], 5), rd', None, w')"
    by (auto simp: filter_for_def lookup_in_def)
  then show ?thesis by blast
qed

text \<open>C33: A block in which any burst of at most four bytes was changed, in the contents or in the
  compression byte, is refused.\<close>

theorem damaged_blocks_are_refused:
  assumes "c @ [0] = pre @ xs @ suf" and "length xs = length ys" and "length ys \<le> 4" and "xs \<noteq> ys"
  shows "\<exists>e. VerifyAndStripBlockTrailer (pre @ ys @ suf @ drop (length c + 1) (fst (FinishBlock c []))) = Inl e \<and>
    e \<in> {SstUnsupportedCompression, SstChecksumMismatch}"
  using damaged_block_refused [OF assms] by (simp add: FinishBlock_layout)

theorem damaged_blocks_are_refused_witness:
  "\<exists>e. VerifyAndStripBlockTrailer ([] @ [9] @ [7, 0] @ drop 3 (fst (FinishBlock [8, 7] []))) = Inl e"
  using damaged_blocks_are_refused [of "[8, 7]" "[]" "[8]" "[7, 0]" "[9]"] by (auto simp: numeral_3_eq_3)

text \<open>C29: The Bloom filter has no false negatives: for every set of keys and every number of bits per
  key for which a filter can be built at all, a key that was added may match.\<close>

theorem bloom_filter_has_no_false_negatives:
  assumes "BuildFilter keys bits_per_key = Some fltr" and "key \<in> set keys"
  shows "KeyMayMatch key fltr = Some True"
  using assms by (rule BuildFilter_no_false_negatives)

theorem bloom_filter_has_no_false_negatives_witness:
  "\<exists>fltr. BuildFilter [[1], [2, 3]] 10 = Some fltr \<and> KeyMayMatch [2, 3] fltr = Some True"
proof -
  obtain fltr where "BuildFilter [[1], [2, 3]] 10 = Some fltr"
    using BuildFilter_total [of "[[1], [2, 3]]" 10] by auto
  with bloom_filter_has_no_false_negatives [OF this, of "[2, 3]"] show ?thesis by simp
qed

text \<open>The CRC-32C the formats rest on detects every error confined to four consecutive bytes,
  wherever they stand.\<close>

theorem crc_detects_bursts:
  assumes "length xs = length ys" and "length ys \<le> 4" and "xs \<noteq> ys"
  shows "Crc32c (pre @ xs @ suf) \<noteq> Crc32c (pre @ ys @ suf)"
  using assms by (rule Crc32c_detects_burst)

theorem crc_detects_bursts_witness: "Crc32c ([1] @ [2, 3] @ [4]) \<noteq> Crc32c ([1] @ [3, 2] @ [4])"
  by (rule crc_detects_bursts) simp_all

text \<open>C30: Inserting into the block cache keeps its invariant: the index finds exactly the nodes of the
  list, and the bytes counted are the bytes held and never above the capacity.  The new block is found
  unless it is larger than the whole cache, and every other block found afterwards was there before.\<close>

theorem cache_insert_keeps_invariant:
  assumes "cache_inv c" and "unat (bc_capacity_bytes c) + length block < 2 ^ 64"
  shows "cache_inv (Cache_Insert f off block c) \<and>
    cache_view (Cache_Insert f off block c) \<subseteq>\<^sub>m (cache_view c)((f, off) \<mapsto> block) \<and>
    (length block \<le> unat (bc_capacity_bytes c) \<longrightarrow> cache_view (Cache_Insert f off block c) (f, off) = Some block)"
  using Cache_Insert_effect [OF assms] by blast

theorem cache_insert_keeps_invariant_witness:
  "cache_inv (Cache_Insert 1 0 [5, 6] (new_block_cache 3)) \<and> cache_view (Cache_Insert 1 0 [5, 6] (new_block_cache 3)) (1, 0) = Some [5, 6]"
  using cache_insert_keeps_invariant [of "new_block_cache 3" "[5, 6]" 1 0]
  by (simp add: new_block_cache_def [of 3, THEN arg_cong [of _ _ bc_capacity_bytes]])

text \<open>C26: Cutting a log file anywhere recovers exactly the records that were completely written in front of
  the cut: a reader opened on the file, on a system that does not fail, delivers them all, counts them
  and nothing else; it ends with \<open>kEndOfLog\<close> when the cut is at a record boundary and with \<open>kTruncated\<close>
  inside a record, never with \<open>kCorruption\<close>, and reports the length of those records as valid.\<close>

theorem cut_log_recovers_prefix:
  assumes "clean_log c rs" and "n \<le> length c" and "files w p = Some (take n c)" and "faults w = []"
  shows "\<exists>k rd rd' w'. k \<le> length rs \<and> length (concat (map wal_enc (take k rs))) \<le> n \<and>
    (k < length rs \<longrightarrow> n < length (concat (map wal_enc (take (Suc k) rs)))) \<and>
    WalReader_Open p w = (status_OK, Some rd, w) \<and>
    Replay rd w = (take k rs, of_nat k,
      if length (concat (map wal_enc (take k rs))) = n then ReadEndOfLog else ReadTruncated, rd', w') \<and>
    valid_prefix_length rd' = of_nat (length (concat (map wal_enc (take k rs))))"
proof -
  obtain k where k: "k \<le> length rs" "length (concat (map wal_enc (take k rs))) \<le> n"
    "k < length rs \<longrightarrow> n < length (concat (map wal_enc (take (Suc k) rs)))"
    and scan: "log_scan (take n c) = (take k rs,
      if length (concat (map wal_enc (take k rs))) = n then ReadEndOfLog else ReadTruncated,
      length (concat (map wal_enc (take k rs))))"
    by (rule cut_log_scan [OF assms(1,2)])
  have "length (take k rs) = k" using k(1) by simp
  moreover note op = WalReader_Open_no_faults [OF assms(4,3)]
  ultimately show ?thesis
    using Replay_scan [OF op assms(4,3) scan] k op by metis
qed

theorem cut_log_recovers_prefix_witness:
  "\<exists>rd rd' w'. Replay rd \<lparr>files = [''l'' \<mapsto> take 40 (wal_enc \<lparr>wr_sequence = 1, wr_type = kPut, wr_key = [1], wr_value = [2]\<rparr> @
      wal_enc \<lparr>wr_sequence = 2, wr_type = kDelete, wr_key = [1], wr_value = []\<rparr>)], faults = []\<rparr> =
     ([\<lparr>wr_sequence = 1, wr_type = kPut, wr_key = [1], wr_value = [2]\<rparr>], 1, ReadTruncated, rd', w')"
proof -
  let ?r = "\<lparr>wr_sequence = 1, wr_type = kPut, wr_key = [1], wr_value = [2]\<rparr>"
  let ?r' = "\<lparr>wr_sequence = 2, wr_type = kDelete, wr_key = [1], wr_value = []\<rparr>"
  define rs where "rs = [?r, ?r']"
  define w where "w = \<lparr>files = [''l'' \<mapsto> take 40 (wal_enc ?r @ wal_enc ?r')], faults = []\<rparr>"
  have rec: "recoverable ?r" "recoverable ?r'"
    by (simp_all add: recoverable_def kMaxKeyLength_def kMaxValueLength_def)
  then have clean: "clean_log (concat (map wal_enc rs)) rs" by (simp add: clean_log_def rs_def)
  have lens: "length (wal_enc ?r) = 28" "length (wal_enc ?r') = 27" "length rs = 2"
    using rec by (simp_all add: length_wal_enc rs_def)
  have on_file: "files w ''l'' = Some (take 40 (concat (map wal_enc rs)))" "faults w = []" "40 \<le> length (concat (map wal_enc rs))"
    using lens by (simp_all add: w_def rs_def)
  obtain k rd rd' w' where k: "k \<le> 2" "length (concat (map wal_enc (take k rs))) \<le> 40"
    "k < 2 \<longrightarrow> 40 < length (concat (map wal_enc (take (Suc k) rs)))"
    and run: "Replay rd w = (take k rs, of_nat k,
      if length (concat (map wal_enc (take k rs))) = 40 then ReadEndOfLog else ReadTruncated, rd', w')"
    using cut_log_recovers_prefix [OF clean on_file(3,1,2)] lens(3) by auto
  consider "k = 0" | "k = 1" | "k = 2" using k(1) by linarith
  then have "k = 1" by cases (use k(2,3) lens in \<open>simp_all add: rs_def\<close>)
  with run lens have "Replay rd w = ([?r], 1, ReadTruncated, rd', w')" by (simp add: rs_def)
  then show ?thesis unfolding w_def by blast
qed

text \<open>C25: Replaying a log file, with reads that fail, return short or are interrupted: the records
  delivered are a prefix of the records in the file, and either all of them with the reason the scan of
  the file ended, its valid prefix counted in bytes, or a failed read ended the replay with \<open>kCorruption\<close>.\<close>

theorem replay_refines_scan:
  assumes "Replay rd w = (rs, n, t, rd', w')" and "\<not> wrd_exhausted rd"
    and "content w (fd_path (wrd_file rd)) = c" and "log_scan (drop (read_position rd) c) = (all, e, len)"
    and "read_position rd \<le> length c"
  shows "files w' = files w \<and> n = of_nat (length rs) \<and> (\<exists>rest. all = rs @ rest) \<and>
    (rs = all \<and> t = e \<and> valid_prefix_length rd' = valid_prefix_length rd + of_nat len \<or>
     t = ReadCorruption \<and> faults w \<noteq> [])"
  using Replay_refines [OF assms] by blast

theorem replay_refines_scan_witness:
  "\<exists>rd' w'. Replay \<lparr>wrd_file = \<lparr>fd_path = ''l'', fd_append = False, fd_pos = 0\<rparr>, wrd_exhausted = False,
       wrd_terminal_result = ReadEndOfLog, wrd_bytes_consumed = 0\<rparr>
     \<lparr>files = [''l'' \<mapsto> wal_enc \<lparr>wr_sequence = 1, wr_type = kPut, wr_key = [1], wr_value = [2]\<rparr>], faults = []\<rparr> =
     ([\<lparr>wr_sequence = 1, wr_type = kPut, wr_key = [1], wr_value = [2]\<rparr>], 1, ReadEndOfLog, rd', w')"
proof -
  let ?r = "\<lparr>wr_sequence = 1, wr_type = kPut, wr_key = [1], wr_value = [2]\<rparr>"
  let ?rd = "\<lparr>wrd_file = \<lparr>fd_path = ''l'', fd_append = False, fd_pos = 0\<rparr>, wrd_exhausted = False,
       wrd_terminal_result = ReadEndOfLog, wrd_bytes_consumed = 0\<rparr>"
  let ?w = "\<lparr>files = [''l'' \<mapsto> wal_enc ?r], faults = []\<rparr>"
  have "clean_log (wal_enc ?r) [?r]"
    by (simp add: clean_log_def recoverable_def kMaxKeyLength_def kMaxValueLength_def)
  then have scan: "log_scan (drop (read_position ?rd) (wal_enc ?r)) = ([?r], ReadEndOfLog, length (wal_enc ?r))"
    by (simp add: read_position_def clean_log_scan)
  obtain rs n t rd' w' where run: "Replay ?rd ?w = (rs, n, t, rd', w')"
    by (rule prod_cases5)
  from replay_refines_scan [OF this _ _ scan] have "rs = [?r]" "n = of_nat (length rs)" "t = ReadEndOfLog"
    by (simp_all add: read_position_def)
  with run show ?thesis by simp
qed

text \<open>C27: Whatever the system does to an \<open>AddRecord\<close>, the log ends up with its old bytes and a prefix
  of the record's encoding behind them, the whole encoding when \<open>AddRecord\<close> succeeds; a record out of
  bounds is refused before the file is touched.\<close>

theorem add_record_appends_prefix:
  assumes "AddRecord wr r w = (s, wr', w')" and "log_sink wr c w"
  shows "\<exists>n \<le> length (wal_enc r). files w' = (files w)(fd_path (ww_file wr) \<mapsto> c @ take n (wal_enc r)) \<and>
    log_sink wr' (c @ take n (wal_enc r)) w' \<and> (ok s \<longrightarrow> within_bounds r \<and> n = length (wal_enc r)) \<and>
    (\<not> within_bounds r \<longrightarrow> n = 0 \<and> wr' = wr \<and> w' = w)"
  using AddRecord_effect [OF assms] by blast

theorem add_record_appends_prefix_witness:
  "\<exists>s wr' w' n. AddRecord \<lparr>ww_file = \<lparr>fd_path = ''l'', fd_append = True, fd_pos = 0\<rparr>, ww_policy = kEveryWrite, ww_batch_size = 1,
       ww_records_written = 0, ww_records_since_sync = 0, ww_sync_count = 0\<rparr>
     \<lparr>wr_sequence = 1, wr_type = kPut, wr_key = [1], wr_value = [2]\<rparr>
     \<lparr>files = [''l'' \<mapsto> []], faults = [SysShort 3, SysErr ''ENOSPC'']\<rparr> = (s, wr', w') \<and>
     files w' ''l'' = Some (take n (wal_enc \<lparr>wr_sequence = 1, wr_type = kPut, wr_key = [1], wr_value = [2]\<rparr>))"
proof -
  let ?wr = "\<lparr>ww_file = \<lparr>fd_path = ''l'', fd_append = True, fd_pos = 0\<rparr>, ww_policy = kEveryWrite, ww_batch_size = 1,
       ww_records_written = 0, ww_records_since_sync = 0, ww_sync_count = 0\<rparr>"
  let ?r = "\<lparr>wr_sequence = 1, wr_type = kPut, wr_key = [1], wr_value = [2]\<rparr>"
  let ?w = "\<lparr>files = [''l'' \<mapsto> []], faults = [SysShort 3, SysErr ''ENOSPC'']\<rparr>"
  obtain s wr' w' where run: "AddRecord ?wr ?r ?w = (s, wr', w')"
    by (rule prod_cases3)
  have "log_sink ?wr [] ?w" by (simp add: log_sink_def)
  from add_record_appends_prefix [OF run this] obtain n
    where "files w' = (files ?w)(fd_path (ww_file ?wr) \<mapsto> [] @ take n (wal_enc ?r))"
    by blast
  then have "files w' ''l'' = Some (take n (wal_enc ?r))"
    by simp
  with run show ?thesis by blast
qed

text \<open>The counter behind the sync policy: after a successful \<open>AddRecord\<close> it is zero under \<open>kEveryWrite\<close> and
  below a batch under \<open>kBatched\<close>.  (The model of the file system does not tell synced from unsynced bytes.)\<close>

theorem sync_policy_bounds_counter:
  assumes "AddRecord wr r w = (s, wr', w')" and "ok s"
  shows "(ww_policy wr = kEveryWrite \<longrightarrow> ww_records_since_sync wr' = 0) \<and>
    (ww_policy wr = kBatched \<longrightarrow> ww_batch_size wr \<noteq> 0 \<longrightarrow> ww_records_since_sync wr' < ww_batch_size wr)"
  using AddRecord_sync_policy [OF assms] by blast

theorem sync_policy_bounds_counter_witness:
  "\<exists>wr' w'. AddRecord \<lparr>ww_file = \<lparr>fd_path = ''l'', fd_append = True, fd_pos = 0\<rparr>, ww_policy = kEveryWrite, ww_batch_size = 1,
       ww_records_written = 0, ww_records_since_sync = 0, ww_sync_count = 0\<rparr>
     \<lparr>wr_sequence = 1, wr_type = kPut, wr_key = [1], wr_value = [2]\<rparr> \<lparr>files = [''l'' \<mapsto> []], faults = []\<rparr> =
     (status_OK, wr', w') \<and> ww_records_since_sync wr' = 0"
proof -
  let ?wr = "\<lparr>ww_file = \<lparr>fd_path = ''l'', fd_append = True, fd_pos = 0\<rparr>, ww_policy = kEveryWrite, ww_batch_size = 1,
       ww_records_written = 0, ww_records_since_sync = 0, ww_sync_count = 0\<rparr>"
  let ?r = "\<lparr>wr_sequence = 1, wr_type = kPut, wr_key = [1], wr_value = [2]\<rparr>"
  have "within_bounds ?r" by (simp add: within_bounds_def kMaxKeyLength_def kMaxValueLength_def)
  from AddRecord_no_faults [OF this, of ?wr "[]" "\<lparr>files = [''l'' \<mapsto> []], faults = []\<rparr>"]
  obtain wr' w' where "AddRecord ?wr ?r \<lparr>files = [''l'' \<mapsto> []], faults = []\<rparr> = (status_OK, wr', w')"
    by (auto simp: log_sink_def length_wal_enc recoverable_def kMaxKeyLength_def kMaxValueLength_def max_file_size_def)
  with sync_policy_bounds_counter [OF this] show ?thesis by simp
qed

text \<open>C31: A manifest is read back as it was written, up to the largest table count it can hold, and
  after any change of at most four consecutive bytes it is refused.\<close>

theorem manifest_is_read_back_or_refused:
  assumes "length (mf_tables m) \<le> unat kMaxTableCount" and "EncodeManifest m [] = pre @ xs @ suf"
    and "length xs = length ys" and "length ys \<le> 4"
  shows "if xs = ys then DecodeManifest (pre @ ys @ suf) = Inr m else \<exists>e. DecodeManifest (pre @ ys @ suf) = Inl e"
  using DecodeManifest_EncodeManifest [OF assms(1)] damaged_manifest_refused [OF assms(2,1,3,4)] assms(2) by auto

theorem manifest_is_read_back_or_refused_witness:
  "\<exists>e. DecodeManifest ([hd (EncodeManifest default_manifest []) + 1] @ tl (EncodeManifest default_manifest [])) = Inl e"
proof -
  let ?m = "EncodeManifest default_manifest []"
  have "?m \<noteq> []" by (simp add: EncodeManifest_layout manifest_body_layout)
  then have "?m = [] @ [hd ?m] @ tl ?m" by simp
  from manifest_is_read_back_or_refused [OF _ this, of "[hd ?m + 1]"] show ?thesis
    by (simp add: default_manifest_def)
qed

end
