(* ===== verification/Arc_Text.thy ===== *)
theory Arc_Text
  imports Pebble_Filenames "HOL-Library.Sublist"
begin

text \<open>
  What the components of ArcServe share.  A \<open>std::string\<close> or \<open>std::string_view\<close> of the protocol code
  is a \<open>string\<close> (a list of 8-bit characters); \<open>std::size_t\<close> values are natural numbers, and every
  subtraction the code makes on them is \<open>size_minus\<close>, which wraps as the 64-bit type does.  The
  scans of the protocol code (\<open>find\<close> of a character and of CR LF, trimming, \<open>std::from_chars\<close>,
  \<open>std::tolower\<close> in the C locale) are here with the lemmas that describe them by a split of their
  input.
\<close>

named_theorems scan_simps \<open>the scans on the shapes the parser meets\<close>

subsection \<open>Arithmetic on \<open>std::size_t\<close>\<close>

definition size_minus :: "nat \<Rightarrow> nat \<Rightarrow> nat" where
  "size_minus a b = (a + 2 ^ 64 - b) mod 2 ^ 64"

lemma size_minus_le: "b \<le> a \<Longrightarrow> a < 2 ^ 64 \<Longrightarrow> size_minus a b = a - b"
  by (simp add: size_minus_def Nat.add_diff_assoc2 [symmetric] del: Nat.add_diff_assoc2)

subsection \<open>Characters\<close>

definition CR :: char where "CR = CHR 0x0D"
definition LF :: char where "LF = CHR 0x0A"
definition CRLF :: string where "CRLF = [CR, LF]"
definition TAB :: char where "TAB = CHR 0x09"

lemma CR_LF [simp]: "CR \<noteq> LF" "LF \<noteq> CR"
  by (simp_all add: CR_def LF_def)

text \<open>\<open>std::tolower\<close> on an \<open>unsigned char\<close> in the C locale, which the program never leaves.\<close>

definition tolower :: "char \<Rightarrow> char" where
  "tolower c = (if 65 \<le> (of_char c :: nat) \<and> (of_char c :: nat) \<le> 90
                then char_of ((of_char c :: nat) + 32) else c)"

definition is_digit :: "char \<Rightarrow> bool" where
  "is_digit c \<longleftrightarrow> 48 \<le> (of_char c :: nat) \<and> (of_char c :: nat) \<le> 57"

subsection \<open>Scans\<close>

text \<open>\<open>std::string_view::find\<close> of one character and of the two bytes CR LF: the first position.\<close>

fun find_char :: "char \<Rightarrow> string \<Rightarrow> nat option" where
  "find_char c [] = None"
| "find_char c (x # xs) = (if x = c then Some 0 else map_option Suc (find_char c xs))"

fun find_crlf :: "string \<Rightarrow> nat option" where
  "find_crlf (x # y # xs) =
     (if x = CR \<and> y = LF then Some 0 else map_option Suc (find_crlf (y # xs)))"
| "find_crlf xs = None"

definition is_space :: "char \<Rightarrow> bool" where
  "is_space c \<longleftrightarrow> c = CHR '' '' \<or> c = TAB"

text \<open>The two loops that drop leading and trailing spaces and tabs.\<close>

definition trim :: "string \<Rightarrow> string" where
  "trim s = rev (dropWhile is_space (rev (dropWhile is_space s)))"

text \<open>
  \<open>std::from_chars\<close> with base 10: the longest run of digits, an error when it is empty or its value
  does not fit; otherwise the value and the text from \<open>ptr\<close> on.  The signed overload also takes one
  leading minus sign.
\<close>

datatype from_chars_error = InvalidArgument | ResultOutOfRange

definition from_chars_unsigned :: "nat \<Rightarrow> string \<Rightarrow> from_chars_error + (nat \<times> string)" where
  "from_chars_unsigned max_value s =
     (let digits = takeWhile is_digit s in
      if digits = [] then Inl InvalidArgument
      else if max_value < digits_value digits then Inl ResultOutOfRange
      else Inr (digits_value digits, dropWhile is_digit s))"

definition from_chars_int :: "string \<Rightarrow> from_chars_error + (int \<times> string)" where
  "from_chars_int s =
     (let negative = s \<noteq> [] \<and> hd s = CHR ''-'';
          unsigned = (if negative then tl s else s);
          digits = takeWhile is_digit unsigned;
          number = (if negative then - int (digits_value digits) else int (digits_value digits)) in
      if digits = [] then Inl InvalidArgument
      else if number < - (2 ^ 31) \<or> 2 ^ 31 \<le> number then Inl ResultOutOfRange
      else Inr (number, dropWhile is_digit unsigned))"

subsection \<open>The scans as splits of their input\<close>

lemma find_char_None: "find_char c s = None \<longleftrightarrow> c \<notin> set s"
  by (induction s) auto

lemma find_char_append: "c \<notin> set s \<Longrightarrow> find_char c (s @ c # t) = Some (length s)"
  by (induction s) auto

lemma find_char_Some:
  "find_char c s = Some k \<Longrightarrow> k < length s \<and> s ! k = c \<and> c \<notin> set (take k s)"
proof (induction s arbitrary: k)
  case (Cons x s)
  then show ?case
    by (auto split: if_splits)
qed simp

lemma find_char_SomeE:
  assumes "find_char c s = Some k"
  obtains a b where "s = a @ c # b" "c \<notin> set a" "k = length a"
  using find_char_Some [OF assms] id_take_nth_drop [of k s] by (metis length_take less_imp_le_nat min.absorb2)

text \<open>No CR LF inside: the text a line may hold.\<close>

abbreviation crlf_free :: "string \<Rightarrow> bool" where
  "crlf_free s \<equiv> find_crlf s = None"

lemma crlf_free_Nil [simp]: "crlf_free []" "crlf_free [x]"
  by simp_all

lemma find_crlf_Cons:
  "find_crlf (x # xs) =
     (if x = CR \<and> xs \<noteq> [] \<and> hd xs = LF then Some 0 else map_option Suc (find_crlf xs))"
  by (cases xs) auto

lemma find_crlf_terminated:
  "crlf_free (s @ [CR]) \<Longrightarrow> find_crlf (s @ CR # LF # t) = Some (length s)"
  by (induction s) (auto simp: find_crlf_Cons hd_append split: if_splits)

lemma crlf_free_CR: "crlf_free s \<Longrightarrow> crlf_free (s @ [CR])"
  by (induction s) (auto simp: find_crlf_Cons hd_append split: if_splits)

lemma find_crlf_line [scan_simps]: "crlf_free s \<Longrightarrow> find_crlf (s @ CR # LF # t) = Some (length s)"
  by (rule find_crlf_terminated [OF crlf_free_CR])

lemma find_crlf_SomeE:
  assumes "find_crlf s = Some k"
  obtains a b where "s = a @ CR # LF # b" "crlf_free a" "k = length a"
proof -
  from assms have "\<exists>a b. s = a @ CR # LF # b \<and> crlf_free a \<and> k = length a"
  proof (induction s arbitrary: k)
    case (Cons x s)
    show ?case
    proof (cases "x = CR \<and> s \<noteq> [] \<and> hd s = LF")
      case True
      with Cons.prems have "x # s = [] @ CR # LF # tl s \<and> k = length ([] :: string)"
        by (cases s) (simp_all add: find_crlf_Cons)
      then show ?thesis
        using crlf_free_Nil(1) by blast
    next
      case False
      with Cons.prems obtain j where "find_crlf s = Some j" "k = Suc j"
        by (auto simp: find_crlf_Cons)
      with Cons.IH obtain a b where "s = a @ CR # LF # b" "crlf_free a" "j = length a"
        by blast
      with False \<open>k = Suc j\<close> have "x # s = (x # a) @ CR # LF # b \<and> crlf_free (x # a) \<and> k = length (x # a)"
        by (auto simp: find_crlf_Cons hd_append split: if_splits)
      then show ?thesis
        by blast
    qed
  qed simp
  then show thesis
    using that by blast
qed

text \<open>Joining two pieces: a CR LF inside either, or a CR that ends one and a LF that starts the next.\<close>

lemma find_crlf_append_Some: "find_crlf s = Some k \<Longrightarrow> find_crlf (s @ t) = Some k"
  by (induction s arbitrary: k) (auto simp: find_crlf_Cons hd_append split: if_splits)

lemma crlf_free_append_iff:
  "crlf_free (s @ t) \<longleftrightarrow>
     crlf_free s \<and> crlf_free t \<and> \<not> (s \<noteq> [] \<and> last s = CR \<and> t \<noteq> [] \<and> hd t = LF)"
  by (induction s) (auto simp: find_crlf_Cons hd_append split: if_splits)

lemma find_crlf_append:
  assumes "crlf_free s"
  shows "find_crlf (s @ t) =
    (if s \<noteq> [] \<and> last s = CR \<and> t \<noteq> [] \<and> hd t = LF then Some (length s - 1)
     else map_option (\<lambda>k. length s + k) (find_crlf t))"
  using assms
proof (induction s)
  case (Cons x s)
  then have head: "\<not> (x = CR \<and> s \<noteq> [] \<and> hd s = LF)" and "crlf_free s"
    by (auto simp: find_crlf_Cons split: if_splits)
  note IH = Cons.IH [OF this(2)]
  show ?case
  proof (cases "s = []")
    case True
    then show ?thesis
      by (auto simp: find_crlf_Cons [of x t])
  next
    case False
    with head IH show ?thesis
      by (cases "find_crlf t") (auto simp: find_crlf_Cons [of x "s @ t"] Suc_diff_Suc)
  qed
next
  case Nil
  show ?case by (cases "find_crlf t") simp_all
qed

lemma crlf_free_no_CR: "CR \<notin> set s \<Longrightarrow> crlf_free s"
  by (induction s) (auto simp: find_crlf_Cons)

lemma find_crlf_less: "find_crlf s = Some k \<Longrightarrow> k + 2 \<le> length s"
  by (erule find_crlf_SomeE) simp

subsection \<open>Trimming and digits\<close>

lemma dropWhile_unchanged: "t \<noteq> [] \<Longrightarrow> \<not> P (hd t) \<Longrightarrow> dropWhile P t = t"
  by (cases t) simp_all

lemma trim_id: "s = [] \<or> \<not> is_space (hd s) \<and> \<not> is_space (last s) \<Longrightarrow> trim s = s"
  by (cases "s = []") (simp_all add: trim_def dropWhile_unchanged hd_rev)

lemma trim_ends:
  "trim s = [] \<or> \<not> is_space (hd (trim s)) \<and> \<not> is_space (last (trim s))"
proof (cases "trim s = []")
  case False
  define t where "t = dropWhile is_space s"
  have eq: "trim s = rev (dropWhile is_space (rev t))"
    by (simp add: trim_def t_def)
  have "t \<noteq> []"
    using False eq by auto
  then have first: "\<not> is_space (hd t)"
    unfolding t_def by (simp add: hd_dropWhile)
  obtain u where u: "t = rev (dropWhile is_space (rev t)) @ u"
    by (metis rev_append rev_rev_ident takeWhile_dropWhile_id)
  have "hd (trim s) = hd t"
    using False eq u by (metis hd_append2)
  moreover have "\<not> is_space (last (trim s))"
    using False eq by (simp add: last_rev hd_dropWhile)
  ultimately show ?thesis
    using first by simp
qed simp

lemma set_trim: "set (trim s) \<subseteq> set s"
  by (auto simp: trim_def dest!: set_dropWhileD)

lemma trim_padded:
  assumes "\<forall>c\<in>set p. is_space c" "trim s = s"
  shows "trim (p @ s) = s"
  using assms by (simp add: trim_def dropWhile_append)

lemma is_digit_char: "(d :: nat) < 10 \<Longrightarrow> is_digit (char_of (48 + d))"
  by (simp add: is_digit_def of_char_digit)

lemma digits_decimal: "\<forall>c\<in>set (decimal n). is_digit c"
proof (induction n rule: decimal.induct)
  case (1 n)
  show ?case
  proof (cases "n < 10")
    case False
    with 1 have "\<forall>c\<in>set (decimal (n div 10)). is_digit c"
      by simp
    with False show ?thesis
      by (simp add: decimal.simps [of n] is_digit_char)
  qed (simp add: decimal.simps [of n] is_digit_char)
qed

lemma decimal_not_Nil [simp]: "decimal n \<noteq> []"
  by (simp add: decimal.simps [of n])

lemma from_chars_decimal:
  assumes fits: "n \<le> max_value"
  shows "from_chars_unsigned max_value (decimal n) = Inr (n, [])"
proof -
  have digits: "takeWhile is_digit (decimal n) = decimal n" "dropWhile is_digit (decimal n) = []"
    using digits_decimal by (auto simp: takeWhile_eq_all_conv dropWhile_eq_Nil_conv)
  show ?thesis
    unfolding from_chars_unsigned_def digits Let_def digits_value_decimal using fits by simp
qed

end
