(* ===== verification/Arc_Message.thy ===== *)
theory Arc_Message
  imports Arc_Text
begin

text \<open>
  The messages of ArcServe's HTTP/1.1 subset (protocol/http_message.hpp, protocol/http_message.cpp)
  and the default route (server/default_handlers.cpp).  A header list is a list of pairs in wire
  order; a lookup is case insensitive and takes the first match.  The lemmas describe lookups on
  appended headers, give the wire form of a response as lines and a body, and show that the reply of
  the default route repeats nothing of the request but a header value and the body.
\<close>

subsection \<open>Requests and responses\<close>

datatype HttpMethod = kGet | kPost

type_synonym HeaderList = "(string \<times> string) list"

record HttpRequest =
  req_method :: HttpMethod
  req_target :: string
  req_version :: string
  req_headers :: HeaderList
  req_body :: string

record HttpResponse =
  status_code :: int
  reason_phrase :: string
  resp_headers :: HeaderList
  resp_body :: string
  resp_keep_alive :: bool

definition default_request :: HttpRequest where
  "default_request =
     \<lparr>req_method = kGet, req_target = [], req_version = [], req_headers = [], req_body = []\<rparr>"

definition default_response :: HttpResponse where
  "default_response =
     \<lparr>status_code = 200, reason_phrase = ''OK'', resp_headers = [], resp_body = [],
      resp_keep_alive = True\<rparr>"

fun method_to_string :: "HttpMethod \<Rightarrow> string" where
  "method_to_string kGet = ''GET''"
| "method_to_string kPost = ''POST''"

definition ascii_case_insensitive_equals :: "string \<Rightarrow> string \<Rightarrow> bool" where
  "ascii_case_insensitive_equals a b \<longleftrightarrow>
     length a = length b \<and> list_all2 (\<lambda>lhs rhs. tolower lhs = tolower rhs) a b"

fun find_header :: "HeaderList \<Rightarrow> string \<Rightarrow> string option" where
  "find_header [] name = None"
| "find_header ((key, val) # rest) name =
     (if ascii_case_insensitive_equals key name then Some val else find_header rest name)"

definition HttpRequest_keep_alive :: "HttpRequest \<Rightarrow> bool" where
  "HttpRequest_keep_alive request =
     (case find_header (req_headers request) ''Connection'' of
        Some connection \<Rightarrow> \<not> ascii_case_insensitive_equals connection ''close''
      | None \<Rightarrow> True)"

definition int_to_string :: "int \<Rightarrow> string" where
  "int_to_string i = (if i < 0 then ''-'' @ decimal (nat (- i)) else decimal (nat i))"

fun serialize_headers :: "HeaderList \<Rightarrow> string" where
  "serialize_headers [] = []"
| "serialize_headers ((key, val) # rest) = key @ '': '' @ val @ CRLF @ serialize_headers rest"

definition serialize :: "HttpResponse \<Rightarrow> string" where
  "serialize response =
     ''HTTP/1.1 '' @ int_to_string (status_code response) @ '' '' @ reason_phrase response @ CRLF @
     serialize_headers (resp_headers response) @
     ''Content-Length: '' @ decimal (length (resp_body response)) @ CRLF @
     ''Connection: '' @ (if resp_keep_alive response then ''keep-alive'' else ''close'') @
     CRLF @ CRLF @
     resp_body response"

definition make_error_response :: "int \<Rightarrow> string \<Rightarrow> string \<Rightarrow> bool \<Rightarrow> HttpResponse" where
  "make_error_response code phrase body_text keep =
     (let response = default_response;
          response = response\<lparr>status_code := code\<rparr>;
          response = response\<lparr>reason_phrase := phrase\<rparr>;
          response = response\<lparr>resp_body := body_text\<rparr>;
          response = response\<lparr>resp_keep_alive := keep\<rparr> in
      response\<lparr>resp_headers := resp_headers response @ [(''Content-Type'', ''text/plain'')]\<rparr>)"

text \<open>A request handler (server/request_handler.hpp) is a function of the parsed request.\<close>

type_synonym RequestHandler = "HttpRequest \<Rightarrow> HttpResponse"

definition default_route :: RequestHandler where
  "default_route request =
     (if req_method request = kGet \<and> req_target request = ''/'' then
        default_response\<lparr>status_code := 200, reason_phrase := ''OK'',
          resp_headers := [(''Content-Type'', ''text/plain'')],
          resp_body := ''ArcServe Phase 1 blocking server is alive.'' @ [LF]\<rparr>
      else if req_method request = kPost \<and> req_target request = ''/echo'' then
        (let content_type = find_header (req_headers request) ''Content-Type'' in
         default_response\<lparr>status_code := 200, reason_phrase := ''OK'',
           resp_headers := [(''Content-Type'',
             case content_type of Some val \<Rightarrow> val | None \<Rightarrow> ''text/plain'')],
           resp_body := req_body request\<rparr>)
      else make_error_response 404 ''Not Found'' (''no such route'' @ [LF]) True)"

subsection \<open>Case-insensitive comparison is an equivalence\<close>

lemma case_insensitive_refl [simp]: "ascii_case_insensitive_equals a a"
  by (simp add: ascii_case_insensitive_equals_def list.rel_refl)

lemma case_insensitive_map:
  "ascii_case_insensitive_equals a b \<longleftrightarrow> map tolower a = map tolower b"
proof -
  have "list_all2 (\<lambda>x y. tolower x = tolower y) a b \<longleftrightarrow> map tolower a = map tolower b"
    by (simp add: list.rel_eq [symmetric] list_all2_map1 list_all2_map2)
  then show ?thesis
    by (auto simp: ascii_case_insensitive_equals_def dest: map_eq_imp_length_eq)
qed

lemma case_insensitive_sym:
  "ascii_case_insensitive_equals a b = ascii_case_insensitive_equals b a"
  by (auto simp: case_insensitive_map)

lemma case_insensitive_trans:
  "ascii_case_insensitive_equals a b \<Longrightarrow> ascii_case_insensitive_equals b c \<Longrightarrow>
   ascii_case_insensitive_equals a c"
  by (simp add: case_insensitive_map)

subsection \<open>Lookups\<close>

lemma find_header_append:
  "find_header (hs @ hs') name =
     (case find_header hs name of Some v \<Rightarrow> Some v | None \<Rightarrow> find_header hs' name)"
  by (induction hs name rule: find_header.induct) auto

lemma find_header_None:
  "find_header hs name = None \<longleftrightarrow>
     (\<forall>(key, val)\<in>set hs. \<not> ascii_case_insensitive_equals key name)"
  by (induction hs name rule: find_header.induct) auto

lemma find_header_SomeD:
  "find_header hs name = Some v \<Longrightarrow>
     \<exists>key. (key, v) \<in> set hs \<and> ascii_case_insensitive_equals key name"
  by (induction hs name rule: find_header.induct) (auto split: if_splits)

lemma find_header_cong:
  "ascii_case_insensitive_equals name name' \<Longrightarrow> find_header hs name = find_header hs name'"
  by (induction hs name rule: find_header.induct) (auto simp: case_insensitive_map)

subsection \<open>Responses on the wire\<close>

definition clean_text :: "string \<Rightarrow> bool" where
  "clean_text s \<longleftrightarrow> CR \<notin> set s \<and> LF \<notin> set s"

definition response_lines :: "HttpResponse \<Rightarrow> string list" where
  "response_lines response =
     (''HTTP/1.1 '' @ int_to_string (status_code response) @ '' '' @ reason_phrase response)
     # map (\<lambda>(key, val). key @ '': '' @ val) (resp_headers response)
     @ [''Content-Length: '' @ decimal (length (resp_body response)),
        ''Connection: '' @ (if resp_keep_alive response then ''keep-alive'' else ''close'')]"

lemma serialize_headers_lines:
  "serialize_headers hs = concat (map (\<lambda>(key, val). key @ '': '' @ val @ CRLF) hs)"
  by (induction hs rule: serialize_headers.induct) auto

lemma serialize_lines:
  "serialize response =
     concat (map (\<lambda>line. line @ CRLF) (response_lines response)) @ CRLF @ resp_body response"
  by (simp add: serialize_def response_lines_def serialize_headers_lines comp_def case_prod_beta')

lemma serialize_not_Nil [simp]: "serialize response \<noteq> []"
  by (simp add: serialize_def)

lemma make_error_response_fields [simp]:
  "status_code (make_error_response c p b k) = c"
  "reason_phrase (make_error_response c p b k) = p"
  "resp_headers (make_error_response c p b k) = [(''Content-Type'', ''text/plain'')]"
  "resp_body (make_error_response c p b k) = b"
  "resp_keep_alive (make_error_response c p b k) = k"
  by (simp_all add: make_error_response_def default_response_def)

text \<open>
  A digit string holds no line break, so the lines of a response are the lines its own fields make,
  and a client that splits the head at CR LF reads them back.
\<close>

lemma clean_digits: "\<forall>c\<in>set s. is_digit c \<Longrightarrow> clean_text s"
  by (auto simp: clean_text_def is_digit_def CR_def LF_def)

lemma clean_append [simp]: "clean_text (a @ b) \<longleftrightarrow> clean_text a \<and> clean_text b"
  by (auto simp: clean_text_def)

lemma clean_Nil [simp]: "clean_text []"
  by (simp add: clean_text_def)

lemma clean_Cons: "clean_text (c # s) \<longleftrightarrow> c \<noteq> CR \<and> c \<noteq> LF \<and> clean_text s"
  by (auto simp: clean_text_def)

lemmas clean_chars = clean_Cons CR_def LF_def

lemma clean_decimal [simp]: "clean_text (decimal n)"
  by (rule clean_digits [OF digits_decimal])

lemma clean_int_to_string [simp]: "clean_text (int_to_string i)"
  by (simp add: int_to_string_def clean_chars)

definition clean_headers :: "HeaderList \<Rightarrow> bool" where
  "clean_headers hs \<longleftrightarrow> (\<forall>(key, val)\<in>set hs. clean_text key \<and> clean_text val)"

lemma clean_headers_simps [simp]:
  "clean_headers []"
  "clean_headers ((key, val) # hs) \<longleftrightarrow> clean_text key \<and> clean_text val \<and> clean_headers hs"
  "clean_headers (hs @ hs') \<longleftrightarrow> clean_headers hs \<and> clean_headers hs'"
  by (auto simp: clean_headers_def)

lemma response_lines_clean:
  assumes "clean_text (reason_phrase response)" "clean_headers (resp_headers response)"
  shows "\<forall>line\<in>set (response_lines response). clean_text line \<and> line \<noteq> []"
  using assms by (auto simp: response_lines_def clean_headers_def clean_chars)

lemma default_route_clean:
  "clean_headers (req_headers request) \<Longrightarrow>
     clean_text (reason_phrase (default_route request)) \<and>
     clean_headers (resp_headers (default_route request))"
  by (auto simp: default_route_def default_response_def clean_headers_def Let_def clean_chars
      dest: find_header_SomeD split: option.splits)

text \<open>A client's reading of the head of a message: the lines up to the first empty one.\<close>

function head_lines :: "string \<Rightarrow> (string list \<times> string) option" where
  "head_lines wire =
     (case find_crlf wire of
        None \<Rightarrow> None
      | Some k \<Rightarrow>
          (if k = 0 then Some ([], drop 2 wire)
           else map_option (\<lambda>(ls, rest). (take k wire # ls, rest)) (head_lines (drop (k + 2) wire))))"
  by pat_completeness auto
termination
  by (relation "measure length") (auto dest: find_crlf_less)

declare head_lines.simps [simp del]

lemma head_lines_end: "head_lines (CRLF @ rest) = Some ([], rest)"
  by (subst head_lines.simps) (simp add: CRLF_def)

lemma head_lines_step:
  assumes "crlf_free line" "line \<noteq> []"
  shows "head_lines (line @ CRLF @ wire) = map_option (\<lambda>(ls, rest). (line # ls, rest)) (head_lines wire)"
  using assms by (subst head_lines.simps) (simp add: CRLF_def scan_simps)

lemma head_lines_concat:
  assumes "\<forall>line\<in>set ls. clean_text line \<and> line \<noteq> []"
  shows "head_lines (concat (map (\<lambda>line. line @ CRLF) ls) @ CRLF @ rest) = Some (ls, rest)"
  using assms
proof (induction ls)
  case (Cons line ls)
  then have "crlf_free line" "line \<noteq> []"
    by (auto simp: clean_text_def intro: crlf_free_no_CR)
  with Cons show ?case
    by (simp add: head_lines_step)
qed (simp add: head_lines_end)

lemma head_lines_serialize:
  assumes "clean_text (reason_phrase response)" "clean_headers (resp_headers response)"
  shows "head_lines (serialize response) = Some (response_lines response, resp_body response)"
  unfolding serialize_lines by (rule head_lines_concat [OF response_lines_clean [OF assms]])

end
