(* ===== verification/Arc_Parser.thy ===== *)
theory Arc_Parser
  imports Arc_Message
begin

text \<open>
  The incremental request parser (protocol/http_parser.hpp, protocol/http_parser.cpp).  A parser is a
  record of the class's fields; a call takes the parser and the view it consumes from and returns the
  outcome, the parser and the rest of the view.  \<open>feed\<close> dispatches on the state until a step needs
  more bytes, fails or finishes the request.
\<close>

datatype ParseStatus = kNeedMoreData | kComplete | kError

datatype State = kRequestLine | kHeaders | kBody | kDone

datatype StepResult = StepNeedMoreData | StepAdvanced | StepFailed

record parser =
  pstate :: State
  line_buffer :: string
  header_bytes_seen :: nat
  content_length :: "nat option"
  request :: HttpRequest
  error_response :: HttpResponse

definition kMaxRequestLineLength :: nat where "kMaxRequestLineLength = 8192"
definition kMaxHeaderBytes :: nat where "kMaxHeaderBytes = 8192"
definition kMaxHeaderCount :: nat where "kMaxHeaderCount = 100"
definition kMaxBodyBytes :: nat where "kMaxBodyBytes = 2 ^ 20"

definition new_parser :: parser where
  "new_parser =
     \<lparr>pstate = kRequestLine, line_buffer = [], header_bytes_seen = 0, content_length = None,
      request = default_request, error_response = default_response\<rparr>"

definition reset :: "parser \<Rightarrow> parser" where
  "reset p =
     p\<lparr>pstate := kRequestLine, line_buffer := [], header_bytes_seen := 0, content_length := None,
       request := default_request, error_response := default_response\<rparr>"

definition fail_step :: "parser \<Rightarrow> int \<Rightarrow> string \<Rightarrow> string \<Rightarrow> StepResult \<times> parser" where
  "fail_step p code phrase body_text =
     (StepFailed,
      p\<lparr>error_response := make_error_response code phrase (body_text @ [LF]) False,
        pstate := kDone\<rparr>)"

subsection \<open>The request line\<close>

definition finish_request_line :: "parser \<Rightarrow> string \<Rightarrow> StepResult \<times> parser" where
  "finish_request_line p line =
     (case find_char CHR '' '' line of
        None \<Rightarrow> fail_step p 400 ''Bad Request'' ''malformed request line''
      | Some first_space \<Rightarrow>
        let method_str = take first_space line;
            rest = drop (first_space + 1) line in
        (case find_char CHR '' '' rest of
           None \<Rightarrow> fail_step p 400 ''Bad Request'' ''malformed request line''
         | Some second_space \<Rightarrow>
           let target = take second_space rest;
               version = drop (second_space + 1) rest in
           if target = [] \<or> version = [] \<or> find_char CHR '' '' target \<noteq> None
           then fail_step p 400 ''Bad Request'' ''malformed request line''
           else if method_str \<noteq> ''GET'' \<and> method_str \<noteq> ''POST''
           then fail_step p 501 ''Not Implemented'' ''unsupported method''
           else
             let p = p\<lparr>request := (request p)\<lparr>req_method :=
                        (if method_str = ''GET'' then kGet else kPost)\<rparr>\<rparr> in
             if hd target \<noteq> CHR ''/''
             then fail_step p 400 ''Bad Request'' ''request target must be origin-form''
             else
               let p = p\<lparr>request := (request p)\<lparr>req_target := target\<rparr>\<rparr> in
               if version \<noteq> ''HTTP/1.1''
               then fail_step p 505 ''HTTP Version Not Supported'' ''only HTTP/1.1 is supported''
               else
                 (StepAdvanced,
                  p\<lparr>request := (request p)\<lparr>req_version := version\<rparr>, pstate := kHeaders,
                    header_bytes_seen := 0\<rparr>)))"

text \<open>The terminator split over two calls: a CR that ends the buffer and a LF that starts the view.\<close>

definition split_terminator :: "parser \<Rightarrow> string \<Rightarrow> bool" where
  "split_terminator p data \<longleftrightarrow>
     line_buffer p \<noteq> [] \<and> last (line_buffer p) = CR \<and> data \<noteq> [] \<and> hd data = LF"

definition parse_request_line :: "parser \<Rightarrow> string \<Rightarrow> StepResult \<times> parser \<times> string" where
  "parse_request_line p data =
     (if split_terminator p data then
        let data = drop 1 data;
            line = butlast (line_buffer p);
            (result, p) = finish_request_line p line in
        (result, p\<lparr>line_buffer := []\<rparr>, data)
      else
        (case find_crlf data of
           Some crlf \<Rightarrow>
             if length (line_buffer p) + crlf > kMaxRequestLineLength then
               let (result, p) = fail_step p 400 ''Bad Request'' ''request line exceeds limit'' in
               (result, p, data)
             else
               let p = p\<lparr>line_buffer := line_buffer p @ take crlf data\<rparr>;
                   data = drop (crlf + 2) data;
                   (result, p) = finish_request_line p (line_buffer p) in
               (result, p\<lparr>line_buffer := []\<rparr>, data)
         | None \<Rightarrow>
             let pending_could_be_terminator_start = (length data = 1 \<and> hd data = CR) in
             if \<not> pending_could_be_terminator_start \<and>
                length (line_buffer p) + length data > kMaxRequestLineLength then
               let (result, p) = fail_step p 400 ''Bad Request'' ''request line exceeds limit'' in
               (result, p, data)
             else
               (StepNeedMoreData, p\<lparr>line_buffer := line_buffer p @ data\<rparr>, drop (length data) data)))"

subsection \<open>The header block\<close>

definition finish_headers :: "parser \<Rightarrow> StepResult \<times> parser" where
  "finish_headers p =
     (let outcome =
        (case find_header (req_headers (request p)) ''Content-Length'' of
           Some content_length_header \<Rightarrow>
             (case from_chars_unsigned (2 ^ 64 - 1) content_length_header of
                Inl _ \<Rightarrow> Inl (fail_step p 400 ''Bad Request'' ''invalid Content-Length'')
              | Inr (val, ptr) \<Rightarrow>
                if ptr \<noteq> [] then Inl (fail_step p 400 ''Bad Request'' ''invalid Content-Length'')
                else if val > kMaxBodyBytes
                then Inl (fail_step p 413 ''Payload Too Large'' ''body exceeds limit'')
                else Inr val)
         | None \<Rightarrow>
             if req_method (request p) = kPost
             then Inl (fail_step p 411 ''Length Required'' ''POST requires Content-Length'')
             else Inr 0) in
      case outcome of
        Inl failed \<Rightarrow> failed
      | Inr val \<Rightarrow>
          (StepAdvanced,
           p\<lparr>content_length := Some val, request := (request p)\<lparr>req_body := []\<rparr>,
             pstate := (if val = 0 then kDone else kBody)\<rparr>))"

definition consume_header_line :: "parser \<Rightarrow> string \<Rightarrow> StepResult \<times> parser" where
  "consume_header_line p line =
     (if line = [] then finish_headers p
      else if find_char CR line \<noteq> None \<or> find_char LF line \<noteq> None
      then fail_step p 400 ''Bad Request'' ''malformed header line''
      else
        (case find_char CHR '':'' line of
           None \<Rightarrow> fail_step p 400 ''Bad Request'' ''malformed header line''
         | Some colon \<Rightarrow>
           if colon = 0 then fail_step p 400 ''Bad Request'' ''malformed header line''
           else
             let name = take colon line;
                 val = trim (drop (colon + 1) line) in
             if find_char CHR '' '' name \<noteq> None \<or> find_char TAB name \<noteq> None
             then fail_step p 400 ''Bad Request'' ''malformed header name''
             else if header_bytes_seen p + length line + 2 > kMaxHeaderBytes
             then fail_step p 431 ''Request Header Fields Too Large'' ''headers exceed limit''
             else
               let p = p\<lparr>header_bytes_seen := header_bytes_seen p + (length line + 2)\<rparr> in
               if ascii_case_insensitive_equals name ''Content-Length'' \<and>
                  find_header (req_headers (request p)) ''Content-Length'' \<noteq> None
               then fail_step p 400 ''Bad Request'' ''duplicate Content-Length header''
               else if length (req_headers (request p)) \<ge> kMaxHeaderCount
               then fail_step p 431 ''Request Header Fields Too Large'' ''too many headers''
               else
                 (StepAdvanced,
                  p\<lparr>request := (request p)\<lparr>req_headers :=
                      req_headers (request p) @ [(name, val)]\<rparr>\<rparr>)))"

function parse_headers :: "parser \<Rightarrow> string \<Rightarrow> StepResult \<times> parser \<times> string" where
  "parse_headers p data =
     (if split_terminator p data then
        let data = drop 1 data;
            line = butlast (line_buffer p);
            (result, p) = consume_header_line p line;
            p = p\<lparr>line_buffer := []\<rparr> in
        if result \<noteq> StepAdvanced \<or> pstate p \<noteq> kHeaders then (result, p, data)
        else parse_headers p data
      else
        (case find_crlf data of
           None \<Rightarrow>
             let pending_could_still_be_terminator =
               (line_buffer p = [] \<and> (data = [] \<or> (length data = 1 \<and> hd data = CR))) in
             if \<not> pending_could_still_be_terminator \<and>
                header_bytes_seen p + length (line_buffer p) + length data > kMaxHeaderBytes then
               let (result, p) = fail_step p 431 ''Request Header Fields Too Large''
                                   ''headers exceed limit'' in
               (result, p, data)
             else
               (StepNeedMoreData, p\<lparr>line_buffer := line_buffer p @ data\<rparr>, drop (length data) data)
         | Some crlf \<Rightarrow>
             let is_header_block_terminator = (line_buffer p = [] \<and> crlf = 0) in
             if \<not> is_header_block_terminator \<and>
                header_bytes_seen p + length (line_buffer p) + crlf + 2 > kMaxHeaderBytes then
               let (result, p) = fail_step p 431 ''Request Header Fields Too Large''
                                   ''headers exceed limit'' in
               (result, p, data)
             else
               let p = p\<lparr>line_buffer := line_buffer p @ take crlf data\<rparr>;
                   data = drop (crlf + 2) data;
                   (result, p) = consume_header_line p (line_buffer p);
                   p = p\<lparr>line_buffer := []\<rparr> in
               if result \<noteq> StepAdvanced \<or> pstate p \<noteq> kHeaders then (result, p, data)
               else parse_headers p data))"
  by pat_completeness auto
termination
  by (relation "measure (\<lambda>(p, data). length data)")
    (auto simp: split_terminator_def dest: find_crlf_less)

declare parse_headers.simps [simp del]

text \<open>
  One turn of the loop: \<open>Inl\<close> leaves it with an outcome, \<open>Inr\<close> goes on to the next line.
\<close>

definition after_line ::
  "StepResult \<times> parser \<Rightarrow> string \<Rightarrow> (StepResult \<times> parser \<times> string) + (parser \<times> string)" where
  "after_line out rest =
     (if fst out \<noteq> StepAdvanced \<or> pstate (snd out) \<noteq> kHeaders
      then Inl (fst out, (snd out)\<lparr>line_buffer := []\<rparr>, rest)
      else Inr ((snd out)\<lparr>line_buffer := []\<rparr>, rest))"

definition header_turn ::
  "parser \<Rightarrow> string \<Rightarrow> (StepResult \<times> parser \<times> string) + (parser \<times> string)" where
  "header_turn p data =
     (let too_large = (fst (fail_step p 431 ''Request Header Fields Too Large'' ''headers exceed limit''),
            snd (fail_step p 431 ''Request Header Fields Too Large'' ''headers exceed limit''), data) in
      if split_terminator p data
      then after_line (consume_header_line p (butlast (line_buffer p))) (drop 1 data)
      else
        (case find_crlf data of
           None \<Rightarrow>
             if \<not> (line_buffer p = [] \<and> (data = [] \<or> data = [CR])) \<and>
                header_bytes_seen p + length (line_buffer p) + length data > kMaxHeaderBytes
             then Inl too_large
             else Inl (StepNeedMoreData, p\<lparr>line_buffer := line_buffer p @ data\<rparr>, [])
         | Some crlf \<Rightarrow>
             if \<not> (line_buffer p = [] \<and> crlf = 0) \<and>
                header_bytes_seen p + length (line_buffer p) + crlf + 2 > kMaxHeaderBytes
             then Inl too_large
             else after_line
                 (consume_header_line (p\<lparr>line_buffer := line_buffer p @ take crlf data\<rparr>)
                   (line_buffer p @ take crlf data))
                 (drop (crlf + 2) data)))"

lemma single_char: "length data = 1 \<and> hd data = c \<longleftrightarrow> data = [c]"
  by (cases data) auto

lemma parse_headers_turn:
  "parse_headers p data =
     (case header_turn p data of Inl out \<Rightarrow> out | Inr (q, rest) \<Rightarrow> parse_headers q rest)"
proof (cases "split_terminator p data")
  case True
  then show ?thesis
    by (simp add: parse_headers.simps [of p data] header_turn_def after_line_def Let_def case_prod_beta)
next
  case False
  then show ?thesis
    by (cases "find_crlf data")
      (auto simp: parse_headers.simps [of p data] header_turn_def after_line_def Let_def
        case_prod_beta single_char [where c = CR, symmetric])
qed

lemma header_turn_shorter:
  "header_turn p data = Inr (q, rest) \<Longrightarrow> length rest < length data"
  by (auto simp: header_turn_def after_line_def split_terminator_def Let_def
      dest: find_crlf_less split: if_splits option.splits)

lemma parse_headers_rule [case_names leave turn]:
  assumes leave: "\<And>p data out. header_turn p data = Inl out \<Longrightarrow> P p data out"
    and turn: "\<And>p data q rest. header_turn p data = Inr (q, rest) \<Longrightarrow>
      P q rest (parse_headers q rest) \<Longrightarrow> P p data (parse_headers q rest)"
  shows "P p data (parse_headers p data)"
proof (induction data arbitrary: p rule: length_induct)
  case (1 data)
  show ?case
  proof (cases "header_turn p data")
    case (Inl out)
    with leave show ?thesis
      by (simp add: parse_headers_turn [of p data])
  next
    case (Inr more)
    then obtain q rest where "header_turn p data = Inr (q, rest)"
      by (cases more) auto
    with 1 turn show ?thesis
      by (simp add: parse_headers_turn [of p data] header_turn_shorter)
  qed
qed

subsection \<open>The body\<close>

definition parse_body :: "parser \<Rightarrow> string \<Rightarrow> StepResult \<times> parser \<times> string" where
  "parse_body p data =
     (let remaining = size_minus (the (content_length p)) (length (req_body (request p)));
          taken = min remaining (length data);
          p = p\<lparr>request := (request p)\<lparr>req_body := req_body (request p) @ take taken data\<rparr>\<rparr>;
          data = drop taken data in
      if length (req_body (request p)) < the (content_length p) then (StepNeedMoreData, p, data)
      else (StepAdvanced, p\<lparr>pstate := kDone\<rparr>, data))"

subsection \<open>The dispatcher\<close>

definition parse_step :: "parser \<Rightarrow> string \<Rightarrow> StepResult \<times> parser \<times> string" where
  "parse_step p data =
     (case pstate p of
        kRequestLine \<Rightarrow> parse_request_line p data
      | kHeaders \<Rightarrow> parse_headers p data
      | _ \<Rightarrow> parse_body p data)"

text \<open>Every step that advances moves the state forward, so the loop of \<open>feed\<close> ends.\<close>

fun state_rank :: "State \<Rightarrow> nat" where
  "state_rank kRequestLine = 3"
| "state_rank kHeaders = 2"
| "state_rank kBody = 1"
| "state_rank kDone = 0"

lemma fail_step_result [simp]:
  "fst (fail_step p c r b) = StepFailed"
  "(StepAdvanced, q) \<noteq> fail_step p c r b" "fail_step p c r b \<noteq> (StepAdvanced, q)"
  "(StepNeedMoreData, q) \<noteq> fail_step p c r b" "fail_step p c r b \<noteq> (StepNeedMoreData, q)"
  by (simp_all add: fail_step_def)

lemma finish_request_line_advanced:
  "finish_request_line p line = (StepAdvanced, q) \<Longrightarrow> pstate q = kHeaders"
  by (auto simp: finish_request_line_def Let_def split: option.splits if_splits)

lemma parse_request_line_advanced:
  "parse_request_line p data = (StepAdvanced, q, rest) \<Longrightarrow> pstate q = kHeaders"
  by (auto simp: parse_request_line_def Let_def fail_step_def finish_request_line_advanced
      split: if_splits option.splits prod.splits)

lemma finish_headers_advanced:
  "finish_headers p = (StepAdvanced, q) \<Longrightarrow> pstate q = kDone \<or> pstate q = kBody"
  by (auto simp: finish_headers_def Let_def fail_step_def split: option.splits sum.splits if_splits)

lemma consume_header_line_advanced:
  "consume_header_line p line = (StepAdvanced, q) \<Longrightarrow>
     (if line = [] then pstate q = kDone \<or> pstate q = kBody else pstate q = pstate p)"
  by (auto simp: consume_header_line_def Let_def dest: finish_headers_advanced
      split: option.splits if_splits)

lemma after_consume_Inl:
  assumes "after_line (consume_header_line p line) rest = Inl out" "fst out = StepAdvanced"
    "pstate p = kHeaders"
  shows "pstate (fst (snd out)) = kDone \<or> pstate (fst (snd out)) = kBody"
proof (cases "consume_header_line p line")
  case (Pair result q)
  with assms show ?thesis
    using consume_header_line_advanced [of p line q]
    by (auto simp: after_line_def split: if_splits)
qed

lemma parse_headers_advanced:
  "parse_headers p data = (StepAdvanced, q, rest) \<Longrightarrow> pstate p = kHeaders \<Longrightarrow>
     pstate q = kDone \<or> pstate q = kBody"
proof -
  define Q where "Q p out \<longleftrightarrow> (pstate p = kHeaders \<longrightarrow> fst out = StepAdvanced \<longrightarrow>
      pstate (fst (snd out)) = kDone \<or> pstate (fst (snd out)) = kBody)"
    for p :: parser and out :: "StepResult \<times> parser \<times> string"
  have "Q p (parse_headers p data)"
  proof (induction rule: parse_headers_rule [where P = "\<lambda>p _ out. Q p out"])
    case (leave p data out)
    then show ?case
      by (auto simp: Q_def header_turn_def Let_def
          dest!: after_consume_Inl split: if_splits option.splits)
  next
    case (turn p data q rest)
    then have "pstate q = kHeaders"
      by (auto simp: header_turn_def after_line_def Let_def split: if_splits option.splits)
    with turn show ?case
      by (simp add: Q_def)
  qed
  then show "parse_headers p data = (StepAdvanced, q, rest) \<Longrightarrow> pstate p = kHeaders \<Longrightarrow> ?thesis"
    by (simp add: Q_def)
qed

lemma parse_body_advanced:
  "parse_body p data = (StepAdvanced, q, rest) \<Longrightarrow> pstate q = kDone"
  by (auto simp: parse_body_def Let_def split: if_splits)

lemma parse_step_advanced:
  assumes "parse_step p data = (StepAdvanced, q, rest)" "pstate p \<noteq> kDone"
  shows "state_rank (pstate q) < state_rank (pstate p)"
  using assms
  by (auto simp: parse_step_def dest: parse_request_line_advanced parse_headers_advanced
      parse_body_advanced split: State.splits)

function feed :: "parser \<Rightarrow> string \<Rightarrow> ParseStatus \<times> parser \<times> string" where
  "feed p data =
     (if pstate p = kDone then (kComplete, p, data)
      else
        (case parse_step p data of
           (StepNeedMoreData, q, rest) \<Rightarrow> (kNeedMoreData, q, rest)
         | (StepFailed, q, rest) \<Rightarrow> (kError, q, rest)
         | (StepAdvanced, q, rest) \<Rightarrow>
             if pstate q = kDone then (kComplete, q, rest) else feed q rest))"
  by pat_completeness auto
termination
  by (relation "measure (\<lambda>(p, data). state_rank (pstate p))")
    (auto simp: parse_step_advanced [OF sym])

declare feed.simps [simp del]

end
