(* ===== verification/Arc_Parser_Invariant.thy ===== *)
theory Arc_Parser_Invariant
  imports Arc_Parser
begin

text \<open>
  What a parser keeps between two calls of \<open>feed\<close>, and what a completed request satisfies: an
  origin-form target without a space, well-formed headers within the caps, at most one
  \<open>Content-Length\<close>, a body of exactly the declared length.  Every error response is one of the
  documented codes and closes the connection.
\<close>

subsection \<open>Well-formed requests\<close>

definition header_ok :: "string \<times> string \<Rightarrow> bool" where
  "header_ok h \<longleftrightarrow>
     fst h \<noteq> [] \<and> clean_text (fst h) \<and> CHR '':'' \<notin> set (fst h) \<and> CHR '' '' \<notin> set (fst h) \<and>
     TAB \<notin> set (fst h) \<and> clean_text (snd h) \<and> trim (snd h) = snd h"

definition is_content_length :: "string \<times> string \<Rightarrow> bool" where
  "is_content_length h \<longleftrightarrow> ascii_case_insensitive_equals (fst h) ''Content-Length''"

definition headers_ok :: "HeaderList \<Rightarrow> bool" where
  "headers_ok hs \<longleftrightarrow>
     (\<forall>h\<in>set hs. header_ok h) \<and> length hs \<le> kMaxHeaderCount \<and>
     length (filter is_content_length hs) \<le> 1"

text \<open>The bytes a header takes on the wire at the least: name, colon, value, CR LF.\<close>

definition header_bytes :: "HeaderList \<Rightarrow> nat" where
  "header_bytes hs = sum_list (map (\<lambda>h. length (fst h) + length (snd h) + 3) hs)"

definition head_ok :: "HttpRequest \<Rightarrow> bool" where
  "head_ok rq \<longleftrightarrow>
     req_target rq \<noteq> [] \<and> hd (req_target rq) = CHR ''/'' \<and> CHR '' '' \<notin> set (req_target rq) \<and>
     req_version rq = ''HTTP/1.1''"

text \<open>The length of the body a request declares.\<close>

definition declared_length :: "HttpRequest \<Rightarrow> nat option" where
  "declared_length rq =
     (case find_header (req_headers rq) ''Content-Length'' of
        None \<Rightarrow> if req_method rq = kPost then None else Some 0
      | Some val \<Rightarrow>
          (case from_chars_unsigned (2 ^ 64 - 1) val of
             Inl _ \<Rightarrow> None
           | Inr (n, rest) \<Rightarrow> if rest = [] \<and> n \<le> kMaxBodyBytes then Some n else None))"

definition complete_request :: "HttpRequest \<Rightarrow> bool" where
  "complete_request rq \<longleftrightarrow>
     head_ok rq \<and> headers_ok (req_headers rq) \<and> header_bytes (req_headers rq) \<le> kMaxHeaderBytes \<and>
     declared_length rq = Some (length (req_body rq))"

definition documented_error :: "HttpResponse \<Rightarrow> bool" where
  "documented_error response \<longleftrightarrow>
     status_code response \<in> {400, 411, 413, 431, 501, 505} \<and> \<not> resp_keep_alive response \<and>
     clean_text (reason_phrase response) \<and> clean_headers (resp_headers response)"

subsection \<open>The invariant between calls\<close>

definition parser_ok :: "parser \<Rightarrow> bool" where
  "parser_ok p \<longleftrightarrow>
     crlf_free (line_buffer p) \<and>
     (case pstate p of
        kRequestLine \<Rightarrow> request p = default_request
      | kHeaders \<Rightarrow>
          head_ok (request p) \<and> headers_ok (req_headers (request p)) \<and> req_body (request p) = [] \<and>
          header_bytes (req_headers (request p)) \<le> header_bytes_seen p \<and>
          header_bytes_seen p \<le> kMaxHeaderBytes \<and>
          (line_buffer p = [] \<or> line_buffer p = [CR] \<or>
           header_bytes_seen p + length (line_buffer p) \<le> kMaxHeaderBytes)
      | kBody \<Rightarrow>
          line_buffer p = [] \<and>
          head_ok (request p) \<and> headers_ok (req_headers (request p)) \<and>
          header_bytes (req_headers (request p)) \<le> kMaxHeaderBytes \<and>
          content_length p \<noteq> None \<and> declared_length (request p) = content_length p \<and>
          the (content_length p) \<le> kMaxBodyBytes \<and>
          length (req_body (request p)) < the (content_length p)
      | kDone \<Rightarrow> False)"

definition step_ok :: "StepResult \<Rightarrow> parser \<Rightarrow> bool" where
  "step_ok result q \<longleftrightarrow>
     (case result of
        StepNeedMoreData \<Rightarrow> parser_ok q
      | StepAdvanced \<Rightarrow> (if pstate q = kDone then complete_request (request q) else parser_ok q)
      | StepFailed \<Rightarrow> pstate q = kDone \<and> documented_error (error_response q))"

lemma parser_ok_not_done: "parser_ok p \<Longrightarrow> pstate p \<noteq> kDone"
  by (auto simp: parser_ok_def)

lemma new_parser_ok [simp]: "parser_ok new_parser"
  by (simp add: parser_ok_def new_parser_def)

lemma reset_ok [simp]: "parser_ok (reset p)"
  by (simp add: parser_ok_def reset_def)

lemma reset_new [simp]: "reset p = new_parser"
  by (simp add: reset_def new_parser_def)

lemma fail_step_ok:
  assumes "fail_step p code phrase body_text = (result, q)"
    "code \<in> {400, 411, 413, 431, 501, 505}" "clean_text phrase"
  shows "result = StepFailed \<and> pstate q = kDone \<and> documented_error (error_response q)"
  using assms by (auto simp: fail_step_def documented_error_def clean_chars)

lemma step_ok_fail_step:
  assumes "code \<in> {400, 411, 413, 431, 501, 505}" "clean_text phrase"
  shows "step_ok StepFailed (snd (fail_step p code phrase body_text))"
    "step_ok StepFailed ((snd (fail_step p code phrase body_text))\<lparr>line_buffer := l\<rparr>)"
  using assms by (auto simp: fail_step_def step_ok_def documented_error_def clean_chars)

lemma clean_phrases [simp]:
  "clean_text ''Bad Request''" "clean_text ''Not Implemented''"
  "clean_text ''HTTP Version Not Supported''" "clean_text ''Request Header Fields Too Large''"
  "clean_text ''Payload Too Large''" "clean_text ''Length Required''"
  by (simp_all add: clean_chars)

subsection \<open>The steps keep it\<close>

text \<open>The request line, given its three parts.\<close>

definition checked_request_line :: "parser \<Rightarrow> string \<Rightarrow> string \<Rightarrow> string \<Rightarrow> StepResult \<times> parser" where
  "checked_request_line p method_str target version =
     (if target = [] \<or> version = [] \<or> CHR '' '' \<in> set target
      then fail_step p 400 ''Bad Request'' ''malformed request line''
      else if method_str \<noteq> ''GET'' \<and> method_str \<noteq> ''POST''
      then fail_step p 501 ''Not Implemented'' ''unsupported method''
      else
        let p = p\<lparr>request := (request p)\<lparr>req_method :=
                   (if method_str = ''GET'' then kGet else kPost)\<rparr>\<rparr> in
        if hd target \<noteq> CHR ''/''
        then fail_step p 400 ''Bad Request'' ''request target must be origin-form''
        else
          let p = p\<lparr>request := (request p)\<lparr>req_target := target\<rparr>\<rparr> in
          if version \<noteq> ''HTTP/1.1''
          then fail_step p 505 ''HTTP Version Not Supported'' ''only HTTP/1.1 is supported''
          else
            (StepAdvanced,
             p\<lparr>request := (request p)\<lparr>req_version := version\<rparr>, pstate := kHeaders,
               header_bytes_seen := 0\<rparr>))"

lemma finish_request_line_cases [case_names malformed parts]:
  obtains (malformed) "CHR '' '' \<notin> set line \<or> (\<exists>a b. line = a @ CHR '' '' # b \<and> CHR '' '' \<notin> set a \<and> CHR '' '' \<notin> set b)"
      "finish_request_line p line = fail_step p 400 ''Bad Request'' ''malformed request line''"
  | (parts) method_str target version where
      "line = method_str @ CHR '' '' # target @ CHR '' '' # version"
      "CHR '' '' \<notin> set method_str" "CHR '' '' \<notin> set target"
      "finish_request_line p line = checked_request_line p method_str target version"
proof (cases "find_char CHR '' '' line")
  case None
  then show ?thesis
    using malformed by (simp add: finish_request_line_def find_char_None [symmetric])
next
  case (Some k)
  then obtain m rest where line: "line = m @ CHR '' '' # rest" "CHR '' '' \<notin> set m" "k = length m"
    by (rule find_char_SomeE)
  show ?thesis
  proof (cases "find_char CHR '' '' rest")
    case None
    then have "finish_request_line p line = fail_step p 400 ''Bad Request'' ''malformed request line''"
      using line Some by (simp add: finish_request_line_def)
    then show ?thesis
      using malformed None line unfolding find_char_None by blast
  next
    case (Some j)
    then obtain t v where rest: "rest = t @ CHR '' '' # v" "CHR '' '' \<notin> set t" "j = length t"
      by (rule find_char_SomeE)
    have "finish_request_line p line = checked_request_line p m t v"
      unfolding finish_request_line_def checked_request_line_def
      using line rest \<open>find_char CHR '' '' line = Some k\<close> Some
      by (simp add: Let_def find_char_None del: find_char.simps)
    then show ?thesis
      using parts line rest by blast
  qed
qed

lemma checked_request_line_ok:
  assumes "request p = default_request" "CHR '' '' \<notin> set target"
  shows "step_ok (fst (checked_request_line p method_str target version))
    ((snd (checked_request_line p method_str target version))\<lparr>line_buffer := []\<rparr>)"
  using assms unfolding checked_request_line_def Let_def
  by (auto intro!: step_ok_fail_step simp: step_ok_def [of StepAdvanced] parser_ok_def head_ok_def
      headers_ok_def header_bytes_def default_request_def)

lemma finish_request_line_ok:
  assumes "request p = default_request"
  shows "step_ok (fst (finish_request_line p line))
    ((snd (finish_request_line p line))\<lparr>line_buffer := []\<rparr>)"
proof (cases rule: finish_request_line_cases [of line p])
  case malformed
  then show ?thesis
    by (auto intro!: step_ok_fail_step)
next
  case (parts m t v)
  with assms show ?thesis
    using checked_request_line_ok by auto
qed

lemma parse_request_line_ok:
  assumes "parser_ok p" "pstate p = kRequestLine"
  shows "step_ok (fst (parse_request_line p data)) (fst (snd (parse_request_line p data)))"
proof -
  have fresh: "request p = default_request" "crlf_free (line_buffer p)"
    using assms by (simp_all add: parser_ok_def)
  have line: "step_ok (fst (finish_request_line (p\<lparr>line_buffer := l\<rparr>) line))
      ((snd (finish_request_line (p\<lparr>line_buffer := l\<rparr>) line))\<lparr>line_buffer := []\<rparr>)" for l line
    using fresh by (intro finish_request_line_ok) simp
  show ?thesis
  proof (cases "split_terminator p data")
    case True
    then show ?thesis
      using line [of "line_buffer p"] by (simp add: parse_request_line_def Let_def case_prod_beta)
  next
    case False
    show ?thesis
    proof (cases "find_crlf data")
      case None
      with False fresh have "crlf_free (line_buffer p @ data)"
        by (simp add: crlf_free_append_iff split_terminator_def)
      with False None assms show ?thesis
        by (auto simp: parse_request_line_def Let_def case_prod_beta step_ok_def parser_ok_def
            fail_step_def documented_error_def clean_chars)
    next
      case (Some crlf)
      with False show ?thesis
        using line
        by (auto simp: parse_request_line_def Let_def case_prod_beta intro!: step_ok_fail_step)
    qed
  qed
qed

lemma finish_headers_ok:
  assumes "parser_ok p" "pstate p = kHeaders"
  shows "step_ok (fst (finish_headers (p\<lparr>line_buffer := l\<rparr>)))
    ((snd (finish_headers (p\<lparr>line_buffer := l\<rparr>)))\<lparr>line_buffer := []\<rparr>)"
  using assms unfolding finish_headers_def Let_def
  by (auto simp: step_ok_def parser_ok_def complete_request_def declared_length_def
      fail_step_def documented_error_def head_ok_def clean_chars
      split: option.splits sum.splits if_splits)

lemma content_length_once:
  "find_header hs ''Content-Length'' = None \<Longrightarrow> filter is_content_length hs = []"
  by (auto simp: find_header_None is_content_length_def filter_empty_conv)

lemma wire_header_bytes: "length (trim s) \<le> length s"
  by (metis length_rev length_dropWhile_le order_trans trim_def)

lemma stored_header_ok:
  assumes p: "parser_ok p" "pstate p = kHeaders"
    and line: "line = name @ CHR '':'' # rest" "name \<noteq> []" "CHR '':'' \<notin> set name" "clean_text line"
    and blank: "CHR '' '' \<notin> set name" "TAB \<notin> set name"
    and room: "header_bytes_seen p + length line + 2 \<le> kMaxHeaderBytes"
    and once: "\<not> (is_content_length (name, trim rest) \<and>
      find_header (req_headers (request p)) ''Content-Length'' \<noteq> None)"
    and space: "length (req_headers (request p)) < kMaxHeaderCount"
  shows "parser_ok (p\<lparr>header_bytes_seen := header_bytes_seen p + (length line + 2),
      request := (request p)\<lparr>req_headers := req_headers (request p) @ [(name, trim rest)]\<rparr>,
      line_buffer := []\<rparr>)"
proof -
  have "clean_text name" "clean_text rest"
    using line(4) by (simp_all add: line(1) clean_Cons)
  then have "clean_text (trim rest)"
    using set_trim [of rest] by (auto simp: clean_text_def)
  moreover have "trim (trim rest) = trim rest"
    by (intro trim_id trim_ends)
  ultimately have "header_ok (name, trim rest)"
    using line blank \<open>clean_text name\<close> by (simp add: header_ok_def)
  moreover have "length (filter is_content_length (req_headers (request p) @ [(name, trim rest)])) \<le> 1"
    using p once content_length_once by (auto simp: parser_ok_def headers_ok_def)
  moreover have "length (trim rest) \<le> length rest"
    by (rule wire_header_bytes)
  ultimately show ?thesis
    using p room space line
    by (auto simp: parser_ok_def headers_ok_def header_bytes_def head_ok_def)
qed

lemma consume_header_line_cases [case_names blank failed stored]:
  obtains (blank) "line = []" "consume_header_line p line = finish_headers p"
  | (failed) q code phrase body_text where
      "consume_header_line p line = fail_step q code phrase body_text"
      "code \<in> {400, 431}" "clean_text phrase"
  | (stored) name rest where
      "line = name @ CHR '':'' # rest" "name \<noteq> []" "CHR '':'' \<notin> set name" "clean_text line"
      "CHR '' '' \<notin> set name" "TAB \<notin> set name"
      "header_bytes_seen p + length line + 2 \<le> kMaxHeaderBytes"
      "\<not> (is_content_length (name, trim rest) \<and>
         find_header (req_headers (request p)) ''Content-Length'' \<noteq> None)"
      "length (req_headers (request p)) < kMaxHeaderCount"
      "consume_header_line p line =
         (StepAdvanced,
          p\<lparr>header_bytes_seen := header_bytes_seen p + (length line + 2),
            request := (request p)\<lparr>req_headers := req_headers (request p) @ [(name, trim rest)]\<rparr>\<rparr>)"
proof (cases "line = []")
  case True
  then show ?thesis
    using blank by (simp add: consume_header_line_def)
next
  case nonempty: False
  show ?thesis
  proof (cases "find_char CR line \<noteq> None \<or> find_char LF line \<noteq> None \<or>
      find_char CHR '':'' line = None \<or> find_char CHR '':'' line = Some 0")
    case True
    then have "consume_header_line p line = fail_step p 400 ''Bad Request'' ''malformed header line''"
      using nonempty
      by (cases "find_char CHR '':'' line") (auto simp: consume_header_line_def)
    then show ?thesis
      by (rule failed) simp_all
  next
    case False
    then obtain k where k: "find_char CHR '':'' line = Some k" "k \<noteq> 0"
      by (cases "find_char CHR '':'' line") auto
    then obtain name rest where line: "line = name @ CHR '':'' # rest" "CHR '':'' \<notin> set name" "k = length name"
      by (metis find_char_SomeE)
    define counted where
      "counted = p\<lparr>header_bytes_seen := header_bytes_seen p + (length line + 2)\<rparr>"
    have eq: "consume_header_line p line =
       (if CHR '' '' \<in> set name \<or> TAB \<in> set name
        then fail_step p 400 ''Bad Request'' ''malformed header name''
        else if header_bytes_seen p + length line + 2 > kMaxHeaderBytes
        then fail_step p 431 ''Request Header Fields Too Large'' ''headers exceed limit''
        else if is_content_length (name, trim rest) \<and>
                find_header (req_headers (request p)) ''Content-Length'' \<noteq> None
        then fail_step counted 400 ''Bad Request'' ''duplicate Content-Length header''
        else if length (req_headers (request p)) \<ge> kMaxHeaderCount
        then fail_step counted 431 ''Request Header Fields Too Large'' ''too many headers''
        else (StepAdvanced,
          p\<lparr>header_bytes_seen := header_bytes_seen p + (length line + 2),
            request := (request p)\<lparr>req_headers := req_headers (request p) @ [(name, trim rest)]\<rparr>\<rparr>))"
      using False k nonempty line
      by (auto simp: consume_header_line_def find_char_None Let_def is_content_length_def counted_def)
    have plain: "clean_text line" "name \<noteq> []"
      using False k line by (auto simp: clean_text_def find_char_None)
    show ?thesis
    proof (cases "fst (consume_header_line p line) = StepAdvanced")
      case True
      then show ?thesis
        using eq by (intro stored [OF line(1) plain(2) line(2) plain(1)]) (auto split: if_splits)
    next
      case no: False
      with eq consider
          "consume_header_line p line = fail_step p 400 ''Bad Request'' ''malformed header name''"
        | "consume_header_line p line =
             fail_step p 431 ''Request Header Fields Too Large'' ''headers exceed limit''"
        | "consume_header_line p line =
             fail_step counted 400 ''Bad Request'' ''duplicate Content-Length header''"
        | "consume_header_line p line =
             fail_step counted 431 ''Request Header Fields Too Large'' ''too many headers''"
        by (auto split: if_splits)
      then show ?thesis
        by cases (erule failed; simp)+
    qed
  qed
qed

lemma consume_header_line_ok:
  assumes "parser_ok p" "pstate p = kHeaders"
  shows "step_ok (fst (consume_header_line (p\<lparr>line_buffer := l\<rparr>) line))
    ((snd (consume_header_line (p\<lparr>line_buffer := l\<rparr>) line))\<lparr>line_buffer := []\<rparr>)"
proof (cases rule: consume_header_line_cases [of line "p\<lparr>line_buffer := l\<rparr>"])
  case blank
  then show ?thesis
    using finish_headers_ok [OF assms] by simp
next
  case (failed q code phrase body_text)
  then show ?thesis
    by (auto intro!: step_ok_fail_step)
next
  case (stored name rest)
  then have "parser_ok (p\<lparr>header_bytes_seen := header_bytes_seen p + (length line + 2),
      request := (request p)\<lparr>req_headers := req_headers (request p) @ [(name, trim rest)]\<rparr>,
      line_buffer := []\<rparr>)"
    by (intro stored_header_ok [OF assms]) simp_all
  then show ?thesis
    using stored(10) assms by (simp add: step_ok_def)
qed

lemma header_turn_ok:
  assumes p: "parser_ok p" "pstate p = kHeaders"
  shows "case header_turn p data of
      Inl (result, q, rest) \<Rightarrow> step_ok result q
    | Inr (q, rest) \<Rightarrow> parser_ok q \<and> pstate q = kHeaders"
proof -
  have line: "case after_line (consume_header_line (p\<lparr>line_buffer := l\<rparr>) line) rest of
      Inl (result, q, rest) \<Rightarrow> step_ok result q
    | Inr (q, rest) \<Rightarrow> parser_ok q \<and> pstate q = kHeaders" for l line rest
    using consume_header_line_ok [OF p, of l line] by (auto simp: after_line_def step_ok_def)
  show ?thesis
  proof (cases "split_terminator p data")
    case True
    then show ?thesis
      using line [of "line_buffer p"] by (simp add: header_turn_def)
  next
    case False
    show ?thesis
    proof (cases "find_crlf data")
      case None
      have "crlf_free (line_buffer p @ data)"
        using False None p by (auto simp: crlf_free_append_iff split_terminator_def parser_ok_def)
      with None False p show ?thesis
        by (auto simp: header_turn_def Let_def step_ok_fail_step)
          (auto simp: step_ok_def parser_ok_def)
    next
      case (Some crlf)
      with False show ?thesis
        using line by (auto simp: header_turn_def Let_def step_ok_fail_step)
    qed
  qed
qed

lemma parse_headers_ok:
  assumes "parser_ok p" "pstate p = kHeaders"
  shows "step_ok (fst (parse_headers p data)) (fst (snd (parse_headers p data)))"
proof -
  have "parser_ok p \<and> pstate p = kHeaders \<longrightarrow>
      step_ok (fst (parse_headers p data)) (fst (snd (parse_headers p data)))"
  proof (induction rule: parse_headers_rule [where P = "\<lambda>p _ out.
          parser_ok p \<and> pstate p = kHeaders \<longrightarrow> step_ok (fst out) (fst (snd out))"])
    case (leave p data out)
    then show ?case
      using header_turn_ok [of p data] by (cases out) auto
  next
    case (turn p data q rest)
    then show ?case
      using header_turn_ok [of p data] by auto
  qed
  with assms show ?thesis
    by simp
qed

lemma declared_length_body [simp]: "declared_length (rq\<lparr>req_body := b\<rparr>) = declared_length rq"
  by (simp add: declared_length_def)

lemma head_ok_body [simp]: "head_ok (rq\<lparr>req_body := b\<rparr>) = head_ok rq"
  by (simp add: head_ok_def)

lemma parse_body_ok:
  assumes "parser_ok p" "pstate p = kBody"
  shows "step_ok (fst (parse_body p data)) (fst (snd (parse_body p data)))"
proof -
  obtain n where n: "content_length p = Some n" "length (req_body (request p)) < n" "n \<le> kMaxBodyBytes"
    using assms by (auto simp: parser_ok_def)
  then have "size_minus n (length (req_body (request p))) = n - length (req_body (request p))"
    by (intro size_minus_le) (auto simp: kMaxBodyBytes_def)
  with n assms show ?thesis
    by (auto simp: parse_body_def Let_def step_ok_def parser_ok_def complete_request_def)
qed

lemma parse_step_ok:
  assumes "parser_ok p"
  shows "step_ok (fst (parse_step p data)) (fst (snd (parse_step p data)))"
  using assms parser_ok_not_done [OF assms]
  by (cases "pstate p")
    (auto simp: parse_step_def parse_request_line_ok parse_headers_ok parse_body_ok)

subsection \<open>What \<open>feed\<close> returns\<close>

lemma feed_ok:
  assumes "parser_ok p"
  shows "case feed p data of
      (kNeedMoreData, q, rest) \<Rightarrow> parser_ok q
    | (kComplete, q, rest) \<Rightarrow> complete_request (request q)
    | (kError, q, rest) \<Rightarrow> documented_error (error_response q)"
  using assms
proof (induction p data rule: feed.induct)
  case (1 p data)
  obtain result q rest where step: "parse_step p data = (result, q, rest)"
    by (cases "parse_step p data") auto
  have ok: "step_ok result q"
    using parse_step_ok [OF "1.prems", of data] step by simp
  have live: "pstate p \<noteq> kDone"
    by (rule parser_ok_not_done [OF "1.prems"])
  show ?case
  proof (cases result)
    case StepAdvanced
    show ?thesis
    proof (cases "pstate q = kDone")
      case False
      with ok StepAdvanced have "parser_ok q"
        by (simp add: step_ok_def)
      then show ?thesis
        using "1.IH" [OF live step [symmetric] StepAdvanced refl False] StepAdvanced False step live
        by (simp add: feed.simps [of p data])
    qed (use ok StepAdvanced step live in \<open>simp add: feed.simps [of p data] step_ok_def\<close>)
  qed (use ok step live in \<open>simp_all add: feed.simps [of p data] step_ok_def\<close>)
qed

end
