(* ===== verification/Arc_Parser_Fragments.thy ===== *)
theory Arc_Parser_Fragments
  imports Arc_Parser_Invariant
begin

text \<open>
  Fragmented delivery: however a request is cut into non-empty pieces, feeding the pieces one by one
  and feeding the whole at once agree.  The proof brings every step to a normal form in the text
  \<open>line_buffer p @ data\<close>, the bytes seen since the last line end, and then lets the text grow at its
  end.  On the request line the agreement needs a line shorter than the cap, because the code charges
  the CR of a split terminator against it.
\<close>

subsection \<open>Agreement of two outcomes\<close>

text \<open>Equal, or both failed: on an error only the status is promised.\<close>

definition agree :: "'r \<Rightarrow> 'r \<times> 'a \<Rightarrow> 'r \<times> 'a \<Rightarrow> bool" where
  "agree bad x y \<longleftrightarrow> x = y \<or> fst x = bad \<and> fst y = bad"

lemma agree_refl [simp]: "agree bad x x"
  by (simp add: agree_def)

lemma agree_failed [simp]: "agree bad (bad, x) (bad, y)"
  by (simp add: agree_def)

lemma agree_fst: "agree bad x y \<Longrightarrow> fst x = fst y"
  by (auto simp: agree_def)

lemma agree_sym: "agree bad x y \<Longrightarrow> agree bad y x"
  by (auto simp: agree_def)

lemma agree_trans [trans]: "agree bad x y \<Longrightarrow> agree bad y z \<Longrightarrow> agree bad x z"
  by (auto simp: agree_def)

definition request_line_fits :: "string \<Rightarrow> bool" where
  "request_line_fits s \<longleftrightarrow>
     (case find_crlf s of
        Some k \<Rightarrow> k < kMaxRequestLineLength
      | None \<Rightarrow> length s \<le> kMaxRequestLineLength)"

subsection \<open>The request line\<close>

lemma fail_step_buffer:
  "fail_step (p\<lparr>line_buffer := l\<rparr>) c r b =
     (StepFailed, (snd (fail_step p c r b))\<lparr>line_buffer := l\<rparr>)"
  by (simp add: fail_step_def)

lemma checked_request_line_buffer:
  "checked_request_line (p\<lparr>line_buffer := l\<rparr>) m t v =
     (fst (checked_request_line p m t v), (snd (checked_request_line p m t v))\<lparr>line_buffer := l\<rparr>)"
  by (simp add: checked_request_line_def fail_step_def Let_def)

lemma finish_request_line_buffer:
  "finish_request_line (p\<lparr>line_buffer := l\<rparr>) line =
     (fst (finish_request_line p line), (snd (finish_request_line p line))\<lparr>line_buffer := l\<rparr>)"
  by (auto simp: finish_request_line_def fail_step_def Let_def split: option.split)

lemma finish_request_line_moves: "fst (finish_request_line p line) \<noteq> StepNeedMoreData"
  by (cases rule: finish_request_line_cases [of line p])
    (auto simp: checked_request_line_def fail_step_def Let_def)

definition request_line_outcome :: "parser \<Rightarrow> string \<Rightarrow> StepResult \<times> parser \<times> string" where
  "request_line_outcome p s =
     (case find_crlf s of
        Some k \<Rightarrow>
          (fst (finish_request_line p (take k s)),
           (snd (finish_request_line p (take k s)))\<lparr>line_buffer := []\<rparr>, drop (k + 2) s)
      | None \<Rightarrow> (StepNeedMoreData, p\<lparr>line_buffer := s\<rparr>, []))"

lemma parse_request_line_outcome:
  assumes free: "crlf_free (line_buffer p)" and fits: "request_line_fits (line_buffer p @ data)"
  shows "parse_request_line p data = request_line_outcome p (line_buffer p @ data)"
proof (cases "split_terminator p data")
  case True
  then obtain b d where lb: "line_buffer p = b @ [CR]" and data: "data = LF # d"
    by (cases data; cases "line_buffer p" rule: rev_cases) (auto simp: split_terminator_def)
  have "find_crlf (line_buffer p @ data) = Some (length b)"
    using free by (simp add: lb data find_crlf_terminated)
  then show ?thesis
    using True by (simp add: parse_request_line_def request_line_outcome_def Let_def case_prod_beta lb data)
next
  case False
  then have eq: "find_crlf (line_buffer p @ data) = map_option (\<lambda>k. length (line_buffer p) + k) (find_crlf data)"
    using free by (auto simp: find_crlf_append split_terminator_def)
  show ?thesis
  proof (cases "find_crlf data")
    case None
    with eq fits have "length (line_buffer p) + length data \<le> kMaxRequestLineLength"
      by (simp add: request_line_fits_def)
    with None eq False show ?thesis
      by (simp add: parse_request_line_def request_line_outcome_def Let_def)
  next
    case (Some k)
    with eq fits have "length (line_buffer p) + k < kMaxRequestLineLength"
      by (simp add: request_line_fits_def)
    with Some eq False show ?thesis
      by (simp add: parse_request_line_def request_line_outcome_def Let_def case_prod_beta
          finish_request_line_buffer)
  qed
qed

lemma request_line_fits_prefix:
  assumes "request_line_fits (s @ t)"
  shows "request_line_fits s"
proof (cases "find_crlf s")
  case (Some k)
  with assms show ?thesis
    by (simp add: request_line_fits_def find_crlf_append_Some)
next
  case None
  then have "find_crlf (s @ t) = Some k \<Longrightarrow> length s \<le> k + 1" for k
    by (auto simp: find_crlf_append split: if_splits)
  with assms None show ?thesis
    by (cases "find_crlf (s @ t)") (fastforce simp: request_line_fits_def)+
qed

subsection \<open>The header block\<close>

lemma finish_headers_buffer:
  "finish_headers (p\<lparr>line_buffer := l\<rparr>) =
     (fst (finish_headers p), (snd (finish_headers p))\<lparr>line_buffer := l\<rparr>)"
  by (auto simp: finish_headers_def fail_step_def Let_def split: option.split sum.split)

lemma consume_header_line_buffer:
  "consume_header_line (p\<lparr>line_buffer := l\<rparr>) line =
     (fst (consume_header_line p line), (snd (consume_header_line p line))\<lparr>line_buffer := l\<rparr>)"
  by (auto simp: consume_header_line_def finish_headers_buffer fail_step_def Let_def split: option.split)

lemma after_line_buffer:
  "after_line (consume_header_line (p\<lparr>line_buffer := l\<rparr>) line) rest =
     after_line (consume_header_line p line) rest"
  by (simp add: consume_header_line_buffer after_line_def)

text \<open>A line over the cap is refused when it is consumed, if not before.\<close>

lemma consume_long_line:
  assumes "line \<noteq> []" "header_bytes_seen p + length line + 2 > kMaxHeaderBytes"
  shows "fst (consume_header_line p line) = StepFailed"
  by (cases rule: consume_header_line_cases [of line p]) (use assms in \<open>auto simp: fail_step_def\<close>)

definition same_turn ::
  "(StepResult \<times> parser \<times> string) + (parser \<times> string) \<Rightarrow>
   (StepResult \<times> parser \<times> string) + (parser \<times> string) \<Rightarrow> bool" where
  "same_turn x y \<longleftrightarrow> x = y \<or> (\<exists>u v. x = Inl (StepFailed, u) \<and> y = Inl (StepFailed, v))"

lemma same_turn_parse_headers:
  assumes "same_turn (header_turn p data) (header_turn q data')"
  shows "agree StepFailed (parse_headers p data) (parse_headers q data')"
  using assms unfolding same_turn_def parse_headers_turn [of p data] parse_headers_turn [of q data']
  by (auto simp: agree_def)

text \<open>The buffer moved back in front of the view.\<close>

lemma header_turn_unbuffer:
  assumes p: "parser_ok p" "pstate p = kHeaders" and data: "data = [] \<longrightarrow> line_buffer p = []"
  shows "same_turn (header_turn p data)
    (header_turn (p\<lparr>line_buffer := []\<rparr>) (line_buffer p @ data))"
proof (cases "split_terminator p data")
  case True
  then obtain b d where lb: "line_buffer p = b @ [CR]" and d: "data = LF # d"
    by (cases data; cases "line_buffer p" rule: rev_cases) (auto simp: split_terminator_def)
  have free: "crlf_free (b @ [CR])"
    using p by (simp add: parser_ok_def lb)
  then have at: "find_crlf (line_buffer p @ data) = Some (length b)"
    by (simp add: lb d find_crlf_terminated)
  have left: "header_turn p data = after_line (consume_header_line p b) d"
    using True by (simp add: header_turn_def lb d)
  show ?thesis
  proof (cases "b \<noteq> [] \<and> header_bytes_seen p + length b + 2 > kMaxHeaderBytes")
    case True
    then have "fst (consume_header_line p b) = StepFailed"
      by (intro consume_long_line) simp_all
    then show ?thesis
      using True at unfolding left
      by (auto simp: same_turn_def header_turn_def after_line_def Let_def split_terminator_def)
  next
    case False
    then have "header_turn (p\<lparr>line_buffer := []\<rparr>) (line_buffer p @ data) =
        after_line (consume_header_line p b) d"
      using at by (auto simp: header_turn_def Let_def split_terminator_def after_line_buffer lb d)
    then show ?thesis
      by (simp add: same_turn_def left)
  qed
next
  case False
  have free: "crlf_free (line_buffer p)"
    using p by (simp add: parser_ok_def)
  have at: "find_crlf (line_buffer p @ data) = map_option (\<lambda>k. length (line_buffer p) + k) (find_crlf data)"
    using False free by (auto simp: find_crlf_append split_terminator_def)
  have "line_buffer p @ data = [CR] \<longleftrightarrow> line_buffer p = [] \<and> data = [CR]"
    using data by (auto simp: append_eq_Cons_conv)
  then have blank: "line_buffer p = [] \<and> (data = [] \<or> data = [CR]) \<longleftrightarrow>
      line_buffer p @ data = [] \<or> line_buffer p @ data = [CR]"
    by auto
  have fresh: "\<not> split_terminator (p\<lparr>line_buffer := []\<rparr>) (line_buffer p @ data)"
    by (simp add: split_terminator_def)
  show ?thesis
  proof (cases "find_crlf data")
    case None
    with at have "find_crlf (line_buffer p @ data) = None"
      by simp
    with False fresh None blank show ?thesis
      unfolding same_turn_def header_turn_def Let_def
      by (simp add: fail_step_def)
  next
    case (Some k)
    with at have "find_crlf (line_buffer p @ data) = Some (length (line_buffer p) + k)"
      by simp
    with False fresh Some show ?thesis
      unfolding same_turn_def header_turn_def Let_def
      by (simp add: fail_step_def after_line_buffer)
  qed
qed

lemma parse_headers_unbuffer:
  assumes "parser_ok p" "pstate p = kHeaders" "data = [] \<longrightarrow> line_buffer p = []"
  shows "agree StepFailed (parse_headers p data)
    (parse_headers (p\<lparr>line_buffer := []\<rparr>) (line_buffer p @ data))"
  by (rule same_turn_parse_headers [OF header_turn_unbuffer [OF assms]])

text \<open>What the outcome on a text says of the outcome on a longer one.\<close>

definition extends ::
  "(parser \<Rightarrow> string \<Rightarrow> StepResult \<times> parser \<times> string) \<Rightarrow> parser \<Rightarrow> string \<Rightarrow> string \<Rightarrow> bool" where
  "extends step p a b \<longleftrightarrow>
     (case step p a of
        (StepNeedMoreData, q, rest) \<Rightarrow>
          rest = [] \<and> pstate q = pstate p \<and> agree StepFailed (step q b) (step p (a @ b))
      | (StepAdvanced, q, rest) \<Rightarrow> step p (a @ b) = (StepAdvanced, q, rest @ b)
      | (StepFailed, q, rest) \<Rightarrow> fst (step p (a @ b)) = StepFailed)"

lemma parse_request_line_extends:
  assumes "parser_ok p" and fits: "request_line_fits (line_buffer p @ a @ b)"
  shows "extends parse_request_line p a b"
proof -
  have free: "crlf_free (line_buffer p)"
    using assms by (simp add: parser_ok_def)
  have short: "request_line_fits (line_buffer p @ a)"
    using fits request_line_fits_prefix [of "line_buffer p @ a" b] by simp
  have whole: "parse_request_line p (a @ b) = request_line_outcome p (line_buffer p @ a @ b)"
    by (rule parse_request_line_outcome [OF free fits])
  have part: "parse_request_line p a = request_line_outcome p (line_buffer p @ a)"
    by (rule parse_request_line_outcome [OF free short])
  show ?thesis
  proof (cases "find_crlf (line_buffer p @ a)")
    case None
    define q where "q = p\<lparr>line_buffer := line_buffer p @ a\<rparr>"
    have "parse_request_line q b = request_line_outcome q (line_buffer q @ b)"
      using None fits by (intro parse_request_line_outcome) (simp_all add: q_def)
    also have "\<dots> = request_line_outcome p (line_buffer p @ a @ b)"
      by (auto simp: request_line_outcome_def q_def finish_request_line_buffer split: option.split)
    finally show ?thesis
      using None whole part by (simp add: extends_def request_line_outcome_def q_def)
  next
    case (Some k)
    then have "find_crlf (line_buffer p @ a @ b) = Some k"
      using find_crlf_append_Some [of "line_buffer p @ a" k b] by simp
    moreover have "k + 2 \<le> length (line_buffer p @ a)"
      by (rule find_crlf_less [OF Some])
    ultimately show ?thesis
      using Some whole part finish_request_line_moves
      by (auto simp: extends_def request_line_outcome_def split: StepResult.split)
  qed
qed

lemma finish_headers_moves: "fst (finish_headers p) \<noteq> StepNeedMoreData"
  by (auto simp: finish_headers_def fail_step_def Let_def split: option.split sum.split)

lemma consume_header_line_moves: "fst (consume_header_line p line) \<noteq> StepNeedMoreData"
  by (cases rule: consume_header_line_cases [of line p])
    (auto simp: finish_headers_moves fail_step_def)

text \<open>One turn on an empty buffer, when the text grows.\<close>

lemma header_turn_line:
  assumes "line_buffer p = []" "find_crlf d = Some k"
  shows "header_turn p d =
    (if k \<noteq> 0 \<and> header_bytes_seen p + k + 2 > kMaxHeaderBytes
     then Inl (StepFailed, snd (fail_step p 431 ''Request Header Fields Too Large''
            ''headers exceed limit''), d)
     else after_line (consume_header_line p (take k d)) (drop (k + 2) d))"
  using assms by (simp add: header_turn_def split_terminator_def Let_def after_line_buffer)

lemma header_turn_open:
  assumes "line_buffer p = []" "crlf_free d"
  shows "header_turn p d =
    (if d \<noteq> [] \<and> d \<noteq> [CR] \<and> header_bytes_seen p + length d > kMaxHeaderBytes
     then Inl (StepFailed, snd (fail_step p 431 ''Request Header Fields Too Large''
            ''headers exceed limit''), d)
     else Inl (StepNeedMoreData, p\<lparr>line_buffer := d\<rparr>, []))"
  using assms by (simp add: header_turn_def split_terminator_def Let_def)

lemma header_turn_grows:
  assumes p: "parser_ok p" "pstate p = kHeaders" "line_buffer p = []" and b: "b \<noteq> []"
  shows "case header_turn p a of
      Inr (q, rest) \<Rightarrow> header_turn p (a @ b) = Inr (q, rest @ b)
    | Inl (StepNeedMoreData, q, rest) \<Rightarrow> rest = [] \<and> q = p\<lparr>line_buffer := a\<rparr>
    | Inl (StepAdvanced, q, rest) \<Rightarrow> header_turn p (a @ b) = Inl (StepAdvanced, q, rest @ b)
    | Inl (StepFailed, q, rest) \<Rightarrow> (\<exists>u. header_turn p (a @ b) = Inl (StepFailed, u))"
proof (cases "find_crlf a")
  case (Some k)
  then have whole: "find_crlf (a @ b) = Some k" and k: "k + 2 \<le> length a"
    using find_crlf_less [OF Some] by (simp_all add: find_crlf_append_Some)
  define out where "out = consume_header_line p (take k a)"
  define large where "large \<longleftrightarrow> k \<noteq> 0 \<and> header_bytes_seen p + k + 2 > kMaxHeaderBytes"
  define refused where "refused = snd (fail_step p 431 ''Request Header Fields Too Large''
            ''headers exceed limit'')"
  have first: "header_turn p a =
      (if large then Inl (StepFailed, refused, a) else after_line out (drop (k + 2) a))"
    unfolding header_turn_line [OF p(3) Some] out_def large_def refused_def ..
  have second: "header_turn p (a @ b) =
      (if large then Inl (StepFailed, refused, a @ b) else after_line out (drop (k + 2) a @ b))"
    using k unfolding header_turn_line [OF p(3) whole] out_def large_def refused_def by simp
  have "fst out \<noteq> StepNeedMoreData"
    by (simp add: out_def consume_header_line_moves)
  then show ?thesis
    unfolding first second by (auto simp: after_line_def split: StepResult.split)
next
  case None
  show ?thesis
  proof (cases "a \<noteq> [] \<and> a \<noteq> [CR] \<and> header_bytes_seen p + length a > kMaxHeaderBytes")
    case False
    then show ?thesis
      unfolding header_turn_open [OF p(3) None] by auto
  next
    case True
    have "\<exists>u. header_turn p (a @ b) = Inl (StepFailed, u)"
    proof (cases "find_crlf (a @ b)")
      case free: None
      with True show ?thesis
        by (simp add: header_turn_open [OF p(3) free] append_eq_Cons_conv)
    next
      case (Some k)
      then have "length a \<le> k + 1"
        using None by (auto simp: find_crlf_append split: if_splits)
      moreover have "length a \<noteq> 1 \<or> a \<noteq> [CR]" "0 < length a"
        using True by auto
      moreover have "k \<noteq> 0"
      proof
        assume "k = 0"
        with Some obtain c where "a @ b = CR # LF # c"
          by (auto elim: find_crlf_SomeE)
        with True \<open>length a \<le> k + 1\<close> \<open>k = 0\<close> show False
          by (cases a) auto
      qed
      ultimately show ?thesis
        using True by (simp add: header_turn_line [OF p(3) Some])
    qed
    with True show ?thesis
      unfolding header_turn_open [OF p(3) None] by simp
  qed
qed

lemma parse_headers_extends_fresh:
  assumes "parser_ok p" "pstate p = kHeaders" "line_buffer p = []" "b \<noteq> []"
  shows "extends parse_headers p a b"
  using assms(1-3)
proof (induction a arbitrary: p rule: length_induct)
  case (1 a)
  note grows = header_turn_grows [OF "1.prems" assms(4), of a]
  note ok = header_turn_ok [OF "1.prems"(1,2), of a]
  show ?case
  proof (cases "header_turn p a")
    case (Inr more)
    then obtain q rest where turn: "header_turn p a = Inr (q, rest)"
      by (cases more) auto
    with grows have whole: "header_turn p (a @ b) = Inr (q, rest @ b)"
      by simp
    have "line_buffer q = []"
      using turn by (auto simp: header_turn_def after_line_def Let_def split: if_splits option.splits)
    moreover have "parser_ok q" "pstate q = kHeaders"
      using ok turn by simp_all
    moreover from this have same: "pstate q = pstate p"
      using "1.prems"(2) by simp
    ultimately have "extends parse_headers q rest b"
      using "1.IH" header_turn_shorter [OF turn] by blast
    then show ?thesis
      unfolding extends_def parse_headers_turn [of p a] parse_headers_turn [of p "a @ b"] turn whole
        sum.case prod.case same .
  next
    case (Inl out)
    obtain result q rest where out: "out = (result, q, rest)"
      by (cases out) auto
    show ?thesis
    proof (cases result)
      case StepNeedMoreData
      with grows Inl out have q: "rest = []" "q = p\<lparr>line_buffer := a\<rparr>"
        by simp_all
      have p: "q\<lparr>line_buffer := []\<rparr> = p"
        using "1.prems"(3) by (cases p) (simp add: q)
      have "parser_ok q" "pstate q = kHeaders"
        using ok Inl out StepNeedMoreData "1.prems"(2) by (simp_all add: step_ok_def q)
      then have "agree StepFailed (parse_headers q b)
          (parse_headers (q\<lparr>line_buffer := []\<rparr>) (line_buffer q @ b))"
        using assms(4) by (intro parse_headers_unbuffer) simp_all
      then show ?thesis
        using Inl out q StepNeedMoreData unfolding p
        by (simp add: extends_def parse_headers_turn [of p a])
    next
      case StepAdvanced
      with grows Inl out show ?thesis
        by (simp add: extends_def parse_headers_turn [of p a] parse_headers_turn [of p "a @ b"])
    next
      case StepFailed
      with grows Inl out show ?thesis
        by (auto simp: extends_def parse_headers_turn [of p a] parse_headers_turn [of p "a @ b"])
    qed
  qed
qed

text \<open>Agreement on an error carries over.\<close>

lemma extends_agree:
  assumes ext: "extends f q a' b"
    and part: "agree StepFailed (f p a) (f q a')" and whole: "agree StepFailed (f p (a @ b)) (f q (a' @ b))"
    and st: "pstate q = pstate p"
  shows "extends f p a b"
proof (cases "fst (f p a) = StepFailed")
  case True
  then have "fst (f q a') = StepFailed"
    using part agree_fst by metis
  with ext have "fst (f q (a' @ b)) = StepFailed"
    by (cases "f q a'") (auto simp: extends_def)
  with True agree_fst [OF whole] show ?thesis
    by (cases "f p a") (auto simp: extends_def)
next
  case False
  with part have same: "f p a = f q a'"
    by (auto simp: agree_def)
  with False ext st whole show ?thesis
    by (cases "f q a'")
      (auto simp: extends_def agree_def split: StepResult.splits)
qed

lemma parse_headers_extends:
  assumes p: "parser_ok p" "pstate p = kHeaders" and a: "a = [] \<longrightarrow> line_buffer p = []" and b: "b \<noteq> []"
  shows "extends parse_headers p a b"
proof (rule extends_agree)
  let ?q = "p\<lparr>line_buffer := []\<rparr>"
  have "parser_ok ?q"
    using p by (simp add: parser_ok_def)
  then show "extends parse_headers ?q (line_buffer p @ a) b"
    using p b by (intro parse_headers_extends_fresh) simp_all
  show "agree StepFailed (parse_headers p a) (parse_headers ?q (line_buffer p @ a))"
    by (rule parse_headers_unbuffer [OF p a])
  show "agree StepFailed (parse_headers p (a @ b)) (parse_headers ?q ((line_buffer p @ a) @ b))"
    using parse_headers_unbuffer [OF p, of "a @ b"] b by simp
qed simp

lemma parse_body_extends:
  assumes p: "parser_ok p" "pstate p = kBody"
  shows "extends parse_body p a b"
proof -
  obtain n where n: "content_length p = Some n" "length (req_body (request p)) < n" "n \<le> kMaxBodyBytes"
    using p by (auto simp: parser_ok_def)
  have minus: "size_minus n m = n - m" if "m \<le> n" for m
    using n that by (intro size_minus_le) (auto simp: kMaxBodyBytes_def)
  show ?thesis
    using n by (auto simp: extends_def parse_body_def Let_def minus)
qed

subsection \<open>The whole request\<close>

lemma parse_step_extends:
  assumes p: "parser_ok p" and a: "a = [] \<longrightarrow> line_buffer p = []" and b: "b \<noteq> []"
    and fits: "pstate p = kRequestLine \<longrightarrow> request_line_fits (line_buffer p @ a @ b)"
  shows "extends parse_step p a b"
proof -
  have same: "extends parse_step p a b"
    if "extends f p a b" and "\<And>q data. pstate q = pstate p \<Longrightarrow> parse_step q data = f q data" for f
    using that by (auto simp: extends_def split: StepResult.splits prod.splits)
  show ?thesis
  proof (cases "pstate p")
    case kRequestLine
    then show ?thesis
      using same [OF parse_request_line_extends [of p a b]] p fits by (simp add: parse_step_def)
  next
    case kHeaders
    then show ?thesis
      using same [OF parse_headers_extends [OF p kHeaders a b]] by (simp add: parse_step_def)
  next
    case kBody
    then show ?thesis
      using same [OF parse_body_extends [OF p kBody]] by (simp add: parse_step_def)
  next
    case kDone
    with p show ?thesis
      by (simp add: parser_ok_def)
  qed
qed

lemma parse_headers_buffer:
  assumes "parse_headers p a = (result, q, rest)"
  shows "(result = StepAdvanced \<longrightarrow> line_buffer q = []) \<and>
    (result = StepNeedMoreData \<longrightarrow> rest = [] \<and> (pstate p = kHeaders \<longrightarrow> pstate q = kHeaders))"
proof -
  define Q where "Q p out \<longleftrightarrow> (fst out = StepAdvanced \<longrightarrow> line_buffer (fst (snd out)) = []) \<and>
      (fst out = StepNeedMoreData \<longrightarrow> snd (snd out) = [] \<and>
        (pstate p = kHeaders \<longrightarrow> pstate (fst (snd out)) = kHeaders))"
    for p :: parser and out :: "StepResult \<times> parser \<times> string"
  have "Q p (parse_headers p a)"
    by (induction rule: parse_headers_rule [where P = "\<lambda>p _ out. Q p out"])
      (auto simp: Q_def header_turn_def after_line_def consume_header_line_moves fail_step_def Let_def
        split: if_splits option.splits)
  with assms show ?thesis
    by (simp add: Q_def)
qed

lemma parse_step_advanced_buffer:
  assumes "parse_step p a = (StepAdvanced, q, rest)" "parser_ok p"
  shows "line_buffer q = []"
proof (cases "pstate p")
  case kRequestLine
  with assms show ?thesis
    by (auto simp: parse_step_def parse_request_line_def Let_def fail_step_def
        split: if_splits option.splits prod.splits)
next
  case kHeaders
  with assms show ?thesis
    using parse_headers_buffer by (simp add: parse_step_def)
next
  case kBody
  with assms have "line_buffer p = []"
    by (simp add: parser_ok_def)
  with assms kBody show ?thesis
    by (auto simp: parse_step_def parse_body_def Let_def split: if_splits)
qed (use assms in \<open>simp add: parser_ok_def\<close>)

lemma parse_step_waits:
  assumes "parse_step p a = (StepNeedMoreData, q, rest)" "parser_ok p"
  shows "rest = [] \<and> (pstate q = kRequestLine \<longrightarrow> pstate p = kRequestLine \<and> line_buffer q = line_buffer p @ a)"
proof (cases "pstate p")
  case kRequestLine
  with assms show ?thesis
    using finish_request_line_moves
    by (auto simp: parse_step_def parse_request_line_def Let_def fail_step_def
        split: if_splits option.splits prod.splits) (metis fst_conv)+
next
  case kHeaders
  with assms show ?thesis
    using parse_headers_buffer [of p a StepNeedMoreData q rest] by (simp add: parse_step_def)
next
  case kBody
  with assms show ?thesis
    using parse_body_extends [of p a "[]"] by (simp add: parse_step_def extends_def)
qed (use assms in \<open>simp add: parser_ok_def\<close>)

lemma feed_failed: "fst (parse_step p d) = StepFailed \<Longrightarrow> pstate p \<noteq> kDone \<Longrightarrow> fst (feed p d) = kError"
  by (cases "parse_step p d") (simp add: feed.simps [of p d])

lemma feed_same_step:
  "parse_step q b = parse_step p d \<Longrightarrow> pstate q \<noteq> kDone \<Longrightarrow> pstate p \<noteq> kDone \<Longrightarrow> feed q b = feed p d"
  by (simp add: feed.simps [of p d] feed.simps [of q b])

lemma feed_extends:
  assumes "parser_ok p" "a = [] \<longrightarrow> line_buffer p = []" "b \<noteq> []"
    and "pstate p = kRequestLine \<longrightarrow> request_line_fits (line_buffer p @ a @ b)"
  shows "case feed p a of
      (kNeedMoreData, q, rest) \<Rightarrow> rest = [] \<and> agree kError (feed q b) (feed p (a @ b))
    | (kComplete, q, rest) \<Rightarrow> feed p (a @ b) = (kComplete, q, rest @ b)
    | (kError, q, rest) \<Rightarrow> fst (feed p (a @ b)) = kError"
  using assms
proof (induction p a rule: feed.induct)
  case (1 p a)
  obtain result q rest where step: "parse_step p a = (result, q, rest)"
    by (cases "parse_step p a") auto
  have ext: "extends parse_step p a b"
    by (rule parse_step_extends [OF "1.prems"])
  have live: "pstate p \<noteq> kDone"
    by (rule parser_ok_not_done [OF "1.prems"(1)])
  show ?case
  proof (cases result)
    case StepFailed
    with ext step live show ?thesis
      by (cases "parse_step p (a @ b)")
        (simp add: extends_def feed.simps [of p a] feed.simps [of p "a @ b"])
  next
    case StepNeedMoreData
    with ext step have "rest = []" "pstate q = pstate p"
      and same: "agree StepFailed (parse_step q b) (parse_step p (a @ b))"
      by (simp_all add: extends_def)
    then have "agree kError (feed q b) (feed p (a @ b))"
      using live feed_failed [of q b] feed_failed [of p "a @ b"] feed_same_step [of q b p "a @ b"]
      by (auto simp: agree_def)
    with StepNeedMoreData step live \<open>rest = []\<close> show ?thesis
      by (simp add: feed.simps [of p a])
  next
    case StepAdvanced
    with ext step have whole: "parse_step p (a @ b) = (StepAdvanced, q, rest @ b)"
      by (simp add: extends_def)
    show ?thesis
    proof (cases "pstate q = kDone")
      case True
      with StepAdvanced step whole live show ?thesis
        by (simp add: feed.simps [of p a] feed.simps [of p "a @ b"])
    next
      case False
      have "parser_ok q"
        using parse_step_ok [OF "1.prems"(1), of a] step StepAdvanced False by (simp add: step_ok_def)
      moreover have "line_buffer q = []"
        using parse_step_advanced_buffer step StepAdvanced "1.prems"(1) by simp
      moreover have "pstate q \<noteq> kRequestLine"
        using parse_step_advanced [of p a q rest] step StepAdvanced live
        by (cases "pstate p") auto
      ultimately have "case feed q rest of
            (kNeedMoreData, q', rest') \<Rightarrow> rest' = [] \<and> agree kError (feed q' b) (feed q (rest @ b))
          | (kComplete, q', rest') \<Rightarrow> feed q (rest @ b) = (kComplete, q', rest' @ b)
          | (kError, q', rest') \<Rightarrow> fst (feed q (rest @ b)) = kError"
        using "1.IH" [OF live step [symmetric] StepAdvanced refl False] assms(3) by simp
      moreover have same: "feed p a = feed q rest" "feed p (a @ b) = feed q (rest @ b)"
        using StepAdvanced step whole live False
        by (simp_all add: feed.simps [of p a] feed.simps [of p "a @ b"])
      ultimately show ?thesis
        unfolding same by simp
    qed
  qed
qed

text \<open>Feeding one piece after another, as the servers do with what each \<open>recv\<close> brings.\<close>

fun feed_chunks :: "parser \<Rightarrow> string list \<Rightarrow> ParseStatus \<times> parser \<times> string" where
  "feed_chunks p [] = (kNeedMoreData, p, [])"
| "feed_chunks p (chunk # chunks) =
     (case feed p chunk of
        (kNeedMoreData, q, rest) \<Rightarrow> feed_chunks q chunks
      | (status, q, rest) \<Rightarrow> (status, q, rest @ concat chunks))"

lemma feed_waits:
  assumes "feed p a = (kNeedMoreData, q, rest)" "parser_ok p"
  shows "rest = [] \<and> (pstate q = kRequestLine \<longrightarrow> pstate p = kRequestLine \<and> line_buffer q = line_buffer p @ a)"
  using assms
proof (induction p a rule: feed.induct)
  case (1 p a)
  obtain result q' rest' where step: "parse_step p a = (result, q', rest')"
    by (cases "parse_step p a") auto
  have live: "pstate p \<noteq> kDone"
    by (rule parser_ok_not_done [OF "1.prems"(2)])
  show ?case
  proof (cases result)
    case StepNeedMoreData
    with "1.prems" step live show ?thesis
      using parse_step_waits by (simp add: feed.simps [of p a])
  next
    case StepAdvanced
    with "1.prems"(1) step live have more: "pstate q' \<noteq> kDone" "feed q' rest' = (kNeedMoreData, q, rest)"
      by (simp_all add: feed.simps [of p a] split: if_splits)
    have "parser_ok q'"
      using parse_step_ok [OF "1.prems"(2), of a] step StepAdvanced more by (simp add: step_ok_def)
    then have IH: "rest = [] \<and> (pstate q = kRequestLine \<longrightarrow> pstate q' = kRequestLine)"
      using "1.IH" [OF live step [symmetric] StepAdvanced refl more(1) more(2)] by simp
    moreover have "pstate q' \<noteq> kRequestLine"
      using parse_step_advanced [of p a q' rest'] step StepAdvanced live
      by (cases "pstate p") auto
    ultimately show ?thesis
      by simp
  next
    case StepFailed
    with "1.prems"(1) step live show ?thesis
      by (simp add: feed.simps [of p a])
  qed
qed

lemma feed_chunks_concat:
  assumes "parser_ok p" "chunks \<noteq> []" "\<forall>chunk\<in>set chunks. chunk \<noteq> []"
    and "pstate p = kRequestLine \<longrightarrow> request_line_fits (line_buffer p @ concat chunks)"
  shows "agree kError (feed_chunks p chunks) (feed p (concat chunks))"
  using assms
proof (induction chunks arbitrary: p)
  case (Cons chunk chunks)
  obtain status q rest where fed: "feed p chunk = (status, q, rest)"
    by (cases "feed p chunk") auto
  note waits = feed_waits [OF _ Cons.prems(1)]
  show ?case
  proof (cases "chunks = []")
    case True
    with fed waits show ?thesis
      by (cases status) (auto simp: agree_def)
  next
    case False
    then have more: "concat chunks \<noteq> []"
      using Cons.prems(3) by (cases chunks) auto
    have ext: "case feed p chunk of
      (kNeedMoreData, q, rest) \<Rightarrow> rest = [] \<and> agree kError (feed q (concat chunks)) (feed p (chunk @ concat chunks))
    | (kComplete, q, rest) \<Rightarrow> feed p (chunk @ concat chunks) = (kComplete, q, rest @ concat chunks)
    | (kError, q, rest) \<Rightarrow> fst (feed p (chunk @ concat chunks)) = kError"
      using Cons.prems by (intro feed_extends more) simp_all
    show ?thesis
    proof (cases status)
      case kNeedMoreData
      with fed waits have line: "pstate q = kRequestLine \<Longrightarrow>
          pstate p = kRequestLine \<and> line_buffer q = line_buffer p @ chunk"
        by blast
      have "parser_ok q"
        using feed_ok [OF Cons.prems(1), of chunk] fed kNeedMoreData by simp
      then have "agree kError (feed_chunks q chunks) (feed q (concat chunks))"
        using Cons.prems False line by (intro Cons.IH) auto
      also have "agree kError \<dots> (feed p (chunk @ concat chunks))"
        using ext fed kNeedMoreData by simp
      finally show ?thesis
        using fed kNeedMoreData by simp
    next
      case kComplete
      with fed ext show ?thesis
        by simp
    next
      case kError
      with fed ext show ?thesis
        by (simp add: agree_def)
    qed
  qed
qed simp

end
