(* ===== verification/Arc_Parser_Requests.thy ===== *)
theory Arc_Parser_Requests
  imports Arc_Parser_Fragments
begin

text \<open>
  Requests on the wire: a client's rendering of a well-formed request is parsed back to that request,
  whatever follows it on the connection.  The last section records two ways the request-line cap
  depends on how the bytes are cut.
\<close>

definition request_line :: "HttpRequest \<Rightarrow> string" where
  "request_line rq = method_to_string (req_method rq) @ '' '' @ req_target rq @ '' '' @ req_version rq"

definition header_line :: "string \<times> string \<Rightarrow> string" where
  "header_line h = fst h @ '': '' @ snd h"

definition header_wire :: "HeaderList \<Rightarrow> string" where
  "header_wire hs = concat (map (\<lambda>h. header_line h @ CRLF) hs)"

definition render_request :: "HttpRequest \<Rightarrow> string" where
  "render_request rq = request_line rq @ CRLF @ header_wire (req_headers rq) @ CRLF @ req_body rq"

text \<open>The requests a client may send: well formed, within the caps as rendered.\<close>

definition sendable :: "HttpRequest \<Rightarrow> bool" where
  "sendable rq \<longleftrightarrow>
     complete_request rq \<and> clean_text (req_target rq) \<and>
     length (request_line rq) \<le> kMaxRequestLineLength \<and>
     length (header_wire (req_headers rq)) \<le> kMaxHeaderBytes"

subsection \<open>The request line\<close>

lemma finish_request_line_rendered:
  assumes "head_ok rq" "request p = default_request"
  shows "finish_request_line p (request_line rq) =
    (StepAdvanced,
     p\<lparr>request := default_request\<lparr>req_method := req_method rq, req_target := req_target rq,
         req_version := req_version rq\<rparr>,
       pstate := kHeaders, header_bytes_seen := 0\<rparr>)"
proof -
  define m where "m = method_to_string (req_method rq)"
  have m: "CHR '' '' \<notin> set m" "m = ''GET'' \<or> m = ''POST''" "m = ''GET'' \<longleftrightarrow> req_method rq = kGet"
    by (cases "req_method rq"; simp add: m_def)+
  have split1: "find_char CHR '' '' (request_line rq) = Some (length m)"
    using find_char_append [OF m(1)] by (simp add: request_line_def m_def)
  have split2: "find_char CHR '' '' (req_target rq @ CHR '' '' # req_version rq) = Some (length (req_target rq))"
    using assms(1) by (intro find_char_append) (simp add: head_ok_def)
  have parts: "drop (length m + 1) (request_line rq) = req_target rq @ CHR '' '' # req_version rq"
    "take (length m) (request_line rq) = m"
    by (simp_all add: request_line_def m_def)
  show ?thesis
    using assms m unfolding finish_request_line_def split1 option.case Let_def parts split2
    by (cases "req_method rq") (auto simp: head_ok_def find_char_None)
qed

lemma clean_crlf_free: "clean_text s \<Longrightarrow> crlf_free s"
  by (simp add: clean_text_def crlf_free_no_CR)

lemma request_line_clean:
  assumes "head_ok rq" "clean_text (req_target rq)"
  shows "clean_text (request_line rq)"
  using assms by (cases "req_method rq") (simp_all add: request_line_def head_ok_def clean_chars)

subsection \<open>The header block\<close>

lemma header_line_parts:
  assumes "header_ok h"
  shows "clean_text (header_line h)" "header_line h \<noteq> []"
    "find_char CHR '':'' (header_line h) = Some (length (fst h))"
    "take (length (fst h)) (header_line h) = fst h"
    "trim (drop (length (fst h) + 1) (header_line h)) = snd h"
proof -
  show "find_char CHR '':'' (header_line h) = Some (length (fst h))"
    using find_char_append [of "CHR '':''" "fst h"] assms by (simp add: header_line_def header_ok_def)
  have "trim ('' '' @ snd h) = snd h"
    using assms by (intro trim_padded) (auto simp: header_ok_def is_space_def)
  then show "trim (drop (length (fst h) + 1) (header_line h)) = snd h"
    by (simp add: header_line_def)
qed (use assms in \<open>auto simp: header_line_def header_ok_def clean_chars\<close>)

lemma consume_rendered_header:
  assumes "header_ok h"
    and "header_bytes_seen p + length (header_line h) + 2 \<le> kMaxHeaderBytes"
    and "\<not> (is_content_length h \<and> find_header (req_headers (request p)) ''Content-Length'' \<noteq> None)"
    and "length (req_headers (request p)) < kMaxHeaderCount"
  shows "consume_header_line p (header_line h) =
    (StepAdvanced,
     p\<lparr>header_bytes_seen := header_bytes_seen p + (length (header_line h) + 2),
       request := (request p)\<lparr>req_headers := req_headers (request p) @ [h]\<rparr>\<rparr>)"
proof -
  note parts = header_line_parts [OF assms(1)]
  have "find_char CR (header_line h) = None" "find_char LF (header_line h) = None"
    using parts(1) by (simp_all add: find_char_None clean_text_def)
  moreover have "fst h \<noteq> []" "find_char CHR '' '' (fst h) = None" "find_char TAB (fst h) = None"
    using assms(1) by (simp_all add: header_ok_def find_char_None)
  ultimately show ?thesis
    using assms(2-4) parts(2)
    unfolding consume_header_line_def parts(3) option.case Let_def parts(4,5)
    by (simp add: is_content_length_def)
qed

lemma parse_rendered_headers:
  assumes "line_buffer p = []" "pstate p = kHeaders"
    and "headers_ok (req_headers (request p) @ hs)"
    and "header_bytes_seen p + length (header_wire hs) \<le> kMaxHeaderBytes"
  shows "parse_headers p (header_wire hs @ rest) =
    parse_headers (p\<lparr>header_bytes_seen := header_bytes_seen p + length (header_wire hs),
      request := (request p)\<lparr>req_headers := req_headers (request p) @ hs\<rparr>\<rparr>) rest"
  using assms
proof (induction hs arbitrary: p)
  case Nil
  then show ?case
    by (cases p) (simp add: header_wire_def)
next
  case (Cons h hs)
  define q where "q = p\<lparr>header_bytes_seen := header_bytes_seen p + (length (header_line h) + 2),
       request := (request p)\<lparr>req_headers := req_headers (request p) @ [h]\<rparr>\<rparr>"
  have h: "header_ok h"
    using Cons.prems(3) by (simp add: headers_ok_def)
  note parts = header_line_parts [OF h]
  have wire: "header_wire (h # hs) @ rest = header_line h @ CR # LF # header_wire hs @ rest"
    by (simp add: header_wire_def CRLF_def)
  have at: "find_crlf (header_wire (h # hs) @ rest) = Some (length (header_line h))"
    unfolding wire by (rule find_crlf_line [OF clean_crlf_free [OF parts(1)]])
  have size: "length (header_wire (h # hs)) = length (header_line h) + 2 + length (header_wire hs)"
    by (simp add: header_wire_def CRLF_def)
  have "\<not> (is_content_length h \<and> find_header (req_headers (request p)) ''Content-Length'' \<noteq> None)"
  proof
    assume twice: "is_content_length h \<and> find_header (req_headers (request p)) ''Content-Length'' \<noteq> None"
    then obtain key v where "(key, v) \<in> set (req_headers (request p))" "is_content_length (key, v)"
      using find_header_SomeD by (fastforce simp: is_content_length_def)
    then have "filter is_content_length (req_headers (request p)) \<noteq> []"
      by (auto simp: filter_empty_conv)
    with twice Cons.prems(3) show False
      by (cases "filter is_content_length (req_headers (request p))") (auto simp: headers_ok_def)
  qed
  then have consumed: "consume_header_line p (header_line h) = (StepAdvanced, q)"
    unfolding q_def using h Cons.prems size by (intro consume_rendered_header) (auto simp: headers_ok_def)
  have "line_buffer q = []" "q\<lparr>line_buffer := []\<rparr> = q" "pstate q = kHeaders"
    using Cons.prems by (simp_all add: q_def)
  then have "header_turn p (header_wire (h # hs) @ rest) = Inr (q, header_wire hs @ rest)"
    using Cons.prems(2,4) size unfolding header_turn_line [OF Cons.prems(1) at]
    by (simp add: wire consumed after_line_def)
  then have "parse_headers p (header_wire (h # hs) @ rest) = parse_headers q (header_wire hs @ rest)"
    by (simp add: parse_headers_turn [of p "header_wire (h # hs) @ rest"])
  also have "\<dots> = parse_headers (q\<lparr>header_bytes_seen := header_bytes_seen q + length (header_wire hs),
      request := (request q)\<lparr>req_headers := req_headers (request q) @ hs\<rparr>\<rparr>) rest"
    using Cons.prems size \<open>line_buffer q = []\<close> \<open>pstate q = kHeaders\<close>
    by (intro Cons.IH) (simp_all add: q_def)
  finally show ?case
    by (simp add: q_def size ac_simps)
qed

lemma finish_headers_declared:
  assumes "declared_length (request p) = Some n"
  shows "finish_headers p =
    (StepAdvanced, p\<lparr>content_length := Some n, request := (request p)\<lparr>req_body := []\<rparr>,
       pstate := (if n = 0 then kDone else kBody)\<rparr>)"
  using assms
  by (auto simp: finish_headers_def declared_length_def Let_def split: option.splits sum.splits if_splits)

lemma parse_headers_end:
  assumes "line_buffer p = []" "declared_length (request p) = Some n"
  shows "parse_headers p (CRLF @ rest) =
    (StepAdvanced, p\<lparr>content_length := Some n, request := (request p)\<lparr>req_body := []\<rparr>,
       pstate := (if n = 0 then kDone else kBody)\<rparr>, rest)"
proof -
  have "find_crlf (CRLF @ rest) = Some 0"
    by (simp add: CRLF_def)
  note turn = header_turn_line [OF assms(1) this]
  define q where "q = p\<lparr>content_length := Some n, request := (request p)\<lparr>req_body := []\<rparr>,
       pstate := (if n = 0 then kDone else kBody)\<rparr>"
  have done_: "consume_header_line p [] = (StepAdvanced, q)"
    by (simp add: consume_header_line_def finish_headers_declared [OF assms(2)] q_def)
  have "q\<lparr>line_buffer := []\<rparr> = q" "pstate q \<noteq> kHeaders"
    using assms(1) by (simp_all add: q_def)
  with turn done_ have "header_turn p (CRLF @ rest) = Inl (StepAdvanced, q, rest)"
    by (simp add: after_line_def CRLF_def)
  then show ?thesis
    by (simp add: parse_headers_turn [of p "CRLF @ rest"] q_def)
qed

subsection \<open>The round trip\<close>

lemma parse_body_all:
  assumes "content_length p = Some (length b)" "req_body (request p) = []" "b \<noteq> []"
    and "length b \<le> kMaxBodyBytes"
  shows "parse_body p (b @ rest) =
    (StepAdvanced, p\<lparr>request := (request p)\<lparr>req_body := b\<rparr>, pstate := kDone\<rparr>, rest)"
proof -
  have "size_minus (length b) 0 = length b"
    using assms(4) size_minus_le [of 0 "length b"] by (simp add: kMaxBodyBytes_def)
  with assms show ?thesis
    by (simp add: parse_body_def Let_def)
qed

lemma parse_rendered_line:
  assumes "sendable rq"
  shows "parse_request_line new_parser (request_line rq @ CRLF @ rest) =
    (StepAdvanced,
     new_parser\<lparr>request := default_request\<lparr>req_method := req_method rq, req_target := req_target rq,
         req_version := req_version rq\<rparr>,
       pstate := kHeaders, header_bytes_seen := 0\<rparr>, rest)"
proof -
  have head: "head_ok rq" and clean: "clean_text (request_line rq)"
    and fits: "length (request_line rq) \<le> kMaxRequestLineLength"
    using assms request_line_clean by (simp_all add: sendable_def complete_request_def)
  have at: "find_crlf (request_line rq @ CRLF @ rest) = Some (length (request_line rq))"
    using find_crlf_line [OF clean_crlf_free [OF clean]] by (simp add: CRLF_def)
  have whole: "\<not> split_terminator new_parser (request_line rq @ CRLF @ rest)"
    by (simp add: split_terminator_def new_parser_def)
  have "finish_request_line (new_parser\<lparr>line_buffer := request_line rq\<rparr>) (request_line rq) =
    (StepAdvanced, new_parser\<lparr>line_buffer := request_line rq,
       request := default_request\<lparr>req_method := req_method rq, req_target := req_target rq,
         req_version := req_version rq\<rparr>,
       pstate := kHeaders, header_bytes_seen := 0\<rparr>)"
    using finish_request_line_rendered [OF head, of "new_parser\<lparr>line_buffer := request_line rq\<rparr>"]
    by (simp add: new_parser_def)
  with fits whole at show ?thesis
    by (simp add: parse_request_line_def Let_def new_parser_def CRLF_def)
qed

lemma feed_render:
  assumes "sendable rq"
  shows "\<exists>q. feed new_parser (render_request rq @ rest) = (kComplete, q, rest) \<and> request q = rq"
proof -
  define p where "p = new_parser\<lparr>request := default_request\<lparr>req_method := req_method rq,
         req_target := req_target rq, req_version := req_version rq\<rparr>,
       pstate := kHeaders, header_bytes_seen := 0\<rparr>"
  define q where "q = p\<lparr>header_bytes_seen := length (header_wire (req_headers rq)),
       request := (request p)\<lparr>req_headers := req_headers rq\<rparr>\<rparr>"
  define b where "b = req_body rq"
  define n where "n = length b"
  have ok: "headers_ok (req_headers rq)" "declared_length rq = Some n"
      "length (header_wire (req_headers rq)) \<le> kMaxHeaderBytes"
    using assms by (simp_all add: sendable_def complete_request_def n_def b_def)
  then have small: "n \<le> kMaxBodyBytes"
    by (auto simp: declared_length_def split: option.splits sum.splits if_splits)
  have declared: "declared_length (request q) = Some n"
    using ok(2) unfolding declared_length_def by (simp add: q_def p_def cong: if_cong option.case_cong)
  have line: "parse_request_line new_parser (render_request rq @ rest) =
      (StepAdvanced, p, header_wire (req_headers rq) @ CRLF @ b @ rest)"
    using parse_rendered_line [OF assms, of "header_wire (req_headers rq) @ CRLF @ b @ rest"]
    by (simp add: render_request_def p_def b_def)
  define r where "r = q\<lparr>content_length := Some n, request := (request q)\<lparr>req_body := []\<rparr>,
       pstate := (if n = 0 then kDone else kBody)\<rparr>"
  have "parse_headers p (header_wire (req_headers rq) @ CRLF @ b @ rest) =
      parse_headers q (CRLF @ b @ rest)"
    using ok parse_rendered_headers [of p "req_headers rq" "CRLF @ b @ rest"]
    by (simp add: p_def q_def new_parser_def default_request_def)
  also have "\<dots> = (StepAdvanced, r, b @ rest)"
    unfolding r_def by (rule parse_headers_end [OF _ declared]) (simp add: q_def p_def new_parser_def)
  finally have headers: "parse_headers p (header_wire (req_headers rq) @ CRLF @ b @ rest) =
      (StepAdvanced, r, b @ rest)" .
  have "feed new_parser (render_request rq @ rest) =
      feed p (header_wire (req_headers rq) @ CRLF @ b @ rest)"
    using line by (simp add: feed.simps [of new_parser] parse_step_def p_def) (simp add: new_parser_def)
  also have "\<dots> = (if n = 0 then (kComplete, r, b @ rest) else feed r (b @ rest))"
    using headers by (simp add: feed.simps [of p] parse_step_def p_def [symmetric]) (simp add: p_def r_def)
  finally have fed: "feed new_parser (render_request rq @ rest) =
      (if n = 0 then (kComplete, r, b @ rest) else feed r (b @ rest))" .
  have fields: "(request r)\<lparr>req_body := b\<rparr> = rq"
    by (cases rq) (simp add: r_def q_def p_def b_def default_request_def)
  show ?thesis
  proof (cases "n = 0")
    case True
    then have "b = []"
      by (simp add: n_def)
    with fields have "request r = rq"
      by (simp add: r_def)
    with fed True \<open>b = []\<close> show ?thesis
      by simp
  next
    case False
    then have "parse_body r (b @ rest) =
        (StepAdvanced, r\<lparr>request := (request r)\<lparr>req_body := b\<rparr>, pstate := kDone\<rparr>, rest)"
      using small by (intro parse_body_all) (auto simp: r_def n_def)
    then have "feed r (b @ rest) = (kComplete, r\<lparr>request := rq, pstate := kDone\<rparr>, rest)"
      using False fields by (simp add: feed.simps [of r] parse_step_def) (simp add: r_def)
    with fed False show ?thesis
      by simp
  qed
qed

subsection \<open>The request-line cap and how the bytes are cut\<close>

text \<open>
  A CR that arrives alone is never charged against the cap, however long the buffer already is, so a
  peer that sends one CR per segment makes the buffer grow without bound.
\<close>

lemma feed_single_CR:
  assumes "pstate p = kRequestLine"
  shows "feed p [CR] = (kNeedMoreData, p\<lparr>line_buffer := line_buffer p @ [CR]\<rparr>, [])"
  using assms
  by (simp add: feed.simps [of p] parse_step_def parse_request_line_def split_terminator_def Let_def)

lemma feed_CR_flood:
  "pstate p = kRequestLine \<Longrightarrow>
   feed_chunks p (replicate n [CR]) = (kNeedMoreData, p\<lparr>line_buffer := line_buffer p @ replicate n CR\<rparr>, [])"
  by (induction n arbitrary: p) (simp_all add: feed_single_CR replicate_app_Cons_same)

text \<open>
  A request line of exactly the capped length is taken when its CR LF comes with it, and refused when
  the segment ends between the CR and the LF.
\<close>

lemma feed_cut_terminator:
  assumes "length line = kMaxRequestLineLength" "clean_text line"
  shows "fst (feed_chunks new_parser [line @ [CR], LF # rest]) = kError"
proof -
  have "crlf_free (line @ [CR])"
    by (rule crlf_free_CR [OF clean_crlf_free [OF assms(2)]])
  then have "fst (parse_step new_parser (line @ [CR])) = StepFailed"
    using assms(1)
    by (simp add: parse_step_def parse_request_line_def split_terminator_def
        fail_step_def Let_def new_parser_def kMaxRequestLineLength_def)
  then have "fst (feed new_parser (line @ [CR])) = kError"
    by (rule feed_failed) (simp add: new_parser_def)
  then show ?thesis
    by (cases "feed new_parser (line @ [CR])") simp
qed

end
