(* ===== verification/Arc_Parser_Bounds.thy ===== *)
theory Arc_Parser_Bounds
  imports Arc_Parser_Requests
begin

text \<open>
  The cap on the request line (protocol/http_parser.cpp, kMaxRequestLineLength).  The buffer itself may grow
  beyond it by trailing CRs; without them it stays below the cap, and so does the request line of every
  request the parser completes.
\<close>

text \<open>The length of a string without the CRs at its end.\<close>

definition stem :: "string \<Rightarrow> nat" where
  "stem s = length (dropWhile (\<lambda>c. c = CR) (rev s))"

lemma stem_le: "stem s \<le> length s"
  unfolding stem_def using length_dropWhile_le [of "\<lambda>c. c = CR" "rev s"] by simp

lemma stem_snoc: "stem (s @ [c]) = (if c = CR then stem s else length s + 1)"
  by (simp add: stem_def)

lemma stem_butlast: "s \<noteq> [] \<Longrightarrow> last s = CR \<Longrightarrow> stem (butlast s) = stem s"
  by (metis append_butlast_last_id stem_snoc)

definition line_bounded :: "parser \<Rightarrow> bool" where
  "line_bounded p \<longleftrightarrow>
     (if pstate p = kRequestLine then stem (line_buffer p) \<le> kMaxRequestLineLength
      else length (request_line (request p)) \<le> kMaxRequestLineLength)"

lemma new_parser_bounded [simp]: "line_bounded new_parser"
  by (simp add: line_bounded_def new_parser_def stem_def)

subsection \<open>The request line\<close>

lemma finish_request_line_stored:
  assumes "finish_request_line p line = (StepAdvanced, q)"
  shows "request_line (request q) = line" and "stem line = length line" and "pstate q = kHeaders"
proof -
  have "request_line (request q) = line \<and> stem line = length line"
  proof (cases rule: finish_request_line_cases [of line p])
    case malformed
    with assms show ?thesis by simp
  next
    case (parts m t v)
    from parts(4) assms have "checked_request_line p m t v = (StepAdvanced, q)" by simp
    then have "m = ''GET'' \<or> m = ''POST''" "v = ''HTTP/1.1''"
      and "request q = (request p)\<lparr>req_method := (if m = ''GET'' then kGet else kPost), req_target := t, req_version := v\<rparr>"
      by (auto simp: checked_request_line_def Let_def split: if_splits)
    moreover from this(2) have "line = (m @ CHR '' '' # t @ '' HTTP/1.'') @ ''1''" by (simp add: parts(1))
    ultimately show ?thesis
      using stem_snoc [of "m @ CHR '' '' # t @ '' HTTP/1.''" "CHR ''1''"]
      by (auto simp: request_line_def parts(1) CR_def)
  qed
  then show "request_line (request q) = line" "stem line = length line" by simp_all
  show "pstate q = kHeaders" using assms by (rule finish_request_line_advanced)
qed

lemma finish_request_line_not_waiting: "fst (finish_request_line p line) \<noteq> StepNeedMoreData"
  by (auto simp: finish_request_line_def Let_def fail_step_def split: option.splits)

lemma parse_request_line_bounded:
  assumes "parse_request_line p data = (result, q, rest)" and "result \<noteq> StepFailed"
    and "line_bounded p" and "pstate p = kRequestLine"
  shows "line_bounded q"
proof -
  have buffer: "stem (line_buffer p) \<le> kMaxRequestLineLength" using assms(3,4) by (simp add: line_bounded_def)
  have stored: "line_bounded (q'\<lparr>line_buffer := []\<rparr>)"
    if "finish_request_line p' line = (r, q')" "r \<noteq> StepFailed" "stem line \<le> kMaxRequestLineLength" for p' line r q'
  proof -
    have "r = StepAdvanced"
      using that(1,2) finish_request_line_not_waiting [of p' line] by (cases r) auto
    then show ?thesis
      using finish_request_line_stored [of p' line q'] that by (simp add: line_bounded_def)
  qed
  show ?thesis
  proof (cases "split_terminator p data")
    case True
    then have "stem (butlast (line_buffer p)) \<le> kMaxRequestLineLength"
      using buffer by (simp add: split_terminator_def stem_butlast)
    with True assms(1,2) stored show ?thesis
      by (auto simp: parse_request_line_def Let_def split: prod.splits)
  next
    case False
    show ?thesis
    proof (cases "find_crlf data")
      case (Some crlf)
      have "stem (line_buffer p @ take crlf data) \<le> length (line_buffer p) + crlf"
        using stem_le [of "line_buffer p @ take crlf data"] by simp
      with False Some assms(1,2) stored show ?thesis
        by (auto simp: parse_request_line_def Let_def fail_step_def split: prod.splits if_splits)
    next
      case None
      show ?thesis
      proof (cases "data = [CR]")
        case True
        with False None assms(1,4) buffer show ?thesis
          by (auto simp: parse_request_line_def Let_def line_bounded_def stem_snoc)
      next
        case other: False
        then have "\<not> (length data = 1 \<and> hd data = CR)" by (cases data) auto
        with False None assms(1,2,4) stem_le [of "line_buffer p @ data"] show ?thesis
          by (auto simp: parse_request_line_def Let_def line_bounded_def fail_step_def split: if_splits)
      qed
    qed
  qed
qed

subsection \<open>The header block and the body\<close>

lemma finish_headers_keeps_line:
  "finish_headers p = (result, q) \<Longrightarrow> result \<noteq> StepFailed \<Longrightarrow> request_line (request q) = request_line (request p)"
  by (auto simp: finish_headers_def Let_def fail_step_def request_line_def split: option.splits sum.splits if_splits)

lemma consume_header_line_keeps_line:
  assumes "consume_header_line p line = (result, q)" and "result \<noteq> StepFailed"
  shows "request_line (request q) = request_line (request p)"
proof (cases rule: consume_header_line_cases [of line p])
  case blank
  then have "finish_headers p = (result, q)" using assms(1) by simp
  from finish_headers_keeps_line [OF this assms(2)] show ?thesis .
next
  case (failed q' code phrase body_text)
  with assms show ?thesis by (simp add: fail_step_def)
next
  case (stored name rest)
  with assms show ?thesis by (auto simp: request_line_def)
qed

lemma header_turn_keeps_line:
  shows "header_turn p data = Inl (result, q, rest) \<Longrightarrow> result \<noteq> StepFailed \<Longrightarrow>
      request_line (request q) = request_line (request p)"
    and "header_turn p data = Inr (q, rest) \<Longrightarrow> request_line (request q) = request_line (request p)"
proof -
  have line: "case after_line (consume_header_line p' line) rest' of
      Inl (result, q, rest) \<Rightarrow> result \<noteq> StepFailed \<longrightarrow> request_line (request q) = request_line (request p')
    | Inr (q, rest) \<Rightarrow> request_line (request q) = request_line (request p')" for p' line rest'
    using consume_header_line_keeps_line [of p' line] by (cases "consume_header_line p' line") (auto simp: after_line_def)
  have turn: "case header_turn p data of
      Inl (result, q, rest) \<Rightarrow> result \<noteq> StepFailed \<longrightarrow> request_line (request q) = request_line (request p)
    | Inr (q, rest) \<Rightarrow> request_line (request q) = request_line (request p)"
  proof (cases "split_terminator p data")
    case True
    then show ?thesis using line [of p] by (simp add: header_turn_def)
  next
    case False
    show ?thesis
    proof (cases "find_crlf data")
      case None
      with False show ?thesis by (simp add: header_turn_def Let_def)
    next
      case (Some crlf)
      define p' where "p' = p\<lparr>line_buffer := line_buffer p @ take crlf data\<rparr>"
      have "header_turn p data = Inl (fst (fail_step p 431 ''Request Header Fields Too Large'' ''headers exceed limit''),
              snd (fail_step p 431 ''Request Header Fields Too Large'' ''headers exceed limit''), data)
          \<or> header_turn p data = after_line (consume_header_line p' (line_buffer p')) (drop (crlf + 2) data)"
        using False Some by (simp add: header_turn_def Let_def p'_def split_beta)
      moreover have same: "request p' = request p" by (simp add: p'_def)
      note line [of p' "line_buffer p'" "drop (crlf + 2) data", unfolded same]
      ultimately show ?thesis by (auto simp: fail_step_def)
    qed
  qed
  then show "header_turn p data = Inl (result, q, rest) \<Longrightarrow> result \<noteq> StepFailed \<Longrightarrow>
      request_line (request q) = request_line (request p)"
    and "header_turn p data = Inr (q, rest) \<Longrightarrow> request_line (request q) = request_line (request p)"
    by simp_all
qed

lemma parse_headers_keeps_line:
  assumes "parse_headers p data = (result, q, rest)" and "result \<noteq> StepFailed"
  shows "request_line (request q) = request_line (request p)"
proof -
  have "fst (parse_headers p data) \<noteq> StepFailed \<longrightarrow>
      request_line (request (fst (snd (parse_headers p data)))) = request_line (request p)"
  proof (induction rule: parse_headers_rule [where P = "\<lambda>p _ out. fst out \<noteq> StepFailed \<longrightarrow>
          request_line (request (fst (snd out))) = request_line (request p)"])
    case (leave p data out)
    then show ?case using header_turn_keeps_line(1) [of p data] by (cases out) auto
  next
    case (turn p data q rest)
    then show ?case using header_turn_keeps_line(2) [of p data q rest] by simp
  qed
  with assms show ?thesis by simp
qed

lemma parse_step_bounded:
  assumes "parse_step p data = (result, q, rest)" and "result \<noteq> StepFailed"
    and "line_bounded p" and "parser_ok p"
  shows "line_bounded q"
proof (cases "pstate p")
  case kRequestLine
  with assms parse_request_line_bounded show ?thesis by (auto simp: parse_step_def)
next
  case kHeaders
  have same: "request_line (request q) = request_line (request p)"
    using assms(1,2) kHeaders parse_headers_keeps_line by (auto simp: parse_step_def)
  have "pstate q \<noteq> kRequestLine"
  proof (cases result)
    case StepAdvanced
    with assms(1) kHeaders show ?thesis using parse_headers_advanced by (fastforce simp: parse_step_def)
  next
    case StepNeedMoreData
    with parse_headers_buffer [of p data] assms(1) kHeaders show ?thesis by (simp add: parse_step_def)
  qed (use assms(2) in simp)
  with same assms(3) kHeaders show ?thesis by (simp add: line_bounded_def)
next
  case kBody
  with assms(1,3) show ?thesis by (auto simp: parse_step_def parse_body_def Let_def line_bounded_def request_line_def split: if_splits)
next
  case kDone
  with assms(4) show ?thesis by (simp add: parser_ok_def)
qed

lemma feed_bounded:
  assumes "line_bounded p" and "parser_ok p"
  shows "case feed p data of
      (kNeedMoreData, q, rest) \<Rightarrow> line_bounded q
    | (kComplete, q, rest) \<Rightarrow> length (request_line (request q)) \<le> kMaxRequestLineLength
    | (kError, q, rest) \<Rightarrow> True"
  using assms
proof (induction p data rule: feed.induct)
  case (1 p data)
  obtain result q rest where step: "parse_step p data = (result, q, rest)"
    by (cases "parse_step p data") auto
  have ok: "step_ok result q"
    using parse_step_ok [OF "1.prems"(2), of data] step by simp
  have live: "pstate p \<noteq> kDone"
    by (rule parser_ok_not_done [OF "1.prems"(2)])
  note bounded = parse_step_bounded [OF step _ "1.prems"]
  show ?case
  proof (cases result)
    case StepAdvanced
    show ?thesis
    proof (cases "pstate q = kDone")
      case False
      with ok StepAdvanced have "parser_ok q"
        by (simp add: step_ok_def)
      then show ?thesis
        using "1.IH" [OF live step [symmetric] StepAdvanced refl False] bounded StepAdvanced False step live
        by (simp add: feed.simps [of p data])
    next
      case True
      with bounded StepAdvanced step live show ?thesis
        by (simp add: feed.simps [of p data] line_bounded_def)
    qed
  qed (use bounded step live in \<open>simp_all add: feed.simps [of p data]\<close>)
qed

end
