(* ===== verification/Arc_Parser_Properties.thy ===== *)
theory Arc_Parser_Properties
  imports Arc_Parser_Bounds
begin

text \<open>
  The properties of ArcServe's request parser and of the responses made from parsed requests, each
  with the concrete instance that shows its hypotheses can hold.
\<close>

definition demo_request :: HttpRequest where
  "demo_request =
     \<lparr>req_method = kPost, req_target = ''/echo'', req_version = ''HTTP/1.1'',
      req_headers = [(''Content-Length'', ''2''), (''Content-Type'', ''a/b'')], req_body = ''hi''\<rparr>"

lemma demo_request_simps:
  "req_method demo_request = kPost" "req_target demo_request = ''/echo''"
  "req_version demo_request = ''HTTP/1.1''"
  "req_headers demo_request = [(''Content-Length'', ''2''), (''Content-Type'', ''a/b'')]"
  "req_body demo_request = ''hi''"
  by (simp_all add: demo_request_def)

lemma demo_declared: "declared_length demo_request = Some 2"
proof -
  have "from_chars_unsigned (2 ^ 64 - 1) ''2'' = Inr (2, [])"
    by (simp add: from_chars_unsigned_def is_digit_def digits_value_def)
  then show ?thesis
    by (simp add: declared_length_def demo_request_simps kMaxBodyBytes_def)
qed

lemma demo_sendable: "sendable demo_request"
proof -
  have "headers_ok (req_headers demo_request)"
    by (simp add: headers_ok_def header_ok_def demo_request_simps clean_chars TAB_def kMaxHeaderCount_def
        is_content_length_def case_insensitive_map tolower_def trim_def is_space_def)
  then show ?thesis
    using demo_declared
    by (simp add: sendable_def complete_request_def head_ok_def demo_request_simps clean_chars
        request_line_def kMaxRequestLineLength_def header_wire_def header_line_def CRLF_def
        kMaxHeaderBytes_def header_bytes_def)
qed

text \<open>C16: Fragmented delivery is transparent.  However the bytes of a connection are cut into non-empty
  segments, feeding the segments one after the other returns what feeding all the bytes at once
  returns: the same status, and, unless it is an error, the same request, parser state and unread
  rest.  On the first line this needs a request line shorter than the cap.\<close>

theorem fragmentation_is_transparent:
  assumes "segments \<noteq> []" "\<forall>segment\<in>set segments. segment \<noteq> []" "request_line_fits (concat segments)"
  shows "(case feed_chunks new_parser segments of (status, q, rest) \<Rightarrow>
      case feed new_parser (concat segments) of (status', q', rest') \<Rightarrow>
        status = status' \<and> (status \<noteq> kError \<longrightarrow> q = q' \<and> rest = rest'))"
  using feed_chunks_concat [OF new_parser_ok assms(1,2)] assms(3)
  by (auto simp: agree_def new_parser_def split: prod.splits)

theorem fragmentation_is_transparent_witness:
  "fst (feed_chunks new_parser [[CHR ''G''], ''ET / HTTP/1.1'' @ [CR], [LF, CR], [LF]]) =
     fst (feed new_parser (''GET / HTTP/1.1'' @ [CR, LF, CR, LF]))"
proof -
  let ?segments = "[[CHR ''G''], ''ET / HTTP/1.1'' @ [CR], [LF, CR], [LF]]"
  have "request_line_fits (concat ?segments)"
    by (simp add: request_line_fits_def find_crlf_Cons CR_def LF_def kMaxRequestLineLength_def)
  from fragmentation_is_transparent [OF _ _ this] show ?thesis
    by (simp add: case_prod_beta)
qed

text \<open>C17: A client's rendering of a well-formed request within the documented limits is parsed back to
  exactly that request, and the bytes that follow it on the connection are left untouched.\<close>

theorem rendered_request_is_parsed_back:
  assumes "sendable rq"
  shows "\<exists>q. feed new_parser (render_request rq @ rest) = (kComplete, q, rest) \<and> request q = rq"
  by (rule feed_render [OF assms])

theorem rendered_request_is_parsed_back_witness:
  "\<exists>q. feed new_parser (render_request demo_request @ ''GET '') = (kComplete, q, ''GET '') \<and>
     request q = demo_request"
  by (rule rendered_request_is_parsed_back [OF demo_sendable])

text \<open>C18: Whatever arrives and however it is cut, the parser keeps its invariant and never holds more of
  a request line than the cap, trailing CRs apart.  A completed request is well formed: an origin-form
  target without spaces, the one supported version, a request line of at most 8192 bytes, at most 100
  headers of at most 8192 bytes with clean names and trimmed values, at most one Content-Length, a body
  of exactly the declared length of at most 1 MiB.  Every error is one of the documented responses and
  closes the connection.\<close>

theorem feed_keeps_requests_well_formed:
  assumes "parser_ok p" "line_bounded p"
  shows "case feed p data of
      (kNeedMoreData, q, rest) \<Rightarrow> parser_ok q \<and> line_bounded q
    | (kComplete, q, rest) \<Rightarrow>
        complete_request (request q) \<and>
        length (request_line (request q)) \<le> kMaxRequestLineLength \<and>
        length (req_body (request q)) \<le> kMaxBodyBytes
    | (kError, q, rest) \<Rightarrow> documented_error (error_response q)"
proof -
  have "complete_request rq \<Longrightarrow> length (req_body rq) \<le> kMaxBodyBytes" for rq
    by (auto simp: complete_request_def declared_length_def kMaxBodyBytes_def
        split: option.splits sum.splits if_splits)
  then show ?thesis
    using feed_ok [OF assms(1), of data] feed_bounded [OF assms(2,1), of data]
    by (auto split: prod.splits ParseStatus.splits)
qed

theorem feed_keeps_requests_well_formed_witness:
  "\<exists>p q. feed new_parser ''POST /echo HT'' = (kNeedMoreData, p, []) \<and> parser_ok p \<and>
     feed new_parser (render_request demo_request) = (kComplete, q, []) \<and>
     length (request_line (request q)) \<le> 8192 \<and> declared_length (request q) = Some 2"
proof -
  obtain q where fed: "feed new_parser (render_request demo_request) = (kComplete, q, [])" "request q = demo_request"
    using feed_render [OF demo_sendable, of "[]"] by auto
  have "feed new_parser ''POST /echo HT'' = (kNeedMoreData, new_parser\<lparr>line_buffer := ''POST /echo HT''\<rparr>, [])"
    by (subst feed.simps) (simp add: parse_step_def parse_request_line_def split_terminator_def
        new_parser_def find_crlf_Cons CR_def kMaxRequestLineLength_def Let_def)
  with feed_keeps_requests_well_formed [OF new_parser_ok new_parser_bounded, of "''POST /echo HT''"]
    feed_keeps_requests_well_formed [OF new_parser_ok new_parser_bounded, of "render_request demo_request"] fed
  show ?thesis by (auto simp: demo_declared kMaxRequestLineLength_def)
qed

text \<open>C37: The buffer for a partial request line is not bounded by the documented cap: a peer that sends
  single CR bytes, one per segment, is never refused, and the buffer holds all of them.\<close>

theorem request_line_buffer_is_unbounded:
  "\<exists>q. feed_chunks new_parser (replicate n [CR]) = (kNeedMoreData, q, []) \<and> length (line_buffer q) = n"
  using feed_CR_flood [of new_parser n] by (simp add: new_parser_def)

text \<open>A valid request whose request line has exactly the permitted 8192 bytes is accepted when it arrives
  in one piece, and refused when the first segment holds the whole line and the CR behind it.  (When the
  CR arrives in a segment of its own the line is accepted: the exemption covers that segment only.)\<close>

theorem full_length_line_depends_on_cut:
  "let line = ''GET /'' @ replicate 8178 CHR ''a'' @ '' HTTP/1.1'' in
     length line = kMaxRequestLineLength \<and>
     fst (feed new_parser (line @ CRLF @ CRLF)) = kComplete \<and>
     fst (feed_chunks new_parser [line @ [CR], LF # CRLF]) = kError"
proof -
  define rq where "rq = \<lparr>req_method = kGet, req_target = CHR ''/'' # replicate 8178 CHR ''a'',
      req_version = ''HTTP/1.1'', req_headers = [], req_body = []\<rparr>"
  have line: "request_line rq = ''GET /'' @ replicate 8178 CHR ''a'' @ '' HTTP/1.1''"
    by (simp add: rq_def request_line_def)
  have clean: "clean_text (replicate 8178 CHR ''a'')"
    by (simp add: clean_text_def CR_def LF_def)
  have size: "length (request_line rq) = kMaxRequestLineLength"
    by (simp add: line kMaxRequestLineLength_def)
  have "sendable rq"
    using clean size
    by (simp add: sendable_def complete_request_def head_ok_def headers_ok_def declared_length_def
        header_wire_def header_bytes_def) (simp add: rq_def clean_chars)
  then have whole: "fst (feed new_parser (request_line rq @ CRLF @ CRLF)) = kComplete"
    using feed_render [of rq "[]"] by (auto simp: render_request_def header_wire_def rq_def)
  have "clean_text (request_line rq)"
    using clean by (simp add: line clean_chars)
  then have "fst (feed_chunks new_parser [request_line rq @ [CR], LF # CRLF]) = kError"
    by (rule feed_cut_terminator [OF size])
  with whole size show ?thesis
    unfolding Let_def line by blast
qed

text \<open>C19: No request can inject a header or a status line into the reply of the default route, the echo
  of its Content-Type included: a client that reads the head of the reply line by line gets exactly the
  lines the response has, and then the body; and none of those lines holds a CR or an LF, so a client
  that also ends lines at a bare CR or LF gets the same lines.\<close>

theorem reply_cannot_be_split:
  assumes "parser_ok p" "feed p data = (kComplete, q, rest)"
  shows "head_lines (serialize (default_route (request q))) =
      Some (response_lines (default_route (request q)), resp_body (default_route (request q))) \<and>
    (\<forall>line\<in>set (response_lines (default_route (request q))). CR \<notin> set line \<and> LF \<notin> set line \<and> line \<noteq> [])"
proof -
  have "headers_ok (req_headers (request q))"
    using feed_ok [OF assms(1), of data] assms(2) by (simp add: complete_request_def)
  then have "clean_headers (req_headers (request q))"
    by (auto simp: headers_ok_def header_ok_def clean_headers_def)
  from default_route_clean [OF this]
  have "clean_text (reason_phrase (default_route (request q)))" "clean_headers (resp_headers (default_route (request q)))"
    by simp_all
  from head_lines_serialize [OF this] response_lines_clean [OF this] show ?thesis
    unfolding clean_text_def by blast
qed

theorem reply_cannot_be_split_witness:
  "\<exists>q. feed new_parser (render_request demo_request) = (kComplete, q, []) \<and>
     head_lines (serialize (default_route (request q))) =
       Some (response_lines (default_route demo_request), ''hi'') \<and>
     ''Content-Type: a/b'' \<in> set (response_lines (default_route demo_request))"
proof -
  obtain q where fed: "feed new_parser (render_request demo_request) = (kComplete, q, [])"
      "request q = demo_request"
    using feed_render [OF demo_sendable, of "[]"] by auto
  have "resp_body (default_route demo_request) = ''hi''"
      "''Content-Type: a/b'' \<in> set (response_lines (default_route demo_request))"
    by (simp_all add: default_route_def default_response_def demo_request_def Let_def response_lines_def
        case_insensitive_map tolower_def)
  then show ?thesis
    using reply_cannot_be_split [OF new_parser_ok fed(1)] fed by metis
qed

end
