(* ===== verification/Arc_Byte_Buffer.thy ===== *)
theory Arc_Byte_Buffer
  imports Arc_Text
begin

text \<open>
  The grow-capped contiguous buffer (buffers/byte_buffer.hpp, buffers/byte_buffer.cpp) and the contract
  it shares with the output queue: a locale of bounded byte queues, whose one theorem says that what
  was taken out followed by what is still held is what was accepted, in order.
\<close>

subsection \<open>The contract of a bounded byte queue\<close>

datatype queue_op = Push string | Take nat

locale byte_fifo =
  fixes ok :: "'q \<Rightarrow> bool"
    and held :: "'q \<Rightarrow> string"
    and capacity :: "'q \<Rightarrow> nat"
    and push :: "'q \<Rightarrow> string \<Rightarrow> bool \<times> 'q"
    and consume :: "nat \<Rightarrow> 'q \<Rightarrow> 'q"
  assumes held_capacity: "ok q \<Longrightarrow> length (held q) \<le> capacity q"
    and push_ok: "ok q \<Longrightarrow> length s < 2 ^ 63 \<Longrightarrow> ok (snd (push q s))"
    and push_accepts: "ok q \<Longrightarrow> fst (push q s) \<longleftrightarrow> length (held q) + length s \<le> capacity q"
    and push_held: "ok q \<Longrightarrow> held (snd (push q s)) = (if fst (push q s) then held q @ s else held q)"
    and push_capacity: "capacity (snd (push q s)) = capacity q"
    and consume_ok: "ok q \<Longrightarrow> ok (consume n q)"
    and consume_prefix: "ok q \<Longrightarrow> \<exists>m\<le>n. held (consume n q) = drop m (held q)"
    and consume_capacity: "capacity (consume n q) = capacity q"
begin

text \<open>A run of operations: the queue after it, what came out, what was accepted.\<close>

fun run_ops :: "'q \<Rightarrow> queue_op list \<Rightarrow> 'q \<times> string \<times> string" where
  "run_ops q [] = (q, [], [])"
| "run_ops q (Push s # ops) =
     (let (accepted, q1) = push q s; (q2, out, inn) = run_ops q1 ops in
      (q2, out, (if accepted then s else []) @ inn))"
| "run_ops q (Take n # ops) =
     (let q1 = consume n q; (q2, out, inn) = run_ops q1 ops in
      (q2, take (length (held q) - length (held q1)) (held q) @ out, inn))"

lemma consume_taken:
  assumes "ok q"
  shows "take (length (held q) - length (held (consume n q))) (held q) @ held (consume n q) = held q"
proof -
  obtain m where "held (consume n q) = drop m (held q)"
    using consume_prefix [OF assms] by blast
  then show ?thesis
    by (cases "m \<le> length (held q)") simp_all
qed

theorem fifo:
  assumes "ok q" "\<forall>s. Push s \<in> set ops \<longrightarrow> length s < 2 ^ 63" "run_ops q ops = (q', out, inn)"
  shows "ok q' \<and> capacity q' = capacity q \<and> out @ held q' = held q @ inn \<and>
    length (held q') \<le> capacity q"
  using assms
proof (induction q ops arbitrary: q' out inn rule: run_ops.induct)
  case (1 q)
  then show ?case
    using held_capacity by simp
next
  case (2 q s ops)
  obtain accepted q1 where push: "push q s = (accepted, q1)"
    by fastforce
  obtain inn' where run: "run_ops q1 ops = (q', out, inn')" "inn = (if accepted then s else []) @ inn'"
    using "2.prems"(3) by (cases "run_ops q1 ops") (auto simp: push)
  have "ok q1" "held q1 = (if accepted then held q @ s else held q)" "capacity q1 = capacity q"
    using push_ok [of q s] push_held [of q s] push_capacity [of q s] push "2.prems" by auto
  then show ?case
    using "2.IH" [OF push [symmetric] refl _ _ run(1)] "2.prems"(2) run(2) by auto
next
  case (3 q n ops)
  define q1 where "q1 = consume n q"
  obtain out' where run: "run_ops q1 ops = (q', out', inn)"
    and out: "out = take (length (held q) - length (held q1)) (held q) @ out'"
    using "3.prems"(3) by (cases "run_ops q1 ops") (auto simp: q1_def Let_def)
  have "ok q1" "capacity q1 = capacity q"
    using consume_ok consume_capacity "3.prems"(1) by (simp_all add: q1_def)
  then have "ok q' \<and> capacity q' = capacity q \<and> out' @ held q' = held q1 @ inn \<and>
      length (held q') \<le> capacity q"
    using "3.IH" [OF q1_def _ _ run] "3.prems"(2) by auto
  moreover have "take (length (held q) - length (held q1)) (held q) @ held q1 = held q"
    unfolding q1_def by (rule consume_taken [OF "3.prems"(1)])
  ultimately show ?case
    unfolding out by (metis append.assoc)
qed

end

subsection \<open>The byte buffer\<close>

record ByteBuffer =
  storage :: string
  read_offset :: nat
  max_capacity :: nat

definition kUnboundedCapacity :: nat where "kUnboundedCapacity = 2 ^ 64 - 1"

definition new_buffer :: "nat \<Rightarrow> ByteBuffer" where
  "new_buffer capacity = \<lparr>storage = [], read_offset = 0, max_capacity = capacity\<rparr>"

definition buffer_size :: "ByteBuffer \<Rightarrow> nat" where
  "buffer_size b = size_minus (length (storage b)) (read_offset b)"

definition buffer_empty :: "ByteBuffer \<Rightarrow> bool" where
  "buffer_empty b \<longleftrightarrow> buffer_size b = 0"

definition buffer_view :: "ByteBuffer \<Rightarrow> string" where
  "buffer_view b = take (buffer_size b) (drop (read_offset b) (storage b))"

definition buffer_append :: "ByteBuffer \<Rightarrow> string \<Rightarrow> bool \<times> ByteBuffer" where
  "buffer_append b data =
     (if length data = 0 then (True, b)
      else if length data > size_minus (max_capacity b) (buffer_size b) then (False, b)
      else (True, b\<lparr>storage := storage b @ data\<rparr>))"

definition compact_if_worthwhile :: "ByteBuffer \<Rightarrow> ByteBuffer" where
  "compact_if_worthwhile b =
     (if read_offset b = length (storage b) then b\<lparr>storage := [], read_offset := 0\<rparr>
      else if read_offset b > 0 \<and> read_offset b \<ge> length (storage b) div 2
      then b\<lparr>storage := drop (read_offset b) (storage b), read_offset := 0\<rparr>
      else b)"

definition buffer_consume :: "nat \<Rightarrow> ByteBuffer \<Rightarrow> ByteBuffer" where
  "buffer_consume n b =
     (let taken = min n (buffer_size b) in
      compact_if_worthwhile (b\<lparr>read_offset := read_offset b + taken\<rparr>))"

definition buffer_clear :: "ByteBuffer \<Rightarrow> ByteBuffer" where
  "buffer_clear b = b\<lparr>storage := [], read_offset := 0\<rparr>"

text \<open>
  The invariant: the unread bytes are within the cap, and the consumed prefix still stored is smaller
  than the unread rest, so the storage never exceeds twice the bytes it is there for.
\<close>

definition buffer_ok :: "ByteBuffer \<Rightarrow> bool" where
  "buffer_ok b \<longleftrightarrow>
     length (storage b) < 2 ^ 64 \<and> max_capacity b < 2 ^ 64 \<and>
     length (storage b) - read_offset b \<le> max_capacity b \<and>
     (read_offset b = 0 \<or> read_offset b < length (storage b) - read_offset b)"

definition bytes_of :: "ByteBuffer \<Rightarrow> string" where
  "bytes_of b = drop (read_offset b) (storage b)"

lemma buffer_size_ok: "buffer_ok b \<Longrightarrow> buffer_size b = length (bytes_of b)"
  by (auto simp: buffer_size_def buffer_ok_def bytes_of_def size_minus_le)

lemma buffer_view_ok: "buffer_ok b \<Longrightarrow> buffer_view b = bytes_of b"
  using buffer_size_ok [of b] by (simp add: buffer_view_def bytes_of_def)

lemma buffer_empty_ok: "buffer_ok b \<Longrightarrow> buffer_empty b \<longleftrightarrow> bytes_of b = []"
  by (simp add: buffer_empty_def buffer_size_ok)

lemma bytes_of_new [simp]: "bytes_of (new_buffer c) = []"
  by (simp add: bytes_of_def new_buffer_def)

lemma buffer_ok_new [simp]: "c < 2 ^ 64 \<Longrightarrow> buffer_ok (new_buffer c)"
  by (simp add: buffer_ok_def new_buffer_def)

lemma buffer_append_max [simp]: "max_capacity (snd (buffer_append b s)) = max_capacity b"
  by (simp add: buffer_append_def)

lemma buffer_consume_max [simp]: "max_capacity (buffer_consume n b) = max_capacity b"
  by (simp add: buffer_consume_def compact_if_worthwhile_def Let_def)

lemma bytes_of_clear [simp]: "bytes_of (buffer_clear b) = []"
  by (simp add: bytes_of_def buffer_clear_def)

lemma buffer_ok_clear [simp]: "buffer_ok b \<Longrightarrow> buffer_ok (buffer_clear b)"
  by (simp add: buffer_ok_def buffer_clear_def)

lemma buffer_append_accepts:
  assumes "buffer_ok b"
  shows "fst (buffer_append b s) \<longleftrightarrow> length (bytes_of b) + length s \<le> max_capacity b"
proof -
  have "length (bytes_of b) \<le> max_capacity b" "max_capacity b < 2 ^ 64"
    using assms by (simp_all add: buffer_ok_def bytes_of_def)
  then show ?thesis
    using buffer_size_ok [OF assms] by (auto simp: buffer_append_def size_minus_le)
qed

lemma buffer_append_bytes:
  assumes "buffer_ok b"
  shows "bytes_of (snd (buffer_append b s)) =
    (if fst (buffer_append b s) then bytes_of b @ s else bytes_of b)"
  using assms by (auto simp: buffer_append_def bytes_of_def buffer_ok_def)

text \<open>The storage fits the address space as long as the cap and the appended piece do.\<close>

lemma buffer_append_ok:
  assumes "buffer_ok b" "max_capacity b < 2 ^ 62" "length s < 2 ^ 63"
  shows "buffer_ok (snd (buffer_append b s))"
proof -
  have "length (bytes_of b) + length s \<le> max_capacity b" if "fst (buffer_append b s)"
    using that buffer_append_accepts [OF assms(1)] by simp
  with assms show ?thesis
    by (auto simp: buffer_append_def buffer_ok_def bytes_of_def split: if_splits)
qed

lemma buffer_consume_bytes:
  assumes "buffer_ok b"
  shows "bytes_of (buffer_consume n b) = drop n (bytes_of b)"
proof -
  have "read_offset b \<le> length (storage b)"
    using assms by (auto simp: buffer_ok_def)
  then show ?thesis
    using buffer_size_ok [OF assms]
    by (auto simp: buffer_consume_def compact_if_worthwhile_def bytes_of_def Let_def min_def ac_simps)
qed

lemma buffer_consume_ok:
  assumes "buffer_ok b"
  shows "buffer_ok (buffer_consume n b)"
proof -
  have "read_offset b + min n (buffer_size b) \<le> length (storage b)"
    using assms buffer_size_ok [OF assms] by (auto simp: buffer_ok_def bytes_of_def)
  then show ?thesis
    using assms by (auto simp: buffer_consume_def compact_if_worthwhile_def buffer_ok_def Let_def)
qed

lemma buffer_storage_bound: "buffer_ok b \<Longrightarrow> length (storage b) \<le> 2 * length (bytes_of b)"
  by (auto simp: buffer_ok_def bytes_of_def)

interpretation buffer: byte_fifo "\<lambda>b. buffer_ok b \<and> max_capacity b < 2 ^ 62" bytes_of max_capacity
  buffer_append buffer_consume
proof unfold_locales
  fix b s n
  assume ok: "buffer_ok b \<and> max_capacity b < 2 ^ 62"
  show "length (bytes_of b) \<le> max_capacity b"
    using ok by (simp add: buffer_ok_def bytes_of_def)
  show "fst (buffer_append b s) = (length (bytes_of b) + length s \<le> max_capacity b)"
    using ok buffer_append_accepts by blast
  show "bytes_of (snd (buffer_append b s)) =
      (if fst (buffer_append b s) then bytes_of b @ s else bytes_of b)"
    using ok buffer_append_bytes by blast
  show "buffer_ok (buffer_consume n b) \<and> max_capacity (buffer_consume n b) < 2 ^ 62"
    using ok buffer_consume_ok by simp
  show "\<exists>m\<le>n. bytes_of (buffer_consume n b) = drop m (bytes_of b)"
    using ok buffer_consume_bytes by blast
  assume "length s < 2 ^ 63"
  then show "buffer_ok (snd (buffer_append b s)) \<and> max_capacity (snd (buffer_append b s)) < 2 ^ 62"
    using ok buffer_append_ok by simp
qed simp_all

end
