(* ===== verification/Arc_Output_Queue.thy ===== *)
theory Arc_Output_Queue
  imports Arc_Byte_Buffer
begin

text \<open>
  The bounded multi-chunk send queue of a connection (reactor/output_queue.hpp,
  reactor/output_queue.cpp): a deque of byte buffers and the count of their unread bytes.  It
  satisfies the contract of a bounded byte queue.
\<close>

record OutputQueue =
  chunks :: "ByteBuffer list"
  queued_bytes :: nat
  max_buffered_bytes :: nat

definition kDefaultMaxOutputQueueBytes :: nat where
  "kDefaultMaxOutputQueueBytes = 16 * 1024 * 1024"

definition new_output_queue :: "nat \<Rightarrow> OutputQueue" where
  "new_output_queue max_bytes = \<lparr>chunks = [], queued_bytes = 0, max_buffered_bytes = max_bytes\<rparr>"

definition enqueue :: "OutputQueue \<Rightarrow> string \<Rightarrow> bool \<times> OutputQueue" where
  "enqueue q data =
     (if data = [] then (True, q)
      else if length data >
              size_minus (max_buffered_bytes q) (min (queued_bytes q) (max_buffered_bytes q))
      then (False, q)
      else
        let chunk = new_buffer (length data);
            (appended, chunk) = buffer_append chunk data in
        (True, q\<lparr>chunks := chunks q @ [chunk], queued_bytes := queued_bytes q + length data\<rparr>))"

definition front :: "OutputQueue \<Rightarrow> string" where
  "front q = (if chunks q = [] then [] else buffer_view (hd (chunks q)))"

definition queue_consume :: "nat \<Rightarrow> OutputQueue \<Rightarrow> OutputQueue" where
  "queue_consume n q =
     (if chunks q = [] then q
      else
        let taken = min n (buffer_size (hd (chunks q)));
            chunk = buffer_consume taken (hd (chunks q));
            remaining = size_minus (queued_bytes q) taken in
        q\<lparr>chunks := (if buffer_empty chunk then tl (chunks q) else chunk # tl (chunks q)),
          queued_bytes := remaining\<rparr>)"

definition queue_empty :: "OutputQueue \<Rightarrow> bool" where
  "queue_empty q \<longleftrightarrow> chunks q = []"

subsection \<open>The queue as one byte string\<close>

definition queue_bytes :: "OutputQueue \<Rightarrow> string" where
  "queue_bytes q = concat (map bytes_of (chunks q))"

definition queue_ok :: "OutputQueue \<Rightarrow> bool" where
  "queue_ok q \<longleftrightarrow>
     (\<forall>c\<in>set (chunks q). buffer_ok c \<and> bytes_of c \<noteq> []) \<and>
     queued_bytes q = length (queue_bytes q) \<and>
     queued_bytes q \<le> max_buffered_bytes q \<and> max_buffered_bytes q < 2 ^ 64"

lemma queue_ok_new [simp]: "n < 2 ^ 64 \<Longrightarrow> queue_ok (new_output_queue n)"
  by (simp add: queue_ok_def new_output_queue_def queue_bytes_def)

lemma queue_bytes_new [simp]: "queue_bytes (new_output_queue n) = []"
  by (simp add: queue_bytes_def new_output_queue_def)

lemma queue_empty_bytes: "queue_ok q \<Longrightarrow> queue_empty q \<longleftrightarrow> queue_bytes q = []"
  by (cases "chunks q") (auto simp: queue_empty_def queue_bytes_def queue_ok_def)

lemma front_prefix:
  assumes "queue_ok q"
  shows "front q = take (length (front q)) (queue_bytes q)"
    "chunks q \<noteq> [] \<Longrightarrow> front q = bytes_of (hd (chunks q)) \<and> front q \<noteq> []"
proof -
  have "front q = bytes_of (hd (chunks q)) \<and> front q \<noteq> []" if "chunks q \<noteq> []"
    using that assms by (cases "chunks q") (auto simp: front_def queue_ok_def buffer_view_ok)
  then show "chunks q \<noteq> [] \<Longrightarrow> front q = bytes_of (hd (chunks q)) \<and> front q \<noteq> []"
    and "front q = take (length (front q)) (queue_bytes q)"
    by (cases "chunks q"; simp add: front_def queue_bytes_def)+
qed

lemma enqueue_accepts:
  assumes "queue_ok q"
  shows "fst (enqueue q s) \<longleftrightarrow> length (queue_bytes q) + length s \<le> max_buffered_bytes q"
  using assms by (auto simp: enqueue_def queue_ok_def size_minus_le Let_def case_prod_beta)

lemma new_chunk:
  assumes "length s < 2 ^ 64" "s \<noteq> []"
  shows "snd (buffer_append (new_buffer (length s)) s) =
    \<lparr>storage = s, read_offset = 0, max_capacity = length s\<rparr>"
  using assms
  by (simp add: buffer_append_def new_buffer_def buffer_size_def size_minus_le)

lemma enqueue_refused:
  assumes "\<not> (fst (enqueue q s) \<and> s \<noteq> [])"
  shows "snd (enqueue q s) = q"
proof (cases "s = []")
  case True
  then show ?thesis
    by (simp add: enqueue_def)
next
  case False
  obtain appended chunk where "buffer_append (new_buffer (length s)) s = (appended, chunk)"
    by fastforce
  with False assms show ?thesis
    by (simp add: enqueue_def split: if_splits)
qed

lemma enqueue_result:
  assumes "queue_ok q"
  shows "queue_ok (snd (enqueue q s))"
    and "queue_bytes (snd (enqueue q s)) =
      (if fst (enqueue q s) then queue_bytes q @ s else queue_bytes q)"
proof -
  have fits: "length (queue_bytes q) + length s \<le> max_buffered_bytes q" "max_buffered_bytes q < 2 ^ 64"
    if "fst (enqueue q s)"
    using enqueue_accepts [OF assms] that assms by (simp_all add: queue_ok_def)
  define c where "c = \<lparr>storage = s, read_offset = 0, max_capacity = length s\<rparr>"
  have eq: "snd (enqueue q s) =
      (if fst (enqueue q s) \<and> s \<noteq> []
       then q\<lparr>chunks := chunks q @ [c], queued_bytes := queued_bytes q + length s\<rparr> else q)"
  proof (cases "fst (enqueue q s) \<and> s \<noteq> []")
    case True
    then have "snd (buffer_append (new_buffer (length s)) s) = c"
      unfolding c_def using fits by (intro new_chunk) simp_all
    with True show ?thesis
      by (cases "buffer_append (new_buffer (length s)) s") (simp add: enqueue_def split: if_splits)
  next
    case False
    then show ?thesis
      unfolding enqueue_refused [OF False] by (simp only: if_False)
  qed
  have c: "buffer_ok c" "bytes_of c = s" if "fst (enqueue q s)"
    using fits [OF that] by (simp_all add: c_def buffer_ok_def bytes_of_def)
  show "queue_bytes (snd (enqueue q s)) = (if fst (enqueue q s) then queue_bytes q @ s else queue_bytes q)"
    using c unfolding eq by (simp add: queue_bytes_def)
  show "queue_ok (snd (enqueue q s))"
    using c fits assms unfolding eq by (auto simp: queue_ok_def queue_bytes_def)
qed

lemma queue_consume_result:
  assumes "queue_ok q"
  shows "queue_ok (queue_consume n q)"
    and "queue_bytes (queue_consume n q) = drop (min n (length (front q))) (queue_bytes q)"
proof -
  have both: "queue_ok (queue_consume n q) \<and>
      queue_bytes (queue_consume n q) = drop (min n (length (front q))) (queue_bytes q)"
  proof (cases "chunks q")
    case Nil
    with assms show ?thesis
      by (simp add: queue_consume_def front_def)
  next
    case (Cons c cs)
    define m where "m = min n (length (bytes_of c))"
    have c: "buffer_ok c" "bytes_of c \<noteq> []" and cs: "\<forall>c\<in>set cs. buffer_ok c \<and> bytes_of c \<noteq> []"
      using assms Cons by (simp_all add: queue_ok_def)
    have held: "queue_bytes q = bytes_of c @ concat (map bytes_of cs)"
      by (simp add: queue_bytes_def Cons)
    have rest: "buffer_ok (buffer_consume m c)" "bytes_of (buffer_consume m c) = drop m (bytes_of c)"
      using c buffer_consume_ok buffer_consume_bytes by simp_all
    have "size_minus (queued_bytes q) m = queued_bytes q - m"
      using assms held by (intro size_minus_le) (auto simp: queue_ok_def m_def)
    then have eq: "queue_consume n q =
       q\<lparr>chunks := (if drop m (bytes_of c) = [] then cs else buffer_consume m c # cs),
         queued_bytes := queued_bytes q - m\<rparr>"
      using c rest by (simp add: queue_consume_def Cons Let_def buffer_size_ok buffer_empty_ok m_def)
    have front: "front q = bytes_of c"
      using c by (simp add: front_def Cons buffer_view_ok)
    have bytes: "queue_bytes (queue_consume n q) = drop m (queue_bytes q)"
      unfolding eq using rest by (auto simp: queue_bytes_def Cons m_def)
    moreover have "queued_bytes (queue_consume n q) = length (drop m (queue_bytes q))"
      using assms unfolding eq by (simp add: queue_ok_def)
    ultimately have "queue_ok (queue_consume n q)"
      using assms cs rest unfolding queue_ok_def by (auto simp: eq)
    with bytes show ?thesis
      by (simp add: front m_def)
  qed
  then show "queue_ok (queue_consume n q)"
    and "queue_bytes (queue_consume n q) = drop (min n (length (front q))) (queue_bytes q)"
    by simp_all
qed

interpretation send_queue: byte_fifo queue_ok queue_bytes max_buffered_bytes enqueue queue_consume
proof unfold_locales
  fix q s n
  assume ok: "queue_ok q"
  show "length (queue_bytes q) \<le> max_buffered_bytes q"
    using ok by (simp add: queue_ok_def)
  show "fst (enqueue q s) = (length (queue_bytes q) + length s \<le> max_buffered_bytes q)"
    by (rule enqueue_accepts [OF ok])
  show "queue_bytes (snd (enqueue q s)) = (if fst (enqueue q s) then queue_bytes q @ s else queue_bytes q)"
    by (rule enqueue_result(2) [OF ok])
  show "queue_ok (snd (enqueue q s))"
    by (rule enqueue_result(1) [OF ok])
  show "queue_ok (queue_consume n q)"
    by (rule queue_consume_result(1) [OF ok])
  show "\<exists>m\<le>n. queue_bytes (queue_consume n q) = drop m (queue_bytes q)"
    using queue_consume_result(2) [OF ok] by (meson min.cobounded1)
qed (simp_all add: enqueue_def queue_consume_def Let_def case_prod_beta)

end
