(* ===== verification/Arc_Net.thy ===== *)
theory Arc_Net
  imports Arc_Text "HOL-Library.Monad_Syntax"
begin

text \<open>
  The socket calls of net/socket.cpp and the owner of a descriptor (net/file_descriptor.hpp).  The
  kernel's side of a connected socket is a record: the outcomes of the coming \<open>recv\<close> and \<open>send\<close>
  calls and the bytes it has taken for the peer.  A \<open>recv\<close> takes at most the buffer's capacity and
  leaves the rest; when no outcome is left the call would block.  The loops retry on EINTR and stop
  as the code does.
\<close>

unbundle bit_operations_syntax

datatype errno = EINTR | EAGAIN | EWOULDBLOCK | EPIPE | ECONNRESET | EMFILE | ENFILE
  | ECONNABORTED | EPROTO | OtherErrno

datatype recv_outcome = RecvBytes string | RecvErrno errno
datatype send_outcome = Sent nat | SendErrno errno

record socket =
  recvs :: "recv_outcome list"
  sends :: "send_outcome list"
  wire :: string

datatype IoStatus = IoOk | IoClosed | IoWouldBlock | IoError

subsection \<open>The system calls\<close>

definition sys_recv :: "nat \<Rightarrow> socket \<Rightarrow> recv_outcome \<times> socket" where
  "sys_recv capacity s =
     (case recvs s of
        [] \<Rightarrow> (RecvErrno EAGAIN, s)
      | RecvErrno e # later \<Rightarrow> (RecvErrno e, s\<lparr>recvs := later\<rparr>)
      | RecvBytes d # later \<Rightarrow>
          (RecvBytes (take capacity d),
           s\<lparr>recvs := (if capacity < length d then RecvBytes (drop capacity d) # later else later)\<rparr>))"

definition sys_send :: "string \<Rightarrow> socket \<Rightarrow> send_outcome \<times> socket" where
  "sys_send data s =
     (case sends s of
        [] \<Rightarrow> (SendErrno EAGAIN, s)
      | SendErrno e # later \<Rightarrow> (SendErrno e, s\<lparr>sends := later\<rparr>)
      | Sent n # later \<Rightarrow>
          (Sent (min n (length data)), s\<lparr>sends := later, wire := wire s @ take n data\<rparr>))"

text \<open>\<open>read_some\<close>: one read, retried on EINTR; no byte and no error is the peer's end of file.\<close>

function read_some :: "nat \<Rightarrow> socket \<Rightarrow> string \<times> IoStatus \<times> socket" where
  "read_some capacity s =
     (case sys_recv capacity s of
        (RecvBytes d, s') \<Rightarrow> if length d > 0 then (d, IoOk, s') else ([], IoClosed, s')
      | (RecvErrno e, s') \<Rightarrow>
          if e = EINTR then read_some capacity s'
          else if e = EAGAIN \<or> e = EWOULDBLOCK then ([], IoWouldBlock, s')
          else ([], IoError, s'))"
  by pat_completeness auto
termination
  by (relation "measure (\<lambda>(_, s). length (recvs s))")
    (auto simp: sys_recv_def split: list.splits recv_outcome.splits)

declare read_some.simps [simp del]

lemma sys_send_progress: "sys_send data s = (Sent n, s') \<Longrightarrow> length (sends s') < length (sends s)"
  "sys_send data s = (SendErrno EINTR, s') \<Longrightarrow> length (sends s') < length (sends s)"
  by (auto simp: sys_send_def split: list.splits send_outcome.splits)

text \<open>\<open>write_all\<close>: send until all is written, with the count written so far.\<close>

function write_all_loop :: "string \<Rightarrow> nat \<Rightarrow> socket \<Rightarrow> nat \<times> IoStatus \<times> socket" where
  "write_all_loop data total_written s =
     (if \<not> total_written < length data then (total_written, IoOk, s)
      else
        (case sys_send (drop total_written data) s of
           (Sent n, s') \<Rightarrow>
             if n > 0 then write_all_loop data (total_written + n) s'
             else (total_written, IoError, s')
         | (SendErrno e, s') \<Rightarrow>
             if e = EINTR then write_all_loop data total_written s'
             else if e = EPIPE \<or> e = ECONNRESET then (total_written, IoClosed, s')
             else if e = EAGAIN \<or> e = EWOULDBLOCK then (total_written, IoWouldBlock, s')
             else (total_written, IoError, s')))"
  by pat_completeness auto
termination
  by (relation "measure (\<lambda>(_, _, s). length (sends s))")
    (auto simp: sys_send_progress [OF sym])

declare write_all_loop.simps [simp del]

definition write_all :: "string \<Rightarrow> socket \<Rightarrow> nat \<times> IoStatus \<times> socket" where
  "write_all data s = write_all_loop data 0 s"

subsection \<open>Accepting\<close>

text \<open>
  An outcome of \<open>accept\<close>: a descriptor with what \<open>fcntl\<close> answers for it (its flags, or an error, and
  whether setting them succeeds), or an errno.  A \<open>SocketError\<close> is the left of a sum.
\<close>

datatype accept_outcome = Accepted int "u32 option" bool | AcceptErrno errno

definition O_NONBLOCK :: u32 where "O_NONBLOCK = 0x800"

definition set_nonblocking :: "u32 option \<Rightarrow> bool \<Rightarrow> string + u32" where
  "set_nonblocking getfl setfl_ok =
     (case getfl of
        None \<Rightarrow> Inl ''fcntl(F_GETFL)''
      | Some flags \<Rightarrow>
          if flags AND O_NONBLOCK \<noteq> 0 then Inr flags
          else if \<not> setfl_ok then Inl ''fcntl(F_SETFL)''
          else Inr (flags OR O_NONBLOCK))"

fun accept_nonblocking :: "accept_outcome list \<Rightarrow> (string + int option) \<times> accept_outcome list" where
  "accept_nonblocking [] = (Inr None, [])"
| "accept_nonblocking (Accepted fd getfl setfl_ok # later) =
     (case set_nonblocking getfl setfl_ok of
        Inl e \<Rightarrow> (Inl e, later)
      | Inr flags \<Rightarrow> (Inr (Some fd), later))"
| "accept_nonblocking (AcceptErrno e # later) =
     (if e = EINTR then accept_nonblocking later
      else if e = EAGAIN \<or> e = EWOULDBLOCK \<or> e = EMFILE \<or> e = ENFILE \<or> e = ECONNABORTED \<or> e = EPROTO
      then (Inr None, later)
      else (Inl ''accept'', later))"

text \<open>After \<open>set_nonblocking\<close> the flag is set.\<close>

lemma set_nonblocking_flag:
  "set_nonblocking getfl setfl_ok = Inr flags \<Longrightarrow> flags AND O_NONBLOCK \<noteq> 0"
proof -
  have "(f OR O_NONBLOCK) AND O_NONBLOCK = O_NONBLOCK" for f
    by (rule bit_eqI) (auto simp: bit_simps)
  moreover have "O_NONBLOCK \<noteq> 0"
    by (simp add: O_NONBLOCK_def)
  ultimately show "set_nonblocking getfl setfl_ok = Inr flags \<Longrightarrow> ?thesis"
    by (auto simp: set_nonblocking_def split: option.splits if_splits)
qed

subsection \<open>The owner of a descriptor\<close>

text \<open>
  A \<open>FileDescriptor\<close> is the number it holds, -1 for none; the calls that close pass the number to
  \<open>close\<close>, recorded in the order of the calls.
\<close>

definition fd_valid :: "int \<Rightarrow> bool" where
  "fd_valid fd \<longleftrightarrow> fd \<noteq> -1"

definition fd_reset :: "int \<Rightarrow> int \<Rightarrow> int list \<Rightarrow> int \<times> int list" where
  "fd_reset fd new_fd closed =
     (let closed = (if fd \<noteq> -1 then closed @ [fd] else closed) in (new_fd, closed))"

definition fd_release :: "int \<Rightarrow> int \<times> int" where
  "fd_release fd = (fd, -1)"

text \<open>Move assignment between two distinct owners: the new owner, the moved-from one, the closes.\<close>

definition fd_move_assign :: "int \<Rightarrow> int \<Rightarrow> int list \<Rightarrow> int \<times> int \<times> int list" where
  "fd_move_assign this_fd other_fd closed =
     (let (taken, other_fd) = fd_release other_fd; (this_fd, closed) = fd_reset this_fd taken closed in
      (this_fd, other_fd, closed))"

lemma fd_move_assign_owners:
  "fd_move_assign a b closed = (b, -1, closed @ (if fd_valid a then [a] else []))"
  by (simp add: fd_move_assign_def fd_release_def fd_reset_def fd_valid_def)

subsection \<open>What a write hands to the peer\<close>

lemma write_all_loop_wire:
  assumes "written \<le> length data" "write_all_loop data written s = (n, status, s')"
  shows "written \<le> n \<and> n \<le> length data \<and> wire s' = wire s @ take (n - written) (drop written data) \<and>
    (status = IoOk \<longleftrightarrow> n = length data) \<and> recvs s' = recvs s"
  using assms
proof (induction data written s arbitrary: n status s' rule: write_all_loop.induct)
  case (1 data written s)
  show ?case
  proof (cases "written < length data")
    case False
    have "n = written" "status = IoOk" "s' = s"
      using "1.prems"(2) False unfolding write_all_loop.simps [of data written s] by simp_all
    with False "1.prems"(1) show ?thesis
      by simp
  next
    case True
    obtain out s1 where send: "sys_send (drop written data) s = (out, s1)"
      by fastforce
    show ?thesis
    proof (cases out)
      case (SendErrno e)
      then have same: "wire s1 = wire s" "recvs s1 = recvs s"
        using send by (auto simp: sys_send_def split: list.splits send_outcome.splits)
      show ?thesis
      proof (cases "e = EINTR")
        case eintr: True
        then have "write_all_loop data written s1 = (n, status, s')"
          using "1.prems" True send SendErrno by (simp add: write_all_loop.simps [of data written s])
        with "1.IH"(2) [OF _ send [symmetric] SendErrno eintr] True "1.prems"(1) same show ?thesis
          by simp
      next
        case False
        with "1.prems" True send SendErrno same show ?thesis
          by (auto simp: write_all_loop.simps [of data written s] split: if_splits)
      qed
    next
      case (Sent k)
      then have k: "k \<le> length data - written" "wire s1 = wire s @ take k (drop written data)"
          "recvs s1 = recvs s"
        using send by (auto simp: sys_send_def min_def split: list.splits send_outcome.splits)
      show ?thesis
      proof (cases "k > 0")
        case False
        with "1.prems" True send Sent k show ?thesis
          by (auto simp: write_all_loop.simps [of data written s] split: if_splits)
      next
        case pos: True
        then have run: "write_all_loop data (written + k) s1 = (n, status, s')"
          using "1.prems" True send Sent by (simp add: write_all_loop.simps [of data written s])
        have "written + k \<le> n \<and> n \<le> length data \<and>
            wire s' = wire s1 @ take (n - (written + k)) (drop (written + k) data) \<and>
            (status = IoOk \<longleftrightarrow> n = length data) \<and> recvs s' = recvs s1"
          using "1.IH"(1) [OF _ send [symmetric] Sent pos _ run] True k by simp
        moreover from this have "take (n - written) (drop written data) =
            take k (drop written data) @ take (n - (written + k)) (drop (written + k) data)"
          using k by (simp add: take_add [symmetric] drop_drop [symmetric] ac_simps del: drop_drop)
        ultimately show ?thesis
          using k by auto
      qed
    qed
  qed
qed

lemma write_all_wire:
  assumes "write_all data s = (n, status, s')"
  shows "n \<le> length data" "wire s' = wire s @ take n data" "status = IoOk \<longleftrightarrow> n = length data"
    "recvs s' = recvs s"
  using write_all_loop_wire [of 0 data s n status s'] assms by (auto simp: write_all_def)

text \<open>What a read delivers: a prefix of what the peer sent, and the rest stays.\<close>

fun arriving :: "recv_outcome list \<Rightarrow> string" where
  "arriving [] = []"
| "arriving (RecvBytes d # later) = d @ arriving later"
| "arriving (RecvErrno e # later) = arriving later"

lemma sys_recv_arriving:
  assumes "sys_recv capacity s = (out, s')"
  shows "arriving (recvs s) = (case out of RecvBytes d \<Rightarrow> d | RecvErrno e \<Rightarrow> []) @ arriving (recvs s') \<and>
    wire s' = wire s \<and> sends s' = sends s \<and>
    (case out of RecvBytes d \<Rightarrow> length d \<le> capacity | RecvErrno e \<Rightarrow> True)"
  using assms by (auto simp: sys_recv_def split: list.splits recv_outcome.splits)

lemma read_some_arriving:
  assumes "read_some capacity s = (d, status, s')"
  shows "arriving (recvs s) = d @ arriving (recvs s') \<and> wire s' = wire s \<and> sends s' = sends s \<and>
    length d \<le> capacity \<and> (status = IoOk \<longleftrightarrow> d \<noteq> [])"
  using assms
proof (induction capacity s rule: read_some.induct)
  case (1 capacity s)
  obtain out s1 where recv: "sys_recv capacity s = (out, s1)"
    by fastforce
  note here = sys_recv_arriving [OF recv]
  show ?case
  proof (cases out)
    case (RecvBytes d')
    with "1.prems" recv here show ?thesis
      by (auto simp: read_some.simps [of capacity s] split: if_splits)
  next
    case (RecvErrno e)
    show ?thesis
    proof (cases "e = EINTR")
      case True
      with "1.prems" recv RecvErrno have "read_some capacity s1 = (d, status, s')"
        by (simp add: read_some.simps [of capacity s])
      with "1.IH" [OF recv [symmetric] RecvErrno True] here RecvErrno show ?thesis
        by simp
    next
      case False
      with "1.prems" recv here RecvErrno show ?thesis
        by (auto simp: read_some.simps [of capacity s] split: if_splits)
    qed
  qed
qed

end
