(* ===== verification/Arc_Connection.thy ===== *)
theory Arc_Connection
  imports Arc_Output_Queue Arc_Net
begin

text \<open>
  A connection of the reactor (reactor/connection.hpp, reactor/connection.cpp): the buffers, the
  lifecycle state and the socket it owns, and the loop that drains the output queue.  The timestamp of
  the last activity is written but never read by the program and is not modelled.
\<close>

datatype ConnectionState = kReading | kWriting | kClosing | kClosed

datatype FlushResult = kFlushed | kPending | kFailed

definition kDefaultMaxReadBufferBytes :: nat where
  "kDefaultMaxReadBufferBytes = 8 * 1024 * 1024"

record Connection =
  read_buffer :: ByteBuffer
  conn_fd :: int
  peer :: string
  conn_state :: ConnectionState
  write_queue :: OutputQueue
  sock :: socket

definition new_connection :: "int \<Rightarrow> string \<Rightarrow> nat \<Rightarrow> nat \<Rightarrow> socket \<Rightarrow> Connection" where
  "new_connection fd peer_name max_output_queue_bytes max_read_buffer_bytes s =
     \<lparr>read_buffer = new_buffer max_read_buffer_bytes, conn_fd = fd, peer = peer_name,
      conn_state = kReading, write_queue = new_output_queue max_output_queue_bytes, sock = s\<rparr>"

definition enqueue_output :: "Connection \<Rightarrow> string \<Rightarrow> bool \<times> Connection" where
  "enqueue_output c data =
     (let (accepted, q) = enqueue (write_queue c) data in (accepted, c\<lparr>write_queue := q\<rparr>))"

partial_function (option) flush_output :: "Connection \<Rightarrow> (FlushResult \<times> Connection) option" where
  "flush_output c =
     (if queue_empty (write_queue c) then Some (kFlushed, c)
      else
        (case write_all (front (write_queue c)) (sock c) of (bytes_transferred, status, s) \<Rightarrow>
           let c = c\<lparr>sock := s\<rparr>;
               c = (if bytes_transferred > 0
                    then c\<lparr>write_queue := queue_consume bytes_transferred (write_queue c)\<rparr> else c) in
           if status = IoClosed \<or> status = IoError then Some (kFailed, c)
           else if status = IoWouldBlock then Some (kPending, c)
           else flush_output c))"

subsection \<open>The connection between two events\<close>

definition connection_ok :: "Connection \<Rightarrow> bool" where
  "connection_ok c \<longleftrightarrow>
     buffer_ok (read_buffer c) \<and> max_capacity (read_buffer c) < 2 ^ 62 \<and> queue_ok (write_queue c)"

definition unread :: "Connection \<Rightarrow> string" where
  "unread c = bytes_of (read_buffer c)"

definition unsent :: "Connection \<Rightarrow> string" where
  "unsent c = queue_bytes (write_queue c)"

lemma new_connection_ok:
  "max_in < 2 ^ 62 \<Longrightarrow> max_out < 2 ^ 64 \<Longrightarrow> connection_ok (new_connection fd p max_out max_in s)"
  by (simp add: connection_ok_def new_connection_def) (simp add: new_buffer_def)

lemma new_connection_bytes [simp]:
  "unread (new_connection fd p mo mi s) = []" "unsent (new_connection fd p mo mi s) = []"
  by (simp_all add: unread_def unsent_def new_connection_def)

lemma enqueue_output_result:
  assumes "connection_ok c" "enqueue_output c data = (accepted, c')"
  shows "connection_ok c' \<and> unsent c' = (if accepted then unsent c @ data else unsent c) \<and>
    c' = c\<lparr>write_queue := write_queue c'\<rparr> \<and>
    (accepted \<longleftrightarrow> length (unsent c) + length data \<le> max_buffered_bytes (write_queue c))"
proof -
  obtain q where "enqueue (write_queue c) data = (accepted, q)" "c' = c\<lparr>write_queue := q\<rparr>"
    using assms(2) by (auto simp: enqueue_output_def split: prod.splits)
  then show ?thesis
    using assms(1) enqueue_result [of "write_queue c" data] enqueue_accepts [of "write_queue c" data]
    by (auto simp: connection_ok_def unsent_def)
qed

text \<open>
  Draining: it always returns, what it hands to the socket is a prefix of what was queued, what stays
  queued is the rest, and the queue is empty exactly when it says so.
\<close>

definition drained :: "Connection \<Rightarrow> Connection \<Rightarrow> bool" where
  "drained c c' \<longleftrightarrow>
     connection_ok c' \<and> wire (sock c) @ unsent c = wire (sock c') @ unsent c' \<and>
     length (unsent c') \<le> length (unsent c) \<and> recvs (sock c') = recvs (sock c) \<and>
     read_buffer c' = read_buffer c \<and> conn_fd c' = conn_fd c \<and> conn_state c' = conn_state c \<and>
     max_buffered_bytes (write_queue c') = max_buffered_bytes (write_queue c)"

lemma drained_trans: "drained a b \<Longrightarrow> drained b c \<Longrightarrow> drained a c"
  by (simp add: drained_def)

lemma flush_output_result:
  assumes "connection_ok c"
  shows "\<exists>result c'. flush_output c = Some (result, c') \<and> drained c c' \<and>
    (result = kFlushed \<longrightarrow> unsent c' = []) \<and> (result = kPending \<longrightarrow> unsent c' \<noteq> [])"
  using assms
proof (induction "length (unsent c)" arbitrary: c rule: less_induct)
  case less
  let ?q = "write_queue c"
  have q: "queue_ok ?q"
    using less.prems by (simp add: connection_ok_def)
  show ?case
  proof (cases "queue_empty ?q")
    case True
    then have "unsent c = []"
      using q queue_empty_bytes by (simp add: unsent_def)
    with True less.prems show ?thesis
      by (simp add: flush_output.simps [of c] drained_def)
  next
    case False
    then have "chunks ?q \<noteq> []"
      by (simp add: queue_empty_def)
    then have nonempty: "front ?q \<noteq> []"
      using front_prefix(2) [OF q] by blast
    obtain n status s where wrote: "write_all (front ?q) (sock c) = (n, status, s)"
      by (metis prod_cases3)
    note w = write_all_wire [OF wrote]
    define d where
      "d = (let c = c\<lparr>sock := s\<rparr> in if n > 0 then c\<lparr>write_queue := queue_consume n ?q\<rparr> else c)"
    have step: "flush_output c =
        (if status = IoClosed \<or> status = IoError then Some (kFailed, d)
         else if status = IoWouldBlock then Some (kPending, d) else flush_output d)"
      using False wrote by (simp add: flush_output.simps [of c] d_def Let_def)
    have fields: "sock d = s" "read_buffer d = read_buffer c" "conn_fd d = conn_fd c"
      "conn_state d = conn_state c" "max_buffered_bytes (write_queue d) = max_buffered_bytes ?q"
      by (simp_all add: d_def Let_def queue_consume_def)
    have dq: "queue_ok (write_queue d)" "unsent d = drop n (unsent c)"
      using queue_consume_result [OF q, of n] w(1) q
      by (simp_all add: d_def Let_def unsent_def min_absorb1)
    have "take n (front ?q) = take n (unsent c)"
      using w(1) front_prefix(1) [OF q] by (metis min_absorb1 take_take unsent_def)
    then have sent: "wire (sock c) @ unsent c = wire s @ unsent d"
      using w(2) dq(2) by simp
    have ok: "connection_ok d"
      using less.prems dq(1) fields by (simp add: connection_ok_def)
    have here: "drained c d"
      using ok sent fields dq(2) w(4) by (simp add: drained_def)
    have size: "length (front ?q) \<le> length (unsent c)"
      using front_prefix(1) [OF q] by (metis length_take min.cobounded1 unsent_def)
    show ?thesis
    proof (cases status)
      case IoOk
      then have "n = length (front ?q)"
        using w(3) by simp
      moreover have "0 < length (front ?q)"
        using nonempty by simp
      ultimately have "length (unsent d) < length (unsent c)"
        using size dq(2) by (simp only: length_drop)
      from less.hyps [OF this ok] show ?thesis
        using step IoOk drained_trans [OF here] by auto
    next
      case IoWouldBlock
      with w(1,3) size dq(2) have "unsent d \<noteq> []"
        by auto
      with here step IoWouldBlock show ?thesis
        by auto
    qed (use here step in auto)
  qed
qed

end
