(* ===== verification/Arc_Reactor.thy ===== *)
theory Arc_Reactor
  imports Arc_Connection
begin

text \<open>
  The epoll reactor (reactor/epoll_reactor.hpp, reactor/epoll_reactor.cpp) -- the kernel's interest
  list, the callbacks and the loop that dispatches ready descriptors until it is stopped -- and the
  loop with which both reactor servers read what a ready connection has
  (\<open>process_readable\<close>, first part).  A result is undefined where a call does not return, the left of a
  sum where the code throws.
\<close>

type_synonym 'a outcome = "(string + 'a) option"

definition EPOLLIN :: u32 where "EPOLLIN = 1"
definition EPOLLOUT :: u32 where "EPOLLOUT = 4"
definition EPOLLERR :: u32 where "EPOLLERR = 8"
definition EPOLLHUP :: u32 where "EPOLLHUP = 16"

definition kReadable :: u32 where "kReadable = EPOLLIN"
definition kWritable :: u32 where "kWritable = EPOLLOUT"

record 'cb reactor =
  interest :: "int \<rightharpoonup> u32"
  callbacks :: "int \<rightharpoonup> 'cb"
  stop_requested :: bool
  wakeup_ticks :: nat

definition new_reactor :: "int \<Rightarrow> 'cb reactor" where
  "new_reactor wakeup_fd =
     \<lparr>interest = [wakeup_fd \<mapsto> EPOLLIN], callbacks = Map.empty, stop_requested = False, wakeup_ticks = 0\<rparr>"

text \<open>\<open>epoll_ctl\<close> refuses to add a descriptor it has and to modify one it has not.\<close>

definition reactor_add :: "int \<Rightarrow> u32 \<Rightarrow> 'cb \<Rightarrow> 'cb reactor \<Rightarrow> string + 'cb reactor" where
  "reactor_add fd wanted callback r =
     (if interest r fd \<noteq> None then Inl ''epoll_ctl(ADD)''
      else Inr (r\<lparr>interest := (interest r)(fd \<mapsto> wanted), callbacks := (callbacks r)(fd \<mapsto> callback)\<rparr>))"

definition reactor_modify :: "int \<Rightarrow> u32 \<Rightarrow> 'cb reactor \<Rightarrow> string + 'cb reactor" where
  "reactor_modify fd wanted r =
     (if interest r fd = None then Inl ''epoll_ctl(MOD)''
      else Inr (r\<lparr>interest := (interest r)(fd \<mapsto> wanted)\<rparr>))"

definition reactor_remove :: "int \<Rightarrow> 'cb reactor \<Rightarrow> 'cb reactor" where
  "reactor_remove fd r =
     r\<lparr>interest := (interest r)(fd := None), callbacks := (callbacks r)(fd := None)\<rparr>"

definition reactor_stop :: "'cb reactor \<Rightarrow> 'cb reactor" where
  "reactor_stop r = r\<lparr>stop_requested := True, wakeup_ticks := wakeup_ticks r + 1\<rparr>"

definition reactor_drain_wakeup :: "'cb reactor \<Rightarrow> 'cb reactor" where
  "reactor_drain_wakeup r = r\<lparr>wakeup_ticks := 0\<rparr>"

text \<open>
  The loop over a server's state \<open>'s\<close>, which holds the reactor: how it is read and updated, and what
  running a callback does.
\<close>

definition dispatch_ready ::
  "('s \<Rightarrow> 'cb reactor) \<Rightarrow> ('cb \<Rightarrow> int \<Rightarrow> u32 \<Rightarrow> 's \<Rightarrow> 's outcome) \<Rightarrow> int \<Rightarrow> u32 \<Rightarrow> 's \<Rightarrow> 's outcome" where
  "dispatch_ready the_reactor invoke fd events st =
     (case callbacks (the_reactor st) fd of
        None \<Rightarrow> Some (Inr st)
      | Some callback \<Rightarrow> invoke callback fd events st)"

fun handle_batch ::
  "('s \<Rightarrow> 'cb reactor) \<Rightarrow> (('cb reactor \<Rightarrow> 'cb reactor) \<Rightarrow> 's \<Rightarrow> 's) \<Rightarrow>
   ('cb \<Rightarrow> int \<Rightarrow> u32 \<Rightarrow> 's \<Rightarrow> 's outcome) \<Rightarrow> int \<Rightarrow> (int \<times> u32) list \<Rightarrow> 's \<Rightarrow> 's outcome" where
  "handle_batch the_reactor update invoke wakeup_fd [] st = Some (Inr st)"
| "handle_batch the_reactor update invoke wakeup_fd ((fd, events) # ready) st =
     (if fd = wakeup_fd
      then handle_batch the_reactor update invoke wakeup_fd ready (update reactor_drain_wakeup st)
      else
        (case dispatch_ready the_reactor invoke fd events st of
           None \<Rightarrow> None
         | Some (Inl e) \<Rightarrow> Some (Inl e)
         | Some (Inr st) \<Rightarrow> handle_batch the_reactor update invoke wakeup_fd ready st))"

text \<open>
  A turn: whether another thread has called \<open>stop\<close> before the flag is read, and what \<open>epoll_wait\<close> then
  answers.  The result tells whether \<open>run\<close> has returned or is waiting for another turn.
\<close>

datatype wait_outcome = WaitErrno errno | WaitReady "(int \<times> u32) list"

fun reactor_run ::
  "('s \<Rightarrow> 'cb reactor) \<Rightarrow> (('cb reactor \<Rightarrow> 'cb reactor) \<Rightarrow> 's \<Rightarrow> 's) \<Rightarrow>
   ('cb \<Rightarrow> int \<Rightarrow> u32 \<Rightarrow> 's \<Rightarrow> 's outcome) \<Rightarrow> int \<Rightarrow> (bool \<times> wait_outcome) list \<Rightarrow> 's \<Rightarrow>
   (bool \<times> 's) outcome" where
  "reactor_run the_reactor update invoke wakeup_fd [] st = Some (Inr (False, st))"
| "reactor_run the_reactor update invoke wakeup_fd ((stop_called, answer) # turns) st =
     (let st = (if stop_called then update reactor_stop st else st) in
      if stop_requested (the_reactor st)
      then Some (Inr (True, update (\<lambda>r. r\<lparr>stop_requested := False\<rparr>) st))
      else
        (case answer of
           WaitErrno e \<Rightarrow>
             if e = EINTR then reactor_run the_reactor update invoke wakeup_fd turns st
             else Some (Inl ''epoll_wait'')
         | WaitReady ready \<Rightarrow>
             (case handle_batch the_reactor update invoke wakeup_fd ready st of
                None \<Rightarrow> None
              | Some (Inl e) \<Rightarrow> Some (Inl e)
              | Some (Inr st) \<Rightarrow> reactor_run the_reactor update invoke wakeup_fd turns st)))"

text \<open>A stop that comes before the loop has started is not lost: the loop returns in its first turn.\<close>

lemma pending_stop_returns:
  assumes "stop_requested (the_reactor st)" "\<And>f st. the_reactor (update f st) = f (the_reactor st)"
  shows "reactor_run the_reactor update invoke wakeup_fd ((stop_called, answer) # turns) st =
    Some (Inr (True, update (\<lambda>r. r\<lparr>stop_requested := False\<rparr>)
      (if stop_called then update reactor_stop st else st)))"
  using assms by (simp add: reactor_stop_def Let_def)

text \<open>
  The reactor agrees with a server's registry: outside the server's own descriptors it has exactly the
  clients, each with the client callback and the interest its connection wants.
\<close>

definition registry_ok :: "int set \<Rightarrow> 'cb \<Rightarrow> 'cb reactor \<Rightarrow> (int \<rightharpoonup> u32) \<Rightarrow> bool" where
  "registry_ok own client r wants \<longleftrightarrow>
     own \<inter> dom wants = {} \<and> own \<subseteq> dom (interest r) \<and>
     (\<forall>fd. fd \<notin> own \<longrightarrow>
        interest r fd = wants fd \<and> callbacks r fd = map_option (\<lambda>_. client) (wants fd))"

lemma registry_add:
  assumes "registry_ok own client r wants" "fd \<notin> own" "wants fd = None"
  shows "\<exists>r'. reactor_add fd m client r = Inr r' \<and> registry_ok own client r' (wants(fd \<mapsto> m))"
  using assms by (auto simp: registry_ok_def reactor_add_def)

lemma registry_modify:
  assumes "registry_ok own client r wants" "wants fd \<noteq> None"
  shows "\<exists>r'. reactor_modify fd m r = Inr r' \<and> registry_ok own client r' (wants(fd \<mapsto> m))"
proof -
  have "fd \<notin> own"
    using assms by (auto simp: registry_ok_def)
  with assms show ?thesis
    by (auto simp: registry_ok_def reactor_modify_def)
qed

lemma registry_remove:
  assumes "registry_ok own client r wants" "wants fd \<noteq> None"
  shows "registry_ok own client (reactor_remove fd r) (wants(fd := None))"
  using assms by (auto simp: registry_ok_def reactor_remove_def)

text \<open>The interests a registry of connections asks for.\<close>

definition wanted_by :: "('c \<Rightarrow> u32) \<Rightarrow> (int \<rightharpoonup> 'c) \<Rightarrow> int \<rightharpoonup> u32" where
  "wanted_by f m fd = map_option f (m fd)"

lemma wanted_by_upd [simp]:
  "wanted_by f (m(fd \<mapsto> c)) = (wanted_by f m)(fd \<mapsto> f c)"
  "wanted_by f (m(fd := None)) = (wanted_by f m)(fd := None)"
  "wanted_by f Map.empty = Map.empty"
  by (auto simp: wanted_by_def fun_eq_iff)

lemma wanted_by_None [simp]: "wanted_by f m fd = None \<longleftrightarrow> m fd = None"
  by (simp add: wanted_by_def)

lemma wanted_by_same: "m fd = Some c \<Longrightarrow> f c' = f c \<Longrightarrow> (wanted_by f m)(fd \<mapsto> f c') = wanted_by f m"
  by (auto simp: wanted_by_def fun_eq_iff)

subsection \<open>Accepting\<close>

lemma accept_nonblocking_shrinks:
  "(Inr (Some fd), later) = accept_nonblocking pending \<Longrightarrow> length later < length pending"
proof (induction pending rule: accept_nonblocking.induct)
  case (2 fd getfl setfl_ok later)
  then show ?case
    by (auto split: sum.splits)
next
  case (3 e later)
  then show ?case
    by (auto split: if_splits)
qed simp

text \<open>
  Accepting: the kernel hands out descriptors that are not open -- neither the server's own nor a
  registered client's, and no two of them the same.
\<close>

fun accepted_fds :: "accept_outcome list \<Rightarrow> int list" where
  "accepted_fds [] = []"
| "accepted_fds (Accepted fd getfl setfl_ok # later) = fd # accepted_fds later"
| "accepted_fds (AcceptErrno e # later) = accepted_fds later"

lemma accepted_fds_next:
  "accept_nonblocking pending = (Inr (Some fd), later) \<Longrightarrow> accepted_fds pending = fd # accepted_fds later"
  by (induction pending rule: accept_nonblocking.induct) (auto split: sum.splits if_splits)

subsection \<open>Reading what a ready connection has\<close>

lemma read_some_shrinks:
  "(data, io, s') = read_some chunk s \<Longrightarrow> io \<noteq> IoClosed \<Longrightarrow> io \<noteq> IoError \<Longrightarrow> io \<noteq> IoWouldBlock \<Longrightarrow>
   length (arriving (recvs s')) < length (arriving (recvs s))"
  using read_some_arriving [of chunk s data io s'] by (cases io) auto

text \<open>The connection after the reads, and whether it is to be closed.\<close>

function read_available :: "nat \<Rightarrow> Connection \<Rightarrow> bool \<times> Connection" where
  "read_available chunk c =
     (case read_some chunk (sock c) of (data, io, s) \<Rightarrow>
        let c = c\<lparr>sock := s\<rparr> in
        (case (if length data > 0 then buffer_append (read_buffer c) data else (True, read_buffer c)) of
           (appended, b) \<Rightarrow>
             if \<not> appended then (True, c)
             else
               let c = c\<lparr>read_buffer := b\<rparr> in
               if io = IoClosed \<or> io = IoError then (True, c)
               else if io = IoWouldBlock \<or> length data < chunk then (False, c)
               else read_available chunk c))"
  by pat_completeness auto

termination
  by (relation "measure (\<lambda>(chunk, c). length (arriving (recvs (sock c))))")
    (auto simp: read_some_shrinks split: if_splits)

declare read_available.simps [simp del]

lemma read_available_result:
  assumes "connection_ok c" "chunk < 2 ^ 63" "read_available chunk c = (closes, c')"
  shows "connection_ok c' \<and> write_queue c' = write_queue c \<and> conn_fd c' = conn_fd c \<and>
    conn_state c' = conn_state c \<and> max_capacity (read_buffer c') = max_capacity (read_buffer c) \<and>
    wire (sock c') = wire (sock c) \<and> sends (sock c') = sends (sock c) \<and>
    (\<not> closes \<longrightarrow> unread c' @ arriving (recvs (sock c')) = unread c @ arriving (recvs (sock c)) \<and>
       (\<exists>d. unread c' = unread c @ d))"
  using assms
proof (induction "length (arriving (recvs (sock c)))" arbitrary: c rule: less_induct)
  case less
  obtain data io s where read: "read_some chunk (sock c) = (data, io, s)"
    by (metis prod_cases3)
  note arrived = read_some_arriving [OF read]
  define appended where "appended \<longleftrightarrow> (if length data > 0 then fst (buffer_append (read_buffer c) data) else True)"
  define b where "b = (if length data > 0 then snd (buffer_append (read_buffer c) data) else read_buffer c)"
  have step: "read_available chunk c =
      (if \<not> appended then (True, c\<lparr>sock := s\<rparr>)
       else if io = IoClosed \<or> io = IoError then (True, c\<lparr>sock := s, read_buffer := b\<rparr>)
       else if io = IoWouldBlock \<or> length data < chunk then (False, c\<lparr>sock := s, read_buffer := b\<rparr>)
       else read_available chunk (c\<lparr>sock := s, read_buffer := b\<rparr>))"
    unfolding read_available.simps [of chunk c]
    by (simp add: read appended_def b_def case_prod_beta Let_def)
  have ok: "buffer_ok (read_buffer c)" "max_capacity (read_buffer c) < 2 ^ 62"
    using less.prems(1) by (simp_all add: connection_ok_def)
  have small: "length data < 2 ^ 63"
    using arrived less.prems(2) by simp
  have b: "buffer_ok b" "max_capacity b = max_capacity (read_buffer c)"
      "appended \<Longrightarrow> bytes_of b = unread c @ data"
    using buffer_append_ok [OF ok small] buffer_append_bytes [OF ok(1), of data] ok(1)
    by (auto simp: b_def appended_def unread_def)
  have here: "connection_ok (c\<lparr>sock := s\<rparr>)" "connection_ok (c\<lparr>sock := s, read_buffer := b\<rparr>)"
    using less.prems(1) b by (simp_all add: connection_ok_def)
  show ?case
  proof (cases "appended \<and> io \<noteq> IoClosed \<and> io \<noteq> IoError \<and> io \<noteq> IoWouldBlock \<and> \<not> length data < chunk")
    case True
    then have next_: "read_available chunk (c\<lparr>sock := s, read_buffer := b\<rparr>) = (closes, c')"
      using less.prems(3) step by simp
    have "connection_ok c' \<and>
        write_queue c' = write_queue c \<and> conn_fd c' = conn_fd c \<and> conn_state c' = conn_state c \<and>
        max_capacity (read_buffer c') = max_capacity b \<and> wire (sock c') = wire s \<and> sends (sock c') = sends s \<and>
        (\<not> closes \<longrightarrow> unread c' @ arriving (recvs (sock c')) = bytes_of b @ arriving (recvs s) \<and>
           (\<exists>d. unread c' = bytes_of b @ d))"
      using less.hyps [of "c\<lparr>sock := s, read_buffer := b\<rparr>"] next_ here(2) less.prems(2)
        read_some_shrinks [OF read [symmetric]] True
      by (simp add: unread_def)
    with True arrived b show ?thesis
      by auto
  next
    case False
    with less.prems(3) step here arrived b show ?thesis
      by (auto simp: unread_def split: if_splits)
  qed
qed

end
