(* ===== verification/Arc_Work_Queue.thy ===== *)
theory Arc_Work_Queue
  imports Arc_Text
begin

text \<open>
  The bounded work queue shared by threads (concurrency/bounded_work_queue.hpp,
  concurrency/bounded_work_queue.cpp).  The first part has the critical sections as functions; a
  section that waits on a condition variable has no result while its predicate is false.  The second
  part is the monitor: threads inside the operations, with the wait, the notification after the
  unlock, spurious wake-ups and any interleaving, as an inductive step relation.
\<close>

record 't work_queue =
  tasks :: "'t list"
  queue_capacity :: nat
  queue_closed :: bool

definition new_work_queue :: "nat \<Rightarrow> 't work_queue" where
  "new_work_queue cap = \<lparr>tasks = [], queue_capacity = cap, queue_closed = False\<rparr>"

definition try_push :: "'t work_queue \<Rightarrow> 't \<Rightarrow> bool \<times> 't work_queue" where
  "try_push q task =
     (if queue_closed q \<or> length (tasks q) \<ge> queue_capacity q then (False, q)
      else (True, q\<lparr>tasks := tasks q @ [task]\<rparr>))"

definition push :: "'t work_queue \<Rightarrow> 't \<Rightarrow> (bool \<times> 't work_queue) option" where
  "push q task =
     (if \<not> (length (tasks q) < queue_capacity q \<or> queue_closed q) then None
      else if queue_closed q then Some (False, q)
      else Some (True, q\<lparr>tasks := tasks q @ [task]\<rparr>))"

definition pop :: "'t work_queue \<Rightarrow> ('t option \<times> 't work_queue) option" where
  "pop q =
     (if \<not> (tasks q \<noteq> [] \<or> queue_closed q) then None
      else if tasks q = [] then Some (None, q)
      else Some (Some (hd (tasks q)), q\<lparr>tasks := tl (tasks q)\<rparr>))"

definition drain :: "'t work_queue \<Rightarrow> 't list \<times> 't work_queue" where
  "drain q = (tasks q, q\<lparr>tasks := []\<rparr>)"

definition close :: "'t work_queue \<Rightarrow> 't work_queue" where
  "close q = q\<lparr>queue_closed := True\<rparr>"

definition within_capacity :: "'t work_queue \<Rightarrow> bool" where
  "within_capacity q \<longleftrightarrow> length (tasks q) \<le> queue_capacity q"

lemma try_push_cases:
  assumes "try_push q t = (accepted, q')" "within_capacity q"
  shows "within_capacity q'" "queue_closed q' = queue_closed q" "queue_capacity q' = queue_capacity q"
    "tasks q' = (if accepted then tasks q @ [t] else tasks q)" "accepted \<longrightarrow> \<not> queue_closed q"
  using assms by (auto simp: try_push_def within_capacity_def split: if_splits)

lemma push_cases:
  assumes "push q t = Some (accepted, q')" "within_capacity q"
  shows "within_capacity q'" "queue_closed q' = queue_closed q" "queue_capacity q' = queue_capacity q"
    "tasks q' = (if accepted then tasks q @ [t] else tasks q)" "accepted \<longleftrightarrow> \<not> queue_closed q"
  using assms by (auto simp: push_def within_capacity_def split: if_splits)

lemma pop_cases:
  assumes "pop q = Some (out, q')" "within_capacity q"
  shows "within_capacity q'" "queue_closed q' = queue_closed q" "queue_capacity q' = queue_capacity q"
    "tasks q = (case out of None \<Rightarrow> [] | Some t \<Rightarrow> [t]) @ tasks q'"
    "out = None \<longleftrightarrow> tasks q = [] \<and> queue_closed q"
  using assms by (auto simp: pop_def within_capacity_def split: if_splits)

lemma new_work_queue_simps [simp]:
  "tasks (new_work_queue c) = []" "queue_capacity (new_work_queue c) = c"
  "\<not> queue_closed (new_work_queue c)" "within_capacity (new_work_queue c)"
  by (simp_all add: new_work_queue_def within_capacity_def)

subsection \<open>Threads in the monitor\<close>

text \<open>
  Where a thread is: outside; blocked in one of the two waits; about to take the lock and test the
  predicate (on entry or woken); or past its critical section with the notification still to make.
\<close>

datatype 't where_at = Outside
  | PopTest | PopWait | PopNotify 't
  | PushTest 't | PushWait 't | PushNotify
  | DrainNotify "'t list" | CloseNotifyPop | CloseNotifyPush

text \<open>The state, with the tasks ever accepted and ever removed, each in order.\<close>

record ('i, 't) monitor =
  mon_queue :: "'t work_queue"
  mon_at :: "'i \<Rightarrow> 't where_at"
  put_log :: "'t list"
  taken_log :: "'t list"

definition moved :: "'i \<Rightarrow> 't where_at \<Rightarrow> ('i, 't) monitor \<Rightarrow> ('i, 't) monitor" where
  "moved i p m = m\<lparr>mon_at := (mon_at m)(i := p)\<rparr>"

definition wake_poppers :: "('i \<Rightarrow> 't where_at) \<Rightarrow> 'i \<Rightarrow> 't where_at" where
  "wake_poppers f j = (if f j = PopWait then PopTest else f j)"

definition wake_pushers :: "('i \<Rightarrow> 't where_at) \<Rightarrow> 'i \<Rightarrow> 't where_at" where
  "wake_pushers f j = (case f j of PushWait t \<Rightarrow> PushTest t | p \<Rightarrow> p)"

inductive monitor_step :: "('i, 't) monitor \<Rightarrow> ('i, 't) monitor \<Rightarrow> bool" where
  enter_pop: "mon_at m i = Outside \<Longrightarrow> monitor_step m (moved i PopTest m)"
| pop_waits: "mon_at m i = PopTest \<Longrightarrow> pop (mon_queue m) = None \<Longrightarrow> monitor_step m (moved i PopWait m)"
| pop_takes: "mon_at m i = PopTest \<Longrightarrow> pop (mon_queue m) = Some (Some t, q) \<Longrightarrow>
    monitor_step m (moved i (PopNotify t) (m\<lparr>mon_queue := q, taken_log := taken_log m @ [t]\<rparr>))"
| pop_ends: "mon_at m i = PopTest \<Longrightarrow> pop (mon_queue m) = Some (None, q) \<Longrightarrow> monitor_step m (moved i Outside m)"
| pop_notifies: "mon_at m i = PopNotify t \<Longrightarrow> mon_at m j = PushWait u \<Longrightarrow>
    monitor_step m (moved i Outside (moved j (PushTest u) m))"
| pop_notifies_none: "mon_at m i = PopNotify t \<Longrightarrow> \<forall>j u. mon_at m j \<noteq> PushWait u \<Longrightarrow>
    monitor_step m (moved i Outside m)"
| pop_spurious: "mon_at m i = PopWait \<Longrightarrow> monitor_step m (moved i PopTest m)"
| try_push_accepted: "mon_at m i = Outside \<Longrightarrow> try_push (mon_queue m) t = (True, q) \<Longrightarrow>
    monitor_step m (moved i PushNotify (m\<lparr>mon_queue := q, put_log := put_log m @ [t]\<rparr>))"
| try_push_refused: "mon_at m i = Outside \<Longrightarrow> try_push (mon_queue m) t = (False, q) \<Longrightarrow> monitor_step m m"
| enter_push: "mon_at m i = Outside \<Longrightarrow> monitor_step m (moved i (PushTest t) m)"
| push_waits: "mon_at m i = PushTest t \<Longrightarrow> push (mon_queue m) t = None \<Longrightarrow>
    monitor_step m (moved i (PushWait t) m)"
| push_accepted: "mon_at m i = PushTest t \<Longrightarrow> push (mon_queue m) t = Some (True, q) \<Longrightarrow>
    monitor_step m (moved i PushNotify (m\<lparr>mon_queue := q, put_log := put_log m @ [t]\<rparr>))"
| push_refused: "mon_at m i = PushTest t \<Longrightarrow> push (mon_queue m) t = Some (False, q) \<Longrightarrow>
    monitor_step m (moved i Outside m)"
| push_notifies: "mon_at m i = PushNotify \<Longrightarrow> mon_at m j = PopWait \<Longrightarrow>
    monitor_step m (moved i Outside (moved j PopTest m))"
| push_notifies_none: "mon_at m i = PushNotify \<Longrightarrow> \<forall>j. mon_at m j \<noteq> PopWait \<Longrightarrow>
    monitor_step m (moved i Outside m)"
| push_spurious: "mon_at m i = PushWait t \<Longrightarrow> monitor_step m (moved i (PushTest t) m)"
| drains: "mon_at m i = Outside \<Longrightarrow> drain (mon_queue m) = (ts, q) \<Longrightarrow>
    monitor_step m (moved i (if ts = [] then Outside else DrainNotify ts)
      (m\<lparr>mon_queue := q, taken_log := taken_log m @ ts\<rparr>))"
| drain_notifies: "mon_at m i = DrainNotify ts \<Longrightarrow>
    monitor_step m (moved i Outside (m\<lparr>mon_at := wake_pushers (mon_at m)\<rparr>))"
| closes: "mon_at m i = Outside \<Longrightarrow> monitor_step m (moved i CloseNotifyPop (m\<lparr>mon_queue := close (mon_queue m)\<rparr>))"
| close_notifies_pop: "mon_at m i = CloseNotifyPop \<Longrightarrow>
    monitor_step m (moved i CloseNotifyPush (m\<lparr>mon_at := wake_poppers (mon_at m)\<rparr>))"
| close_notifies_push: "mon_at m i = CloseNotifyPush \<Longrightarrow>
    monitor_step m (moved i Outside (m\<lparr>mon_at := wake_pushers (mon_at m)\<rparr>))"

inductive monitor_reachable :: "nat \<Rightarrow> ('i, 't) monitor \<Rightarrow> bool" for cap :: nat where
  start: "monitor_reachable cap
     \<lparr>mon_queue = new_work_queue cap, mon_at = (\<lambda>_. Outside), put_log = [], taken_log = []\<rparr>"
| step: "monitor_reachable cap m \<Longrightarrow> monitor_step m m' \<Longrightarrow> monitor_reachable cap m'"

subsection \<open>Bounded, first in first out\<close>

lemma monitor_fifo:
  assumes "monitor_reachable cap m"
  shows "queue_capacity (mon_queue m) = cap \<and> length (tasks (mon_queue m)) \<le> cap \<and>
    put_log m = taken_log m @ tasks (mon_queue m)"
  using assms
proof (induction rule: monitor_reachable.induct)
  case start
  then show ?case
    by simp
next
  case (step m m')
  then have ok: "within_capacity (mon_queue m)"
    by (simp add: within_capacity_def)
  from step.hyps(2) step.IH show ?case
    by cases (auto simp: moved_def try_push_def push_def pop_def drain_def close_def split: if_splits)
qed

subsection \<open>No wake-up is lost\<close>

definition count :: "('p \<Rightarrow> bool) \<Rightarrow> ('i \<Rightarrow> 'p) \<Rightarrow> nat" where
  "count C f = card {j. C (f j)}"

definition finitely_inside :: "('i \<Rightarrow> 't where_at) \<Rightarrow> bool" where
  "finitely_inside f \<longleftrightarrow> finite {j. f j \<noteq> Outside}"

lemma finitely_inside_upd: "finitely_inside f \<Longrightarrow> finitely_inside (f(i := p))"
proof -
  have "{j. (f(i := p)) j \<noteq> Outside} \<subseteq> insert i {j. f j \<noteq> Outside}"
    by auto
  then show "finitely_inside f \<Longrightarrow> finitely_inside (f(i := p))"
    unfolding finitely_inside_def by (meson finite_insert finite_subset)
qed

lemma finitely_inside_wake:
  "finitely_inside f \<Longrightarrow> finitely_inside (wake_poppers f)"
  "finitely_inside f \<Longrightarrow> finitely_inside (wake_pushers f)"
  unfolding finitely_inside_def
  by (erule rev_finite_subset, auto simp: wake_poppers_def wake_pushers_def split: if_splits where_at.splits)+

lemma count_finite:
  assumes "finitely_inside f" "\<not> C Outside"
  shows "finite {j. C (f j)}"
  using assms unfolding finitely_inside_def by (auto elim!: rev_finite_subset)

lemma count_upd:
  assumes "finitely_inside f" "\<not> C Outside"
  shows "count C (f(i := p)) + (if C (f i) then 1 else 0) = count C f + (if C p then 1 else 0)"
proof -
  have fin: "finite {j. C (f j)}"
    by (rule count_finite [where C = C and f = f, OF assms])
  define D where "D = {j. C (f j)} - {i}"
  have "card D + (if C (f i) then 1 else 0) = card {j. C (f j)}"
  proof (cases "C (f i)")
    case True
    then have "Suc (card D) = card {j. C (f j)}"
      unfolding D_def by (intro card_Suc_Diff1 fin) simp
    with True show ?thesis
      by (simp only: if_True Suc_eq_plus1)
  qed (simp add: D_def)
  moreover have "{j. C ((f(i := p)) j)} = (if C p then insert i D else D)"
    by (auto simp: D_def)
  moreover have "card (insert i D) = card D + 1"
    using fin unfolding D_def by (subst card_insert_disjoint) auto
  ultimately show ?thesis
    by (simp add: count_def)
qed

lemma count_pos:
  assumes "finitely_inside f" "\<not> C Outside"
  shows "0 < count C f \<longleftrightarrow> (\<exists>j. C (f j))"
  using count_finite [where C = C and f = f, OF assms] by (auto simp: count_def card_gt_0_iff)

text \<open>
  The threads that will look at the queue again, as poppers or as pushers, and the closers whose
  broadcast is still to come.
\<close>

definition popper_awake :: "'t where_at \<Rightarrow> bool" where
  "popper_awake p \<longleftrightarrow> p = PopTest \<or> p = PushNotify"

definition pusher_awake :: "'t where_at \<Rightarrow> bool" where
  "pusher_awake p \<longleftrightarrow> (case p of PushTest _ \<Rightarrow> True | PopNotify _ \<Rightarrow> True | _ \<Rightarrow> False)"

definition pusher_waits :: "'t where_at \<Rightarrow> bool" where
  "pusher_waits p \<longleftrightarrow> (case p of PushWait _ \<Rightarrow> True | _ \<Rightarrow> False)"

definition drains_now :: "'t where_at \<Rightarrow> bool" where
  "drains_now p \<longleftrightarrow> (case p of DrainNotify _ \<Rightarrow> True | _ \<Rightarrow> False)"

definition closes_now :: "'t where_at \<Rightarrow> bool" where
  "closes_now p \<longleftrightarrow> p = CloseNotifyPop \<or> p = CloseNotifyPush"

lemmas where_defs = popper_awake_def pusher_awake_def pusher_waits_def drains_now_def closes_now_def

lemma where_outside [simp]:
  "\<not> popper_awake Outside" "\<not> pusher_awake Outside" "\<not> pusher_waits Outside"
  "\<not> drains_now Outside" "\<not> closes_now Outside"
  by (simp_all add: where_defs)

definition no_lost_wakeup :: "('i, 't) monitor \<Rightarrow> bool" where
  "no_lost_wakeup m \<longleftrightarrow>
     finitely_inside (mon_at m) \<and>
     (0 < count (\<lambda>p. p = PopWait) (mon_at m) \<longrightarrow>
        (if queue_closed (mon_queue m) then 0 < count (\<lambda>p. p = CloseNotifyPop) (mon_at m)
         else length (tasks (mon_queue m)) \<le> count popper_awake (mon_at m))) \<and>
     (0 < count pusher_waits (mon_at m) \<longrightarrow>
        (if queue_closed (mon_queue m) then 0 < count closes_now (mon_at m)
         else queue_capacity (mon_queue m) \<le>
                length (tasks (mon_queue m)) + count pusher_awake (mon_at m) \<or>
              0 < count drains_now (mon_at m)))"

lemma count_zero: "\<forall>j. \<not> C (f j) \<Longrightarrow> count C f = 0"
  by (simp add: count_def)

lemma count_wake_poppers:
  "count (\<lambda>p. p = PopWait) (wake_poppers f) = 0"
  "count pusher_waits (wake_poppers f) = count pusher_waits f"
  "count pusher_awake (wake_poppers f) = count pusher_awake f"
  "count drains_now (wake_poppers f) = count drains_now f"
  "count closes_now (wake_poppers f) = count closes_now f"
  by (auto simp: count_def wake_poppers_def where_defs intro!: arg_cong [where f = card])

lemma wake_pushers_simps:
  "\<not> pusher_waits (wake_pushers f j)"
  "wake_pushers f j = PopWait \<longleftrightarrow> f j = PopWait"
  "popper_awake (wake_pushers f j) \<longleftrightarrow> popper_awake (f j)"
  "wake_pushers f j = CloseNotifyPop \<longleftrightarrow> f j = CloseNotifyPop"
  "drains_now (wake_pushers f j) \<longleftrightarrow> drains_now (f j)"
  by (cases "f j"; simp add: wake_pushers_def where_defs)+

lemma count_wake_pushers:
  "count pusher_waits (wake_pushers f) = 0"
  "count (\<lambda>p. p = PopWait) (wake_pushers f) = count (\<lambda>p. p = PopWait) f"
  "count popper_awake (wake_pushers f) = count popper_awake f"
  "count (\<lambda>p. p = CloseNotifyPop) (wake_pushers f) = count (\<lambda>p. p = CloseNotifyPop) f"
  "count drains_now (wake_pushers f) = count drains_now f"
  by (simp_all add: count_def wake_pushers_simps)

text \<open>The effect of one thread's move on all the counts.\<close>

lemma move_counts:
  assumes "finitely_inside f"
  shows "finitely_inside (f(i := p)) \<and>
    count (\<lambda>p. p = PopWait) (f(i := p)) + of_bool (f i = PopWait) =
      count (\<lambda>p. p = PopWait) f + of_bool (p = PopWait) \<and>
    count (\<lambda>p. p = CloseNotifyPop) (f(i := p)) + of_bool (f i = CloseNotifyPop) =
      count (\<lambda>p. p = CloseNotifyPop) f + of_bool (p = CloseNotifyPop) \<and>
    count popper_awake (f(i := p)) + of_bool (popper_awake (f i)) = count popper_awake f + of_bool (popper_awake p) \<and>
    count pusher_awake (f(i := p)) + of_bool (pusher_awake (f i)) = count pusher_awake f + of_bool (pusher_awake p) \<and>
    count pusher_waits (f(i := p)) + of_bool (pusher_waits (f i)) = count pusher_waits f + of_bool (pusher_waits p) \<and>
    count drains_now (f(i := p)) + of_bool (drains_now (f i)) = count drains_now f + of_bool (drains_now p) \<and>
    count closes_now (f(i := p)) + of_bool (closes_now (f i)) = count closes_now f + of_bool (closes_now p)"
  unfolding of_bool_def
  by (intro conjI count_upd finitely_inside_upd assms) simp_all

lemma monitor_wakeups:
  assumes "monitor_reachable cap m"
  shows "no_lost_wakeup m"
  using assms
proof (induction rule: monitor_reachable.induct)
  case start
  then show ?case
    by (simp add: no_lost_wakeup_def finitely_inside_def count_zero)
next
  case (step m m')
  note IH = step.IH [unfolded no_lost_wakeup_def]
  then have fin: "finitely_inside (mon_at m)"
    by blast
  note step_defs = no_lost_wakeup_def moved_def where_defs pop_def push_def try_push_def drain_def close_def
  from step.hyps(2) show ?case
  proof cases
    case (enter_pop i)
    with IH move_counts [OF fin, of i PopTest] show ?thesis
      by (auto simp: step_defs split: if_splits)
  next
    case (pop_waits i)
    with IH move_counts [OF fin, of i PopWait] show ?thesis
      by (auto simp: step_defs split: if_splits)
  next
    case (pop_takes i t q)
    with IH move_counts [OF fin, of i "PopNotify t"] show ?thesis
      by (auto simp: step_defs split: if_splits)
  next
    case (pop_ends i q)
    with IH move_counts [OF fin, of i Outside] show ?thesis
      by (auto simp: step_defs split: if_splits)
  next
    case (pop_notifies_none i t)
    then have "count pusher_waits (mon_at m) = 0"
      by (intro count_zero) (auto simp: pusher_waits_def split: where_at.split)
    with IH move_counts [OF fin, of i Outside] pop_notifies_none show ?thesis
      by (auto simp: step_defs split: if_splits)
  next
    case (pop_spurious i)
    with IH move_counts [OF fin, of i PopTest] show ?thesis
      by (auto simp: step_defs split: if_splits)
  next
    case (try_push_accepted i t q)
    with IH move_counts [OF fin, of i PushNotify] show ?thesis
      by (auto simp: step_defs split: if_splits)
  next
    case (enter_push i t)
    with IH move_counts [OF fin, of i "PushTest t"] show ?thesis
      by (auto simp: step_defs split: if_splits)
  next
    case (push_waits i t)
    with IH move_counts [OF fin, of i "PushWait t"] show ?thesis
      by (auto simp: step_defs split: if_splits)
  next
    case (push_accepted i t q)
    with IH move_counts [OF fin, of i PushNotify] show ?thesis
      by (auto simp: step_defs split: if_splits)
  next
    case (push_refused i t q)
    with IH move_counts [OF fin, of i Outside] show ?thesis
      by (auto simp: step_defs split: if_splits)
  next
    case (push_notifies_none i)
    with IH move_counts [OF fin, of i Outside] count_zero [of "\<lambda>p. p = PopWait" "mon_at m"] show ?thesis
      by (auto simp: step_defs split: if_splits)
  next
    case (push_spurious i t)
    with IH move_counts [OF fin, of i "PushTest t"] show ?thesis
      by (auto simp: step_defs split: if_splits)
  next
    case (closes i)
    with IH move_counts [OF fin, of i CloseNotifyPop] show ?thesis
      by (auto simp: step_defs split: if_splits)
  next
    case (pop_notifies i t j u)
    with IH move_counts [OF fin, of j "PushTest u"]
      move_counts [of "(mon_at m)(j := PushTest u)" i Outside] show ?thesis
      by (auto simp: step_defs split: if_splits)
  next
    case (push_notifies i j)
    with IH move_counts [OF fin, of j PopTest]
      move_counts [of "(mon_at m)(j := PopTest)" i Outside] show ?thesis
      by (auto simp: step_defs split: if_splits)
  next
    case (try_push_refused i t q)
    with step.IH show ?thesis
      by simp
  next
    case (drains i ts q)
    with IH move_counts [OF fin, of i Outside] move_counts [OF fin, of i "DrainNotify ts"] show ?thesis
      by (auto simp: step_defs split: if_splits)
  next
    case (drain_notifies i ts)
    with IH move_counts [OF finitely_inside_wake(2) [OF fin], of i Outside] show ?thesis
      by (auto simp: step_defs count_wake_pushers wake_pushers_def split: if_splits)
  next
    case (close_notifies_pop i)
    with IH move_counts [OF finitely_inside_wake(1) [OF fin], of i CloseNotifyPush] show ?thesis
      by (auto simp: step_defs count_wake_poppers wake_poppers_def split: if_splits)
  next
    case (close_notifies_push i)
    with IH move_counts [OF finitely_inside_wake(2) [OF fin], of i Outside] show ?thesis
      by (auto simp: step_defs count_wake_pushers wake_pushers_def split: if_splits)
  qed
qed

text \<open>
  A thread waits only as long as there is nothing for it: when its predicate holds while it is still
  blocked, another thread is on its way to the queue or about to notify.
\<close>

lemma popper_not_stuck:
  assumes "monitor_reachable cap m" "mon_at m i = PopWait"
    and "tasks (mon_queue m) \<noteq> [] \<or> queue_closed (mon_queue m)"
  shows "\<exists>j. popper_awake (mon_at m j) \<or> mon_at m j = CloseNotifyPop"
proof -
  have inv: "no_lost_wakeup m"
    by (rule monitor_wakeups [OF assms(1)])
  then have fin: "finitely_inside (mon_at m)"
    by (simp add: no_lost_wakeup_def)
  have "0 < count (\<lambda>p. p = PopWait) (mon_at m)"
    using count_pos [OF fin, of "\<lambda>p. p = PopWait"] assms(2) by auto
  with inv assms(3) have "0 < count popper_awake (mon_at m) \<or> 0 < count (\<lambda>p. p = CloseNotifyPop) (mon_at m)"
    by (cases "tasks (mon_queue m)") (auto simp: no_lost_wakeup_def split: if_splits)
  then show ?thesis
    using count_pos [OF fin, of popper_awake] count_pos [OF fin, of "\<lambda>p. p = CloseNotifyPop"] by auto
qed

lemma pusher_not_stuck:
  assumes "monitor_reachable cap m" "mon_at m i = PushWait t"
    and "length (tasks (mon_queue m)) < cap \<or> queue_closed (mon_queue m)"
  shows "\<exists>j. pusher_awake (mon_at m j) \<or> drains_now (mon_at m j) \<or> closes_now (mon_at m j)"
proof -
  have inv: "no_lost_wakeup m" and cap: "queue_capacity (mon_queue m) = cap"
    using monitor_wakeups [OF assms(1)] monitor_fifo [OF assms(1)] by simp_all
  then have fin: "finitely_inside (mon_at m)"
    by (simp add: no_lost_wakeup_def)
  have "pusher_waits (mon_at m i)"
    using assms(2) by (simp add: pusher_waits_def)
  then have "0 < count pusher_waits (mon_at m)"
    using count_pos [OF fin, of pusher_waits] by auto
  with inv cap assms(3) have "0 < count pusher_awake (mon_at m) \<or> 0 < count drains_now (mon_at m) \<or>
      0 < count closes_now (mon_at m)"
    by (auto simp: no_lost_wakeup_def split: if_splits)
  then show ?thesis
    using count_pos [OF fin, of pusher_awake] count_pos [OF fin, of drains_now]
      count_pos [OF fin, of closes_now] by auto
qed

text \<open>A thread inside an operation and not blocked in a wait can always move.\<close>

lemma inside_can_step:
  assumes "mon_at m i \<noteq> Outside" "mon_at m i \<noteq> PopWait" "\<not> pusher_waits (mon_at m i)"
  shows "\<exists>m'. monitor_step m m'"
proof (cases "mon_at m i")
  case PopTest
  show ?thesis
  proof (cases "pop (mon_queue m)")
    case None
    from exI [of "monitor_step m", OF pop_waits [OF PopTest None]] show ?thesis .
  next
    case (Some r)
    then obtain out q where pop: "pop (mon_queue m) = Some (out, q)"
      by (cases r) auto
    show ?thesis
    proof (cases out)
      case None
      from exI [of "monitor_step m", OF pop_ends [OF PopTest pop [unfolded None]]] show ?thesis .
    next
      case (Some t)
      from exI [of "monitor_step m", OF pop_takes [OF PopTest pop [unfolded Some]]] show ?thesis .
    qed
  qed
next
  case (PushTest t)
  show ?thesis
  proof (cases "push (mon_queue m) t")
    case None
    from exI [of "monitor_step m", OF push_waits [OF PushTest None]] show ?thesis .
  next
    case (Some r)
    then obtain b q where push: "push (mon_queue m) t = Some (b, q)"
      by (cases r) auto
    show ?thesis
    proof (cases b)
      case True
      from exI [of "monitor_step m", OF push_accepted [OF PushTest]] push True show ?thesis
        by simp
    next
      case False
      from exI [of "monitor_step m", OF push_refused [OF PushTest]] push False show ?thesis
        by simp
    qed
  qed
next
  case (PopNotify t)
  show ?thesis
  proof (cases "\<exists>j u. mon_at m j = PushWait u")
    case True
    then obtain j u where "mon_at m j = PushWait u"
      by blast
    from exI [of "monitor_step m", OF pop_notifies [OF PopNotify this]] show ?thesis .
  next
    case False
    then have "\<forall>j u. mon_at m j \<noteq> PushWait u"
      by simp
    from exI [of "monitor_step m", OF pop_notifies_none [OF PopNotify this]] show ?thesis .
  qed
next
  case PushNotify
  show ?thesis
  proof (cases "\<exists>j. mon_at m j = PopWait")
    case True
    then obtain j where "mon_at m j = PopWait"
      by blast
    from exI [of "monitor_step m", OF push_notifies [OF PushNotify this]] show ?thesis .
  next
    case False
    then have "\<forall>j. mon_at m j \<noteq> PopWait"
      by simp
    from exI [of "monitor_step m", OF push_notifies_none [OF PushNotify this]] show ?thesis .
  qed
next
  case (DrainNotify ts)
  from exI [of "monitor_step m", OF drain_notifies [OF this]] show ?thesis .
next
  case CloseNotifyPop
  from exI [of "monitor_step m", OF close_notifies_pop [OF this]] show ?thesis .
next
  case CloseNotifyPush
  from exI [of "monitor_step m", OF close_notifies_push [OF this]] show ?thesis .
qed (use assms in \<open>simp_all add: pusher_waits_def\<close>)

end
