(* ===== verification/Arc_Worker_Pool.thy ===== *)
theory Arc_Worker_Pool
  imports Arc_Work_Queue "HOL-Library.Multiset"
begin

text \<open>
  The worker pool (concurrency/worker_pool.hpp, concurrency/worker_pool.cpp): a fixed number of
  threads that pop tasks from a bounded work queue, run them and count how they ended, and a stop that
  closes the queue and joins the threads.  Threads interleave freely; a pop that would wait is not
  enabled.  Whether a task throws is a parameter.  The lemmas show that no accepted task is lost or
  run twice and that stop returns.
\<close>

definition default_worker_count :: "nat \<Rightarrow> nat" where
  "default_worker_count detected = (if detected = 0 then 1 else detected)"

definition resolve_worker_count :: "nat \<Rightarrow> nat \<Rightarrow> nat" where
  "resolve_worker_count detected configured =
     (if configured = 0 then default_worker_count detected else configured)"

text \<open>Where a worker is in its loop: at \<open>pop\<close>, running a task, or past the return.\<close>

datatype 't worker = AtPop | Running 't | Exited

record pool_config =
  config_worker_count :: nat
  config_queue_capacity :: nat

record 't pool =
  pool_queue :: "'t work_queue"
  workers :: "'t worker list"
  tasks_completed :: nat
  tasks_failed :: nat
  pool_stopped :: bool
  submitted :: "'t list"
  executed :: "'t list"

definition new_pool :: "nat \<Rightarrow> pool_config \<Rightarrow> 't pool" where
  "new_pool detected config =
     \<lparr>pool_queue = new_work_queue (config_queue_capacity config),
      workers = replicate (resolve_worker_count detected (config_worker_count config)) AtPop,
      tasks_completed = 0, tasks_failed = 0, pool_stopped = False, submitted = [], executed = []\<rparr>"

definition submit :: "'t pool \<Rightarrow> 't \<Rightarrow> bool \<times> 't pool" where
  "submit p task =
     (let (accepted, q) = try_push (pool_queue p) task in
      (accepted, p\<lparr>pool_queue := q, submitted := submitted p @ (if accepted then [task] else [])\<rparr>))"

text \<open>\<open>stop\<close> up to the joins, which return once every worker has exited.\<close>

definition stop_begins :: "'t pool \<Rightarrow> 't pool" where
  "stop_begins p =
     (if pool_stopped p then p
      else p\<lparr>pool_stopped := True, pool_queue := close (pool_queue p)\<rparr>)"

definition joined :: "'t pool \<Rightarrow> bool" where
  "joined p \<longleftrightarrow> list_all (\<lambda>w. w = Exited) (workers p)"

text \<open>One turn of a worker's loop, up to the call of the task and from its end.\<close>

definition worker_turn :: "('t \<Rightarrow> bool) \<Rightarrow> nat \<Rightarrow> 't pool \<Rightarrow> 't pool option" where
  "worker_turn throws i p =
     (case workers p ! i of
        AtPop \<Rightarrow>
          (case pop (pool_queue p) of
             None \<Rightarrow> None
           | Some (None, q) \<Rightarrow> Some (p\<lparr>pool_queue := q, workers := (workers p)[i := Exited]\<rparr>)
           | Some (Some task, q) \<Rightarrow>
               Some (p\<lparr>pool_queue := q, workers := (workers p)[i := Running task]\<rparr>))
      | Running task \<Rightarrow>
          Some (let p = p\<lparr>workers := (workers p)[i := AtPop], executed := executed p @ [task]\<rparr> in
            if throws task then p\<lparr>tasks_failed := tasks_failed p + 1\<rparr>
            else p\<lparr>tasks_completed := tasks_completed p + 1\<rparr>)
      | Exited \<Rightarrow> None)"

inductive pool_step :: "('t \<Rightarrow> bool) \<Rightarrow> 't pool \<Rightarrow> 't pool \<Rightarrow> bool" for throws :: "'t \<Rightarrow> bool" where
  submits: "submit p t = (accepted, p') \<Longrightarrow> pool_step throws p p'"
| works: "i < length (workers p) \<Longrightarrow> worker_turn throws i p = Some p' \<Longrightarrow> pool_step throws p p'"
| stops: "pool_step throws p (stop_begins p)"

inductive pool_reachable :: "('t \<Rightarrow> bool) \<Rightarrow> nat \<Rightarrow> pool_config \<Rightarrow> 't pool \<Rightarrow> bool"
  for throws :: "'t \<Rightarrow> bool" and detected :: nat and config :: pool_config where
  pool_start: "pool_reachable throws detected config (new_pool detected config)"
| pool_more: "pool_reachable throws detected config p \<Longrightarrow> pool_step throws p p' \<Longrightarrow>
    pool_reachable throws detected config p'"

subsection \<open>No task is lost or run twice\<close>

definition running :: "'t worker list \<Rightarrow> 't multiset" where
  "running ws = sum_list (map (\<lambda>w. case w of Running t \<Rightarrow> {#t#} | _ \<Rightarrow> {#}) ws)"

lemma running_update:
  assumes "i < length ws"
  shows "running (ws[i := w]) + (case ws ! i of Running t \<Rightarrow> {#t#} | _ \<Rightarrow> {#}) =
    running ws + (case w of Running t \<Rightarrow> {#t#} | _ \<Rightarrow> {#})"
  using assms
proof (induction ws arbitrary: i)
  case (Cons a ws)
  then show ?case
    by (cases i) (auto simp: running_def ac_simps)
qed simp

definition pool_ok :: "('t \<Rightarrow> bool) \<Rightarrow> 't pool \<Rightarrow> bool" where
  "pool_ok throws p \<longleftrightarrow>
     within_capacity (pool_queue p) \<and> workers p \<noteq> [] \<and>
     mset (submitted p) = mset (executed p) + running (workers p) + mset (tasks (pool_queue p)) \<and>
     tasks_completed p = length (filter (\<lambda>t. \<not> throws t) (executed p)) \<and>
     tasks_failed p = length (filter throws (executed p)) \<and>
     (pool_stopped p \<longleftrightarrow> queue_closed (pool_queue p)) \<and>
     (Exited \<in> set (workers p) \<longrightarrow> queue_closed (pool_queue p) \<and> tasks (pool_queue p) = [])"

lemma running_replicate [simp]: "running (replicate n AtPop) = {#}"
  by (induction n) (simp_all add: running_def)

lemma new_pool_ok: "pool_ok throws (new_pool detected config)"
  by (simp add: pool_ok_def new_pool_def resolve_worker_count_def default_worker_count_def)

lemma submit_ok:
  assumes "pool_ok throws p" "submit p t = (accepted, p')"
  shows "pool_ok throws p'"
proof -
  obtain q where q: "try_push (pool_queue p) t = (accepted, q)"
      "p' = p\<lparr>pool_queue := q, submitted := submitted p @ (if accepted then [t] else [])\<rparr>"
    using assms(2) by (auto simp: submit_def Let_def split: prod.splits)
  then show ?thesis
    using assms(1) try_push_cases [OF q(1)] by (auto simp: pool_ok_def)
qed

lemma worker_turn_ok:
  assumes ok: "pool_ok throws p" and i: "i < length (workers p)" and turn: "worker_turn throws i p = Some p'"
  shows "pool_ok throws p'"
proof (cases "workers p ! i")
  case (Running t)
  have "running ((workers p)[i := AtPop]) + {#t#} = running (workers p)"
    using running_update [OF i, of AtPop] Running by simp
  moreover have "Exited \<in> set ((workers p)[i := AtPop]) \<Longrightarrow> Exited \<in> set (workers p)"
    by (auto dest: set_update_subset_insert [THEN subsetD])
  moreover have p': "p' = p\<lparr>workers := (workers p)[i := AtPop], executed := executed p @ [t],
      tasks_failed := tasks_failed p + (if throws t then 1 else 0),
      tasks_completed := tasks_completed p + (if throws t then 0 else 1)\<rparr>"
    using turn Running by (cases "throws t") (auto simp: worker_turn_def Let_def)
  ultimately show ?thesis
    using ok unfolding p' by (cases "throws t") (auto simp: pool_ok_def ac_simps)
next
  case AtPop
  then obtain out q where out: "pop (pool_queue p) = Some (out, q)"
    using turn by (auto simp: worker_turn_def split: option.splits)
  have cap: "within_capacity (pool_queue p)"
    using ok by (simp add: pool_ok_def)
  note q = pop_cases [OF out cap]
  show ?thesis
  proof (cases out)
    case None
    then have p': "p' = p\<lparr>pool_queue := q, workers := (workers p)[i := Exited]\<rparr>"
      using turn AtPop out by (simp add: worker_turn_def)
    have "running ((workers p)[i := Exited]) = running (workers p)"
      using running_update [OF i, of Exited] AtPop by simp
    with ok q None show ?thesis
      by (auto simp: p' pool_ok_def)
  next
    case (Some t)
    then have p': "p' = p\<lparr>pool_queue := q, workers := (workers p)[i := Running t]\<rparr>"
      using turn AtPop out by (simp add: worker_turn_def)
    have "running ((workers p)[i := Running t]) = running (workers p) + {#t#}"
      using running_update [OF i, of "Running t"] AtPop by simp
    moreover have "Exited \<in> set ((workers p)[i := Running t]) \<Longrightarrow> Exited \<in> set (workers p)"
      by (auto dest: set_update_subset_insert [THEN subsetD])
    ultimately show ?thesis
      using ok q Some by (auto simp: p' pool_ok_def ac_simps)
  qed
next
  case Exited
  with turn show ?thesis
    by (simp add: worker_turn_def)
qed

lemma pool_reachable_ok:
  assumes "pool_reachable throws detected config p"
  shows "pool_ok throws p"
  using assms
proof (induction rule: pool_reachable.induct)
  case pool_start
  show ?case
    by (rule new_pool_ok)
next
  case (pool_more p p')
  from pool_more.hyps(2) show ?case
  proof cases
    case (submits t accepted)
    then show ?thesis
      by (intro submit_ok [OF pool_more.IH])
  next
    case (works i)
    then show ?thesis
      by (intro worker_turn_ok [OF pool_more.IH])
  next
    case stops
    then show ?thesis
      using pool_more.IH
      by (cases "pool_stopped p") (simp_all add: pool_ok_def stop_begins_def close_def within_capacity_def)
  qed
qed

lemma running_exited: "list_all (\<lambda>w. w = Exited) ws \<Longrightarrow> running ws = {#}"
  by (induction ws) (auto simp: running_def)

text \<open>When the joins have returned, every accepted task has been run exactly once.\<close>

lemma joined_all_run:
  assumes "pool_ok throws p" "joined p"
  shows "mset (executed p) = mset (submitted p) \<and>
    tasks_completed p + tasks_failed p = length (submitted p)"
proof -
  have "Exited \<in> set (workers p)"
    using assms by (cases "workers p") (auto simp: pool_ok_def joined_def)
  with assms running_exited [of "workers p"] have all: "mset (submitted p) = mset (executed p)"
    by (simp add: pool_ok_def joined_def)
  then have "length (submitted p) = length (executed p)"
    by (rule mset_eq_length)
  with all assms(1) sum_length_filter_compl [of throws "executed p"] show ?thesis
    by (simp add: pool_ok_def add.commute)
qed

subsection \<open>Stop returns\<close>

text \<open>The turns left once the queue is closed.\<close>

definition turns_of :: "'t worker \<Rightarrow> nat" where
  "turns_of w = (case w of AtPop \<Rightarrow> 1 | Running _ \<Rightarrow> 2 | Exited \<Rightarrow> 0)"

lemma turns_of_simps [simp]: "turns_of AtPop = 1" "turns_of (Running t) = 2" "turns_of Exited = 0"
  by (simp_all add: turns_of_def)

definition turns_left :: "'t pool \<Rightarrow> nat" where
  "turns_left p =
     2 * length (tasks (pool_queue p)) + sum_list (map turns_of (workers p))"

lemma sum_list_update_nat:
  fixes f :: "'a \<Rightarrow> nat"
  assumes "i < length xs"
  shows "sum_list (map f (xs[i := x])) + f (xs ! i) = sum_list (map f xs) + f x"
  using assms
proof (induction xs arbitrary: i)
  case (Cons a xs)
  then show ?case
    by (cases i) auto
qed simp

lemma worker_turn_decreases:
  assumes "i < length (workers p)" "worker_turn throws i p = Some p'" "within_capacity (pool_queue p)"
  shows "turns_left p' < turns_left p \<and> queue_closed (pool_queue p') = queue_closed (pool_queue p)"
proof -
  note upd = sum_list_update_nat [OF assms(1), of turns_of]
  show ?thesis
  proof (cases "workers p ! i")
    case (Running t)
    with assms(2) upd [of AtPop] show ?thesis
      by (cases "throws t") (auto simp: worker_turn_def turns_left_def Let_def)
  next
    case AtPop
    then obtain out q where out: "pop (pool_queue p) = Some (out, q)"
      using assms(2) by (auto simp: worker_turn_def split: option.splits)
    note q = pop_cases [OF out assms(3)]
    show ?thesis
    proof (cases out)
      case None
      with AtPop out assms(2) have "p' = p\<lparr>pool_queue := q, workers := (workers p)[i := Exited]\<rparr>"
        by (simp add: worker_turn_def)
      moreover have "sum_list (map turns_of ((workers p)[i := Exited])) < sum_list (map turns_of (workers p))"
        using upd [of Exited] AtPop by simp
      ultimately show ?thesis
        using q None by (simp add: turns_left_def)
    next
      case (Some t)
      with AtPop out assms(2) have "p' = p\<lparr>pool_queue := q, workers := (workers p)[i := Running t]\<rparr>"
        by (simp add: worker_turn_def)
      with q upd [of "Running t"] AtPop Some show ?thesis
        by (simp add: turns_left_def)
    qed
  next
    case Exited
    with assms(2) show ?thesis
      by (simp add: worker_turn_def)
  qed
qed

lemma closed_pool_progress:
  assumes "queue_closed (pool_queue p)" "\<not> joined p"
  shows "\<exists>i p'. i < length (workers p) \<and> worker_turn throws i p = Some p'"
proof -
  obtain i where i: "i < length (workers p)" "workers p ! i \<noteq> Exited"
    using assms(2) by (auto simp: joined_def list_all_length)
  then have "worker_turn throws i p \<noteq> None"
    using assms(1) by (auto simp: worker_turn_def pop_def split: worker.split)
  with i show ?thesis
    by blast
qed

text \<open>
  Once the queue is closed, however the workers are scheduled, they take at most \<open>turns_left\<close> turns,
  and as long as one has not exited a turn is possible.
\<close>

fun schedule :: "('t \<Rightarrow> bool) \<Rightarrow> nat list \<Rightarrow> 't pool \<Rightarrow> 't pool option" where
  "schedule throws [] p = Some p"
| "schedule throws (i # is) p =
     (if i < length (workers p)
      then (case worker_turn throws i p of None \<Rightarrow> None | Some p' \<Rightarrow> schedule throws is p')
      else None)"

lemma schedule_bounded:
  assumes "pool_ok throws p" "schedule throws is p = Some p'"
  shows "length is + turns_left p' \<le> turns_left p \<and> pool_ok throws p' \<and>
    queue_closed (pool_queue p') = queue_closed (pool_queue p) \<and> submitted p' = submitted p"
  using assms
proof (induction "is" arbitrary: p)
  case (Cons i "is")
  then obtain p1 where turn: "i < length (workers p)" "worker_turn throws i p = Some p1"
      "schedule throws is p1 = Some p'"
    by (auto split: if_splits option.splits)
  have "submitted p1 = submitted p"
    using turn(2) by (auto simp: worker_turn_def Let_def split: worker.splits option.splits if_splits)
  moreover have "within_capacity (pool_queue p)"
    using Cons.prems(1) by (simp add: pool_ok_def)
  ultimately show ?case
    using Cons.IH [OF worker_turn_ok [OF Cons.prems(1) turn(1,2)] turn(3)]
      worker_turn_decreases [OF turn(1,2)] by auto
qed simp

lemma closed_pool_joins:
  assumes "pool_ok throws p" "queue_closed (pool_queue p)"
  shows "\<exists>is p'. schedule throws is p = Some p' \<and> joined p'"
  using assms
proof (induction "turns_left p" arbitrary: p rule: less_induct)
  case less
  show ?case
  proof (cases "joined p")
    case True
    then show ?thesis
      by (intro exI [of _ "[]"]) simp
  next
    case False
    then obtain i p1 where turn: "i < length (workers p)" "worker_turn throws i p = Some p1"
      using closed_pool_progress [OF less.prems(2)] by blast
    have "within_capacity (pool_queue p)"
      using less.prems(1) by (simp add: pool_ok_def)
    then have "turns_left p1 < turns_left p" "queue_closed (pool_queue p1)"
      using worker_turn_decreases [OF turn] less.prems(2) by simp_all
    then obtain "is" p' where "schedule throws is p1 = Some p'" "joined p'"
      using less.hyps worker_turn_ok [OF less.prems(1) turn] by blast
    then have "schedule throws (i # is) p = Some p' \<and> joined p'"
      using turn by simp
    then show ?thesis
      by blast
  qed
qed

end
