(* ===== verification/Arc_Serve.thy ===== *)
theory Arc_Serve
  imports Arc_Parser_Requests Arc_Net
begin

text \<open>
  What every HTTP server of ArcServe has in common: the answer to one request, the reference transcript
  of a connection -- the replies to its requests, in order, up to the first that closes it -- and the
  lemmas that relate a parser that has been fed part of a request to the bytes it has been fed.
\<close>

text \<open>
  The answer to a parsed request, serialized, and whether the connection stays open
  (\<open>handle_connection\<close> of server/blocking_server.cpp and \<open>drive_parser\<close> of
  server/nonblocking_http_server.cpp).
\<close>

definition answer :: "RequestHandler \<Rightarrow> HttpRequest \<Rightarrow> string \<times> bool" where
  "answer handler rq =
     (let response = handler rq;
          keep_alive = resp_keep_alive response \<and> HttpRequest_keep_alive rq;
          response = response\<lparr>resp_keep_alive := keep_alive\<rparr> in
      (serialize response, keep_alive))"

fun serve :: "RequestHandler \<Rightarrow> nat \<Rightarrow> nat \<Rightarrow> HttpRequest list \<Rightarrow> string" where
  "serve handler max_requests served [] = []"
| "serve handler max_requests served (rq # rqs) =
     (case answer handler rq of (reply, keep_alive) \<Rightarrow>
        reply @ (if \<not> keep_alive \<or> served + 1 \<ge> max_requests then []
                else serve handler max_requests (served + 1) rqs))"

text \<open>The requests a client may send in pieces: as \<open>sendable\<close>, with a request line below the cap.\<close>

definition deliverable :: "HttpRequest \<Rightarrow> bool" where
  "deliverable rq \<longleftrightarrow> sendable rq \<and> length (request_line rq) < kMaxRequestLineLength"

abbreviation render_all :: "HttpRequest list \<Rightarrow> string" where
  "render_all rqs \<equiv> concat (map render_request rqs)"

subsection \<open>A completed request consumes input\<close>

lemma header_turn_out_shorter:
  "header_turn p data = Inl (StepAdvanced, q, rest) \<Longrightarrow> length rest < length data"
  by (auto simp: header_turn_def after_line_def split_terminator_def Let_def
      dest: find_crlf_less split: if_splits option.splits)

lemma parse_headers_shorter:
  "fst (parse_headers p data) = StepAdvanced \<Longrightarrow> length (snd (snd (parse_headers p data))) < length data"
proof (induction rule: parse_headers_rule)
  case (leave p data out)
  then show ?case
    using header_turn_out_shorter [of p data "fst (snd out)" "snd (snd out)"] by (cases out) auto
next
  case (turn p data q rest)
  then show ?case
    using header_turn_shorter [of p data q rest] by simp
qed

lemma parse_step_shorter:
  assumes "parser_ok p" "parse_step p data = (StepAdvanced, q, rest)"
  shows "length rest < length data"
proof (cases "pstate p")
  case kRequestLine
  with assms(2) have "parse_request_line p data = (StepAdvanced, q, rest)"
    by (simp add: parse_step_def)
  then show ?thesis
    by (auto simp: parse_request_line_def split_terminator_def Let_def case_prod_beta
        dest: find_crlf_less split: if_splits option.splits)
next
  case kHeaders
  with assms(2) show ?thesis
    using parse_headers_shorter [of p data] by (simp add: parse_step_def)
next
  case kBody
  then have "length (req_body (request p)) < the (content_length p)" "the (content_length p) \<le> kMaxBodyBytes"
    using assms(1) by (auto simp: parser_ok_def)
  then have "0 < size_minus (the (content_length p)) (length (req_body (request p)))"
    using size_minus_le [of "length (req_body (request p))" "the (content_length p)"]
    by (simp add: kMaxBodyBytes_def)
  with kBody assms(2) \<open>length (req_body (request p)) < the (content_length p)\<close> show ?thesis
    by (auto simp: parse_step_def parse_body_def Let_def split: if_splits)
qed (use assms(1) parser_ok_not_done in blast)

lemma feed_complete_shorter:
  assumes "parser_ok p" "feed p data = (kComplete, q, rest)"
  shows "length rest < length data"
  using assms
proof (induction p data rule: feed.induct)
  case (1 p data)
  obtain result q' rest' where step: "parse_step p data = (result, q', rest')"
    by (cases "parse_step p data") auto
  have live: "pstate p \<noteq> kDone"
    by (rule parser_ok_not_done [OF "1.prems"(1)])
  have result: "result = StepAdvanced"
    using "1.prems"(2) step live by (cases result) (simp_all add: feed.simps [of p data])
  note shorter = parse_step_shorter [OF "1.prems"(1) step [unfolded result]]
  show ?case
  proof (cases "pstate q' = kDone")
    case True
    with "1.prems"(2) step live result shorter show ?thesis
      by (simp add: feed.simps [of p data])
  next
    case False
    then have "parser_ok q'" "feed q' rest' = (kComplete, q, rest)"
      using parse_step_ok [OF "1.prems"(1), of data] step result "1.prems"(2) live
      by (simp_all add: step_ok_def feed.simps [of p data])
    with "1.IH" [OF live step [symmetric] result refl False] shorter show ?thesis
      by simp
  qed
qed

subsection \<open>A parser that has been fed part of a request\<close>

definition carries :: "parser \<Rightarrow> string \<Rightarrow> bool" where
  "carries p a \<longleftrightarrow>
     parser_ok p \<and> (a = [] \<longrightarrow> p = new_parser) \<and> (pstate p = kRequestLine \<longrightarrow> line_buffer p = a) \<and>
     (\<forall>d. d \<noteq> [] \<longrightarrow> request_line_fits (a @ d) \<longrightarrow> agree kError (feed p d) (feed new_parser (a @ d)))"

lemma new_parser_fields [simp]:
  "pstate new_parser = kRequestLine" "line_buffer new_parser = []"
  "new_parser\<lparr>line_buffer := []\<rparr> = new_parser"
  by (simp_all add: new_parser_def)

lemma carries_new [simp]: "carries new_parser []"
  by (simp add: carries_def)

lemma carries_more:
  assumes "carries p a" "d \<noteq> []" "feed p d = (kNeedMoreData, q, rest)" "request_line_fits (a @ d)"
  shows "carries q (a @ d) \<and> rest = []"
proof -
  have p: "parser_ok p" and line: "pstate p = kRequestLine \<Longrightarrow> line_buffer p = a"
    and whole: "\<And>d. d \<noteq> [] \<Longrightarrow> request_line_fits (a @ d) \<Longrightarrow> agree kError (feed p d) (feed new_parser (a @ d))"
    using assms(1) by (auto simp: carries_def)
  have q: "parser_ok q"
    using feed_ok [OF p, of d] assms(3) by simp
  have waits: "rest = []" "pstate q = kRequestLine \<Longrightarrow> pstate p = kRequestLine \<and> line_buffer q = line_buffer p @ d"
    using feed_waits [OF assms(3) p] by simp_all
  have "agree kError (feed q e) (feed new_parser (a @ d @ e))"
    if e: "e \<noteq> []" "request_line_fits (a @ d @ e)" for e
  proof -
    have "pstate p = kRequestLine \<longrightarrow> request_line_fits (line_buffer p @ d @ e)"
      using line e(2) by simp
    then have "agree kError (feed q e) (feed p (d @ e))"
      using feed_extends [OF p _ e(1), of d] assms(2,3) by simp
    also have "agree kError \<dots> (feed new_parser (a @ d @ e))"
      using whole [of "d @ e"] assms(2) e(2) by simp
    finally show ?thesis .
  qed
  with q waits line assms(2) show ?thesis
    by (auto simp: carries_def)
qed

lemma rendered_line_fits:
  assumes "deliverable rq"
  shows "request_line_fits (render_request rq @ rest)"
proof -
  have "clean_text (request_line rq)"
    using assms by (intro request_line_clean) (simp_all add: deliverable_def sendable_def complete_request_def)
  then have "find_crlf (render_request rq @ rest) = Some (length (request_line rq))"
    using find_crlf_line [OF clean_crlf_free] by (simp add: render_request_def CRLF_def)
  with assms show ?thesis
    by (simp add: request_line_fits_def deliverable_def)
qed

lemma render_nonempty [simp]: "render_request rq \<noteq> []"
  by (simp add: render_request_def request_line_def)

text \<open>Feeding what has arrived of a rendered request: all of it completes the request, less waits.\<close>

lemma feed_rendered_all:
  assumes "carries p a" "deliverable rq" "a @ d = render_request rq @ rest" "d \<noteq> []"
  shows "\<exists>q. feed p d = (kComplete, q, rest) \<and> request q = rq"
proof -
  obtain q where fed: "feed new_parser (a @ d) = (kComplete, q, rest)" "request q = rq"
    using feed_render [of rq rest] assms(2,3) by (auto simp: deliverable_def)
  have "request_line_fits (a @ d)"
    using rendered_line_fits [OF assms(2)] assms(3) by simp
  then have "agree kError (feed p d) (feed new_parser (a @ d))"
    using assms(1,4) unfolding carries_def by blast
  with fed(1) have "agree kError (feed p d) (kComplete, q, rest)"
    by simp
  with fed(2) show ?thesis
    by (simp add: agree_def)
qed

lemma feed_rendered_part:
  assumes "carries p a" "deliverable rq" "a @ d @ b = render_request rq" "d \<noteq> []" "b \<noteq> []"
  shows "\<exists>q. feed p d = (kNeedMoreData, q, []) \<and> carries q (a @ d)"
proof -
  obtain q where whole: "feed new_parser (a @ d @ b) = (kComplete, q, [])"
    using feed_render [of rq "[]"] assms(2,3) by (auto simp: deliverable_def)
  have fits: "request_line_fits (a @ d @ b)"
    using rendered_line_fits [OF assms(2), of "[]"] assms(3) by simp
  have short: "request_line_fits (a @ d)"
    using request_line_fits_prefix [of "a @ d" b] fits by simp
  have "case feed new_parser (a @ d) of
      (kNeedMoreData, q, rest) \<Rightarrow> rest = [] \<and> agree kError (feed q b) (feed new_parser ((a @ d) @ b))
    | (kComplete, q, rest) \<Rightarrow> feed new_parser ((a @ d) @ b) = (kComplete, q, rest @ b)
    | (kError, q, rest) \<Rightarrow> fst (feed new_parser ((a @ d) @ b)) = kError"
    using fits assms(5) by (intro feed_extends) simp_all
  then have "fst (feed new_parser (a @ d)) = kNeedMoreData"
    using whole assms(5) by (auto split: prod.splits ParseStatus.splits)
  moreover have "agree kError (feed p d) (feed new_parser (a @ d))"
    using assms(1,4) short by (simp add: carries_def)
  ultimately have "fst (feed p d) = kNeedMoreData"
    by (auto simp: agree_def)
  then obtain r rest where "feed p d = (kNeedMoreData, r, rest)"
    by (cases "feed p d") auto
  with carries_more [OF assms(1,4) _ short] show ?thesis
    by auto
qed

lemma feed_nothing: "feed new_parser [] = (kNeedMoreData, new_parser, [])"
  by (simp add: feed.simps [of new_parser] parse_step_def parse_request_line_def split_terminator_def
      Let_def)

text \<open>
  The two cases together: the bytes fed so far, the bytes at hand and the bytes still to come are the
  rendering of the requests that are not yet answered.
\<close>

lemma feed_stream:
  assumes "carries p a" "\<forall>rq\<in>set rqs. deliverable rq" "a @ d @ later = render_all rqs" "d \<noteq> []"
  shows "(\<exists>q. feed p d = (kNeedMoreData, q, []) \<and> carries q (a @ d)) \<or>
    (\<exists>q rq rqs' rest. rqs = rq # rqs' \<and> feed p d = (kComplete, q, rest) \<and> request q = rq \<and>
       rest @ later = render_all rqs' \<and> length rest < length d)"
proof (cases rqs)
  case Nil
  with assms(3,4) show ?thesis
    by simp
next
  case (Cons rq rqs')
  with assms(2) have rq: "deliverable rq"
    by simp
  have split: "(a @ d) @ later = render_request rq @ render_all rqs'"
    using assms(3) Cons by simp
  show ?thesis
  proof (cases "length (render_request rq) \<le> length (a @ d)")
    case True
    with split obtain rest where rest: "a @ d = render_request rq @ rest" "rest @ later = render_all rqs'"
      by (metis append_eq_append_conv_if append_take_drop_id)
    obtain q where fed: "feed p d = (kComplete, q, rest)" "request q = rq"
      using feed_rendered_all [OF assms(1) rq rest(1) assms(4)] by blast
    have "length rest < length d"
      using feed_complete_shorter [OF _ fed(1)] assms(1) by (simp add: carries_def)
    with fed rest Cons show ?thesis
      by blast
  next
    case False
    with split obtain b where b: "(a @ d) @ b = render_request rq" "b \<noteq> []"
      by (metis append_eq_append_conv_if append_take_drop_id append_Nil2 order_refl nat_le_linear)
    then have "a @ d @ b = render_request rq"
      by simp
    from feed_rendered_part [OF assms(1) rq this assms(4) b(2)] show ?thesis
      by blast
  qed
qed

end
