(* ===== verification/Arc_Http_Server.thy ===== *)
theory Arc_Http_Server
  imports Arc_Reactor Arc_Worker_Pool Arc_Serve
begin

text \<open>
  The HTTP server on the reactor (server/nonblocking_http_server.hpp,
  server/nonblocking_http_server.cpp, server/http_connection.hpp): the registry of connections, the
  callbacks of the listener, of a client and of the completion descriptor, and the work handed to a
  pool of threads and back.  Connection objects live in a store; a shared pointer is an identity in it,
  and an identity a worker holds weakly is alive while the registry has it.  A handler that throws has
  no result.
\<close>

record http_config =
  http_port :: nat
  http_backlog :: int
  http_read_chunk_bytes :: nat
  http_max_keep_alive_requests :: nat
  http_max_output_queue_bytes :: nat
  http_max_read_buffer_bytes :: nat
  completion_queue_capacity :: nat

record HttpConnection =
  base :: Connection
  hparser :: parser
  requests_served :: nat
  awaiting_worker_result :: bool

definition new_http_connection :: "Connection \<Rightarrow> HttpConnection" where
  "new_http_connection c =
     \<lparr>base = c, hparser = new_parser, requests_served = 0, awaiting_worker_result = False\<rparr>"

datatype http_callback = OnListenerReadable | OnClientEvent | OnCompletionReadable

text \<open>What the closures handed to the pool and to the completion queue capture.\<close>

record worker_task =
  task_conn :: nat
  task_request :: HttpRequest
  task_keep_alive :: bool

record completion =
  done_conn :: nat
  done_response :: HttpResponse
  done_keep_alive :: bool

type_synonym http_handler = "HttpRequest \<Rightarrow> HttpResponse option"

record http_server =
  http_reactor :: "http_callback reactor"
  connections :: "int \<rightharpoonup> nat"
  objects :: "nat \<Rightarrow> HttpConnection"
  next_object :: nat
  worker_pool :: "worker_task pool option"
  completion_queue :: "completion work_queue option"
  connections_accepted :: nat
  closed_fds :: "int list"

definition put_conn :: "nat \<Rightarrow> HttpConnection \<Rightarrow> http_server \<Rightarrow> http_server" where
  "put_conn i conn st = st\<lparr>objects := (objects st)(i := conn)\<rparr>"

definition fd_of :: "http_server \<Rightarrow> nat \<Rightarrow> int" where
  "fd_of st i = conn_fd (base (objects st i))"

text \<open>\<open>weak_ptr::lock\<close> on the reactor's thread, where only the registry owns connections.\<close>

definition alive :: "http_server \<Rightarrow> nat \<Rightarrow> bool" where
  "alive st i \<longleftrightarrow> connections st (fd_of st i) = Some i"

definition new_http_server ::
  "int \<Rightarrow> int \<Rightarrow> int \<Rightarrow> http_config \<Rightarrow> worker_task pool option \<Rightarrow> (nat \<Rightarrow> HttpConnection) \<Rightarrow>
   string + http_server" where
  "new_http_server listener_fd wakeup_fd completion_fd config pool unused =
     (case reactor_add listener_fd kReadable OnListenerReadable (new_reactor wakeup_fd) of
        Inl e \<Rightarrow> Inl e
      | Inr r \<Rightarrow>
          (case (if pool = None then Inr r else reactor_add completion_fd kReadable OnCompletionReadable r) of
             Inl e \<Rightarrow> Inl e
           | Inr r \<Rightarrow>
               Inr \<lparr>http_reactor = r, connections = Map.empty, objects = unused, next_object = 0,
                    worker_pool = pool,
                    completion_queue =
                      (if pool = None then None else Some (new_work_queue (completion_queue_capacity config))),
                    connections_accepted = 0, closed_fds = []\<rparr>))"

subsection \<open>Tearing down and writing\<close>

definition close_connection :: "int \<Rightarrow> http_server \<Rightarrow> http_server" where
  "close_connection fd st =
     st\<lparr>http_reactor := reactor_remove fd (http_reactor st),
        connections := (connections st)(fd := None),
        closed_fds := closed_fds st @ (if connections st fd = None then [] else [fd])\<rparr>"

definition put_base :: "nat \<Rightarrow> Connection \<Rightarrow> http_server \<Rightarrow> http_server" where
  "put_base i c st = put_conn i ((objects st i)\<lparr>base := c\<rparr>) st"

definition finish_dispatch :: "nat \<Rightarrow> bool \<Rightarrow> http_server \<Rightarrow> (bool \<times> http_server) outcome" where
  "finish_dispatch i close_after_flush st =
     (case flush_output (base (objects st i)) of
        None \<Rightarrow> None
      | Some (flush_result, c) \<Rightarrow>
          let st = put_base i c st in
          (case flush_result of
             kFailed \<Rightarrow> Some (Inr (False, close_connection (conn_fd c) st))
           | kFlushed \<Rightarrow>
               if close_after_flush then Some (Inr (False, close_connection (conn_fd c) st))
               else Some (Inr (True, st))
           | kPending \<Rightarrow>
               let st = put_base i (c\<lparr>conn_state := (if close_after_flush then kClosing else kWriting)\<rparr>) st in
               (case reactor_modify (conn_fd c) kWritable (http_reactor st) of
                  Inl e \<Rightarrow> Some (Inl e)
                | Inr r \<Rightarrow> Some (Inr (False, st\<lparr>http_reactor := r\<rparr>)))))"

text \<open>\<open>on_worker_result\<close> from the lock to the call of \<open>finish_dispatch\<close>.\<close>

definition deliver_result ::
  "http_config \<Rightarrow> nat \<Rightarrow> HttpResponse \<Rightarrow> bool \<Rightarrow> http_server \<Rightarrow> (bool \<times> http_server) outcome" where
  "deliver_result config i response request_keep_alive st =
     (let conn = (objects st i)\<lparr>awaiting_worker_result := False\<rparr>;
          keep_alive = resp_keep_alive response \<and> request_keep_alive;
          response = response\<lparr>resp_keep_alive := keep_alive\<rparr> in
      case enqueue_output (base conn) (serialize response) of (queued, c) \<Rightarrow>
        let conn = conn\<lparr>base := c\<rparr>;
            conn = (if queued then conn\<lparr>requests_served := requests_served conn + 1\<rparr> else conn);
            close_after_flush =
              (if queued then \<not> keep_alive \<or> requests_served conn \<ge> http_max_keep_alive_requests config
               else True) in
        finish_dispatch i close_after_flush (put_conn i conn st))"

subsection \<open>Parsing what has been read\<close>

text \<open>
  The loop of \<open>drive_parser\<close>: how it is left -- with or without closing after the flush, or with a
  request for the pool -- the connection and the rest of the view.
\<close>

datatype loop_exit = Finish bool | Dispatch HttpRequest bool | HandlerThrew

partial_function (option) parse_loop ::
  "http_config \<Rightarrow> http_handler \<Rightarrow> bool \<Rightarrow> HttpConnection \<Rightarrow> string \<Rightarrow>
   (loop_exit \<times> HttpConnection \<times> string) option" where
  "parse_loop config handler has_pool conn view =
     (case feed (hparser conn) view of (status, p, view) \<Rightarrow>
        let conn = conn\<lparr>hparser := p\<rparr> in
        (case status of
           kNeedMoreData \<Rightarrow> Some (Finish False, conn, view)
         | kError \<Rightarrow>
             (case enqueue_output (base conn) (serialize (error_response p)) of (queued, c) \<Rightarrow>
                Some (Finish True, conn\<lparr>base := c\<rparr>, []))
         | kComplete \<Rightarrow>
             if has_pool
             then Some (Dispatch (request p) (HttpRequest_keep_alive (request p)),
                        conn\<lparr>hparser := reset p, awaiting_worker_result := True\<rparr>, view)
             else
               (case handler (request p) of
                  None \<Rightarrow> Some (HandlerThrew, conn, view)
                | Some response \<Rightarrow>
                    (case answer (\<lambda>rq. response) (request p) of (serialized, keep_alive) \<Rightarrow>
                       (case enqueue_output (base conn) serialized of (queued, c) \<Rightarrow>
                          let conn = conn\<lparr>base := c\<rparr> in
                          if \<not> queued then Some (Finish True, conn, [])
                          else
                            let conn = conn\<lparr>requests_served := requests_served conn + 1,
                                            hparser := reset p\<rparr> in
                            if \<not> keep_alive \<or> requests_served conn \<ge> http_max_keep_alive_requests config
                            then Some (Finish True, conn, view)
                            else parse_loop config handler has_pool conn view)))))"

definition consume_parsed :: "nat \<Rightarrow> string \<Rightarrow> http_server \<Rightarrow> http_server" where
  "consume_parsed i view st =
     (let c = base (objects st i);
          b = read_buffer c in
      put_base i (c\<lparr>read_buffer := buffer_consume (size_minus (buffer_size b) (length view)) b\<rparr>) st)"

text \<open>
  \<open>drive_parser\<close> with \<open>dispatch_to_worker\<close>: a refused task is answered with a 503 on the spot, through
  \<open>on_worker_result\<close>, which may come back here.
\<close>

partial_function (option) drive_parser ::
  "http_config \<Rightarrow> http_handler \<Rightarrow> nat \<Rightarrow> http_server \<Rightarrow> http_server outcome" where
  "drive_parser config handler i st =
     (case parse_loop config handler (worker_pool st \<noteq> None) (objects st i)
             (buffer_view (read_buffer (base (objects st i)))) of
        None \<Rightarrow> None
      | Some (exit, conn, view) \<Rightarrow>
          let st = put_conn i conn st in
          (case exit of
             HandlerThrew \<Rightarrow> Some (Inl ''handler'')
           | Finish close_after_flush \<Rightarrow>
               (case finish_dispatch i close_after_flush (consume_parsed i view st) of
                  None \<Rightarrow> None
                | Some (Inl e) \<Rightarrow> Some (Inl e)
                | Some (Inr (resumable, st)) \<Rightarrow> Some (Inr st))
           | Dispatch rq request_keep_alive \<Rightarrow>
               (case submit (the (worker_pool st))
                       \<lparr>task_conn = i, task_request = rq, task_keep_alive = request_keep_alive\<rparr> of
                  (taken, pool) \<Rightarrow>
                    let st = st\<lparr>worker_pool := Some pool\<rparr> in
                    if taken then Some (Inr (consume_parsed i view st))
                    else
                      (case deliver_result config i
                              (make_error_response 503 ''Service Unavailable''
                                 (''worker queue is full'' @ [LF]) False)
                              request_keep_alive st of
                         None \<Rightarrow> None
                       | Some (Inl e) \<Rightarrow> Some (Inl e)
                       | Some (Inr (resumable, st)) \<Rightarrow>
                           Option.bind
                             (if resumable then drive_parser config handler i st else Some (Inr st))
                             (\<lambda>out. case out of
                                Inl e \<Rightarrow> Some (Inl e)
                              | Inr st \<Rightarrow> Some (Inr (consume_parsed i view st)))))))"

definition on_worker_result ::
  "http_config \<Rightarrow> http_handler \<Rightarrow> completion \<Rightarrow> http_server \<Rightarrow> http_server outcome" where
  "on_worker_result config handler done st =
     (let i = done_conn done in
      if \<not> alive st i then Some (Inr st)
      else
        (case deliver_result config i (done_response done) (done_keep_alive done) st of
           None \<Rightarrow> None
         | Some (Inl e) \<Rightarrow> Some (Inl e)
         | Some (Inr (resumable, st)) \<Rightarrow>
             if resumable then drive_parser config handler i st else Some (Inr st)))"

subsection \<open>The callbacks\<close>

definition process_readable ::
  "http_config \<Rightarrow> http_handler \<Rightarrow> nat \<Rightarrow> http_server \<Rightarrow> http_server outcome" where
  "process_readable config handler i st =
     (case read_available (http_read_chunk_bytes config) (base (objects st i)) of (closes, c) \<Rightarrow>
        let st = put_base i c st in
        if closes then Some (Inr (close_connection (conn_fd c) st))
        else if awaiting_worker_result (objects st i) then Some (Inr st)
        else drive_parser config handler i st)"

definition readable_part ::
  "http_config \<Rightarrow> http_handler \<Rightarrow> nat \<Rightarrow> u32 \<Rightarrow> http_server \<Rightarrow> http_server outcome" where
  "readable_part config handler i events st =
     (if events AND kReadable \<noteq> 0 \<and> conn_state (base (objects st i)) = kReading
      then process_readable config handler i st
      else Some (Inr st))"

definition on_client_event ::
  "http_config \<Rightarrow> http_handler \<Rightarrow> int \<Rightarrow> u32 \<Rightarrow> http_server \<Rightarrow> http_server outcome" where
  "on_client_event config handler fd events st =
     (case connections st fd of
        None \<Rightarrow> Some (Inr st)
      | Some i \<Rightarrow>
        if events AND (EPOLLERR OR EPOLLHUP) \<noteq> 0 then Some (Inr (close_connection fd st))
        else if events AND kWritable \<noteq> 0 then
          (case flush_output (base (objects st i)) of
             None \<Rightarrow> None
           | Some (result, c) \<Rightarrow>
               let st = put_base i c st in
               (case result of
                  kFailed \<Rightarrow> Some (Inr (close_connection fd st))
                | kFlushed \<Rightarrow>
                    if conn_state c = kClosing then Some (Inr (close_connection fd st))
                    else
                      let st = put_base i (c\<lparr>conn_state := kReading\<rparr>) st in
                      (case reactor_modify fd kReadable (http_reactor st) of
                         Inl e \<Rightarrow> Some (Inl e)
                       | Inr r \<Rightarrow> readable_part config handler i events (st\<lparr>http_reactor := r\<rparr>))
                | kPending \<Rightarrow> readable_part config handler i events st))
        else readable_part config handler i events st)"

fun run_completions ::
  "http_config \<Rightarrow> http_handler \<Rightarrow> completion list \<Rightarrow> http_server \<Rightarrow> http_server outcome" where
  "run_completions config handler [] st = Some (Inr st)"
| "run_completions config handler (done # dones) st =
     (case on_worker_result config handler done st of
        None \<Rightarrow> None
      | Some (Inl e) \<Rightarrow> Some (Inl e)
      | Some (Inr st) \<Rightarrow> run_completions config handler dones st)"

definition on_completion_readable ::
  "http_config \<Rightarrow> http_handler \<Rightarrow> http_server \<Rightarrow> http_server outcome" where
  "on_completion_readable config handler st =
     (case completion_queue st of
        None \<Rightarrow> Some (Inr st)
      | Some q \<Rightarrow>
          (case drain q of (dones, q) \<Rightarrow>
             run_completions config handler dones (st\<lparr>completion_queue := Some q\<rparr>)))"

text \<open>The listener's callback; \<open>fresh\<close> gives the peer name and the socket of an accepted descriptor.\<close>

definition accept_one ::
  "http_config \<Rightarrow> (int \<Rightarrow> string \<times> socket) \<Rightarrow> int \<Rightarrow> http_server \<Rightarrow> string + http_server" where
  "accept_one config fresh client_fd st =
     (let (peer_name, s) = fresh client_fd;
          c = new_connection client_fd peer_name (http_max_output_queue_bytes config)
                (http_max_read_buffer_bytes config) s;
          i = next_object st;
          st = st\<lparr>objects := (objects st)(i := new_http_connection c), next_object := i + 1\<rparr>;
          st = (if connections st client_fd = None
                then st\<lparr>connections := (connections st)(client_fd \<mapsto> i)\<rparr> else st);
          st = st\<lparr>connections_accepted := connections_accepted st + 1\<rparr> in
      (case reactor_add client_fd kReadable OnClientEvent (http_reactor st) of
         Inl e \<Rightarrow> Inl e
       | Inr r \<Rightarrow> Inr (st\<lparr>http_reactor := r\<rparr>)))"

function on_listener_readable ::
  "http_config \<Rightarrow> (int \<Rightarrow> string \<times> socket) \<Rightarrow> accept_outcome list \<Rightarrow> http_server \<Rightarrow> http_server outcome" where
  "on_listener_readable config fresh pending st =
     (case accept_nonblocking pending of
        (Inl e, later) \<Rightarrow> Some (Inl e)
      | (Inr None, later) \<Rightarrow> Some (Inr st)
      | (Inr (Some client_fd), later) \<Rightarrow>
          (case accept_one config fresh client_fd st of
             Inl e \<Rightarrow> Some (Inl e)
           | Inr st \<Rightarrow> on_listener_readable config fresh later st))"
  by pat_completeness auto
termination
  by (relation "measure (\<lambda>(config, fresh, pending, st). length pending)")
    (auto dest: accept_nonblocking_shrinks)

declare on_listener_readable.simps [simp del]

definition invoke ::
  "http_config \<Rightarrow> http_handler \<Rightarrow> (int \<Rightarrow> string \<times> socket) \<Rightarrow> accept_outcome list \<Rightarrow> http_callback \<Rightarrow>
   int \<Rightarrow> u32 \<Rightarrow> http_server \<Rightarrow> http_server outcome" where
  "invoke config handler fresh pending callback fd events st =
     (case callback of
        OnListenerReadable \<Rightarrow> on_listener_readable config fresh pending st
      | OnClientEvent \<Rightarrow> on_client_event config handler fd events st
      | OnCompletionReadable \<Rightarrow> on_completion_readable config handler st)"

subsection \<open>The worker's side\<close>

text \<open>
  A turn of worker \<open>j\<close>: taking a task, or running the handler and posting its response; a handler that
  throws posts nothing, and a full completion queue makes the worker wait.
\<close>

definition server_worker_turn :: "http_handler \<Rightarrow> nat \<Rightarrow> http_server \<Rightarrow> http_server option" where
  "server_worker_turn handler j st =
     (case (worker_pool st, completion_queue st) of
        (Some pool, Some q) \<Rightarrow>
          (case worker_turn (\<lambda>t. handler (task_request t) = None) j pool of
             None \<Rightarrow> None
           | Some pool' \<Rightarrow>
               (case workers pool ! j of
                  Running t \<Rightarrow>
                    (case handler (task_request t) of
                       None \<Rightarrow> Some (st\<lparr>worker_pool := Some pool'\<rparr>)
                     | Some response \<Rightarrow>
                         (case push q \<lparr>done_conn = task_conn t, done_response = response,
                                       done_keep_alive = task_keep_alive t\<rparr> of
                            None \<Rightarrow> None
                          | Some (queued, q) \<Rightarrow>
                              Some (st\<lparr>worker_pool := Some pool', completion_queue := Some q\<rparr>)))
                | _ \<Rightarrow> Some (st\<lparr>worker_pool := Some pool'\<rparr>)))
      | _ \<Rightarrow> None)"

text \<open>The end of \<open>run\<close>, once the reactor's loop has returned.\<close>

definition run_ends :: "http_server \<Rightarrow> http_server" where
  "run_ends st = st\<lparr>completion_queue := map_option close (completion_queue st)\<rparr>"

end
