(* ===== verification/Arc_Http_Invariant.thy ===== *)
theory Arc_Http_Invariant
  imports Arc_Http_Server
begin

text \<open>
  The invariant of the reactor's HTTP server, kept by every callback and every turn of a worker: the
  registry, the reactor and the connections agree, and a connection waits for the pool exactly when one
  piece of its work is under way.
\<close>

definition http_wants :: "HttpConnection \<Rightarrow> u32" where
  "http_wants h = (if conn_state (base h) = kReading then kReadable else kWritable)"

definition wants_of :: "http_server \<Rightarrow> int \<rightharpoonup> u32" where
  "wants_of st fd = map_option (\<lambda>i. http_wants (objects st i)) (connections st fd)"

text \<open>The work under way: tasks queued or running and results not yet delivered, by connection.\<close>

definition in_flight :: "http_server \<Rightarrow> nat multiset" where
  "in_flight st =
     (case worker_pool st of
        None \<Rightarrow> {#}
      | Some pool \<Rightarrow> image_mset task_conn (mset (tasks (pool_queue pool)) + running (workers pool))) +
     (case completion_queue st of None \<Rightarrow> {#} | Some q \<Rightarrow> image_mset done_conn (mset (tasks q)))"

text \<open>A connection between two events.\<close>

definition settled :: "HttpConnection \<Rightarrow> bool" where
  "settled h \<longleftrightarrow>
     connection_ok (base h) \<and> conn_state (base h) \<noteq> kClosed \<and>
     (conn_state (base h) = kReading \<longleftrightarrow> unsent (base h) = []) \<and>
     (conn_state (base h) \<noteq> kClosing \<longrightarrow> parser_ok (hparser h)) \<and>
     (awaiting_worker_result h \<longrightarrow> conn_state (base h) = kReading)"

definition flight_ok :: "bool \<Rightarrow> nat \<Rightarrow> bool \<Rightarrow> bool" where
  "flight_ok exact n awaiting \<longleftrightarrow> n \<le> of_bool awaiting \<and> (exact \<longrightarrow> n = of_bool awaiting)"

text \<open>
  The server while a callback works on the connections \<open>mid\<close>, with results taken from the queue for the
  connections \<open>busy\<close>.  With \<open>exact\<close>, no handler throws.
\<close>

definition conn_inv :: "bool \<Rightarrow> nat set \<Rightarrow> nat multiset \<Rightarrow> http_server \<Rightarrow> nat \<Rightarrow> bool" where
  "conn_inv exact mid work st i \<longleftrightarrow>
     i < next_object st \<and>
     (if i \<in> mid
      then connection_ok (base (objects st i)) \<and> conn_state (base (objects st i)) = kReading \<and>
           Multiset.count work i = 0
      else settled (objects st i) \<and>
           flight_ok exact (Multiset.count work i) (awaiting_worker_result (objects st i)))"

definition http_inv :: "bool \<Rightarrow> int set \<Rightarrow> nat multiset \<Rightarrow> nat set \<Rightarrow> http_server \<Rightarrow> bool" where
  "http_inv exact own busy mid st \<longleftrightarrow>
     registry_ok own OnClientEvent (http_reactor st) (wants_of st) \<and>
     (\<forall>fd i. connections st fd = Some i \<longrightarrow>
        fd_of st i = fd \<and> conn_inv exact mid (in_flight st + busy) st i) \<and>
     (\<forall>i\<in>#in_flight st + busy. i < next_object st) \<and>
     finite (dom (connections st)) \<and>
     connections_accepted st = card (dom (connections st)) + length (closed_fds st) \<and>
     (worker_pool st = None \<longleftrightarrow> completion_queue st = None) \<and>
     (exact \<longrightarrow> (\<forall>q. completion_queue st = Some q \<longrightarrow> \<not> queue_closed q))"

lemma put_simps [simp]:
  "connections (put_conn i h st) = connections st" "http_reactor (put_conn i h st) = http_reactor st"
  "objects (put_conn i h st) = (objects st)(i := h)" "next_object (put_conn i h st) = next_object st"
  "worker_pool (put_conn i h st) = worker_pool st" "completion_queue (put_conn i h st) = completion_queue st"
  "connections_accepted (put_conn i h st) = connections_accepted st"
  "closed_fds (put_conn i h st) = closed_fds st" "in_flight (put_conn i h st) = in_flight st"
  by (simp_all add: put_conn_def in_flight_def)

lemma put_put [simp]: "put_conn i h (put_conn i h' st) = put_conn i h st"
  by (simp add: put_conn_def)

lemma put_base_put: "put_base i c (put_conn i h st) = put_conn i (h\<lparr>base := c\<rparr>) st"
  by (simp add: put_base_def)

lemma in_flight_simps [simp]:
  "in_flight (st\<lparr>http_reactor := r\<rparr>) = in_flight st" "in_flight (close_connection fd st) = in_flight st"
  by (simp_all add: in_flight_def close_connection_def)

lemma close_simps [simp]:
  "connections (close_connection fd st) = (connections st)(fd := None)"
  "http_reactor (close_connection fd st) = reactor_remove fd (http_reactor st)"
  "objects (close_connection fd st) = objects st" "next_object (close_connection fd st) = next_object st"
  "worker_pool (close_connection fd st) = worker_pool st"
  "completion_queue (close_connection fd st) = completion_queue st"
  "connections_accepted (close_connection fd st) = connections_accepted st"
  "connections st fd = Some i \<Longrightarrow> closed_fds (close_connection fd st) = closed_fds st @ [fd]"
  by (simp_all add: close_connection_def)

lemma http_invD:
  assumes "http_inv exact own busy mid st" "connections st fd = Some i"
  shows "fd_of st i = fd" "conn_inv exact mid (in_flight st + busy) st i"
  using assms unfolding http_inv_def by blast+

lemma http_inv_parts:
  assumes "http_inv exact own busy mid st"
  shows "registry_ok own OnClientEvent (http_reactor st) (wants_of st)" "finite (dom (connections st))"
    "\<And>i. i \<in># in_flight st + busy \<Longrightarrow> i < next_object st"
    "connections_accepted st = card (dom (connections st)) + length (closed_fds st)"
    "worker_pool st = None \<longleftrightarrow> completion_queue st = None"
    "exact \<Longrightarrow> completion_queue st = Some q \<Longrightarrow> \<not> queue_closed q"
  using assms unfolding http_inv_def by blast+

lemma one_descriptor:
  assumes "http_inv exact own busy mid st" "connections st fd = Some i" "connections st fd' = Some i"
  shows "fd' = fd"
  using http_invD(1) [OF assms(1,2)] http_invD(1) [OF assms(1,3)] by simp

lemma reactor_upd_simps [simp]:
  "conn_inv exact mid work (st\<lparr>http_reactor := r\<rparr>) i = conn_inv exact mid work st i"
  "fd_of (st\<lparr>http_reactor := r\<rparr>) i = fd_of st i"
  "wants_of (st\<lparr>http_reactor := r\<rparr>) = wants_of st"
  by (simp_all add: conn_inv_def fd_of_def wants_of_def fun_eq_iff)

text \<open>A connection's part of the invariant depends on its object only.\<close>

lemma conn_inv_cong:
  assumes "conn_inv exact mid work st j" "objects st' j = objects st j" "next_object st' = next_object st"
    and "j \<in> mid' \<longleftrightarrow> j \<in> mid"
  shows "conn_inv exact mid' work st' j"
  using assms unfolding conn_inv_def by simp

lemma wants_of_put:
  assumes "http_inv exact own busy mid st" "connections st fd = Some i"
  shows "wants_of (put_conn i h st) = (wants_of st)(fd \<mapsto> http_wants h)"
proof
  fix fd'
  show "wants_of (put_conn i h st) fd' = ((wants_of st)(fd \<mapsto> http_wants h)) fd'"
    using one_descriptor [OF assms, of fd'] assms(2)
    by (cases "connections st fd'") (auto simp: wants_of_def)
qed

text \<open>Replacing the object of a registered connection, with or without telling the reactor.\<close>

lemma inv_put:
  assumes inv: "http_inv exact own busy mid st" and i: "connections st fd = Some i"
    and h: "conn_fd (base h) = fd" "http_wants h = http_wants (objects st i)"
    and "\<And>j. j \<noteq> i \<Longrightarrow> j \<in> mid' \<longleftrightarrow> j \<in> mid"
    and "conn_inv exact mid' (in_flight st + busy) (put_conn i h st) i"
  shows "http_inv exact own busy mid' (put_conn i h st)"
proof -
  have "wants_of st fd = Some (http_wants h)"
    using i h(2) by (simp add: wants_of_def)
  then have "(wants_of st)(fd \<mapsto> http_wants h) = wants_of st"
    by (rule map_upd_triv)
  then have wants: "wants_of (put_conn i h st) = wants_of st"
    using wants_of_put [OF inv i] by simp
  have "fd_of (put_conn i h st) j = fd' \<and> conn_inv exact mid' (in_flight st + busy) (put_conn i h st) j"
    if "connections st fd' = Some j" for fd' j
  proof (cases "j = i")
    case True
    with one_descriptor [OF inv i] that h(1) assms(6) show ?thesis
      by (simp add: fd_of_def)
  next
    case False
    with http_invD [OF inv that] assms(5) show ?thesis
      by (auto intro: conn_inv_cong simp: fd_of_def)
  qed
  with http_inv_parts [OF inv] show ?thesis
    unfolding http_inv_def by (simp add: wants)
qed

lemma inv_put_gone:
  assumes "http_inv exact own busy mid st" "\<And>fd. connections st fd \<noteq> Some i"
  shows "http_inv exact own busy mid (put_conn i h st)"
proof -
  have "wants_of (put_conn i h st) = wants_of st"
    using assms(2) by (auto simp: wants_of_def fun_eq_iff map_option_case split: option.split)
  moreover have "fd_of (put_conn i h st) j = fd \<and> conn_inv exact mid (in_flight st + busy) (put_conn i h st) j"
    if "connections st fd = Some j" for fd j
  proof -
    have "j \<noteq> i"
      using assms(2) that by auto
    with http_invD [OF assms(1) that] show ?thesis
      by (auto intro: conn_inv_cong simp: fd_of_def)
  qed
  ultimately show ?thesis
    using http_inv_parts [OF assms(1)] unfolding http_inv_def by simp
qed

lemma inv_modify:
  assumes inv: "http_inv exact own busy mid st" and i: "connections st fd = Some i"
    and h: "conn_fd (base h) = fd"
    and "\<And>j. j \<noteq> i \<Longrightarrow> j \<in> mid' \<longleftrightarrow> j \<in> mid"
    and "conn_inv exact mid' (in_flight st + busy) (put_conn i h st) i"
  shows "\<exists>r. reactor_modify fd (http_wants h) (http_reactor st) = Inr r \<and>
    http_inv exact own busy mid' (put_conn i h st\<lparr>http_reactor := r\<rparr>)"
proof -
  have "registry_ok own OnClientEvent (http_reactor st) (wants_of st)" "wants_of st fd \<noteq> None"
    using inv i by (simp_all add: http_inv_def wants_of_def)
  from registry_modify [OF this] obtain r where
    r: "reactor_modify fd (http_wants h) (http_reactor st) = Inr r"
    "registry_ok own OnClientEvent r ((wants_of st)(fd \<mapsto> http_wants h))"
    by blast
  have "fd_of (put_conn i h st) j = fd' \<and> conn_inv exact mid' (in_flight st + busy) (put_conn i h st) j"
    if "connections st fd' = Some j" for fd' j
  proof (cases "j = i")
    case True
    with one_descriptor [OF inv i] that h assms(5) show ?thesis
      by (simp add: fd_of_def)
  next
    case False
    with http_invD [OF inv that] assms(4) show ?thesis
      by (auto intro: conn_inv_cong simp: fd_of_def)
  qed
  moreover have "wants_of (put_conn i h st) = (wants_of st)(fd \<mapsto> http_wants h)"
    by (rule wants_of_put [OF inv i])
  ultimately have "http_inv exact own busy mid' (put_conn i h st\<lparr>http_reactor := r\<rparr>)"
    using http_inv_parts [OF inv] r(2) unfolding http_inv_def by simp
  with r(1) show ?thesis
    by blast
qed

lemma inv_close:
  assumes inv: "http_inv exact own busy mid st" and i: "connections st fd = Some i"
    and "\<And>j. j \<noteq> i \<Longrightarrow> j \<in> mid' \<longleftrightarrow> j \<in> mid"
  shows "http_inv exact own busy mid' (close_connection fd st)"
proof -
  have "registry_ok own OnClientEvent (http_reactor st) (wants_of st)" "wants_of st fd \<noteq> None"
    using inv i by (simp_all add: http_inv_def wants_of_def)
  then have "registry_ok own OnClientEvent (reactor_remove fd (http_reactor st)) ((wants_of st)(fd := None))"
    by (rule registry_remove)
  moreover have "wants_of (close_connection fd st) = (wants_of st)(fd := None)"
    by (auto simp: wants_of_def close_connection_def fun_eq_iff)
  moreover have "card (dom (connections st)) = Suc (card (dom (connections st) - {fd}))"
    using inv i by (intro card.remove) (auto simp: http_inv_def)
  moreover have "conn_inv exact mid' (in_flight st + busy) (close_connection fd st) j \<and>
      fd_of (close_connection fd st) j = fd'"
    if "fd' \<noteq> fd" "connections st fd' = Some j" for fd' j
  proof -
    have "j \<noteq> i"
      using one_descriptor [OF inv i] that by auto
    with http_invD [OF inv that(2)] assms(3) show ?thesis
      by (auto intro: conn_inv_cong simp: fd_of_def)
  qed
  ultimately show ?thesis
    using http_inv_parts [OF inv] i unfolding http_inv_def by (auto split: if_splits)
qed

lemma inv_close_put:
  assumes "http_inv exact own busy mid st" "connections st fd = Some i" "\<And>j. j \<noteq> i \<Longrightarrow> j \<in> mid' \<longleftrightarrow> j \<in> mid"
  shows "http_inv exact own busy mid' (close_connection fd (put_conn i h st))"
proof -
  have "close_connection fd (put_conn i h st) = put_conn i h (close_connection fd st)"
    by (simp add: close_connection_def put_conn_def)
  moreover have "connections (close_connection fd st) fd' \<noteq> Some i" for fd'
    using one_descriptor [OF assms(1,2)] by auto
  ultimately show ?thesis
    using inv_put_gone [OF inv_close [OF assms(1,2)]] assms(3) by simp
qed

subsection \<open>Writing\<close>

text \<open>What a callback that works on the connection \<open>i\<close> of descriptor \<open>fd\<close> leaves alone.\<close>

definition only_touches :: "int \<Rightarrow> nat \<Rightarrow> http_server \<Rightarrow> http_server \<Rightarrow> bool" where
  "only_touches fd i st st' \<longleftrightarrow>
     (\<forall>j. j \<noteq> i \<longrightarrow> objects st' j = objects st j) \<and>
     (\<forall>fd'. fd' \<noteq> fd \<longrightarrow> connections st' fd' = connections st fd') \<and>
     (connections st' fd = connections st fd \<or> connections st' fd = None) \<and>
     next_object st' = next_object st \<and> completion_queue st' = completion_queue st \<and>
     (\<forall>j. j \<noteq> i \<longrightarrow> Multiset.count (in_flight st') j = Multiset.count (in_flight st) j)"

lemma only_touches_refl [simp]: "only_touches fd i st st"
  by (simp add: only_touches_def)

lemma only_touches_put [simp]:
  "only_touches fd i st (put_conn i h st)" "only_touches fd i st (put_conn i h st\<lparr>http_reactor := r\<rparr>)"
  "only_touches fd i st (close_connection fd st)" "only_touches fd i st (close_connection fd (put_conn i h st))"
  by (auto simp: only_touches_def)

lemma only_touches_trans:
  assumes "only_touches fd i a b" "only_touches fd i b c"
  shows "only_touches fd i a c"
  using assms unfolding only_touches_def by (intro conjI) (metis, metis, metis, simp, simp, metis)

text \<open>A connection in \<open>mid\<close>.\<close>

lemma conn_inv_mid:
  "conn_inv exact {i} work st i \<longleftrightarrow>
     i < next_object st \<and> connection_ok (base (objects st i)) \<and>
     conn_state (base (objects st i)) = kReading \<and> Multiset.count work i = 0"
  by (simp add: conn_inv_def)

lemma conn_inv_settled:
  "conn_inv exact {} work st i \<longleftrightarrow>
     i < next_object st \<and> settled (objects st i) \<and>
     flight_ok exact (Multiset.count work i) (awaiting_worker_result (objects st i))"
  by (simp add: conn_inv_def)

lemma connection_ok_state [simp]: "connection_ok (c\<lparr>conn_state := s\<rparr>) = connection_ok c"
  by (simp add: connection_ok_def)

lemma unsent_state [simp]: "unsent (c\<lparr>conn_state := s\<rparr>) = unsent c" "unread (c\<lparr>conn_state := s\<rparr>) = unread c"
  by (simp_all add: unsent_def unread_def)

lemma finish_dispatch_inv:
  assumes inv: "http_inv exact own busy {i} st" and i: "connections st fd = Some i"
    and idle: "\<not> awaiting_worker_result (objects st i)"
    and p: "\<not> close_after_flush \<longrightarrow> parser_ok (hparser (objects st i))"
  shows "\<exists>b st'. finish_dispatch i close_after_flush st = Some (Inr (b, st')) \<and>
    http_inv exact own busy {} st' \<and> only_touches fd i st st' \<and> worker_pool st' = worker_pool st \<and>
    (b \<longrightarrow> \<not> close_after_flush \<and> connections st' fd = Some i \<and>
       \<not> awaiting_worker_result (objects st' i) \<and> conn_state (base (objects st' i)) = kReading)"
proof -
  let ?h = "objects st i"
  have c: "i < next_object st" "connection_ok (base ?h)" "conn_state (base ?h) = kReading"
      "Multiset.count (in_flight st + busy) i = 0" "conn_fd (base ?h) = fd"
    using http_invD [OF inv i] by (simp_all add: conn_inv_mid fd_of_def)
  obtain result c' where flush: "flush_output (base ?h) = Some (result, c')" and d: "drained (base ?h) c'"
      and out: "result = kFlushed \<Longrightarrow> unsent c' = []" "result = kPending \<Longrightarrow> unsent c' \<noteq> []"
    using flush_output_result [OF c(2)] by blast
  have c': "connection_ok c'" "conn_fd c' = fd" "conn_state c' = kReading"
    using d c by (simp_all add: drained_def)
  have step: "finish_dispatch i close_after_flush st =
      (case result of
         kFailed \<Rightarrow> Some (Inr (False, close_connection fd (put_base i c' st)))
       | kFlushed \<Rightarrow>
           if close_after_flush then Some (Inr (False, close_connection fd (put_base i c' st)))
           else Some (Inr (True, put_base i c' st))
       | kPending \<Rightarrow>
           (case reactor_modify fd kWritable (http_reactor st) of
              Inl e \<Rightarrow> Some (Inl e)
            | Inr r \<Rightarrow> Some (Inr (False,
                (put_base i (c'\<lparr>conn_state := (if close_after_flush then kClosing else kWriting)\<rparr>) st)
                  \<lparr>http_reactor := r\<rparr>))))"
    using c'(2)
    by (cases result) (simp_all add: finish_dispatch_def flush Let_def put_base_def split: sum.split)
  have same: "http_wants (?h\<lparr>base := c'\<rparr>) = http_wants ?h"
    using c(3) c'(3) by (simp add: http_wants_def)
  have mid: "http_inv exact own busy {i} (put_base i c' st)"
    unfolding put_base_def using c c' by (intro inv_put [OF inv i _ same]) (simp_all add: conn_inv_mid)
  have closed: "http_inv exact own busy {} (close_connection fd (put_base i c' st))"
    using i by (intro inv_close [OF mid]) (simp_all add: put_base_def)
  show ?thesis
  proof (cases result)
    case kFailed
    with closed show ?thesis
      by (auto simp: step put_base_def)
  next
    case kFlushed
    then have "\<not> close_after_flush \<Longrightarrow> http_inv exact own busy {} (put_base i c' st)"
      unfolding put_base_def using c c' p idle out
      by (intro inv_put [OF inv i _ same]) (simp_all add: conn_inv_settled settled_def flight_ok_def)
    with kFlushed closed i idle c'(3) show ?thesis
      unfolding step by (cases close_after_flush) (auto simp: put_base_def)
  next
    case kPending
    let ?h' = "?h\<lparr>base := c'\<lparr>conn_state := (if close_after_flush then kClosing else kWriting)\<rparr>\<rparr>"
    have "http_wants ?h' = kWritable"
      by (simp add: http_wants_def)
    moreover have "conn_inv exact {} (in_flight st + busy) (put_conn i ?h' st) i"
      using c c' p idle out(2) [OF kPending]
      by (auto simp: conn_inv_settled settled_def flight_ok_def)
    ultimately obtain r where "reactor_modify fd kWritable (http_reactor st) = Inr r"
        "http_inv exact own busy {} (put_conn i ?h' st\<lparr>http_reactor := r\<rparr>)"
      using inv_modify [OF inv i, of ?h' "{}"] c'(2) by auto
    with kPending i show ?thesis
      by (auto simp: step put_base_def)
  qed
qed

subsection \<open>Parsing\<close>

text \<open>
  How the loop leaves the connection: the same descriptor, state, socket and read buffer, a shorter
  view, and a parser that is ready unless the connection is to be closed.
\<close>

definition loop_leaves ::
  "bool \<Rightarrow> HttpConnection \<Rightarrow> string \<Rightarrow> loop_exit \<Rightarrow> HttpConnection \<Rightarrow> string \<Rightarrow> bool" where
  "loop_leaves has_pool conn view exit conn' view' \<longleftrightarrow>
     connection_ok (base conn') \<and> conn_fd (base conn') = conn_fd (base conn) \<and>
     conn_state (base conn') = conn_state (base conn) \<and> sock (base conn') = sock (base conn) \<and>
     read_buffer (base conn') = read_buffer (base conn) \<and> length view' \<le> length view \<and>
     (case exit of
        Finish close_after_flush \<Rightarrow>
          awaiting_worker_result conn' = awaiting_worker_result conn \<and>
          (\<not> close_after_flush \<longrightarrow> parser_ok (hparser conn'))
      | Dispatch rq keep \<Rightarrow>
          has_pool \<and> awaiting_worker_result conn' \<and> parser_ok (hparser conn') \<and>
          unsent (base conn') = unsent (base conn)
      | HandlerThrew \<Rightarrow> True)"

lemma loop_leaves_trans:
  assumes "loop_leaves has_pool conn1 view1 exit conn' view'" "length view1 \<le> length view"
    and "conn_fd (base conn1) = conn_fd (base conn)" "conn_state (base conn1) = conn_state (base conn)"
    and "sock (base conn1) = sock (base conn)" "read_buffer (base conn1) = read_buffer (base conn)"
    and "awaiting_worker_result conn1 = awaiting_worker_result conn" "\<not> has_pool"
  shows "loop_leaves has_pool conn view exit conn' view'"
  using assms by (auto simp: loop_leaves_def split: loop_exit.splits)

lemma enqueue_output_keeps:
  assumes "enqueue_output c data = (queued, c')" "connection_ok c"
  shows "connection_ok c' \<and> conn_fd c' = conn_fd c \<and> conn_state c' = conn_state c \<and>
    sock c' = sock c \<and> read_buffer c' = read_buffer c \<and> recvs (sock c') = recvs (sock c) \<and>
    max_buffered_bytes (write_queue c') = max_buffered_bytes (write_queue c) \<and>
    unsent c' = (if queued then unsent c @ data else unsent c) \<and>
    (queued \<longleftrightarrow> length (unsent c) + length data \<le> max_buffered_bytes (write_queue c))"
proof -
  obtain q where q: "enqueue (write_queue c) data = (queued, q)" "c' = c\<lparr>write_queue := q\<rparr>"
    using assms(1) by (auto simp: enqueue_output_def split: prod.splits)
  have "max_buffered_bytes q = max_buffered_bytes (write_queue c)"
    using q(1) by (auto simp: enqueue_def Let_def split: if_splits prod.splits)
  with q(2) enqueue_output_result [OF assms(2,1)] show ?thesis
    by simp
qed

lemma parse_loop_leaves:
  assumes "connection_ok (base conn)" "parser_ok (hparser conn)" "\<forall>rq. \<not> has_pool \<longrightarrow> exact \<longrightarrow> handler rq \<noteq> None"
  shows "\<exists>exit conn' view'. parse_loop config handler has_pool conn view = Some (exit, conn', view') \<and>
    loop_leaves has_pool conn view exit conn' view' \<and> (exact \<longrightarrow> exit \<noteq> HandlerThrew)"
  using assms
proof (induction "length view" arbitrary: conn view rule: less_induct)
  case less
  note step = parse_loop.simps [of config handler has_pool conn view]
  obtain status p rest where fed: "feed (hparser conn) view = (status, p, rest)"
    by (cases "feed (hparser conn) view") auto
  show ?case
  proof (cases status)
    case kNeedMoreData
    then have "parser_ok p" "rest = []"
      using feed_ok [OF less.prems(2), of view] feed_waits [OF _ less.prems(2)] fed by auto
    with step fed kNeedMoreData less.prems show ?thesis
      by (simp add: Let_def loop_leaves_def)
  next
    case kError
    obtain queued c where enq: "enqueue_output (base conn) (serialize (error_response p)) = (queued, c)"
      by fastforce
    with step fed kError less.prems(1) enqueue_output_keeps [OF enq less.prems(1)] show ?thesis
      by (simp add: Let_def loop_leaves_def)
  next
    case kComplete
    have shorter: "length rest < length view"
      using feed_complete_shorter [OF less.prems(2)] fed kComplete by simp
    show ?thesis
    proof (cases has_pool)
      case True
      with step fed kComplete less.prems shorter show ?thesis
        by (simp add: Let_def loop_leaves_def)
    next
      case inline: False
      show ?thesis
      proof (cases "handler (request p)")
        case None
        then have "\<not> exact"
          using less.prems(3) inline by blast
        with None step fed kComplete less.prems shorter inline show ?thesis
          by (simp add: Let_def loop_leaves_def)
      next
        case (Some response)
        obtain reply keep_alive where reply: "answer (\<lambda>rq. response) (request p) = (reply, keep_alive)"
          by fastforce
        obtain queued c where enq: "enqueue_output (base conn) reply = (queued, c)"
          by fastforce
        note c = enqueue_output_keeps [OF enq less.prems(1)]
        define conn1 where "conn1 = conn\<lparr>base := c, requests_served := requests_served conn + 1, hparser := reset p\<rparr>"
        have turn: "parse_loop config handler has_pool conn view =
            (if \<not> queued then Some (Finish True, conn\<lparr>hparser := p, base := c\<rparr>, [])
             else if \<not> keep_alive \<or> requests_served conn1 \<ge> http_max_keep_alive_requests config
             then Some (Finish True, conn1, rest)
             else parse_loop config handler has_pool conn1 rest)"
          using step fed kComplete inline Some reply enq by (simp add: Let_def conn1_def)
        have conn1: "connection_ok (base conn1)" "parser_ok (hparser conn1)"
          using c by (simp_all add: conn1_def)
        from less.hyps [OF shorter conn1 less.prems(3)] obtain exit conn' view' where
          next_: "parse_loop config handler has_pool conn1 rest = Some (exit, conn', view')"
          "loop_leaves has_pool conn1 rest exit conn' view'" "exact \<longrightarrow> exit \<noteq> HandlerThrew"
          by blast
        have "loop_leaves has_pool conn view exit conn' view'"
          by (rule loop_leaves_trans [OF next_(2)])
            (use c shorter inline in \<open>simp_all add: conn1_def\<close>)
        with next_ turn c shorter conn1 show ?thesis
          by (auto simp: loop_leaves_def conn1_def)
      qed
    qed
  qed
qed

lemma connection_ok_consume [simp]:
  "connection_ok c \<Longrightarrow> connection_ok (c\<lparr>read_buffer := buffer_consume n (read_buffer c)\<rparr>)"
  by (simp add: connection_ok_def buffer_consume_ok)

text \<open>Dropping what has been parsed keeps the invariant, whether or not the connection is still open.\<close>

lemma consume_parsed_simps [simp]:
  "worker_pool (consume_parsed i view st) = worker_pool st"
  "completion_queue (consume_parsed i view st) = completion_queue st"
  "hparser (objects (consume_parsed i view st) i) = hparser (objects st i)"
  "awaiting_worker_result (objects (consume_parsed i view st) i) = awaiting_worker_result (objects st i)"
  "requests_served (objects (consume_parsed i view st) i) = requests_served (objects st i)"
  "connections (consume_parsed i view st) = connections st"
  "only_touches fd i st (consume_parsed i view st)"
  by (simp_all add: consume_parsed_def put_base_def Let_def)

lemma consume_parsed_inv:
  assumes inv: "http_inv exact own busy mid st"
    and reg: "\<And>fd'. connections st fd' = Some i \<Longrightarrow> fd' = fd"
  shows "http_inv exact own busy mid (consume_parsed i view st)"
proof -
  define n where "n = size_minus (buffer_size (read_buffer (base (objects st i)))) (length view)"
  define h where "h = (objects st i)\<lparr>base := (base (objects st i))
      \<lparr>read_buffer := buffer_consume n (read_buffer (base (objects st i)))\<rparr>\<rparr>"
  have eq: "consume_parsed i view st = put_conn i h st"
    by (simp add: consume_parsed_def put_base_def h_def n_def Let_def)
  have "http_inv exact own busy mid (put_conn i h st)"
  proof (cases "connections st fd = Some i")
    case True
    note i = http_invD [OF inv True]
    have "conn_inv exact mid (in_flight st + busy) (put_conn i h st) i"
      using i(2) by (simp add: conn_inv_def settled_def h_def unsent_def split: if_splits)
    then show ?thesis
      using i(1) by (intro inv_put [OF inv True]) (simp_all add: h_def fd_of_def http_wants_def)
  next
    case False
    then have "connections st fd' \<noteq> Some i" for fd'
      using reg by blast
    then show ?thesis
      by (rule inv_put_gone [OF inv])
  qed
  then show ?thesis
    by (simp add: eq)
qed

lemma only_touches_put_trans:
  "only_touches fd i (put_conn i h st) st' \<Longrightarrow> only_touches fd i st st'"
  by (rule only_touches_trans [OF only_touches_put(1)])

text \<open>
  The reply of a worker, or of the server in the pool's place: from a connection whose work is no longer
  under way.
\<close>

lemma deliver_result_inv:
  assumes inv: "http_inv exact own busy {i} st" and i: "connections st fd = Some i"
    and p: "parser_ok (hparser (objects st i))"
  shows "\<exists>b st'. deliver_result config i response keep st = Some (Inr (b, st')) \<and>
    http_inv exact own busy {} st' \<and> only_touches fd i st st' \<and> worker_pool st' = worker_pool st \<and>
    (b \<longrightarrow> keep \<and> resp_keep_alive response \<and> connections st' fd = Some i \<and>
       \<not> awaiting_worker_result (objects st' i) \<and> conn_state (base (objects st' i)) = kReading)"
proof -
  define ka where "ka \<longleftrightarrow> resp_keep_alive response \<and> keep"
  define wire where "wire = serialize (response\<lparr>resp_keep_alive := ka\<rparr>)"
  obtain queued c where enq: "enqueue_output (base (objects st i)) wire = (queued, c)"
    by fastforce
  define h where "h = (let conn = (objects st i)\<lparr>awaiting_worker_result := False, base := c\<rparr> in
      if queued then conn\<lparr>requests_served := requests_served conn + 1\<rparr> else conn)"
  define close_after where "close_after \<longleftrightarrow>
      (if queued then \<not> ka \<or> requests_served h \<ge> http_max_keep_alive_requests config else True)"
  have eq: "deliver_result config i response keep st = finish_dispatch i close_after (put_conn i h st)"
    using enq by (cases queued) (simp_all add: deliver_result_def ka_def wire_def close_after_def h_def Let_def)
  have here: "i < next_object st" "connection_ok (base (objects st i))"
      "conn_state (base (objects st i)) = kReading" "Multiset.count (in_flight st + busy) i = 0"
      "conn_fd (base (objects st i)) = fd"
    using http_invD [OF inv i] by (simp_all add: conn_inv_mid fd_of_def)
  note c = enqueue_output_keeps [OF enq here(2)]
  have h: "base h = c" "\<not> awaiting_worker_result h" "hparser h = hparser (objects st i)"
    by (simp_all add: h_def Let_def)
  have "http_inv exact own busy {i} (put_conn i h st)"
    using here c h by (intro inv_put [OF inv i]) (simp_all add: conn_inv_mid http_wants_def)
  from finish_dispatch_inv [OF this, of fd close_after] i h p obtain b st' where
    "finish_dispatch i close_after (put_conn i h st) = Some (Inr (b, st'))"
    "http_inv exact own busy {} st'" "only_touches fd i (put_conn i h st) st'" "worker_pool st' = worker_pool st"
    "b \<longrightarrow> \<not> close_after \<and> connections st' fd = Some i \<and>
       \<not> awaiting_worker_result (objects st' i) \<and> conn_state (base (objects st' i)) = kReading"
    by auto
  then show ?thesis
    unfolding eq using only_touches_put_trans by (auto simp: close_after_def ka_def split: if_splits)
qed

lemma pool_upd_simps [simp]:
  "wants_of (st\<lparr>worker_pool := w\<rparr>) = wants_of st" "fd_of (st\<lparr>worker_pool := w\<rparr>) i = fd_of st i"
  "conn_inv exact mid work (st\<lparr>worker_pool := w\<rparr>) i = conn_inv exact mid work st i"
  "wants_of (st\<lparr>completion_queue := q\<rparr>) = wants_of st" "fd_of (st\<lparr>completion_queue := q\<rparr>) i = fd_of st i"
  "conn_inv exact mid work (st\<lparr>completion_queue := q\<rparr>) i = conn_inv exact mid work st i"
  by (simp_all add: wants_of_def fd_of_def conn_inv_def fun_eq_iff)

lemma conn_inv_work:
  "Multiset.count work' i = Multiset.count work i \<Longrightarrow> conn_inv exact mid work' st i = conn_inv exact mid work st i"
  by (simp add: conn_inv_def)

text \<open>A task accepted by the pool is work under way for its connection.\<close>

lemma submit_flight:
  assumes "submit pool t = (True, pool')" "worker_pool st = Some pool"
  shows "in_flight (st\<lparr>worker_pool := Some pool'\<rparr>) = add_mset (task_conn t) (in_flight st)"
  using assms by (auto simp: submit_def try_push_def in_flight_def Let_def split: if_splits option.splits)

lemma submit_refused:
  assumes "submit pool t = (False, pool')" "worker_pool st = Some pool"
  shows "in_flight (st\<lparr>worker_pool := Some pool'\<rparr>) = in_flight st"
  using assms by (auto simp: submit_def try_push_def in_flight_def Let_def split: if_splits option.splits)

lemma inv_submitted:
  assumes inv: "http_inv exact own busy {i} st" and i: "connections st fd = Some i"
    and h: "settled (objects st i)" "awaiting_worker_result (objects st i)"
    and took: "submit pool t = (True, pool')" "worker_pool st = Some pool" "task_conn t = i"
  shows "http_inv exact own busy {} (st\<lparr>worker_pool := Some pool'\<rparr>)"
proof -
  note flight = submit_flight [OF took(1,2), unfolded took(3)]
  have own: "i < next_object st" "Multiset.count (in_flight st + busy) i = 0"
    using http_invD(2) [OF inv i] by (simp_all add: conn_inv_mid)
  have "conn_inv exact {} (add_mset i (in_flight st) + busy) st j" if "connections st fd' = Some j" for fd' j
  proof (cases "j = i")
    case True
    with own h show ?thesis
      by (simp add: conn_inv_settled flight_ok_def)
  next
    case False
    with http_invD(2) [OF inv that] show ?thesis
      by (simp add: conn_inv_def)
  qed
  with http_inv_parts [OF inv] http_invD(1) [OF inv] own(1) took(2) show ?thesis
    unfolding http_inv_def by (auto simp: flight)
qed

lemma inv_refused:
  assumes inv: "http_inv exact own busy mid st"
    and took: "submit pool t = (False, pool')" "worker_pool st = Some pool"
  shows "http_inv exact own busy mid (st\<lparr>worker_pool := Some pool'\<rparr>)"
  using http_inv_parts [OF inv] http_invD [OF inv] took(2) submit_refused [OF took]
  unfolding http_inv_def by auto

lemma drive_parser_inv:
  assumes inv: "http_inv exact own busy {} st" and i: "connections st fd = Some i"
    and ready: "conn_state (base (objects st i)) = kReading" "\<not> awaiting_worker_result (objects st i)"
    and total: "exact \<longrightarrow> (\<forall>rq. handler rq \<noteq> None)"
  shows "(\<exists>st'. drive_parser config handler i st = Some (Inr st') \<and> http_inv exact own busy {} st' \<and>
      only_touches fd i st st') \<or>
    \<not> exact \<and> drive_parser config handler i st = Some (Inl ''handler'')"
proof -
  let ?h = "objects st i" and ?pool = "worker_pool st \<noteq> None"
  have here: "i < next_object st" "settled ?h" "flight_ok exact (Multiset.count (in_flight st + busy) i) False"
      "conn_fd (base ?h) = fd"
    using http_invD [OF inv i] ready(2) by (simp_all add: conn_inv_settled fd_of_def)
  then have ok: "connection_ok (base ?h)" "parser_ok (hparser ?h)" "unsent (base ?h) = []"
      "Multiset.count (in_flight st + busy) i = 0"
    using ready(1) by (simp_all add: settled_def flight_ok_def)
  obtain exit conn view where loop: "parse_loop config handler ?pool ?h
        (buffer_view (read_buffer (base ?h))) = Some (exit, conn, view)"
    and leaves: "loop_leaves ?pool ?h (buffer_view (read_buffer (base ?h))) exit conn view"
    and sound: "exact \<longrightarrow> exit \<noteq> HandlerThrew"
    using parse_loop_leaves [OF ok(1,2)] total by metis
  let ?st1 = "put_conn i conn st"
  note step = drive_parser.simps [of config handler i st]
  have mid: "http_inv exact own busy {i} ?st1"
    using here(1,4) ok ready(1) leaves
    by (intro inv_put [OF inv i]) (auto simp: conn_inv_mid loop_leaves_def http_wants_def)
  have alone: "fd' = fd" if "connections ?st1 fd' = Some i" for fd'
    using one_descriptor [OF inv i] that by simp
  show ?thesis
  proof (cases exit)
    case HandlerThrew
    with step loop sound show ?thesis
      by (simp add: Let_def)
  next
    case (Finish close_after)
    note consumed = consume_parsed_inv [where i = i and fd = fd and view = view, OF mid alone]
    have idle: "\<not> awaiting_worker_result conn" "\<not> close_after \<longrightarrow> parser_ok (hparser conn)"
      using leaves ready(2) Finish by (simp_all add: loop_leaves_def)
    define st2 where "st2 = consume_parsed i view ?st1"
    have st2: "http_inv exact own busy {i} st2" "connections st2 fd = Some i"
        "\<not> awaiting_worker_result (objects st2 i)" "\<not> close_after \<longrightarrow> parser_ok (hparser (objects st2 i))"
      unfolding st2_def using consumed i idle by simp_all
    have touched: "only_touches fd i st st2"
      by (rule only_touches_put_trans [where h = conn]) (simp add: st2_def)
    obtain b st' where
      "finish_dispatch i close_after st2 = Some (Inr (b, st'))"
      "http_inv exact own busy {} st'" "only_touches fd i st2 st'"
      using finish_dispatch_inv [OF st2(1-4)] by blast
    moreover from this have "only_touches fd i st st'"
      using touched only_touches_trans by blast
    ultimately show ?thesis
      using step loop Finish by (simp add: Let_def st2_def)
  next
    case (Dispatch rq keep)
    have conn: "settled conn" "awaiting_worker_result conn" "parser_ok (hparser conn)" and pool: ?pool
      using leaves Dispatch ok ready(1) by (simp_all add: loop_leaves_def settled_def)
    then obtain pool where pool: "worker_pool st = Some pool"
      by auto
    define t where "t = \<lparr>task_conn = i, task_request = rq, task_keep_alive = keep\<rparr>"
    obtain took pool' where sub: "submit pool t = (took, pool')"
      by fastforce
    let ?st2 = "?st1\<lparr>worker_pool := Some pool'\<rparr>"
    show ?thesis
    proof (cases took)
      case True
      have "http_inv exact own busy {} ?st2"
        using conn i pool sub True
        by (intro inv_submitted [OF mid, where fd = fd and pool = pool and t = t]) (simp_all add: t_def)
      from consume_parsed_inv [OF this, where i = i and fd = fd and view = view] alone
      have "http_inv exact own busy {} (consume_parsed i view ?st2)"
          "only_touches fd i ?st2 (consume_parsed i view ?st2)"
        by simp_all
      moreover have "in_flight ?st2 = add_mset i (in_flight ?st1)"
        using submit_flight [of pool t pool' ?st1] sub pool True by (simp add: t_def)
      then have "only_touches fd i st ?st2"
        by (simp add: only_touches_def)
      moreover have "drive_parser config handler i st = Some (Inr (consume_parsed i view ?st2))"
        using step loop Dispatch pool sub True by (simp add: Let_def t_def)
      ultimately show ?thesis
        using only_touches_trans by blast
    next
      case False
      then have mid2: "http_inv exact own busy {i} ?st2"
        using sub pool by (intro inv_refused [OF mid]) simp_all
      let ?busy = "make_error_response 503 ''Service Unavailable'' (''worker queue is full'' @ [LF]) False"
      from deliver_result_inv [OF mid2, of fd config ?busy keep] i conn(3) obtain b st' where
        st': "deliver_result config i ?busy keep ?st2 = Some (Inr (b, st'))"
        "http_inv exact own busy {} st'" "only_touches fd i ?st2 st'" "\<not> b"
        by (auto simp: make_error_response_def)
      have "fd' = fd" if "connections st' fd' = Some i" for fd'
      proof (rule ccontr)
        assume "fd' \<noteq> fd"
        with st'(3) that have "connections ?st1 fd' = Some i"
          by (simp add: only_touches_def)
        with alone \<open>fd' \<noteq> fd\<close> show False
          by blast
      qed
      from consume_parsed_inv [OF st'(2) this, where view = view]
      have "http_inv exact own busy {} (consume_parsed i view st')" "only_touches fd i st' (consume_parsed i view st')"
        by simp_all
      moreover have "in_flight ?st2 = in_flight ?st1"
        using submit_refused [of pool t pool' ?st1] sub pool False by simp
      then have "only_touches fd i st ?st2"
        by (simp add: only_touches_def)
      moreover have "drive_parser config handler i st = Some (Inr (consume_parsed i view st'))"
        using step loop Dispatch pool sub False st'(1,4) by (simp add: Let_def t_def)
      ultimately show ?thesis
        using st'(3) only_touches_trans by blast
    qed
  qed
qed

end
