(* ===== verification/Arc_Http_Callbacks.thy ===== *)
theory Arc_Http_Callbacks
  imports Arc_Http_Invariant
begin

text \<open>
  Every callback of the reactor's HTTP server returns and keeps the invariant: the delivery of results,
  a client's events, the accepting of connections.
\<close>

subsection \<open>The callbacks\<close>

text \<open>A callback returns with the invariant; only a throwing handler can end the loop.\<close>

definition safely :: "bool \<Rightarrow> int set \<Rightarrow> nat multiset \<Rightarrow> http_server outcome \<Rightarrow> bool" where
  "safely exact own busy out \<longleftrightarrow>
     (\<exists>st'. out = Some (Inr st') \<and> http_inv exact own busy {} st') \<or>
     \<not> exact \<and> out = Some (Inl ''handler'')"

lemma safelyI [intro]: "http_inv exact own busy {} st \<Longrightarrow> safely exact own busy (Some (Inr st))"
  by (simp add: safely_def)

lemma safelyE:
  assumes "safely exact own busy out"
  obtains st' where "out = Some (Inr st')" "http_inv exact own busy {} st'"
  | "\<not> exact" "out = Some (Inl ''handler'')"
  using assms unfolding safely_def by blast

text \<open>The same for a callback that works on one connection and touches no other.\<close>

definition safely_at ::
  "bool \<Rightarrow> int set \<Rightarrow> nat multiset \<Rightarrow> int \<Rightarrow> nat \<Rightarrow> http_server \<Rightarrow> http_server outcome \<Rightarrow> bool" where
  "safely_at exact own busy fd i st out \<longleftrightarrow>
     (\<exists>st'. out = Some (Inr st') \<and> http_inv exact own busy {} st' \<and> only_touches fd i st st') \<or>
     \<not> exact \<and> out = Some (Inl ''handler'')"

lemma safely_atI [intro]:
  "http_inv exact own busy {} st' \<Longrightarrow> only_touches fd i st st' \<Longrightarrow> safely_at exact own busy fd i st (Some (Inr st'))"
  by (simp add: safely_at_def)

lemma safely_at_trans:
  "only_touches fd i st st1 \<Longrightarrow> safely_at exact own busy fd i st1 out \<Longrightarrow> safely_at exact own busy fd i st out"
  unfolding safely_at_def using only_touches_trans by blast

lemma safely_at_safely: "safely_at exact own busy fd i st out \<Longrightarrow> safely exact own busy out"
  by (auto simp: safely_at_def safely_def)

lemma inv_take_result:
  assumes inv: "http_inv exact own (add_mset i busy) {} st" and i: "connections st fd = Some i"
  shows "http_inv exact own busy {i} st" "parser_ok (hparser (objects st i))"
proof -
  have "flight_ok exact (Multiset.count (in_flight st + add_mset i busy) i) (awaiting_worker_result (objects st i))"
    and here: "settled (objects st i)" "i < next_object st"
    using http_invD(2) [OF inv i] by (simp_all add: conn_inv_settled)
  then have "awaiting_worker_result (objects st i)" "Multiset.count (in_flight st + busy) i = 0"
    by (auto simp: flight_ok_def of_bool_def split: if_splits)
  with here have mid: "conn_inv exact {i} (in_flight st + busy) st i" and "conn_state (base (objects st i)) = kReading"
    by (simp_all add: conn_inv_mid settled_def)
  then show "parser_ok (hparser (objects st i))"
    using here by (simp add: settled_def)
  have "conn_inv exact {i} (in_flight st + busy) st j" if "connections st fd' = Some j" for fd' j
    using http_invD(2) [OF inv that] mid by (cases "j = i") (simp_all add: conn_inv_def)
  with http_inv_parts [OF inv] http_invD(1) [OF inv] show "http_inv exact own busy {i} st"
    unfolding http_inv_def by auto
qed

lemma inv_drop_result:
  assumes inv: "http_inv exact own (add_mset i busy) {} st" and "\<And>fd. connections st fd \<noteq> Some i"
  shows "http_inv exact own busy {} st"
proof -
  have "conn_inv exact {} (in_flight st + busy) st j" if "connections st fd' = Some j" for fd' j
  proof -
    have "j \<noteq> i"
      using assms(2) that by blast
    then show ?thesis
      using http_invD(2) [OF inv that] by (simp add: conn_inv_def)
  qed
  with http_inv_parts [OF inv] http_invD(1) [OF inv] show ?thesis
    unfolding http_inv_def by auto
qed

lemma drive_parser_safely:
  assumes "http_inv exact own busy {} st" "connections st fd = Some i"
    and "conn_state (base (objects st i)) = kReading" "\<not> awaiting_worker_result (objects st i)"
    and "exact \<longrightarrow> (\<forall>rq. handler rq \<noteq> None)"
  shows "safely_at exact own busy fd i st (drive_parser config handler i st)"
  using drive_parser_inv [OF assms] by (auto simp: safely_at_def)

lemma on_worker_result_dead:
  assumes inv: "http_inv exact own (add_mset (done_conn d) busy) {} st" and "\<not> alive st (done_conn d)"
  shows "on_worker_result config handler d st = Some (Inr st) \<and> http_inv exact own busy {} st"
proof -
  have "connections st fd \<noteq> Some (done_conn d)" for fd
    using http_invD(1) [OF inv, of fd "done_conn d"] assms(2) by (auto simp: alive_def)
  then have "http_inv exact own busy {} st"
    by (rule inv_drop_result [OF inv])
  with assms(2) show ?thesis
    by (simp add: on_worker_result_def)
qed

lemma on_worker_result_alive:
  assumes inv: "http_inv exact own (add_mset (done_conn d) busy) {} st"
    and total: "exact \<longrightarrow> (\<forall>rq. handler rq \<noteq> None)"
    and live: "alive st (done_conn d)"
  shows "safely_at exact own busy (fd_of st (done_conn d)) (done_conn d) st (on_worker_result config handler d st)"
proof -
  define i where "i = done_conn d"
  define fd where "fd = fd_of st i"
  have i: "connections st fd = Some i"
    using live by (simp add: alive_def i_def fd_def)
  note taken = inv_take_result [OF inv [folded i_def] i]
  obtain b st' where
    st': "deliver_result config i (done_response d) (done_keep_alive d) st = Some (Inr (b, st'))"
      "http_inv exact own busy {} st'" "only_touches fd i st st'"
      "b \<longrightarrow> connections st' fd = Some i \<and> \<not> awaiting_worker_result (objects st' i) \<and>
         conn_state (base (objects st' i)) = kReading"
    using deliver_result_inv [OF taken(1) i taken(2)] by blast
  have eq: "on_worker_result config handler d st =
      (if b then drive_parser config handler i st' else Some (Inr st'))"
    using live st'(1) by (simp add: on_worker_result_def i_def)
  have "safely_at exact own busy fd i st (on_worker_result config handler d st)"
  proof (cases b)
    case True
    with st'(3,4) show ?thesis
      unfolding eq using safely_at_trans [OF st'(3) drive_parser_safely [OF st'(2) _ _ _ total, of fd]] by simp
  next
    case False
    with st'(2,3) show ?thesis
      unfolding eq by auto
  qed
  then show ?thesis
    by (simp add: i_def fd_def)
qed

lemma on_worker_result_safely:
  assumes "http_inv exact own (add_mset (done_conn d) busy) {} st"
    and "exact \<longrightarrow> (\<forall>rq. handler rq \<noteq> None)"
  shows "safely exact own busy (on_worker_result config handler d st)"
proof (cases "alive st (done_conn d)")
  case True
  from safely_at_safely [OF on_worker_result_alive [OF assms True]] show ?thesis .
next
  case False
  with on_worker_result_dead [OF assms(1)] show ?thesis
    by auto
qed

lemma run_completions_safely:
  assumes "http_inv exact own (image_mset done_conn (mset ds)) {} st"
    and "exact \<longrightarrow> (\<forall>rq. handler rq \<noteq> None)"
  shows "safely exact own {#} (run_completions config handler ds st)"
  using assms
proof (induction ds arbitrary: st)
  case (Cons d ds)
  then have "safely exact own (image_mset done_conn (mset ds)) (on_worker_result config handler d st)"
    by (intro on_worker_result_safely) simp_all
  then show ?case
  proof (cases rule: safelyE)
    case (1 st')
    with Cons show ?thesis
      by simp
  qed (simp add: safely_def)
qed auto

lemma on_completion_readable_safely:
  assumes inv: "http_inv exact own {#} {} st" and "exact \<longrightarrow> (\<forall>rq. handler rq \<noteq> None)"
  shows "safely exact own {#} (on_completion_readable config handler st)"
proof (cases "completion_queue st")
  case None
  with inv show ?thesis
    by (auto simp: on_completion_readable_def)
next
  case (Some q)
  let ?st = "st\<lparr>completion_queue := Some (q\<lparr>tasks := []\<rparr>)\<rparr>"
  have "in_flight ?st + image_mset done_conn (mset (tasks q)) = in_flight st"
    using Some by (simp add: in_flight_def)
  with inv Some have "http_inv exact own (image_mset done_conn (mset (tasks q))) {} ?st"
    unfolding http_inv_def by (simp split: option.split)
  from run_completions_safely [OF this assms(2)] Some show ?thesis
    by (simp add: on_completion_readable_def drain_def)
qed

lemma process_readable_safely:
  assumes inv: "http_inv exact own busy {} st" and i: "connections st fd = Some i"
    and reading: "conn_state (base (objects st i)) = kReading"
    and chunk: "http_read_chunk_bytes config < 2 ^ 63"
    and total: "exact \<longrightarrow> (\<forall>rq. handler rq \<noteq> None)"
  shows "safely_at exact own busy fd i st (process_readable config handler i st)"
proof -
  let ?h = "objects st i"
  have here: "conn_inv exact {} (in_flight st + busy) st i" "conn_fd (base ?h) = fd" "connection_ok (base ?h)"
    using http_invD [OF inv i] by (simp_all add: conn_inv_settled settled_def fd_of_def)
  obtain closes c where read: "read_available (http_read_chunk_bytes config) (base ?h) = (closes, c)"
    by fastforce
  note r = read_available_result [OF here(3) chunk read]
  let ?st = "put_base i c st"
  have "http_inv exact own busy {} ?st"
    unfolding put_base_def using r here reading
    by (intro inv_put [OF inv i]) (simp_all add: http_wants_def conn_inv_settled settled_def unsent_def)
  moreover have "connections ?st fd = Some i" "conn_state (base (objects ?st i)) = kReading"
    using i r reading by (simp_all add: put_base_def)
  moreover have eq: "process_readable config handler i st =
      (if closes then Some (Inr (close_connection fd ?st))
       else if awaiting_worker_result (objects ?st i) then Some (Inr ?st)
       else drive_parser config handler i ?st)"
    using read r here(2) by (simp add: process_readable_def Let_def)
  ultimately show ?thesis
    unfolding eq using inv_close [of exact own busy "{}" ?st fd i "{}"]
      safely_at_trans [OF _ drive_parser_safely [of exact own busy ?st fd i handler config]] total
    by (auto simp: put_base_def)
qed

lemma readable_part_safely:
  assumes "http_inv exact own busy {} st" "connections st fd = Some i"
    and "http_read_chunk_bytes config < 2 ^ 63" "exact \<longrightarrow> (\<forall>rq. handler rq \<noteq> None)"
  shows "safely_at exact own busy fd i st (readable_part config handler i events st)"
  using assms process_readable_safely [OF assms(1,2)] by (auto simp: readable_part_def)

lemma on_client_event_safely_at:
  assumes inv: "http_inv exact own busy {} st" and chunk: "http_read_chunk_bytes config < 2 ^ 63"
    and total: "exact \<longrightarrow> (\<forall>rq. handler rq \<noteq> None)" and Some: "connections st fd = Some i"
  shows "safely_at exact own busy fd i st (on_client_event config handler fd events st)"
proof -
  note part = readable_part_safely [OF _ _ chunk total]
  let ?h = "objects st i"
  show ?thesis
  proof (cases "events AND (EPOLLERR OR EPOLLHUP) = 0 \<and> events AND kWritable \<noteq> 0")
    case False
    with Some inv_close [OF inv Some, of "{}"] part [OF inv Some] show ?thesis
      by (auto simp: on_client_event_def)
  next
    case True
    have here: "i < next_object st" "settled ?h" "conn_fd (base ?h) = fd"
        "flight_ok exact (Multiset.count (in_flight st + busy) i) (awaiting_worker_result ?h)"
      using http_invD [OF inv Some] by (simp_all add: conn_inv_settled fd_of_def)
    then have ok: "connection_ok (base ?h)"
      by (simp add: settled_def)
    obtain result c where flush: "flush_output (base ?h) = Some (result, c)" and d: "drained (base ?h) c"
        and out: "result = kFlushed \<Longrightarrow> unsent c = []" "result = kPending \<Longrightarrow> unsent c \<noteq> []"
      using flush_output_result [OF ok] by blast
    have c: "connection_ok c" "conn_fd c = fd" "conn_state c = conn_state (base ?h)"
        "length (unsent c) \<le> length (unsent (base ?h))"
      using d here by (simp_all add: drained_def)
    let ?st = "put_conn i (?h\<lparr>base := c\<rparr>) st"
    define closing where "closing \<longleftrightarrow> conn_state c = kClosing"
    let ?h' = "?h\<lparr>base := c\<lparr>conn_state := kReading\<rparr>\<rparr>"
    have eq: "on_client_event config handler fd events st =
        (case result of
           kFailed \<Rightarrow> Some (Inr (close_connection fd ?st))
         | kFlushed \<Rightarrow>
             if closing then Some (Inr (close_connection fd ?st))
             else (case reactor_modify fd kReadable (http_reactor st) of
                     Inl e \<Rightarrow> Some (Inl e)
                   | Inr r \<Rightarrow> readable_part config handler i events (put_conn i ?h' st\<lparr>http_reactor := r\<rparr>))
         | kPending \<Rightarrow> readable_part config handler i events ?st)"
      using Some True flush
      by (cases result) (simp_all add: on_client_event_def put_base_def Let_def closing_def split: sum.split)
    have gone: "http_inv exact own busy {} (close_connection fd ?st)"
      by (rule inv_close_put [OF inv Some]) simp
    show ?thesis
    proof (cases result)
      case kFailed
      with gone show ?thesis
        unfolding eq by auto
    next
      case kFlushed
      show ?thesis
      proof (cases closing)
        case True
        with kFlushed gone show ?thesis
          unfolding eq by auto
      next
        case False
        have "conn_inv exact {} (in_flight st + busy) (put_conn i ?h' st) i"
          using here c out(1) [OF kFlushed] False
          by (simp add: conn_inv_settled settled_def closing_def)
        moreover have "http_wants ?h' = kReadable"
          by (simp add: http_wants_def)
        ultimately obtain r where "reactor_modify fd kReadable (http_reactor st) = Inr r"
            "http_inv exact own busy {} (put_conn i ?h' st\<lparr>http_reactor := r\<rparr>)"
          using inv_modify [OF inv Some, of ?h' "{}"] c(2) by auto
        with kFlushed False Some show ?thesis
          unfolding eq
          using safely_at_trans [OF _ part [of own busy "put_conn i ?h' st\<lparr>http_reactor := r\<rparr>" fd i]] by simp
      qed
    next
      case kPending
      then have "conn_state (base ?h) \<noteq> kReading"
        using here(2) out(2) c(4) by (auto simp: settled_def)
      then have "http_inv exact own busy {} ?st"
        using here c out(2) [OF kPending]
        by (intro inv_put [OF inv Some]) (simp_all add: http_wants_def conn_inv_settled settled_def)
      with kPending Some show ?thesis
        unfolding eq using safely_at_trans [OF _ part [of own busy ?st fd i]] by simp
    qed
  qed
qed

lemma on_client_event_safely:
  assumes "http_inv exact own busy {} st" "http_read_chunk_bytes config < 2 ^ 63"
    and "exact \<longrightarrow> (\<forall>rq. handler rq \<noteq> None)"
  shows "safely exact own busy (on_client_event config handler fd events st)"
proof (cases "connections st fd")
  case None
  with assms(1) show ?thesis
    by (auto simp: on_client_event_def)
next
  case (Some i)
  from safely_at_safely [OF on_client_event_safely_at [OF assms this]] show ?thesis .
qed

definition http_config_ok :: "http_config \<Rightarrow> bool" where
  "http_config_ok config \<longleftrightarrow>
     http_read_chunk_bytes config < 2 ^ 63 \<and> http_max_output_queue_bytes config < 2 ^ 64 \<and>
     http_max_read_buffer_bytes config < 2 ^ 62"

lemma accept_one_inv:
  assumes inv: "http_inv exact own busy {} st" and new: "fd \<notin> own" "connections st fd = None"
    and config: "http_config_ok config"
  shows "\<exists>st'. accept_one config fresh fd st = Inr st' \<and> http_inv exact own busy {} st' \<and>
    connections st' = (connections st)(fd \<mapsto> next_object st)"
proof -
  obtain peer_name s where made: "fresh fd = (peer_name, s)"
    by fastforce
  define i where "i = next_object st"
  define h where "h = new_http_connection (new_connection fd peer_name (http_max_output_queue_bytes config)
      (http_max_read_buffer_bytes config) s)"
  note parts = http_inv_parts [OF inv]
  have "wants_of st fd = None"
    using new(2) by (simp add: wants_of_def)
  from registry_add [OF parts(1) new(1) this] obtain r where
    r: "reactor_add fd kReadable OnClientEvent (http_reactor st) = Inr r"
    "registry_ok own OnClientEvent r ((wants_of st)(fd \<mapsto> kReadable))"
    by blast
  define st' where "st' = st\<lparr>objects := (objects st)(i := h), next_object := i + 1,
      connections := (connections st)(fd \<mapsto> i), connections_accepted := connections_accepted st + 1,
      http_reactor := r\<rparr>"
  have eq: "accept_one config fresh fd st = Inr st'"
    using new(2) r(1) made by (simp add: accept_one_def st'_def i_def h_def Let_def)
  have base: "base h = new_connection fd peer_name (http_max_output_queue_bytes config)
      (http_max_read_buffer_bytes config) s"
    by (simp add: h_def new_http_connection_def)
  have h: "settled h" "conn_fd (base h) = fd" "http_wants h = kReadable" "\<not> awaiting_worker_result h"
    using config new_connection_ok
    by (simp_all add: settled_def base http_config_ok_def http_wants_def)
      (simp_all add: h_def new_http_connection_def new_connection_def)
  have flight: "in_flight st' = in_flight st"
    by (simp add: st'_def in_flight_def)
  have none: "Multiset.count (in_flight st + busy) i = 0"
    using parts(3) [of i] by (auto simp: i_def not_in_iff [symmetric])
  have old: "j < i" if "connections st fd' = Some j" for fd' j
    using http_invD(2) [OF inv that] by (simp add: conn_inv_def i_def)
  have each: "fd_of st' j = fd' \<and> conn_inv exact {} (in_flight st' + busy) st' j"
    if "connections st' fd' = Some j" for fd' j
  proof (cases "fd' = fd")
    case True
    with that h none show ?thesis
      by (auto simp: st'_def fd_of_def conn_inv_settled flight_ok_def in_flight_def)
  next
    case False
    with that have j: "connections st fd' = Some j"
      by (simp add: st'_def)
    with http_invD [OF inv j] old [OF j] show ?thesis
      unfolding flight by (auto simp: st'_def fd_of_def conn_inv_settled i_def)
  qed
  have "wants_of st' = (wants_of st)(fd \<mapsto> kReadable)"
  proof
    fix fd'
    show "wants_of st' fd' = ((wants_of st)(fd \<mapsto> kReadable)) fd'"
      using h(3) old [of fd'] by (cases "connections st fd'") (auto simp: wants_of_def st'_def)
  qed
  moreover have "card (insert fd (dom (connections st))) = Suc (card (dom (connections st)))"
    using parts(2) new(2) by (intro card_insert_disjoint) auto
  moreover have "\<forall>j\<in>#in_flight st' + busy. j < next_object st'"
    using parts(3) unfolding flight by (auto simp: st'_def i_def intro: less_SucI)
  ultimately have "http_inv exact own busy {} st'"
    unfolding http_inv_def using each r(2) parts by (simp add: st'_def)
  with eq show ?thesis
    by (simp add: st'_def i_def)
qed

lemma on_listener_readable_inv:
  assumes "http_inv exact own busy {} st" "http_config_ok config" "distinct (accepted_fds pending)"
    and "set (accepted_fds pending) \<inter> (own \<union> dom (connections st)) = {}"
    and "on_listener_readable config fresh pending st = Some (Inr st')"
  shows "http_inv exact own busy {} st'"
  using assms
proof (induction "length pending" arbitrary: pending st rule: less_induct)
  case less
  obtain answer later where answer: "accept_nonblocking pending = (answer, later)"
    by fastforce
  note run = less.prems(5) [unfolded on_listener_readable.simps [of config fresh pending st] answer, simplified]
  show ?case
  proof (cases answer)
    case (Inl e)
    with run show ?thesis
      by simp
  next
    case Inr: (Inr got)
    show ?thesis
    proof (cases got)
      case None
      with run Inr less.prems(1) show ?thesis
        by simp
    next
      case (Some fd)
      have fds: "accepted_fds pending = fd # accepted_fds later"
        using accepted_fds_next answer Inr Some by simp
      then have "fd \<notin> own" "connections st fd = None"
        using less.prems(4) by auto
      from accept_one_inv [OF less.prems(1) this less.prems(2)] obtain st1 where
        st1: "accept_one config fresh fd st = Inr st1" "http_inv exact own busy {} st1"
          "connections st1 = (connections st)(fd \<mapsto> next_object st)"
        by blast
      have "on_listener_readable config fresh later st1 = Some (Inr st')"
        using run Inr Some st1(1) by simp
      moreover have "set (accepted_fds later) \<inter> (own \<union> dom (connections st1)) = {}"
        "distinct (accepted_fds later)"
        using less.prems(3,4) fds st1(3) by auto
      moreover have "length later < length pending"
        using accept_nonblocking_shrinks answer Inr Some by (metis (no_types))
      ultimately show ?thesis
        using less.hyps less.prems(2) st1(2) by blast
    qed
  qed
qed

end
