(* ===== verification/Arc_Http_Steps.thy ===== *)
theory Arc_Http_Steps
  imports Arc_Http_Callbacks
begin

text \<open>
  The turns of the workers and the reachable states of the HTTP server, in all of which the invariant
  holds.
\<close>

subsection \<open>The workers\<close>

definition pool_work :: "worker_task pool \<Rightarrow> nat multiset" where
  "pool_work pool = image_mset task_conn (mset (tasks (pool_queue pool)) + running (workers pool))"

lemma worker_turn_work:
  assumes "j < length (workers pool)" "worker_turn throws j pool = Some pool'"
  shows "pool_work pool = pool_work pool' + (case workers pool ! j of Running t \<Rightarrow> {#task_conn t#} | _ \<Rightarrow> {#})"
proof (cases "workers pool ! j")
  case (Running t)
  have "running ((workers pool)[j := AtPop]) + {#t#} = running (workers pool)"
    using running_update [OF assms(1), of AtPop] Running by simp
  then have "image_mset task_conn (running (workers pool)) =
      image_mset task_conn (running ((workers pool)[j := AtPop])) + {#task_conn t#}"
    by (metis image_mset_single image_mset_union)
  moreover have "pool_queue pool' = pool_queue pool \<and> workers pool' = (workers pool)[j := AtPop]"
    using assms(2) Running by (cases "throws t") (auto simp: worker_turn_def Let_def)
  ultimately show ?thesis
    using Running by (simp add: pool_work_def)
next
  case AtPop
  then obtain out q where out: "pop (pool_queue pool) = Some (out, q)"
    using assms(2) by (auto simp: worker_turn_def split: option.splits)
  define w where "w = (case out of None \<Rightarrow> Exited | Some t \<Rightarrow> Running t)"
  have pool': "pool' = pool\<lparr>pool_queue := q, workers := (workers pool)[j := w]\<rparr>"
    using assms(2) AtPop out by (simp add: worker_turn_def w_def split: option.splits)
  have "running ((workers pool)[j := w]) = running (workers pool) + mset (case out of None \<Rightarrow> [] | Some t \<Rightarrow> [t])"
    using running_update [OF assms(1), of w] AtPop by (cases out) (simp_all add: w_def)
  moreover have "tasks (pool_queue pool) = (case out of None \<Rightarrow> [] | Some t \<Rightarrow> [t]) @ tasks q"
    using out by (auto simp: pop_def split: if_splits)
  ultimately show ?thesis
    using AtPop by (simp add: pool_work_def pool')
qed (use assms(2) in \<open>simp add: worker_turn_def\<close>)

lemma in_flight_pool:
  "worker_pool st = Some pool \<Longrightarrow> completion_queue st = Some q \<Longrightarrow>
   in_flight st = pool_work pool + image_mset done_conn (mset (tasks q))"
  by (simp add: in_flight_def pool_work_def)

text \<open>Work that moves on, or -- with a handler that throws -- is lost.\<close>

lemma inv_moved:
  assumes inv: "http_inv exact own busy {} st" and "worker_pool st \<noteq> None"
    and st': "st' = st\<lparr>worker_pool := Some pool, completion_queue := Some q\<rparr>"
    and "in_flight st' \<subseteq># in_flight st" "exact \<Longrightarrow> in_flight st' = in_flight st \<and> \<not> queue_closed q"
  shows "http_inv exact own busy {} st'"
proof -
  have le: "Multiset.count (in_flight st' + busy) i \<le> Multiset.count (in_flight st + busy) i" for i
    using assms(4) by (simp add: mset_subset_eq_count)
  have "conn_inv exact {} (in_flight st' + busy) st' i" if "connections st fd = Some i" for fd i
  proof -
    have here: "i < next_object st" "settled (objects st i)"
        "flight_ok exact (Multiset.count (in_flight st + busy) i) (awaiting_worker_result (objects st i))"
      using http_invD(2) [OF inv that] by (simp_all add: conn_inv_settled)
    moreover have "flight_ok exact (Multiset.count (in_flight st' + busy) i) (awaiting_worker_result (objects st i))"
      using here(3) le [of i] assms(5) unfolding flight_ok_def by (metis le_trans)
    ultimately show ?thesis
      by (simp add: conn_inv_settled st')
  qed
  moreover have "\<forall>i\<in>#in_flight st' + busy. i < next_object st"
    using http_inv_parts(3) [OF inv] assms(4) by (auto dest: mset_subset_eqD)
  ultimately show ?thesis
    using http_inv_parts [OF inv] http_invD(1) [OF inv] assms(2,5)
    unfolding http_inv_def by (auto simp: st')
qed

lemma server_worker_turn_inv:
  assumes inv: "http_inv exact own busy {} st" and pool: "worker_pool st = Some pool"
    and j: "j < length (workers pool)" and turn: "server_worker_turn handler j st = Some st'"
    and total: "exact \<longrightarrow> (\<forall>rq. handler rq \<noteq> None)"
  shows "http_inv exact own busy {} st'"
proof -
  obtain q where q: "completion_queue st = Some q"
    using http_inv_parts(5) [OF inv] pool by auto
  let ?throws = "\<lambda>t. handler (task_request t) = None"
  obtain pool' where pool': "worker_turn ?throws j pool = Some pool'"
    using turn pool q by (auto simp: server_worker_turn_def split: option.splits)
  note work = worker_turn_work [OF j pool']
  show ?thesis
  proof (cases "\<exists>t. workers pool ! j = Running t")
    case False
    then have "st' = st\<lparr>worker_pool := Some pool', completion_queue := Some q\<rparr>"
      using turn pool q pool' by (auto simp: server_worker_turn_def split: worker.splits)
    moreover have "pool_work pool' = pool_work pool"
      using work False by (auto split: worker.splits)
    ultimately show ?thesis
      using http_inv_parts(6) [OF inv _ q] pool q
      by (intro inv_moved [OF inv, where st' = st' and pool = pool' and q = q]) (simp_all add: in_flight_pool)
  next
    case True
    then obtain t where t: "workers pool ! j = Running t"
      by blast
    show ?thesis
    proof (cases "handler (task_request t)")
      case None
      have "\<not> exact"
        using total None by blast
      moreover have "st' = st\<lparr>worker_pool := Some pool', completion_queue := Some q\<rparr>"
        using None turn pool q pool' t by (auto simp: server_worker_turn_def)
      ultimately show ?thesis
        using work t pool q
        by (intro inv_moved [OF inv, where st' = st' and pool = pool' and q = q]) (simp_all add: in_flight_pool)
    next
      case (Some response)
      let ?d = "\<lparr>done_conn = task_conn t, done_response = response, done_keep_alive = task_keep_alive t\<rparr>"
      obtain queued q' where push: "push q ?d = Some (queued, q')"
        using turn pool q pool' t Some by (auto simp: server_worker_turn_def split: option.splits)
      then have st': "st' = st\<lparr>worker_pool := Some pool', completion_queue := Some q'\<rparr>"
        using turn pool q pool' t Some by (simp add: server_worker_turn_def)
      have "queued \<longleftrightarrow> \<not> queue_closed q" "queue_closed q' = queue_closed q"
          "tasks q' = (if queued then tasks q @ [?d] else tasks q)"
        using push by (auto simp: push_def split: if_splits)
      with work t pool q st' http_inv_parts(6) [OF inv _ q] show ?thesis
        by (intro inv_moved [OF inv, where st' = st' and pool = pool' and q = q']) (auto simp: in_flight_pool)
    qed
  qed
qed

subsection \<open>Every reachable state\<close>

text \<open>
  The reactor's thread runs whatever callback a reported event finds, the workers take their turns, and
  the pool may be stopped; all in any order.
\<close>

inductive http_step :: "http_config \<Rightarrow> http_handler \<Rightarrow> int set \<Rightarrow> http_server \<Rightarrow> http_server \<Rightarrow> bool"
  for config :: http_config and handler :: http_handler and own :: "int set" where
  dispatches: "distinct (accepted_fds pending) \<Longrightarrow>
    set (accepted_fds pending) \<inter> (own \<union> dom (connections st)) = {} \<Longrightarrow>
    dispatch_ready http_reactor (invoke config handler fresh pending) fd events st = Some (Inr st') \<Longrightarrow>
    http_step config handler own st st'"
| worker_turns: "worker_pool st = Some pool \<Longrightarrow> j < length (workers pool) \<Longrightarrow>
    server_worker_turn handler j st = Some st' \<Longrightarrow> http_step config handler own st st'"
| pool_stops: "worker_pool st = Some pool \<Longrightarrow>
    http_step config handler own st (st\<lparr>worker_pool := Some (stop_begins pool)\<rparr>)"

text \<open>The server's own descriptors and its start, with no pool or with a new one.\<close>

definition own_fds :: "int \<Rightarrow> int \<Rightarrow> int \<Rightarrow> bool \<Rightarrow> int set" where
  "own_fds listener wakeup completion_fd has_pool =
     {listener, wakeup} \<union> (if has_pool then {completion_fd} else {})"

definition http_starts :: "int \<Rightarrow> int \<Rightarrow> int \<Rightarrow> http_config \<Rightarrow> bool \<Rightarrow> http_server \<Rightarrow> bool" where
  "http_starts listener wakeup completion_fd config has_pool st \<longleftrightarrow>
     (\<exists>pool unused. new_http_server listener wakeup completion_fd config pool unused = Inr st \<and>
        (case pool of None \<Rightarrow> \<not> has_pool
         | Some p \<Rightarrow> has_pool \<and> (\<exists>detected pc. p = new_pool detected pc)))"

inductive http_reachable ::
  "http_config \<Rightarrow> http_handler \<Rightarrow> int set \<Rightarrow> http_server \<Rightarrow> http_server \<Rightarrow> bool"
  for config :: http_config and handler :: http_handler and own :: "int set" and st0 :: http_server where
  http_start: "http_reachable config handler own st0 st0"
| http_more: "http_reachable config handler own st0 st \<Longrightarrow> http_step config handler own st st' \<Longrightarrow>
    http_reachable config handler own st0 st'"

lemma http_starts_inv:
  assumes "http_starts listener wakeup completion_fd config has_pool st"
  shows "http_inv exact (own_fds listener wakeup completion_fd has_pool) {#} {} st"
proof -
  obtain pool unused where new: "new_http_server listener wakeup completion_fd config pool unused = Inr st"
    and p: "case pool of None \<Rightarrow> \<not> has_pool | Some p \<Rightarrow> has_pool \<and> (\<exists>detected pc. p = new_pool detected pc)"
    using assms by (auto simp: http_starts_def)
  have "in_flight st = {#}"
    using new p by (auto simp: new_http_server_def in_flight_def new_pool_def split: sum.splits if_splits option.splits)
  with new p show ?thesis
    by (auto simp: new_http_server_def http_inv_def registry_ok_def reactor_add_def new_reactor_def wants_of_def
        own_fds_def split: sum.splits if_splits option.splits)
qed

lemma http_step_inv:
  assumes "http_step config handler own st st'" "http_inv exact own {#} {} st" "http_config_ok config"
    and total: "exact \<longrightarrow> (\<forall>rq. handler rq \<noteq> None)"
  shows "http_inv exact own {#} {} st'"
  using assms(1)
proof cases
  case (dispatches pending fresh fd events)
  have "http_inv exact own {#} {} st'"
    if run: "invoke config handler fresh pending cb fd events st = Some (Inr st')" for cb
  proof (cases cb)
    case OnListenerReadable
    with run on_listener_readable_inv [OF assms(2,3) dispatches(1,2)] show ?thesis
      by (simp add: invoke_def)
  next
    case OnClientEvent
    have "safely exact own {#} (on_client_event config handler fd events st)"
      using assms(3) by (intro on_client_event_safely [OF assms(2) _ total]) (simp add: http_config_ok_def)
    with run OnClientEvent show ?thesis
      by (auto simp: invoke_def safely_def)
  next
    case OnCompletionReadable
    with run on_completion_readable_safely [OF assms(2) total, of config] show ?thesis
      by (auto simp: invoke_def safely_def)
  qed
  then show ?thesis
    using dispatches(3) assms(2) by (auto simp: dispatch_ready_def split: option.splits)
next
  case (worker_turns pool j)
  then show ?thesis
    using server_worker_turn_inv [OF assms(2) _ _ _ total] by blast
next
  case (pool_stops pool)
  obtain q where q: "completion_queue st = Some q"
    using http_inv_parts(5) [OF assms(2)] pool_stops(2) by auto
  have "pool_work (stop_begins pool) = pool_work pool"
    by (simp add: stop_begins_def pool_work_def close_def)
  then show ?thesis
    using pool_stops http_inv_parts(6) [OF assms(2) _ q] q
    by (intro inv_moved [OF assms(2), where st' = st' and pool = "stop_begins pool" and q = q]) (simp_all add: in_flight_pool)
qed

lemma http_reachable_inv:
  assumes "http_reachable config handler own st0 st" "http_inv exact own {#} {} st0"
    and "http_config_ok config" "exact \<longrightarrow> (\<forall>rq. handler rq \<noteq> None)"
  shows "http_inv exact own {#} {} st"
  using assms by (induction rule: http_reachable.induct) (auto intro: http_step_inv)

end
