(* ===== verification/Arc_Http_Transcript.thy ===== *)
theory Arc_Http_Transcript
  imports Arc_Http_Steps
begin

text \<open>
  What a client of the reactor's HTTP server reads, when requests are handled on the reactor's thread:
  whatever the events and however the bytes are cut, the connection's output is the reference transcript,
  as far as it has got.
\<close>

lemma feed_stream_waits:
  assumes "carries p a" "deliverable rq" "a @ d @ later = render_request rq @ others" "d \<noteq> []"
    and "feed p d = (kNeedMoreData, q, rest)"
  shows "length (a @ d) < length (render_request rq)"
proof (rule ccontr)
  assume "\<not> ?thesis"
  with assms(3) obtain r where "a @ d = render_request rq @ r"
    by (metis append_assoc append_eq_append_conv_if append_take_drop_id not_less)
  from feed_rendered_all [OF assms(1,2) this assms(4)] assms(5) show False
    by auto
qed

text \<open>The parser has part of the first of the requests that are not yet answered.\<close>

definition inside :: "parser \<Rightarrow> string \<Rightarrow> HttpRequest list \<Rightarrow> bool" where
  "inside p a todo \<longleftrightarrow>
     carries p a \<and> (case todo of [] \<Rightarrow> a = [] | rq # rqs \<Rightarrow> length a < length (render_request rq))"

text \<open>
  What the loop has done: either it closes, having queued a beginning of the transcript -- all of it when
  the queue had room -- or it waits inside a request, having queued the replies to the ones before.
\<close>

definition loop_served ::
  "RequestHandler \<Rightarrow> nat \<Rightarrow> HttpConnection \<Rightarrow> HttpRequest list \<Rightarrow> string \<Rightarrow> bool \<Rightarrow> HttpConnection \<Rightarrow> string \<Rightarrow> bool" where
  "loop_served route M conn todo later closes conn' view' \<longleftrightarrow>
     (let transcript = unsent (base conn) @ serve route M (requests_served conn) todo in
      max_buffered_bytes (write_queue (base conn')) = max_buffered_bytes (write_queue (base conn)) \<and>
      (if closes
       then \<exists>dropped. transcript = unsent (base conn') @ dropped \<and>
         (length transcript \<le> max_buffered_bytes (write_queue (base conn)) \<longrightarrow> dropped = [])
       else \<exists>answered todo' a'. todo = answered @ todo' \<and> view' = [] \<and> inside (hparser conn') a' todo' \<and>
         a' @ later = render_all todo' \<and> requests_served conn' = requests_served conn + length answered \<and>
         transcript = unsent (base conn') @ serve route M (requests_served conn') todo'))"

lemma loop_served_waits:
  assumes "inside p a todo" "a @ later = render_all todo"
  shows "loop_served route M conn todo later False (conn\<lparr>hparser := p\<rparr>) []"
proof -
  have "todo = [] @ todo"
    by simp
  with assms show ?thesis
    unfolding loop_served_def by fastforce
qed

lemma loop_served_closes:
  assumes "unsent (base conn) @ serve route M (requests_served conn) todo = unsent (base conn') @ dropped"
    and "length (unsent (base conn) @ serve route M (requests_served conn) todo) \<le>
      max_buffered_bytes (write_queue (base conn)) \<Longrightarrow> dropped = []"
    and "max_buffered_bytes (write_queue (base conn')) = max_buffered_bytes (write_queue (base conn))"
  shows "loop_served route M conn todo later True conn' view'"
  using assms by (auto simp: loop_served_def)

lemma loop_served_next:
  assumes "loop_served route M conn1 todo later closes conn' view'"
    and "unsent (base conn) @ serve route M (requests_served conn) (rq # todo) =
      unsent (base conn1) @ serve route M (requests_served conn1) todo"
    and "requests_served conn1 = requests_served conn + 1"
    and "max_buffered_bytes (write_queue (base conn1)) = max_buffered_bytes (write_queue (base conn))"
  shows "loop_served route M conn (rq # todo) later closes conn' view'"
proof (cases closes)
  case True
  with assms show ?thesis
    by (simp add: loop_served_def Let_def)
next
  case False
  with assms(1) obtain answered todo' a' where
    "todo = answered @ todo'" "view' = []" "inside (hparser conn') a' todo'" "a' @ later = render_all todo'"
    "requests_served conn' = requests_served conn1 + length answered"
    "unsent (base conn1) @ serve route M (requests_served conn1) todo =
       unsent (base conn') @ serve route M (requests_served conn') todo'"
    "max_buffered_bytes (write_queue (base conn')) = max_buffered_bytes (write_queue (base conn1))"
    by (auto simp: loop_served_def Let_def)
  moreover from this have "rq # todo = (rq # answered) @ todo'"
      "requests_served conn' = requests_served conn + length (rq # answered)"
    using assms(3) by simp_all
  ultimately show ?thesis
    using assms(2,4) False unfolding loop_served_def Let_def by metis
qed

lemma parse_loop_transcript:
  assumes "connection_ok (base conn)" "carries (hparser conn) a" "\<forall>rq\<in>set todo. deliverable rq"
    and "a @ view @ later = render_all todo" "view = [] \<longrightarrow> a = []"
  shows "\<exists>closes conn' view'.
    parse_loop config (\<lambda>rq. Some (route rq)) False conn view = Some (Finish closes, conn', view') \<and>
    loop_served route (http_max_keep_alive_requests config) conn todo later closes conn' view'"
  using assms
proof (induction "length view" arbitrary: conn view a todo rule: less_induct)
  case less
  let ?M = "http_max_keep_alive_requests config"
  note step = parse_loop.simps [of config "\<lambda>rq. Some (route rq)" False conn view]
  have waits: ?case if fed: "feed (hparser conn) view = (kNeedMoreData, q, [])" and "inside q (a @ view) todo" for q
  proof -
    have "loop_served route ?M conn todo later False (conn\<lparr>hparser := q\<rparr>) []"
      using less.prems(4) by (intro loop_served_waits [OF that(2)]) simp
    with step fed show ?thesis
      by (auto simp: Let_def)
  qed
  show ?case
  proof (cases "view = []")
    case True
    then have new: "hparser conn = new_parser" "a = []"
      using less.prems(2,5) by (auto simp: carries_def)
    have "inside new_parser [] todo"
      by (simp add: inside_def split: list.split)
    with True new waits feed_nothing show ?thesis
      by simp
  next
    case False
    from feed_stream [OF less.prems(2,3,4) False] show ?thesis
    proof (elim disjE exE conjE)
      fix q assume fed: "feed (hparser conn) view = (kNeedMoreData, q, [])" and q: "carries q (a @ view)"
      have "inside q (a @ view) todo"
        using q feed_stream_waits [OF less.prems(2) _ _ False fed] less.prems(3,4) False
        by (cases todo) (auto simp: inside_def)
      from waits [OF fed this] show ?thesis .
    next
      fix q rq todo1 rest
      assume todo: "todo = rq # todo1" and fed: "feed (hparser conn) view = (kComplete, q, rest)" "request q = rq"
        and rest: "rest @ later = render_all todo1" "length rest < length view"
      obtain reply keep_alive where reply: "answer route rq = (reply, keep_alive)"
        by fastforce
      have reply': "answer (\<lambda>_. route rq) rq = (reply, keep_alive)"
        using reply by (simp add: answer_def)
      obtain queued c where enq: "enqueue_output (base conn) reply = (queued, c)"
        by fastforce
      note c = enqueue_output_keeps [OF enq less.prems(1)]
      define ends where "ends \<longleftrightarrow> \<not> keep_alive \<or> ?M \<le> requests_served conn + 1"
      define others where "others = (if ends then [] else serve route ?M (requests_served conn + 1) todo1)"
      have spec: "serve route ?M (requests_served conn) todo = reply @ others"
        by (simp add: todo reply others_def ends_def)
      define conn1 where "conn1 = conn\<lparr>base := c, requests_served := requests_served conn + 1, hparser := new_parser\<rparr>"
      have turn: "parse_loop config (\<lambda>rq. Some (route rq)) False conn view =
          (if \<not> queued then Some (Finish True, conn\<lparr>hparser := q, base := c\<rparr>, [])
           else if ends then Some (Finish True, conn1, rest)
           else parse_loop config (\<lambda>rq. Some (route rq)) False conn1 rest)"
        using step fed reply' enq by (simp add: Let_def conn1_def ends_def)
      show ?thesis
      proof (cases "queued \<and> \<not> ends")
        case False
        have "loop_served route ?M conn todo later True conn' view'" if "base conn' = c" for conn' view'
        proof (rule loop_served_closes)
          show "unsent (base conn) @ serve route ?M (requests_served conn) todo =
              unsent (base conn') @ (if queued then [] else reply @ others)"
            using c False spec that by (auto simp: others_def)
        qed (use c spec that in auto)
        moreover have "base conn1 = c"
          by (simp add: conn1_def)
        ultimately show ?thesis
          using False turn by (cases queued) auto
      next
        case True
        have conn1: "connection_ok (base conn1)" "carries (hparser conn1) []"
            "\<forall>rq\<in>set todo1. deliverable rq" "[] @ rest @ later = render_all todo1"
          using c less.prems(3) rest(1) todo by (simp_all add: conn1_def)
        from less.hyps [OF rest(2) conn1] obtain closes conn' view' where
          run: "parse_loop config (\<lambda>rq. Some (route rq)) False conn1 rest = Some (Finish closes, conn', view')"
          and served: "loop_served route ?M conn1 todo1 later closes conn' view'"
          by auto
        have "loop_served route ?M conn todo later closes conn' view'"
          unfolding todo
          by (rule loop_served_next [OF served])
            (use c spec True todo in \<open>simp_all add: conn1_def others_def\<close>)
        with run turn True show ?thesis
          by simp
      qed
    qed
  qed
qed

subsection \<open>A connection in conversation\<close>

text \<open>
  \<open>S\<close> is the whole transcript.  An open connection is inside the next request and still owes the replies
  to the ones to come; a closing one has queued all it will send.
\<close>

definition conversing :: "RequestHandler \<Rightarrow> nat \<Rightarrow> string \<Rightarrow> HttpConnection \<Rightarrow> bool" where
  "conversing route M S h \<longleftrightarrow>
     (if conn_state (base h) = kClosing
      then \<exists>dropped. S = wire (sock (base h)) @ unsent (base h) @ dropped \<and>
        (length S \<le> max_buffered_bytes (write_queue (base h)) \<longrightarrow> dropped = [])
      else \<exists>todo a. (\<forall>rq\<in>set todo. deliverable rq) \<and> unread (base h) = [] \<and> inside (hparser h) a todo \<and>
        a @ arriving (recvs (sock (base h))) = render_all todo \<and>
        S = wire (sock (base h)) @ unsent (base h) @ serve route M (requests_served h) todo)"

definition told :: "string \<Rightarrow> HttpConnection \<Rightarrow> bool" where
  "told S h \<longleftrightarrow> (\<exists>rest. S = wire (sock (base h)) @ rest)"

lemma conversing_told: "conversing route M S h \<Longrightarrow> told S h"
  by (auto simp: conversing_def told_def split: if_splits)

text \<open>Draining moves bytes from the queue to the wire.\<close>

lemma drained_sends:
  assumes "drained c c'"
  shows "wire (sock c) @ unsent c @ x = wire (sock c') @ unsent c' @ x"
proof -
  have "wire (sock c) @ unsent c = wire (sock c') @ unsent c'"
    using assms by (simp add: drained_def)
  then show ?thesis
    by (simp only: append_assoc [symmetric])
qed

lemma conversing_drained:
  assumes "conversing route M S h" "drained (base h) c" "s = kClosing \<longleftrightarrow> conn_state (base h) = kClosing"
  shows "conversing route M S (h\<lparr>base := c\<lparr>conn_state := s\<rparr>\<rparr>)"
proof -
  have "unread c = unread (base h)" "recvs (sock c) = recvs (sock (base h))"
      "max_buffered_bytes (write_queue c) = max_buffered_bytes (write_queue (base h))"
    using assms(2) by (simp_all add: drained_def unread_def)
  then show ?thesis
    using assms(1,3) unfolding conversing_def drained_sends [OF assms(2)] by (simp split: if_splits)
qed

lemma conversing_drained_same:
  assumes "conversing route M S h" "drained (base h) c"
  shows "conversing route M S (h\<lparr>base := c\<rparr>)"
proof -
  have "conn_state c = conn_state (base h)"
    using assms(2) by (simp add: drained_def)
  then have "c\<lparr>conn_state := conn_state (base h)\<rparr> = c"
    by simp
  with conversing_drained [OF assms, of "conn_state (base h)"] show ?thesis
    by simp
qed

text \<open>What the end of a round of parsing does to its own connection.\<close>

lemma finish_dispatch_sends:
  assumes run: "finish_dispatch i closes st = Some (Inr (b, st'))"
    and ok: "connection_ok (base (objects st i))" and reg: "connections st fd = Some i"
    and fd: "conn_fd (base (objects st i)) = fd" and reading: "conn_state (base (objects st i)) = kReading"
  shows "\<exists>c. drained (base (objects st i)) c \<and>
    (connections st' fd = None \<and> objects st' i = (objects st i)\<lparr>base := c\<rparr> \<or>
     connections st' fd = Some i \<and>
       (\<exists>s. objects st' i = (objects st i)\<lparr>base := c\<lparr>conn_state := s\<rparr>\<rparr> \<and>
          (closes \<longrightarrow> s = kClosing) \<and> (\<not> closes \<longrightarrow> s \<noteq> kClosing)))"
proof -
  obtain result c where flush: "flush_output (base (objects st i)) = Some (result, c)"
      and d: "drained (base (objects st i)) c"
    using flush_output_result [OF ok] by blast
  have c: "conn_fd c = fd" "conn_state c = kReading"
    using d fd reading by (simp_all add: drained_def)
  then have same: "c = c\<lparr>conn_state := kReading\<rparr>"
    by simp
  show ?thesis
  proof (cases result)
    case kPending
    then obtain r where "st' = put_conn i ((objects st i)\<lparr>base := c\<lparr>conn_state :=
        (if closes then kClosing else kWriting)\<rparr>\<rparr>) st\<lparr>http_reactor := r\<rparr>"
      using run flush by (auto simp: finish_dispatch_def put_base_def Let_def split: sum.splits)
    with d reg show ?thesis
      by (intro exI [of _ c]) auto
  next
    case kFlushed
    show ?thesis
    proof (cases closes)
      case True
      with run flush kFlushed c have "st' = close_connection fd (put_conn i ((objects st i)\<lparr>base := c\<rparr>) st)"
        by (simp add: finish_dispatch_def put_base_def)
      with d show ?thesis
        by (intro exI [of _ c]) simp
    next
      case False
      with run flush kFlushed have "st' = put_conn i ((objects st i)\<lparr>base := c\<rparr>) st"
        by (simp add: finish_dispatch_def put_base_def)
      then have "connections st' fd = Some i \<and>
          objects st' i = (objects st i)\<lparr>base := c\<lparr>conn_state := kReading\<rparr>\<rparr>"
        using reg same by simp
      with d False show ?thesis
        by blast
    qed
  next
    case kFailed
    with run flush c have "st' = close_connection fd (put_conn i ((objects st i)\<lparr>base := c\<rparr>) st)"
      by (simp add: finish_dispatch_def put_base_def)
    with d show ?thesis
      by (intro exI [of _ c]) simp
  qed
qed

subsection \<open>One event\<close>

text \<open>What the kernel reports as readable does not make a \<open>recv\<close> block.\<close>

fun readable_now :: "recv_outcome list \<Rightarrow> bool" where
  "readable_now [] = False"
| "readable_now (RecvBytes d # later) = True"
| "readable_now (RecvErrno e # later) = (if e = EINTR then readable_now later else e \<noteq> EAGAIN \<and> e \<noteq> EWOULDBLOCK)"

lemma read_some_readable:
  assumes "read_some chunk s = (d, io, s')" "readable_now (recvs s)"
  shows "io \<noteq> IoWouldBlock"
  using assms
proof (induction chunk s rule: read_some.induct)
  case (1 chunk s)
  obtain out s1 where recv: "sys_recv chunk s = (out, s1)"
    by fastforce
  show ?case
  proof (cases "out = RecvErrno EINTR")
    case True
    then have "read_some chunk s1 = (d, io, s')" "readable_now (recvs s1)"
      using "1.prems" recv
      by (auto simp: read_some.simps [of chunk s] sys_recv_def split: list.splits recv_outcome.splits)
    with "1.IH" [OF recv [symmetric] _ refl] True show ?thesis
      by simp
  next
    case False
    with "1.prems" recv show ?thesis
      by (auto simp: read_some.simps [of chunk s] sys_recv_def
          split: list.splits recv_outcome.splits if_splits)
  qed
qed

lemma read_available_brings:
  assumes "connection_ok c" "chunk < 2 ^ 63" "read_available chunk c = (False, c')"
    and "readable_now (recvs (sock c))"
  shows "unread c' \<noteq> []"
proof -
  obtain data io s where read: "read_some chunk (sock c) = (data, io, s)"
    by (metis prod_cases3)
  have io: "io \<noteq> IoWouldBlock"
    by (rule read_some_readable [OF read assms(4)])
  note arrived = read_some_arriving [OF read]
  define appended where "appended \<longleftrightarrow> (if length data > 0 then fst (buffer_append (read_buffer c) data) else True)"
  define b where "b = (if length data > 0 then snd (buffer_append (read_buffer c) data) else read_buffer c)"
  have step: "read_available chunk c =
      (if \<not> appended then (True, c\<lparr>sock := s\<rparr>)
       else if io = IoClosed \<or> io = IoError then (True, c\<lparr>sock := s, read_buffer := b\<rparr>)
       else if io = IoWouldBlock \<or> length data < chunk then (False, c\<lparr>sock := s, read_buffer := b\<rparr>)
       else read_available chunk (c\<lparr>sock := s, read_buffer := b\<rparr>))"
    unfolding read_available.simps [of chunk c]
    by (simp add: read appended_def b_def case_prod_beta Let_def)
  with assms(3) have got: "appended" "io = IoOk"
    using io by (cases io; auto split: if_splits)+
  have ok: "buffer_ok (read_buffer c)" "max_capacity (read_buffer c) < 2 ^ 62" "length data < 2 ^ 63"
    using assms(1,2) arrived by (simp_all add: connection_ok_def)
  have data: "data \<noteq> []"
    using got arrived by simp
  then have b: "bytes_of b = unread c @ data" "buffer_ok b" "max_capacity b = max_capacity (read_buffer c)"
    using got(1) ok buffer_append_bytes [OF ok(1), of data] buffer_append_ok [OF ok]
    by (simp_all add: appended_def b_def unread_def)
  let ?c1 = "c\<lparr>sock := s, read_buffer := b\<rparr>"
  have c1: "connection_ok ?c1" "unread ?c1 \<noteq> []"
    using assms(1) b data by (simp_all add: connection_ok_def unread_def)
  show ?thesis
  proof (cases "length data < chunk")
    case True
    with step got assms(3) have "c' = ?c1"
      by simp
    with c1 show ?thesis
      by simp
  next
    case False
    with step got assms(3) have "read_available chunk ?c1 = (False, c')"
      by simp
    from read_available_result [OF c1(1) assms(2) this] c1(2) show ?thesis
      by auto
  qed
qed

lemma drive_parser_converses:
  assumes "worker_pool st = None" "connections st fd = Some i"
    and "connection_ok (base (objects st i))" "conn_fd (base (objects st i)) = fd"
    and "conn_state (base (objects st i)) = kReading"
    and stream: "inside (hparser (objects st i)) a todo" "\<forall>rq\<in>set todo. deliverable rq"
      "a @ unread (base (objects st i)) @ arriving (recvs (sock (base (objects st i)))) = render_all todo"
      "unread (base (objects st i)) \<noteq> []"
    and S: "S = wire (sock (base (objects st i))) @ unsent (base (objects st i)) @
      serve route (http_max_keep_alive_requests config) (requests_served (objects st i)) todo"
    and run: "drive_parser config (\<lambda>rq. Some (route rq)) i st = Some (Inr st')"
  shows "told S (objects st' i) \<and>
    (connections st' fd = Some i \<longrightarrow> conversing route (http_max_keep_alive_requests config) S (objects st' i))"
proof -
  let ?h = "objects st i" and ?M = "http_max_keep_alive_requests config"
  let ?later = "arriving (recvs (sock (base ?h)))"
  have buf: "buffer_view (read_buffer (base ?h)) = unread (base ?h)" "buffer_ok (read_buffer (base ?h))"
    using assms(3) by (simp_all add: connection_ok_def buffer_view_ok unread_def)
  have "carries (hparser ?h) a"
    using stream(1) by (simp add: inside_def)
  from parse_loop_transcript [OF assms(3) this stream(2,3)] stream(4) obtain closes conn view where
    loop: "parse_loop config (\<lambda>rq. Some (route rq)) False ?h (unread (base ?h)) = Some (Finish closes, conn, view)"
    and served: "loop_served route ?M ?h todo ?later closes conn view"
    by blast
  have p: "parser_ok (hparser ?h)"
    using stream(1) by (simp add: inside_def carries_def)
  from parse_loop_leaves [OF assms(3) p, of False True "\<lambda>rq. Some (route rq)" config "unread (base ?h)"] loop
  have leaves: "loop_leaves False ?h (unread (base ?h)) (Finish closes) conn view"
    by auto
  define h1 where "h1 = objects (consume_parsed i view (put_conn i conn st)) i"
  let ?st1 = "consume_parsed i view (put_conn i conn st)"
  have h1: "hparser h1 = hparser conn" "requests_served h1 = requests_served conn"
      "sock (base h1) = sock (base ?h)" "write_queue (base h1) = write_queue (base conn)"
      "conn_fd (base h1) = fd" "conn_state (base h1) = kReading"
    using leaves assms(4,5) by (simp_all add: h1_def consume_parsed_def put_base_def Let_def loop_leaves_def)
  have buf1: "read_buffer (base h1) =
      buffer_consume (size_minus (length (unread (base ?h))) (length view)) (read_buffer (base ?h))"
    using leaves buf(2)
    by (simp add: h1_def consume_parsed_def put_base_def Let_def loop_leaves_def buffer_size_ok unread_def)
  have unsent1: "unsent (base h1) = unsent (base conn)"
    using h1(4) by (simp add: unsent_def)
  have ok1: "connection_ok (base h1)"
    using leaves assms(3)
    by (simp add: h1_def consume_parsed_def put_base_def Let_def loop_leaves_def connection_ok_def buffer_consume_ok)
  obtain b where fin: "finish_dispatch i closes ?st1 = Some (Inr (b, st'))"
    using run loop assms(1) buf(1)
    by (auto simp: drive_parser.simps [of config _ i st] Let_def split: option.splits sum.splits prod.splits)
  from finish_dispatch_sends [OF fin, of fd] ok1 h1(5,6) assms(2) obtain c where
    d: "drained (base h1) c" and after: "connections st' fd = None \<and> objects st' i = h1\<lparr>base := c\<rparr> \<or>
      connections st' fd = Some i \<and> (\<exists>s. objects st' i = h1\<lparr>base := c\<lparr>conn_state := s\<rparr>\<rparr> \<and>
          (closes \<longrightarrow> s = kClosing) \<and> (\<not> closes \<longrightarrow> s \<noteq> kClosing))"
    by (auto simp: h1_def)
  have c: "unread c = unread (base h1)" "recvs (sock c) = recvs (sock (base ?h))"
      "max_buffered_bytes (write_queue c) = max_buffered_bytes (write_queue (base conn))"
    using d h1 by (simp_all add: drained_def unread_def)
  show ?thesis
  proof (cases closes)
    case True
    define X where "X = unsent (base ?h) @ serve route ?M (requests_served ?h) todo"
    obtain dropped where X: "X = unsent (base conn) @ dropped"
        "length X \<le> max_buffered_bytes (write_queue (base conn)) \<longrightarrow> dropped = []"
      using served True unfolding loop_served_def Let_def X_def [symmetric] by auto
    have "S = wire (sock (base ?h)) @ X"
      using S by (simp add: X_def)
    then have dropped: "S = wire (sock (base h1)) @ unsent (base h1) @ dropped"
        "length S \<le> max_buffered_bytes (write_queue (base conn)) \<Longrightarrow> dropped = []"
      using X h1(3) unsent1 by simp_all
    from dropped(1) have "S = wire (sock c) @ unsent c @ dropped"
      using drained_sends [OF d] by simp
    with after True dropped(2) c(3) show ?thesis
      by (auto simp: told_def conversing_def)
  next
    case False
    obtain answered todo' a' where t: "todo = answered @ todo'" "view = []" "inside (hparser conn) a' todo'"
        "a' @ ?later = render_all todo'"
        "unsent (base ?h) @ serve route ?M (requests_served ?h) todo =
          unsent (base conn) @ serve route ?M (requests_served conn) todo'"
      using served False by (auto simp: loop_served_def Let_def)
    have "unread (base h1) = []"
    proof -
      have "length (unread (base ?h)) < 2 ^ 64"
        using buf(2) by (auto simp: buffer_ok_def unread_def bytes_of_def)
      then show ?thesis
        using buffer_consume_bytes [OF buf(2)] by (simp add: unread_def buf1 t(2) size_minus_le)
    qed
    moreover have "S = wire (sock c) @ unsent c @ serve route ?M (requests_served conn) todo'"
      using S t(5) h1(3) unsent1 drained_sends [OF d] by simp
    moreover have "\<forall>rq\<in>set todo'. deliverable rq"
      using stream(2) t(1) by simp
    ultimately show ?thesis
      using after False c t(3,4) h1(1,2) by (fastforce simp: told_def conversing_def)
  qed
qed

lemma conversing_open:
  assumes "conversing route M S h" "conn_state (base h) \<noteq> kClosing"
  obtains todo a where "\<forall>rq\<in>set todo. deliverable rq" "unread (base h) = []" "inside (hparser h) a todo"
    "a @ arriving (recvs (sock (base h))) = render_all todo"
    "S = wire (sock (base h)) @ unsent (base h) @ serve route M (requests_served h) todo"
  using assms by (auto simp: conversing_def)

text \<open>Without a pool nothing is ever awaited.\<close>

lemma inline_not_awaiting:
  assumes "http_inv True own {#} {} st" "worker_pool st = None" "connections st fd = Some i"
  shows "\<not> awaiting_worker_result (objects st i)"
proof -
  have "in_flight st = {#}"
    using assms(2) http_inv_parts(5) [OF assms(1)] by (simp add: in_flight_def)
  with http_invD(2) [OF assms(1,3)] show ?thesis
    by (simp add: conn_inv_settled flight_ok_def)
qed

definition converses_on :: "RequestHandler \<Rightarrow> nat \<Rightarrow> string \<Rightarrow> int \<Rightarrow> nat \<Rightarrow> http_server \<Rightarrow> bool" where
  "converses_on route M S fd i st \<longleftrightarrow>
     told S (objects st i) \<and> (connections st fd = Some i \<longrightarrow> conversing route M S (objects st i))"

lemma process_readable_converses:
  assumes inv: "http_inv True own {#} {} st" and pool: "worker_pool st = None"
    and i: "connections st fd = Some i" and reading: "conn_state (base (objects st i)) = kReading"
    and conv: "conversing route (http_max_keep_alive_requests config) S (objects st i)"
    and chunk: "http_read_chunk_bytes config < 2 ^ 63"
    and now: "readable_now (recvs (sock (base (objects st i))))"
    and run: "process_readable config (\<lambda>rq. Some (route rq)) i st = Some (Inr st')"
  shows "converses_on route (http_max_keep_alive_requests config) S fd i st' \<and> only_touches fd i st st' \<and>
    worker_pool st' = None"
proof -
  let ?h = "objects st i" and ?M = "http_max_keep_alive_requests config"
  have here: "conn_inv True {} (in_flight st + {#}) st i" "connection_ok (base ?h)" "conn_fd (base ?h) = fd"
    using http_invD [OF inv i] by (simp_all add: conn_inv_settled settled_def fd_of_def)
  have idle: "\<not> awaiting_worker_result ?h"
    by (rule inline_not_awaiting [OF inv pool i])
  obtain todo a where todo: "\<forall>rq\<in>set todo. deliverable rq" "unread (base ?h) = []" "inside (hparser ?h) a todo"
    "a @ arriving (recvs (sock (base ?h))) = render_all todo"
    "S = wire (sock (base ?h)) @ unsent (base ?h) @ serve route ?M (requests_served ?h) todo"
    using conversing_open [OF conv] reading by auto
  obtain closes c where read: "read_available (http_read_chunk_bytes config) (base ?h) = (closes, c)"
    by fastforce
  note r = read_available_result [OF here(2) chunk read]
  let ?st = "put_conn i (?h\<lparr>base := c\<rparr>) st"
  have eq: "process_readable config (\<lambda>rq. Some (route rq)) i st =
      (if closes then Some (Inr (close_connection fd ?st)) else drive_parser config (\<lambda>rq. Some (route rq)) i ?st)"
    using read r here(3) idle by (simp add: process_readable_def put_base_def Let_def)
  show ?thesis
  proof (cases closes)
    case True
    with eq run have "st' = close_connection fd ?st"
      by simp
    with r todo(5) pool show ?thesis
      by (auto simp: converses_on_def told_def)
  next
    case False
    have inv': "http_inv True own {#} {} ?st"
      using r here reading
      by (intro inv_put [OF inv i]) (simp_all add: http_wants_def conn_inv_settled settled_def unsent_def)
    have run': "drive_parser config (\<lambda>rq. Some (route rq)) i ?st = Some (Inr st')"
      using eq run False by simp
    have c: "unread c \<noteq> []" "unsent c = unsent (base ?h)"
      using read_available_brings [OF here(2) chunk] read False now r by (simp_all add: unsent_def)
    have "told S (objects st' i) \<and> (connections st' fd = Some i \<longrightarrow> conversing route ?M S (objects st' i))"
      by (rule drive_parser_converses [OF _ _ _ _ _ _ todo(1) _ _ _ run', where a = a and fd = fd])
        (use pool i r here reading todo c False in simp_all)
    moreover have after: "http_inv True own {#} {} st'" "only_touches fd i ?st st'"
      using drive_parser_inv [OF inv', of fd i "\<lambda>rq. Some (route rq)" config] i r reading idle run' by auto
    moreover have "worker_pool st' = None"
      using http_inv_parts(5) [OF after(1)] http_inv_parts(5) [OF inv] pool after(2)
      by (simp add: only_touches_def)
    ultimately show ?thesis
      using only_touches_put_trans [OF after(2)] by (simp add: converses_on_def)
  qed
qed

lemma readable_part_converses:
  assumes "http_inv True own {#} {} st" "worker_pool st = None" "connections st fd = Some i"
    and "conversing route (http_max_keep_alive_requests config) S (objects st i)"
    and "http_read_chunk_bytes config < 2 ^ 63"
    and "events AND kReadable \<noteq> 0 \<longrightarrow> readable_now (recvs (sock (base (objects st i))))"
    and "readable_part config (\<lambda>rq. Some (route rq)) i events st = Some (Inr st')"
  shows "converses_on route (http_max_keep_alive_requests config) S fd i st' \<and> only_touches fd i st st' \<and>
    worker_pool st' = None"
proof (cases "events AND kReadable \<noteq> 0 \<and> conn_state (base (objects st i)) = kReading")
  case True
  with assms process_readable_converses [OF assms(1-3) _ assms(4,5)] show ?thesis
    by (simp add: readable_part_def)
next
  case False
  with assms have "st' = st"
    by (auto simp: readable_part_def)
  with assms conversing_told show ?thesis
    by (auto simp: converses_on_def)
qed

lemma client_event_converses:
  assumes inv: "http_inv True own {#} {} st" and pool: "worker_pool st = None"
    and i: "connections st fd = Some i"
    and conv: "conversing route (http_max_keep_alive_requests config) S (objects st i)"
    and chunk: "http_read_chunk_bytes config < 2 ^ 63"
    and now: "events AND kReadable \<noteq> 0 \<longrightarrow> readable_now (recvs (sock (base (objects st i))))"
    and run: "on_client_event config (\<lambda>rq. Some (route rq)) fd events st = Some (Inr st')"
  shows "converses_on route (http_max_keep_alive_requests config) S fd i st' \<and> only_touches fd i st st' \<and>
    worker_pool st' = None"
proof (cases "events AND (EPOLLERR OR EPOLLHUP) = 0 \<and> events AND kWritable \<noteq> 0")
  case False
  show ?thesis
  proof (cases "events AND (EPOLLERR OR EPOLLHUP) = 0")
    case True
    with False run i have "readable_part config (\<lambda>rq. Some (route rq)) i events st = Some (Inr st')"
      by (simp add: on_client_event_def)
    from readable_part_converses [OF inv pool i conv chunk now this] show ?thesis .
  next
    case False
    with run i have "st' = close_connection fd st"
      by (simp add: on_client_event_def)
    with conversing_told [OF conv] pool show ?thesis
      by (simp add: converses_on_def)
  qed
next
  case True
  let ?h = "objects st i"
  have here: "i < next_object st" "settled ?h" "conn_fd (base ?h) = fd"
      "flight_ok True (Multiset.count (in_flight st + {#}) i) (awaiting_worker_result ?h)"
    using http_invD [OF inv i] by (simp_all add: conn_inv_settled fd_of_def)
  then have ok: "connection_ok (base ?h)"
    by (simp add: settled_def)
  obtain result c where flush: "flush_output (base ?h) = Some (result, c)" and d: "drained (base ?h) c"
      and out: "result = kFlushed \<Longrightarrow> unsent c = []" "result = kPending \<Longrightarrow> unsent c \<noteq> []"
    using flush_output_result [OF ok] by blast
  have c: "connection_ok c" "conn_fd c = fd" "conn_state c = conn_state (base ?h)"
      "length (unsent c) \<le> length (unsent (base ?h))" "recvs (sock c) = recvs (sock (base ?h))"
    using d here by (simp_all add: drained_def)
  let ?st = "put_conn i (?h\<lparr>base := c\<rparr>) st"
  note flushed = conversing_drained_same [OF conv d]
  show ?thesis
  proof (cases "result = kFlushed \<and> conn_state c \<noteq> kClosing \<or> result = kPending")
    case False
    have "st' = close_connection fd ?st"
      using run i flush True False by (cases result) (simp_all add: on_client_event_def put_base_def Let_def)
    with conversing_told [OF flushed] pool show ?thesis
      by (simp add: converses_on_def)
  next
    case go: True
    show ?thesis
    proof (cases "result = kPending")
      case pending: True
      then have "conn_state (base ?h) \<noteq> kReading"
        using here(2) out(2) c(4) by (auto simp: settled_def)
      then have "http_inv True own {#} {} ?st"
        using here c out(2) [OF pending]
        by (intro inv_put [OF inv i]) (simp_all add: http_wants_def conn_inv_settled settled_def)
      moreover have "readable_part config (\<lambda>rq. Some (route rq)) i events ?st = Some (Inr st')"
        using run i flush True pending by (simp add: on_client_event_def put_base_def Let_def)
      ultimately have "converses_on route (http_max_keep_alive_requests config) S fd i st' \<and>
          only_touches fd i ?st st' \<and> worker_pool st' = None"
        using pool i flushed chunk now c(5) by (intro readable_part_converses [where events = events]) simp_all
      then show ?thesis
        using only_touches_put_trans by blast
    next
      case False
      with go have flushed': "result = kFlushed" "conn_state c \<noteq> kClosing"
        by auto
      let ?h' = "?h\<lparr>base := c\<lparr>conn_state := kReading\<rparr>\<rparr>"
      have "conn_inv True {} (in_flight st + {#}) (put_conn i ?h' st) i"
        using here c out(1) [OF flushed'(1)] flushed'(2) by (simp add: conn_inv_settled settled_def)
      moreover have "http_wants ?h' = kReadable"
        by (simp add: http_wants_def)
      ultimately obtain r where r: "reactor_modify fd kReadable (http_reactor st) = Inr r"
          "http_inv True own {#} {} (put_conn i ?h' st\<lparr>http_reactor := r\<rparr>)"
        using inv_modify [OF inv i, of ?h' "{}"] c(2) by auto
      let ?st2 = "put_conn i ?h' st\<lparr>http_reactor := r\<rparr>"
      have "conversing route (http_max_keep_alive_requests config) S ?h'"
        using conversing_drained [OF conv d, of kReading] flushed'(2) c(3) by simp
      moreover have "readable_part config (\<lambda>rq. Some (route rq)) i events ?st2 = Some (Inr st')"
        using run i flush True flushed' r(1) by (simp add: on_client_event_def put_base_def Let_def)
      ultimately have "converses_on route (http_max_keep_alive_requests config) S fd i st' \<and>
          only_touches fd i ?st2 st' \<and> worker_pool st' = None"
        using pool i chunk now c(5) by (intro readable_part_converses [OF r(2), where events = events]) simp_all
      then show ?thesis
        using only_touches_trans [OF only_touches_put(2)] by blast
    qed
  qed
qed

subsection \<open>Any run of the server\<close>

text \<open>Events on other connections and newly accepted ones leave the conversation alone.\<close>

lemma listener_touches:
  assumes "on_listener_readable config fresh pending st = Some (Inr st')" "i < next_object st"
  shows "objects st' i = objects st i \<and> next_object st \<le> next_object st' \<and> worker_pool st' = worker_pool st \<and>
    completion_queue st' = completion_queue st \<and>
    (\<forall>fd. connections st' fd = Some i \<longrightarrow> connections st fd = Some i)"
  using assms
proof (induction "length pending" arbitrary: pending st rule: less_induct)
  case less
  obtain answer later where answer: "accept_nonblocking pending = (answer, later)"
    by fastforce
  note run = less.prems(1) [unfolded on_listener_readable.simps [of config fresh pending st] answer, simplified]
  show ?case
  proof (cases "answer = Inr None \<or> (\<exists>e. answer = Inl e)")
    case True
    with run show ?thesis
      by auto
  next
    case False
    then obtain fd where got: "answer = Inr (Some fd)"
      by (metis not_Some_eq sum.exhaust)
    then obtain st1 where st1: "accept_one config fresh fd st = Inr st1"
        "on_listener_readable config fresh later st1 = Some (Inr st')"
      using run by (auto split: sum.splits)
    have "length later < length pending"
      using accept_nonblocking_shrinks answer got by metis
    moreover have here: "objects st1 i = objects st i \<and> next_object st1 = next_object st + 1 \<and>
        worker_pool st1 = worker_pool st \<and> completion_queue st1 = completion_queue st \<and>
        (\<forall>fd. connections st1 fd = Some i \<longrightarrow> connections st fd = Some i)"
      using st1(1) less.prems(2)
      by (auto simp: accept_one_def Let_def split: prod.splits sum.splits if_splits)
    ultimately show ?thesis
      using less.hyps [OF _ st1(2)] less.prems(2) by fastforce
  qed
qed

text \<open>
  The reactor's thread at work without a pool; what is reported readable on an open connection can be
  read without blocking.
\<close>

inductive inline_run ::
  "http_config \<Rightarrow> http_handler \<Rightarrow> int set \<Rightarrow> http_server \<Rightarrow> http_server \<Rightarrow> bool"
  for config :: http_config and handler :: http_handler and own :: "int set" and st0 :: http_server where
  run_start: "inline_run config handler own st0 st0"
| run_event: "inline_run config handler own st0 st \<Longrightarrow>
    distinct (accepted_fds pending) \<Longrightarrow>
    set (accepted_fds pending) \<inter> (own \<union> dom (connections st)) = {} \<Longrightarrow>
    \<forall>i. connections st fd = Some i \<longrightarrow> events AND kReadable \<noteq> 0 \<longrightarrow>
      readable_now (recvs (sock (base (objects st i)))) \<Longrightarrow>
    dispatch_ready http_reactor (invoke config handler fresh pending) fd events st = Some (Inr st') \<Longrightarrow>
    inline_run config handler own st0 st'"

lemma inline_run_converses:
  assumes "inline_run config (\<lambda>rq. Some (route rq)) own st0 st"
    and "http_inv True own {#} {} st0" "http_config_ok config" "worker_pool st0 = None"
    and "connections st0 fd = Some i" "conversing route (http_max_keep_alive_requests config) S (objects st0 i)"
  shows "http_inv True own {#} {} st \<and> worker_pool st = None \<and> i < next_object st \<and>
    (\<forall>fd'. connections st fd' = Some i \<longrightarrow> fd' = fd) \<and>
    converses_on route (http_max_keep_alive_requests config) S fd i st"
  using assms
proof (induction rule: inline_run.induct)
  case run_start
  have "i < next_object st0"
    using http_invD(2) [OF run_start(1,4)] by (simp add: conn_inv_def)
  moreover have "converses_on route (http_max_keep_alive_requests config) S fd i st0"
    using run_start(4,5) conversing_told [OF run_start(5)] by (simp add: converses_on_def)
  moreover have "\<forall>fd'. connections st0 fd' = Some i \<longrightarrow> fd' = fd"
    using one_descriptor [OF run_start(1,4)] by blast
  ultimately show ?case
    using run_start(1,3) by blast
next
  case (run_event st pending fd' events fresh st')
  then have inv: "http_inv True own {#} {} st" and pool: "worker_pool st = None" and old: "i < next_object st"
    and alone: "\<And>fd'. connections st fd' = Some i \<Longrightarrow> fd' = fd"
    and conv: "converses_on route (http_max_keep_alive_requests config) S fd i st"
    by auto
  have chunk: "http_read_chunk_bytes config < 2 ^ 63"
    using run_event.prems(2) by (simp add: http_config_ok_def)
  have inv': "http_inv True own {#} {} st'"
    by (rule http_step_inv [OF http_step.dispatches [OF run_event.hyps(2,3,5)] inv run_event.prems(2)]) simp
  show ?case
  proof (cases "callbacks (http_reactor st) fd'")
    case None
    with run_event.hyps(5) have "st' = st"
      by (simp add: dispatch_ready_def)
    with inv pool old alone conv show ?thesis
      by simp
  next
    case (Some cb)
    with run_event.hyps(5) have run: "invoke config (\<lambda>rq. Some (route rq)) fresh pending cb fd' events st = Some (Inr st')"
      by (simp add: dispatch_ready_def)
    show ?thesis
    proof (cases cb)
      case OnListenerReadable
      with run have "on_listener_readable config fresh pending st = Some (Inr st')"
        by (simp add: invoke_def)
      from listener_touches [OF this old] inv' pool old alone conv show ?thesis
        by (auto simp: converses_on_def)
    next
      case OnCompletionReadable
      have "completion_queue st = None"
        using http_inv_parts(5) [OF inv] pool by simp
      with OnCompletionReadable run have "st' = st"
        by (simp add: invoke_def on_completion_readable_def)
      with inv pool old alone conv show ?thesis
        by simp
    next
      case OnClientEvent
      with run have event: "on_client_event config (\<lambda>rq. Some (route rq)) fd' events st = Some (Inr st')"
        by (simp add: invoke_def)
      show ?thesis
      proof (cases "connections st fd'")
        case None
        with event have "st' = st"
          by (simp add: on_client_event_def)
        with inv pool old alone conv show ?thesis
          by simp
      next
        case (Some j)
        have touches: "only_touches fd' j st st'"
          using on_client_event_safely_at [OF inv chunk _ Some, of "\<lambda>rq. Some (route rq)" events] event
          by (auto simp: safely_at_def)
        have regs: "connections st' x = Some i \<Longrightarrow> x = fd" for x
          using touches alone [of x] by (cases "x = fd'") (auto simp: only_touches_def)
        have rest: "worker_pool st' = None" "i < next_object st'"
          using http_inv_parts(5) [OF inv'] http_inv_parts(5) [OF inv] pool old touches
          by (simp_all add: only_touches_def)
        have "converses_on route (http_max_keep_alive_requests config) S fd i st'"
        proof (cases "j = i")
          case True
          then have "fd' = fd"
            using alone Some by simp
          with True Some conv have "conversing route (http_max_keep_alive_requests config) S (objects st i)"
            by (simp add: converses_on_def)
          with True Some \<open>fd' = fd\<close> event chunk run_event.hyps(4) client_event_converses [OF inv pool, of fd i]
          show ?thesis
            by blast
        next
          case False
          with touches have "objects st' i = objects st i"
            by (simp add: only_touches_def)
          moreover have "connections st' fd = Some i \<Longrightarrow> connections st fd = Some i"
            using touches Some by (cases "fd = fd'") (auto simp: only_touches_def)
          ultimately show ?thesis
            using conv by (simp add: converses_on_def)
        qed
        with inv' rest regs show ?thesis
          by simp
      qed
    qed
  qed
qed

text \<open>A server without a pool stays without one.\<close>

lemma listener_keeps_pool:
  assumes "on_listener_readable config fresh pending st = Some (Inr st')"
  shows "worker_pool st' = worker_pool st"
  using assms
proof (induction config fresh pending st rule: on_listener_readable.induct)
  case (1 config fresh pending st)
  obtain answer later where answer: "accept_nonblocking pending = (answer, later)"
    by fastforce
  note run = "1.prems" [unfolded on_listener_readable.simps [of config fresh pending st] answer, simplified]
  show ?case
  proof (cases "answer = Inr None \<or> (\<exists>e. answer = Inl e)")
    case True
    with run show ?thesis
      by auto
  next
    case False
    then obtain fd where got: "answer = Inr (Some fd)"
      by (metis not_Some_eq sum.exhaust)
    then obtain st1 where st1: "accept_one config fresh fd st = Inr st1"
        "on_listener_readable config fresh later st1 = Some (Inr st')"
      using run by (auto split: sum.splits)
    have "worker_pool st1 = worker_pool st"
      using st1(1) by (auto simp: accept_one_def Let_def split: prod.splits sum.splits if_splits)
    with "1.IH" [OF answer [symmetric] got refl st1(1) st1(2)] show ?thesis
      by simp
  qed
qed

lemma inline_run_invariant:
  assumes "inline_run config (\<lambda>rq. Some (route rq)) own st0 st"
    and "http_inv True own {#} {} st0" "http_config_ok config" "worker_pool st0 = None"
  shows "http_inv True own {#} {} st \<and> worker_pool st = None"
  using assms
proof (induction rule: inline_run.induct)
  case (run_event st pending fd events fresh st')
  then have inv: "http_inv True own {#} {} st" and pool: "worker_pool st = None"
    by simp_all
  have inv': "http_inv True own {#} {} st'"
    by (rule http_step_inv [OF http_step.dispatches [OF run_event.hyps(2,3,5)] inv run_event.prems(2)]) simp
  have "completion_queue st' = None" if "on_client_event config (\<lambda>rq. Some (route rq)) fd events st = Some (Inr st')"
  proof (cases "connections st fd")
    case None
    with that pool http_inv_parts(5) [OF inv] show ?thesis
      by (simp add: on_client_event_def)
  next
    case (Some j)
    have chunk: "http_read_chunk_bytes config < 2 ^ 63"
      using run_event.prems(2) by (simp add: http_config_ok_def)
    have "only_touches fd j st st'"
      using on_client_event_safely_at [OF inv chunk _ Some, of "\<lambda>rq. Some (route rq)" events] that
      by (auto simp: safely_at_def)
    with pool http_inv_parts(5) [OF inv] show ?thesis
      by (simp add: only_touches_def)
  qed
  then have "worker_pool st' = None"
    using run_event.hyps(5) pool listener_keeps_pool http_inv_parts(5) [OF inv] http_inv_parts(5) [OF inv']
    by (auto simp: dispatch_ready_def invoke_def on_completion_readable_def split: option.splits http_callback.splits)
  with inv' show ?case
    by simp
qed simp

text \<open>A freshly accepted connection whose client will send these requests.\<close>

lemma accepted_converses:
  assumes "accept_one config fresh fd st = Inr st'" "connections st fd = None" "fresh fd = (peer_name, s)"
    and "http_config_ok config" "\<forall>rq\<in>set rqs. deliverable rq" "arriving (recvs s) = render_all rqs" "wire s = []"
  shows "connections st' fd = Some (next_object st) \<and> worker_pool st' = worker_pool st \<and>
    conversing route M (serve route M 0 rqs) (objects st' (next_object st))"
proof -
  define c where "c = new_connection fd peer_name (http_max_output_queue_bytes config)
      (http_max_read_buffer_bytes config) s"
  have st': "connections st' fd = Some (next_object st)" "worker_pool st' = worker_pool st"
      "objects st' (next_object st) = new_http_connection c"
    using assms(1-3) by (auto simp: accept_one_def c_def Let_def split: sum.splits)
  have fields: "unread c = []" "unsent c = []" "sock c = s" "conn_state c = kReading"
    by (simp_all add: c_def) (simp_all add: new_connection_def)
  have "inside new_parser [] rqs"
    by (simp add: inside_def split: list.split)
  with assms(5-7) fields have "conversing route M (serve route M 0 rqs) (new_http_connection c)"
    by (auto simp: conversing_def new_http_connection_def)
  with st' show ?thesis
    by simp
qed

text \<open>Nothing is owed once all has been read, answered and sent.\<close>

lemma conversing_done:
  assumes "conversing route M S h" "conn_state (base h) = kReading" "arriving (recvs (sock (base h))) = []"
    and "unsent (base h) = []"
  shows "wire (sock (base h)) = S"
proof -
  obtain todo a where todo: "inside (hparser h) a todo" "a = render_all todo"
      "S = wire (sock (base h)) @ serve route M (requests_served h) todo"
    using assms by (auto simp: conversing_def)
  have "todo = []"
    using todo(1,2) by (cases todo) (auto simp: inside_def)
  with todo(3) show ?thesis
    by simp
qed

end
