(* ===== verification/Arc_Http_Strand.thy ===== *)
theory Arc_Http_Strand
  imports Arc_Http_Transcript
begin

text \<open>
  Two ways in which a connection of the HTTP server with a pool is left waiting: a handler that throws on
  a worker, and a pipelined request behind a reply that did not fit into the socket at once.
\<close>

subsection \<open>A handler that throws\<close>

text \<open>
  The connection waits for the pool, and nothing is under way for it: its object is \<open>h\<close> but for what has
  been read since.
\<close>

definition only_at :: "http_server \<Rightarrow> int \<Rightarrow> nat \<Rightarrow> bool" where
  "only_at st fd i \<longleftrightarrow> (\<forall>fd'. connections st fd' = Some i \<longrightarrow> fd' = fd)"

lemma only_at_simps [simp]:
  "only_at (put_conn j h st) fd i = only_at st fd i" "only_at (st\<lparr>http_reactor := r\<rparr>) fd i = only_at st fd i"
  "only_at st fd i \<Longrightarrow> only_at (close_connection fd' st) fd i"
  by (simp_all add: only_at_def)

definition orphan :: "int \<Rightarrow> nat \<Rightarrow> HttpConnection \<Rightarrow> http_server \<Rightarrow> bool" where
  "orphan fd i h st \<longleftrightarrow>
     i < next_object st \<and> Multiset.count (in_flight st) i = 0 \<and>
     only_at st fd i \<and>
     (connections st fd = Some i \<longrightarrow>
        awaiting_worker_result (objects st i) \<and> hparser (objects st i) = hparser h \<and>
        requests_served (objects st i) = requests_served h \<and>
        wire (sock (base (objects st i))) = wire (sock (base h)))"

lemma orphan_close: "orphan fd i h st \<Longrightarrow> orphan fd i h (close_connection fd st)"
  unfolding orphan_def by simp

lemma flush_output_nothing:
  assumes "connection_ok c" "unsent c = []"
  shows "flush_output c = Some (kFlushed, c)"
  using assms queue_empty_bytes [of "write_queue c"]
  by (simp add: flush_output.simps [of c] connection_ok_def unsent_def)

lemma orphan_kept:
  assumes o: "orphan fd i h st" and same: "objects st' i = objects st i" "next_object st \<le> next_object st'"
    and less: "Multiset.count (in_flight st') i \<le> Multiset.count (in_flight st) i"
    and registered: "\<And>x. connections st' x = Some i \<Longrightarrow> connections st x = Some i"
  shows "orphan fd i h st'"
proof -
  have "only_at st' fd i"
    using o registered by (simp add: orphan_def only_at_def)
  then show ?thesis
    using o same less registered [of fd] by (cases "connections st' fd = Some i") (simp_all add: orphan_def)
qed

lemma orphan_touched:
  assumes "orphan fd i h st" "only_touches fd' j st st'" "j \<noteq> i" "connections st fd' = Some j"
  shows "orphan fd i h st'"
proof (rule orphan_kept [OF assms(1)])
  show "connections st x = Some i" if "connections st' x = Some i" for x
    using assms that by (cases "x = fd'") (auto simp: only_touches_def)
qed (use assms in \<open>simp_all add: only_touches_def\<close>)

lemma orphan_process_readable:
  assumes inv: "http_inv False own {#} {} st" and i: "connections st fd = Some i" and o: "orphan fd i h st"
    and chunk: "http_read_chunk_bytes config < 2 ^ 63"
    and run: "readable_part config handler i events st = Some (Inr st')"
  shows "orphan fd i h st'"
proof (cases "events AND kReadable \<noteq> 0 \<and> conn_state (base (objects st i)) = kReading")
  case False
  with run o show ?thesis
    by (auto simp: readable_part_def)
next
  case True
  have here: "connection_ok (base (objects st i))" "conn_fd (base (objects st i)) = fd"
    using http_invD [OF inv i] by (simp_all add: conn_inv_settled settled_def fd_of_def)
  obtain closes c where read: "read_available (http_read_chunk_bytes config) (base (objects st i)) = (closes, c)"
    by fastforce
  note r = read_available_result [OF here(1) chunk read]
  have "st' = (if closes then close_connection fd (put_base i c st) else put_base i c st)"
    using run True read r here(2) o i
    by (cases closes) (simp_all add: readable_part_def process_readable_def orphan_def put_base_def Let_def)
  moreover have "wire (sock c) = wire (sock (base (objects st i)))"
    using r by simp
  then have "orphan fd i h (put_base i c st)"
    using o i by (simp add: orphan_def put_base_def)
  moreover from this have "orphan fd i h (close_connection fd (put_base i c st))"
    by (rule orphan_close)
  ultimately show ?thesis
    by simp
qed

lemma orphan_client_event:
  assumes inv: "http_inv False own {#} {} st" and i: "connections st fd = Some i" and o: "orphan fd i h st"
    and chunk: "http_read_chunk_bytes config < 2 ^ 63"
    and run: "on_client_event config handler fd events st = Some (Inr st')"
  shows "orphan fd i h st'"
proof (cases "events AND (EPOLLERR OR EPOLLHUP) = 0 \<and> events AND kWritable \<noteq> 0")
  case False
  show ?thesis
  proof (cases "events AND (EPOLLERR OR EPOLLHUP) = 0")
    case True
    with False run i have "readable_part config handler i events st = Some (Inr st')"
      by (simp add: on_client_event_def)
    from orphan_process_readable [OF inv i o chunk this] show ?thesis .
  next
    case False
    with run i have "st' = close_connection fd st"
      by (simp add: on_client_event_def)
    with orphan_close [OF o] show ?thesis
      by simp
  qed
next
  case True
  let ?h = "objects st i"
  have await: "awaiting_worker_result ?h"
    using o i by (simp add: orphan_def)
  have here: "conn_inv False {} (in_flight st + {#}) st i" "settled ?h" "conn_fd (base ?h) = fd"
    using http_invD [OF inv i] by (simp_all add: conn_inv_settled fd_of_def)
  then have idle: "conn_state (base ?h) = kReading" "unsent (base ?h) = []" "connection_ok (base ?h)"
    using await by (auto simp: settled_def)
  have same: "?h\<lparr>base := base ?h\<lparr>conn_state := kReading\<rparr>\<rparr> = ?h"
    using idle(1) by simp
  have wants: "http_wants ?h = kReadable"
    using idle(1) by (simp add: http_wants_def)
  obtain r where r: "reactor_modify fd kReadable (http_reactor st) = Inr r"
      "http_inv False own {#} {} (put_conn i ?h st\<lparr>http_reactor := r\<rparr>)"
    using inv_modify [OF inv i here(3), of "{}"] conn_inv_cong [OF here(1), of "put_conn i ?h st" "{}"] wants
    by auto
  have run': "readable_part config handler i events (put_conn i ?h st\<lparr>http_reactor := r\<rparr>) = Some (Inr st')"
    using run i True flush_output_nothing [OF idle(3,2)] idle(1) r(1) same
    by (simp add: on_client_event_def put_base_def Let_def)
  have "orphan fd i h (put_conn i ?h st\<lparr>http_reactor := r\<rparr>)"
    using o by (simp add: orphan_def)
  from orphan_process_readable [OF r(2) _ this chunk run'] i show ?thesis
    by simp
qed

lemma orphan_completions:
  assumes "http_inv False own (image_mset done_conn (mset ds)) {} st" "orphan fd i h st"
    and "i \<notin> done_conn ` set ds" "run_completions config handler ds st = Some (Inr st')"
  shows "orphan fd i h st'"
  using assms
proof (induction ds arbitrary: st)
  case (Cons d ds)
  have inv: "http_inv False own (add_mset (done_conn d) (image_mset done_conn (mset ds))) {} st"
    using Cons.prems(1) by simp
  obtain st1 where st1: "on_worker_result config handler d st = Some (Inr st1)"
      "run_completions config handler ds st1 = Some (Inr st')"
    using Cons.prems(4) by (auto split: option.splits sum.splits)
  have "http_inv False own (image_mset done_conn (mset ds)) {} st1 \<and> orphan fd i h st1"
  proof (cases "alive st (done_conn d)")
    case False
    with on_worker_result_dead [OF inv False] st1(1) Cons.prems(2) show ?thesis
      by simp
  next
    case True
    have "http_inv False own (image_mset done_conn (mset ds)) {} st1"
      and touches: "only_touches (fd_of st (done_conn d)) (done_conn d) st st1"
      using on_worker_result_alive [OF inv _ True, of handler config] st1(1) by (auto simp: safely_at_def)
    moreover have "connections st (fd_of st (done_conn d)) = Some (done_conn d)"
      using True by (simp add: alive_def)
    ultimately show ?thesis
      using orphan_touched [OF Cons.prems(2) touches] Cons.prems(3) by auto
  qed
  with Cons.IH [OF _ _ _ st1(2)] Cons.prems(3) show ?case
    by simp
qed simp

text \<open>A worker's turn leaves the reactor's side alone and brings no new work.\<close>

lemma server_worker_turn_work:
  assumes inv: "http_inv exact own busy {} st" and pool: "worker_pool st = Some pool"
    and j: "j < length (workers pool)" and turn: "server_worker_turn handler j st = Some st'"
  shows "in_flight st' \<subseteq># in_flight st" "objects st' = objects st" "connections st' = connections st"
    "next_object st' = next_object st"
    "\<And>t. workers pool ! j = Running t \<Longrightarrow> handler (task_request t) = None \<Longrightarrow>
       in_flight st = add_mset (task_conn t) (in_flight st')"
proof -
  obtain q where q: "completion_queue st = Some q"
    using http_inv_parts(5) [OF inv] pool by auto
  let ?throws = "\<lambda>t. handler (task_request t) = None"
  obtain pool' where pool': "worker_turn ?throws j pool = Some pool'"
    using turn pool q by (auto simp: server_worker_turn_def split: option.splits)
  obtain q' where st': "st' = st\<lparr>worker_pool := Some pool', completion_queue := Some q'\<rparr>"
    and q': "mset (tasks q') = mset (tasks q) \<or>
      (\<exists>t response. workers pool ! j = Running t \<and> handler (task_request t) = Some response \<and>
         image_mset done_conn (mset (tasks q')) \<subseteq># add_mset (task_conn t) (image_mset done_conn (mset (tasks q))))"
  proof (cases "\<exists>t response. workers pool ! j = Running t \<and> handler (task_request t) = Some response")
    case False
    then have "st' = st\<lparr>worker_pool := Some pool', completion_queue := Some q\<rparr>"
      using turn pool q pool' by (auto simp: server_worker_turn_def split: worker.splits option.splits)
    with that show ?thesis
      by blast
  next
    case True
    then obtain t response where t: "workers pool ! j = Running t" "handler (task_request t) = Some response"
      by blast
    let ?d = "\<lparr>done_conn = task_conn t, done_response = response, done_keep_alive = task_keep_alive t\<rparr>"
    obtain queued q' where push: "push q ?d = Some (queued, q')"
      using turn pool q pool' t by (auto simp: server_worker_turn_def split: option.splits)
    then have "tasks q' = (if queued then tasks q @ [?d] else tasks q)"
      by (auto simp: push_def split: if_splits)
    with t push turn pool q pool' show ?thesis
      by (intro that [of q']) (auto simp: server_worker_turn_def)
  qed
  show "objects st' = objects st" "connections st' = connections st" "next_object st' = next_object st"
    by (simp_all add: st')
  note work = worker_turn_work [OF j pool']
  show "in_flight st' \<subseteq># in_flight st"
    using q' work pool q by (auto simp: in_flight_pool st')
  show "in_flight st = add_mset (task_conn t) (in_flight st')"
    if "workers pool ! j = Running t" "handler (task_request t) = None" for t
    using q' work pool q that by (auto simp: in_flight_pool st')
qed

lemma orphan_step:
  assumes step: "http_step config handler own st st'" and inv: "http_inv False own {#} {} st"
    and config: "http_config_ok config" and o: "orphan fd i h st"
  shows "orphan fd i h st'"
  using step
proof cases
  case (dispatches pending fresh fd' events)
  have chunk: "http_read_chunk_bytes config < 2 ^ 63"
    using config by (simp add: http_config_ok_def)
  show ?thesis
  proof (cases "callbacks (http_reactor st) fd'")
    case None
    with dispatches(3) o show ?thesis
      by (simp add: dispatch_ready_def)
  next
    case (Some cb)
    with dispatches(3) have run: "invoke config handler fresh pending cb fd' events st = Some (Inr st')"
      by (simp add: dispatch_ready_def)
    show ?thesis
    proof (cases cb)
      case OnListenerReadable
      with run have accepts: "on_listener_readable config fresh pending st = Some (Inr st')"
        by (simp add: invoke_def)
      have old: "i < next_object st"
        using o by (simp add: orphan_def)
      note touched = listener_touches [OF accepts old]
      then have "in_flight st' = in_flight st"
        by (simp add: in_flight_def)
      show ?thesis
      proof (rule orphan_kept [OF o])
        show "connections st x = Some i" if "connections st' x = Some i" for x
          using touched that by blast
        show "Multiset.count (in_flight st') i \<le> Multiset.count (in_flight st) i"
          using \<open>in_flight st' = in_flight st\<close> by simp
      qed (use touched in blast)+
    next
      case OnCompletionReadable
      with run have done_: "on_completion_readable config handler st = Some (Inr st')"
        by (simp add: invoke_def)
      show ?thesis
      proof (cases "completion_queue st")
        case None
        with done_ o show ?thesis
          by (simp add: on_completion_readable_def)
      next
        case (Some q)
        let ?st = "st\<lparr>completion_queue := Some (q\<lparr>tasks := []\<rparr>)\<rparr>"
        have parts: "in_flight ?st + image_mset done_conn (mset (tasks q)) = in_flight st"
          using Some by (simp add: in_flight_def)
        with inv Some have "http_inv False own (image_mset done_conn (mset (tasks q))) {} ?st"
          unfolding http_inv_def by (simp split: option.split)
        moreover have "Multiset.count (in_flight ?st + image_mset done_conn (mset (tasks q))) i = 0"
          using o unfolding parts by (simp add: orphan_def)
        then have "Multiset.count (in_flight ?st) i = 0" "i \<notin> done_conn ` set (tasks q)"
          by (simp_all add: count_eq_zero_iff)
        moreover from this have "orphan fd i h ?st"
          by (intro orphan_kept [OF o]) simp_all
        moreover have "run_completions config handler (tasks q) ?st = Some (Inr st')"
          using done_ Some by (simp add: on_completion_readable_def drain_def)
        ultimately show ?thesis
          using orphan_completions by blast
      qed
    next
      case OnClientEvent
      with run have event: "on_client_event config handler fd' events st = Some (Inr st')"
        by (simp add: invoke_def)
      show ?thesis
      proof (cases "connections st fd'")
        case None
        with event o show ?thesis
          by (simp add: on_client_event_def)
      next
        case (Some j)
        show ?thesis
        proof (cases "j = i")
          case True
          then have "fd' = fd"
            using Some o by (simp add: orphan_def only_at_def)
          with True Some event show ?thesis
            using orphan_client_event [OF inv _ o chunk] by blast
        next
          case False
          have "only_touches fd' j st st'"
            using on_client_event_safely_at [OF inv chunk _ Some, of handler events] event
            by (auto simp: safely_at_def)
          from orphan_touched [OF o this False Some] show ?thesis .
        qed
      qed
    qed
  qed
next
  case (worker_turns pool j)
  note turn = server_worker_turn_work [OF inv worker_turns]
  then show ?thesis
    by (intro orphan_kept [OF o]) (simp_all add: mset_subset_eq_count)
next
  case (pool_stops pool)
  have "in_flight st' = in_flight st"
    using pool_stops by (simp add: in_flight_def stop_begins_def close_def)
  with pool_stops(1) show ?thesis
    by (intro orphan_kept [OF o]) simp_all
qed

lemma orphan_reachable:
  assumes "http_reachable config handler own st1 st2" "http_inv False own {#} {} st1"
    and "http_config_ok config" "orphan fd i h st1"
  shows "orphan fd i h st2"
  using assms
proof (induction rule: http_reachable.induct)
  case (http_more st st')
  then have "http_inv False own {#} {} st"
    using http_reachable_inv [of config handler own st1 st False] by simp
  with http_more orphan_step show ?case
    by blast
qed

text \<open>A throwing turn orphans the connection its task was for.\<close>

lemma throwing_turn_orphans:
  assumes inv: "http_inv exact own {#} {} st" and pool: "worker_pool st = Some pool"
    and j: "j < length (workers pool)" "workers pool ! j = Running t" "handler (task_request t) = None"
    and turn: "server_worker_turn handler j st = Some st'"
    and fd: "connections st fd = Some (task_conn t)"
  shows "orphan fd (task_conn t) (objects st (task_conn t)) st'"
proof -
  let ?i = "task_conn t"
  note work = server_worker_turn_work [OF inv pool j(1) turn]
  note lost = work(5) [OF j(2,3)]
  have here: "conn_inv exact {} (in_flight st + {#}) st ?i" "fd_of st ?i = fd"
    using http_invD [OF inv fd] by simp_all
  then have "?i < next_object st"
    "flight_ok exact (Multiset.count (in_flight st) ?i) (awaiting_worker_result (objects st ?i))"
    by (simp_all add: conn_inv_settled)
  then have "Multiset.count (in_flight st') ?i = 0" "awaiting_worker_result (objects st ?i)"
    using lost by (cases "awaiting_worker_result (objects st ?i)"; simp add: flight_ok_def)+
  moreover have "only_at st' fd ?i"
    using http_invD(1) [OF inv] here(2) work(3) unfolding only_at_def by auto
  ultimately show ?thesis
    using \<open>?i < next_object st\<close> work(2,3,4) by (simp add: orphan_def)
qed

subsection \<open>A pipelined request behind a reply that had to wait\<close>

text \<open>
  When the socket has taken the rest of a reply, the connection goes back to waiting for input; what it
  has read before stays where it is.
\<close>

lemma drained_reply_event:
  assumes inv: "http_inv exact own {#} {} st" and i: "connections st fd = Some i"
    and writing: "conn_state (base (objects st i)) = kWriting"
    and flush: "flush_output (base (objects st i)) = Some (kFlushed, c)"
  shows "\<exists>r. on_client_event config handler fd kWritable st =
      Some (Inr (put_conn i ((objects st i)\<lparr>base := c\<lparr>conn_state := kReading\<rparr>\<rparr>) st\<lparr>http_reactor := r\<rparr>)) \<and>
    interest r fd = Some kReadable"
proof -
  let ?h = "objects st i"
  let ?h' = "?h\<lparr>base := c\<lparr>conn_state := kReading\<rparr>\<rparr>"
  have here: "settled ?h" "conn_fd (base ?h) = fd"
    using http_invD [OF inv i] by (simp_all add: conn_inv_settled fd_of_def)
  then have "drained (base ?h) c"
    using flush_output_result [of "base ?h"] flush by (auto simp: settled_def)
  then have c: "conn_state c = kWriting"
    using writing by (simp add: drained_def)
  have "wants_of st fd \<noteq> None"
    using i by (simp add: wants_of_def)
  then obtain r where r: "reactor_modify fd kReadable (http_reactor st) = Inr r"
    using registry_modify [OF http_inv_parts(1) [OF inv]] by fastforce
  then have "interest r fd = Some kReadable"
    by (auto simp: reactor_modify_def split: if_splits)
  moreover have "on_client_event config handler fd kWritable st = Some (Inr (put_conn i ?h' st\<lparr>http_reactor := r\<rparr>))"
    using i flush c r
    by (simp add: on_client_event_def readable_part_def put_base_def Let_def EPOLLERR_def EPOLLHUP_def
        kReadable_def kWritable_def EPOLLIN_def EPOLLOUT_def)
  ultimately show ?thesis
    by blast
qed

end
