(* ===== verification/Arc_Http_Demo.thy ===== *)
theory Arc_Http_Demo
  imports Arc_Http_Strand Arc_Parser_Properties
begin

text \<open>
  A run of the HTTP server with a pool of one worker, from its start: a connection is accepted, a request
  is read and handed over, the worker takes it, and its reply meets a socket that takes nothing at first.
\<close>

definition demo_config :: http_config where
  "demo_config =
     \<lparr>http_port = 0, http_backlog = 128, http_read_chunk_bytes = 4096, http_max_keep_alive_requests = 1000,
      http_max_output_queue_bytes = 65536, http_max_read_buffer_bytes = 65536, completion_queue_capacity = 4\<rparr>"

definition demo_socket :: "string \<Rightarrow> send_outcome list \<Rightarrow> socket" where
  "demo_socket later outs = \<lparr>recvs = [RecvBytes (render_request demo_request @ later)], sends = outs, wire = []\<rparr>"

definition demo_connection :: "socket \<Rightarrow> Connection" where
  "demo_connection s = new_connection 7 ''peer'' 65536 65536 s"

definition demo_pool :: "worker_task pool" where
  "demo_pool = new_pool 1 \<lparr>config_worker_count = 1, config_queue_capacity = 2\<rparr>"

definition demo_start :: "socket \<Rightarrow> http_server" where
  "demo_start s = \<lparr>http_reactor = \<lparr>interest = [4 \<mapsto> EPOLLIN, 3 \<mapsto> kReadable, 5 \<mapsto> kReadable],
       callbacks = [3 \<mapsto> OnListenerReadable, 5 \<mapsto> OnCompletionReadable], stop_requested = False, wakeup_ticks = 0\<rparr>,
     connections = Map.empty, objects = (\<lambda>_. new_http_connection (demo_connection s)), next_object = 0,
     worker_pool = Some demo_pool, completion_queue = Some (new_work_queue 4),
     connections_accepted = 0, closed_fds = []\<rparr>"

lemma demo_starts: "http_starts 3 4 5 demo_config True (demo_start s)"
proof -
  have "new_http_server 3 4 5 demo_config (Some demo_pool) (objects (demo_start s)) = Inr (demo_start s)"
    by (simp add: new_http_server_def reactor_add_def new_reactor_def demo_start_def demo_config_def)
  then show ?thesis
    unfolding http_starts_def demo_pool_def by force
qed

definition demo_accepted :: "socket \<Rightarrow> http_server" where
  "demo_accepted s = (demo_start s)\<lparr>http_reactor := \<lparr>interest = [4 \<mapsto> EPOLLIN, 3 \<mapsto> kReadable, 5 \<mapsto> kReadable, 7 \<mapsto> kReadable],
       callbacks = [3 \<mapsto> OnListenerReadable, 5 \<mapsto> OnCompletionReadable, 7 \<mapsto> OnClientEvent],
       stop_requested = False, wakeup_ticks = 0\<rparr>,
     connections := [7 \<mapsto> 0], next_object := 1, connections_accepted := 1\<rparr>"

lemma demo_accepts:
  "http_step demo_config handler (own_fds 3 4 5 True) (demo_start s) (demo_accepted s)"
proof (rule http_step.dispatches [where pending = "[Accepted 7 (Some 0) True]" and fd = 3 and fresh = "\<lambda>_. (''peer'', s)"])
  show "dispatch_ready http_reactor (invoke demo_config handler (\<lambda>_. (''peer'', s)) [Accepted 7 (Some 0) True]) 3 kReadable
     (demo_start s) = Some (Inr (demo_accepted s))"
    by (simp add: dispatch_ready_def demo_start_def invoke_def on_listener_readable.simps
      set_nonblocking_def O_NONBLOCK_def accept_one_def demo_config_def demo_accepted_def reactor_add_def
      new_http_connection_def demo_connection_def fun_upd_idem)
qed (auto simp: own_fds_def demo_start_def)

text \<open>With room in the pool's queue a complete request is handed to it.\<close>

lemma drive_parser_dispatches:
  assumes pool: "worker_pool st = Some pool" and parser: "hparser (objects st i) = new_parser"
    and ok: "connection_ok (base (objects st i))" and bytes: "unread (base (objects st i)) = render_request rq @ later"
    and rq: "sendable rq"
    and room: "submit pool \<lparr>task_conn = i, task_request = rq, task_keep_alive = HttpRequest_keep_alive rq\<rparr> = (True, pool')"
  shows "\<exists>b. buffer_ok b \<and> bytes_of b = later \<and> max_capacity b = max_capacity (read_buffer (base (objects st i))) \<and>
    drive_parser config handler i st = Some (Inr ((put_conn i ((objects st i)\<lparr>awaiting_worker_result := True,
      base := (base (objects st i))\<lparr>read_buffer := b\<rparr>\<rparr>) st)\<lparr>worker_pool := Some pool'\<rparr>))"
proof -
  let ?h = "objects st i"
  let ?b = "read_buffer (base ?h)"
  have b: "buffer_ok ?b" "bytes_of ?b = render_request rq @ later"
    using ok bytes by (simp_all add: connection_ok_def unread_def)
  have "length (bytes_of ?b) < 2 ^ 64"
    using b(1) by (auto simp: buffer_ok_def bytes_of_def)
  then have small: "length (render_request rq @ later) < 2 ^ 64"
    unfolding b(2) .
  obtain q where fed: "feed new_parser (render_request rq @ later) = (kComplete, q, later)" "request q = rq"
    using feed_render [OF rq] by blast
  have parse: "parse_loop config handler True ?h (render_request rq @ later) =
      Some (Dispatch rq (HttpRequest_keep_alive rq), ?h\<lparr>awaiting_worker_result := True\<rparr>, later)"
  proof -
    have "?h\<lparr>hparser := new_parser, awaiting_worker_result := True\<rparr> = ?h\<lparr>awaiting_worker_result := True\<rparr>"
      using parser by simp
    then show ?thesis
      using fed parser by (simp add: parse_loop.simps [of config handler True ?h])
  qed
  let ?c = "buffer_consume (size_minus (buffer_size ?b) (length later)) ?b"
  have "size_minus (buffer_size ?b) (length later) = length (render_request rq)"
    using b small by (simp add: buffer_size_ok size_minus_le)
  then have "bytes_of ?c = later" "buffer_ok ?c"
    using b buffer_consume_bytes [OF b(1)] buffer_consume_ok [OF b(1)] by simp_all
  moreover have "drive_parser config handler i st = Some (Inr ((put_conn i (?h\<lparr>awaiting_worker_result := True,
      base := (base ?h)\<lparr>read_buffer := ?c\<rparr>\<rparr>) st)\<lparr>worker_pool := Some pool'\<rparr>))"
    using parse b pool room
    by (simp add: drive_parser.simps [of config handler i st] buffer_view_ok consume_parsed_def put_base_def
        put_conn_def Let_def)
  ultimately show ?thesis
    by (intro exI [of _ ?c]) simp
qed

text \<open>A chunk that fits and is all there is.\<close>

lemma read_available_all:
  assumes "connection_ok c" "recvs (sock c) = [RecvBytes d]" "d \<noteq> []" "length d < chunk" "chunk < 2 ^ 63"
    and "length (unread c) + length d \<le> max_capacity (read_buffer c)"
  shows "\<exists>b. read_available chunk c = (False, c\<lparr>read_buffer := b, sock := (sock c)\<lparr>recvs := []\<rparr>\<rparr>) \<and>
    buffer_ok b \<and> bytes_of b = unread c @ d \<and> max_capacity b = max_capacity (read_buffer c)"
proof -
  have ok: "buffer_ok (read_buffer c)" "max_capacity (read_buffer c) < 2 ^ 62"
    using assms(1) by (simp_all add: connection_ok_def)
  let ?r = "buffer_append (read_buffer c) d"
  have fits: "fst ?r"
    using buffer_append_accepts [OF ok(1)] assms(6) by (simp add: unread_def)
  then obtain b where b: "?r = (True, b)"
    by (cases ?r) auto
  have "length d < 2 ^ 63"
    using assms(4,5) by simp
  then have "buffer_ok b" "bytes_of b = unread c @ d" "max_capacity b = max_capacity (read_buffer c)"
    using buffer_append_ok [where s = d, OF ok] buffer_append_bytes [OF ok(1), of d] buffer_append_max [of "read_buffer c" d] b
    by (simp_all add: unread_def)
  moreover have "read_some chunk (sock c) = (d, IoOk, (sock c)\<lparr>recvs := []\<rparr>)"
    using assms(2-4) by (simp add: read_some.simps [of chunk] sys_recv_def)
  ultimately show ?thesis
    using b assms(3,4) by (intro exI [of _ b]) (simp add: read_available.simps [of chunk c] Let_def)
qed


definition demo_task :: worker_task where
  "demo_task = \<lparr>task_conn = 0, task_request = demo_request, task_keep_alive = True\<rparr>"

definition demo_waiting :: "ByteBuffer \<Rightarrow> send_outcome list \<Rightarrow> HttpConnection" where
  "demo_waiting b outs =
     \<lparr>base = \<lparr>read_buffer = b, conn_fd = 7, peer = ''peer'', conn_state = kReading,
        write_queue = new_output_queue 65536, sock = \<lparr>recvs = [], sends = outs, wire = []\<rparr>\<rparr>,
      hparser = new_parser, requests_served = 0, awaiting_worker_result = True\<rparr>"

text \<open>The first request has been read and handed to the pool, whose worker has or has not taken it.\<close>

definition demo_handed :: "ByteBuffer \<Rightarrow> socket \<Rightarrow> worker_task list \<Rightarrow> worker_task worker \<Rightarrow> http_server" where
  "demo_handed b s queued w =
     put_conn 0 (demo_waiting b (sends s)) (demo_accepted s)
       \<lparr>worker_pool := Some (demo_pool\<lparr>pool_queue := (new_work_queue 2)\<lparr>tasks := queued\<rparr>, workers := [w],
          submitted := [demo_task]\<rparr>)\<rparr>"

lemma demo_keep_alive: "HttpRequest_keep_alive demo_request"
  by (simp add: HttpRequest_keep_alive_def demo_request_simps case_insensitive_map tolower_def)

lemma demo_pool_simps [simp]:
  "pool_queue demo_pool = new_work_queue 2" "workers demo_pool = [AtPop]" "submitted demo_pool = []"
  by (simp_all add: demo_pool_def new_pool_def resolve_worker_count_def)

lemma demo_hands_over:
  assumes "length later < 4000"
  obtains b where "buffer_ok b" "bytes_of b = later" "max_capacity b = 65536"
    "http_step demo_config handler (own_fds 3 4 5 True) (demo_accepted (demo_socket later outs))
       (demo_handed b (demo_socket later outs) [demo_task] AtPop)"
proof -
  let ?s = "demo_socket later outs"
  let ?st = "demo_accepted ?s" and ?c = "demo_connection ?s"
  have size: "length (render_request demo_request) < 96"
    by (simp add: render_request_def request_line_def header_wire_def header_line_def demo_request_simps CRLF_def)
  have ok: "connection_ok ?c"
    by (simp add: demo_connection_def new_connection_ok)
  obtain b where b: "read_available 4096 ?c = (False, ?c\<lparr>read_buffer := b, sock := ?s\<lparr>recvs := []\<rparr>\<rparr>)"
      "buffer_ok b" "bytes_of b = render_request demo_request @ later" "max_capacity b = 65536"
    using read_available_all [OF ok, of "render_request demo_request @ later" 4096] assms size
    by (auto simp: demo_connection_def) (auto simp: demo_socket_def new_connection_def new_buffer_def)
  define st1 where "st1 = put_base 0 (?c\<lparr>read_buffer := b, sock := ?s\<lparr>recvs := []\<rparr>\<rparr>) ?st"
  have ok1: "connection_ok (base (objects st1 0))"
    using ok b(2,4) by (simp add: st1_def put_base_def connection_ok_def)
  have h1: "objects st1 0 = new_http_connection (?c\<lparr>read_buffer := b, sock := ?s\<lparr>recvs := []\<rparr>\<rparr>)"
    by (simp add: st1_def put_base_def demo_accepted_def demo_start_def new_http_connection_def)
  define pool where "pool = demo_pool\<lparr>pool_queue := (new_work_queue 2)\<lparr>tasks := [demo_task]\<rparr>,
      submitted := [demo_task]\<rparr>"
  have taken: "submit demo_pool demo_task = (True, pool)"
    by (simp add: submit_def try_push_def pool_def)
  have "worker_pool st1 = Some demo_pool" "hparser (objects st1 0) = new_parser"
      "unread (base (objects st1 0)) = render_request demo_request @ later"
      "max_capacity (read_buffer (base (objects st1 0))) = 65536"
    using h1 b by (simp_all add: st1_def put_base_def demo_accepted_def demo_start_def new_http_connection_def unread_def)
  then obtain b' where b': "buffer_ok b'" "bytes_of b' = later" "max_capacity b' = 65536"
      "drive_parser demo_config handler 0 st1 = Some (Inr ((put_conn 0 ((objects st1 0)\<lparr>awaiting_worker_result := True,
         base := (base (objects st1 0))\<lparr>read_buffer := b'\<rparr>\<rparr>) st1)\<lparr>worker_pool := Some pool\<rparr>))"
    using drive_parser_dispatches [OF _ _ ok1 _ demo_sendable, of demo_pool later pool demo_config handler]
      taken demo_keep_alive by (auto simp: demo_task_def)
  have st2: "(put_conn 0 ((objects st1 0)\<lparr>awaiting_worker_result := True,
         base := (base (objects st1 0))\<lparr>read_buffer := b'\<rparr>\<rparr>) st1)\<lparr>worker_pool := Some pool\<rparr> =
      demo_handed b' ?s [demo_task] AtPop"
    unfolding h1 by (simp add: st1_def put_base_def put_conn_def demo_handed_def demo_waiting_def pool_def new_http_connection_def
      demo_connection_def new_connection_def demo_socket_def)
  have "http_step demo_config handler (own_fds 3 4 5 True) ?st (demo_handed b' ?s [demo_task] AtPop)"
  proof (rule http_step.dispatches [where pending = "[]" and fd = 7 and fresh = "\<lambda>_. ('''', ?s)"])
    have old: "objects ?st 0 = new_http_connection ?c"
      by (simp add: demo_accepted_def demo_start_def)
    have "awaiting_worker_result (objects st1 0) = False"
      by (simp add: h1 new_http_connection_def)
    then have "process_readable demo_config handler 0 ?st = Some (Inr (demo_handed b' ?s [demo_task] AtPop))"
      using b(1) b'(4) st2 by (simp add: process_readable_def old new_http_connection_def demo_config_def
        st1_def [symmetric])
    then show "dispatch_ready http_reactor (invoke demo_config handler (\<lambda>_. ('''', ?s)) []) 7 kReadable ?st =
        Some (Inr (demo_handed b' ?s [demo_task] AtPop))"
      by (simp add: dispatch_ready_def invoke_def on_client_event_def readable_part_def demo_accepted_def
        demo_start_def EPOLLERR_def EPOLLHUP_def kReadable_def kWritable_def EPOLLIN_def EPOLLOUT_def
        new_http_connection_def demo_connection_def new_connection_def)
  qed simp_all
  with b' that show ?thesis
    by blast
qed

lemma demo_handed_pool:
  "worker_pool (demo_handed b s queued w) =
     Some (demo_pool\<lparr>pool_queue := (new_work_queue 2)\<lparr>tasks := queued\<rparr>, workers := [w], submitted := [demo_task]\<rparr>)"
  by (simp add: demo_handed_def)

lemma demo_worker_takes:
  "http_step demo_config handler (own_fds 3 4 5 True) (demo_handed b s [demo_task] AtPop)
     (demo_handed b s [] (Running demo_task))"
proof (rule http_step.worker_turns [where j = 0, OF demo_handed_pool])
  show "server_worker_turn handler 0 (demo_handed b s [demo_task] AtPop) =
      Some (demo_handed b s [] (Running demo_task))"
    by (simp add: server_worker_turn_def demo_handed_def demo_accepted_def demo_start_def worker_turn_def pop_def)
qed simp

lemma demo_taken:
  assumes "length later < 4000"
  obtains b where "buffer_ok b" "bytes_of b = later" "max_capacity b = 65536"
    "http_reachable demo_config handler (own_fds 3 4 5 True) (demo_start (demo_socket later outs))
       (demo_handed b (demo_socket later outs) [] (Running demo_task))"
  using demo_hands_over [OF assms, of handler outs] demo_worker_takes demo_accepts
  by (metis http_reachable.intros)

text \<open>The reply comes back while the socket takes nothing, and goes out when it does.\<close>

definition demo_reply :: string where
  "demo_reply = serialize default_response"

lemma demo_reply_size: "demo_reply \<noteq> []" "length demo_reply < 128"
  by (simp_all add: demo_reply_def serialize_def default_response_def int_to_string_def decimal.simps CRLF_def)

definition demo_done :: completion where
  "demo_done = \<lparr>done_conn = 0, done_response = default_response, done_keep_alive = True\<rparr>"

definition demo_posted :: "ByteBuffer \<Rightarrow> socket \<Rightarrow> completion list \<Rightarrow> http_server" where
  "demo_posted b s dones =
     (demo_handed b s [] AtPop)
       \<lparr>worker_pool := Some (demo_pool\<lparr>pool_queue := new_work_queue 2, workers := [AtPop],
          tasks_completed := 1, submitted := [demo_task], executed := [demo_task]\<rparr>),
        completion_queue := Some ((new_work_queue 4)\<lparr>tasks := dones\<rparr>)\<rparr>"

lemma demo_worker_posts:
  "http_step demo_config (\<lambda>rq. Some default_response) (own_fds 3 4 5 True)
     (demo_handed b s [] (Running demo_task)) (demo_posted b s [demo_done])"
proof (rule http_step.worker_turns [where j = 0, OF demo_handed_pool])
  show "server_worker_turn (\<lambda>rq. Some default_response) 0 (demo_handed b s [] (Running demo_task)) =
      Some (demo_posted b s [demo_done])"
    by (simp add: server_worker_turn_def demo_handed_def demo_posted_def demo_accepted_def demo_start_def
        worker_turn_def push_def demo_done_def demo_task_def)
      (simp add: demo_pool_def new_pool_def)
qed simp

text \<open>The completion's delivery, with a socket that takes nothing at first.\<close>

definition demo_outs :: "send_outcome list" where
  "demo_outs = [SendErrno EAGAIN, Sent 4096]"

definition demo_conn :: "ByteBuffer \<Rightarrow> socket \<Rightarrow> ConnectionState \<Rightarrow> Connection" where
  "demo_conn b s c =
     \<lparr>read_buffer = b, conn_fd = 7, peer = ''peer'', conn_state = c,
      write_queue = \<lparr>chunks = [\<lparr>storage = demo_reply, read_offset = 0, max_capacity = length demo_reply\<rparr>],
        queued_bytes = length demo_reply, max_buffered_bytes = 65536\<rparr>, sock = s\<rparr>"

definition demo_writing :: "ByteBuffer \<Rightarrow> socket \<Rightarrow> http_server" where
  "demo_writing b s =
     put_conn 0 \<lparr>base = demo_conn b \<lparr>recvs = [], sends = [Sent 4096], wire = []\<rparr> kWriting,
        hparser = new_parser, requests_served = 1, awaiting_worker_result = False\<rparr>
       ((demo_posted b s [])\<lparr>http_reactor := (http_reactor (demo_accepted s))
          \<lparr>interest := (interest (http_reactor (demo_accepted s)))(7 \<mapsto> kWritable)\<rparr>\<rparr>)"

lemma demo_enqueues:
  "enqueue (new_output_queue 65536) demo_reply =
     (True, write_queue (demo_conn b s c))"
proof -
  have "buffer_append (new_buffer (length demo_reply)) demo_reply =
      (True, \<lparr>storage = demo_reply, read_offset = 0, max_capacity = length demo_reply\<rparr>)"
    using demo_reply_size by (simp add: buffer_append_def new_buffer_def buffer_size_def size_minus_le)
  with demo_reply_size show ?thesis
    by (simp add: enqueue_def new_output_queue_def demo_conn_def size_minus_le)
qed

lemma demo_front: "front (write_queue (demo_conn b s c)) = demo_reply"
  using demo_reply_size by (simp add: front_def demo_conn_def buffer_view_def buffer_size_def size_minus_le)

lemma demo_flush_pends:
  "flush_output (demo_conn b \<lparr>recvs = [], sends = demo_outs, wire = []\<rparr> c) =
     Some (kPending, demo_conn b \<lparr>recvs = [], sends = [Sent 4096], wire = []\<rparr> c)"
proof -
  have "write_all demo_reply \<lparr>recvs = [], sends = demo_outs, wire = []\<rparr> =
      (0, IoWouldBlock, \<lparr>recvs = [], sends = [Sent 4096], wire = []\<rparr>)"
    using demo_reply_size by (simp add: write_all_def write_all_loop.simps [of demo_reply] sys_send_def demo_outs_def)
  then show ?thesis
    using demo_front [of b _ c] by (simp add: flush_output.simps [of "demo_conn _ _ _"] demo_front) (simp add: demo_conn_def queue_empty_def)
qed

lemma demo_delivers:
  "http_step demo_config (\<lambda>rq. Some default_response) (own_fds 3 4 5 True)
     (demo_posted b (demo_socket later demo_outs) [demo_done]) (demo_writing b (demo_socket later demo_outs))"
proof (rule http_step.dispatches [where pending = "[]" and fd = 5 and fresh = undefined])
  let ?s = "demo_socket later demo_outs"
  let ?sock = "\<lparr>recvs = [], sends = demo_outs, wire = []\<rparr>"
  let ?st = "demo_posted b ?s []"
  have here: "objects ?st 0 = demo_waiting b demo_outs" "connections ?st = [7 \<mapsto> 0]"
      "http_reactor ?st = http_reactor (demo_accepted ?s)"
    by (simp_all add: demo_posted_def demo_handed_def demo_accepted_def demo_socket_def)
  have queued: "enqueue_output (base (demo_waiting b demo_outs)) demo_reply = (True, demo_conn b ?sock kReading)"
    using demo_enqueues [of b ?sock kReading]
    by (simp add: enqueue_output_def demo_waiting_def demo_conn_def)
  have reply: "serialize (default_response\<lparr>resp_keep_alive := True\<rparr>) = demo_reply" "resp_keep_alive default_response"
    by (simp_all add: demo_reply_def default_response_def)
  have fields: "conn_fd (base (demo_waiting b demo_outs)) = 7" "requests_served (demo_waiting b demo_outs) = 0"
      "hparser (demo_waiting b demo_outs) = new_parser"
      "conn_fd (demo_conn b s c) = 7" "conn_state (demo_conn b s c) = c" for s c
    by (simp_all add: demo_waiting_def demo_conn_def)
  have "on_worker_result demo_config (\<lambda>rq. Some default_response) demo_done ?st = Some (Inr (demo_writing b ?s))"
    using queued demo_flush_pends [of b kReading]
    by (simp add: on_worker_result_def demo_done_def alive_def fd_of_def here deliver_result_def reply fields
        finish_dispatch_def demo_config_def reactor_modify_def demo_accepted_def demo_start_def)
      (simp add: demo_writing_def demo_waiting_def demo_conn_def put_base_def put_conn_def demo_posted_def
        demo_handed_def demo_accepted_def demo_start_def)
  moreover have "dispatch_ready http_reactor (invoke demo_config (\<lambda>rq. Some default_response) undefined []) 5 kReadable
      (demo_posted b ?s [demo_done]) =
    run_completions demo_config (\<lambda>rq. Some default_response) [demo_done] ?st"
    by (simp add: dispatch_ready_def invoke_def on_completion_readable_def demo_posted_def demo_handed_def
      demo_accepted_def drain_def)
  ultimately show "dispatch_ready http_reactor (invoke demo_config (\<lambda>rq. Some default_response) undefined []) 5 kReadable
      (demo_posted b ?s [demo_done]) = Some (Inr (demo_writing b ?s))"
    by simp
qed simp_all


lemma demo_written:
  assumes "length later < 4000"
  obtains b where "buffer_ok b" "bytes_of b = later"
    "http_reachable demo_config (\<lambda>rq. Some default_response) (own_fds 3 4 5 True)
       (demo_start (demo_socket later demo_outs)) (demo_writing b (demo_socket later demo_outs))"
  using demo_taken [OF assms, of "\<lambda>rq. Some default_response" demo_outs] demo_worker_posts demo_delivers http_more
  by metis

lemma demo_config_ok: "http_config_ok demo_config"
  by (simp add: http_config_ok_def demo_config_def)

lemma demo_writing_simps [simp]:
  "connections (demo_writing b s) = [7 \<mapsto> 0]" "conn_state (base (objects (demo_writing b s) 0)) = kWriting"
  "unread (base (objects (demo_writing b s) 0)) = bytes_of b"
  by (simp_all add: demo_writing_def demo_posted_def demo_handed_def demo_accepted_def demo_conn_def unread_def)

lemma demo_flush_drains:
  "\<exists>c. flush_output (base (objects (demo_writing b s) 0)) = Some (kFlushed, c)"
proof -
  let ?c = "demo_conn b \<lparr>recvs = [], sends = [Sent 4096], wire = []\<rparr> kWriting"
  have "write_all demo_reply \<lparr>recvs = [], sends = [Sent 4096], wire = []\<rparr> =
      (length demo_reply, IoOk, \<lparr>recvs = [], sends = [], wire = demo_reply\<rparr>)"
    using demo_reply_size
    by (simp add: write_all_def write_all_loop.simps [of demo_reply] sys_send_def)
  moreover have "queue_empty (queue_consume (length demo_reply) (write_queue ?c))"
    using demo_reply_size
    by (simp add: queue_consume_def demo_conn_def queue_empty_def buffer_empty_def buffer_consume_def
        compact_if_worthwhile_def buffer_size_def size_minus_def Let_def)
  moreover have "queue_empty (write_queue d) \<Longrightarrow> flush_output d = Some (kFlushed, d)" for d
    by (simp add: flush_output.simps [of d])
  moreover have "\<not> queue_empty (write_queue ?c)" "sock ?c = \<lparr>recvs = [], sends = [Sent 4096], wire = []\<rparr>"
    by (simp_all add: demo_conn_def queue_empty_def)
  ultimately have "\<exists>c. flush_output ?c = Some (kFlushed, c)"
    using demo_reply_size(1) by (simp add: flush_output.simps [of ?c] demo_front)
  then show ?thesis
    by (simp add: demo_writing_def)
qed

end
