(* ===== verification/Arc_Echo_Server.thy ===== *)
theory Arc_Echo_Server
  imports Arc_Reactor
begin

text \<open>
  The echo server on the reactor (server/echo_reactor_server.hpp, server/echo_reactor_server.cpp): the
  registry of connections, the callbacks of the listener and of a client, and the single place where a
  connection is torn down.  A connection's descriptor is closed when its registry entry is erased.
\<close>

record echo_config =
  echo_port :: nat
  echo_backlog :: int
  echo_read_chunk_bytes :: nat
  echo_max_output_queue_bytes :: nat
  echo_max_read_buffer_bytes :: nat

datatype echo_callback = EchoListener | EchoClient

record echo_server =
  echo_reactor :: "echo_callback reactor"
  echo_connections :: "int \<rightharpoonup> Connection"
  echo_accepted :: nat
  echo_closed :: "int list"

definition new_echo_server :: "int \<Rightarrow> int \<Rightarrow> string + echo_server" where
  "new_echo_server listener_fd wakeup_fd =
     (case reactor_add listener_fd kReadable EchoListener (new_reactor wakeup_fd) of
        Inl e \<Rightarrow> Inl e
      | Inr r \<Rightarrow> Inr \<lparr>echo_reactor = r, echo_connections = Map.empty, echo_accepted = 0, echo_closed = []\<rparr>)"

definition echo_close_connection :: "int \<Rightarrow> echo_server \<Rightarrow> echo_server" where
  "echo_close_connection fd st =
     st\<lparr>echo_reactor := reactor_remove fd (echo_reactor st),
        echo_connections := (echo_connections st)(fd := None),
        echo_closed := echo_closed st @ (if echo_connections st fd = None then [] else [fd])\<rparr>"

text \<open>
  The listener's callback: one \<open>accept\<close> after the other until none is pending.  \<open>fresh\<close> gives the peer
  name and the socket of an accepted descriptor.
\<close>

function echo_on_listener_readable ::
  "echo_config \<Rightarrow> (int \<Rightarrow> string \<times> socket) \<Rightarrow> accept_outcome list \<Rightarrow> echo_server \<Rightarrow> echo_server outcome" where
  "echo_on_listener_readable config fresh pending st =
     (case accept_nonblocking pending of
        (Inl e, later) \<Rightarrow> Some (Inl e)
      | (Inr None, later) \<Rightarrow> Some (Inr st)
      | (Inr (Some client_fd), later) \<Rightarrow>
          let (peer_name, s) = fresh client_fd;
              c = new_connection client_fd peer_name (echo_max_output_queue_bytes config)
                    (echo_max_read_buffer_bytes config) s;
              st = (if echo_connections st client_fd = None
                    then st\<lparr>echo_connections := (echo_connections st)(client_fd \<mapsto> c)\<rparr> else st);
              st = st\<lparr>echo_accepted := echo_accepted st + 1\<rparr> in
          (case reactor_add client_fd kReadable EchoClient (echo_reactor st) of
             Inl e \<Rightarrow> Some (Inl e)
           | Inr r \<Rightarrow> echo_on_listener_readable config fresh later (st\<lparr>echo_reactor := r\<rparr>)))"
  by pat_completeness auto

termination
  by (relation "measure (\<lambda>(config, fresh, pending, st). length pending)")
    (auto dest: accept_nonblocking_shrinks)

declare echo_on_listener_readable.simps [simp del]

definition echo_process_readable :: "echo_config \<Rightarrow> int \<Rightarrow> echo_server \<Rightarrow> echo_server outcome" where
  "echo_process_readable config fd st =
     (case echo_connections st fd of
        None \<Rightarrow> Some (Inr st)
      | Some c \<Rightarrow>
        (case read_available (echo_read_chunk_bytes config) c of (closes, c) \<Rightarrow>
           if closes then Some (Inr (echo_close_connection fd st))
           else if buffer_empty (read_buffer c)
           then Some (Inr (st\<lparr>echo_connections := (echo_connections st)(fd \<mapsto> c)\<rparr>))
           else
             (case enqueue_output c (buffer_view (read_buffer c)) of (queued, c) \<Rightarrow>
                if \<not> queued then Some (Inr (echo_close_connection fd st))
                else
                  let c = c\<lparr>read_buffer := buffer_clear (read_buffer c)\<rparr> in
                  (case flush_output c of
                     None \<Rightarrow> None
                   | Some (kFailed, c) \<Rightarrow> Some (Inr (echo_close_connection fd st))
                   | Some (kFlushed, c) \<Rightarrow>
                       Some (Inr (st\<lparr>echo_connections := (echo_connections st)(fd \<mapsto> c)\<rparr>))
                   | Some (kPending, c) \<Rightarrow>
                       let c = c\<lparr>conn_state := kWriting\<rparr>;
                           st = st\<lparr>echo_connections := (echo_connections st)(fd \<mapsto> c)\<rparr> in
                       (case reactor_modify fd kWritable (echo_reactor st) of
                          Inl e \<Rightarrow> Some (Inl e)
                        | Inr r \<Rightarrow> Some (Inr (st\<lparr>echo_reactor := r\<rparr>)))))))"

definition echo_readable_part ::
  "echo_config \<Rightarrow> int \<Rightarrow> u32 \<Rightarrow> Connection \<Rightarrow> echo_server \<Rightarrow> echo_server outcome" where
  "echo_readable_part config fd events c st =
     (if events AND kReadable \<noteq> 0 \<and> conn_state c = kReading then echo_process_readable config fd st
      else Some (Inr st))"

definition echo_on_client_event :: "echo_config \<Rightarrow> int \<Rightarrow> u32 \<Rightarrow> echo_server \<Rightarrow> echo_server outcome" where
  "echo_on_client_event config fd events st =
     (case echo_connections st fd of
        None \<Rightarrow> Some (Inr st)
      | Some c \<Rightarrow>
        if events AND (EPOLLERR OR EPOLLHUP) \<noteq> 0 then Some (Inr (echo_close_connection fd st))
        else if events AND kWritable \<noteq> 0 then
          (case flush_output c of
             None \<Rightarrow> None
           | Some (kFailed, c) \<Rightarrow> Some (Inr (echo_close_connection fd st))
           | Some (kFlushed, c) \<Rightarrow>
               let c = c\<lparr>conn_state := kReading\<rparr>;
                   st = st\<lparr>echo_connections := (echo_connections st)(fd \<mapsto> c)\<rparr> in
               (case reactor_modify fd kReadable (echo_reactor st) of
                  Inl e \<Rightarrow> Some (Inl e)
                | Inr r \<Rightarrow> echo_readable_part config fd events c (st\<lparr>echo_reactor := r\<rparr>))
           | Some (kPending, c) \<Rightarrow>
               echo_readable_part config fd events c
                 (st\<lparr>echo_connections := (echo_connections st)(fd \<mapsto> c)\<rparr>))
        else echo_readable_part config fd events c st)"

definition echo_invoke ::
  "echo_config \<Rightarrow> (int \<Rightarrow> string \<times> socket) \<Rightarrow> accept_outcome list \<Rightarrow> echo_callback \<Rightarrow> int \<Rightarrow> u32 \<Rightarrow>
   echo_server \<Rightarrow> echo_server outcome" where
  "echo_invoke config fresh pending callback fd events st =
     (case callback of
        EchoListener \<Rightarrow> echo_on_listener_readable config fresh pending st
      | EchoClient \<Rightarrow> echo_on_client_event config fd events st)"

subsection \<open>The server between two events\<close>

definition echo_settled :: "Connection \<Rightarrow> bool" where
  "echo_settled c \<longleftrightarrow>
     connection_ok c \<and> unread c = [] \<and>
     conn_state c = (if unsent c = [] then kReading else kWriting)"

definition echo_wants :: "Connection \<Rightarrow> u32" where
  "echo_wants c = (if conn_state c = kReading then kReadable else kWritable)"

definition echo_ok :: "int set \<Rightarrow> echo_server \<Rightarrow> bool" where
  "echo_ok own st \<longleftrightarrow>
     registry_ok own EchoClient (echo_reactor st) (wanted_by echo_wants (echo_connections st)) \<and>
     (\<forall>fd c. echo_connections st fd = Some c \<longrightarrow> conn_fd c = fd \<and> echo_settled c) \<and>
     finite (dom (echo_connections st)) \<and>
     echo_accepted st = card (dom (echo_connections st)) + length (echo_closed st)"

definition echo_config_ok :: "echo_config \<Rightarrow> bool" where
  "echo_config_ok config \<longleftrightarrow>
     echo_read_chunk_bytes config < 2 ^ 63 \<and> echo_max_output_queue_bytes config < 2 ^ 64 \<and>
     echo_max_read_buffer_bytes config < 2 ^ 62"

text \<open>All that a connection's peer has sent or will send, as far as it has not been dropped.\<close>

definition echo_stream :: "Connection \<Rightarrow> string" where
  "echo_stream c = wire (sock c) @ unsent c @ unread c @ arriving (recvs (sock c))"

lemma echo_close_ok:
  assumes "echo_ok own st" "echo_connections st fd \<noteq> None"
  shows "echo_ok own (echo_close_connection fd st)"
proof -
  have "card (dom (echo_connections st)) = Suc (card (dom (echo_connections st) - {fd}))"
    using assms by (intro card.remove) (auto simp: echo_ok_def)
  moreover have "registry_ok own EchoClient (reactor_remove fd (echo_reactor st))
      ((wanted_by echo_wants (echo_connections st))(fd := None))"
    using assms by (intro registry_remove) (simp_all add: echo_ok_def)
  ultimately show ?thesis
    using assms by (auto simp: echo_ok_def echo_close_connection_def)
qed

text \<open>Storing a settled connection, with or without telling the reactor.\<close>

lemma echo_store_ok:
  assumes "echo_ok own st" "echo_connections st fd = Some c" "echo_settled c'" "conn_fd c' = fd"
    and "echo_wants c' = echo_wants c"
  shows "echo_ok own (st\<lparr>echo_connections := (echo_connections st)(fd \<mapsto> c')\<rparr>)"
proof -
  have "(wanted_by echo_wants (echo_connections st))(fd \<mapsto> echo_wants c') =
      wanted_by echo_wants (echo_connections st)"
    using assms(2,5) by (intro wanted_by_same)
  moreover have "insert fd (dom (echo_connections st)) = dom (echo_connections st)"
    using assms(2) by auto
  ultimately show ?thesis
    using assms by (auto simp: echo_ok_def)
qed

lemma echo_modify_ok:
  assumes "echo_ok own st" "echo_connections st fd = Some c" "echo_settled c'" "conn_fd c' = fd"
  shows "\<exists>r. reactor_modify fd (echo_wants c') (echo_reactor st) = Inr r \<and>
    echo_ok own (st\<lparr>echo_connections := (echo_connections st)(fd \<mapsto> c'), echo_reactor := r\<rparr>)"
proof -
  have "registry_ok own EchoClient (echo_reactor st) (wanted_by echo_wants (echo_connections st))"
    using assms(1) by (simp add: echo_ok_def)
  from registry_modify [OF this, of fd "echo_wants c'"] assms(2) obtain r where
    "reactor_modify fd (echo_wants c') (echo_reactor st) = Inr r"
    "registry_ok own EchoClient r ((wanted_by echo_wants (echo_connections st))(fd \<mapsto> echo_wants c'))"
    by auto
  moreover have "insert fd (dom (echo_connections st)) = dom (echo_connections st)"
    using assms(2) by auto
  ultimately show ?thesis
    using assms by (auto simp: echo_ok_def)
qed

text \<open>
  What an event on a client may do to the server: the connection is closed, or it is settled with the
  same stream; every other connection is untouched.
\<close>

definition echo_handled :: "int set \<Rightarrow> int \<Rightarrow> Connection \<Rightarrow> echo_server \<Rightarrow> echo_server outcome \<Rightarrow> bool" where
  "echo_handled own fd c st out \<longleftrightarrow>
     (\<exists>st'. out = Some (Inr st') \<and> echo_ok own st' \<and>
        (\<forall>fd'. fd' \<noteq> fd \<longrightarrow> echo_connections st' fd' = echo_connections st fd') \<and>
        (\<forall>c'. echo_connections st' fd = Some c' \<longrightarrow> echo_stream c' = echo_stream c))"

lemma echo_handled_close:
  "echo_ok own st \<Longrightarrow> echo_connections st fd \<noteq> None \<Longrightarrow>
   echo_handled own fd c st (Some (Inr (echo_close_connection fd st)))"
  using echo_close_ok by (auto simp: echo_handled_def echo_close_connection_def)

lemma echo_handled_store:
  assumes "echo_ok own st" "echo_connections st fd = Some c" "echo_settled c'" "conn_fd c' = fd"
    and "echo_wants c' = echo_wants c" "echo_stream c' = echo_stream c"
  shows "echo_handled own fd c st (Some (Inr (st\<lparr>echo_connections := (echo_connections st)(fd \<mapsto> c')\<rparr>)))"
  using echo_store_ok [OF assms(1-5)] assms(6) by (simp add: echo_handled_def)

lemma echo_process_readable_handled:
  assumes "echo_ok own st" "echo_connections st fd = Some c" "conn_state c = kReading" "echo_config_ok config"
  shows "echo_handled own fd c st (echo_process_readable config fd st)"
proof -
  have c: "echo_settled c" "conn_fd c = fd" "unsent c = []" "unread c = []" "connection_ok c"
    using assms(1-3) by (auto simp: echo_ok_def echo_settled_def split: if_splits)
  obtain closes c1 where read: "read_available (echo_read_chunk_bytes config) c = (closes, c1)"
    by fastforce
  note r = read_available_result [OF c(5) _ read]
  have small: "echo_read_chunk_bytes config < 2 ^ 63"
    using assms(4) by (simp add: echo_config_ok_def)
  note r = r [OF small]
  have c1: "write_queue c1 = write_queue c" "conn_fd c1 = fd" "conn_state c1 = kReading"
    using r assms(3) c(2) by simp_all
  then have out1: "unsent c1 = []"
    using c(3) by (simp add: unsent_def)
  note [simp] = echo_process_readable_def
  show ?thesis
  proof (cases closes)
    case True
    with assms(1,2) read show ?thesis
      by (simp add: echo_handled_close)
  next
    case open_: False
    then have stream1: "unread c1 @ arriving (recvs (sock c1)) = arriving (recvs (sock c))"
      using r c(4) by simp
    have buf: "buffer_ok (read_buffer c1)"
      using r by (simp add: connection_ok_def)
    show ?thesis
    proof (cases "unread c1 = []")
      case True
      then have "buffer_empty (read_buffer c1)"
        using buf by (simp add: unread_def buffer_empty_ok)
      moreover have "echo_settled c1" "echo_wants c1 = echo_wants c" "echo_stream c1 = echo_stream c"
        using True r c c1 out1 stream1 assms(3)
        by (simp_all add: echo_settled_def echo_wants_def echo_stream_def)
      ultimately show ?thesis
        using assms(1,2) read open_ c1(2) by (simp add: echo_handled_store)
    next
      case False
      then have nonempty: "\<not> buffer_empty (read_buffer c1)"
        using buf by (simp add: unread_def buffer_empty_ok)
      obtain queued c2 where enq: "enqueue_output c1 (buffer_view (read_buffer c1)) = (queued, c2)"
        by fastforce
      note e = enqueue_output_result [OF _ enq]
      show ?thesis
      proof (cases queued)
        case False
        with assms(1,2) read open_ nonempty enq show ?thesis
          by (simp add: echo_handled_close)
      next
        case True
        define c3 where "c3 = c2\<lparr>read_buffer := buffer_clear (read_buffer c2)\<rparr>"
        have c2: "connection_ok c2" "unsent c2 = unread c1" "c2 = c1\<lparr>write_queue := write_queue c2\<rparr>"
          using e r True out1 buf by (simp_all add: unread_def buffer_view_ok)
        have c3: "connection_ok c3" "unsent c3 = unread c1" "unread c3 = []" "conn_fd c3 = fd"
            "conn_state c3 = kReading" "sock c3 = sock c1"
        proof -
          show "connection_ok c3"
            using c2(1) by (simp add: c3_def connection_ok_def) (simp add: buffer_clear_def)
          show "unsent c3 = unread c1"
            using c2(2) by (simp add: c3_def unsent_def)
          show "conn_fd c3 = fd" "conn_state c3 = kReading" "sock c3 = sock c1"
            using c1 arg_cong [where f = conn_fd, OF c2(3)] arg_cong [where f = conn_state, OF c2(3)]
              arg_cong [where f = sock, OF c2(3)] by (simp_all add: c3_def)
        qed (simp add: c3_def unread_def)
        obtain result c4 where flush: "flush_output c3 = Some (result, c4)" and d: "drained c3 c4"
            and "result = kFlushed \<Longrightarrow> unsent c4 = []" "result = kPending \<Longrightarrow> unsent c4 \<noteq> []"
          using flush_output_result [OF c3(1)] by blast
        note out = this
        have c4: "connection_ok c4" "unread c4 = []" "conn_fd c4 = fd" "conn_state c4 = kReading"
          using d c3 by (simp_all add: drained_def unread_def)
        have sent: "wire (sock c4) @ unsent c4 = wire (sock c) @ unread c1" "recvs (sock c4) = recvs (sock c1)"
          using d c3 r by (simp_all add: drained_def)
        have stream4: "echo_stream c4 = echo_stream c"
          using arg_cong [where f = "\<lambda>x. x @ arriving (recvs (sock c1))", OF sent(1)] sent(2) stream1 c c4(2)
          by (simp add: echo_stream_def)
        have eq: "echo_process_readable config fd st =
            (case flush_output c3 of
                     None \<Rightarrow> None
                   | Some (kFailed, c) \<Rightarrow> Some (Inr (echo_close_connection fd st))
                   | Some (kFlushed, c) \<Rightarrow>
                       Some (Inr (st\<lparr>echo_connections := (echo_connections st)(fd \<mapsto> c)\<rparr>))
                   | Some (kPending, c) \<Rightarrow>
                       let c = c\<lparr>conn_state := kWriting\<rparr>;
                           st = st\<lparr>echo_connections := (echo_connections st)(fd \<mapsto> c)\<rparr> in
                       (case reactor_modify fd kWritable (echo_reactor st) of
                          Inl e \<Rightarrow> Some (Inl e)
                        | Inr r \<Rightarrow> Some (Inr (st\<lparr>echo_reactor := r\<rparr>))))"
          using assms(2) read open_ nonempty enq True by (simp add: c3_def)
        show ?thesis
        proof (cases result)
          case kFailed
          with assms(1,2) show ?thesis
            unfolding eq flush by (simp add: echo_handled_close)
        next
          case kFlushed
          then have "echo_settled c4" "echo_wants c4 = echo_wants c"
            using c4 out assms(3) by (simp_all add: echo_settled_def echo_wants_def)
          with kFlushed assms(1,2) c4 stream4 show ?thesis
            unfolding eq flush by (simp add: echo_handled_store)
        next
          case kPending
          let ?c5 = "c4\<lparr>conn_state := kWriting\<rparr>"
          have c5: "echo_settled ?c5" "conn_fd ?c5 = fd" "echo_wants ?c5 = kWritable"
              "echo_stream ?c5 = echo_stream c"
            using c4 out kPending stream4
            by (simp_all add: echo_settled_def echo_wants_def echo_stream_def connection_ok_def unread_def unsent_def)
          from echo_modify_ok [OF assms(1,2) c5(1,2)] c5(3) obtain r where
            "reactor_modify fd kWritable (echo_reactor st) = Inr r"
            "echo_ok own (st\<lparr>echo_connections := (echo_connections st)(fd \<mapsto> ?c5), echo_reactor := r\<rparr>)"
            by auto
          with kPending c5(4) show ?thesis
            unfolding eq flush by (simp add: echo_handled_def)
        qed
      qed
    qed
  qed
qed

lemma echo_readable_part_handled:
  assumes "echo_ok own st" "echo_connections st fd = Some c" "echo_config_ok config"
  shows "echo_handled own fd c st (echo_readable_part config fd events c st)"
  using assms echo_process_readable_handled by (auto simp: echo_readable_part_def echo_handled_def)

text \<open>The second half of an event runs on the state the first half leaves.\<close>

lemma echo_handled_after:
  assumes "echo_handled own fd c1 st1 out" "echo_stream c1 = echo_stream c"
    and "\<forall>fd'. fd' \<noteq> fd \<longrightarrow> echo_connections st1 fd' = echo_connections st fd'"
  shows "echo_handled own fd c st out"
  using assms by (auto simp: echo_handled_def)

lemma echo_client_event_handled:
  assumes "echo_ok own st" "echo_connections st fd = Some c" "echo_config_ok config"
  shows "echo_handled own fd c st (echo_on_client_event config fd events st)"
proof (cases "events AND (EPOLLERR OR EPOLLHUP) \<noteq> 0")
  case True
  with assms(1,2) show ?thesis
    by (simp add: echo_on_client_event_def echo_handled_close)
next
  case up: False
  have c: "echo_settled c" "conn_fd c = fd" "connection_ok c"
    using assms(1,2) by (auto simp: echo_ok_def echo_settled_def)
  show ?thesis
  proof (cases "events AND kWritable \<noteq> 0")
    case False
    with up assms show ?thesis
      by (simp add: echo_on_client_event_def echo_readable_part_handled)
  next
    case True
    obtain result c1 where flush: "flush_output c = Some (result, c1)" and d: "drained c c1"
        and out: "result = kFlushed \<Longrightarrow> unsent c1 = []" "result = kPending \<Longrightarrow> unsent c1 \<noteq> []"
      using flush_output_result [OF c(3)] by blast
    have c1: "connection_ok c1" "unread c1 = []" "conn_fd c1 = fd" "conn_state c1 = conn_state c"
      using d c by (simp_all add: drained_def unread_def echo_settled_def)
    have sent: "wire (sock c1) @ unsent c1 = wire (sock c) @ unsent c" "recvs (sock c1) = recvs (sock c)"
        "length (unsent c1) \<le> length (unsent c)"
      using d by (simp_all add: drained_def)
    have stream: "echo_stream c1 = echo_stream c"
      using arg_cong [where f = "\<lambda>x. x @ arriving (recvs (sock c))", OF sent(1)] sent(2) c c1(2)
      by (simp add: echo_stream_def echo_settled_def)
    have eq: "echo_on_client_event config fd events st =
       (case flush_output c of
             None \<Rightarrow> None
           | Some (kFailed, c) \<Rightarrow> Some (Inr (echo_close_connection fd st))
           | Some (kFlushed, c) \<Rightarrow>
               let c = c\<lparr>conn_state := kReading\<rparr>;
                   st = st\<lparr>echo_connections := (echo_connections st)(fd \<mapsto> c)\<rparr> in
               (case reactor_modify fd kReadable (echo_reactor st) of
                  Inl e \<Rightarrow> Some (Inl e)
                | Inr r \<Rightarrow> echo_readable_part config fd events c (st\<lparr>echo_reactor := r\<rparr>))
           | Some (kPending, c) \<Rightarrow>
               echo_readable_part config fd events c
                 (st\<lparr>echo_connections := (echo_connections st)(fd \<mapsto> c)\<rparr>))"
      using up True assms(2) by (simp add: echo_on_client_event_def)
    show ?thesis
    proof (cases result)
      case kFailed
      with assms(1,2) show ?thesis
        unfolding eq flush by (simp add: echo_handled_close)
    next
      case kFlushed
      let ?c = "c1\<lparr>conn_state := kReading\<rparr>"
      have c2: "echo_settled ?c" "conn_fd ?c = fd" "echo_wants ?c = kReadable" "echo_stream ?c = echo_stream c"
        using c1 out(1) [OF kFlushed] stream
        by (simp_all add: echo_settled_def echo_wants_def echo_stream_def connection_ok_def unread_def unsent_def)
      from echo_modify_ok [OF assms(1,2) c2(1,2)] c2(3) obtain r where
        r: "reactor_modify fd kReadable (echo_reactor st) = Inr r"
        "echo_ok own (st\<lparr>echo_connections := (echo_connections st)(fd \<mapsto> ?c), echo_reactor := r\<rparr>)"
        by auto
      have "echo_handled own fd c st (echo_readable_part config fd events ?c
          (st\<lparr>echo_connections := (echo_connections st)(fd \<mapsto> ?c), echo_reactor := r\<rparr>))"
        by (rule echo_handled_after [OF echo_readable_part_handled [OF r(2) _ assms(3)]]) (use c2(4) in simp_all)
      with kFlushed r(1) show ?thesis
        unfolding eq flush by (simp add: Let_def)
    next
      case kPending
      then have "unsent c \<noteq> []"
        using out(2) sent(3) by auto
      then have c2: "echo_settled c1" "echo_wants c1 = echo_wants c"
        using c c1 out(2) [OF kPending] by (simp_all add: echo_settled_def echo_wants_def)
      have "echo_ok own (st\<lparr>echo_connections := (echo_connections st)(fd \<mapsto> c1)\<rparr>)"
        by (rule echo_store_ok [OF assms(1,2) c2(1) c1(3) c2(2)])
      then have "echo_handled own fd c st (echo_readable_part config fd events c1
          (st\<lparr>echo_connections := (echo_connections st)(fd \<mapsto> c1)\<rparr>))"
        by (rule echo_handled_after [OF echo_readable_part_handled [OF _ _ assms(3)]]) (use stream in simp_all)
      with kPending show ?thesis
        unfolding eq flush by simp
    qed
  qed
qed

lemma echo_listener_ok:
  assumes "echo_ok own st" "echo_config_ok config" "distinct (accepted_fds pending)"
    and "set (accepted_fds pending) \<inter> (own \<union> dom (echo_connections st)) = {}"
    and "echo_on_listener_readable config fresh pending st = Some (Inr st')"
  shows "echo_ok own st' \<and> (\<forall>fd. echo_connections st fd \<noteq> None \<longrightarrow> echo_connections st' fd = echo_connections st fd)"
  using assms
proof (induction "length pending" arbitrary: pending st rule: less_induct)
  case less
  obtain answer later where answer: "accept_nonblocking pending = (answer, later)"
    by fastforce
  note run = less.prems(5) [unfolded echo_on_listener_readable.simps [of config fresh pending st] answer, simplified]
  show ?case
  proof (cases answer)
    case (Inl e)
    with run show ?thesis
      by simp
  next
    case Inr: (Inr got)
    show ?thesis
    proof (cases got)
      case None
      with run Inr less.prems(1) show ?thesis
        by simp
    next
      case (Some fd)
      obtain peer_name s where made: "fresh fd = (peer_name, s)"
        by fastforce
      define c where "c = new_connection fd peer_name (echo_max_output_queue_bytes config)
                    (echo_max_read_buffer_bytes config) s"
      define st1 where "st1 = st\<lparr>echo_connections := (echo_connections st)(fd \<mapsto> c),
          echo_accepted := echo_accepted st + 1\<rparr>"
      have fds: "accepted_fds pending = fd # accepted_fds later"
        using accepted_fds_next answer Inr Some by simp
      then have new: "fd \<notin> own" "echo_connections st fd = None"
        using less.prems(4) by auto
      have c: "echo_settled c" "conn_fd c = fd" "echo_wants c = kReadable"
        using new_connection_ok less.prems(2)
        by (simp_all add: c_def echo_settled_def echo_config_ok_def echo_wants_def)
          (simp_all add: new_connection_def)
      have "registry_ok own EchoClient (echo_reactor st) (wanted_by echo_wants (echo_connections st))"
        using less.prems(1) by (simp add: echo_ok_def)
      from registry_add [OF this new(1), of kReadable] new(2) obtain r where
        r: "reactor_add fd kReadable EchoClient (echo_reactor st) = Inr r"
        "registry_ok own EchoClient r ((wanted_by echo_wants (echo_connections st))(fd \<mapsto> kReadable))"
        by auto
      have "card (insert fd (dom (echo_connections st))) = Suc (card (dom (echo_connections st)))"
        using less.prems(1) new(2) by (intro card_insert_disjoint) (auto simp: echo_ok_def)
      then have "echo_ok own (st1\<lparr>echo_reactor := r\<rparr>)"
        using less.prems(1) r(2) c by (auto simp: echo_ok_def st1_def)
      moreover have "echo_on_listener_readable config fresh later (st1\<lparr>echo_reactor := r\<rparr>) = Some (Inr st')"
        using run Inr Some made r(1) new(2) by (simp add: st1_def c_def Let_def)
      moreover have "set (accepted_fds later) \<inter> (own \<union> dom (echo_connections (st1\<lparr>echo_reactor := r\<rparr>))) = {}"
        "distinct (accepted_fds later)"
        using less.prems(3,4) fds by (auto simp: st1_def)
      moreover have "length later < length pending"
        using accept_nonblocking_shrinks answer Inr Some by (metis (no_types))
      ultimately have "echo_ok own st' \<and> (\<forall>fd'. echo_connections (st1\<lparr>echo_reactor := r\<rparr>) fd' \<noteq> None \<longrightarrow>
          echo_connections st' fd' = echo_connections (st1\<lparr>echo_reactor := r\<rparr>) fd')"
        using less.hyps less.prems(2) by blast
      then show ?thesis
        using new(2) by (auto simp: st1_def split: if_splits)
    qed
  qed
qed

subsection \<open>Every reachable state\<close>

text \<open>The reactor thread runs whatever callback a reported event finds.\<close>

inductive echo_step :: "echo_config \<Rightarrow> int set \<Rightarrow> echo_server \<Rightarrow> echo_server \<Rightarrow> bool"
  for config :: echo_config and own :: "int set" where
  dispatches: "distinct (accepted_fds pending) \<Longrightarrow>
    set (accepted_fds pending) \<inter> (own \<union> dom (echo_connections st)) = {} \<Longrightarrow>
    dispatch_ready echo_reactor (echo_invoke config fresh pending) fd events st = Some (Inr st') \<Longrightarrow>
    echo_step config own st st'"

inductive echo_reachable :: "echo_config \<Rightarrow> int \<Rightarrow> int \<Rightarrow> echo_server \<Rightarrow> bool"
  for config :: echo_config and listener :: int and wakeup :: int where
  echo_start: "new_echo_server listener wakeup = Inr st \<Longrightarrow> echo_reachable config listener wakeup st"
| echo_more: "echo_reachable config listener wakeup st \<Longrightarrow> echo_step config {listener, wakeup} st st' \<Longrightarrow>
    echo_reachable config listener wakeup st'"

lemma new_echo_server_ok:
  assumes "new_echo_server listener wakeup = Inr st"
  shows "echo_ok {listener, wakeup} st"
proof -
  obtain r where r: "reactor_add listener kReadable EchoListener (new_reactor wakeup) = Inr r"
      "st = \<lparr>echo_reactor = r, echo_connections = Map.empty, echo_accepted = 0, echo_closed = []\<rparr>"
    using assms by (auto simp: new_echo_server_def split: sum.splits)
  then show ?thesis
    by (auto simp: echo_ok_def registry_ok_def reactor_add_def new_reactor_def split: if_splits)
qed

lemma echo_step_ok:
  assumes "echo_step config own st st'" "echo_ok own st" "echo_config_ok config"
  shows "echo_ok own st'"
  using assms(1)
proof cases
  case (dispatches pending fresh fd events)
  have found: "echo_ok own st'" if "echo_invoke config fresh pending cb fd events st = Some (Inr st')" for cb
  proof (cases cb)
    case EchoListener
    with that echo_listener_ok [OF assms(2,3) dispatches(1,2)] show ?thesis
      by (simp add: echo_invoke_def)
  next
    case EchoClient
    show ?thesis
    proof (cases "echo_connections st fd")
      case None
      with that EchoClient assms(2) show ?thesis
        by (simp add: echo_invoke_def echo_on_client_event_def)
    next
      case (Some c)
      with that EchoClient echo_client_event_handled [OF assms(2) Some assms(3), of events] show ?thesis
        by (auto simp: echo_invoke_def echo_handled_def)
    qed
  qed
  show ?thesis
  proof (cases "callbacks (echo_reactor st) fd")
    case None
    with dispatches(3) assms(2) show ?thesis
      by (simp add: dispatch_ready_def)
  next
    case (Some cb)
    with dispatches(3) have "echo_invoke config fresh pending cb fd events st = Some (Inr st')"
      by (simp add: dispatch_ready_def)
    then show ?thesis
      by (rule found)
  qed
qed

lemma echo_reachable_ok:
  assumes "echo_reachable config listener wakeup st" "echo_config_ok config"
  shows "echo_ok {listener, wakeup} st"
  using assms by (induction rule: echo_reachable.induct) (auto intro: new_echo_server_ok echo_step_ok)

end
