(* ===== verification/Arc_Blocking_Server.thy ===== *)
theory Arc_Blocking_Server
  imports Arc_Serve
begin

text \<open>
  The single-threaded blocking server (server/blocking_server.hpp, server/blocking_server.cpp):
  \<open>handle_connection\<close>, the loop that feeds the parser with what was left over or read and answers each
  request, and \<open>serve\<close>, the loop that polls the listener until it is stopped.  A connection whose peer
  neither sends nor leaves keeps the server in the loop; the functions are then undefined.
\<close>

record blocking_config =
  port :: nat
  backlog :: int
  poll_interval_ms :: int
  max_keep_alive_requests :: nat
  read_chunk_bytes :: nat

definition default_blocking_config :: blocking_config where
  "default_blocking_config =
     \<lparr>port = 0, backlog = 128, poll_interval_ms = 100, max_keep_alive_requests = 1000,
      read_chunk_bytes = 8192\<rparr>"

text \<open>The loop: the parser, the bytes left over, the requests served and the socket.\<close>

partial_function (option) connection_loop ::
  "blocking_config \<Rightarrow> RequestHandler \<Rightarrow> parser \<Rightarrow> string \<Rightarrow> nat \<Rightarrow> socket \<Rightarrow> socket option" where
  "connection_loop config handler p leftover requests_served s =
     (case feed p leftover of (status, p, view) \<Rightarrow>
        let leftover = view in
        (case status of
           kNeedMoreData \<Rightarrow>
             (case read_some (read_chunk_bytes config) s of (data, io, s) \<Rightarrow>
                if io = IoClosed \<or> io = IoError then Some s
                else connection_loop config handler p (leftover @ data) requests_served s)
         | kError \<Rightarrow>
             (case write_all (serialize (error_response p)) s of (written, io, s) \<Rightarrow> Some s)
         | kComplete \<Rightarrow>
             (case answer handler (request p) of (reply, keep_alive) \<Rightarrow>
                (case write_all reply s of (written, io, s) \<Rightarrow>
                   if io \<noteq> IoOk then Some s
                   else
                     let requests_served = requests_served + 1 in
                     if \<not> keep_alive \<or> requests_served \<ge> max_keep_alive_requests config then Some s
                     else connection_loop config handler (reset p) leftover requests_served s))))"

definition handle_connection :: "blocking_config \<Rightarrow> RequestHandler \<Rightarrow> socket \<Rightarrow> socket option" where
  "handle_connection config handler client = connection_loop config handler new_parser [] 0 client"

subsection \<open>The accepting loop\<close>

text \<open>
  One turn of the loop in \<open>serve\<close>: what the flag holds when it is read, what \<open>poll\<close> answers, and when it
  answers that a connection is there, what the calls of \<open>accept\<close> answer and the socket.  When the turns
  run out the server is still waiting.
\<close>

datatype poll_outcome = PollErrno errno | PollTimeout | PollReady "errno list" "socket option"

datatype serve_end = Stopped | PollFailed | AcceptThrew | StillPolling

text \<open>
  \<open>TcpListener::accept\<close>: the errors before the connection, retried on EINTR; an error that is not
  EINTR is thrown.  With no connection after the retries the call blocks, as an accept that waits.
\<close>

fun accept :: "errno list \<Rightarrow> 'c option \<Rightarrow> (errno + 'c) option" where
  "accept [] client = map_option Inr client"
| "accept (e # es) client = (if e = EINTR then accept es client else Some (Inl e))"

text \<open>The sockets served, each as its connection left it, and how the loop ended.\<close>

fun serve_turns ::
  "blocking_config \<Rightarrow> RequestHandler \<Rightarrow> (bool \<times> poll_outcome) list \<Rightarrow> (socket list \<times> serve_end) option" where
  "serve_turns config handler [] = Some ([], StillPolling)"
| "serve_turns config handler ((stop_requested, ready) # turns) =
     (if stop_requested then Some ([], Stopped)
      else
        (case ready of
           PollErrno e \<Rightarrow> if e = EINTR then serve_turns config handler turns else Some ([], PollFailed)
         | PollTimeout \<Rightarrow> serve_turns config handler turns
         | PollReady errors client \<Rightarrow>
             (case accept errors client of
                None \<Rightarrow> None
              | Some (Inl e) \<Rightarrow> Some ([], AcceptThrew)
              | Some (Inr s) \<Rightarrow>
                  (case handle_connection config handler s of
                     None \<Rightarrow> None
                   | Some s' \<Rightarrow>
                       (case serve_turns config handler turns of
                          None \<Rightarrow> None
                        | Some (served, why) \<Rightarrow> Some (s' # served, why))))))"

subsection \<open>The connection loop returns\<close>

text \<open>
  The peer of a blocking socket goes away at last: an end of file or an error, and no call before it
  returns because it would block.
\<close>

fun hangs_up :: "recv_outcome list \<Rightarrow> bool" where
  "hangs_up [] = False"
| "hangs_up (RecvBytes d # later) = (d = [] \<or> hangs_up later)"
| "hangs_up (RecvErrno e # later) = (if e = EINTR then hangs_up later else e \<noteq> EAGAIN \<and> e \<noteq> EWOULDBLOCK)"

lemma read_some_hangs_up:
  assumes "read_some capacity s = (d, io, s')" "hangs_up (recvs s)"
  shows "io = IoClosed \<or> io = IoError \<or> io = IoOk \<and> d \<noteq> [] \<and> hangs_up (recvs s')"
  using assms
proof (induction capacity s rule: read_some.induct)
  case (1 capacity s)
  obtain out s1 where recv: "sys_recv capacity s = (out, s1)"
    by fastforce
  show ?case
  proof (cases out)
    case (RecvBytes d')
    then have "d' \<noteq> [] \<Longrightarrow> hangs_up (recvs s1)"
      using recv "1.prems"(2) by (auto simp: sys_recv_def split: list.splits recv_outcome.splits)
    with "1.prems"(1) recv RecvBytes show ?thesis
      by (auto simp: read_some.simps [of capacity s] split: if_splits)
  next
    case (RecvErrno e)
    then have up: "if e = EINTR then hangs_up (recvs s1) else e \<noteq> EAGAIN \<and> e \<noteq> EWOULDBLOCK"
      using recv "1.prems"(2) by (auto simp: sys_recv_def split: list.splits recv_outcome.splits if_splits)
    show ?thesis
    proof (cases "e = EINTR")
      case True
      with "1.prems"(1) recv RecvErrno have "read_some capacity s1 = (d, io, s')"
        by (simp add: read_some.simps [of capacity s])
      with "1.IH" [OF recv [symmetric] RecvErrno True] up True show ?thesis
        by simp
    next
      case False
      with "1.prems"(1) recv RecvErrno up show ?thesis
        by (auto simp: read_some.simps [of capacity s])
    qed
  qed
qed

definition bytes_left :: "string \<Rightarrow> socket \<Rightarrow> nat" where
  "bytes_left leftover s =
     2 * (length leftover + length (arriving (recvs s))) + (if leftover = [] then 1 else 0)"

text \<open>The three ways on from a turn, each with fewer bytes left.\<close>

lemma bytes_left_read:
  assumes "read_some capacity s = (d, IoOk, s')"
  shows "bytes_left d s' < bytes_left leftover s"
  using read_some_arriving [OF assms] by (cases "leftover = []") (auto simp: bytes_left_def)

lemma bytes_left_served:
  "length rest < length leftover \<Longrightarrow> recvs s' = recvs s \<Longrightarrow> bytes_left rest s' < bytes_left leftover s"
  by (auto simp: bytes_left_def)

lemma connection_loop_returns:
  assumes "parser_ok p" "hangs_up (recvs s)"
  shows "\<exists>s'. connection_loop config handler p leftover served s = Some s'"
  using assms
proof (induction "bytes_left leftover s" arbitrary: p leftover served s rule: less_induct)
  case less
  obtain status q rest where fed: "feed p leftover = (status, q, rest)"
    by (cases "feed p leftover") auto
  note step = connection_loop.simps [of config handler p leftover served s]
  show ?case
  proof (cases status)
    case kNeedMoreData
    obtain d io s1 where read: "read_some (read_chunk_bytes config) s = (d, io, s1)"
      by (metis prod_cases3)
    have q: "parser_ok q" "rest = []"
      using feed_ok [OF less.prems(1), of leftover] feed_waits [OF _ less.prems(1)] fed kNeedMoreData
      by auto
    show ?thesis
    proof (cases "io = IoClosed \<or> io = IoError")
      case True
      with step fed read kNeedMoreData show ?thesis
        by simp
    next
      case False
      with read_some_hangs_up [OF read less.prems(2)] have io: "io = IoOk" "hangs_up (recvs s1)"
        by simp_all
      have "bytes_left d s1 < bytes_left leftover s"
        using bytes_left_read read io by blast
      from less.hyps [OF this q(1) io(2)] show ?thesis
        using step fed read kNeedMoreData False q(2) by simp
    qed
  next
    case kError
    with step fed show ?thesis
      by (simp split: prod.split)
  next
    case kComplete
    obtain reply keep_alive where reply: "answer handler (request q) = (reply, keep_alive)"
      by fastforce
    obtain n io s1 where wrote: "write_all reply s = (n, io, s1)"
      by (metis prod_cases3)
    have "recvs s1 = recvs s"
      using write_all_wire [OF wrote] by simp
    moreover from this have "bytes_left rest s1 < bytes_left leftover s"
      using bytes_left_served feed_complete_shorter [OF less.prems(1)] fed kComplete by blast
    ultimately have "\<exists>s'. connection_loop config handler (reset q) rest (served + 1) s1 = Some s'"
      using less.hyps less.prems(2) by simp
    with step fed kComplete reply wrote show ?thesis
      by (simp add: Let_def)
  qed
qed

subsection \<open>The transcript\<close>

text \<open>The peer sends bytes, possibly with calls interrupted in between, and then ends its side.\<close>

fun ends_orderly :: "recv_outcome list \<Rightarrow> bool" where
  "ends_orderly [] = False"
| "ends_orderly (RecvBytes d # later) = (if d = [] then later = [] else ends_orderly later)"
| "ends_orderly (RecvErrno e # later) = (e = EINTR \<and> ends_orderly later)"

lemma sys_recv_orderly:
  assumes "sys_recv capacity s = (out, s')" "ends_orderly (recvs s)" "0 < capacity"
  shows "(out = RecvBytes [] \<and> arriving (recvs s) = []) \<or>
    (\<exists>d. out = RecvBytes d \<and> d \<noteq> [] \<and> ends_orderly (recvs s')) \<or>
    (out = RecvErrno EINTR \<and> ends_orderly (recvs s'))"
  using assms by (auto simp: sys_recv_def split: list.splits recv_outcome.splits if_splits)

lemma read_some_orderly:
  assumes "read_some capacity s = (d, io, s')" "ends_orderly (recvs s)" "0 < capacity"
  shows "(io = IoClosed \<and> arriving (recvs s) = []) \<or> (io = IoOk \<and> d \<noteq> [] \<and> ends_orderly (recvs s'))"
  using assms
proof (induction capacity s rule: read_some.induct)
  case (1 capacity s)
  obtain out s1 where recv: "sys_recv capacity s = (out, s1)"
    by fastforce
  from sys_recv_orderly [OF recv "1.prems"(2,3)] show ?case
  proof (elim disjE exE conjE)
    assume again: "out = RecvErrno EINTR" "ends_orderly (recvs s1)"
    with "1.prems"(1) recv have "read_some capacity s1 = (d, io, s')"
      by (simp add: read_some.simps [of capacity s])
    with "1.IH" [OF recv [symmetric] again(1) refl] again(2) "1.prems"(3)
      sys_recv_arriving [OF recv] again(1) show ?thesis
      by simp
  qed (use "1.prems"(1) recv in \<open>auto simp: read_some.simps [of capacity s]\<close>)
qed

text \<open>
  The kernel takes at least one byte in each \<open>send\<close> or is interrupted, and takes something at least as often as
  there are bytes to go.
\<close>

definition willing :: "nat \<Rightarrow> socket \<Rightarrow> bool" where
  "willing n s \<longleftrightarrow> (\<forall>out\<in>set (sends s). out = SendErrno EINTR \<or> (\<exists>k>0. out = Sent k)) \<and>
     n \<le> length (filter (\<lambda>out. out \<noteq> SendErrno EINTR) (sends s))"

lemma write_all_loop_willing:
  assumes "willing (length data - written + n) s" "written \<le> length data"
    and "write_all_loop data written s = (k, io, s')"
  shows "io = IoOk \<and> willing n s'"
  using assms
proof (induction data written s rule: write_all_loop.induct)
  case (1 data written s)
  show ?case
  proof (cases "written < length data")
    case False
    then have "write_all_loop data written s = (written, IoOk, s)"
      unfolding write_all_loop.simps [of data written s] by simp
    with "1.prems" show ?thesis
      by (auto simp: willing_def)
  next
    case True
    then obtain first later where later: "sends s = first # later"
      using "1.prems"(1) by (cases "sends s") (auto simp: willing_def)
    show ?thesis
    proof (cases "first = SendErrno EINTR")
      case eintr: True
      define s1 where "s1 = s\<lparr>sends := later\<rparr>"
      have send: "sys_send (drop written data) s = (SendErrno EINTR, s1)"
        using later eintr by (simp add: sys_send_def s1_def)
      have "willing (length data - written + n) s1"
        using "1.prems"(1) later eintr by (simp add: willing_def s1_def)
      moreover have "write_all_loop data written s1 = (k, io, s')"
        using "1.prems"(3) True send by (simp add: write_all_loop.simps [of data written s])
      ultimately show ?thesis
        using "1.IH"(2) [OF _ send [symmetric] refl refl] True "1.prems"(2) by simp
    next
      case False
      then obtain m where m: "sends s = Sent m # later" "0 < m"
        using "1.prems"(1) later by (auto simp: willing_def)
      define taken where "taken = min m (length data - written)"
      define s1 where "s1 = s\<lparr>sends := later, wire := wire s @ take m (drop written data)\<rparr>"
      have send: "sys_send (drop written data) s = (Sent taken, s1)" and pos: "0 < taken"
        using m True by (auto simp: sys_send_def taken_def s1_def)
      have "willing (length data - (written + taken) + n) s1"
        using "1.prems"(1) m pos True by (auto simp: willing_def s1_def)
      moreover have "write_all_loop data (written + taken) s1 = (k, io, s')"
        using "1.prems"(3) True send pos by (simp add: write_all_loop.simps [of data written s])
      moreover have "written + taken \<le> length data"
        using True by (simp add: taken_def)
      ultimately show ?thesis
        using "1.IH"(1) [OF _ send [symmetric] refl pos] True by simp
    qed
  qed
qed

lemma write_all_willing:
  assumes "willing (length data + n) s" "write_all data s = (k, io, s')"
  shows "io = IoOk \<and> willing n s' \<and> wire s' = wire s @ data \<and> recvs s' = recvs s"
  using write_all_loop_willing [of data 0 n s k io s'] write_all_wire [OF assms(2)] assms
  by (simp add: write_all_def)

text \<open>
  Whatever the pieces in which the requests arrive, the loop writes the replies of the reference, in
  order, and returns.
\<close>

lemma connection_loop_transcript:
  assumes "carries p a" "\<forall>rq\<in>set rqs. deliverable rq"
    and "a @ leftover @ arriving (recvs s) = render_all rqs" "leftover = [] \<longrightarrow> a = []"
    and "ends_orderly (recvs s)" "0 < read_chunk_bytes config"
    and "willing (length (serve handler (max_keep_alive_requests config) served rqs)) s"
  shows "\<exists>s'. connection_loop config handler p leftover served s = Some s' \<and>
    wire s' = wire s @ serve handler (max_keep_alive_requests config) served rqs"
  using assms
proof (induction "bytes_left leftover s" arbitrary: p a leftover served s rqs rule: less_induct)
  case less
  note step = connection_loop.simps [of config handler p leftover served s]
  let ?max = "max_keep_alive_requests config"
  have cases: "(\<exists>q. feed p leftover = (kNeedMoreData, q, []) \<and> carries q (a @ leftover)) \<or>
    (\<exists>q rq rqs' rest. rqs = rq # rqs' \<and> feed p leftover = (kComplete, q, rest) \<and> request q = rq \<and>
       rest @ arriving (recvs s) = render_all rqs' \<and> length rest < length leftover)"
  proof (cases "leftover = []")
    case True
    with less.prems(1,4) show ?thesis
      by (auto simp: carries_def feed_nothing)
  next
    case False
    from feed_stream [OF less.prems(1,2,3) this] show ?thesis .
  qed
  from this show ?case
  proof (elim disjE exE conjE)
    fix q assume fed: "feed p leftover = (kNeedMoreData, q, [])" and q: "carries q (a @ leftover)"
    obtain d io s1 where read: "read_some (read_chunk_bytes config) s = (d, io, s1)"
      by (metis prod_cases3)
    note arrived = read_some_arriving [OF read]
    from read_some_orderly [OF read less.prems(5,6)] show ?thesis
    proof (elim disjE conjE)
      assume eof: "io = IoClosed" "arriving (recvs s) = []"
      have "rqs = []"
      proof (cases rqs)
        case (Cons rq rqs')
        have "a @ leftover \<noteq> [] \<and> \<not> (\<exists>q. feed p leftover = (kNeedMoreData, q, []))"
        proof -
          have whole: "a @ leftover = render_request rq @ render_all rqs'"
            using less.prems(3) eof(2) Cons by simp
          then have "leftover \<noteq> []"
            using less.prems(4) by auto
          from feed_rendered_all [OF less.prems(1) _ whole this] less.prems(2) Cons whole show ?thesis
            by auto
        qed
        with fed show ?thesis
          by blast
      qed simp
      with step fed read eof arrived show ?thesis
        by simp
    next
      assume io: "io = IoOk" "d \<noteq> []" "ends_orderly (recvs s1)"
      have smaller: "bytes_left d s1 < bytes_left leftover s"
        using bytes_left_read read io(1) by blast
      have "willing (length (serve handler ?max served rqs)) s1"
        using less.prems(7) arrived by (simp add: willing_def)
      moreover have "(a @ leftover) @ d @ arriving (recvs s1) = render_all rqs"
        using less.prems(3) arrived by simp
      ultimately have "\<exists>s'. connection_loop config handler q d served s1 = Some s' \<and>
          wire s' = wire s1 @ serve handler ?max served rqs"
        using less.hyps [OF smaller q less.prems(2)] io less.prems(6) by simp
      with step fed read io arrived show ?thesis
        by simp
    qed
  next
    fix q rq rqs' rest
    assume rqs: "rqs = rq # rqs'" and fed: "feed p leftover = (kComplete, q, rest)" "request q = rq"
      and rest: "rest @ arriving (recvs s) = render_all rqs'" "length rest < length leftover"
    obtain reply keep_alive where reply: "answer handler rq = (reply, keep_alive)"
      by fastforce
    obtain n io s1 where wrote: "write_all reply s = (n, io, s1)"
      by (metis prod_cases3)
    define more where "more = (if \<not> keep_alive \<or> served + 1 \<ge> ?max then []
        else serve handler ?max (served + 1) rqs')"
    have spec: "serve handler ?max served rqs = reply @ more"
      by (simp add: rqs reply more_def)
    have io: "io = IoOk" "willing (length more) s1" "wire s1 = wire s @ reply" "recvs s1 = recvs s"
      using write_all_willing [OF _ wrote, of "length more"] less.prems(7) spec by simp_all
    show ?thesis
    proof (cases "\<not> keep_alive \<or> served + 1 \<ge> ?max")
      case True
      with step fed reply wrote io(1,3) spec show ?thesis
        by (simp add: Let_def more_def)
    next
      case False
      have "bytes_left rest s1 < bytes_left leftover s"
        using bytes_left_served [OF rest(2) io(4)] .
      then have "\<exists>s'. connection_loop config handler new_parser rest (served + 1) s1 = Some s' \<and>
          wire s' = wire s1 @ serve handler ?max (served + 1) rqs'"
        using less.prems(2,5,6) rest(1) io(2,4) False rqs
        by (intro less.hyps [where a = "[]"]) (auto simp: more_def)
      with step fed reply wrote io(1,3) spec False show ?thesis
        by (simp add: Let_def more_def)
    qed
  qed
qed

end
