(* ===== verification/Arc_Server_Properties.thy ===== *)
theory Arc_Server_Properties
  imports Arc_Http_Demo Arc_Echo_Server Arc_Blocking_Server
begin

text \<open>
  The properties of ArcServe's servers and of the parts they are built from, each with the concrete
  instance that shows its hypotheses can hold.
\<close>

lemma demo_deliverable: "deliverable demo_request"
  using demo_sendable by (simp add: deliverable_def request_line_def demo_request_simps kMaxRequestLineLength_def)

lemma registryD:
  assumes "registry_ok own client r wants" "wants fd = Some m"
  shows "interest r fd = Some m" "callbacks r fd = Some client"
proof -
  have "fd \<notin> own"
    using assms by (auto simp: registry_ok_def)
  with assms show "interest r fd = Some m" "callbacks r fd = Some client"
    by (simp_all add: registry_ok_def)
qed

text \<open>C6: The blocking server answers as the reference says.  Whatever the pieces in which the peer's
  requests arrive, whatever calls are interrupted and however little each \<open>send\<close> takes, the server
  returns from the connection having written exactly the replies to the requests, in order, up to the
  first one that ends the connection.\<close>

theorem blocking_replies_are_the_transcript:
  assumes "\<forall>rq\<in>set rqs. deliverable rq" "arriving (recvs s) = render_all rqs" "ends_orderly (recvs s)"
    and "0 < read_chunk_bytes config"
    and "willing (length (serve handler (max_keep_alive_requests config) 0 rqs)) s"
  shows "\<exists>s'. handle_connection config handler s = Some s' \<and>
    wire s' = wire s @ serve handler (max_keep_alive_requests config) 0 rqs"
  unfolding handle_connection_def
  by (rule connection_loop_transcript [OF carries_new assms(1) _ _ assms(3-5)]) (simp_all add: assms(2))

theorem blocking_replies_are_the_transcript_witness:
  "\<exists>s'. handle_connection default_blocking_config default_route
      \<lparr>recvs = [RecvBytes (take 10 (render_request demo_request)), RecvErrno EINTR,
         RecvBytes (drop 10 (render_request demo_request)), RecvBytes []],
       sends = [SendErrno EINTR, Sent 5, SendErrno EINTR] @
         replicate (length (serve default_route 1000 0 [demo_request])) (Sent 1), wire = []\<rparr> = Some s' \<and>
    wire s' = serve default_route 1000 0 [demo_request]"
proof -
  have "take 10 (render_request demo_request) \<noteq> []" "drop 10 (render_request demo_request) \<noteq> []"
    by (simp_all add: render_request_def request_line_def demo_request_simps)
  then show ?thesis
    using blocking_replies_are_the_transcript [of "[demo_request]"
        "\<lparr>recvs = [RecvBytes (take 10 (render_request demo_request)), RecvErrno EINTR,
           RecvBytes (drop 10 (render_request demo_request)), RecvBytes []],
         sends = [SendErrno EINTR, Sent 5, SendErrno EINTR] @
           replicate (length (serve default_route 1000 0 [demo_request])) (Sent 1), wire = []\<rparr>"
        default_blocking_config default_route] demo_deliverable
    by (simp add: willing_def default_blocking_config_def del: serve.simps)
qed

text \<open>C5: The reactor's server answers as the same reference says.  A connection accepted in any reachable
  state of a server without a pool, whose client sends these requests in any pieces, has at every later
  moment been sent a prefix of the reference transcript, whatever the other connections do; once it has
  been read and drained to the end and is still open, it has been sent all of it.\<close>

theorem reactor_replies_are_the_transcript:
  assumes "http_starts listener wakeup completion_fd config False st0" "http_config_ok config"
    and "inline_run config (\<lambda>rq. Some (route rq)) (own_fds listener wakeup completion_fd False) st0 st1"
    and "accept_one config fresh fd st1 = Inr st2" "connections st1 fd = None"
    and "fd \<notin> own_fds listener wakeup completion_fd False"
    and "fresh fd = (peer_name, s)" "\<forall>rq\<in>set rqs. deliverable rq"
    and "arriving (recvs s) = render_all rqs" "wire s = []"
    and "inline_run config (\<lambda>rq. Some (route rq)) (own_fds listener wakeup completion_fd False) st2 st3"
  shows "let transcript = serve route (http_max_keep_alive_requests config) 0 rqs;
             c = base (objects st3 (next_object st1)) in
    (\<exists>rest. transcript = wire (sock c) @ rest) \<and>
    (connections st3 fd = Some (next_object st1) \<longrightarrow> conn_state c = kReading \<longrightarrow>
       arriving (recvs (sock c)) = [] \<longrightarrow> unsent c = [] \<longrightarrow> wire (sock c) = transcript)"
proof -
  let ?own = "own_fds listener wakeup completion_fd False" and ?i = "next_object st1"
  let ?S = "serve route (http_max_keep_alive_requests config) 0 rqs"
  obtain unused where "new_http_server listener wakeup completion_fd config None unused = Inr st0"
    using assms(1) by (auto simp: http_starts_def split: option.splits)
  then have "worker_pool st0 = None"
    by (auto simp: new_http_server_def split: sum.splits)
  with inline_run_invariant [OF assms(3) http_starts_inv [OF assms(1)] assms(2)]
  have one: "http_inv True ?own {#} {} st1" "worker_pool st1 = None"
    by simp_all
  have two: "http_inv True ?own {#} {} st2"
    using accept_one_inv [OF one(1) assms(6,5,2), of fresh] assms(4) by simp
  note open_ = accepted_converses [OF assms(4,5,7,2,8,9,10), of route "http_max_keep_alive_requests config"]
  have "converses_on route (http_max_keep_alive_requests config) ?S fd ?i st3"
    using inline_run_converses [OF assms(11) two assms(2)] open_ one(2) by simp
  then show ?thesis
    using conversing_done [of route _ ?S "objects st3 ?i"] by (auto simp: converses_on_def told_def Let_def)
qed


theorem reactor_replies_are_the_transcript_witness:
  "\<exists>st0 st2 st3.
     http_starts 3 4 5 demo_config False st0 \<and>
     accept_one demo_config (\<lambda>fd. (''peer'', demo_socket [] [Sent 4096])) 7 st0 = Inr st2 \<and>
     inline_run demo_config (\<lambda>rq. Some (default_route rq)) (own_fds 3 4 5 False) st2 st3 \<and>
     (\<exists>rest. serve default_route 1000 0 [demo_request] = wire (sock (base (objects st3 (next_object st0)))) @ rest)"
proof -
  let ?handler = "\<lambda>rq. Some (default_route rq)" and ?own = "own_fds 3 4 5 False"
  let ?fresh = "\<lambda>fd::int. (''peer'', demo_socket [] [Sent 4096])"
  define st0 where "st0 = \<lparr>http_reactor = \<lparr>interest = [4 \<mapsto> EPOLLIN, 3 \<mapsto> kReadable],
       callbacks = [3 \<mapsto> OnListenerReadable], stop_requested = False, wakeup_ticks = 0\<rparr>,
     connections = Map.empty, objects = objects (demo_start (demo_socket [] [])), next_object = 0,
     worker_pool = None, completion_queue = None, connections_accepted = 0, closed_fds = []\<rparr>"
  have "new_http_server 3 4 5 demo_config None (objects (demo_start (demo_socket [] []))) = Inr st0"
    by (simp add: new_http_server_def reactor_add_def new_reactor_def st0_def)
  then have starts: "http_starts 3 4 5 demo_config False st0"
    unfolding http_starts_def by force
  have inv0: "http_inv True ?own {#} {} st0"
    by (rule http_starts_inv [OF starts])
  obtain st2 where st2: "accept_one demo_config ?fresh 7 st0 = Inr st2" "http_inv True ?own {#} {} st2"
      "connections st2 = (connections st0)(7 \<mapsto> next_object st0)"
    using accept_one_inv [OF inv0 _ _ demo_config_ok, of 7 ?fresh] by (auto simp: own_fds_def st0_def)
  have here: "callbacks (http_reactor st2) 7 = Some OnClientEvent" "connections st2 7 = Some 0"
      "recvs (sock (base (objects st2 0))) = [RecvBytes (render_request demo_request)]"
    using st2(1) by (auto simp: accept_one_def st0_def reactor_add_def new_http_connection_def
        new_connection_def demo_socket_def Let_def)
  obtain st3 where "on_client_event demo_config ?handler 7 kReadable st2 = Some (Inr st3)"
    using on_client_event_safely [OF st2(2), of demo_config ?handler 7 kReadable]
    by (auto simp: safely_def demo_config_def)
  then have "dispatch_ready http_reactor (invoke demo_config ?handler ?fresh []) 7 kReadable st2 = Some (Inr st3)"
    using here by (simp add: dispatch_ready_def invoke_def)
  then have run: "inline_run demo_config ?handler ?own st2 st3"
    using here by (intro run_event [OF run_start, where pending = "[]" and fd = 7]) simp_all
  have "arriving (recvs (demo_socket [] [Sent 4096])) = render_all [demo_request]"
    by (simp add: demo_socket_def)
  then have "\<exists>rest. serve default_route 1000 0 [demo_request] =
      wire (sock (base (objects st3 (next_object st0)))) @ rest"
    using reactor_replies_are_the_transcript [OF starts demo_config_ok run_start st2(1) _ _ refl, of "[demo_request]"]
      run demo_deliverable
    by (simp add: st0_def own_fds_def demo_config_def demo_socket_def Let_def del: serve.simps)
  with starts st2(1) run show ?thesis
    by blast
qed


text \<open>
  What \<open>accept\<close> and \<open>fcntl\<close> may answer without an exception from the listener's callback: a descriptor that
  can be made nonblocking, or one of the errors \<open>accept_nonblocking\<close> takes for "nothing to accept".
\<close>

definition tolerated :: "accept_outcome \<Rightarrow> bool" where
  "tolerated out = (case out of
     Accepted fd getfl setfl_ok \<Rightarrow> (case set_nonblocking getfl setfl_ok of Inl e \<Rightarrow> False | Inr flags \<Rightarrow> True)
   | AcceptErrno e \<Rightarrow> e \<in> {EINTR, EAGAIN, EWOULDBLOCK, EMFILE, ENFILE, ECONNABORTED, EPROTO})"

lemma accept_nonblocking_tolerated:
  assumes "accept_nonblocking pending = (result, later)" "\<forall>out\<in>set pending. tolerated out"
  shows "(\<exists>got. result = Inr got) \<and> set later \<subseteq> set pending"
  using assms
  by (induction pending rule: accept_nonblocking.induct) (auto simp: tolerated_def split: sum.splits if_splits)

lemma on_listener_readable_returns:
  assumes "http_inv exact own busy {} st" "http_config_ok config" "distinct (accepted_fds pending)"
    and "set (accepted_fds pending) \<inter> (own \<union> dom (connections st)) = {}"
    and "\<forall>out\<in>set pending. tolerated out"
  shows "\<exists>st'. on_listener_readable config fresh pending st = Some (Inr st')"
  using assms
proof (induction "length pending" arbitrary: pending st rule: less_induct)
  case less
  obtain answer later where answer: "accept_nonblocking pending = (answer, later)"
    by fastforce
  note unroll = on_listener_readable.simps [of config fresh pending st, unfolded answer, simplified]
  from accept_nonblocking_tolerated [OF answer less.prems(5)]
  obtain got where got: "answer = Inr got" "set later \<subseteq> set pending"
    by blast
  show ?case
  proof (cases got)
    case None
    with unroll got show ?thesis
      by simp
  next
    case (Some fd)
    have fds: "accepted_fds pending = fd # accepted_fds later"
      using accepted_fds_next answer got Some by simp
    then have "fd \<notin> own" "connections st fd = None"
      using less.prems(4) by auto
    from accept_one_inv [OF less.prems(1) this less.prems(2)] obtain st1 where
      st1: "accept_one config fresh fd st = Inr st1" "http_inv exact own busy {} st1"
        "connections st1 = (connections st)(fd \<mapsto> next_object st)"
      by blast
    moreover have "set (accepted_fds later) \<inter> (own \<union> dom (connections st1)) = {}"
      "distinct (accepted_fds later)" "\<forall>out\<in>set later. tolerated out"
      using less.prems(3-5) fds st1(3) got(2) by auto
    moreover have "length later < length pending"
      using accept_nonblocking_shrinks answer got Some by (metis (no_types))
    ultimately have "\<exists>st'. on_listener_readable config fresh later st1 = Some (Inr st')"
      using less.hyps less.prems(2) by blast
    with unroll got Some st1(1) show ?thesis
      by simp
  qed
qed

text \<open>C7: The books of the HTTP server.  In every reachable state of a server with a valid configuration, with a pool or without, with workers and
  events in any order and handlers that never throw, every open connection is registered with the reactor
  under its own descriptor with the interest its state asks for; it waits for the pool exactly when one
  piece of work is under way for it, never more; and every accepted connection is open or closed.  No
  callback throws then: an event on any client descriptor and the arrival of completed results are always
  handled, and so is an event on the listener as long as \<open>accept\<close> and \<open>fcntl\<close> answer as documented.\<close>

theorem http_server_books_balance:
  assumes "http_starts listener wakeup completion_fd config has_pool st0" "http_config_ok config"
    and "\<forall>rq. handler rq \<noteq> None"
    and "http_reachable config handler (own_fds listener wakeup completion_fd has_pool) st0 st"
  shows "(\<forall>fd i. connections st fd = Some i \<longrightarrow>
      conn_fd (base (objects st i)) = fd \<and>
      interest (http_reactor st) fd = Some (http_wants (objects st i)) \<and>
      callbacks (http_reactor st) fd = Some OnClientEvent \<and>
      Multiset.count (in_flight st) i = (if awaiting_worker_result (objects st i) then 1 else 0)) \<and>
    connections_accepted st = card (dom (connections st)) + length (closed_fds st) \<and>
    (\<forall>fd events. \<exists>st'. on_client_event config handler fd events st = Some (Inr st')) \<and>
    (\<exists>st'. on_completion_readable config handler st = Some (Inr st')) \<and>
    (\<forall>pending fresh. distinct (accepted_fds pending) \<longrightarrow> (\<forall>out\<in>set pending. tolerated out) \<longrightarrow>
      set (accepted_fds pending) \<inter> (own_fds listener wakeup completion_fd has_pool \<union> dom (connections st)) = {} \<longrightarrow>
      (\<exists>st'. on_listener_readable config fresh pending st = Some (Inr st')))"
proof -
  let ?own = "own_fds listener wakeup completion_fd has_pool"
  have inv: "http_inv True ?own {#} {} st"
    using http_reachable_inv [OF assms(4) http_starts_inv [OF assms(1)] assms(2)] assms(3) by blast
  have "conn_fd (base (objects st i)) = fd \<and> interest (http_reactor st) fd = Some (http_wants (objects st i)) \<and>
      callbacks (http_reactor st) fd = Some OnClientEvent \<and>
      Multiset.count (in_flight st) i = (if awaiting_worker_result (objects st i) then 1 else 0)"
    if "connections st fd = Some i" for fd i
  proof -
    have "flight_ok True (Multiset.count (in_flight st) i) (awaiting_worker_result (objects st i))"
      "conn_fd (base (objects st i)) = fd"
      using http_invD [OF inv that] by (simp_all add: conn_inv_settled fd_of_def)
    with that registryD [OF http_inv_parts(1) [OF inv]] show ?thesis
      by (simp add: wants_of_def flight_ok_def)
  qed
  moreover have "connections_accepted st = card (dom (connections st)) + length (closed_fds st)"
    using inv by (simp add: http_inv_def)
  moreover have "\<exists>st'. on_client_event config handler fd events st = Some (Inr st')" for fd events
    using on_client_event_safely [OF inv, of config handler fd events] assms(2,3)
    by (auto simp: safely_def http_config_ok_def)
  moreover have "\<exists>st'. on_completion_readable config handler st = Some (Inr st')"
    using on_completion_readable_safely [OF inv, of handler config] assms(3) by (auto simp: safely_def)
  moreover have "\<exists>st'. on_listener_readable config fresh pending st = Some (Inr st')"
    if "distinct (accepted_fds pending)" "\<forall>out\<in>set pending. tolerated out"
      "set (accepted_fds pending) \<inter> (?own \<union> dom (connections st)) = {}" for pending fresh
    using on_listener_readable_returns [OF inv assms(2) that(1,3,2)] .
  ultimately show ?thesis
    by blast
qed

theorem http_server_books_balance_witness:
  "\<exists>st0 st. http_reachable demo_config (\<lambda>rq. Some default_response) (own_fds 3 4 5 True) st0 st \<and>
     awaiting_worker_result (objects st 0) \<and> Multiset.count (in_flight st) 0 = 1 \<and>
     (\<exists>st'. on_listener_readable demo_config (\<lambda>_. (''peer'', demo_socket [] []))
        [AcceptErrno EINTR, Accepted 8 (Some 0) True, AcceptErrno EAGAIN] st = Some (Inr st'))"
proof -
  let ?s = "demo_socket [] demo_outs" and ?handler = "\<lambda>rq. Some default_response"
  obtain b where run: "http_reachable demo_config ?handler (own_fds 3 4 5 True) (demo_start ?s)
      (demo_handed b ?s [] (Running demo_task))"
    using demo_taken [of "[]" ?handler demo_outs] by auto
  let ?st = "demo_handed b ?s [] (Running demo_task)"
  let ?pending = "[AcceptErrno EINTR, Accepted 8 (Some 0) True, AcceptErrno EAGAIN]"
  have here: "connections ?st = [7 \<mapsto> 0]" "awaiting_worker_result (objects ?st 0)"
    by (simp_all add: demo_handed_def demo_accepted_def demo_waiting_def)
  note books = http_server_books_balance [OF demo_starts demo_config_ok _ run, simplified here(1)]
  have "Multiset.count (in_flight ?st) 0 = 1"
    using conjunct1 [OF books, rule_format, of 7 0] here(2) by simp
  moreover have "\<exists>st'. on_listener_readable demo_config (\<lambda>_. (''peer'', demo_socket [] [])) ?pending ?st = Some (Inr st')"
    using books by (simp add: tolerated_def set_nonblocking_def O_NONBLOCK_def own_fds_def)
  ultimately show ?thesis
    using run here(2) by blast
qed

text \<open>C35: A handler that throws on a worker leaves its connection waiting for ever: from the worker's turn
  on, in every reachable state in which the connection is still open, it waits for the pool and has been
  sent nothing more.\<close>

theorem throwing_handler_strands_connection:
  assumes "http_starts listener wakeup completion_fd config True st0" "http_config_ok config"
    and "http_reachable config handler (own_fds listener wakeup completion_fd True) st0 st"
    and "worker_pool st = Some pool" "j < length (workers pool)" "workers pool ! j = Running t"
    and "handler (task_request t) = None" "server_worker_turn handler j st = Some st1"
    and "connections st fd = Some (task_conn t)"
    and "http_reachable config handler (own_fds listener wakeup completion_fd True) st1 st2"
    and "connections st2 fd = Some (task_conn t)"
  shows "awaiting_worker_result (objects st2 (task_conn t)) \<and>
    wire (sock (base (objects st2 (task_conn t)))) = wire (sock (base (objects st (task_conn t))))"
proof -
  let ?own = "own_fds listener wakeup completion_fd True"
  have inv: "http_inv False ?own {#} {} st"
    by (rule http_reachable_inv [OF assms(3) http_starts_inv [OF assms(1)] assms(2)]) simp
  have inv1: "http_inv False ?own {#} {} st1"
    by (rule server_worker_turn_inv [OF inv assms(4,5,8)]) simp
  note orphan = throwing_turn_orphans [OF inv assms(4-9)]
  have "orphan fd (task_conn t) (objects st (task_conn t)) st2"
    by (rule orphan_reachable [OF assms(10) inv1 assms(2) orphan])
  with assms(11) show ?thesis
    unfolding orphan_def by blast
qed

theorem throwing_handler_strands_connection_witness:
  "\<exists>st0 st st1. http_reachable demo_config (\<lambda>rq. None) (own_fds 3 4 5 True) st0 st \<and>
     server_worker_turn (\<lambda>rq. None) 0 st = Some st1 \<and> connections st1 7 = Some 0 \<and>
     awaiting_worker_result (objects st1 0) \<and> wire (sock (base (objects st1 0))) = []"
proof -
  let ?s = "demo_socket [] []" and ?handler = "\<lambda>rq::HttpRequest. None :: HttpResponse option"
  obtain b where run: "http_reachable demo_config ?handler (own_fds 3 4 5 True) (demo_start ?s)
      (demo_handed b ?s [] (Running demo_task))"
    using demo_taken [of "[]" ?handler "[]"] by auto
  let ?st = "demo_handed b ?s [] (Running demo_task)"
  have "completion_queue ?st = Some (new_work_queue 4)"
    by (simp add: demo_handed_def demo_accepted_def demo_start_def)
  then have "server_worker_turn ?handler 0 ?st \<noteq> None"
    by (simp add: server_worker_turn_def demo_handed_pool worker_turn_def)
  then obtain st1 where turn: "server_worker_turn ?handler 0 ?st = Some st1"
    by blast
  have "http_inv False (own_fds 3 4 5 True) {#} {} ?st"
    by (rule http_reachable_inv [OF run http_starts_inv [OF demo_starts] demo_config_ok]) simp
  from server_worker_turn_work(3) [OF this demo_handed_pool _ turn]
  have same: "connections st1 = connections ?st"
    by simp
  have here: "connections ?st 7 = Some 0" "wire (sock (base (objects ?st 0))) = []" "task_conn demo_task = 0"
    by (simp_all add: demo_handed_def demo_accepted_def demo_waiting_def demo_task_def)
  have "awaiting_worker_result (objects st1 0) \<and>
      wire (sock (base (objects st1 0))) = wire (sock (base (objects ?st 0)))"
    using throwing_handler_strands_connection [OF demo_starts demo_config_ok run demo_handed_pool _ _ _ turn _ http_start, of demo_task 7]
      here same by simp
  moreover have "connections st1 7 = Some 0"
    using here(1) same by simp
  ultimately show ?thesis
    using run turn here(2) by metis
qed

text \<open>C36: A request that was read behind another one whose reply did not fit into the socket at once is
  left unparsed when the rest of the reply goes out: the connection goes back to waiting for input with
  the request in its buffer, no work under way for it and the parser untouched, so that a client that
  waits for the answer before it sends more is never answered.\<close>

theorem drained_reply_leaves_request_unparsed:
  assumes "http_starts listener wakeup completion_fd config has_pool st0" "http_config_ok config"
    and "\<forall>rq. handler rq \<noteq> None"
    and "http_reachable config handler (own_fds listener wakeup completion_fd has_pool) st0 st"
    and "connections st fd = Some i" "conn_state (base (objects st i)) = kWriting"
    and "flush_output (base (objects st i)) = Some (kFlushed, c)"
  shows "\<exists>st'. on_client_event config handler fd kWritable st = Some (Inr st') \<and>
    connections st' fd = Some i \<and> conn_state (base (objects st' i)) = kReading \<and>
    interest (http_reactor st') fd = Some kReadable \<and>
    unread (base (objects st' i)) = unread (base (objects st i)) \<and>
    hparser (objects st' i) = hparser (objects st i) \<and> unsent (base (objects st' i)) = [] \<and>
    \<not> awaiting_worker_result (objects st' i) \<and> Multiset.count (in_flight st') i = 0"
proof -
  let ?own = "own_fds listener wakeup completion_fd has_pool"
  have inv: "http_inv True ?own {#} {} st"
    using http_reachable_inv [OF assms(4) http_starts_inv [OF assms(1)] assms(2)] assms(3) by blast
  have here: "settled (objects st i)" "flight_ok True (Multiset.count (in_flight st) i) (awaiting_worker_result (objects st i))"
    using http_invD [OF inv assms(5)] by (simp_all add: conn_inv_settled)
  then have idle: "\<not> awaiting_worker_result (objects st i)" "Multiset.count (in_flight st) i = 0"
    using assms(6) by (auto simp: settled_def flight_ok_def)
  have c: "drained (base (objects st i)) c" "unsent c = []"
    using here(1) flush_output_result [of "base (objects st i)"] assms(7) by (auto simp: settled_def)
  obtain r where "on_client_event config handler fd kWritable st =
      Some (Inr (put_conn i ((objects st i)\<lparr>base := c\<lparr>conn_state := kReading\<rparr>\<rparr>) st\<lparr>http_reactor := r\<rparr>))"
    "interest r fd = Some kReadable"
    using drained_reply_event [OF inv assms(5-7)] by blast
  with assms(5) idle c show ?thesis
    by (auto simp: drained_def unread_def)
qed

theorem drained_reply_leaves_request_unparsed_witness:
  "\<exists>st0 st st'. http_reachable demo_config (\<lambda>rq. Some default_response) (own_fds 3 4 5 True) st0 st \<and>
     on_client_event demo_config (\<lambda>rq. Some default_response) 7 kWritable st = Some (Inr st') \<and>
     unread (base (objects st' 0)) = render_request demo_request \<and>
     conn_state (base (objects st' 0)) = kReading \<and> \<not> awaiting_worker_result (objects st' 0)"
proof -
  let ?s = "demo_socket (render_request demo_request) demo_outs"
  have "length (render_request demo_request) < 4000"
    by (simp add: render_request_def request_line_def header_wire_def header_line_def demo_request_simps CRLF_def)
  then obtain b where b: "bytes_of b = render_request demo_request"
    and run: "http_reachable demo_config (\<lambda>rq. Some default_response) (own_fds 3 4 5 True) (demo_start ?s) (demo_writing b ?s)"
    using demo_written by blast
  obtain c where c: "flush_output (base (objects (demo_writing b ?s) 0)) = Some (kFlushed, c)"
    using demo_flush_drains by blast
  from drained_reply_leaves_request_unparsed [OF demo_starts demo_config_ok _ run _ _ c, of 7] b
  obtain st' where "on_client_event demo_config (\<lambda>rq. Some default_response) 7 kWritable (demo_writing b ?s) = Some (Inr st')"
      "unread (base (objects st' 0)) = render_request demo_request" "conn_state (base (objects st' 0)) = kReading"
      "\<not> awaiting_worker_result (objects st' 0)"
    by auto
  with run show ?thesis
    by blast
qed


text \<open>C20: The blocking server returns.  On any sequence of turns of its loop in which every connection that
  is there to be accepted has a peer that at last closes or fails, whatever it sends, \<open>serve\<close> comes to
  the end of the turns or leaves the loop, and with a turn in which a stop has been asked for it does
  not stay in it.\<close>

theorem blocking_server_returns:
  assumes "\<forall>turn\<in>set turns. case snd turn of
      PollReady errors client \<Rightarrow> (\<exists>s. client = Some s \<and> hangs_up (recvs s)) | _ \<Rightarrow> True"
  shows "\<exists>served why. serve_turns config handler turns = Some (served, why) \<and>
    (True \<in> fst ` set turns \<longrightarrow> why \<noteq> StillPolling)"
  using assms
proof (induction turns)
  case (Cons turn turns)
  obtain stopped ready where turn: "turn = (stopped, ready)"
    by fastforce
  obtain served why where later: "serve_turns config handler turns = Some (served, why)"
      "True \<in> fst ` set turns \<longrightarrow> why \<noteq> StillPolling"
    using Cons by auto
  show ?case
  proof (cases "stopped \<or> (\<forall>errors client. ready \<noteq> PollReady errors client)")
    case True
    with turn later show ?thesis
      by (cases ready) auto
  next
    case False
    then obtain errors s where ready: "ready = PollReady errors (Some s)" "hangs_up (recvs s)" "\<not> stopped"
      using Cons.prems turn by auto
    obtain s' where "handle_connection config handler s = Some s'"
      using connection_loop_returns [OF new_parser_ok ready(2)] unfolding handle_connection_def by blast
    moreover have "\<exists>r. accept errors (Some s) = Some r \<and> (\<forall>c. r = Inr c \<longrightarrow> c = s)"
      by (induction errors) auto
    ultimately show ?thesis
      using turn ready later by (auto split: sum.split)
  qed
qed simp

theorem blocking_server_returns_witness:
  "\<exists>served why. serve_turns default_blocking_config default_route
      [(False, PollReady [EINTR] (Some \<lparr>recvs = [RecvBytes [CR], RecvErrno ECONNRESET], sends = [], wire = []\<rparr>)),
       (True, PollTimeout)] = Some (served, why) \<and> why \<noteq> StillPolling"
  using blocking_server_returns [of "[(False, PollReady [EINTR]
       (Some \<lparr>recvs = [RecvBytes [CR], RecvErrno ECONNRESET], sends = [], wire = []\<rparr>)), (True, PollTimeout)]"
      default_blocking_config default_route] by auto

text \<open>C21: An event on a client of the echo server is handled without an exception and keeps the stream of
  its connection: what has been echoed, followed by what is still queued and what is still to come, is
  what the peer has sent and will send, in order, as long as the connection is open; no other connection
  is touched; and every accepted connection is open or closed.\<close>

theorem echo_server_keeps_streams:
  assumes "echo_reachable config listener wakeup st" "echo_config_ok config" "echo_connections st fd = Some c"
  shows "\<exists>st'. echo_on_client_event config fd events st = Some (Inr st') \<and>
    (\<forall>c'. echo_connections st' fd = Some c' \<longrightarrow>
       wire (sock c') @ unsent c' @ arriving (recvs (sock c')) = wire (sock c) @ unsent c @ arriving (recvs (sock c))) \<and>
    (\<forall>fd'. fd' \<noteq> fd \<longrightarrow> echo_connections st' fd' = echo_connections st fd') \<and>
    echo_accepted st' = card (dom (echo_connections st')) + length (echo_closed st')"
proof -
  have ok: "echo_ok {listener, wakeup} st"
    by (rule echo_reachable_ok [OF assms(1,2)])
  obtain st' where st': "echo_on_client_event config fd events st = Some (Inr st')" "echo_ok {listener, wakeup} st'"
      "\<And>fd'. fd' \<noteq> fd \<Longrightarrow> echo_connections st' fd' = echo_connections st fd'"
      "\<And>c'. echo_connections st' fd = Some c' \<Longrightarrow> echo_stream c' = echo_stream c"
    using echo_client_event_handled [OF ok assms(3,2), of events] by (auto simp: echo_handled_def)
  have settled: "echo_ok own s \<Longrightarrow> echo_connections s fd = Some d \<Longrightarrow>
      echo_stream d = wire (sock d) @ unsent d @ arriving (recvs (sock d))" for own s d
    by (simp add: echo_ok_def echo_settled_def echo_stream_def)
  have "wire (sock c') @ unsent c' @ arriving (recvs (sock c')) = wire (sock c) @ unsent c @ arriving (recvs (sock c))"
    if "echo_connections st' fd = Some c'" for c'
    using st'(4) [OF that] settled [OF st'(2) that] settled [OF ok assms(3)] by simp
  moreover have "echo_accepted st' = card (dom (echo_connections st')) + length (echo_closed st')"
    using st'(2) by (simp add: echo_ok_def)
  ultimately show ?thesis
    using st'(1,3) by blast
qed

definition demo_echo_config :: echo_config where
  "demo_echo_config =
     \<lparr>echo_port = 0, echo_backlog = 128, echo_read_chunk_bytes = 4096, echo_max_output_queue_bytes = 65536,
      echo_max_read_buffer_bytes = 65536\<rparr>"

theorem echo_server_keeps_streams_witness:
  "\<exists>st st' c. echo_reachable demo_echo_config 3 4 st \<and> echo_connections st 7 = Some c \<and>
     arriving (recvs (sock c)) = ''hi'' \<and>
     echo_on_client_event demo_echo_config 7 kReadable st = Some (Inr st') \<and>
     (\<forall>c'. echo_connections st' 7 = Some c' \<longrightarrow> wire (sock c') @ unsent c' @ arriving (recvs (sock c')) = ''hi'')"
proof -
  define s where "s = \<lparr>recvs = [RecvBytes ''hi''], sends = [Sent 1], wire = []\<rparr>"
  define c where "c = new_connection 7 ''peer'' 65536 65536 s"
  obtain st0 where st0: "new_echo_server 3 4 = Inr st0"
      "echo_connections st0 = Map.empty" "callbacks (echo_reactor st0) = [3 \<mapsto> EchoListener]"
      "interest (echo_reactor st0) 7 = None"
    by (simp add: new_echo_server_def reactor_add_def new_reactor_def)
  obtain st where "dispatch_ready echo_reactor (echo_invoke demo_echo_config (\<lambda>fd. (''peer'', s)) [Accepted 7 (Some 0) True])
      3 kReadable st0 = Some (Inr st)" and c: "echo_connections st 7 = Some c"
    using st0(2-4)
    by (simp add: dispatch_ready_def echo_invoke_def echo_on_listener_readable.simps set_nonblocking_def
        O_NONBLOCK_def reactor_add_def c_def demo_echo_config_def)
  then have "echo_step demo_echo_config {3, 4} st0 st"
    using st0(2) by (intro echo_step.dispatches [where pending = "[Accepted 7 (Some 0) True]"]) simp_all
  with st0(1) have run: "echo_reachable demo_echo_config 3 4 st"
    by (intro echo_more [OF echo_start])
  have fields: "wire (sock c) = []" "unsent c = []" "arriving (recvs (sock c)) = ''hi''"
    by (simp_all add: c_def) (simp_all add: new_connection_def s_def)
  have "echo_config_ok demo_echo_config"
    by (simp add: echo_config_ok_def demo_echo_config_def)
  from echo_server_keeps_streams [OF run this c, of kReadable] run c fields show ?thesis
    by auto
qed


text \<open>C22: Draining a connection's output.  It always returns; what the socket has taken so far, followed by
  what is still queued, is the same byte string before and after, so bytes go out in order, none twice
  and none dropped; and it reports the queue flushed only when it is empty, pending only when it is not.\<close>

theorem flush_output_sends_in_order:
  assumes "connection_ok c"
  shows "\<exists>result c'. flush_output c = Some (result, c') \<and> connection_ok c' \<and>
    wire (sock c) @ unsent c = wire (sock c') @ unsent c' \<and>
    (result = kFlushed \<longrightarrow> unsent c' = []) \<and> (result = kPending \<longrightarrow> unsent c' \<noteq> [])"
  using flush_output_result [OF assms] by (auto simp: drained_def)

theorem flush_output_sends_in_order_witness:
  "\<exists>result c'. flush_output (snd (enqueue_output (new_connection 7 ''peer'' 16 16
      \<lparr>recvs = [], sends = [Sent 1], wire = ''a''\<rparr>) ''bc'')) = Some (result, c') \<and>
    wire (sock c') @ unsent c' = ''abc''"
proof -
  let ?c = "new_connection 7 ''peer'' 16 16 \<lparr>recvs = [], sends = [Sent 1], wire = ''a''\<rparr>"
  have fields: "sock ?c = \<lparr>recvs = [], sends = [Sent 1], wire = ''a''\<rparr>" "max_buffered_bytes (write_queue ?c) = 16"
    by (simp_all add: new_connection_def new_output_queue_def)
  obtain accepted c where queued: "enqueue_output ?c ''bc'' = (accepted, c)"
    by fastforce
  have "connection_ok ?c"
    by (simp add: new_connection_ok)
  note queued_ok = enqueue_output_result [OF this queued]
  then have c: "connection_ok c" "unsent c = ''bc''"
    using fields by simp_all
  have "c = ?c\<lparr>write_queue := write_queue c\<rparr>"
    using queued_ok by blast
  then have "sock c = sock ?c"
    by (rule ssubst [where P = "\<lambda>d. sock d = sock ?c"]) simp
  moreover obtain result c' where "flush_output c = Some (result, c')" "wire (sock c) @ unsent c = wire (sock c') @ unsent c'"
    using flush_output_sends_in_order [OF c(1)] by blast
  ultimately show ?thesis
    using queued fields c(2) by simp
qed

text \<open>C15: The shared work queue, used by any number of threads in any interleaving, with spurious wake-ups.
  It never holds more than its capacity and hands tasks out in the order in which they were accepted,
  each once; and no wake-up is lost: while a thread is blocked in \<open>pop\<close> although there is a task or the
  queue is closed, another one is on its way to look at the queue or to notify, and the same for a
  thread blocked in \<open>push\<close> although there is room.\<close>

theorem work_queue_loses_no_wakeup:
  assumes "monitor_reachable cap m"
  shows "length (tasks (mon_queue m)) \<le> cap \<and> put_log m = taken_log m @ tasks (mon_queue m) \<and>
    (tasks (mon_queue m) \<noteq> [] \<or> queue_closed (mon_queue m) \<longrightarrow> (\<exists>i. mon_at m i = PopWait) \<longrightarrow>
       (\<exists>j. mon_at m j \<in> {PopTest, PushNotify, CloseNotifyPop})) \<and>
    (length (tasks (mon_queue m)) < cap \<or> queue_closed (mon_queue m) \<longrightarrow> (\<exists>i t. mon_at m i = PushWait t) \<longrightarrow>
       (\<exists>j. (\<exists>u. mon_at m j = PushTest u \<or> mon_at m j = PopNotify u) \<or> (\<exists>ts. mon_at m j = DrainNotify ts) \<or>
         mon_at m j \<in> {CloseNotifyPop, CloseNotifyPush}))"
proof -
  have "\<exists>j. mon_at m j \<in> {PopTest, PushNotify, CloseNotifyPop}"
    if "mon_at m i = PopWait" "tasks (mon_queue m) \<noteq> [] \<or> queue_closed (mon_queue m)" for i
    using popper_not_stuck [OF assms that] by (auto simp: popper_awake_def)
  moreover have "\<exists>j. (\<exists>u. mon_at m j = PushTest u \<or> mon_at m j = PopNotify u) \<or> (\<exists>ts. mon_at m j = DrainNotify ts) \<or>
         mon_at m j \<in> {CloseNotifyPop, CloseNotifyPush}"
    if "mon_at m i = PushWait t" "length (tasks (mon_queue m)) < cap \<or> queue_closed (mon_queue m)" for i t
    using pusher_not_stuck [OF assms that]
    by (auto simp: pusher_awake_def drains_now_def closes_now_def split: where_at.splits)
  ultimately show ?thesis
    using monitor_fifo [OF assms] by blast
qed

theorem work_queue_loses_no_wakeup_witness:
  "\<exists>m :: (nat, char) monitor. monitor_reachable 1 m \<and> mon_at m 0 = PopWait \<and> tasks (mon_queue m) = ''t'' \<and>
     (\<exists>j. mon_at m j \<in> {PopTest, PushNotify, CloseNotifyPop})"
proof -
  define m0 :: "(nat, char) monitor" where
    "m0 = \<lparr>mon_queue = new_work_queue 1, mon_at = (\<lambda>_. Outside), put_log = [], taken_log = []\<rparr>"
  define m2 where "m2 = moved 0 PopWait (moved 0 PopTest m0)"
  define m3 where "m3 = moved 1 PushNotify (m2\<lparr>mon_queue := (new_work_queue 1)\<lparr>tasks := ''t''\<rparr>, put_log := ''t''\<rparr>)"
  have "monitor_reachable 1 m0"
    unfolding m0_def by (rule start)
  moreover have "monitor_step m0 (moved 0 PopTest m0)"
    by (rule enter_pop) (simp add: m0_def)
  moreover have "monitor_step (moved 0 PopTest m0) m2"
    unfolding m2_def by (rule pop_waits) (simp_all add: m0_def moved_def pop_def)
  moreover have "monitor_step m2 m3"
    using try_push_accepted [of m2 1 "CHR ''t''" "(new_work_queue 1)\<lparr>tasks := ''t''\<rparr>"]
    by (simp add: m2_def m3_def m0_def moved_def try_push_def)
  ultimately have "monitor_reachable 1 m3"
    by (metis step)
  moreover have "mon_at m3 0 = PopWait" "tasks (mon_queue m3) = ''t''"
    by (simp_all add: m3_def m2_def moved_def)
  ultimately show ?thesis
    using work_queue_loses_no_wakeup [of 1 m3] by (metis list.distinct(1))
qed

text \<open>C14: Stopping the worker pool returns and loses nothing.  Once the pool has been stopped, whatever was
  submitted before and however the workers are scheduled, they take a bounded number of turns, a turn is
  possible until all have exited, and when the joins return every accepted task has been run exactly
  once, thrown exceptions included, and has been counted.\<close>

theorem stopped_pool_runs_every_task_once:
  assumes "pool_reachable throws detected config p" "pool_stopped p"
  shows "(\<exists>turns p'. schedule throws turns p = Some p' \<and> joined p') \<and>
    (\<forall>turns p'. schedule throws turns p = Some p' \<longrightarrow>
       length turns \<le> turns_left p \<and>
       (if joined p'
        then mset (executed p') = mset (submitted p) \<and> tasks_completed p' + tasks_failed p' = length (submitted p)
        else \<exists>i p''. i < length (workers p') \<and> worker_turn throws i p' = Some p''))"
proof -
  have ok: "pool_ok throws p" and closed: "queue_closed (pool_queue p)"
    using pool_reachable_ok [OF assms(1)] assms(2) by (simp_all add: pool_ok_def)
  have "length turns \<le> turns_left p \<and>
       (if joined p'
        then mset (executed p') = mset (submitted p) \<and> tasks_completed p' + tasks_failed p' = length (submitted p)
        else \<exists>i p''. i < length (workers p') \<and> worker_turn throws i p' = Some p'')"
    if "schedule throws turns p = Some p'" for turns p'
    using schedule_bounded [OF ok that] joined_all_run [of throws p'] closed_pool_progress [of p' throws] closed
    by auto
  with closed_pool_joins [OF ok closed] show ?thesis
    by blast
qed

theorem stopped_pool_runs_every_task_once_witness:
  "\<exists>turns p'. schedule (\<lambda>t. t) turns
      (stop_begins (snd (submit (snd (submit (new_pool 0 \<lparr>config_worker_count = 0, config_queue_capacity = 2\<rparr>) True)) False))) =
        Some p' \<and> mset (executed p') = {#True, False#} \<and> tasks_completed p' + tasks_failed p' = 2"
proof -
  define config where "config = \<lparr>config_worker_count = 0, config_queue_capacity = 2\<rparr>"
  define p where "p = stop_begins (snd (submit (snd (submit (new_pool 0 config) True)) False))"
  let ?throws = "\<lambda>t::bool. t"
  have reach: "pool_reachable ?throws 0 config p"
    unfolding p_def
    by (rule pool_more [OF pool_more [OF pool_more [OF pool_start submits [OF prod.collapse [symmetric]]]
          submits [OF prod.collapse [symmetric]]] stops])
  have stopped: "pool_stopped p" and all: "submitted p = [True, False]"
    by (simp_all add: p_def config_def stop_begins_def submit_def try_push_def new_pool_def new_work_queue_def)
  note runs = stopped_pool_runs_every_task_once [OF reach stopped]
  obtain turns p' where run: "schedule ?throws turns p = Some p'" "joined p'"
    using runs by blast
  have "mset (executed p') = mset (submitted p)" "tasks_completed p' + tasks_failed p' = length (submitted p)"
    using conjunct2 [OF runs, rule_format, OF run(1)] run(2) by simp_all
  with run(1) all show ?thesis
    unfolding p_def config_def by (intro exI [of _ turns] exI [of _ p']) simp
qed

end
