(* ===== verification/Arc_Cli.thy ===== *)
theory Arc_Cli
  imports Arc_Text
begin

text \<open>
  The command line of the server (app/cli.hpp, app/cli.cpp): the optional port argument.  The arguments
  are the strings of \<open>argv\<close>, the program's name first.
\<close>

definition parse_port :: "string list \<Rightarrow> nat option" where
  "parse_port argv =
     (if length argv < 2 then Some 8080
      else
        let arg = argv ! 1 in
        if arg = [] then None
        else
          (case from_chars_int arg of
             Inl e \<Rightarrow> None
           | Inr (n, trailing) \<Rightarrow>
               if trailing \<noteq> [] then None
               else if n < 0 \<or> n > 65535 then None
               else Some (nat n)))"

text \<open>The accepted arguments: digits with a value that fits, or a minus sign and zeros.\<close>

lemma from_chars_int_all:
  assumes "from_chars_int s = Inr (n, [])"
  shows "(\<forall>c\<in>set s. is_digit c) \<and> s \<noteq> [] \<and> n = int (digits_value s) \<or>
    (\<exists>ds. s = CHR ''-'' # ds \<and> ds \<noteq> [] \<and> (\<forall>c\<in>set ds. is_digit c) \<and> n = - int (digits_value ds))"
proof -
  have all: "takeWhile is_digit u = u \<and> (\<forall>c\<in>set u. is_digit c)" if "dropWhile is_digit u = []" for u
    using that takeWhile_dropWhile_id [of is_digit u] by (metis append_Nil2 set_takeWhileD)
  show ?thesis
  proof (cases "s \<noteq> [] \<and> hd s = CHR ''-''")
    case True
    then obtain ds where s: "s = CHR ''-'' # ds"
      by (cases s) auto
    with assms have parts: "dropWhile is_digit ds = []" "takeWhile is_digit ds \<noteq> []"
        "n = - int (digits_value (takeWhile is_digit ds))"
      by (auto simp: from_chars_int_def Let_def split: if_splits)
    note digits = all [OF parts(1)]
    show ?thesis
      using parts(2,3) s unfolding conjunct1 [OF digits] using conjunct2 [OF digits] by blast
  next
    case False
    with assms have parts: "dropWhile is_digit s = []" "takeWhile is_digit s \<noteq> []"
        "n = int (digits_value (takeWhile is_digit s))"
      by (auto simp: from_chars_int_def Let_def split: if_splits)
    note digits = all [OF parts(1)]
    show ?thesis
      using parts(2,3) unfolding conjunct1 [OF digits] using conjunct2 [OF digits] by blast
  qed
qed

lemma parse_port_accepts:
  assumes "parse_port (prog # arg # rest) = Some port"
  shows "port \<le> 65535 \<and>
    ((\<forall>c\<in>set arg. is_digit c) \<and> arg \<noteq> [] \<and> port = digits_value arg \<or>
     (\<exists>ds. arg = CHR ''-'' # ds \<and> (\<forall>c\<in>set ds. is_digit c) \<and> digits_value ds = 0 \<and> port = 0))"
proof -
  obtain n where n: "from_chars_int arg = Inr (n, [])" "0 \<le> n" "n \<le> 65535" "port = nat n"
    using assms by (auto simp: parse_port_def Let_def split: if_splits sum.splits)
  from from_chars_int_all [OF n(1)] n show ?thesis
    by auto
qed

lemma parse_port_decimal:
  assumes "n \<le> 65535"
  shows "parse_port (prog # decimal n # rest) = Some n"
proof -
  have digits: "takeWhile is_digit (decimal n) = decimal n" "dropWhile is_digit (decimal n) = []"
    using digits_decimal by (auto simp: takeWhile_eq_all_conv dropWhile_eq_Nil_conv)
  have "hd (decimal n) \<noteq> CHR ''-''"
    using digits_decimal [of n] list.set_sel(1) [OF decimal_not_Nil [of n]] by (force simp: is_digit_def)
  then have unsigned: "(decimal n \<noteq> [] \<and> hd (decimal n) = CHR ''-'') = False"
    by simp
  have "from_chars_int (decimal n) = Inr (int n, [])"
    unfolding from_chars_int_def Let_def unsigned if_False digits using assms by (simp add: digits_value_decimal)
  with assms show ?thesis
    by (simp add: parse_port_def)
qed

text \<open>A sign is accepted after all, in front of zeros.\<close>

lemma parse_port_minus_zero: "parse_port [prog, ''-0''] = Some 0"
  by (simp add: parse_port_def from_chars_int_def is_digit_def digits_value_def)

end
