(* ===== verification/Arc_Divergences.thy ===== *)
theory Arc_Divergences
  imports Arc_Http_Demo Arc_Blocking_Server Arc_Cli
begin

text \<open>
  Where the servers do not do what their comments or documents say: each lemma is a run of the code as it
  is.  (A handler that throws and a pipelined request behind a waiting reply are among the properties.)
\<close>

text \<open>
  A declared length beyond 64 bits is a bad request, not a payload that is too large, although it exceeds
  the limit on bodies.
\<close>

lemma huge_content_length_is_bad_request:
  assumes "find_header (req_headers (request p)) ''Content-Length'' = Some len"
    and "len \<noteq> []" "\<forall>c\<in>set len. is_digit c" "2 ^ 64 \<le> digits_value len"
  shows "finish_headers p = fail_step p 400 ''Bad Request'' ''invalid Content-Length''"
proof -
  have "from_chars_unsigned (2 ^ 64 - 1) len = Inl ResultOutOfRange"
  proof -
    have "takeWhile is_digit len = len"
      using assms(3) by simp
    then have "from_chars_unsigned (2 ^ 64 - 1) len =
        (if len = [] then Inl InvalidArgument else if 2 ^ 64 - 1 < digits_value len then Inl ResultOutOfRange
         else Inr (digits_value len, dropWhile is_digit len))"
      unfolding from_chars_unsigned_def Let_def by (rule ssubst) (rule refl)
    with assms(2,4) show ?thesis
      by simp
  qed
  with assms(1) show ?thesis
    by (simp add: finish_headers_def Let_def)
qed

text \<open>An error of \<open>accept\<close> such as a connection that was aborted in the queue ends \<open>serve\<close> by an exception.\<close>

lemma accept_error_ends_serving:
  assumes "e \<noteq> EINTR"
  shows "serve_turns config handler ((False, PollReady [e] client) # turns) = Some ([], AcceptThrew)"
  using assms by simp

text \<open>
  A client that sends a request and then ends its side is answered by the reactor's server when the request
  arrives in less than a chunk, and closed without an answer when what has arrived fills the chunk
  exactly: the read that finds the end of the stream comes before any parsing.
\<close>

lemma full_chunk_then_end_is_dropped:
  assumes ok: "connection_ok (base (objects st i))"
    and sent: "recvs (sock (base (objects st i))) = [RecvBytes d, RecvBytes []]"
    and chunk: "length d = http_read_chunk_bytes config" "d \<noteq> []"
  shows "\<exists>c. process_readable config handler i st =
      Some (Inr (close_connection (conn_fd (base (objects st i))) (put_base i c st))) \<and>
    wire (sock c) = wire (sock (base (objects st i)))"
proof -
  let ?c = "base (objects st i)" and ?n = "http_read_chunk_bytes config"
  let ?s = "(sock ?c)\<lparr>recvs := [RecvBytes []]\<rparr>"
  have "0 < ?n"
    using chunk by (metis length_greater_0_conv)
  then have first: "read_some ?n (sock ?c) = (d, IoOk, ?s)"
    using sent chunk by (simp add: read_some.simps [of ?n] sys_recv_def)
  obtain appended b where b: "buffer_append (read_buffer ?c) d = (appended, b)"
    by fastforce
  have second: "read_some ?n ?s = ([], IoClosed, ?s\<lparr>recvs := []\<rparr>)"
    by (simp add: read_some.simps [of ?n] sys_recv_def)
  define c where
    "c = (if appended then ?c\<lparr>sock := ?s\<lparr>recvs := []\<rparr>, read_buffer := b\<rparr> else ?c\<lparr>sock := ?s\<rparr>)"
  have "read_available ?n ?c = (True, c)"
    using first second b chunk
    by (simp add: c_def read_available.simps [of ?n ?c] read_available.simps [of ?n "_\<lparr>read_buffer := _\<rparr>"] Let_def)
  moreover have "conn_fd c = conn_fd ?c" "wire (sock c) = wire (sock ?c)"
    by (simp_all add: c_def)
  ultimately show ?thesis
    by (intro exI [of _ c]) (simp add: process_readable_def Let_def)
qed

end
