(* ===== verification/Xv6_Proc.thy ===== *)
theory Xv6_Proc
  imports Pebble_Prelude
begin

text \<open>
  The process table of xv6-plus (kernel/proc.h, kernel/proc.c): the slots, their allocation and release,
  fork, exit, wait, sleep and wakeup, kill, and the telemetry each slot carries.

  A pointer to a process is the index of its slot.  Every function is made of the critical sections of the
  code: a \<open>_slot\<close> function is what happens to one slot under its own lock, and the functions that walk the
  table apply it slot by slot; what several harts do between two sections is the matter of
  \<open>Xv6_Sched\<close> and \<open>Xv6_Lifecycle\<close>.  Calls into the memory allocator and into user memory are outside
  of this part; whether each of them succeeds is read from a script, \<open>outcomes\<close>, and succeeds when the
  script has run out.  The open files and the directory of a process are not modelled.
\<close>

subsection \<open>The state\<close>

datatype procstate = UNUSED | USED | SLEEPING | RUNNABLE | RUNNING | ZOMBIE

text \<open>A wait channel is an address: that of a process, of the tick counter, or of another object.\<close>

datatype channel = ChanProc nat | ChanTicks | ChanOther nat

text \<open>
  \<open>p_trapframe\<close> and \<open>p_pagetable\<close> say whether the pointer is set; \<open>p_a0\<close>, \<open>p_a1\<close> and \<open>p_a7\<close> are the
  registers of the trapframe that system calls use.
\<close>

record proc =
  p_state :: procstate
  p_chan :: "channel option"
  p_killed :: int
  p_xstate :: int
  p_pid :: int
  p_parent :: "nat option"
  p_sz :: u64
  p_pagetable :: bool
  p_trapframe :: bool
  p_a0 :: u64
  p_a1 :: u64
  p_a7 :: u64
  p_name :: string
  p_trace_mask :: u32
  p_runticks :: u64
  p_waitticks :: u64
  p_syscall_count :: u64
  p_tickets :: int
  p_sched_selections :: u64
  p_pagefaults :: u64
  p_pagefaults_failed :: u64

text \<open>What a call prints that is of interest here.\<close>

datatype console_line = TraceLine int string int | UnknownSyscall int string int

record kernel =
  procs :: "proc list"
  cpus :: "nat option list"
  nextpid :: int
  initproc :: "nat option"
  sched_policy :: int
  rng_state :: u32
  ticks :: u32
  console :: "console_line list"
  outcomes :: "bool list"

definition NPROC :: nat where "NPROC = 64"
definition NCPU :: nat where "NCPU = 8"

definition SCHED_RR :: int where "SCHED_RR = 0"
definition SCHED_LOTTERY :: int where "SCHED_LOTTERY = 1"
definition SCHED_DEFAULT_TICKETS :: int where "SCHED_DEFAULT_TICKETS = 10"
definition SCHED_MAX_TICKETS :: int where "SCHED_MAX_TICKETS = 100000"
definition SCHED_RNG_SEED :: u32 where "SCHED_RNG_SEED = 2463534242"

text \<open>The table at boot: zeroed memory (kernel/proc.c, \<open>procinit\<close>).\<close>

definition zero_proc :: proc where
  "zero_proc = \<lparr>p_state = UNUSED, p_chan = None, p_killed = 0, p_xstate = 0, p_pid = 0, p_parent = None,
     p_sz = 0, p_pagetable = False, p_trapframe = False, p_a0 = 0, p_a1 = 0, p_a7 = 0, p_name = [],
     p_trace_mask = 0, p_runticks = 0, p_waitticks = 0, p_syscall_count = 0, p_tickets = 0,
     p_sched_selections = 0, p_pagefaults = 0, p_pagefaults_failed = 0\<rparr>"

definition procinit :: "bool list \<Rightarrow> kernel" where
  "procinit script =
     \<lparr>procs = replicate NPROC zero_proc, cpus = replicate NCPU None, nextpid = 1, initproc = None,
      sched_policy = SCHED_RR, rng_state = SCHED_RNG_SEED, ticks = 0, console = [], outcomes = script\<rparr>"

text \<open>A write to one slot, and the outcome of the next call outside of this part.\<close>

definition upd :: "nat \<Rightarrow> (proc \<Rightarrow> proc) \<Rightarrow> kernel \<Rightarrow> kernel" where
  "upd i f k = k\<lparr>procs := (procs k)[i := f (procs k ! i)]\<rparr>"

definition succeeds :: "kernel \<Rightarrow> bool \<times> kernel" where
  "succeeds k = (case outcomes k of [] \<Rightarrow> (True, k) | b # bs \<Rightarrow> (b, k\<lparr>outcomes := bs\<rparr>))"

subsection \<open>Allocating and freeing a slot\<close>

definition freeproc :: "nat \<Rightarrow> kernel \<Rightarrow> kernel" where
  "freeproc i k = upd i (\<lambda>p. p\<lparr>p_trapframe := False, p_pagetable := False, p_sz := 0, p_pid := 0,
     p_parent := None, p_name := [], p_chan := None, p_killed := 0, p_xstate := 0, p_state := UNUSED,
     p_trace_mask := 0, p_runticks := 0, p_waitticks := 0, p_syscall_count := 0, p_tickets := 0,
     p_sched_selections := 0, p_pagefaults := 0, p_pagefaults_failed := 0\<rparr>) k"

definition allocpid :: "kernel \<Rightarrow> int \<times> kernel" where
  "allocpid k = (nextpid k, k\<lparr>nextpid := nextpid k + 1\<rparr>)"

text \<open>The first slot of the given ones that is not in use; what is done with the slot found.\<close>

fun unused_slot :: "nat list \<Rightarrow> kernel \<Rightarrow> nat option" where
  "unused_slot [] k = None"
| "unused_slot (i # is) k = (if p_state (procs k ! i) = UNUSED then Some i else unused_slot is k)"

definition init_slot :: "int \<Rightarrow> proc \<Rightarrow> proc" where
  "init_slot pid p = p\<lparr>p_pid := pid, p_state := USED, p_trace_mask := 0, p_runticks := 0, p_waitticks := 0,
     p_syscall_count := 0, p_tickets := SCHED_DEFAULT_TICKETS, p_sched_selections := 0,
     p_pagefaults := 0, p_pagefaults_failed := 0\<rparr>"

definition alloc_at :: "nat \<Rightarrow> kernel \<Rightarrow> nat option \<times> kernel" where
  "alloc_at i k =
     (let (pid, k) = allocpid k;
          k = upd i (init_slot pid) k;
          (got_trapframe, k) = succeeds k
      in if \<not> got_trapframe then (None, freeproc i k)
         else
           let k = upd i (p_trapframe_update (\<lambda>_. True)) k;
               (got_pagetable, k) = succeeds k
           in if \<not> got_pagetable then (None, freeproc i k)
              else (Some i, upd i (p_pagetable_update (\<lambda>_. True)) k))"

definition allocproc :: "kernel \<Rightarrow> nat option \<times> kernel" where
  "allocproc k = (case unused_slot [0..<NPROC] k of None \<Rightarrow> (None, k) | Some i \<Rightarrow> alloc_at i k)"

text \<open>\<open>None\<close>: the first process could not be allocated, and the code follows a null pointer.\<close>

definition userinit :: "kernel \<Rightarrow> kernel option" where
  "userinit k =
     (case allocproc k of
        (None, k) \<Rightarrow> None
      | (Some i, k) \<Rightarrow> Some (upd i (p_state_update (\<lambda>_. RUNNABLE)) (k\<lparr>initproc := Some i\<rparr>)))"

subsection \<open>Fork\<close>

text \<open>\<open>safestrcpy\<close> into an array of \<open>n\<close> bytes, on the strings the arrays hold.\<close>

definition copied_name :: "nat \<Rightarrow> string \<Rightarrow> string" where
  "copied_name n s = take (n - 1) s"

text \<open>
  The three sections of \<open>kfork\<close>: the child is made under its own lock, its parent is set under
  \<open>wait_lock\<close>, and it becomes runnable under its own lock again.
\<close>

definition kfork_copy :: "nat \<Rightarrow> nat option \<times> kernel \<Rightarrow> nat option \<times> kernel" where
  "kfork_copy me r =
     (case r of
        (None, k) \<Rightarrow> (None, k)
      | (Some np, k) \<Rightarrow>
          let (copied, k) = succeeds k in
          if \<not> copied then (None, freeproc np k)
          else
            let p = procs k ! me in
            (Some np, upd np (\<lambda>c. c\<lparr>p_sz := p_sz p, p_a0 := 0, p_a1 := p_a1 p, p_a7 := p_a7 p,
               p_name := copied_name 16 (p_name p), p_trace_mask := p_trace_mask p,
               p_tickets := p_tickets p\<rparr>) k))"

definition kfork_create :: "nat \<Rightarrow> kernel \<Rightarrow> nat option \<times> kernel" where
  "kfork_create me k = kfork_copy me (allocproc k)"

definition kfork_parent :: "nat \<Rightarrow> nat \<Rightarrow> kernel \<Rightarrow> kernel" where
  "kfork_parent me np = upd np (p_parent_update (\<lambda>_. Some me))"

definition kfork_start :: "nat \<Rightarrow> kernel \<Rightarrow> kernel" where
  "kfork_start np = upd np (p_state_update (\<lambda>_. RUNNABLE))"

definition kfork :: "nat \<Rightarrow> kernel \<Rightarrow> int \<times> kernel" where
  "kfork me k =
     (case kfork_create me k of
        (None, k) \<Rightarrow> (-1, k)
      | (Some np, k) \<Rightarrow> (p_pid (procs k ! np), kfork_start np (kfork_parent me np k)))"

subsection \<open>Sleep, wakeup and kill\<close>

text \<open>
  \<open>sleep\<close> up to the switch, and from the switch back on.  \<open>sleep_start\<close> is the tick count before; the
  difference is taken in 32 bits.
\<close>

definition sleep_enter :: "nat \<Rightarrow> channel \<Rightarrow> kernel \<Rightarrow> kernel" where
  "sleep_enter me ch = upd me (\<lambda>p. p\<lparr>p_chan := Some ch, p_state := SLEEPING\<rparr>)"

definition sleep_leave :: "nat \<Rightarrow> u32 \<Rightarrow> kernel \<Rightarrow> kernel" where
  "sleep_leave me sleep_start k =
     upd me (\<lambda>p. p\<lparr>p_chan := None, p_waitticks := p_waitticks p + ucast (ticks k - sleep_start)\<rparr>) k"

definition yield_enter :: "nat \<Rightarrow> kernel \<Rightarrow> kernel" where
  "yield_enter me = upd me (p_state_update (\<lambda>_. RUNNABLE))"

text \<open>A null channel is \<open>None\<close>; the caller's own slot is passed over.\<close>

definition wakeup_slot :: "nat option \<Rightarrow> channel option \<Rightarrow> nat \<Rightarrow> kernel \<Rightarrow> kernel" where
  "wakeup_slot me ch i k =
     (if me = Some i then k
      else if p_state (procs k ! i) = SLEEPING \<and> p_chan (procs k ! i) = ch
      then upd i (p_state_update (\<lambda>_. RUNNABLE)) k else k)"

definition wakeup :: "nat option \<Rightarrow> channel option \<Rightarrow> kernel \<Rightarrow> kernel" where
  "wakeup me ch = fold (wakeup_slot me ch) [0..<NPROC]"

definition kill_proc :: "proc \<Rightarrow> proc" where
  "kill_proc p = (let p = p\<lparr>p_killed := 1\<rparr> in if p_state p = SLEEPING then p\<lparr>p_state := RUNNABLE\<rparr> else p)"

fun kkill_scan :: "nat list \<Rightarrow> int \<Rightarrow> kernel \<Rightarrow> int \<times> kernel" where
  "kkill_scan [] pid k = (-1, k)"
| "kkill_scan (i # is) pid k =
     (if p_pid (procs k ! i) = pid then (0, upd i kill_proc k) else kkill_scan is pid k)"

definition kkill :: "int \<Rightarrow> kernel \<Rightarrow> int \<times> kernel" where
  "kkill = kkill_scan [0..<NPROC]"

definition setkilled :: "nat \<Rightarrow> kernel \<Rightarrow> kernel" where
  "setkilled i = upd i (p_killed_update (\<lambda>_. 1))"

definition is_killed :: "nat \<Rightarrow> kernel \<Rightarrow> bool" where
  "is_killed i k \<longleftrightarrow> p_killed (procs k ! i) \<noteq> 0"

subsection \<open>Exit and wait\<close>

definition reparent_slot :: "nat \<Rightarrow> nat \<Rightarrow> kernel \<Rightarrow> kernel" where
  "reparent_slot me i k =
     (if p_parent (procs k ! i) = Some me
      then wakeup (Some me) (map_option ChanProc (initproc k)) (upd i (p_parent_update (\<lambda>_. initproc k)) k)
      else k)"

definition reparent :: "nat \<Rightarrow> kernel \<Rightarrow> kernel" where
  "reparent me = fold (reparent_slot me) [0..<NPROC]"

definition become_zombie :: "nat \<Rightarrow> int \<Rightarrow> kernel \<Rightarrow> kernel" where
  "become_zombie me status = upd me (\<lambda>p. p\<lparr>p_xstate := status, p_state := ZOMBIE\<rparr>)"

text \<open>\<open>kexit\<close> up to the switch it does not come back from; \<open>None\<close> is the panic of an exiting \<open>init\<close>.\<close>

definition kexit :: "nat \<Rightarrow> int \<Rightarrow> kernel \<Rightarrow> kernel option" where
  "kexit me status k =
     (if initproc k = Some me then None
      else
        let k = reparent me k;
            k = wakeup (Some me) (map_option ChanProc (p_parent (procs k ! me))) k
        in Some (become_zombie me status k))"

text \<open>
  One pass of \<open>kwait\<close> over the table, and what comes of it.  \<open>addr\<close> says whether the caller asked for
  the exit status; writing it to user memory may fail.
\<close>

datatype wait_result = Reaped int | WaitFailed | WaitSleeps

fun kwait_scan :: "nat list \<Rightarrow> nat \<Rightarrow> bool \<Rightarrow> bool \<Rightarrow> kernel \<Rightarrow> wait_result \<times> kernel" where
  "kwait_scan [] me addr havekids k =
     (if \<not> havekids \<or> is_killed me k then (WaitFailed, k) else (WaitSleeps, k))"
| "kwait_scan (i # is) me addr havekids k =
     (if p_parent (procs k ! i) = Some me then
        if p_state (procs k ! i) = ZOMBIE then
          let (written, k) = (if addr then succeeds k else (True, k)) in
          if \<not> written then (WaitFailed, k)
          else (Reaped (p_pid (procs k ! i)), freeproc i k)
        else kwait_scan is me addr True k
      else kwait_scan is me addr havekids k)"

definition kwait_pass :: "nat \<Rightarrow> bool \<Rightarrow> kernel \<Rightarrow> wait_result \<times> kernel" where
  "kwait_pass me addr = kwait_scan [0..<NPROC] me addr False"

subsection \<open>One slot at a time\<close>

lemma nth_update: "c < length xs \<Longrightarrow> xs[i := v] ! c = (if i = c then v else xs ! c)"
  by (simp add: nth_list_update)

lemma procs_upd [simp]: "procs (upd i f k) = (procs k)[i := f (procs k ! i)]"
  by (simp add: upd_def)

lemma upd_frame [simp]:
  "cpus (upd i f k) = cpus k" "nextpid (upd i f k) = nextpid k" "initproc (upd i f k) = initproc k"
  "sched_policy (upd i f k) = sched_policy k" "rng_state (upd i f k) = rng_state k" "ticks (upd i f k) = ticks k"
  "console (upd i f k) = console k" "outcomes (upd i f k) = outcomes k"
  by (simp_all add: upd_def)

lemma succeeds_frame:
  "succeeds k = (b, k') \<Longrightarrow> procs k' = procs k \<and> cpus k' = cpus k \<and> nextpid k' = nextpid k \<and>
    initproc k' = initproc k \<and> sched_policy k' = sched_policy k \<and> rng_state k' = rng_state k \<and> ticks k' = ticks k"
  by (auto simp: succeeds_def split: list.splits)

end
