(* ===== verification/Xv6_Sched.thy ===== *)
theory Xv6_Sched
  imports Xv6_Proc
begin

text \<open>
  The scheduler of xv6-plus (kernel/proc.c): round robin and the lottery, each a walk over the process table
  that takes one process lock at a time.  What the other harts, and a process that was switched to, do
  before this hart's next step is a script of state changes, \<open>interference\<close>, of which every lock taken
  and every switch consumes one; an empty script is a hart left alone.  The theorems about races hold for
  every script that satisfies what they assume of it.
\<close>

subsection \<open>The code\<close>

type_synonym interference = "(kernel \<Rightarrow> kernel) list"

fun others :: "kernel \<times> interference \<Rightarrow> kernel \<times> interference" where
  "others (k, []) = (k, [])"
| "others (k, e # es) = (e k, es)"

text \<open>\<open>run_selected\<close>: from the lock of the chosen process to its switch back, on hart \<open>c\<close>.\<close>

definition select :: "nat \<Rightarrow> nat \<Rightarrow> kernel \<Rightarrow> kernel" where
  "select c i k =
     (upd i (\<lambda>p. p\<lparr>p_state := RUNNING, p_sched_selections := p_sched_selections p + 1\<rparr>) k)
       \<lparr>cpus := (cpus k)[c := Some i]\<rparr>"

definition run_selected :: "nat \<Rightarrow> nat \<Rightarrow> kernel \<times> interference \<Rightarrow> kernel \<times> interference" where
  "run_selected c i = (\<lambda>(k, es).
     case others (select c i k, es) of (k, es) \<Rightarrow> (k\<lparr>cpus := (cpus k)[c := None]\<rparr>, es))"

fun roundrobin_scan :: "nat \<Rightarrow> nat list \<Rightarrow> bool \<Rightarrow> kernel \<times> interference \<Rightarrow> bool \<times> kernel \<times> interference" where
  "roundrobin_scan c [] found s = (found, s)"
| "roundrobin_scan c (i # is) found s =
     (case others s of (k, es) \<Rightarrow>
        if p_state (procs k ! i) = RUNNABLE
        then roundrobin_scan c is True (run_selected c i (k, es))
        else roundrobin_scan c is found (k, es))"

definition schedule_roundrobin :: "nat \<Rightarrow> kernel \<times> interference \<Rightarrow> bool \<times> kernel \<times> interference" where
  "schedule_roundrobin c = roundrobin_scan c [0..<NPROC] False"

definition lottery_step :: "u32 \<Rightarrow> u32" where
  "lottery_step x =
     (let x = x XOR push_bit 13 x;
          x = x XOR drop_bit 17 x
      in x XOR push_bit 5 x)"

definition lottery_rand :: "kernel \<Rightarrow> u32 \<times> kernel" where
  "lottery_rand k = (let x = lottery_step (rng_state k) in (x, k\<lparr>rng_state := x\<rparr>))"

fun total_scan :: "nat list \<Rightarrow> u64 \<Rightarrow> kernel \<times> interference \<Rightarrow> u64 \<times> kernel \<times> interference" where
  "total_scan [] tot s = (tot, s)"
| "total_scan (i # is) tot s =
     (case others s of (k, es) \<Rightarrow>
        total_scan is (if p_state (procs k ! i) = RUNNABLE then tot + of_int (p_tickets (procs k ! i)) else tot)
          (k, es))"

definition runnable_ticket_total :: "kernel \<times> interference \<Rightarrow> u64 \<times> kernel \<times> interference" where
  "runnable_ticket_total = total_scan [0..<NPROC] 0"

fun first_scan :: "nat \<Rightarrow> nat list \<Rightarrow> kernel \<times> interference \<Rightarrow> bool \<times> kernel \<times> interference" where
  "first_scan c [] s = (False, s)"
| "first_scan c (i # is) s =
     (case others s of (k, es) \<Rightarrow>
        if p_state (procs k ! i) = RUNNABLE then (True, run_selected c i (k, es))
        else first_scan c is (k, es))"

definition pick_first_runnable :: "nat \<Rightarrow> kernel \<times> interference \<Rightarrow> bool \<times> kernel \<times> interference" where
  "pick_first_runnable c = first_scan c [0..<NPROC]"

text \<open>The walk of \<open>draw_and_run\<close> for a given winner, and the draw itself.\<close>

fun draw_scan :: "nat \<Rightarrow> u64 \<Rightarrow> nat list \<Rightarrow> u64 \<Rightarrow> kernel \<times> interference \<Rightarrow> bool \<times> kernel \<times> interference" where
  "draw_scan c winner [] cum s = (False, s)"
| "draw_scan c winner (i # is) cum s =
     (case others s of (k, es) \<Rightarrow>
        if p_state (procs k ! i) = RUNNABLE then
          let cum = cum + of_int (p_tickets (procs k ! i)) in
          if cum > winner then (True, run_selected c i (k, es))
          else draw_scan c winner is cum (k, es)
        else draw_scan c winner is cum (k, es))"

definition draw_and_run :: "nat \<Rightarrow> u64 \<Rightarrow> kernel \<times> interference \<Rightarrow> bool \<times> kernel \<times> interference" where
  "draw_and_run c tot s =
     (case others s of (k, es) \<Rightarrow>
        case lottery_rand k of (r, k) \<Rightarrow>
          draw_scan c (ucast r mod tot) [0..<NPROC] 0 (k, es))"

definition SCHED_LOTTERY_MAX_ATTEMPTS :: nat where
  "SCHED_LOTTERY_MAX_ATTEMPTS = 4"

fun lottery_attempts :: "nat \<Rightarrow> nat \<Rightarrow> kernel \<times> interference \<Rightarrow> bool \<times> kernel \<times> interference" where
  "lottery_attempts c 0 s = pick_first_runnable c s"
| "lottery_attempts c (Suc n) s =
     (case runnable_ticket_total s of (tot, s) \<Rightarrow>
        if tot = 0 then pick_first_runnable c s
        else (case draw_and_run c tot s of (drawn, s) \<Rightarrow>
                if drawn then (True, s) else lottery_attempts c n s))"

definition schedule_lottery :: "nat \<Rightarrow> kernel \<times> interference \<Rightarrow> bool \<times> kernel \<times> interference" where
  "schedule_lottery c = lottery_attempts c SCHED_LOTTERY_MAX_ATTEMPTS"

text \<open>One turn of the loop in \<open>scheduler\<close>; the policy is read without a lock.\<close>

definition scheduler_turn :: "nat \<Rightarrow> kernel \<times> interference \<Rightarrow> bool \<times> kernel \<times> interference" where
  "scheduler_turn c s =
     (case others s of (k, es) \<Rightarrow>
        if sched_policy k = SCHED_LOTTERY then schedule_lottery c (k, es)
        else schedule_roundrobin c (k, es))"

definition sched_settickets :: "nat \<Rightarrow> int \<Rightarrow> kernel \<Rightarrow> int \<times> kernel" where
  "sched_settickets me n k =
     (if n < 0 \<or> n > SCHED_MAX_TICKETS then (-1, k)
      else (0, upd me (p_tickets_update (\<lambda>_. n)) k))"

definition sched_setpolicy :: "int \<Rightarrow> kernel \<Rightarrow> int \<times> kernel" where
  "sched_setpolicy policy k =
     (if policy \<noteq> SCHED_RR \<and> policy \<noteq> SCHED_LOTTERY then (-1, k)
      else (sched_policy k, k\<lparr>sched_policy := policy\<rparr>))"

subsection \<open>The generator\<close>

lemma push_xor_cancel:
  fixes z :: u32
  assumes "z = push_bit n z" and "n > 0"
  shows "z = 0"
proof (rule bit_word_eqI)
  fix i
  assume "i < LENGTH(32)"
  have "\<not> bit z i" for i
  proof (induction i rule: less_induct)
    case (less i)
    have "bit z i = bit (push_bit n z) i" using assms(1) by simp
    also have "\<dots> = (n \<le> i \<and> i < 32 \<and> bit z (i - n))"
      using bit_imp_le_length [of z i] by (auto simp: bit_push_bit_iff)
    finally show ?case using less [of "i - n"] assms(2) by auto
  qed
  then show "bit z i \<longleftrightarrow> bit (0 :: u32) i" by simp
qed

lemma drop_xor_cancel:
  fixes z :: u32
  assumes "z = drop_bit n z" and "n > 0"
  shows "z = 0"
proof (rule bit_word_eqI)
  fix i
  have "j \<le> 32 \<Longrightarrow> \<not> bit z (32 - j)" for j
  proof (induction j rule: less_induct)
    case (less j)
    show ?case
    proof (cases "j = 0")
      case True
      then show ?thesis using bit_imp_le_length [of z 32] by auto
    next
      case False
      have "bit z (32 - j) = bit (drop_bit n z) (32 - j)" using assms(1) by simp
      then have eq: "bit z (32 - j) = bit z (n + (32 - j))" by (simp add: bit_drop_bit_eq)
      show ?thesis
      proof (cases "n + (32 - j) < 32")
        case True
        then have "n + (32 - j) = 32 - (j - n)" and "j - n < j" and "j - n \<le> 32"
          using False assms(2) less.prems by auto
        with eq less.IH show ?thesis by metis
      next
        case False
        then show ?thesis using eq bit_imp_le_length [of z "n + (32 - j)"] by auto
      qed
    qed
  qed
  then have "i \<le> 32 \<Longrightarrow> \<not> bit z i" by (metis diff_diff_cancel diff_le_self)
  moreover assume "i < LENGTH(32)"
  ultimately show "bit z i \<longleftrightarrow> bit (0 :: u32) i" by simp
qed

lemma xorshift_inj:
  fixes f :: "u32 \<Rightarrow> u32"
  assumes lin: "\<And>x y. f (x XOR y) = f x XOR f y" and nil: "\<And>z. z = f z \<Longrightarrow> z = 0"
  shows "inj (\<lambda>x. x XOR f x)"
proof (rule injI)
  fix x y
  assume eq: "x XOR f x = y XOR f y"
  have "x XOR y = f (x XOR y)"
  proof -
    have "f (x XOR y) = (x XOR (x XOR f x)) XOR f y" by (simp add: lin xor.assoc [symmetric])
    also have "\<dots> = x XOR y" by (simp only: eq) (simp add: xor.assoc)
    finally show ?thesis by simp
  qed
  then have "x XOR y = 0" by (rule nil)
  then have "(x XOR y) XOR y = y" by simp
  then show "x = y" by (simp add: xor.assoc)
qed

lemma inj_lottery_step: "inj lottery_step"
proof -
  have 1: "inj (\<lambda>x::u32. x XOR push_bit n x)" if "n > 0" for n
    by (rule xorshift_inj) (use that push_xor_cancel in \<open>auto simp: push_bit_xor\<close>)
  have 2: "inj (\<lambda>x::u32. x XOR drop_bit n x)" if "n > 0" for n
    by (rule xorshift_inj) (use that drop_xor_cancel in \<open>auto simp: drop_bit_xor\<close>)
  have "lottery_step = (\<lambda>x. x XOR push_bit 5 x) \<circ> (\<lambda>x. x XOR drop_bit 17 x) \<circ> (\<lambda>x. x XOR push_bit 13 x)"
    by (rule ext) (simp add: lottery_step_def Let_def)
  show ?thesis
    unfolding \<open>lottery_step = _\<close> by (intro inj_compose 1 2) simp_all
qed

lemma lottery_step_nonzero: "x \<noteq> 0 \<Longrightarrow> lottery_step x \<noteq> 0"
proof
  assume "x \<noteq> 0" and "lottery_step x = 0"
  moreover have "lottery_step 0 = 0" by (simp add: lottery_step_def)
  ultimately show False using inj_lottery_step by (metis injD)
qed

lemma surj_lottery_step: "surj lottery_step"
  by (rule finite_UNIV_inj_surj [OF _ inj_lottery_step]) simp

subsection \<open>The draw of a hart left alone\<close>

text \<open>
  \<open>share\<close> is what a slot contributes to the draw; \<open>holder\<close> the slot that holds a winning number when the
  shares are laid end to end in table order.
\<close>

definition share :: "kernel \<Rightarrow> nat \<Rightarrow> nat" where
  "share k i = (if p_state (procs k ! i) = RUNNABLE then nat (p_tickets (procs k ! i)) else 0)"

fun holder :: "(nat \<Rightarrow> nat) \<Rightarrow> nat list \<Rightarrow> nat \<Rightarrow> nat option" where
  "holder f [] w = None"
| "holder f (i # js) w = (if w < f i then Some i else holder f js (w - f i))"

definition tickets_ok :: "kernel \<Rightarrow> bool" where
  "tickets_ok k \<longleftrightarrow> length (procs k) = NPROC \<and> (\<forall>p\<in>set (procs k). 0 \<le> p_tickets p \<and> p_tickets p \<le> SCHED_MAX_TICKETS)"

definition tickets_in_play :: "kernel \<Rightarrow> nat" where
  "tickets_in_play k = (\<Sum>i\<leftarrow>[0..<NPROC]. share k i)"

lemma holder_count:
  "distinct xs \<Longrightarrow> card {w. w < sum_list (map f xs) \<and> holder f xs w = Some i} = (if i \<in> set xs then f i else 0)"
proof (induction xs)
  case (Cons j js)
  let ?L = "{w. w < sum_list (map f js) \<and> holder f js w = Some i}"
  have split: "{w. w < sum_list (map f (j # js)) \<and> holder f (j # js) w = Some i} =
      {w. w < f j \<and> i = j} \<union> (\<lambda>w. w + f j) ` ?L" (is "?A = ?B")
  proof (rule set_eqI)
    fix w
    show "w \<in> ?A \<longleftrightarrow> w \<in> ?B"
      by (cases "w < f j") (auto simp: image_iff intro!: exI [of _ "w - f j"])
  qed
  have "card ?B = card {w. w < f j \<and> i = j} + card ((\<lambda>w. w + f j) ` ?L)"
    by (rule card_Un_disjoint) auto
  also have "card ((\<lambda>w. w + f j) ` ?L) = card ?L" by (rule card_image) (auto simp: inj_on_def)
  finally have "card ?A = card {w. w < f j \<and> i = j} + card ?L" unfolding split .
  with Cons show ?case by (cases "i = j") (simp_all del: holder.simps)
qed simp

lemma holder_some: "w < sum_list (map f xs) \<Longrightarrow> \<exists>i\<in>set xs. holder f xs w = Some i \<and> f i > 0"
proof (induction xs arbitrary: w)
  case (Cons j js)
  show ?case
  proof (cases "w < f j")
    case False
    then have "w - f j < sum_list (map f js)" using Cons.prems by auto
    from Cons.IH [OF this] False show ?thesis by auto
  qed auto
qed simp

lemma tickets_of_slot:
  assumes "tickets_ok k" and "i < NPROC"
  shows "0 \<le> p_tickets (procs k ! i)" and "p_tickets (procs k ! i) \<le> SCHED_MAX_TICKETS"
    and "share k i \<le> 100000"
proof -
  have "procs k ! i \<in> set (procs k)" using assms by (auto simp: tickets_ok_def)
  then show *: "0 \<le> p_tickets (procs k ! i)" "p_tickets (procs k ! i) \<le> SCHED_MAX_TICKETS"
    using assms(1) by (auto simp: tickets_ok_def)
  then show "share k i \<le> 100000" by (auto simp: share_def SCHED_MAX_TICKETS_def nat_le_iff)
qed

lemma shares_bound:
  assumes "tickets_ok k" and "set xs \<subseteq> {..<NPROC}"
  shows "(\<Sum>i\<leftarrow>xs. share k i) \<le> length xs * 100000"
  using assms(2)
proof (induction xs)
  case (Cons i xs)
  then show ?case using tickets_of_slot(3) [OF assms(1), of i] by auto
qed simp

lemma tickets_in_play_bound: "tickets_ok k \<Longrightarrow> tickets_in_play k \<le> 6400000"
  using shares_bound [of k "[0..<NPROC]"] unfolding tickets_in_play_def by (simp add: NPROC_def lessThan_atLeast0)

lemma of_int_tickets:
  assumes "tickets_ok k" and "i < NPROC" and "p_state (procs k ! i) = RUNNABLE"
  shows "(of_int (p_tickets (procs k ! i)) :: u64) = of_nat (share k i)"
  using tickets_of_slot(1) [OF assms(1,2)] assms(3) by (simp add: share_def of_nat_nat)

lemma total_scan_alone:
  assumes "tickets_ok k" and "set xs \<subseteq> {..<NPROC}"
  shows "total_scan xs t (k, []) = (t + of_nat (\<Sum>i\<leftarrow>xs. share k i), k, [])"
  using assms(2)
proof (induction xs arbitrary: t)
  case (Cons i xs)
  then show ?case using of_int_tickets [OF assms(1), of i] by (auto simp: share_def algebra_simps)
qed simp

lemma runnable_ticket_total_alone:
  "tickets_ok k \<Longrightarrow> runnable_ticket_total (k, []) = (of_nat (tickets_in_play k), k, [])"
  using total_scan_alone [of k "[0..<NPROC]" 0]
  by (simp add: runnable_ticket_total_def tickets_in_play_def lessThan_atLeast0)

lemma draw_scan_alone:
  assumes "tickets_ok k" and "set xs \<subseteq> {..<NPROC}" and "length xs \<le> NPROC"
    and "cum + (\<Sum>i\<leftarrow>xs. share k i) < 2 ^ 64" and "cum \<le> unat w"
  shows "draw_scan c w xs (of_nat cum) (k, []) =
    (case holder (share k) xs (unat w - cum) of None \<Rightarrow> (False, k, []) | Some i \<Rightarrow> (True, run_selected c i (k, [])))"
  using assms(2-5)
proof (induction xs arbitrary: cum)
  case (Cons i xs)
  show ?case
  proof (cases "p_state (procs k ! i) = RUNNABLE")
    case True
    have sum: "(of_nat cum :: u64) + of_int (p_tickets (procs k ! i)) = of_nat (cum + share k i)"
      using of_int_tickets [OF assms(1) _ True] Cons.prems by simp
    have "unat (of_nat (cum + share k i) :: u64) = cum + share k i"
      using Cons.prems by (simp only: unat_of_nat) (simp add: take_bit_nat_eq_self)
    then have cmp: "(of_nat (cum + share k i) :: u64) > w \<longleftrightarrow> unat w - cum < share k i"
      using Cons.prems by (simp only: word_less_nat_alt) linarith
    show ?thesis
      using Cons.IH [of "cum + share k i"] Cons.prems True cmp sum by (simp add: not_less add.assoc)
  next
    case False
    then show ?thesis using Cons.IH [of cum] Cons.prems by (simp add: share_def)
  qed
qed simp

lemma draw_alone:
  assumes "tickets_ok k"
  shows "draw_scan c w [0..<NPROC] 0 (k, []) =
    (case holder (share k) [0..<NPROC] (unat w) of None \<Rightarrow> (False, k, []) | Some i \<Rightarrow> (True, run_selected c i (k, [])))"
  using draw_scan_alone [OF assms, of "[0..<NPROC]" 0 w c] tickets_in_play_bound [OF assms]
  by (simp add: tickets_in_play_def lessThan_atLeast0)

text \<open>The slot a draw has selected can be read off the result.\<close>

lemma run_selected_alone:
  "run_selected c i (k, []) = (let k = select c i k in k\<lparr>cpus := (cpus k)[c := None]\<rparr>, [])"
  by (simp add: run_selected_def Let_def)

lemma run_selected_inj:
  assumes "run_selected c i (k, []) = run_selected c j (k, [])" and "i < length (procs k)"
    and "p_state (procs k ! i) = RUNNABLE"
  shows "i = j"
proof (rule ccontr)
  assume "i \<noteq> j"
  have "p_state (procs (fst (run_selected c i (k, []))) ! i) = p_state (procs (fst (run_selected c j (k, []))) ! i)"
    using assms(1) by simp
  with \<open>i \<noteq> j\<close> assms(2,3) show False by (simp add: run_selected_alone select_def upd_def Let_def)
qed

subsection \<open>How many winners, and how many random values, select a slot\<close>

lemma card_unat: "card {w :: 'a::len word. P (unat w)} = card {n. n < 2 ^ LENGTH('a) \<and> P n}"
proof (rule bij_betw_same_card [of unat])
  have "unat ` {w :: 'a word. P (unat w)} = {n. n < 2 ^ LENGTH('a) \<and> P n}"
  proof (rule set_eqI)
    fix n
    show "n \<in> unat ` {w :: 'a word. P (unat w)} \<longleftrightarrow> n \<in> {n. n < 2 ^ LENGTH('a) \<and> P n}"
      by (auto simp: of_nat_inverse intro!: image_eqI [of _ _ "of_nat n :: 'a word"])
  qed
  then show "bij_betw unat {w :: 'a word. P (unat w)} {n. n < 2 ^ LENGTH('a) \<and> P n}"
    by (auto simp: bij_betw_def inj_on_def word_unat_eq_iff)
qed

lemma residue_block:
  fixes t :: nat
  assumes "A \<subseteq> {..<t}" and "t > 0"
  shows "{n. q * t \<le> n \<and> n < q * t + t \<and> n mod t \<in> A} = (\<lambda>a. q * t + a) ` A"
proof (intro set_eqI iffI)
  fix n
  assume n: "n \<in> {n. q * t \<le> n \<and> n < q * t + t \<and> n mod t \<in> A}"
  then have "n - q * t < t" and "n = q * t + (n - q * t)" by auto
  then have "n mod t = n - q * t" by (metis mod_less mod_mult_self3)
  with n show "n \<in> (\<lambda>a. q * t + a) ` A" by (auto intro!: image_eqI [of _ _ "n - q * t"])
next
  fix n
  assume "n \<in> (\<lambda>a. q * t + a) ` A"
  then show "n \<in> {n. q * t \<le> n \<and> n < q * t + t \<and> n mod t \<in> A}" using assms(1) by auto
qed

lemma card_residue_block:
  fixes t :: nat
  assumes "A \<subseteq> {..<t}" and "t > 0"
  shows "card {n. q * t \<le> n \<and> n < q * t + t \<and> n mod t \<in> A} = card A"
  unfolding residue_block [OF assms] by (rule card_image) (auto simp: inj_on_def)

lemma card_residues:
  assumes "A \<subseteq> {..<t}" and "t > 0"
  shows "card {n. n < q * t \<and> n mod t \<in> A} = q * card A"
proof (induction q)
  case (Suc q)
  have "{n. n < Suc q * t \<and> n mod t \<in> A} =
      {n. n < q * t \<and> n mod t \<in> A} \<union> {n. q * t \<le> n \<and> n < q * t + t \<and> n mod t \<in> A}"
    by auto
  then show ?case
    using Suc card_residue_block [OF assms, of q] by (simp add: card_Un_disjoint disjoint_iff)
qed simp

lemma card_residues_upto:
  assumes "A \<subseteq> {..<t}" and "t > 0"
  shows "(n div t) * card A \<le> card {m. m < n \<and> m mod t \<in> A}"
    and "card {m. m < n \<and> m mod t \<in> A} \<le> (n div t + 1) * card A"
proof -
  have "n < (n div t + 1) * t" using assms(2) dividend_less_div_times [of t n] by (simp add: algebra_simps)
  then have "{m. m < n \<and> m mod t \<in> A} \<subseteq> {m. m < (n div t + 1) * t \<and> m mod t \<in> A}"
    by auto
  moreover have "{m. m < (n div t) * t \<and> m mod t \<in> A} \<subseteq> {m. m < n \<and> m mod t \<in> A}"
    by (auto intro: order.strict_trans2 [OF _ div_times_less_eq_dividend])
  ultimately have "card {m. m < (n div t) * t \<and> m mod t \<in> A} \<le> card {m. m < n \<and> m mod t \<in> A}"
    and "card {m. m < n \<and> m mod t \<in> A} \<le> card {m. m < (n div t + 1) * t \<and> m mod t \<in> A}"
    by (auto intro!: card_mono)
  then show "(n div t) * card A \<le> card {m. m < n \<and> m mod t \<in> A}"
    and "card {m. m < n \<and> m mod t \<in> A} \<le> (n div t + 1) * card A"
    unfolding card_residues [OF assms] .
qed

lemma card_lottery_step: "card {x. P (lottery_step x)} = card {x. P x}"
proof (rule bij_betw_same_card [of lottery_step])
  have "lottery_step ` {x. P (lottery_step x)} = {x. P x}" using surj_lottery_step by auto
  then show "bij_betw lottery_step {x. P (lottery_step x)} {x. P x}"
    using inj_lottery_step by (auto simp: bij_betw_def inj_on_def)
qed

text \<open>A draw with the winner taken from the generator.\<close>

lemma draw_and_run_alone:
  assumes "tickets_ok k" and "tickets_in_play k > 0"
  obtains j where "j < NPROC" and "share k j > 0"
    and "holder (share k) [0..<NPROC] (unat (lottery_step (rng_state k)) mod tickets_in_play k) = Some j"
    and "draw_and_run c (of_nat (tickets_in_play k)) (k, []) =
      (True, run_selected c j (k\<lparr>rng_state := lottery_step (rng_state k)\<rparr>, []))"
proof -
  let ?r = "lottery_step (rng_state k)" and ?t = "tickets_in_play k"
  let ?k = "k\<lparr>rng_state := ?r\<rparr>"
  have k': "tickets_ok ?k" "share ?k = share k"
    using assms(1) by (auto simp: tickets_ok_def share_def fun_eq_iff)
  have "unat ?r mod ?t < ?t" using assms(2) by simp
  then obtain j where j: "j \<in> set [0..<NPROC]" "share k j > 0" "holder (share k) [0..<NPROC] (unat ?r mod ?t) = Some j"
    using holder_some [of "unat ?r mod ?t" "share k" "[0..<NPROC]"] unfolding tickets_in_play_def by blast
  have "unat (of_nat ?t :: u64) = ?t"
    using tickets_in_play_bound [OF assms(1)] by (intro of_nat_inverse) simp_all
  then have "unat (ucast ?r mod of_nat ?t :: u64) = unat ?r mod ?t"
    by (simp add: unat_mod_distrib unsigned_ucast_eq take_bit_nat_eq_self unsigned_less [THEN less_trans])
  then have "draw_and_run c (of_nat ?t) (k, []) = (True, run_selected c j (?k, []))"
    using j(3) by (simp add: draw_and_run_def lottery_rand_def draw_alone [OF k'(1)] k'(2) Let_def)
  with j that show ?thesis by simp
qed

subsection \<open>A process that stays runnable\<close>

text \<open>The other harts leave the slot \<open>j\<close> runnable: nobody else selects it, and it does not block.\<close>

definition ready :: "nat \<Rightarrow> kernel \<Rightarrow> bool" where
  "ready j k \<longleftrightarrow> length (procs k) = NPROC \<and> j < NPROC \<and> p_state (procs k ! j) = RUNNABLE"

definition leave_ready :: "nat \<Rightarrow> interference \<Rightarrow> bool" where
  "leave_ready j es \<longleftrightarrow> (\<forall>e\<in>set es. \<forall>k. ready j k \<longrightarrow> ready j (e k))"

lemma others_ready:
  "ready j k \<Longrightarrow> leave_ready j es \<Longrightarrow> others (k, es) = (k', es') \<Longrightarrow> ready j k' \<and> leave_ready j es'"
  by (cases es) (auto simp: leave_ready_def)

lemma roundrobin_found: "fst (roundrobin_scan c js True s)"
proof (induction js arbitrary: s)
  case (Cons i js)
  then show ?case by (cases "others s") simp
qed simp

lemma roundrobin_finds:
  "ready j k \<Longrightarrow> leave_ready j es \<Longrightarrow> j \<in> set js \<Longrightarrow> fst (roundrobin_scan c js found (k, es))"
proof (induction js arbitrary: k es)
  case (Cons i js)
  obtain k' es' where o: "others (k, es) = (k', es')" by fastforce
  note r = others_ready [OF Cons.prems(1,2) o]
  show ?case
  proof (cases "p_state (procs k' ! i) = RUNNABLE")
    case False
    then have "j \<in> set js" using r Cons.prems(3) by (auto simp: ready_def)
    with Cons.IH r False o show ?thesis by simp
  qed (simp add: o roundrobin_found)
qed simp

lemma first_scan_finds:
  "ready j k \<Longrightarrow> leave_ready j es \<Longrightarrow> j \<in> set js \<Longrightarrow> fst (first_scan c js (k, es))"
proof (induction js arbitrary: k es)
  case (Cons i js)
  obtain k' es' where o: "others (k, es) = (k', es')" by fastforce
  note r = others_ready [OF Cons.prems(1,2) o]
  show ?case
  proof (cases "p_state (procs k' ! i) = RUNNABLE")
    case False
    then have "j \<in> set js" using r Cons.prems(3) by (auto simp: ready_def)
    with Cons.IH r False o show ?thesis by simp
  qed (simp add: o)
qed simp

lemma pick_first_finds: "ready j k \<Longrightarrow> leave_ready j es \<Longrightarrow> fst (pick_first_runnable c (k, es))"
  unfolding pick_first_runnable_def by (rule first_scan_finds) (auto simp: ready_def)

lemma total_scan_ready:
  "ready j k \<Longrightarrow> leave_ready j es \<Longrightarrow> total_scan js t (k, es) = (t', k', es') \<Longrightarrow> ready j k' \<and> leave_ready j es'"
proof (induction js arbitrary: t k es)
  case (Cons i js)
  obtain k1 es1 where o: "others (k, es) = (k1, es1)" by fastforce
  from Cons.IH [of k1 es1] others_ready [OF Cons.prems(1,2) o] Cons.prems(3) o show ?case by simp
qed simp

lemma draw_scan_ready:
  "ready j k \<Longrightarrow> leave_ready j es \<Longrightarrow> draw_scan c w js cum (k, es) = (False, k', es') \<Longrightarrow>
    ready j k' \<and> leave_ready j es'"
proof (induction js arbitrary: cum k es)
  case (Cons i js)
  obtain k1 es1 where o: "others (k, es) = (k1, es1)" by fastforce
  from Cons.IH [of k1 es1] others_ready [OF Cons.prems(1,2) o] Cons.prems(3) o
  show ?case by (auto simp: Let_def split: if_splits)
qed simp

lemma draw_and_run_ready:
  assumes "ready j k" and "leave_ready j es" and "draw_and_run c t (k, es) = (False, k', es')"
  shows "ready j k' \<and> leave_ready j es'"
proof -
  obtain k1 es1 where o: "others (k, es) = (k1, es1)" by fastforce
  obtain x k2 where l: "lottery_rand k1 = (x, k2)" by fastforce
  have "ready j k2"
    using others_ready [OF assms(1,2) o] l by (auto simp: lottery_rand_def ready_def Let_def)
  moreover have "draw_scan c (ucast x mod t) [0..<NPROC] 0 (k2, es1) = (False, k', es')"
    using assms(3) by (simp add: draw_and_run_def o l)
  ultimately show ?thesis using draw_scan_ready others_ready [OF assms(1,2) o] by blast
qed

lemma lottery_finds: "ready j k \<Longrightarrow> leave_ready j es \<Longrightarrow> fst (lottery_attempts c n (k, es))"
proof (induction n arbitrary: k es)
  case 0
  then show ?case by (simp add: pick_first_finds)
next
  case (Suc n)
  obtain t k1 es1 where t: "runnable_ticket_total (k, es) = (t, k1, es1)" by (metis surj_pair)
  then have r1: "ready j k1 \<and> leave_ready j es1"
    using total_scan_ready [OF Suc.prems] unfolding runnable_ticket_total_def by blast
  obtain drawn k2 es2 where d: "draw_and_run c t (k1, es1) = (drawn, k2, es2)" by (metis surj_pair)
  show ?case
    using r1 Suc.IH [of k2 es2] draw_and_run_ready [of j k1 es1 c t k2 es2] d
    by (auto simp: t pick_first_finds)
qed

end
