(* ===== verification/Xv6_Lifecycle.thy ===== *)
theory Xv6_Lifecycle
  imports Xv6_Proc Xv6_Sched
begin

text \<open>
  The processes of xv6-plus on several harts: fork, exit, wait, sleep, wakeup, kill and the scheduler as a
  machine whose steps are the critical sections of kernel/proc.c, in any interleaving.  A process is at one
  of the points \<open>pc\<close> between two of its sections; \<open>wait_owner\<close> is the holder of \<open>wait_lock\<close>, \<open>plock i\<close> says
  that the lock of slot \<open>i\<close> is held across steps, which happens only around a switch.  The walks of
  \<open>reparent\<close>, \<open>wakeup\<close> and \<open>kwait\<close> over the table take one step per slot.

  The machine has more behaviours than the code where the code's choice does not matter here: the scheduler
  may select any runnable slot (what its policies select is the matter of \<open>Xv6_Sched\<close>), \<open>allocproc\<close> may find
  any unused slot (its scan is not atomic), wakeups on channels other than a process happen at any
  time (interrupts do), and so do kills.  Closing the files of an exiting process is not modelled.
\<close>

subsection \<open>The machine\<close>

datatype pc =
    Absent                          \<comment> \<open>no process\<close>
  | Dead                            \<comment> \<open>a zombie\<close>
  | NewBorn                         \<comment> \<open>will return from its first switch into \<open>forkret\<close>\<close>
  | Yielded pc                      \<comment> \<open>in \<open>yield\<close>, at the switch\<close>
  | Asleep u32 "bool option"        \<comment> \<open>in \<open>sleep\<close>, at the switch: since when, and the \<open>addr\<close> of its \<open>kwait\<close>\<close>
  | InUser                          \<comment> \<open>user code, or kernel code that holds none of these locks\<close>
  | Forking nat                     \<comment> \<open>\<open>kfork\<close>: the child is made\<close>
  | ForkStarting nat                \<comment> \<open>\<open>kfork\<close>: the child has its parent\<close>
  | Reparenting int nat             \<comment> \<open>\<open>kexit\<close>: about to look at a slot\<close>
  | WakingInit int nat nat          \<comment> \<open>\<open>kexit\<close>: gave the first slot to init, about to wake the second\<close>
  | WakingParent int nat            \<comment> \<open>\<open>kexit\<close>: about to wake a slot if it is the parent asleep\<close>
  | Dying int                       \<comment> \<open>\<open>kexit\<close>: about to become a zombie\<close>
  | Scanning bool nat bool          \<comment> \<open>\<open>kwait\<close>: about to look at a slot; whether children were seen\<close>
  | Checking bool                   \<comment> \<open>\<open>kwait\<close>: there are children, none has exited\<close>
  | GoingToSleep bool u32           \<comment> \<open>\<open>kwait\<close>: was not killed, calls \<open>sleep\<close>\<close>
  | Relocking bool                  \<comment> \<open>\<open>kwait\<close>: woken up, about to take \<open>wait_lock\<close> again\<close>
  | SleepingOn channel u32          \<comment> \<open>another caller of \<open>sleep\<close>\<close>

record machine =
  kern :: kernel
  at :: "nat \<Rightarrow> pc"
  wait_owner :: "nat option"
  plock :: "nat \<Rightarrow> bool"

abbreviation st :: "machine \<Rightarrow> nat \<Rightarrow> procstate" where
  "st m i \<equiv> p_state (procs (kern m) ! i)"

abbreviation par :: "machine \<Rightarrow> nat \<Rightarrow> nat option" where
  "par m i \<equiv> p_parent (procs (kern m) ! i)"

definition on_cpu :: "machine \<Rightarrow> nat \<Rightarrow> bool" where
  "on_cpu m i \<longleftrightarrow> Some i \<in> set (cpus (kern m))"

text \<open>A process executes while it is on a hart and not in a switch.\<close>

definition runs :: "machine \<Rightarrow> nat \<Rightarrow> bool" where
  "runs m i \<longleftrightarrow> i < NPROC \<and> on_cpu m i \<and> st m i = RUNNING \<and> \<not> plock m i"

text \<open>Points with interrupts enabled, at which the timer may make the process yield.\<close>

fun preemptible :: "pc \<Rightarrow> bool" where
  "preemptible InUser = True"
| "preemptible (Forking c) = True"
| "preemptible (ForkStarting c) = True"
| "preemptible (Relocking a) = True"
| "preemptible (SleepingOn ch s) = True"
| "preemptible _ = False"

text \<open>Where a process is that comes back from a switch.\<close>

fun resumed :: "pc \<Rightarrow> pc" where
  "resumed (Yielded p) = p"
| "resumed (Asleep s (Some a)) = Relocking a"
| "resumed (Asleep s None) = InUser"
| "resumed _ = InUser"

fun parked :: "pc \<Rightarrow> bool" where
  "parked NewBorn = True"
| "parked (Yielded p) = True"
| "parked (Asleep s r) = True"
| "parked _ = False"

definition resume_kernel :: "nat \<Rightarrow> pc \<Rightarrow> kernel \<Rightarrow> kernel" where
  "resume_kernel i p k = (case p of Asleep s r \<Rightarrow> sleep_leave i s k | _ \<Rightarrow> k)"

definition own_channel :: "channel \<Rightarrow> bool" where
  "own_channel ch \<longleftrightarrow> (case ch of ChanProc j \<Rightarrow> True | _ \<Rightarrow> False)"

text \<open>What other code may write to its own process leaves these fields alone.\<close>

definition lifecycle :: "proc \<Rightarrow> procstate \<times> channel option \<times> int \<times> nat option" where
  "lifecycle p = (p_state p, p_chan p, p_pid p, p_parent p)"

inductive step :: "machine \<Rightarrow> machine \<Rightarrow> bool" where
  run: "c < NCPU \<Longrightarrow> cpus (kern m) ! c = None \<Longrightarrow> i < NPROC \<Longrightarrow> \<not> plock m i \<Longrightarrow> st m i = RUNNABLE \<Longrightarrow>
    step m (m\<lparr>kern := select c i (kern m), plock := (plock m)(i := True)\<rparr>)"
| resume: "i < NPROC \<Longrightarrow> on_cpu m i \<Longrightarrow> st m i = RUNNING \<Longrightarrow> plock m i \<Longrightarrow>
    step m (m\<lparr>kern := resume_kernel i (at m i) (kern m), at := (at m)(i := resumed (at m i)),
      plock := (plock m)(i := False)\<rparr>)"
| switch: "c < NCPU \<Longrightarrow> cpus (kern m) ! c = Some i \<Longrightarrow> plock m i \<Longrightarrow> st m i \<noteq> RUNNING \<Longrightarrow>
    step m (m\<lparr>kern := (kern m)\<lparr>cpus := (cpus (kern m))[c := None]\<rparr>, plock := (plock m)(i := False)\<rparr>)"
| yield: "runs m i \<Longrightarrow> preemptible (at m i) \<Longrightarrow>
    step m (m\<lparr>kern := yield_enter i (kern m), at := (at m)(i := Yielded (at m i)), plock := (plock m)(i := True)\<rparr>)"
| fork: "runs m i \<Longrightarrow> at m i = InUser \<Longrightarrow> np < NPROC \<Longrightarrow> st m np = UNUSED \<Longrightarrow> \<not> plock m np \<Longrightarrow>
    kfork_copy i (alloc_at np (kern m)) = (Some c, k) \<Longrightarrow>
    step m (m\<lparr>kern := k, at := (at m)(i := Forking np, np := NewBorn)\<rparr>)"
| fork_fails: "runs m i \<Longrightarrow> at m i = InUser \<Longrightarrow> np < NPROC \<Longrightarrow> st m np = UNUSED \<Longrightarrow> \<not> plock m np \<Longrightarrow>
    kfork_copy i (alloc_at np (kern m)) = (None, k) \<Longrightarrow> step m (m\<lparr>kern := k\<rparr>)"
| fork_parent: "runs m i \<Longrightarrow> at m i = Forking np \<Longrightarrow> wait_owner m = None \<Longrightarrow>
    step m (m\<lparr>kern := kfork_parent i np (kern m), at := (at m)(i := ForkStarting np)\<rparr>)"
| fork_start: "runs m i \<Longrightarrow> at m i = ForkStarting np \<Longrightarrow> \<not> plock m np \<Longrightarrow>
    step m (m\<lparr>kern := kfork_start np (kern m), at := (at m)(i := InUser)\<rparr>)"
| exit: "runs m i \<Longrightarrow> at m i = InUser \<Longrightarrow> initproc (kern m) \<noteq> Some i \<Longrightarrow> wait_owner m = None \<Longrightarrow>
    step m (m\<lparr>at := (at m)(i := Reparenting status 0), wait_owner := Some i\<rparr>)"
| reparent_child: "runs m i \<Longrightarrow> at m i = Reparenting s j \<Longrightarrow> j < NPROC \<Longrightarrow> par m j = Some i \<Longrightarrow>
    step m (m\<lparr>kern := upd j (p_parent_update (\<lambda>_. initproc (kern m))) (kern m), at := (at m)(i := WakingInit s j 0)\<rparr>)"
| reparent_other: "runs m i \<Longrightarrow> at m i = Reparenting s j \<Longrightarrow> j < NPROC \<Longrightarrow> par m j \<noteq> Some i \<Longrightarrow>
    step m (m\<lparr>at := (at m)(i := Reparenting s (j + 1))\<rparr>)"
| reparent_done: "runs m i \<Longrightarrow> at m i = Reparenting s NPROC \<Longrightarrow>
    step m (m\<lparr>at := (at m)(i := WakingParent s 0)\<rparr>)"
| wake_init: "runs m i \<Longrightarrow> at m i = WakingInit s j l \<Longrightarrow> l < NPROC \<Longrightarrow> l = i \<or> \<not> plock m l \<Longrightarrow>
    step m (m\<lparr>kern := wakeup_slot (Some i) (map_option ChanProc (initproc (kern m))) l (kern m),
      at := (at m)(i := WakingInit s j (l + 1))\<rparr>)"
| wake_init_done: "runs m i \<Longrightarrow> at m i = WakingInit s j NPROC \<Longrightarrow>
    step m (m\<lparr>at := (at m)(i := Reparenting s (j + 1))\<rparr>)"
| wake_parent: "runs m i \<Longrightarrow> at m i = WakingParent s l \<Longrightarrow> l < NPROC \<Longrightarrow> l = i \<or> \<not> plock m l \<Longrightarrow>
    step m (m\<lparr>kern := wakeup_slot (Some i) (map_option ChanProc (par m i)) l (kern m),
      at := (at m)(i := WakingParent s (l + 1))\<rparr>)"
| wake_parent_done: "runs m i \<Longrightarrow> at m i = WakingParent s NPROC \<Longrightarrow>
    step m (m\<lparr>at := (at m)(i := Dying s)\<rparr>)"
| die: "runs m i \<Longrightarrow> at m i = Dying s \<Longrightarrow>
    step m (m\<lparr>kern := become_zombie i s (kern m), at := (at m)(i := Dead), wait_owner := None,
      plock := (plock m)(i := True)\<rparr>)"
| wait: "runs m i \<Longrightarrow> at m i = InUser \<Longrightarrow> wait_owner m = None \<Longrightarrow>
    step m (m\<lparr>at := (at m)(i := Scanning addr 0 False), wait_owner := Some i\<rparr>)"
| scan_other: "runs m i \<Longrightarrow> at m i = Scanning addr j h \<Longrightarrow> j < NPROC \<Longrightarrow> par m j \<noteq> Some i \<Longrightarrow>
    step m (m\<lparr>at := (at m)(i := Scanning addr (j + 1) h)\<rparr>)"
| scan_child: "runs m i \<Longrightarrow> at m i = Scanning addr j h \<Longrightarrow> j < NPROC \<Longrightarrow> par m j = Some i \<Longrightarrow> \<not> plock m j \<Longrightarrow>
    st m j \<noteq> ZOMBIE \<Longrightarrow> step m (m\<lparr>at := (at m)(i := Scanning addr (j + 1) True)\<rparr>)"
| scan_reap: "runs m i \<Longrightarrow> at m i = Scanning addr j h \<Longrightarrow> j < NPROC \<Longrightarrow> par m j = Some i \<Longrightarrow> \<not> plock m j \<Longrightarrow>
    st m j = ZOMBIE \<Longrightarrow> (if addr then succeeds (kern m) else (True, kern m)) = (True, k) \<Longrightarrow>
    step m (m\<lparr>kern := freeproc j k, at := (at m)(j := Absent, i := InUser), wait_owner := None\<rparr>)"
| scan_fails: "runs m i \<Longrightarrow> at m i = Scanning True j h \<Longrightarrow> j < NPROC \<Longrightarrow> par m j = Some i \<Longrightarrow> \<not> plock m j \<Longrightarrow>
    st m j = ZOMBIE \<Longrightarrow> succeeds (kern m) = (False, k) \<Longrightarrow>
    step m (m\<lparr>kern := k, at := (at m)(i := InUser), wait_owner := None\<rparr>)"
| scan_none: "runs m i \<Longrightarrow> at m i = Scanning addr NPROC False \<Longrightarrow>
    step m (m\<lparr>at := (at m)(i := InUser), wait_owner := None\<rparr>)"
| scan_some: "runs m i \<Longrightarrow> at m i = Scanning addr NPROC True \<Longrightarrow>
    step m (m\<lparr>at := (at m)(i := Checking addr)\<rparr>)"
| check_killed: "runs m i \<Longrightarrow> at m i = Checking addr \<Longrightarrow> is_killed i (kern m) \<Longrightarrow>
    step m (m\<lparr>at := (at m)(i := InUser), wait_owner := None\<rparr>)"
| check_alive: "runs m i \<Longrightarrow> at m i = Checking addr \<Longrightarrow> \<not> is_killed i (kern m) \<Longrightarrow>
    step m (m\<lparr>at := (at m)(i := GoingToSleep addr (ticks (kern m)))\<rparr>)"
| wait_sleep: "runs m i \<Longrightarrow> at m i = GoingToSleep addr s \<Longrightarrow>
    step m (m\<lparr>kern := sleep_enter i (ChanProc i) (kern m), at := (at m)(i := Asleep s (Some addr)),
      wait_owner := None, plock := (plock m)(i := True)\<rparr>)"
| relock: "runs m i \<Longrightarrow> at m i = Relocking addr \<Longrightarrow> wait_owner m = None \<Longrightarrow>
    step m (m\<lparr>at := (at m)(i := Scanning addr 0 False), wait_owner := Some i\<rparr>)"
| sleep_call: "runs m i \<Longrightarrow> at m i = InUser \<Longrightarrow> \<not> own_channel ch \<Longrightarrow>
    step m (m\<lparr>at := (at m)(i := SleepingOn ch (ticks (kern m)))\<rparr>)"
| sleep_on: "runs m i \<Longrightarrow> at m i = SleepingOn ch s \<Longrightarrow> \<not> own_channel ch \<Longrightarrow>
    step m (m\<lparr>kern := sleep_enter i ch (kern m), at := (at m)(i := Asleep s None), plock := (plock m)(i := True)\<rparr>)"
| wake_other: "j < NPROC \<Longrightarrow> \<not> plock m j \<Longrightarrow> \<not> own_channel ch \<Longrightarrow>
    step m (m\<lparr>kern := wakeup_slot None (Some ch) j (kern m)\<rparr>)"
| kill: "j < NPROC \<Longrightarrow> \<not> plock m j \<Longrightarrow> step m (m\<lparr>kern := upd j kill_proc (kern m)\<rparr>)"
| own: "runs m i \<Longrightarrow> (\<And>p. lifecycle (f p) = lifecycle p) \<Longrightarrow> step m (m\<lparr>kern := upd i f (kern m)\<rparr>)"
| tick: "step m (m\<lparr>kern := (kern m)\<lparr>ticks := ticks (kern m) + 1\<rparr>\<rparr>)"

definition booted :: "bool list \<Rightarrow> machine option" where
  "booted script = map_option
     (\<lambda>k. \<lparr>kern = k, at = (\<lambda>_. Absent)(0 := NewBorn), wait_owner = None, plock = \<lambda>_. False\<rparr>)
     (userinit (procinit script))"

inductive reachable :: "bool list \<Rightarrow> machine \<Rightarrow> bool" for script where
  boot: "booted script = Some m \<Longrightarrow> reachable script m"
| later: "reachable script m \<Longrightarrow> step m m' \<Longrightarrow> reachable script m'"

end
