(* ===== verification/Xv6_Lifecycle_Invariant.thy ===== *)
theory Xv6_Lifecycle_Invariant
  imports Xv6_Lifecycle
begin

text \<open>
  What holds in every reachable state of the process machine: a process is on at most one hart and its slot's
  state, its lock and its place in the code agree; process ids are unique; an unused slot carries nothing of
  its last occupant; every process has a parent that is alive; and no process sleeps in \<open>kwait\<close> while a
  child of it is a zombie, unless its wakeup is on the way.
\<close>

subsection \<open>Slots, harts and places in the code\<close>

text \<open>\<open>fit s p c l\<close>: the state of a slot, the place of its process, whether it is on a hart, whether its lock is held.\<close>

fun well_placed :: "pc \<Rightarrow> bool" where
  "well_placed (Yielded p) = preemptible p"
| "well_placed _ = True"

fun fit :: "procstate \<Rightarrow> pc \<Rightarrow> bool \<Rightarrow> bool \<Rightarrow> bool" where
  "fit UNUSED p c l = (p = Absent \<and> \<not> c \<and> \<not> l)"
| "fit USED p c l = (p = NewBorn \<and> \<not> c \<and> \<not> l)"
| "fit SLEEPING p c l = ((\<exists>s r. p = Asleep s r) \<and> l = c)"
| "fit RUNNABLE p c l = (parked p \<and> l = c \<and> well_placed p)"
| "fit RUNNING p c l = (c \<and> p \<noteq> Absent \<and> p \<noteq> Dead \<and> l = parked p \<and> well_placed p)"
| "fit ZOMBIE p c l = (p = Dead \<and> l = c)"

abbreviation fits :: "machine \<Rightarrow> nat \<Rightarrow> bool" where
  "fits m i \<equiv> fit (st m i) (at m i) (on_cpu m i) (plock m i)"

definition inv_cpu :: "machine \<Rightarrow> bool" where
  "inv_cpu m \<longleftrightarrow> length (procs (kern m)) = NPROC \<and> length (cpus (kern m)) = NCPU \<and>
     initproc (kern m) = Some 0 \<and>
     (\<forall>i. on_cpu m i \<longrightarrow> i < NPROC) \<and>
     (\<forall>c d i. c < NCPU \<and> d < NCPU \<and> cpus (kern m) ! c = Some i \<and> cpus (kern m) ! d = Some i \<longrightarrow> c = d) \<and>
     (\<forall>i<NPROC. fits m i) \<and> (\<forall>i\<ge>NPROC. at m i = Absent)"

lemma inv_cpuD:
  assumes "inv_cpu m"
  shows "length (procs (kern m)) = NPROC" "length (cpus (kern m)) = NCPU" "initproc (kern m) = Some 0"
    and "on_cpu m i \<Longrightarrow> i < NPROC" and "i < NPROC \<Longrightarrow> fits m i" and "\<not> i < NPROC \<Longrightarrow> at m i = Absent"
  using assms by (auto simp: inv_cpu_def)

lemma runsD:
  assumes "runs m i"
  shows "i < NPROC" "on_cpu m i" "st m i = RUNNING" "\<not> plock m i"
  using assms by (auto simp: runs_def)

lemma nth_upd: "j < length (procs k) \<Longrightarrow> procs (upd i f k) ! j = (if j = i then f (procs k ! j) else procs k ! j)"
  by (simp add: nth_list_update)

lemma on_cpu_upd [simp]:
  "on_cpu (m\<lparr>kern := upd i f k, at := a\<rparr>) j \<longleftrightarrow> Some j \<in> set (cpus k)"
  by (simp add: on_cpu_def)

text \<open>The child that a \<open>kfork\<close> under way has made.\<close>

fun pending :: "pc \<Rightarrow> nat option" where
  "pending (Forking c) = Some c"
| "pending (ForkStarting c) = Some c"
| "pending (Yielded p) = pending p"
| "pending _ = None"

definition inv_fork :: "machine \<Rightarrow> bool" where
  "inv_fork m \<longleftrightarrow>
     (\<forall>i c. pending (at m i) = Some c \<longrightarrow> c < NPROC \<and> st m c = USED) \<and>
     (\<forall>i j c. pending (at m i) = Some c \<and> pending (at m j) = Some c \<longrightarrow> i = j) \<and>
     (\<forall>c<NPROC. st m c = USED \<longrightarrow> (\<exists>i. pending (at m i) = Some c))"

lemma on_cpu_set:
  assumes "length (cpus k) = NCPU"
    and "\<forall>c d i. c < NCPU \<and> d < NCPU \<and> cpus k ! c = Some i \<and> cpus k ! d = Some i \<longrightarrow> c = d"
    and "c < NCPU"
  shows "cpus k ! c = None \<Longrightarrow> Some j \<in> set ((cpus k)[c := Some i]) \<longleftrightarrow> j = i \<or> Some j \<in> set (cpus k)"
    and "cpus k ! c = Some i \<Longrightarrow> Some j \<in> set ((cpus k)[c := None]) \<longleftrightarrow> j \<noteq> i \<and> Some j \<in> set (cpus k)"
proof -
  assume "cpus k ! c = None"
  then show "Some j \<in> set ((cpus k)[c := Some i]) \<longleftrightarrow> j = i \<or> Some j \<in> set (cpus k)"
    using assms by (auto simp: in_set_conv_nth nth_list_update) (metis option.distinct(1))
next
  assume i: "cpus k ! c = Some i"
  show "Some j \<in> set ((cpus k)[c := None]) \<longleftrightarrow> j \<noteq> i \<and> Some j \<in> set (cpus k)"
  proof
    assume "Some j \<in> set ((cpus k)[c := None])"
    then obtain d where "d < NCPU" "(cpus k)[c := None] ! d = Some j"
      using assms(1) by (auto simp: in_set_conv_nth)
    then have "d < NCPU" "d \<noteq> c" "cpus k ! d = Some j"
      using assms(1,3) by (auto simp: nth_list_update split: if_splits)
    then show "j \<noteq> i \<and> Some j \<in> set (cpus k)" using assms i by (metis nth_mem)
  next
    assume "j \<noteq> i \<and> Some j \<in> set (cpus k)"
    then obtain d where "d < NCPU" "cpus k ! d = Some j" and "j \<noteq> i"
      using assms(1) by (auto simp: in_set_conv_nth)
    moreover then have "d \<noteq> c" using i by auto
    ultimately    show "Some j \<in> set ((cpus k)[c := None])"
      using assms(1) by (metis length_list_update nth_list_update_neq nth_mem)
  qed
qed

text \<open>A step that changes the slots in \<open>S\<close> and leaves the harts alone.\<close>

lemma inv_cpu_local:
  assumes "inv_cpu m" and "cpus (kern m') = cpus (kern m)" and "initproc (kern m') = initproc (kern m)"
    and "length (procs (kern m')) = length (procs (kern m))"
    and "\<And>j. j \<notin> S \<Longrightarrow> procs (kern m') ! j = procs (kern m) ! j \<and> at m' j = at m j \<and> plock m' j = plock m j"
    and "\<And>j. j \<in> S \<Longrightarrow> j < NPROC \<and> fit (st m' j) (at m' j) (on_cpu m j) (plock m' j)"
  shows "inv_cpu m'"
proof -
  have cpu: "on_cpu m' j = on_cpu m j" for j using assms(2) by (simp add: on_cpu_def)
  have "fits m' j" if "j < NPROC" for j
  proof (cases "j \<in> S")
    case True
    then show ?thesis using assms(6) by (simp add: cpu)
  next
    case False
    then show ?thesis using assms(5) [OF False] inv_cpuD(5) [OF assms(1) that] by (simp add: cpu)
  qed
  moreover have "at m' j = Absent" if "j \<ge> NPROC" for j
    using assms(5,6) [of j] inv_cpuD(6) [OF assms(1), of j] that by fastforce
  ultimately show ?thesis using assms(1-4) by (simp add: inv_cpu_def cpu)
qed

lemma fork_result:
  assumes "kfork_copy i (alloc_at np k) = (r, k')" and "np < length (procs k)"
  obtains (made) child where "r = Some np" and "procs k' = (procs k)[np := child]" and "p_state child = USED"
      and "p_pid child = nextpid k" and "p_parent child = p_parent (procs k ! np)"
      and "p_chan child = p_chan (procs k ! np)" and "nextpid k' = nextpid k + 1" and "cpus k' = cpus k"
      and "initproc k' = initproc k" and "ticks k' = ticks k"
  | (failed) "r = None" and "procs k' = procs (freeproc np k)" and "nextpid k' = nextpid k + 1" and "cpus k' = cpus k"
      and "initproc k' = initproc k" and "ticks k' = ticks k"
proof -
  define k1 where "k1 = upd np (init_slot (nextpid k)) (k\<lparr>nextpid := nextpid k + 1\<rparr>)"
  obtain b1 k2 where s1: "succeeds k1 = (b1, k2)" by fastforce
  define k3 where "k3 = upd np (p_trapframe_update (\<lambda>_. True)) k2"
  obtain b2 k4 where s2: "succeeds k3 = (b2, k4)" by fastforce
  define k5 where "k5 = upd np (p_pagetable_update (\<lambda>_. True)) k4"
  obtain b3 k6 where s3: "succeeds k5 = (b3, k6)" by fastforce
  note frames = succeeds_frame [OF s1] succeeds_frame [OF s2] succeeds_frame [OF s3]
  note defs = k1_def k3_def k5_def
  have alloc: "alloc_at np k = (if \<not> b1 then (None, freeproc np k2) else if \<not> b2 then (None, freeproc np k4) else (Some np, k5))"
    by (simp add: alloc_at_def allocpid_def Let_def s1 [unfolded k1_def] k3_def [symmetric] s2 k5_def)
  show ?thesis
  proof (cases "b1 \<and> b2 \<and> b3")
    case True
    have p5: "procs k5 ! np = (init_slot (nextpid k) (procs k ! np))\<lparr>p_trapframe := True, p_pagetable := True\<rparr>"
      and l5: "procs k5 = (procs k)[np := procs k5 ! np]"
      using frames assms(2) by (simp_all add: defs)
    define p where "p = procs k6 ! i"
    define child where "child = (procs k5 ! np)\<lparr>p_sz := p_sz p, p_a0 := 0, p_a1 := p_a1 p, p_a7 := p_a7 p,
       p_name := copied_name 16 (p_name p), p_trace_mask := p_trace_mask p, p_tickets := p_tickets p\<rparr>"
    have r: "r = Some np" and k': "procs k' = (procs k6)[np := child]" "nextpid k' = nextpid k6" "cpus k' = cpus k6"
        "initproc k' = initproc k6" "ticks k' = ticks k6"
      using assms(1) True frames by (auto simp: kfork_copy_def alloc s3 Let_def child_def p_def)
    have "procs k' = (procs k)[np := child]" using k'(1) frames l5 by (metis list_update_overwrite)
    moreover have "p_state child = USED" "p_pid child = nextpid k" "p_parent child = p_parent (procs k ! np)"
        "p_chan child = p_chan (procs k ! np)"
      by (simp_all add: child_def p5 init_slot_def)
    ultimately show ?thesis using made [OF r] k'(2-) frames by (simp add: defs)
  next
    case False
    then have r: "r = None" and "k' = freeproc np k2 \<or> k' = freeproc np k4 \<or> k' = freeproc np k6"
      using assms(1) by (auto simp: kfork_copy_def alloc s3 split: if_splits)
    then have "procs k' = procs (freeproc np k) \<and> nextpid k' = nextpid k + 1 \<and> cpus k' = cpus k \<and>
        initproc k' = initproc k \<and> ticks k' = ticks k"
      using frames assms(2) by (auto simp: freeproc_def defs init_slot_def)
    with r show ?thesis using failed by blast
  qed
qed

lemma fork_made:
  assumes "kfork_copy i (alloc_at np k) = (Some c, k')" and "np < length (procs k)"
  obtains child where "c = np" and "procs k' = (procs k)[np := child]" and "p_state child = USED"
      and "p_pid child = nextpid k" and "p_parent child = p_parent (procs k ! np)"
      and "p_chan child = p_chan (procs k ! np)" and "nextpid k' = nextpid k + 1" and "cpus k' = cpus k"
      and "initproc k' = initproc k"
  by (rule fork_result [OF assms]) (use that in auto)

lemma fork_failed:
  assumes "kfork_copy i (alloc_at np k) = (None, k')" and "np < length (procs k)"
  shows "procs k' = procs (freeproc np k)" and "nextpid k' = nextpid k + 1" and "cpus k' = cpus k"
    and "initproc k' = initproc k"
  by (rule fork_result [OF assms]; simp)+

text \<open>What each operation makes of a slot.\<close>

lemma upd_slot_simps [simp]:
  "procs (kfork_parent i np k) = (procs k)[np := (procs k ! np)\<lparr>p_parent := Some i\<rparr>]"
  "procs (kfork_start np k) = (procs k)[np := (procs k ! np)\<lparr>p_state := RUNNABLE\<rparr>]"
  "procs (yield_enter i k) = (procs k)[i := (procs k ! i)\<lparr>p_state := RUNNABLE\<rparr>]"
  "procs (sleep_enter i ch k) = (procs k)[i := (procs k ! i)\<lparr>p_chan := Some ch, p_state := SLEEPING\<rparr>]"
  "procs (become_zombie i s k) = (procs k)[i := (procs k ! i)\<lparr>p_xstate := s, p_state := ZOMBIE\<rparr>]"
  by (simp_all add: kfork_parent_def kfork_start_def yield_enter_def sleep_enter_def become_zombie_def)

lemma upd_frames [simp]:
  "cpus (kfork_parent i np k) = cpus k" "initproc (kfork_parent i np k) = initproc k"
  "nextpid (kfork_parent i np k) = nextpid k"
  "cpus (kfork_start np k) = cpus k" "initproc (kfork_start np k) = initproc k" "nextpid (kfork_start np k) = nextpid k"
  "cpus (yield_enter i k) = cpus k" "initproc (yield_enter i k) = initproc k" "nextpid (yield_enter i k) = nextpid k"
  "cpus (sleep_enter i ch k) = cpus k" "initproc (sleep_enter i ch k) = initproc k"
  "nextpid (sleep_enter i ch k) = nextpid k"
  "cpus (become_zombie i s k) = cpus k" "initproc (become_zombie i s k) = initproc k"
  "nextpid (become_zombie i s k) = nextpid k"
  "cpus (freeproc i k) = cpus k" "initproc (freeproc i k) = initproc k" "nextpid (freeproc i k) = nextpid k"
  by (simp_all add: kfork_parent_def kfork_start_def yield_enter_def sleep_enter_def become_zombie_def freeproc_def)

text \<open>A slot after a wakeup, a kill, a resumption: the same but for these fields.\<close>

lemma wakeup_slot_result:
  "procs (wakeup_slot me ch l k) = (procs k)[l := (procs k ! l)\<lparr>p_state :=
     (if me \<noteq> Some l \<and> p_state (procs k ! l) = SLEEPING \<and> p_chan (procs k ! l) = ch then RUNNABLE
      else p_state (procs k ! l))\<rparr>]"
  "cpus (wakeup_slot me ch l k) = cpus k" "initproc (wakeup_slot me ch l k) = initproc k"
  "nextpid (wakeup_slot me ch l k) = nextpid k"
  by (auto simp: wakeup_slot_def)

lemma resume_kernel_result:
  "\<exists>w. procs (resume_kernel i p k) = (procs k)[i := (procs k ! i)\<lparr>p_chan := (case p of Asleep s r \<Rightarrow> None | _ \<Rightarrow> p_chan (procs k ! i)),
     p_waitticks := w\<rparr>]"
  "cpus (resume_kernel i p k) = cpus k" "initproc (resume_kernel i p k) = initproc k"
  "nextpid (resume_kernel i p k) = nextpid k"
  by (auto simp: resume_kernel_def sleep_leave_def split: pc.splits) (metis list_update_id proc.surjective proc.update_convs(2,16))+

lemma kill_proc_simps [simp]:
  "p_state (kill_proc p) = (if p_state p = SLEEPING then RUNNABLE else p_state p)" "p_chan (kill_proc p) = p_chan p"
  "p_pid (kill_proc p) = p_pid p" "p_parent (kill_proc p) = p_parent p"
  by (simp_all add: kill_proc_def Let_def)

text \<open>Same slots, same harts: only the process \<open>i\<close> moves on in the code.\<close>

lemma moves_on:
  assumes "inv_cpu m" and "runs m i" and "\<not> parked p" and "p \<noteq> Absent" and "p \<noteq> Dead" and "well_placed p"
    and "kern m' = kern m" and "at m' = (at m)(i := p)" and "plock m' = plock m"
  shows "inv_cpu m'"
  by (rule inv_cpu_local [OF assms(1), of _ "{i}"])
    (use assms in \<open>auto simp: runs_def\<close>)

lemma inv_cpu_step:
  assumes "step m m'" and "inv_cpu m" and "inv_fork m"
  shows "inv_cpu m'"
  using assms(1)
proof (cases rule: step.cases)
  case (run c i)
  note inv = inv_cpuD [OF assms(2)]
  have free: "\<not> on_cpu m i" using inv(5) [of i] run by simp
  have cpu: "on_cpu m' j \<longleftrightarrow> j = i \<or> on_cpu m j" for j
    using run assms(2) on_cpu_set(1) [of "kern m" c j i] by (auto simp: on_cpu_def select_def inv_cpu_def)
  have "fits m' j" if "j < NPROC" for j
    unfolding cpu using run inv(1) inv(5) [OF that] by (auto simp: select_def nth_list_update)
  moreover have "c1 = c2" if "c1 < NCPU" "c2 < NCPU" "cpus (kern m') ! c1 = Some j" "cpus (kern m') ! c2 = Some j" for c1 c2 j
    using that run free assms(2) by (auto simp: select_def nth_list_update inv_cpu_def on_cpu_def in_set_conv_nth split: if_splits)
  moreover have "length (procs (kern m')) = NPROC \<and> length (cpus (kern m')) = NCPU \<and> initproc (kern m') = Some 0 \<and>
      (\<forall>j\<ge>NPROC. at m' j = Absent)"
    using run inv by (auto simp: select_def)
  moreover have "on_cpu m' j \<Longrightarrow> j < NPROC" for j using cpu [of j] inv(4) [of j] run(4) by auto
  ultimately show ?thesis unfolding inv_cpu_def by blast
next
  case (switch c i)
  note inv = inv_cpuD [OF assms(2)]
  have cpu: "on_cpu m' j \<longleftrightarrow> j \<noteq> i \<and> on_cpu m j" for j
    using switch assms(2) on_cpu_set(2) [of "kern m" c i j] by (auto simp: on_cpu_def inv_cpu_def)
  have "on_cpu m i" using switch inv(2) by (auto simp: on_cpu_def in_set_conv_nth)
  then have "fits m' j" if "j < NPROC" for j
    unfolding cpu using switch inv(5) [OF that] by (cases "st m j") auto
  moreover have "c1 = c2" if "c1 < NCPU" "c2 < NCPU" "cpus (kern m') ! c1 = Some j" "cpus (kern m') ! c2 = Some j" for c1 c2 j
    using that switch assms(2) by (auto simp: nth_list_update inv_cpu_def split: if_splits)
  moreover have "length (procs (kern m')) = NPROC \<and> length (cpus (kern m')) = NCPU \<and> initproc (kern m') = Some 0 \<and>
      (\<forall>j\<ge>NPROC. at m' j = Absent)"
    using switch inv by auto
  moreover have "on_cpu m' j \<Longrightarrow> j < NPROC" for j using cpu inv(4) by blast
  ultimately show ?thesis unfolding inv_cpu_def by blast
next
  case (fork i np c k)
  note inv = inv_cpuD [OF assms(2)]
  have "np < length (procs (kern m))" using fork inv(1) by simp
  from fork_made [OF fork(7) this] obtain child where
    k: "procs k = (procs (kern m))[np := child]" "p_state child = USED" "cpus k = cpus (kern m)" "initproc k = initproc (kern m)"
    by metis
  have "i \<noteq> np" using fork by (auto simp: runs_def)
  then show ?thesis
    by (intro inv_cpu_local [OF assms(2), of _ "{i, np}"])
      (use fork k inv inv(5) [of np] in \<open>auto simp: runs_def\<close>)
next
  case (fork_fails i np k)
  note inv = inv_cpuD [OF assms(2)]
  have "np < length (procs (kern m))" using fork_fails inv(1) by simp
  note k = fork_failed [OF fork_fails(7) this]
  show ?thesis
    by (rule inv_cpu_local [OF assms(2), of _ "{np}"])
      (use fork_fails k inv inv(5) [of np] in \<open>auto simp: freeproc_def\<close>)
next
  case (scan_reap i addr j h k)
  note inv = inv_cpuD [OF assms(2)]
  have k: "procs k = procs (kern m)" "cpus k = cpus (kern m)" "initproc k = initproc (kern m)"
    using scan_reap(8) succeeds_frame by (auto split: if_splits)
  have "i \<noteq> j" using scan_reap by (auto simp: runs_def)
  then show ?thesis
    by (intro inv_cpu_local [OF assms(2), of _ "{i, j}"])
      (use scan_reap k inv inv(5) [of j] in \<open>auto simp: runs_def freeproc_def\<close>)
next
  case (own i f)
  note inv = inv_cpuD [OF assms(2)]
  have "p_state (f p) = p_state p" for p using own(3) [of p] by (simp add: lifecycle_def)
  then show ?thesis
    by (intro inv_cpu_local [OF assms(2), of _ "{i}"])
      (use own inv inv(5) [of i] in \<open>auto simp: runs_def\<close>)
next
  case (kill j)
  note inv = inv_cpuD [OF assms(2)]
  show ?thesis
    by (rule inv_cpu_local [OF assms(2), of _ "{j}"])
      (use kill inv inv(5) [of j] in auto)
next
  case (wake_other j ch)
  note inv = inv_cpuD [OF assms(2)]
  show ?thesis
    by (rule inv_cpu_local [OF assms(2), of _ "{j}"])
      (use wake_other inv inv(5) [of j] in \<open>auto simp: wakeup_slot_result\<close>)
next
  case (wake_init i s j l)
  note inv = inv_cpuD [OF assms(2)]
  have fit_l: "fits m l" using wake_init inv(5) by simp
  show ?thesis
    by (rule inv_cpu_local [OF assms(2), of _ "{i, l}"])
      (use wake_init inv(1,3) fit_l in \<open>auto simp: wakeup_slot_result runs_def nth_list_update\<close>)
next
  case (wake_parent i s l)
  note inv = inv_cpuD [OF assms(2)]
  have fit_l: "fits m l" using wake_parent inv(5) by simp
  show ?thesis
    by (rule inv_cpu_local [OF assms(2), of _ "{i, l}"])
      (use wake_parent inv(1,3) fit_l in \<open>auto simp: wakeup_slot_result runs_def nth_list_update\<close>)
next
  case (fork_parent i np)
  note inv = inv_cpuD [OF assms(2)]
  have "pending (at m i) = Some np" using fork_parent by simp
  then have "np < NPROC" "st m np = USED" using assms(3) by (auto simp: inv_fork_def)
  then show ?thesis
    by (intro inv_cpu_local [OF assms(2), of _ "{i, np}"])
      (use fork_parent inv inv(5) [of np] in \<open>auto simp: runs_def nth_list_update\<close>)
next
  case (fork_start i np)
  note inv = inv_cpuD [OF assms(2)]
  have "pending (at m i) = Some np" using fork_start by simp
  then have "np < NPROC" "st m np = USED" using assms(3) by (auto simp: inv_fork_def)
  then show ?thesis
    by (intro inv_cpu_local [OF assms(2), of _ "{i, np}"])
      (use fork_start inv inv(5) [of np] in \<open>auto simp: runs_def nth_list_update\<close>)
next
  case (resume i)
  note inv = inv_cpuD [OF assms(2)]
  obtain w where w: "procs (kern m') = (procs (kern m))[i := (procs (kern m) ! i)\<lparr>p_chan :=
      (case at m i of Asleep s r \<Rightarrow> None | _ \<Rightarrow> p_chan (procs (kern m) ! i)), p_waitticks := w\<rparr>]"
    using resume resume_kernel_result(1) [of i "at m i" "kern m"] by auto
  have "fit RUNNING (resumed (at m i)) True False"
    using inv(5) [of i] resume by (cases "at m i" rule: resumed.cases) (auto elim: preemptible.elims)
  then show ?thesis
    by (intro inv_cpu_local [OF assms(2), of _ "{i}"])
      (use resume w inv in \<open>auto simp: resume_kernel_result\<close>)
next
  case (reparent_child i s j)
  note inv = inv_cpuD [OF assms(2)]
  show ?thesis
    by (rule inv_cpu_local [OF assms(2), of _ "{i, j}"])
      (use reparent_child inv inv(5) [of j] in \<open>auto simp: runs_def nth_list_update\<close>)
next
  case (yield i)
  show ?thesis
    by (rule inv_cpu_local [OF assms(2), of _ "{i}"])
      (use yield inv_cpuD [OF assms(2)] in \<open>auto simp: runs_def\<close>)
next
  case (die i s)
  show ?thesis
    by (rule inv_cpu_local [OF assms(2), of _ "{i}"])
      (use die inv_cpuD [OF assms(2)] in \<open>auto simp: runs_def\<close>)
next
  case (wait_sleep i a s)
  show ?thesis
    by (rule inv_cpu_local [OF assms(2), of _ "{i}"])
      (use wait_sleep inv_cpuD [OF assms(2)] in \<open>auto simp: runs_def\<close>)
next
  case (sleep_on i ch s)
  show ?thesis
    by (rule inv_cpu_local [OF assms(2), of _ "{i}"])
      (use sleep_on inv_cpuD [OF assms(2)] in \<open>auto simp: runs_def\<close>)
next
  case (scan_fails i j h k)
  have k: "procs k = procs (kern m)" "cpus k = cpus (kern m)" "initproc k = initproc (kern m)"
    using scan_fails(8) succeeds_frame by auto
  show ?thesis
    by (rule inv_cpu_local [OF assms(2), of _ "{i}"])
      (use scan_fails k inv_cpuD [OF assms(2)] in \<open>auto simp: runs_def\<close>)
next
  case tick
  then show ?thesis using assms(2) by (simp add: inv_cpu_def on_cpu_def)
qed (rule moves_on [OF assms(2)]; simp)+

text \<open>The wait lock is held by the process whose place in the code says so.\<close>

fun holds_wait :: "pc \<Rightarrow> bool" where
  "holds_wait (Reparenting s n) = True"
| "holds_wait (WakingInit s n l) = True"
| "holds_wait (WakingParent s l) = True"
| "holds_wait (Dying s) = True"
| "holds_wait (Scanning a n h) = True"
| "holds_wait (Checking a) = True"
| "holds_wait (GoingToSleep a s) = True"
| "holds_wait _ = False"

definition inv_owner :: "machine \<Rightarrow> bool" where
  "inv_owner m \<longleftrightarrow> (\<forall>i. wait_owner m = Some i \<longleftrightarrow> holds_wait (at m i))"

lemma not_holding:
  "preemptible p \<Longrightarrow> \<not> holds_wait p" "parked p \<Longrightarrow> \<not> holds_wait p"
  by (cases p; simp)+

lemma resumed_not_holding: "parked p \<Longrightarrow> well_placed p \<Longrightarrow> \<not> holds_wait (resumed p)"
  by (cases p rule: resumed.cases) (simp_all add: not_holding)

lemma resuming:
  assumes "inv_cpu m" and "st m i = RUNNING" and "plock m i" and "i < NPROC"
  shows "parked (at m i)" and "well_placed (at m i)"
  using inv_cpuD(5) [OF assms(1,4)] assms(2,3) by auto

lemma owner_kept:
  assumes "inv_owner m" and "wait_owner m' = wait_owner m" and "\<And>j. holds_wait (at m' j) = holds_wait (at m j)"
  shows "inv_owner m'"
  using assms by (simp add: inv_owner_def)

lemma owner_taken:
  assumes "inv_owner m" and "wait_owner m = None" and "wait_owner m' = Some i" and "at m' = (at m)(i := p)" and "holds_wait p"
  shows "inv_owner m'"
  using assms by (auto simp: inv_owner_def)

lemma owner_dropped:
  assumes "inv_owner m" and "holds_wait (at m i)" and "wait_owner m' = None" and "\<not> holds_wait (at m' i)"
    and "\<And>j. j \<noteq> i \<Longrightarrow> holds_wait (at m' j) \<Longrightarrow> holds_wait (at m j)"
  shows "inv_owner m'"
proof -
  have "wait_owner m = Some i" using assms(1,2) by (simp add: inv_owner_def)
  then have "holds_wait (at m j) \<Longrightarrow> j = i" for j using assms(1) by (metis inv_owner_def option.inject)
  then have "\<not> holds_wait (at m' j)" for j using assms(4,5) by metis
  then show ?thesis using assms(3) by (simp add: inv_owner_def)
qed

lemma inv_owner_step:
  assumes "step m m'" and "inv_cpu m" and "inv_owner m"
  shows "inv_owner m'"
  using assms(1)
proof (cases rule: step.cases)
  case (resume i)
  then show ?thesis using resuming [OF assms(2), of i] not_holding resumed_not_holding by (intro owner_kept [OF assms(3)]) auto
next
  case (fork i np c k)
  then have "\<not> holds_wait (at m np)" using inv_cpuD(5) [OF assms(2), of np] by simp
  then show ?thesis using fork by (intro owner_kept [OF assms(3)]) auto
next
  case (scan_reap i addr j h k)
  then have "\<not> holds_wait (at m j)" using inv_cpuD(5) [OF assms(2), of j] by simp
  then show ?thesis using scan_reap by (intro owner_dropped [OF assms(3), of i]) (auto split: if_splits)
next
  case (yield i)
  then show ?thesis using not_holding(1) by (intro owner_kept [OF assms(3)]) auto
next
  case (exit i s)
  then show ?thesis by (intro owner_taken [OF assms(3), of _ i]) auto
next
  case (wait i a)
  then show ?thesis by (intro owner_taken [OF assms(3), of _ i]) auto
next
  case (relock i a)
  then show ?thesis by (intro owner_taken [OF assms(3), of _ i]) auto
next
  case (die i s)
  then show ?thesis by (intro owner_dropped [OF assms(3), of i]) auto
next
  case (scan_fails i j h k)
  then show ?thesis by (intro owner_dropped [OF assms(3), of i]) auto
next
  case (scan_none i a)
  then show ?thesis by (intro owner_dropped [OF assms(3), of i]) auto
next
  case (check_killed i a)
  then show ?thesis by (intro owner_dropped [OF assms(3), of i]) auto
next
  case (wait_sleep i a s)
  then show ?thesis by (intro owner_dropped [OF assms(3), of i]) auto
qed (rule owner_kept [OF assms(3)]; simp)+

end
