(* ===== verification/Xv6_Lifecycle_Steps.thy ===== *)
theory Xv6_Lifecycle_Steps
  imports Xv6_Lifecycle_Invariant
begin

text \<open>
  The rest of the invariant of the process machine -- forks under way, process ids and unused slots, parents,
  wakeups -- and the reachable states, in all of which it holds.
\<close>

subsection \<open>Forks under way\<close>

lemma pending_resumed: "parked p \<Longrightarrow> pending (resumed p) = pending p"
  by (cases p rule: resumed.cases) simp_all

lemma fork_kept:
  assumes "inv_fork m" and "\<And>j. pending (at m' j) = pending (at m j)"
    and "\<And>c. c < NPROC \<Longrightarrow> st m' c = USED \<longleftrightarrow> st m c = USED"
  shows "inv_fork m'"
  using assms unfolding inv_fork_def by simp

lemma inv_fork_step:
  assumes "step m m'" and "inv_cpu m" and "inv_fork m"
  shows "inv_fork m'"
  using assms(1)
proof (cases rule: step.cases)
  case (fork i np c k)
  note inv = inv_cpuD [OF assms(2)]
  have "np < length (procs (kern m))" using fork inv(1) by simp
  from fork_made [OF fork(7) this] obtain child where
    k: "procs k = (procs (kern m))[np := child]" "p_state child = USED" by metis
  have idle: "pending (at m i) = None" "at m np = Absent" using fork inv(5) [of np] by auto
  have "i \<noteq> np" using fork by (auto simp: runs_def)
  have p: "pending (at m' j) = (if j = i then Some np else pending (at m j))" for j
    using fork idle \<open>i \<noteq> np\<close> by auto
  have s: "st m' c = (if c = np then USED else st m c)" if "c < NPROC" for c
    using that fork k inv(1) by (simp add: nth_update)
  have new: "pending (at m j) \<noteq> Some np" for j using assms(3) fork(5) by (auto simp: inv_fork_def)
  have "c < NPROC \<and> st m' c = USED" if "pending (at m' j) = Some c" for j c
    using that assms(3) fork(4) s [of c] by (auto simp: p inv_fork_def split: if_splits)
  moreover have "j = l" if "pending (at m' j) = Some c" "pending (at m' l) = Some c" for j l c
    using that new assms(3) by (auto simp: p inv_fork_def split: if_splits)
  moreover have "\<exists>j. pending (at m' j) = Some c" if c: "c < NPROC" "st m' c = USED" for c
  proof (cases "c = np")
    case False
    then obtain j where "pending (at m j) = Some c" using c s assms(3) by (auto simp: inv_fork_def)
    then show ?thesis using idle(1) p by (metis option.distinct(1))
  qed (use p in auto)
  ultimately show ?thesis unfolding inv_fork_def by blast
next
  case (fork_start i np)
  note inv = inv_cpuD [OF assms(2)]
  have pend: "pending (at m i) = Some np" using fork_start by simp
  then have np: "np < NPROC" "st m np = USED" using assms(3) by (auto simp: inv_fork_def)
  have p: "pending (at m' j) = (if j = i then None else pending (at m j))" for j using fork_start by simp
  have s: "st m' c = (if c = np then RUNNABLE else st m c)" if "c < NPROC" for c
    using that fork_start inv(1) by (simp add: nth_update)
  have one: "pending (at m j) = Some np \<Longrightarrow> j = i" for j using assms(3) pend by (metis inv_fork_def)
  have "c < NPROC \<and> st m' c = USED" if "pending (at m' j) = Some c" for j c
    using that assms(3) one [of j] s [of c] by (auto simp: p inv_fork_def split: if_splits)
  moreover have "j = l" if "pending (at m' j) = Some c" "pending (at m' l) = Some c" for j l c
    using that assms(3) by (auto simp: p inv_fork_def split: if_splits)
  moreover have "\<exists>j. pending (at m' j) = Some c" if c: "c < NPROC" "st m' c = USED" for c
  proof -
    have "c \<noteq> np" "st m c = USED" using c s by (auto split: if_splits)
    then obtain j where "pending (at m j) = Some c" using c assms(3) by (auto simp: inv_fork_def)
    then show ?thesis using pend p \<open>c \<noteq> np\<close> by (metis option.inject)
  qed
  ultimately show ?thesis unfolding inv_fork_def by blast
next
  case (scan_reap i addr j h k)
  note inv = inv_cpuD [OF assms(2)]
  have k: "procs k = procs (kern m)" using scan_reap(8) succeeds_frame by (auto split: if_splits)
  have "at m j = Dead" using scan_reap inv(5) [of j] by simp
  then show ?thesis
    by (intro fork_kept [OF assms(3)]) (use scan_reap inv(1) k in \<open>auto simp: freeproc_def nth_update\<close>)
next
  case (fork_fails i np k)
  note inv = inv_cpuD [OF assms(2)]
  have "np < length (procs (kern m))" using fork_fails inv(1) by simp
  from fork_failed [OF fork_fails(7) this] show ?thesis
    by (intro fork_kept [OF assms(3)]) (use fork_fails inv(1) in \<open>auto simp: freeproc_def nth_update\<close>)
next
  case (scan_fails i j h k)
  have "procs k = procs (kern m)" using scan_fails(8) succeeds_frame by auto
  then show ?thesis by (intro fork_kept [OF assms(3)]) (use scan_fails in auto)
next
  case (own i f)
  have "p_state (f p) = p_state p" for p using own(3) [of p] by (simp add: lifecycle_def)
  then show ?thesis
    by (intro fork_kept [OF assms(3)]) (use own inv_cpuD(1) [OF assms(2)] in \<open>auto simp: nth_update runs_def split: if_splits\<close>)
next
  case (resume i)
  note inv = inv_cpuD [OF assms(2)]
  have "parked (at m i)" using resuming(1) [OF assms(2)] resume by simp
  with resume_kernel_result(1) [of i "at m i" "kern m"] show ?thesis
    by (intro fork_kept [OF assms(3)]) (use resume inv(1) in \<open>auto simp: nth_update pending_resumed split: if_splits\<close>)
qed (rule fork_kept [OF assms(3)];
  use inv_cpuD(1) [OF assms(2)] in \<open>auto simp: nth_update select_def wakeup_slot_result runs_def split: if_splits\<close>)+

subsection \<open>Process ids and unused slots\<close>

text \<open>What a slot must not keep of its last occupant; \<open>p_killed\<close> is not among it.\<close>

definition pristine :: "proc \<Rightarrow> bool" where
  "pristine p \<longleftrightarrow> p_pid p = 0 \<and> p_parent p = None \<and> p_chan p = None \<and> p_sz p = 0 \<and> p_name p = [] \<and>
     p_xstate p = 0 \<and> \<not> p_trapframe p \<and> \<not> p_pagetable p \<and>
     p_trace_mask p = 0 \<and> p_runticks p = 0 \<and> p_waitticks p = 0 \<and> p_syscall_count p = 0 \<and>
     p_tickets p = 0 \<and> p_sched_selections p = 0 \<and> p_pagefaults p = 0 \<and> p_pagefaults_failed p = 0"

definition inv_pid :: "machine \<Rightarrow> bool" where
  "inv_pid m \<longleftrightarrow> 0 < nextpid (kern m) \<and>
     (\<forall>i<NPROC. if st m i = UNUSED then pristine (procs (kern m) ! i)
        else 0 < p_pid (procs (kern m) ! i) \<and> p_pid (procs (kern m) ! i) < nextpid (kern m)) \<and>
     (\<forall>i<NPROC. \<forall>j<NPROC. st m i \<noteq> UNUSED \<and> st m j \<noteq> UNUSED \<and>
        p_pid (procs (kern m) ! i) = p_pid (procs (kern m) ! j) \<longrightarrow> i = j)"

lemma inv_pidD:
  assumes "inv_pid m" and "i < NPROC"
  shows "st m i = UNUSED \<Longrightarrow> pristine (procs (kern m) ! i)"
    and "st m i \<noteq> UNUSED \<Longrightarrow> 0 < p_pid (procs (kern m) ! i)"
    and "st m i \<noteq> UNUSED \<Longrightarrow> p_pid (procs (kern m) ! i) < nextpid (kern m)"
  using assms unfolding inv_pid_def by presburger+

lemma pid_unique:
  assumes "inv_pid m" and "i < NPROC" and "j < NPROC" and "st m i \<noteq> UNUSED" and "st m j \<noteq> UNUSED"
    and "p_pid (procs (kern m) ! i) = p_pid (procs (kern m) ! j)"
  shows "i = j"
  using assms unfolding inv_pid_def by blast

text \<open>A step that gives no slot a new id: it leaves it alone or makes it unused.\<close>

lemma pid_kept:
  assumes "inv_pid m" and "nextpid (kern m') \<ge> nextpid (kern m)"
    and "\<And>j. j < NPROC \<Longrightarrow> st m' j = UNUSED \<and> pristine (procs (kern m') ! j) \<or>
      st m j \<noteq> UNUSED \<and> st m' j \<noteq> UNUSED \<and> p_pid (procs (kern m') ! j) = p_pid (procs (kern m) ! j)"
  shows "inv_pid m'"
proof -
  have "0 < nextpid (kern m')" using assms(1,2) by (simp add: inv_pid_def)
  moreover have "if st m' j = UNUSED then pristine (procs (kern m') ! j)
      else 0 < p_pid (procs (kern m') ! j) \<and> p_pid (procs (kern m') ! j) < nextpid (kern m')" if "j < NPROC" for j
    using assms(2) assms(3) [OF that] inv_pidD [OF assms(1) that] by auto
  moreover have "i = j" if "i < NPROC" "j < NPROC" "st m' i \<noteq> UNUSED" "st m' j \<noteq> UNUSED"
      "p_pid (procs (kern m') ! i) = p_pid (procs (kern m') ! j)" for i j
    using pid_unique [OF assms(1) that(1,2)] assms(3) [OF that(1)] assms(3) [OF that(2)] that(3-5) by argo
  ultimately show ?thesis unfolding inv_pid_def by blast
qed

lemma pristine_kill [simp]: "pristine (kill_proc p) = pristine p"
  by (simp add: pristine_def kill_proc_def Let_def)

lemma pristine_state [simp]: "pristine (p\<lparr>p_state := s\<rparr>) = pristine p"
  by (simp add: pristine_def)

lemma pristine_freed: "i < length (procs k) \<Longrightarrow> pristine (procs (freeproc i k) ! i) \<and> p_state (procs (freeproc i k) ! i) = UNUSED"
  by (simp add: pristine_def freeproc_def)

lemma inv_pid_step:
  assumes "step m m'" and "inv_cpu m" and "inv_fork m" and "inv_pid m"
  shows "inv_pid m'"
  using assms(1)
proof (cases rule: step.cases)
  case (fork i np c k)
  note inv = inv_cpuD [OF assms(2)]
  have "np < length (procs (kern m))" using fork inv(1) by simp
  from fork_made [OF fork(7) this] obtain child where k: "procs k = (procs (kern m))[np := child]" "p_state child = USED"
    "p_pid child = nextpid (kern m)" "nextpid k = nextpid (kern m) + 1" by metis
  have at_j: "procs (kern m') ! j = (if j = np then child else procs (kern m) ! j)" if "j < NPROC" for j
    using that fork k inv(1) by (simp add: nth_update)
  have pos: "0 < nextpid (kern m)" using assms(4) by (simp add: inv_pid_def)
  have nxt: "nextpid (kern m') = nextpid (kern m) + 1" using fork k(4) by simp
  have "if st m' j = UNUSED then pristine (procs (kern m') ! j)
      else 0 < p_pid (procs (kern m') ! j) \<and> p_pid (procs (kern m') ! j) < nextpid (kern m')" if "j < NPROC" for j
    using pos nxt k(2,3) at_j [OF that] inv_pidD [OF assms(4) that] by auto
  moreover have "i = j" if ij: "i < NPROC" "j < NPROC" "st m' i \<noteq> UNUSED" "st m' j \<noteq> UNUSED"
      "p_pid (procs (kern m') ! i) = p_pid (procs (kern m') ! j)" for i j
  proof -
    have old: "st m l \<noteq> UNUSED \<and> p_pid (procs (kern m) ! l) = p_pid (procs (kern m') ! l) \<and>
        p_pid (procs (kern m') ! l) < nextpid (kern m)"
      if "l < NPROC" "l \<noteq> np" "st m' l \<noteq> UNUSED" for l
      using that at_j inv_pidD(3) [OF assms(4), of l] by simp
    have "p_pid (procs (kern m') ! np) = nextpid (kern m)" using at_j [OF fork(4)] k(3) by simp
    then show ?thesis
      using ij old [of i] old [of j] pid_unique [OF assms(4) ij(1,2)] by (cases "i = np"; cases "j = np") auto
  qed
  moreover have "0 < nextpid (kern m')" using pos nxt by simp
  ultimately show ?thesis unfolding inv_pid_def by blast
next
  case (fork_fails i np k)
  note inv = inv_cpuD [OF assms(2)]
  have np: "np < length (procs (kern m))" using fork_fails inv(1) by simp
  note k = fork_failed [OF fork_fails(7) np] pristine_freed [OF np]
  show ?thesis
    by (rule pid_kept [OF assms(4)])
      (use fork_fails k inv(1) inv_pidD(1) [OF assms(4)] in \<open>auto simp: freeproc_def nth_update\<close>)
next
  case (scan_reap i addr j h k)
  note inv = inv_cpuD [OF assms(2)]
  have k: "procs k = procs (kern m)" "nextpid k = nextpid (kern m)"
    using scan_reap(8) succeeds_frame by (auto split: if_splits)
  have at_l: "procs (kern m') ! l = (if l = j then procs (freeproc j k) ! j else procs (kern m) ! l)" if "l < NPROC" for l
    using that scan_reap k inv(1) by (simp add: nth_update freeproc_def)
  have freed: "pristine (procs (freeproc j k) ! j)" "p_state (procs (freeproc j k) ! j) = UNUSED"
    using pristine_freed [of j k] scan_reap(4) k inv(1) by simp_all
  show ?thesis
  proof (rule pid_kept [OF assms(4)])
    show "nextpid (kern m) \<le> nextpid (kern m')" using scan_reap(1) k(2) by simp
    fix l
    assume "l < NPROC"
    then show "st m' l = UNUSED \<and> pristine (procs (kern m') ! l) \<or>
        st m l \<noteq> UNUSED \<and> st m' l \<noteq> UNUSED \<and> p_pid (procs (kern m') ! l) = p_pid (procs (kern m) ! l)"
      using at_l [of l] freed inv_pidD(1) [OF assms(4), of l] by (cases "l = j") auto
  qed
next
  case (scan_fails i j h k)
  have "procs k = procs (kern m)" "nextpid k = nextpid (kern m)" using scan_fails(8) succeeds_frame by auto
  then show ?thesis
    by (intro pid_kept [OF assms(4)]) (use scan_fails inv_pidD(1) [OF assms(4)] in auto)
next
  case (own i f)
  have "p_state (f p) = p_state p" "p_pid (f p) = p_pid p" for p using own(3) [of p] by (simp_all add: lifecycle_def)
  then show ?thesis
    by (intro pid_kept [OF assms(4)])
      (use own inv_cpuD(1) [OF assms(2)] inv_pidD(1) [OF assms(4)] in \<open>auto simp: nth_update runs_def\<close>)
next
  case (resume i)
  note inv = inv_cpuD [OF assms(2)]
  obtain w where "procs (kern m') = (procs (kern m))[i := (procs (kern m) ! i)\<lparr>p_chan :=
      (case at m i of Asleep s r \<Rightarrow> None | _ \<Rightarrow> p_chan (procs (kern m) ! i)), p_waitticks := w\<rparr>]"
    using resume resume_kernel_result(1) [of i "at m i" "kern m"] by auto
  then have "procs (kern m') ! j = (if i = j then (procs (kern m) ! i)\<lparr>p_chan :=
      (case at m i of Asleep s r \<Rightarrow> None | _ \<Rightarrow> p_chan (procs (kern m) ! i)), p_waitticks := w\<rparr> else procs (kern m) ! j)"
    if "j < NPROC" for j using that inv(1) by (simp add: nth_update)
  then show ?thesis
    by (intro pid_kept [OF assms(4)]) (use resume resume_kernel_result(4) inv_pidD(1) [OF assms(4)] in auto)
next
  case (fork_start i np)
  have "pending (at m i) = Some np" using fork_start by simp
  then have "st m np = USED" using assms(3) by (auto simp: inv_fork_def)
  then show ?thesis
    by (intro pid_kept [OF assms(4)])
      (use fork_start inv_cpuD(1) [OF assms(2)] inv_pidD(1) [OF assms(4)] in \<open>auto simp: nth_update\<close>)
next
  case (fork_parent i np)
  have "pending (at m i) = Some np" using fork_parent by simp
  then have "st m np = USED" using assms(3) by (auto simp: inv_fork_def)
  then show ?thesis
    by (intro pid_kept [OF assms(4)])
      (use fork_parent inv_cpuD(1) [OF assms(2)] inv_pidD(1) [OF assms(4)] in \<open>auto simp: nth_update\<close>)
next
  case (reparent_child i s j)
  have "st m j \<noteq> UNUSED" using reparent_child inv_pidD(1) [OF assms(4), of j] by (auto simp: pristine_def)
  then show ?thesis
    by (intro pid_kept [OF assms(4)])
      (use reparent_child inv_cpuD(1) [OF assms(2)] inv_pidD(1) [OF assms(4)] in \<open>auto simp: nth_update\<close>)
qed (rule pid_kept [OF assms(4)];
  use inv_cpuD(1) [OF assms(2)] inv_pidD(1) [OF assms(4)]
  in \<open>auto simp: nth_update select_def wakeup_slot_result runs_def split: if_splits\<close>)+

end
