(* ===== verification/Xv6_Lifecycle_Wakeup.thy ===== *)
theory Xv6_Lifecycle_Wakeup
  imports Xv6_Lifecycle_Steps
begin

text \<open>
  Parents and wakeups in the process machine: every process has a parent that is alive, and a process that
  sleeps in \<open>kwait\<close> has no zombie child unless the process that gave it the child is about to wake it.  The
  invariant of the machine is the conjunction of its parts and holds in every reachable state.
\<close>

subsection \<open>Parents\<close>

definition alive :: "procstate \<Rightarrow> bool" where
  "alive s \<longleftrightarrow> s = RUNNABLE \<or> s = RUNNING \<or> s = SLEEPING"

text \<open>A child whose parent has not been set yet.\<close>

fun unparented :: "pc \<Rightarrow> nat option" where
  "unparented (Forking c) = Some c"
| "unparented (Yielded p) = unparented p"
| "unparented _ = None"

fun exiting :: "pc \<Rightarrow> bool" where
  "exiting (Reparenting s n) = True"
| "exiting (WakingInit s n l) = True"
| "exiting (WakingParent s l) = True"
| "exiting (Dying s) = True"
| "exiting _ = False"

text \<open>The slots an exiting process has already taken its children from.\<close>

fun swept :: "pc \<Rightarrow> nat" where
  "swept (Reparenting s n) = n"
| "swept (WakingInit s n l) = n + 1"
| "swept (WakingParent s l) = NPROC"
| "swept (Dying s) = NPROC"
| "swept _ = 0"

definition has_parent :: "machine \<Rightarrow> nat \<Rightarrow> bool" where
  "has_parent m i \<longleftrightarrow> st m i = UNUSED \<or>
     (case par m i of Some q \<Rightarrow> q < NPROC \<and> alive (st m q) | None \<Rightarrow> i = 0 \<or> (\<exists>q. unparented (at m q) = Some i))"

definition inv_parent :: "machine \<Rightarrow> bool" where
  "inv_parent m \<longleftrightarrow> par m 0 = None \<and> alive (st m 0) \<and> \<not> exiting (at m 0) \<and> (\<forall>i<NPROC. has_parent m i) \<and>
     (\<forall>q. \<forall>i<NPROC. i < swept (at m q) \<longrightarrow> par m i \<noteq> Some q)"

lemma zero_slot: "0 < NPROC"
  by (simp add: NPROC_def)

lemma resumed_idle:
  assumes "parked p" and "well_placed p"
  shows "\<not> exiting (resumed p)" and "swept (resumed p) = 0" and "unparented (resumed p) = unparented p"
  using assms by (cases p rule: resumed.cases; auto elim: preemptible.elims)+

lemma swept_exiting: "0 < swept p \<Longrightarrow> exiting p"
  by (cases p) auto

lemma exiting_holds: "exiting p \<Longrightarrow> holds_wait p"
  by (cases p) auto

text \<open>A step that changes no parent, ends no process, and sweeps no further.\<close>

lemma parent_kept:
  assumes "inv_parent m" and "\<And>j. j < NPROC \<Longrightarrow> par m' j = par m j"
    and "\<And>j. j < NPROC \<Longrightarrow> st m' j = UNUSED \<longleftrightarrow> st m j = UNUSED"
    and "\<And>j. j < NPROC \<Longrightarrow> alive (st m j) \<Longrightarrow> alive (st m' j)"
    and "\<And>q c. unparented (at m q) = Some c \<Longrightarrow> unparented (at m' q) = Some c"
    and "\<And>q i. i < NPROC \<Longrightarrow> i < swept (at m' q) \<Longrightarrow> i < swept (at m q) \<or> par m i \<noteq> Some q"
    and "\<not> exiting (at m' 0)"
  shows "inv_parent m'"
proof -
  have "has_parent m' i" if i: "i < NPROC" for i
  proof -
    have "has_parent m i" using assms(1) i by (simp add: inv_parent_def)
    then show ?thesis
      using assms(2-4) [OF i] assms(4) assms(5) unfolding has_parent_def by (auto split: option.splits) 
  qed
  then show ?thesis
    using assms(1,7) assms(2,4) [OF zero_slot] assms(2,6) unfolding inv_parent_def by simp blast
qed

lemma fit_alive: "fit s p c l \<Longrightarrow> parked p \<Longrightarrow> s \<noteq> USED \<Longrightarrow> alive s"
  by (cases s) (auto simp: alive_def)

lemma inv_parentD:
  assumes "inv_parent m"
  shows "par m 0 = None" and "alive (st m 0)" and "\<not> exiting (at m 0)"
    and "i < NPROC \<Longrightarrow> has_parent m i"
    and "i < NPROC \<Longrightarrow> i < swept (at m q) \<Longrightarrow> par m i \<noteq> Some q"
  using assms by (auto simp: inv_parent_def)

text \<open>The same for steps that do one of these things.\<close>

lemma parent_moved:
  assumes "inv_parent m"
    and "\<And>j. j < NPROC \<Longrightarrow> st m' j = UNUSED \<or> st m j \<noteq> UNUSED \<and> par m' j = par m j \<or> has_parent m' j"
    and "\<And>j i. j < NPROC \<Longrightarrow> alive (st m j) \<Longrightarrow> \<not> alive (st m' j) \<Longrightarrow> i < NPROC \<Longrightarrow> par m i \<noteq> Some j"
    and "\<And>q c. c < NPROC \<Longrightarrow> unparented (at m q) = Some c \<Longrightarrow> unparented (at m' q) = Some c \<or> has_parent m' c"
    and "\<And>q i. i < NPROC \<Longrightarrow> i < swept (at m' q) \<Longrightarrow> par m' i \<noteq> Some q"
    and "par m' 0 = None" and "alive (st m' 0)" and "\<not> exiting (at m' 0)"
  shows "inv_parent m'"
proof -
  have "has_parent m' i" if i: "i < NPROC" for i
  proof (rule ccontr)
    assume not: "\<not> has_parent m' i"
    then have "st m i \<noteq> UNUSED" and par: "par m' i = par m i"
      using assms(2) [OF i] by (auto simp: has_parent_def)
    then have "case par m i of Some q \<Rightarrow> q < NPROC \<and> alive (st m q) | None \<Rightarrow> i = 0 \<or> (\<exists>q. unparented (at m q) = Some i)"
      using assms(1) i by (auto simp: inv_parent_def has_parent_def)
    then show False
      using not par assms(3) [OF _ _ _ i] assms(4) [OF i] by (auto simp: has_parent_def split: option.splits)
  qed
  then show ?thesis using assms(5-8) by (simp add: inv_parent_def)
qed

lemma parent_alive: "inv_parent m \<Longrightarrow> i < NPROC \<Longrightarrow> st m i \<noteq> UNUSED \<Longrightarrow> par m i = Some q \<Longrightarrow> q < NPROC \<and> alive (st m q)"
  using inv_parentD(4) [of m i] by (simp add: has_parent_def)

lemma not_init: "inv_parent m \<Longrightarrow> exiting (at m i) \<Longrightarrow> 0 < i"
  using inv_parentD(3) by (cases i) auto

lemma inv_parent_step:
  assumes "step m m'" and "inv_cpu m" and "inv_fork m" and "inv_pid m" and "inv_parent m"
  shows "inv_parent m'"
  using assms(1)
proof (cases rule: step.cases)
  case (fork i np c k)
  note inv = inv_cpuD [OF assms(2)] and par = inv_parentD [OF assms(5)]
  have np: "np < length (procs (kern m))" using fork inv(1) by simp
  from fork_made [OF fork(7) np] obtain child where k: "procs k = (procs (kern m))[np := child]" "p_state child = USED"
    "p_parent child = par m np" by metis
  have none: "par m np = None" using inv_pidD(1) [OF assms(4) fork(4,5)] by (simp add: pristine_def)
  have gone: "at m np = Absent" using inv(5) [OF fork(4)] fork(5) by simp
  have at_j: "procs (kern m') ! j = (if np = j then child else procs (kern m) ! j)" if "j < NPROC" for j
    using that fork(1) k(1) inv(1) by (simp add: nth_update)
  have "np \<noteq> 0" using par(2) fork(5) by (intro notI) (simp add: alive_def)
  have "i \<noteq> np" using fork(2,5) by (auto simp: runs_def)
  then have pc: "at m' = (at m)(i := Forking np, np := NewBorn)" and "unparented (at m' i) = Some np"
    using fork(1) by auto
  then show ?thesis
    using at_j at_j [OF zero_slot] par fork(3,5) k(2,3) none gone \<open>np \<noteq> 0\<close>
    by (intro parent_moved [OF assms(5)]) (auto simp: has_parent_def alive_def split: if_splits)
next
  case (fork_fails i np k)
  note inv = inv_cpuD [OF assms(2)] and par = inv_parentD [OF assms(5)]
  have np: "np < length (procs (kern m))" using fork_fails inv(1) by simp
  note k = fork_failed [OF fork_fails(7) np]
  have none: "par m np = None" using inv_pidD(1) [OF assms(4) fork_fails(4,5)] by (simp add: pristine_def)
  show ?thesis
    by (rule parent_kept [OF assms(5)])
      (use fork_fails k(1) none inv(1) par(3) in \<open>auto simp: freeproc_def nth_update alive_def\<close>)
next
  case (fork_parent i np)
  note inv = inv_cpuD [OF assms(2)] and par = inv_parentD [OF assms(5)]
  have "pending (at m i) = Some np" using fork_parent by simp
  then have np: "np < NPROC" "st m np = USED" using assms(3) by (auto simp: inv_fork_def)
  have "np \<noteq> 0" using par(2) np(2) by (intro notI) (simp add: alive_def)
  have at_j: "procs (kern m') ! j = (if np = j then (procs (kern m) ! np)\<lparr>p_parent := Some i\<rparr> else procs (kern m) ! j)"
    if "j < NPROC" for j
    using that fork_parent(1) inv(1) by (simp add: nth_update)
  have "has_parent m' np"
    using at_j [OF np(1)] at_j [of i] fork_parent(2) by (auto simp: has_parent_def alive_def runs_def)
  then show ?thesis
    using at_j at_j [OF zero_slot] par fork_parent \<open>np \<noteq> 0\<close> np
    by (intro parent_moved [OF assms(5)]) (auto simp: alive_def split: if_splits)
next
  case (fork_start i np)
  note inv = inv_cpuD [OF assms(2)] and par = inv_parentD [OF assms(5)]
  have "pending (at m i) = Some np" using fork_start by simp
  then have np: "np < NPROC" "st m np = USED" using assms(3) by (auto simp: inv_fork_def)
  show ?thesis
    by (rule parent_kept [OF assms(5)])
      (use fork_start np inv(1) par(3) in \<open>auto simp: nth_update alive_def split: if_splits\<close>)
next
  case (scan_reap i addr j h k)
  note inv = inv_cpuD [OF assms(2)] and par = inv_parentD [OF assms(5)]
  have k: "procs k = procs (kern m)" using scan_reap(8) succeeds_frame by (auto split: if_splits)
  have at_l: "procs (kern m') ! l = (if l = j then procs (freeproc j k) ! j else procs (kern m) ! l)" if "l < NPROC" for l
    using that scan_reap(1) k inv(1) by (simp add: nth_update freeproc_def)
  have freed: "pristine (procs (freeproc j k) ! j)" "p_state (procs (freeproc j k) ! j) = UNUSED"
    using pristine_freed [of j k] scan_reap(4) k inv(1) by simp_all
  have "at m j = Dead" using inv(5) [OF scan_reap(4)] scan_reap(7) by simp
  moreover have pc: "at m' = (at m)(j := Absent, i := InUser)" using scan_reap(1) by simp
  moreover have "j \<noteq> 0" using par(2) scan_reap(7) by (intro notI) (simp add: alive_def)
  ultimately show ?thesis
    using at_l at_l [OF zero_slot] par scan_reap(2-7) freed pc
    by (intro parent_moved [OF assms(5)]) (auto simp: alive_def pristine_def split: if_splits)
next
  case (scan_fails i j h k)
  have "procs k = procs (kern m)" using scan_fails(8) succeeds_frame by auto
  then show ?thesis
    by (intro parent_kept [OF assms(5)]) (use scan_fails inv_parentD(3) [OF assms(5)] in \<open>auto split: if_splits\<close>)
next
  case (own i f)
  have "p_state (f p) = p_state p" "p_parent (f p) = p_parent p" for p using own(3) [of p] by (simp_all add: lifecycle_def)
  then show ?thesis
    by (intro parent_kept [OF assms(5)])
      (use own inv_cpuD(1) [OF assms(2)] inv_parentD(3) [OF assms(5)] in \<open>auto simp: nth_update\<close>)
next
  case (resume i)
  note inv = inv_cpuD [OF assms(2)] and par = inv_parentD [OF assms(5)]
  note res = resuming [OF assms(2) resume(4,5,2)]
  obtain w where "procs (kern m') = (procs (kern m))[i := (procs (kern m) ! i)\<lparr>p_chan :=
      (case at m i of Asleep s r \<Rightarrow> None | _ \<Rightarrow> p_chan (procs (kern m) ! i)), p_waitticks := w\<rparr>]"
    using resume resume_kernel_result(1) [of i "at m i" "kern m"] by auto
  then have "par m' j = par m j" "st m' j = st m j" if "j < NPROC" for j
    using that inv(1) by (simp_all add: nth_update)
  then show ?thesis
    by (intro parent_kept [OF assms(5)]) (use resume(1) resumed_idle [OF res] par(3) in \<open>auto split: if_splits\<close>)
next
  case (die i s)
  note inv = inv_cpuD [OF assms(2)] and par = inv_parentD [OF assms(5)]
  have at_j: "st m' j = (if j = i then ZOMBIE else st m j)" "par m' j = par m j" if "j < NPROC" for j
    using that die(1) inv(1) by (simp_all add: nth_update)
  have "i \<noteq> 0" using die(3) not_init [OF assms(5), of i] by simp
  moreover have "par m j \<noteq> Some i" if "j < NPROC" for j using par(5) [OF that, of i] die(3) that by simp
  moreover have "at m' = (at m)(i := Dead)" using die(1) by simp
  ultimately show ?thesis
    using at_j at_j [OF zero_slot] par die(2,3)
    by (intro parent_moved [OF assms(5)]) (auto simp: alive_def runs_def split: if_splits)
next
  case (exit i s)
  have "i \<noteq> 0" using exit(4) inv_cpuD(3) [OF assms(2)] by auto
  then show ?thesis
    by (intro parent_kept [OF assms(5)]) (use exit inv_parentD(3) [OF assms(5)] in \<open>auto split: if_splits\<close>)
next
  case (reparent_child i s j)
  note inv = inv_cpuD [OF assms(2)] and par = inv_parentD [OF assms(5)]
  have at_l: "par m' l = (if l = j then Some 0 else par m l)" "st m' l = st m l" if "l < NPROC" for l
    using that reparent_child(1) inv(1,3) by (simp_all add: nth_update)
  have "i \<noteq> 0" using reparent_child(3) not_init [OF assms(5), of i] by simp
  moreover have "j \<noteq> 0" using reparent_child(5) par(1) by (intro notI) simp
  moreover have "has_parent m' j"
    using at_l [OF reparent_child(4)] at_l(2) [OF zero_slot] par(2) zero_slot by (simp add: has_parent_def)
  moreover have "j < swept (at m q) \<Longrightarrow> 0 < q" for q
    using not_init [OF assms(5), of q] swept_exiting [of "at m q"] by simp
  moreover have pc: "at m' = (at m)(i := WakingInit s j 0)" using reparent_child(1) by simp
  ultimately show ?thesis
    using at_l at_l [OF zero_slot] par reparent_child(3,4) pc
    by (intro parent_moved [OF assms(5)]) (auto simp: less_Suc_eq split: if_splits)
qed (rule parent_kept [OF assms(5)]; use inv_cpuD(1) [OF assms(2)] inv_parentD(3) [OF assms(5)] not_init [OF assms(5)]
  in \<open>auto simp: nth_update select_def wakeup_slot_result runs_def alive_def less_Suc_eq split: if_splits\<close>)+

subsection \<open>Wakeups\<close>

text \<open>
  \<open>zombie_child m p z\<close>: there is something for \<open>p\<close> to collect; \<open>on_self m p\<close>: \<open>p\<close> sleeps in \<open>kwait\<close>.  How far
  a scan, a wakeup of the parent and a wakeup of \<open>init\<close> have got, by the place in the code.
\<close>

definition zombie_child :: "machine \<Rightarrow> nat \<Rightarrow> nat \<Rightarrow> bool" where
  "zombie_child m p z \<longleftrightarrow> z < NPROC \<and> par m z = Some p \<and> st m z = ZOMBIE"

definition on_self :: "machine \<Rightarrow> nat \<Rightarrow> bool" where
  "on_self m p \<longleftrightarrow> p < NPROC \<and> st m p = SLEEPING \<and> p_chan (procs (kern m) ! p) = Some (ChanProc p)"

fun scanned :: "pc \<Rightarrow> nat" where
  "scanned (Scanning a n h) = n"
| "scanned (Checking a) = NPROC"
| "scanned (GoingToSleep a s) = NPROC"
| "scanned _ = 0"

fun woken :: "pc \<Rightarrow> nat" where
  "woken (WakingParent s l) = l"
| "woken (Dying s) = NPROC"
| "woken _ = 0"

fun waking_init :: "pc \<Rightarrow> nat option" where
  "waking_init (WakingInit s n l) = Some l"
| "waking_init _ = None"

definition inv_wakeup :: "machine \<Rightarrow> bool" where
  "inv_wakeup m \<longleftrightarrow>
     (\<forall>p z. zombie_child m p z \<and> on_self m p \<longrightarrow> p = 0 \<and> (\<exists>e. waking_init (at m e) = Some 0)) \<and>
     (\<forall>p z. zombie_child m p z \<longrightarrow> scanned (at m p) \<le> z) \<and>
     (\<forall>e l. waking_init (at m e) = Some l \<and> 0 < l \<longrightarrow> \<not> on_self m 0) \<and>
     (\<forall>e q. e < NPROC \<and> par m e = Some q \<and> q < woken (at m e) \<longrightarrow> \<not> on_self m q)"

lemma inv_wakeupD:
  assumes "inv_wakeup m"
  shows "zombie_child m p z \<Longrightarrow> on_self m p \<Longrightarrow> p = 0 \<and> (\<exists>e. waking_init (at m e) = Some 0)"
    and "zombie_child m p z \<Longrightarrow> scanned (at m p) \<le> z"
    and "waking_init (at m e) = Some l \<Longrightarrow> 0 < l \<Longrightarrow> \<not> on_self m 0"
    and "e < NPROC \<Longrightarrow> par m e = Some q \<Longrightarrow> q < woken (at m e) \<Longrightarrow> \<not> on_self m q"
  using assms unfolding inv_wakeup_def by blast+

lemma idle_places:
  assumes "\<not> holds_wait p"
  shows "scanned p = 0" and "woken p = 0" and "waking_init p = None"
  using assms by (cases p; simp)+

text \<open>A step that puts no process to sleep on itself and makes no zombie.\<close>

lemma wakeup_kept:
  assumes "inv_wakeup m" and "\<And>p. on_self m' p \<Longrightarrow> on_self m p"
    and "\<And>p z. zombie_child m' p z \<Longrightarrow> zombie_child m p z"
    and "\<And>p z. zombie_child m p z \<Longrightarrow> scanned (at m p) \<le> z \<Longrightarrow> scanned (at m' p) \<le> z"
    and "\<And>e l. waking_init (at m' e) = Some l \<Longrightarrow> 0 < l \<Longrightarrow> waking_init (at m e) = Some l"
    and "\<And>e. waking_init (at m e) = Some 0 \<Longrightarrow> waking_init (at m' e) = Some 0"
    and "\<And>e. e < NPROC \<Longrightarrow> woken (at m' e) = 0 \<or> woken (at m' e) = woken (at m e) \<and> par m' e = par m e"
  shows "inv_wakeup m'"
proof -
  note inv = inv_wakeupD [OF assms(1)]
  have "\<not> on_self m' q" if "e < NPROC" "par m' e = Some q" "q < woken (at m' e)" for e q
    using assms(7) [OF that(1)] that inv(4) [OF that(1), of q] assms(2) by auto
  moreover have "p = 0 \<and> (\<exists>e. waking_init (at m' e) = Some 0)" if "zombie_child m' p z" "on_self m' p" for p z
    using inv(1) [of p z] assms(2,3,6) that by blast
  moreover have "scanned (at m' p) \<le> z" if "zombie_child m' p z" for p z
    using inv(2) [of p z] assms(3,4) that by blast
  moreover have "\<not> on_self m' 0" if "waking_init (at m' e) = Some l" "0 < l" for e l
    using inv(3) [of e l] assms(2,5) that by blast
  ultimately show ?thesis unfolding inv_wakeup_def by blast
qed

lemma slots_kept:
  assumes "\<And>j. j < NPROC \<Longrightarrow> st m' j = SLEEPING \<Longrightarrow>
      st m j = SLEEPING \<and> p_chan (procs (kern m') ! j) = p_chan (procs (kern m) ! j)"
    and "\<And>j. j < NPROC \<Longrightarrow> st m' j = ZOMBIE \<Longrightarrow> st m j = ZOMBIE \<and> par m' j = par m j"
  shows "on_self m' p \<Longrightarrow> on_self m p" and "zombie_child m' p z \<Longrightarrow> zombie_child m p z"
  using assms by (auto simp: on_self_def zombie_child_def)

text \<open>The owner of the wait lock is the only process at a place that the invariant speaks of.\<close>

lemma only_owner:
  assumes "inv_owner m" and "holds_wait (at m i)" and "j \<noteq> i"
  shows "\<not> holds_wait (at m j)"
  using assms unfolding inv_owner_def by (metis option.inject)

lemma inv_wakeup_step:
  assumes "step m m'" and "inv_cpu m" and "inv_owner m" and "inv_fork m" and "inv_pid m" and "inv_parent m" and "inv_wakeup m"
  shows "inv_wakeup m'"
  using assms(1)
proof (cases rule: step.cases)
  case (fork i np c k)
  note inv = inv_cpuD [OF assms(2)]
  have np: "np < length (procs (kern m))" using fork inv(1) by simp
  from fork_made [OF fork(7) np] obtain child where k: "procs k = (procs (kern m))[np := child]" "p_state child = USED"
    by metis
  have gone: "at m np = Absent" using inv(5) [OF fork(4)] fork(5) by simp
  have slots: "procs (kern m') ! j = (if np = j then child else procs (kern m) ! j)" if "j < NPROC" for j
    using that fork(1) k(1) inv(1) by (simp add: nth_update)
  have pc: "at m' = (at m)(i := Forking np, np := NewBorn)" using fork(1) by simp
  show ?thesis
    by (rule wakeup_kept [OF assms(7)], (rule slots_kept; use slots k(2) in auto)+;
      use slots pc gone fork(3) in \<open>auto split: if_splits\<close>)
next
  case (fork_fails i np k)
  note inv = inv_cpuD [OF assms(2)]
  have np: "np < length (procs (kern m))" using fork_fails inv(1) by simp
  have freed: "p_state (procs (freeproc np (kern m)) ! np) = UNUSED" using pristine_freed [OF np] by simp
  have slots: "procs (kern m') ! j = (if j = np then procs (freeproc np (kern m)) ! np else procs (kern m) ! j)"
    if "j < NPROC" for j
    using that fork_fails(1) fork_failed(1) [OF fork_fails(7) np] inv(1) by (simp add: nth_update freeproc_def)
  have gone: "at m np = Absent" using inv(5) [OF fork_fails(4)] fork_fails(5) by simp
  have pc: "at m' = at m" using fork_fails(1) by simp
  show ?thesis
    by (rule wakeup_kept [OF assms(7)], (rule slots_kept; use slots freed in \<open>auto split: if_splits\<close>)+;
      use slots pc gone in \<open>auto split: if_splits\<close>)
next
  case (fork_parent i np)
  note inv = inv_cpuD [OF assms(2)]
  have "pending (at m i) = Some np" using fork_parent by simp
  then have np: "np < NPROC" "st m np = USED" using assms(4) by (auto simp: inv_fork_def)
  then have newborn: "at m np = NewBorn" using inv(5) [of np] by simp
  show ?thesis
    by (rule wakeup_kept [OF assms(7)], (rule slots_kept; use fork_parent np inv(1) in \<open>auto simp: nth_update split: if_splits\<close>)+;
      use fork_parent np newborn inv(1) in \<open>auto simp: nth_update split: if_splits\<close>)
next
  case (scan_reap i addr j h k)
  note inv = inv_cpuD [OF assms(2)]
  have k: "procs k = procs (kern m)" using scan_reap(8) succeeds_frame by (auto split: if_splits)
  have slots: "procs (kern m') ! l = (if l = j then procs (freeproc j k) ! j else procs (kern m) ! l)" if "l < NPROC" for l
    using that scan_reap(1) k inv(1) by (simp add: nth_update freeproc_def)
  have freed: "p_state (procs (freeproc j k) ! j) = UNUSED"
    using pristine_freed [of j k] scan_reap(4) k inv(1) by simp_all
  have gone: "at m j = Dead" using inv(5) [OF scan_reap(4)] scan_reap(7) by simp
  have pc: "at m' = (at m)(j := Absent, i := InUser)" using scan_reap(1) by simp
  show ?thesis
    by (rule wakeup_kept [OF assms(7)], (rule slots_kept; use slots freed in \<open>auto split: if_splits\<close>)+;
      use slots pc gone scan_reap(3) in \<open>auto split: if_splits\<close>)
next
  case (scan_fails i j h k)
  have "procs k = procs (kern m)" using scan_fails(8) succeeds_frame by auto
  then have same: "procs (kern m') = procs (kern m)" and pc: "at m' = (at m)(i := InUser)" using scan_fails(1) by simp_all
  show ?thesis
    by (rule wakeup_kept [OF assms(7)], (rule slots_kept; use same in auto)+; use same pc scan_fails(3) in \<open>auto split: if_splits\<close>)
next
  case (own i f)
  have same: "p_state (f p) = p_state p" "p_parent (f p) = p_parent p" "p_chan (f p) = p_chan p" for p
    using own(3) [of p] by (simp_all add: lifecycle_def)
  show ?thesis
    by (rule wakeup_kept [OF assms(7)],
      (rule slots_kept; use own same inv_cpuD(1) [OF assms(2)] in \<open>auto simp: nth_update split: if_splits\<close>)+;
      use own same inv_cpuD(1) [OF assms(2)] in \<open>auto simp: nth_update split: if_splits\<close>)
next
  case (resume i)
  note inv = inv_cpuD [OF assms(2)]
  note res = resuming [OF assms(2) resume(4,5,2)]
  obtain w where "procs (kern m') = (procs (kern m))[i := (procs (kern m) ! i)\<lparr>p_chan :=
      (case at m i of Asleep s r \<Rightarrow> None | _ \<Rightarrow> p_chan (procs (kern m) ! i)), p_waitticks := w\<rparr>]"
    using resume resume_kernel_result(1) [of i "at m i" "kern m"] by auto
  then have slots: "par m' j = par m j" "st m' j = st m j" "j \<noteq> i \<Longrightarrow> procs (kern m') ! j = procs (kern m) ! j"
    if "j < NPROC" for j
    using that inv(1) by (simp_all add: nth_update)
  have pc: "at m' = (at m)(i := resumed (at m i))" using resume(1) by simp
  note idle = idle_places [OF not_holding(2) [OF res(1)]] idle_places [OF resumed_not_holding [OF res]]
  show ?thesis
    by (rule wakeup_kept [OF assms(7)], (rule slots_kept; use slots resume(4) in fastforce)+;
      use slots pc idle in \<open>auto split: if_splits\<close>)
next
  case (yield i)
  have idle: "scanned (at m i) = 0" "woken (at m i) = 0" "waking_init (at m i) = None"
    using idle_places not_holding(1) yield(3) by blast+
  show ?thesis
    by (rule wakeup_kept [OF assms(7)],
      (rule slots_kept; use yield inv_cpuD(1) [OF assms(2)] in \<open>auto simp: nth_update split: if_splits\<close>)+;
      use yield idle inv_cpuD(1) [OF assms(2)] in \<open>auto simp: nth_update split: if_splits\<close>)
next
  case (reparent_child i s j)
  note inv = inv_cpuD [OF assms(2)] and wake = inv_wakeupD [OF assms(7)]
  have slots: "procs (kern m') ! l = (if j = l then (procs (kern m) ! j)\<lparr>p_parent := Some 0\<rparr> else procs (kern m) ! l)"
    if "l < NPROC" for l
    using that reparent_child(1) inv(1,3) by (simp add: nth_update)
  have pc: "at m' = (at m)(i := WakingInit s j 0)" using reparent_child(1) by simp
  have idle: "e \<noteq> i \<Longrightarrow> scanned (at m e) = 0 \<and> woken (at m e) = 0 \<and> waking_init (at m e) = None" for e
    using idle_places only_owner [OF assms(3), of i e] reparent_child(3) by simp
  have zero: "i \<noteq> 0" using not_init [OF assms(6), of i] reparent_child(3) by simp
  have self: "on_self m' p \<Longrightarrow> on_self m p" for p using slots by (auto simp: on_self_def split: if_splits)
  have child: "zombie_child m' p z \<Longrightarrow> p = 0 \<or> zombie_child m p z" for p z
    using slots by (auto simp: zombie_child_def split: if_splits)
  have "waking_init (at m' i) = Some 0" using pc by simp
  then show ?thesis
    unfolding inv_wakeup_def
    using self child wake(1) idle pc zero by (auto split: if_splits) (metis fun_upd_apply)+
next
  case (wake_init i s j l)
  note inv = inv_cpuD [OF assms(2)] and wake = inv_wakeupD [OF assms(7)]
  have slots: "procs (kern m') ! e = (if l = e then (procs (kern m) ! l)\<lparr>p_state := (if i \<noteq> l \<and> st m l = SLEEPING \<and>
      p_chan (procs (kern m) ! l) = Some (ChanProc 0) then RUNNABLE else st m l)\<rparr> else procs (kern m) ! e)"
    if "e < NPROC" for e
    using that wake_init(1) inv(1,3) by (simp add: nth_update wakeup_slot_result)
  have pc: "at m' = (at m)(i := WakingInit s j (l + 1))" using wake_init(1) by simp
  have zero: "i \<noteq> 0" using not_init [OF assms(6), of i] wake_init(3) by simp
  have self: "on_self m' p \<Longrightarrow> on_self m p" for p using slots by (auto simp: on_self_def split: if_splits)
  have child: "zombie_child m' p z \<Longrightarrow> zombie_child m p z" for p z
    using slots by (auto simp: zombie_child_def split: if_splits)
  have awake: "\<not> on_self m' 0"
  proof (cases "l = 0")
    case True
    then show ?thesis using slots [OF zero_slot] zero by (auto simp: on_self_def split: if_splits)
  next
    case False
    then show ?thesis using wake(3) [of i l] wake_init(3) self by auto
  qed
  have "\<not> on_self m' q" if "e < NPROC" "par m' e = Some q" "q < woken (at m' e)" for e q
    using that wake(4) [of e q] self pc slots by (auto split: if_splits)
  moreover have "scanned (at m' p) \<le> z" if "zombie_child m' p z" for p z
    using wake(2) child [OF that] pc by auto
  moreover have "\<not> (zombie_child m' p z \<and> on_self m' p)" for p z
    using wake(1) self child awake by metis
  ultimately show ?thesis unfolding inv_wakeup_def using awake by blast
next
  case (wake_parent i s l)
  note inv = inv_cpuD [OF assms(2)] and wake = inv_wakeupD [OF assms(7)]
  have slots: "procs (kern m') ! e = (if l = e then (procs (kern m) ! l)\<lparr>p_state := (if i \<noteq> l \<and> st m l = SLEEPING \<and>
      p_chan (procs (kern m) ! l) = map_option ChanProc (par m i) then RUNNABLE else st m l)\<rparr> else procs (kern m) ! e)"
    if "e < NPROC" for e
    using that wake_parent(1) inv(1) by (simp add: nth_update wakeup_slot_result)
  have pc: "at m' = (at m)(i := WakingParent s (l + 1))" using wake_parent(1) by simp
  have self: "on_self m' p \<Longrightarrow> on_self m p" for p using slots by (auto simp: on_self_def split: if_splits)
  have child: "zombie_child m' p z \<Longrightarrow> zombie_child m p z" for p z
    using slots by (auto simp: zombie_child_def split: if_splits)
  have par: "par m' e = par m e" if "e < NPROC" for e using slots [OF that] by simp
  have awake: "\<not> on_self m' l" if "par m i = Some l"
    using that slots [OF wake_parent(4)] wake_parent(2) by (auto simp: on_self_def runs_def split: if_splits)
  have "\<not> on_self m' q" if "e < NPROC" "par m' e = Some q" "q < woken (at m' e)" for e q
    using that wake(4) [of e q] self pc par [of e] awake wake_parent(3) by (auto simp: less_Suc_eq split: if_splits)
  moreover have "scanned (at m' p) \<le> z" if "zombie_child m' p z" for p z
    using wake(2) child [OF that] pc by auto
  moreover have same: "waking_init (at m' e) = waking_init (at m e)" for e using pc wake_parent(3) by simp
  moreover have "p = 0 \<and> (\<exists>e. waking_init (at m' e) = Some 0)" if "zombie_child m' p z" "on_self m' p" for p z
    unfolding same using wake(1) self child that by blast
  moreover have "\<not> on_self m' 0" if "waking_init (at m' e) = Some l" "0 < l" for e l
    using wake(3) self that unfolding same by blast
  ultimately show ?thesis unfolding inv_wakeup_def by blast
next
  case (die i s)
  note inv = inv_cpuD [OF assms(2)] and wake = inv_wakeupD [OF assms(7)]
  have slots: "procs (kern m') ! e = (if i = e then (procs (kern m) ! i)\<lparr>p_xstate := s, p_state := ZOMBIE\<rparr> else procs (kern m) ! e)"
    if "e < NPROC" for e
    using that die(1) inv(1) by (simp add: nth_update)
  have pc: "at m' = (at m)(i := Dead)" using die(1) by simp
  have idle: "e \<noteq> i \<Longrightarrow> scanned (at m e) = 0 \<and> woken (at m e) = 0 \<and> waking_init (at m e) = None" for e
    using idle_places only_owner [OF assms(3), of i e] die(3) by simp
  have places: "scanned (at m' e) = 0 \<and> woken (at m' e) = 0 \<and> waking_init (at m' e) = None" for e
    using idle [of e] pc by simp
  have self: "on_self m' p \<Longrightarrow> on_self m p" for p using slots by (auto simp: on_self_def split: if_splits)
  have "\<not> (zombie_child m' p z \<and> on_self m' p)" for p z
  proof (cases "z = i")
    case True
    have "\<not> on_self m p" if "par m i = Some p"
      using that wake(4) [of i p] die(2,3) by (cases "p < NPROC") (auto simp: runs_def on_self_def)
    then show ?thesis using True self slots die(2) by (auto simp: zombie_child_def runs_def)
  next
    case False
    then have "zombie_child m' p z \<Longrightarrow> zombie_child m p z" using slots by (auto simp: zombie_child_def split: if_splits)
    moreover have "waking_init (at m e) \<noteq> Some 0" for e using idle [of e] die(3) by (cases "e = i") auto
    ultimately show ?thesis using wake(1) self by metis
  qed
  then show ?thesis unfolding inv_wakeup_def using places by simp
next
  case (wait_sleep i a s)
  note inv = inv_cpuD [OF assms(2)] and wake = inv_wakeupD [OF assms(7)]
  have slots: "procs (kern m') ! e = (if i = e then (procs (kern m) ! i)\<lparr>p_chan := Some (ChanProc i), p_state := SLEEPING\<rparr>
      else procs (kern m) ! e)" if "e < NPROC" for e
    using that wait_sleep(1) inv(1) by (simp add: nth_update)
  have pc: "at m' = (at m)(i := Asleep s (Some a))" using wait_sleep(1) by simp
  have idle: "e \<noteq> i \<Longrightarrow> scanned (at m e) = 0 \<and> woken (at m e) = 0 \<and> waking_init (at m e) = None" for e
    using idle_places only_owner [OF assms(3), of i e] wait_sleep(3) by simp
  have places: "scanned (at m' e) = 0 \<and> woken (at m' e) = 0 \<and> waking_init (at m' e) = None" for e
    using idle [of e] pc by simp
  have child: "zombie_child m' p z \<Longrightarrow> zombie_child m p z" for p z
    using slots by (auto simp: zombie_child_def split: if_splits)
  have "\<not> (zombie_child m' p z \<and> on_self m' p)" for p z
  proof (cases "p = i")
    case True
    then show ?thesis using child [of p z] wake(2) [of i z] wait_sleep(3) by (auto simp: zombie_child_def)
  next
    case False
    then have "on_self m' p \<Longrightarrow> on_self m p" using slots by (auto simp: on_self_def split: if_splits)
    moreover have "waking_init (at m e) \<noteq> Some 0" for e using idle [of e] wait_sleep(3) by (cases "e = i") auto
    ultimately show ?thesis using wake(1) child by metis
  qed
  then show ?thesis unfolding inv_wakeup_def using places by simp
next
  case (sleep_on i ch s)
  note inv = inv_cpuD [OF assms(2)]
  have other: "ch \<noteq> ChanProc i" using sleep_on(4) by (auto simp: own_channel_def)
  have slots: "procs (kern m') ! e = (if i = e then (procs (kern m) ! i)\<lparr>p_chan := Some ch, p_state := SLEEPING\<rparr>
      else procs (kern m) ! e)" if "e < NPROC" for e
    using that sleep_on(1) inv(1) by (simp add: nth_update)
  have pc: "at m' = (at m)(i := Asleep s None)" using sleep_on(1) by simp
  have self: "on_self m' p \<Longrightarrow> on_self m p" for p using slots other by (auto simp: on_self_def split: if_splits)
  have child: "zombie_child m' p z \<Longrightarrow> zombie_child m p z" for p z
    using slots by (auto simp: zombie_child_def split: if_splits)
  show ?thesis
    by (rule wakeup_kept [OF assms(7) self child]; use slots pc sleep_on(3) in \<open>auto split: if_splits\<close>)
next
  case (scan_other i addr j h)
  show ?thesis
    by (rule wakeup_kept [OF assms(7)], (rule slots_kept; use scan_other in auto)+;
      use scan_other in \<open>auto simp: zombie_child_def Suc_le_eq order.order_iff_strict split: if_splits\<close>)
next
  case (scan_child i addr j h)
  show ?thesis
    by (rule wakeup_kept [OF assms(7)], (rule slots_kept; use scan_child in auto)+;
      use scan_child in \<open>auto simp: zombie_child_def Suc_le_eq order.order_iff_strict split: if_splits\<close>)
qed (rule wakeup_kept [OF assms(7)], (rule slots_kept; use inv_cpuD(1) [OF assms(2)]
  in \<open>auto simp: nth_update select_def wakeup_slot_result runs_def split: if_splits\<close>)+;
  use inv_cpuD(1) [OF assms(2)] in \<open>auto simp: nth_update select_def wakeup_slot_result runs_def split: if_splits\<close>)+

subsection \<open>The reachable states\<close>

definition machine_ok :: "machine \<Rightarrow> bool" where
  "machine_ok m \<longleftrightarrow> inv_cpu m \<and> inv_owner m \<and> inv_fork m \<and> inv_pid m \<and> inv_parent m \<and> inv_wakeup m"

lemma machine_ok_step: "step m m' \<Longrightarrow> machine_ok m \<Longrightarrow> machine_ok m'"
  using inv_cpu_step inv_owner_step inv_fork_step inv_pid_step inv_parent_step inv_wakeup_step
  unfolding machine_ok_def by blast

text \<open>Allocation from a table nobody has used yet finds the first slot.\<close>

lemma boot_slot:
  assumes "userinit (procinit script) = Some k"
  obtains p where "procs k = (replicate NPROC zero_proc)[0 := p]" and "p_state p = RUNNABLE" and "p_pid p = 1"
    and "p_parent p = None" and "p_chan p = None" and "cpus k = replicate NCPU None" and "nextpid k = 2"
    and "initproc k = Some 0"
proof -
  have first: "unused_slot [0..<NPROC] (procinit script) = Some 0"
    by (simp add: upt_conv_Cons zero_slot procinit_def zero_proc_def)
  have pid: "allocpid (procinit script) = (1, (procinit script)\<lparr>nextpid := 2\<rparr>)"
    by (simp add: allocpid_def procinit_def)
  define k1 where "k1 = upd 0 (init_slot 1) ((procinit script)\<lparr>nextpid := 2\<rparr>)"
  obtain b1 k2 where s1: "succeeds k1 = (b1, k2)" by fastforce
  define k3 where "k3 = upd 0 (p_trapframe_update (\<lambda>_. True)) k2"
  obtain b2 k4 where s2: "succeeds k3 = (b2, k4)" by fastforce
  have "allocproc (procinit script) =
      (if \<not> b1 then (None, freeproc 0 k2) else if \<not> b2 then (None, freeproc 0 k4)
       else (Some 0, upd 0 (p_pagetable_update (\<lambda>_. True)) k4))"
    using s1 s2 by (simp add: allocproc_def first alloc_at_def pid k1_def k3_def Let_def)
  then have k: "k = upd 0 (p_state_update (\<lambda>_. RUNNABLE))
      ((upd 0 (p_pagetable_update (\<lambda>_. True)) k4)\<lparr>initproc := Some 0\<rparr>)"
    using assms by (auto simp: userinit_def split: if_splits)
  note frames = succeeds_frame [OF s1] succeeds_frame [OF s2]
  show ?thesis
    by (rule that [of "(init_slot 1 zero_proc)\<lparr>p_trapframe := True, p_pagetable := True, p_state := RUNNABLE\<rparr>"])
      (use frames zero_slot in \<open>simp_all add: k k1_def k3_def procinit_def init_slot_def zero_proc_def\<close>)
qed

lemma machine_ok_boot:
  assumes "booted script = Some m"
  shows "machine_ok m"
proof -
  obtain k where k: "userinit (procinit script) = Some k"
    and m: "m = \<lparr>kern = k, at = (\<lambda>_. Absent)(0 := NewBorn), wait_owner = None, plock = \<lambda>_. False\<rparr>"
    using assms by (auto simp: booted_def)
  from boot_slot [OF k] obtain p where p: "procs k = (replicate NPROC zero_proc)[0 := p]" "p_state p = RUNNABLE" "p_pid p = 1"
    "p_parent p = None" "p_chan p = None" "cpus k = replicate NCPU None" "nextpid k = 2" "initproc k = Some 0" .
  have slots: "procs k ! i = (if i = 0 then p else zero_proc)" if "i < NPROC" for i
    using that p(1) by (simp add: nth_list_update)
  have off: "\<not> on_cpu m i" for i using p(6) by (simp add: on_cpu_def m)
  have zero: "p_state zero_proc = UNUSED" "pristine zero_proc" "p_parent zero_proc = None"
    by (simp_all add: zero_proc_def pristine_def)
  have "inv_cpu m"
    using p slots off zero zero_slot by (auto simp: inv_cpu_def m on_cpu_def nth_list_update)
  moreover have "inv_owner m" by (simp add: inv_owner_def m)
  moreover have "inv_fork m" using slots p(2) zero by (auto simp: inv_fork_def m split: if_splits)
  moreover have "inv_pid m" using slots p(2-7) zero by (auto simp: inv_pid_def m split: if_splits)
  moreover have "inv_parent m"
    using slots slots [OF zero_slot] p(2-5) zero by (auto simp: inv_parent_def has_parent_def alive_def m split: if_splits)
  moreover have "inv_wakeup m"
    using slots p(2-5) zero by (auto simp: inv_wakeup_def zombie_child_def on_self_def m split: if_splits)
  ultimately show ?thesis by (simp add: machine_ok_def)
qed

lemma reachable_ok: "reachable script m \<Longrightarrow> machine_ok m"
  by (induction rule: reachable.induct) (auto intro: machine_ok_boot machine_ok_step)

end
