(* ===== verification/Xv6_Demo.thy ===== *)
theory Xv6_Demo
  imports Xv6_Lifecycle_Wakeup
begin

text \<open>
  Concrete runs of the process machine.  \<open>execute\<close> is an executable part of its step relation: a process
  that is in the middle of a call takes the call's next step, and the other moves are named.
\<close>

subsection \<open>Moves\<close>

datatype move =
    Run nat nat            \<comment> \<open>a hart selects a slot\<close>
  | Resume nat
  | Switch nat
  | Move nat               \<comment> \<open>the next step of the call a process is in\<close>
  | CallFork nat nat
  | CallExit nat int
  | CallWait nat bool
  | Kill nat

definition guarded :: "bool \<Rightarrow> machine \<Rightarrow> machine option" where
  "guarded b m = (if b then Some m else None)"

fun next_step :: "nat \<Rightarrow> pc \<Rightarrow> machine \<Rightarrow> machine option" where
  "next_step i (Forking np) m = guarded (wait_owner m = None)
     (m\<lparr>kern := kfork_parent i np (kern m), at := (at m)(i := ForkStarting np)\<rparr>)"
| "next_step i (ForkStarting np) m = guarded (\<not> plock m np)
     (m\<lparr>kern := kfork_start np (kern m), at := (at m)(i := InUser)\<rparr>)"
| "next_step i (Reparenting s j) m =
     (if j < NPROC then
        if par m j = Some i
        then Some (m\<lparr>kern := upd j (p_parent_update (\<lambda>_. initproc (kern m))) (kern m), at := (at m)(i := WakingInit s j 0)\<rparr>)
        else Some (m\<lparr>at := (at m)(i := Reparenting s (j + 1))\<rparr>)
      else guarded (j = NPROC) (m\<lparr>at := (at m)(i := WakingParent s 0)\<rparr>))"
| "next_step i (WakingParent s l) m =
     (if l < NPROC then guarded (l = i \<or> \<not> plock m l)
        (m\<lparr>kern := wakeup_slot (Some i) (map_option ChanProc (par m i)) l (kern m),
           at := (at m)(i := WakingParent s (l + 1))\<rparr>)
      else guarded (l = NPROC) (m\<lparr>at := (at m)(i := Dying s)\<rparr>))"
| "next_step i (Dying s) m =
     Some (m\<lparr>kern := become_zombie i s (kern m), at := (at m)(i := Dead), wait_owner := None, plock := (plock m)(i := True)\<rparr>)"
| "next_step i (Scanning a j h) m =
     (if j < NPROC then
        if par m j \<noteq> Some i then Some (m\<lparr>at := (at m)(i := Scanning a (j + 1) h)\<rparr>)
        else if st m j \<noteq> ZOMBIE then guarded (\<not> plock m j) (m\<lparr>at := (at m)(i := Scanning a (j + 1) True)\<rparr>)
        else guarded (\<not> plock m j \<and> \<not> a)
          (m\<lparr>kern := freeproc j (kern m), at := (at m)(j := Absent, i := InUser), wait_owner := None\<rparr>)
      else guarded (j = NPROC \<and> h) (m\<lparr>at := (at m)(i := Checking a)\<rparr>))"
| "next_step i (Checking a) m =
     (if is_killed i (kern m) then Some (m\<lparr>at := (at m)(i := InUser), wait_owner := None\<rparr>)
      else Some (m\<lparr>at := (at m)(i := GoingToSleep a (ticks (kern m)))\<rparr>))"
| "next_step i (GoingToSleep a s) m =
     Some (m\<lparr>kern := sleep_enter i (ChanProc i) (kern m), at := (at m)(i := Asleep s (Some a)),
       wait_owner := None, plock := (plock m)(i := True)\<rparr>)"
| "next_step i _ m = None"

fun execute :: "move \<Rightarrow> machine \<Rightarrow> machine option" where
  "execute (Run c i) m =
     guarded (c < NCPU \<and> cpus (kern m) ! c = None \<and> i < NPROC \<and> \<not> plock m i \<and> st m i = RUNNABLE)
       (m\<lparr>kern := select c i (kern m), plock := (plock m)(i := True)\<rparr>)"
| "execute (Resume i) m =
     guarded (i < NPROC \<and> on_cpu m i \<and> st m i = RUNNING \<and> plock m i)
       (m\<lparr>kern := resume_kernel i (at m i) (kern m), at := (at m)(i := resumed (at m i)), plock := (plock m)(i := False)\<rparr>)"
| "execute (Switch c) m =
     (if c < NCPU then
        case cpus (kern m) ! c of
          Some i \<Rightarrow> guarded (plock m i \<and> st m i \<noteq> RUNNING)
            (m\<lparr>kern := (kern m)\<lparr>cpus := (cpus (kern m))[c := None]\<rparr>, plock := (plock m)(i := False)\<rparr>)
        | None \<Rightarrow> None
      else None)"
| "execute (Move i) m = (if runs m i then next_step i (at m i) m else None)"
| "execute (CallFork i np) m =
     (if runs m i \<and> at m i = InUser \<and> np < NPROC \<and> st m np = UNUSED \<and> \<not> plock m np then
        case kfork_copy i (alloc_at np (kern m)) of
          (Some c, k) \<Rightarrow> Some (m\<lparr>kern := k, at := (at m)(i := Forking np, np := NewBorn)\<rparr>)
        | (None, k) \<Rightarrow> None
      else None)"
| "execute (CallExit i s) m =
     guarded (runs m i \<and> at m i = InUser \<and> initproc (kern m) \<noteq> Some i \<and> wait_owner m = None)
       (m\<lparr>at := (at m)(i := Reparenting s 0), wait_owner := Some i\<rparr>)"
| "execute (CallWait i a) m =
     guarded (runs m i \<and> at m i = InUser \<and> wait_owner m = None)
       (m\<lparr>at := (at m)(i := Scanning a 0 False), wait_owner := Some i\<rparr>)"
| "execute (Kill j) m = guarded (j < NPROC \<and> \<not> plock m j) (m\<lparr>kern := upd j kill_proc (kern m)\<rparr>)"

lemma next_step_sound:
  assumes "next_step i (at m i) m = Some m'" and "runs m i"
  shows "step m m'"
proof (cases "at m i")
  case (Forking np)
  then show ?thesis using assms by (auto simp: guarded_def split: if_splits intro: fork_parent)
next
  case (ForkStarting np)
  then show ?thesis using assms by (auto simp: guarded_def split: if_splits intro: fork_start)
next
  case (Reparenting s j)
  then show ?thesis
    using assms reparent_child [of m i s j] reparent_other [of m i s j] reparent_done [of m i s]
    by (auto simp: guarded_def split: if_splits)
next
  case (WakingParent s l)
  then show ?thesis
    using assms wake_parent [of m i s l] wake_parent_done [of m i s] by (auto simp: guarded_def split: if_splits)
next
  case (Dying s)
  then show ?thesis using assms by (auto intro: die)
next
  case (Scanning a j h)
  then show ?thesis
    using assms scan_other [of m i a j h] scan_child [of m i a j h] scan_some [of m i a]
      scan_reap [of m i False j h "kern m"]
    by (auto simp: guarded_def split: if_splits)
next
  case (Checking a)
  then show ?thesis using assms check_killed [of m i a] check_alive [of m i a] by (auto split: if_splits)
next
  case (GoingToSleep a s)
  then show ?thesis using assms by (auto intro: wait_sleep)
qed (use assms in simp_all)

lemma execute_sound: "execute mv m = Some m' \<Longrightarrow> step m m'"
proof (cases mv)
  case (Switch c)
  assume "execute mv m = Some m'"
  then show ?thesis using Switch by (auto simp: guarded_def split: if_splits option.splits intro: switch)
next
  case (CallFork i np)
  assume "execute mv m = Some m'"
  then show ?thesis using CallFork by (auto split: if_splits option.splits prod.splits intro: fork)
qed (auto simp: guarded_def split: if_splits intro: run resume exit wait kill next_step_sound)

fun execute_all :: "move list \<Rightarrow> machine \<Rightarrow> machine option" where
  "execute_all [] m = Some m"
| "execute_all (mv # mvs) m = (case execute mv m of None \<Rightarrow> None | Some m \<Rightarrow> execute_all mvs m)"

lemma execute_all_sound: "reachable script m \<Longrightarrow> execute_all mvs m = Some m' \<Longrightarrow> reachable script m'"
proof (induction mvs arbitrary: m)
  case (Cons mv mvs)
  then obtain m1 where "execute mv m = Some m1" "execute_all mvs m1 = Some m'" by (auto split: option.splits)
  then show ?case using Cons.IH Cons.prems(1) later execute_sound by blast
qed simp

definition demo :: "move list \<Rightarrow> machine option" where
  "demo mvs = (case booted [] of None \<Rightarrow> None | Some m \<Rightarrow> execute_all mvs m)"

lemma demo_reachable: "demo mvs = Some m \<Longrightarrow> reachable [] m"
  by (auto simp: demo_def split: option.splits intro: boot execute_all_sound)

subsection \<open>Three runs\<close>

text \<open>Init starts and forks a child, in slot 1, which starts on another hart.\<close>

definition init_forks :: "move list" where
  "init_forks = [Run 0 0, Resume 0, CallFork 0 1, Move 0, Move 0, Run 1 1, Resume 1]"

text \<open>Then init waits for it; it is killed between finding out that it was not and going to sleep.\<close>

definition killed_before_sleep :: "move list" where
  "killed_before_sleep = init_forks @ [CallWait 0 False] @ replicate 66 (Move 0) @ [Kill 0, Move 0, Switch 0]"

text \<open>
  Or the child forks in turn, its child exits, init waits, and the child begins to exit: it gives its
  zombie to init.
\<close>

definition orphaned_zombie :: "move list" where
  "orphaned_zombie = init_forks @ [CallFork 1 2, Move 1, Move 1, Run 2 2, Resume 2, CallExit 2 7] @
     replicate 131 (Move 2) @ [Switch 2, CallWait 0 False] @ replicate 67 (Move 0) @ [Switch 0, CallExit 1 0] @
     replicate 3 (Move 1)"

lemma killed_before_sleep_state:
  "(case demo killed_before_sleep of None \<Rightarrow> False | Some m \<Rightarrow>
     st m 0 = SLEEPING \<and> p_chan (procs (kern m) ! 0) = Some (ChanProc 0) \<and> is_killed 0 (kern m) \<and> \<not> plock m 0 \<and>
     st m 1 = RUNNING \<and> \<not> on_cpu m 0 \<and> at m 1 = InUser)"
  by code_simp

lemma orphaned_zombie_state:
  "(case demo orphaned_zombie of None \<Rightarrow> False | Some m \<Rightarrow>
     st m 0 = SLEEPING \<and> p_chan (procs (kern m) ! 0) = Some (ChanProc 0) \<and> st m 2 = ZOMBIE \<and> par m 2 = Some 0 \<and>
     at m 1 = WakingInit 0 2 0)"
  by code_simp

text \<open>Or the child exits, and init comes to its slot while it waits.\<close>

definition exited_child :: "move list" where
  "exited_child = init_forks @ [CallExit 1 7] @ replicate 131 (Move 1) @ [Switch 1, CallWait 0 False, Move 0]"

lemma exited_child_state:
  "(case demo exited_child of None \<Rightarrow> False | Some m \<Rightarrow>
     st m 1 = ZOMBIE \<and> par m 1 = Some 0 \<and> p_pid (procs (kern m) ! 0) = 1 \<and> p_pid (procs (kern m) ! 1) = 2 \<and>
     (case execute (Move 0) m of None \<Rightarrow> False | Some m' \<Rightarrow> st m' 1 = UNUSED \<and> at m' 0 = InUser))"
  by code_simp

end
