(* ===== verification/Xv6_Turns.thy ===== *)
theory Xv6_Turns
  imports Xv6_Sched
begin

text \<open>
  Whole turns of a hart that is left alone: a round-robin turn in which every process runs until its timer
  interrupt, and the number of generator states from which a lottery turn selects a given process.
\<close>

subsection \<open>Round robin\<close>

text \<open>What the process on hart \<open>c\<close>, if there is one, does: it is interrupted by the timer and yields.\<close>

definition timer :: "nat \<Rightarrow> kernel \<Rightarrow> kernel" where
  "timer c k = (case cpus k ! c of None \<Rightarrow> k | Some i \<Rightarrow> yield_enter i k)"

definition credited :: "proc \<Rightarrow> proc" where
  "credited p = (if p_state p = RUNNABLE then p\<lparr>p_sched_selections := p_sched_selections p + 1\<rparr> else p)"

lemma credited_state [simp]: "p_state (credited p) = p_state p"
  by (simp add: credited_def)

lemma same_state: "p_state p = s \<Longrightarrow> p\<lparr>p_sched_selections := n, p_state := s\<rparr> = p\<lparr>p_sched_selections := n\<rparr>"
  by (cases p) simp

lemma run_selected_timer:
  assumes "p_state (procs k ! i) = RUNNABLE" and "i < length (procs k)" and "c < length (cpus k)" and "cpus k ! c = None"
  shows "run_selected c i (k, replicate (Suc n) (timer c)) = (upd i credited k, replicate n (timer c))"
proof -
  have "timer c (select c i k) = (upd i credited k)\<lparr>cpus := (cpus k)[c := Some i]\<rparr>"
    using assms by (intro kernel.equality) (simp_all add: timer_def select_def yield_enter_def upd_def credited_def same_state)
  moreover have "(cpus k)[c := Some i, c := None] = cpus k"
    using assms(4) by (metis list_update_id list_update_overwrite)
  ultimately show ?thesis by (simp add: run_selected_def upd_def)
qed

lemma roundrobin_scan_timer:
  assumes "distinct js" and "set js \<subseteq> {..<length (procs k)}" and "c < length (cpus k)" and "cpus k ! c = None"
    and "2 * length js \<le> n"
  shows "\<exists>m. roundrobin_scan c js found (k, replicate n (timer c)) =
    (found \<or> (\<exists>i\<in>set js. p_state (procs k ! i) = RUNNABLE), fold (\<lambda>i. upd i credited) js k, replicate m (timer c))"
  using assms
proof (induction js arbitrary: k n found)
  case (Cons i js)
  obtain n' where n: "n = Suc (Suc n')" using Cons.prems(5) by (cases n; cases "n - 1") auto
  have idle: "others (k, replicate n (timer c)) = (k, replicate (Suc n') (timer c))"
    using Cons.prems(4) by (simp add: n timer_def)
  let ?k = "upd i credited k"
  have "p_state (procs ?k ! j) = p_state (procs k ! j)" for j
    by (cases "i = j"; cases "i < length (procs k)") (simp_all add: list_update_beyond not_less)
  then have rest: "(\<exists>j\<in>set js. p_state (procs ?k ! j) = RUNNABLE) = (\<exists>j\<in>set js. p_state (procs k ! j) = RUNNABLE)"
    by simp
  show ?case
  proof (cases "p_state (procs k ! i) = RUNNABLE")
    case True
    have "run_selected c i (k, replicate (Suc n') (timer c)) = (?k, replicate n' (timer c))"
      using run_selected_timer [of k i c n'] True Cons.prems by simp
    then have "roundrobin_scan c (i # js) found (k, replicate n (timer c)) =
        roundrobin_scan c js True (?k, replicate n' (timer c))"
      using True idle by (simp del: replicate_Suc)
    then show ?thesis
      using Cons.IH [of ?k n' True] Cons.prems True n rest by simp
  next
    case False
    then have "?k = k" by (simp add: upd_def credited_def)
    with False show ?thesis
      using Cons.IH [of k "Suc n'" found] Cons.prems idle n by (simp del: replicate_Suc)
  qed
qed auto

lemma fold_credited:
  "distinct js \<Longrightarrow> set js \<subseteq> {..<length (procs k)} \<Longrightarrow> i < length (procs k) \<Longrightarrow>
    procs (fold (\<lambda>i. upd i credited) js k) ! i = (if i \<in> set js then credited (procs k ! i) else procs k ! i)"
proof (induction js arbitrary: k)
  case (Cons j js)
  then show ?case using Cons.IH [of "upd j credited k"] by (auto simp: nth_list_update)
qed simp

lemma fold_upd_frame: "\<exists>ps. fold (\<lambda>i. upd i f) js k = k\<lparr>procs := ps\<rparr> \<and> length ps = length (procs k)"
proof (induction js arbitrary: k)
  case Nil
  show ?case by (rule exI [of _ "procs k"]) simp
next
  case (Cons j js)
  obtain ps where "fold (\<lambda>i. upd i f) js (upd j f k) = (upd j f k)\<lparr>procs := ps\<rparr>" and "length ps = length (procs (upd j f k))"
    using Cons.IH by blast
  then show ?case by (intro exI [of _ ps]) (simp add: upd_def [of j])
qed

lemma fold_credited_all:
  assumes "length (procs k) = NPROC"
  shows "fold (\<lambda>i. upd i credited) [0..<NPROC] k = k\<lparr>procs := map credited (procs k)\<rparr>"
proof -
  obtain ps where ps: "fold (\<lambda>i. upd i credited) [0..<NPROC] k = k\<lparr>procs := ps\<rparr>" "length ps = length (procs k)"
    using fold_upd_frame by blast
  have "ps = map credited (procs k)"
  proof (rule nth_equalityI)
    fix i
    assume "i < length ps"
    then show "ps ! i = map credited (procs k) ! i"
      using fold_credited [of "[0..<NPROC]" k i] ps assms by (auto simp: lessThan_atLeast0)
  qed (simp add: ps(2))
  with ps(1) show ?thesis by simp
qed

subsection \<open>The lottery\<close>

definition lottery_picks :: "nat \<Rightarrow> kernel \<Rightarrow> nat \<Rightarrow> u32 \<Rightarrow> bool" where
  "lottery_picks c k i x \<longleftrightarrow>
     schedule_lottery c (k\<lparr>rng_state := x\<rparr>, []) = (True, run_selected c i (k\<lparr>rng_state := lottery_step x\<rparr>, []))"

lemma lottery_picks_holder:
  assumes "tickets_ok k" and "tickets_in_play k > 0" and "i < NPROC" and "p_state (procs k ! i) = RUNNABLE"
  shows "lottery_picks c k i x \<longleftrightarrow> holder (share k) [0..<NPROC] (unat (lottery_step x) mod tickets_in_play k) = Some i"
proof -
  let ?k = "k\<lparr>rng_state := x\<rparr>" and ?k' = "k\<lparr>rng_state := lottery_step x\<rparr>"
  have share: "share ?k = share k" by (simp add: share_def fun_eq_iff)
  then have play: "tickets_in_play ?k = tickets_in_play k" by (simp add: tickets_in_play_def)
  have ok: "tickets_ok ?k" using assms(1) by (simp add: tickets_ok_def)
  obtain j where j: "j < NPROC" "holder (share k) [0..<NPROC] (unat (lottery_step x) mod tickets_in_play k) = Some j"
    "draw_and_run c (of_nat (tickets_in_play k)) (?k, []) = (True, run_selected c j (?k', []))"
    using draw_and_run_alone [OF ok, of c] assms(2) by (auto simp: play share)
  have "unat (of_nat (tickets_in_play k) :: u64) = tickets_in_play k"
    using tickets_in_play_bound [OF assms(1)] by (intro of_nat_inverse) simp_all
  then have "(of_nat (tickets_in_play k) :: u64) \<noteq> 0" using assms(2) by (metis unat_0 less_irrefl)
  then have "schedule_lottery c (?k, []) = (True, run_selected c j (?k', []))"
    using runnable_ticket_total_alone [OF ok] j(3)
    by (simp add: schedule_lottery_def SCHED_LOTTERY_MAX_ATTEMPTS_def numeral_eq_Suc play)
  moreover have "run_selected c j (?k', []) = run_selected c i (?k', []) \<longleftrightarrow> i = j"
    using run_selected_inj [of c i ?k' j] assms by (auto simp: tickets_ok_def)
  ultimately show ?thesis using j(2) by (auto simp: lottery_picks_def)
qed

lemma lottery_picks_count:
  assumes "tickets_ok k" and "tickets_in_play k > 0" and "i < NPROC" and "p_state (procs k ! i) = RUNNABLE"
  shows "(2 ^ 32 div tickets_in_play k) * share k i \<le> card {x. lottery_picks c k i x}"
    and "card {x. lottery_picks c k i x} \<le> (2 ^ 32 div tickets_in_play k + 1) * share k i"
proof -
  let ?t = "tickets_in_play k" and ?h = "\<lambda>w. holder (share k) [0..<NPROC] w = Some i"
  let ?A = "{w. w < ?t \<and> ?h w}"
  have "card {x. lottery_picks c k i x} = card {x. ?h (unat (lottery_step x) mod ?t)}"
    by (simp add: lottery_picks_holder [OF assms])
  also have "\<dots> = card {x::u32. ?h (unat x mod ?t)}"
    using card_lottery_step [of "\<lambda>x. ?h (unat x mod ?t)"] by simp
  also have "\<dots> = card {n. n < 2 ^ 32 \<and> ?h (n mod ?t)}"
    using card_unat [where 'a = 32, of "\<lambda>n. ?h (n mod ?t)"] by simp
  also have "{n. n < 2 ^ 32 \<and> ?h (n mod ?t)} = {n. n < 2 ^ 32 \<and> n mod ?t \<in> ?A}"
    using assms(2) by auto
  finally have "card {x. lottery_picks c k i x} = card {n. n < 2 ^ 32 \<and> n mod ?t \<in> ?A}" .
  moreover have "card ?A = share k i"
    using holder_count [of "[0..<NPROC]" "share k" i] assms(3) by (simp add: tickets_in_play_def)
  moreover have "?A \<subseteq> {..<?t}" by auto
  ultimately show "(2 ^ 32 div ?t) * share k i \<le> card {x. lottery_picks c k i x}"
    and "card {x. lottery_picks c k i x} \<le> (2 ^ 32 div ?t + 1) * share k i"
    using card_residues_upto [OF _ assms(2), of ?A "2 ^ 32"] by simp_all
qed

end
