(* ===== verification/Xv6_Divergences.thy ===== *)
theory Xv6_Divergences
  imports Xv6_Sched
begin

text \<open>
  A race of the lottery with a process that goes to sleep and wakes up on other harts.  The process in slot 2
  holds nearly all tickets; it is runnable each time the total is taken and asleep each time the draw walks
  over it, so that all attempts miss and the fallback takes the first runnable slot, one without tickets,
  while the process in slot 1 holds a ticket and is runnable all the time.
\<close>

definition race_table :: kernel where
  "race_table = (procinit [])\<lparr>procs := (replicate NPROC zero_proc)
     [0 := zero_proc\<lparr>p_state := RUNNABLE, p_pid := 1\<rparr>,
      1 := zero_proc\<lparr>p_state := RUNNABLE, p_pid := 2, p_tickets := 1\<rparr>,
      2 := zero_proc\<lparr>p_state := RUNNABLE, p_pid := 3, p_tickets := 100000\<rparr>]\<rparr>"

definition toggling :: interference where
  "toggling = concat (replicate 4
     (upd 2 (p_state_update (\<lambda>_. RUNNABLE)) # replicate 63 id @
      upd 2 (p_state_update (\<lambda>_. SLEEPING)) # replicate 64 id))"

lemma toggling_leaves_ready: "leave_ready 1 toggling"
  by (auto simp: leave_ready_def toggling_def ready_def)

lemma fallback_taken:
  "(case schedule_lottery 0 (race_table, toggling) of (found, k, es) \<Rightarrow>
     (found, p_sched_selections (procs k ! 0), p_state (procs k ! 1), p_sched_selections (procs k ! 1))) =
   (True, 1, RUNNABLE, 0)"
  by code_simp

lemma race_table_slots:
  "tickets_ok race_table" "p_tickets (procs race_table ! 0) = 0" "p_tickets (procs race_table ! 1) = 1" "ready 1 race_table"
  by (auto simp: tickets_ok_def race_table_def zero_proc_def SCHED_MAX_TICKETS_def NPROC_def ready_def
      dest!: set_update_subset_insert [THEN subsetD])

end
