(* ===== verification/Xv6_Accounting.thy ===== *)
theory Xv6_Accounting
  imports Xv6_Sched
begin

text \<open>
  The accounting of xv6-plus: the dispatch of system calls with its counter and its trace
  (kernel/syscall.c), the system calls about a process and its telemetry (kernel/sysproc.c), the clock
  interrupt's share of it (kernel/trap.c), the snapshot of a slot (kernel/proc.c, \<open>procstat\<close>; kernel/pstat.h).
  A system call that is not modelled is a parameter of the dispatch; one that does not return, such as
  exit, has no result.
\<close>

subsection \<open>Snapshots\<close>

record xv_pstat =
  ps_pid :: int
  ps_state :: int
  ps_sz :: u64
  ps_runticks :: u64
  ps_waitticks :: u64
  ps_syscalls :: u64
  ps_name :: string
  ps_tickets :: u64
  ps_selections :: u64
  ps_pagefaults :: u64
  ps_pagefaults_failed :: u64

fun state_code :: "procstate \<Rightarrow> int" where
  "state_code UNUSED = 0"
| "state_code USED = 1"
| "state_code SLEEPING = 2"
| "state_code RUNNABLE = 3"
| "state_code RUNNING = 4"
| "state_code ZOMBIE = 5"

definition snapshot :: "proc \<Rightarrow> xv_pstat" where
  "snapshot p = \<lparr>ps_pid = p_pid p, ps_state = state_code (p_state p), ps_sz = p_sz p,
     ps_runticks = p_runticks p, ps_waitticks = p_waitticks p, ps_syscalls = p_syscall_count p,
     ps_name = copied_name 16 (p_name p), ps_tickets = of_int (p_tickets p),
     ps_selections = p_sched_selections p, ps_pagefaults = p_pagefaults p,
     ps_pagefaults_failed = p_pagefaults_failed p\<rparr>"

definition procstat :: "int \<Rightarrow> kernel \<Rightarrow> xv_pstat option" where
  "procstat idx k = (if idx < 0 \<or> idx \<ge> int NPROC then None else Some (snapshot (procs k ! nat idx)))"

subsection \<open>System calls\<close>

text \<open>An argument register read as an \<open>int\<close>.\<close>

definition as_int :: "u64 \<Rightarrow> int" where
  "as_int r = sint (ucast r :: u32)"

definition argint :: "nat \<Rightarrow> kernel \<Rightarrow> int" where
  "argint me k = as_int (p_a0 (procs k ! me))"

definition sys_getpid :: "nat \<Rightarrow> kernel \<Rightarrow> u64 \<times> kernel" where
  "sys_getpid me k = (of_int (p_pid (procs k ! me)), k)"

definition sys_fork :: "nat \<Rightarrow> kernel \<Rightarrow> u64 \<times> kernel" where
  "sys_fork me k = (case kfork me k of (r, k) \<Rightarrow> (of_int r, k))"

definition sys_kill :: "nat \<Rightarrow> kernel \<Rightarrow> u64 \<times> kernel" where
  "sys_kill me k = (case kkill (argint me k) k of (r, k) \<Rightarrow> (of_int r, k))"

definition sys_uptime :: "nat \<Rightarrow> kernel \<Rightarrow> u64 \<times> kernel" where
  "sys_uptime me k = (ucast (ticks k), k)"

definition sys_trace :: "nat \<Rightarrow> kernel \<Rightarrow> u64 \<times> kernel" where
  "sys_trace me k = (0, upd me (p_trace_mask_update (\<lambda>_. ucast (p_a0 (procs k ! me)))) k)"

definition sys_settickets :: "nat \<Rightarrow> kernel \<Rightarrow> u64 \<times> kernel" where
  "sys_settickets me k = (case sched_settickets me (argint me k) k of (r, k) \<Rightarrow> (of_int r, k))"

definition sys_schedpolicy :: "nat \<Rightarrow> kernel \<Rightarrow> u64 \<times> kernel" where
  "sys_schedpolicy me k = (case sched_setpolicy (argint me k) k of (r, k) \<Rightarrow> (of_int r, k))"

text \<open>What \<open>xvstat\<close> returns and writes to the caller's memory; the write may fail.\<close>

definition xvstat :: "nat \<Rightarrow> kernel \<Rightarrow> u64 \<times> xv_pstat option \<times> kernel" where
  "xvstat me k =
     (case procstat (argint me k) k of
        None \<Rightarrow> (-1, None, k)
      | Some row \<Rightarrow> (case succeeds k of (written, k) \<Rightarrow> if written then (0, Some row, k) else (-1, None, k)))"

definition sys_xvstat :: "nat \<Rightarrow> kernel \<Rightarrow> u64 \<times> kernel" where
  "sys_xvstat me k = (case xvstat me k of (r, row, k) \<Rightarrow> (r, k))"

type_synonym handler = "nat \<Rightarrow> kernel \<Rightarrow> u64 option \<times> kernel"

definition returning :: "(nat \<Rightarrow> kernel \<Rightarrow> u64 \<times> kernel) \<Rightarrow> handler" where
  "returning f me k = (case f me k of (r, k) \<Rightarrow> (Some r, k))"

definition syscall_names :: "string list" where
  "syscall_names = [[], ''fork'', ''exit'', ''wait'', ''pipe'', ''read'', ''kill'', ''exec'', ''fstat'', ''chdir'',
     ''dup'', ''getpid'', ''sbrk'', ''pause'', ''uptime'', ''open'', ''write'', ''mknod'', ''unlink'', ''link'',
     ''mkdir'', ''close'', ''trace'', ''xvstat'', ''settickets'', ''schedpolicy'']"

definition syscalls :: "(int \<Rightarrow> handler) \<Rightarrow> int \<Rightarrow> handler" where
  "syscalls unmodelled num =
     (if num = 1 then returning sys_fork
      else if num = 6 then returning sys_kill
      else if num = 11 then returning sys_getpid
      else if num = 14 then returning sys_uptime
      else if num = 22 then returning sys_trace
      else if num = 23 then returning sys_xvstat
      else if num = 24 then returning sys_settickets
      else if num = 25 then returning sys_schedpolicy
      else unmodelled num)"

definition printed :: "console_line \<Rightarrow> kernel \<Rightarrow> kernel" where
  "printed l k = k\<lparr>console := console k @ [l]\<rparr>"

text \<open>\<open>None\<close> as the first component: the call did not return to here.\<close>

definition syscall :: "(int \<Rightarrow> handler) \<Rightarrow> nat \<Rightarrow> kernel \<Rightarrow> unit option \<times> kernel" where
  "syscall unmodelled me k =
     (let num = as_int (p_a7 (procs k ! me)) in
      if num > 0 \<and> num < int (length syscall_names) then
        let k = upd me (\<lambda>p. p\<lparr>p_syscall_count := p_syscall_count p + 1\<rparr>) k in
        (case syscalls unmodelled num me k of
           (None, k) \<Rightarrow> (None, k)
         | (Some r, k) \<Rightarrow>
             let k = upd me (p_a0_update (\<lambda>_. r)) k;
                 p = procs k ! me
             in (Some (),
                 if bit (p_trace_mask p) (nat num)
                 then printed (TraceLine (p_pid p) (syscall_names ! nat num) (as_int (p_a0 p))) k else k))
      else
        (Some (), upd me (p_a0_update (\<lambda>_. -1))
           (printed (UnknownSyscall (p_pid (procs k ! me)) (p_name (procs k ! me)) num) k)))"

subsection \<open>The clock\<close>

definition clockintr :: "nat \<Rightarrow> kernel \<Rightarrow> kernel" where
  "clockintr hart k =
     (let k = (if hart = 0 then wakeup (cpus k ! hart) (Some ChanTicks) (k\<lparr>ticks := ticks k + 1\<rparr>) else k) in
      case cpus k ! hart of
        None \<Rightarrow> k
      | Some i \<Rightarrow> upd i (\<lambda>p. p\<lparr>p_runticks := p_runticks p + 1\<rparr>) k)"

subsection \<open>What calls do to a caller's counter\<close>

text \<open>A handler that leaves the caller's counter and the console alone; the caller is running.\<close>

definition quiet :: "handler \<Rightarrow> nat \<Rightarrow> bool" where
  "quiet h me \<longleftrightarrow> (\<forall>k r k'. length (procs k) = NPROC \<and> p_state (procs k ! me) = RUNNING \<and> h me k = (r, k') \<longrightarrow>
     length (procs k') = NPROC \<and> p_syscall_count (procs k' ! me) = p_syscall_count (procs k ! me) \<and>
     console k' = console k)"

lemma succeeds_console: "succeeds k = (b, k') \<Longrightarrow> console k' = console k"
  by (auto simp: succeeds_def split: list.splits)

text \<open>Only the slot given is written, and nothing is printed.\<close>

definition writes_only :: "nat \<Rightarrow> kernel \<Rightarrow> kernel \<Rightarrow> bool" where
  "writes_only i k k' \<longleftrightarrow> length (procs k') = length (procs k) \<and> (\<forall>j. j \<noteq> i \<longrightarrow> procs k' ! j = procs k ! j) \<and>
     console k' = console k"

lemma writes_only_trans: "writes_only i k k' \<Longrightarrow> writes_only i k' k'' \<Longrightarrow> writes_only i k k''"
  by (simp add: writes_only_def)

lemma writes_only_upd: "writes_only i k (upd i f k)"
  by (simp add: writes_only_def)

lemma writes_only_succeeds: "succeeds k = (b, k') \<Longrightarrow> writes_only i k k'"
  using succeeds_frame succeeds_console by (simp add: writes_only_def)

lemma writes_only_free: "writes_only i k (freeproc i k)"
  unfolding freeproc_def by (rule writes_only_upd)

lemma writes_only_alloc:
  assumes "alloc_at i k = (r, k')"
  shows "writes_only i k k'" and "r = None \<or> r = Some i"
proof -
  define k1 where "k1 = upd i (init_slot (nextpid k)) (k\<lparr>nextpid := nextpid k + 1\<rparr>)"
  obtain b1 k2 where s1: "succeeds k1 = (b1, k2)" by fastforce
  define k3 where "k3 = upd i (p_trapframe_update (\<lambda>_. True)) k2"
  obtain b2 k4 where s2: "succeeds k3 = (b2, k4)" by fastforce
  have "(r, k') = (if \<not> b1 then (None, freeproc i k2) else if \<not> b2 then (None, freeproc i k4)
      else (Some i, upd i (p_pagetable_update (\<lambda>_. True)) k4))"
    using assms s1 s2 by (auto simp: alloc_at_def allocpid_def k1_def k3_def Let_def split: if_splits)
  moreover have "writes_only i k k2"
    using writes_only_succeeds [OF s1] writes_only_upd by (auto simp: k1_def writes_only_def)
  moreover from this have "writes_only i k k4"
    using writes_only_succeeds [OF s2] writes_only_upd by (auto simp: k3_def writes_only_def)
  ultimately show "writes_only i k k'" and "r = None \<or> r = Some i"
    using writes_only_free writes_only_upd writes_only_trans by (auto split: if_splits)
qed

lemma unused_slot_is: "unused_slot js k = Some i \<Longrightarrow> i \<in> set js \<and> p_state (procs k ! i) = UNUSED"
  by (induction js) (auto split: if_splits)

lemma kfork_writes:
  assumes "kfork me k = (r, k')"
  shows "k' = k \<or> (\<exists>np<NPROC. p_state (procs k ! np) = UNUSED \<and> writes_only np k k')"
proof (cases "unused_slot [0..<NPROC] k")
  case None
  then show ?thesis using assms by (simp add: kfork_def kfork_create_def kfork_copy_def allocproc_def)
next
  case (Some np)
  obtain a k1 where a: "alloc_at np k = (a, k1)" by fastforce
  obtain b k2 where b: "succeeds k1 = (b, k2)" by fastforce
  note w = writes_only_alloc [OF a]
  have w2: "writes_only np k k2" using writes_only_trans [OF w(1) writes_only_succeeds [OF b]] .
  have "writes_only np k k'"
    using assms w w2 b a Some writes_only_trans [OF w2 writes_only_free]
    by (auto simp: kfork_def kfork_create_def kfork_copy_def allocproc_def Let_def kfork_start_def kfork_parent_def
        writes_only_def split: option.splits if_splits)
  with unused_slot_is [OF Some] show ?thesis by auto
qed

lemma kkill_scan_counts:
  "kkill_scan js pid k = (r, k') \<Longrightarrow>
    length (procs k') = length (procs k) \<and> console k' = console k \<and>
    (\<forall>j<length (procs k). p_syscall_count (procs k' ! j) = p_syscall_count (procs k ! j))"
  by (induction js) (auto simp: nth_update kill_proc_def Let_def split: if_splits)

lemma quiet_modelled:
  assumes "me < NPROC"
  shows "quiet (returning sys_fork) me" "quiet (returning sys_kill) me" "quiet (returning sys_getpid) me"
    "quiet (returning sys_uptime) me" "quiet (returning sys_trace) me" "quiet (returning sys_xvstat) me"
    "quiet (returning sys_settickets) me" "quiet (returning sys_schedpolicy) me"
proof -
  show "quiet (returning sys_fork) me"
    unfolding quiet_def
  proof (intro allI impI, elim conjE)
    fix k r k'
    assume k: "length (procs k) = NPROC" "p_state (procs k ! me) = RUNNING" "returning sys_fork me k = (r, k')"
    then obtain q where "kfork me k = (q, k')" by (auto simp: returning_def sys_fork_def split: prod.splits)
    from kfork_writes [OF this] show "length (procs k') = NPROC \<and>
        p_syscall_count (procs k' ! me) = p_syscall_count (procs k ! me) \<and> console k' = console k"
    proof (elim disjE exE conjE)
      fix np
      assume np: "p_state (procs k ! np) = UNUSED" "writes_only np k k'"
      with k have "np \<noteq> me" by auto
      with np k show ?thesis by (simp add: writes_only_def)
    qed (use k in simp)
  qed
  show "quiet (returning sys_kill) me"
    using assms kkill_scan_counts
    by (fastforce simp: quiet_def returning_def sys_kill_def kkill_def split: prod.splits)
  show "quiet (returning sys_xvstat) me"
    using succeeds_frame succeeds_console
    by (auto simp: quiet_def returning_def sys_xvstat_def xvstat_def split: prod.splits option.splits if_splits)
  show "quiet (returning sys_getpid) me" "quiet (returning sys_uptime) me" "quiet (returning sys_trace) me"
    "quiet (returning sys_settickets) me" "quiet (returning sys_schedpolicy) me"
    using assms by (auto simp: quiet_def returning_def sys_getpid_def sys_uptime_def sys_trace_def sys_settickets_def
      sched_settickets_def sys_schedpolicy_def sched_setpolicy_def split: prod.splits if_splits)
qed

lemma quiet_syscalls: "me < NPROC \<Longrightarrow> (\<And>num. quiet (unmodelled num) me) \<Longrightarrow> quiet (syscalls unmodelled num) me"
  by (simp add: syscalls_def quiet_modelled)

subsection \<open>Wakeups by table walk\<close>

lemma wakeup_fold:
  "length (procs (fold (wakeup_slot me ch) js k)) = length (procs k) \<and>
   cpus (fold (wakeup_slot me ch) js k) = cpus k \<and> ticks (fold (wakeup_slot me ch) js k) = ticks k \<and>
   (\<forall>j<length (procs k). procs (fold (wakeup_slot me ch) js k) ! j =
     (if j \<in> set js \<and> me \<noteq> Some j \<and> p_state (procs k ! j) = SLEEPING \<and> p_chan (procs k ! j) = ch
      then (procs k ! j)\<lparr>p_state := RUNNABLE\<rparr> else procs k ! j))"
proof (induction js arbitrary: k)
  case (Cons i js)
  have "procs (wakeup_slot me ch i k) ! j =
      (if j = i \<and> me \<noteq> Some j \<and> p_state (procs k ! j) = SLEEPING \<and> p_chan (procs k ! j) = ch
       then (procs k ! j)\<lparr>p_state := RUNNABLE\<rparr> else procs k ! j)" if "j < length (procs k)" for j
    using that by (auto simp: wakeup_slot_def Let_def nth_update)
  moreover have "length (procs (wakeup_slot me ch i k)) = length (procs k)" "cpus (wakeup_slot me ch i k) = cpus k"
    "ticks (wakeup_slot me ch i k) = ticks k"
    by (simp_all add: wakeup_slot_def)
  ultimately show ?case using Cons.IH [of "wakeup_slot me ch i k"] by auto
qed simp

end
