(* ===== verification/Xv6_Xvtop.thy ===== *)
theory Xv6_Xvtop
  imports Xv6_Accounting "HOL-Library.Multiset"
begin

text \<open>
  The process monitor of xv6-plus (user/xvtop.c): it asks for every slot of the process table in turn, drops
  the slots that are not active, sorts what is left by an insertion sort on its array, and prints it.  The
  kernel goes on between two calls, so what \<open>xvstat\<close> answers is a function of the index; the array is longer
  than the rows in it.
\<close>

subsection \<open>The code\<close>

definition XV_UNUSED :: int where "XV_UNUSED = 0"
definition XV_ZOMBIE :: int where "XV_ZOMBIE = 5"

fun statename :: "int \<Rightarrow> string" where
  "statename s =
     (if s = 0 then ''unused'' else if s = 1 then ''used'' else if s = 2 then ''sleep''
      else if s = 3 then ''runble'' else if s = 4 then ''run'' else if s = 5 then ''zombie'' else ''???'')"

text \<open>\<open>collect\<close>: the loop over the indices left, the array and the number of rows in it.\<close>

fun collect_from :: "(int \<Rightarrow> xv_pstat option) \<Rightarrow> nat list \<Rightarrow> xv_pstat list \<Rightarrow> nat \<Rightarrow> xv_pstat list \<times> nat" where
  "collect_from ask [] rows n = (rows, n)"
| "collect_from ask (i # js) rows n =
     (case ask (int i) of
        None \<Rightarrow> (rows, n)
      | Some s \<Rightarrow>
          if ps_state s = XV_UNUSED \<or> ps_state s = XV_ZOMBIE then collect_from ask js rows n
          else collect_from ask js (rows[n := s]) (n + 1))"

definition collect :: "(int \<Rightarrow> xv_pstat option) \<Rightarrow> xv_pstat list \<Rightarrow> xv_pstat list \<times> nat" where
  "collect ask rows = collect_from ask [0..<NPROC] rows 0"

text \<open>The inner loop with \<open>j + 1\<close> as its argument, then the store of the key; and the outer loop.\<close>

fun shift_rows :: "xv_pstat list \<Rightarrow> nat \<Rightarrow> xv_pstat \<Rightarrow> xv_pstat list" where
  "shift_rows rows 0 key = rows[0 := key]"
| "shift_rows rows (Suc j) key =
     (if ps_runticks (rows ! j) < ps_runticks key then shift_rows (rows[Suc j := rows ! j]) j key
      else rows[Suc j := key])"

definition sort_by_runticks :: "xv_pstat list \<Rightarrow> nat \<Rightarrow> xv_pstat list" where
  "sort_by_runticks rows n = fold (\<lambda>i rows. shift_rows rows i (rows ! i)) [1..<n] rows"

text \<open>What is printed: the rows and the number of them in the last line.\<close>

definition print_snapshot :: "(int \<Rightarrow> xv_pstat option) \<Rightarrow> xv_pstat list \<Rightarrow> xv_pstat list \<times> nat" where
  "print_snapshot ask rows = (case collect ask rows of (rows, n) \<Rightarrow> (take n (sort_by_runticks rows n), n))"

subsection \<open>The rows\<close>

fun answered :: "(int \<Rightarrow> xv_pstat option) \<Rightarrow> nat list \<Rightarrow> xv_pstat list" where
  "answered ask [] = []"
| "answered ask (i # js) = (case ask (int i) of None \<Rightarrow> [] | Some s \<Rightarrow> s # answered ask js)"

definition active :: "xv_pstat \<Rightarrow> bool" where
  "active s \<longleftrightarrow> ps_state s \<noteq> XV_UNUSED \<and> ps_state s \<noteq> XV_ZOMBIE"

lemma collect_from_rows:
  "n + length js \<le> length rows \<Longrightarrow> collect_from ask js rows n = (rows', n') \<Longrightarrow>
    length rows' = length rows \<and> n' \<le> length rows \<and> take n' rows' = take n rows @ filter active (answered ask js)"
proof (induction js arbitrary: rows n)
  case (Cons i js)
  show ?case
  proof (cases "ask (int i)")
    case None
    then show ?thesis using Cons.prems by auto
  next
    case (Some s)
    show ?thesis
    proof (cases "active s")
      case True
      then have "collect_from ask js (rows[n := s]) (n + 1) = (rows', n')"
        using Cons.prems(2) Some by (auto simp: active_def)
      from Cons.IH [OF _ this] Cons.prems(1) show ?thesis
        using True Some by (auto simp: take_Suc_conv_app_nth)
    next
      case False
      then have "collect_from ask js rows n = (rows', n')"
        using Cons.prems(2) Some by (auto simp: active_def)
      from Cons.IH [OF _ this] Cons.prems(1) show ?thesis using False Some by auto
    qed
  qed
qed auto

subsection \<open>The sort\<close>

text \<open>Insertion from the right into a list that falls.\<close>

fun insert_right :: "xv_pstat \<Rightarrow> xv_pstat list \<Rightarrow> xv_pstat list" where
  "insert_right key [] = [key]"
| "insert_right key (x # xs) = (if ps_runticks x < ps_runticks key then x # insert_right key xs else key # x # xs)"

definition insert_row :: "xv_pstat \<Rightarrow> xv_pstat list \<Rightarrow> xv_pstat list" where
  "insert_row key xs = rev (insert_right key (rev xs))"

lemma shift_rows_insert:
  "i < length rows \<Longrightarrow> shift_rows rows i key = insert_row key (take i rows) @ drop (Suc i) rows"
proof (induction rows i key rule: shift_rows.induct)
  case (1 rows key)
  then show ?case by (cases rows) (simp_all add: insert_row_def)
next
  case (2 rows j key)
  have split: "take (Suc j) rows = take j rows @ [rows ! j]" using 2(2) by (simp add: take_Suc_conv_app_nth)
  show ?case
  proof (cases "ps_runticks (rows ! j) < ps_runticks key")
    case True
    then have "shift_rows rows (Suc j) key = insert_row key (take j rows) @ drop (Suc j) (rows[Suc j := rows ! j])"
      using 2 by simp
    also have "drop (Suc j) (rows[Suc j := rows ! j]) = rows ! j # drop (Suc (Suc j)) rows"
      using 2(2) by (simp add: drop_update_swap Cons_nth_drop_Suc [symmetric])
    finally show ?thesis using True by (simp add: split insert_row_def)
  next
    case False
    then have "shift_rows rows (Suc j) key = rows[Suc j := key]" by simp
    also have "\<dots> = take (Suc j) rows @ key # drop (Suc (Suc j)) rows" using 2(2) by (simp add: upd_conv_take_nth_drop)
    finally show ?thesis using False by (simp add: split insert_row_def)
  qed
qed

abbreviation falling :: "xv_pstat list \<Rightarrow> bool" where
  "falling xs \<equiv> sorted_wrt (\<lambda>x y. ps_runticks x \<ge> ps_runticks y) xs"

lemma insert_right_props:
  assumes "sorted_wrt (\<lambda>x y. ps_runticks x \<le> ps_runticks y) xs"
  shows "sorted_wrt (\<lambda>x y. ps_runticks x \<le> ps_runticks y) (insert_right key xs)"
    and "set (insert_right key xs) = insert key (set xs)"
    and "filter (\<lambda>x. ps_runticks x = t) (insert_right key xs) = filter (\<lambda>x. ps_runticks x = t) (key # xs)"
proof -
  show s: "set (insert_right key xs) = insert key (set xs)" for xs by (induction xs) auto
  show "sorted_wrt (\<lambda>x y. ps_runticks x \<le> ps_runticks y) (insert_right key xs)"
    using assms by (induction xs) (auto simp: s)
  show "filter (\<lambda>x. ps_runticks x = t) (insert_right key xs) = filter (\<lambda>x. ps_runticks x = t) (key # xs)"
    using assms by (induction xs) auto
qed

lemma mset_insert_row: "mset (insert_row key xs) = add_mset key (mset xs)"
proof -
  have "mset (insert_right key ys) = add_mset key (mset ys)" for ys by (induction ys) auto
  then show ?thesis by (simp add: insert_row_def)
qed

lemma insert_row_props:
  assumes "falling xs"
  shows "falling (insert_row key xs)"
    and "filter (\<lambda>x. ps_runticks x = t) (insert_row key xs) = filter (\<lambda>x. ps_runticks x = t) (xs @ [key])"
proof -
  have "sorted_wrt (\<lambda>x y. ps_runticks x \<le> ps_runticks y) (rev xs)" using assms by (simp add: sorted_wrt_rev)
  note ins = insert_right_props [OF this, where key = key]
  show "falling (insert_row key xs)" using ins(1) by (simp add: insert_row_def sorted_wrt_rev)
  show "filter (\<lambda>x. ps_runticks x = t) (insert_row key xs) = filter (\<lambda>x. ps_runticks x = t) (xs @ [key])"
    using ins(3) [where t = t] by (simp add: insert_row_def rev_filter [symmetric])
qed

text \<open>After the outer loop has reached \<open>i\<close>: the first \<open>i\<close> rows are in order, the others untouched.\<close>

lemma sort_by_runticks_prefix:
  assumes "i \<le> length rows" and "0 < i"
  shows "falling (take i (sort_by_runticks rows i)) \<and>
    mset (take i (sort_by_runticks rows i)) = mset (take i rows) \<and>
    (\<forall>t. filter (\<lambda>x. ps_runticks x = t) (take i (sort_by_runticks rows i)) = filter (\<lambda>x. ps_runticks x = t) (take i rows)) \<and>
    drop i (sort_by_runticks rows i) = drop i rows \<and> length (sort_by_runticks rows i) = length rows"
  using assms
proof (induction i)
  case (Suc i)
  show ?case
  proof (cases "i = 0")
    case True
    then show ?thesis using Suc.prems by (cases rows) (simp_all add: sort_by_runticks_def)
  next
    case False
    let ?r = "sort_by_runticks rows i"
    have ih: "falling (take i ?r)" "mset (take i ?r) = mset (take i rows)" "drop i ?r = drop i rows" "length ?r = length rows"
      "\<forall>t. filter (\<lambda>x. ps_runticks x = t) (take i ?r) = filter (\<lambda>x. ps_runticks x = t) (take i rows)"
      using Suc.IH Suc.prems False by auto
    have i: "i < length rows" using Suc.prems by simp
    then have key: "?r ! i = rows ! i" using ih(3,4) by (metis Cons_nth_drop_Suc list.inject)
    have rest: "drop (Suc i) ?r = drop (Suc i) rows" using ih(3) by (metis drop_Suc tl_drop)
    have "sort_by_runticks rows (Suc i) = shift_rows ?r i (?r ! i)"
      using False by (simp add: sort_by_runticks_def)
    also have "\<dots> = insert_row (rows ! i) (take i ?r) @ drop (Suc i) rows"
      using shift_rows_insert [of i ?r "rows ! i"] i ih(4) key rest by simp
    finally have sorted: "sort_by_runticks rows (Suc i) = insert_row (rows ! i) (take i ?r) @ drop (Suc i) rows" .
    have "size (mset (insert_row (rows ! i) (take i ?r))) = Suc i" using i ih(4) by (simp add: mset_insert_row)
    then have len: "length (insert_row (rows ! i) (take i ?r)) = Suc i" by simp
    have split: "take (Suc i) rows = take i rows @ [rows ! i]" using i by (simp add: take_Suc_conv_app_nth)
    show ?thesis
      unfolding sorted using len insert_row_props [OF ih(1)] mset_insert_row ih(2,5) i by (simp add: split)
  qed
qed simp

end
