(* ===== verification/Xv6_Properties.thy ===== *)
theory Xv6_Properties
  imports Xv6_Demo Xv6_Turns Xv6_Divergences Xv6_Xvtop
begin

text \<open>
  The properties of xv6-plus' processes and scheduler, with the concrete instances that show their
  hypotheses can hold, and behind them what else the lemmas of the components give.
\<close>



text \<open>C38: The lottery draws in proportion to the tickets.  On a hart that is left alone, of all the \<open>2 ^ 32\<close>
  states the generator can be in, the number of those from which \<open>schedule_lottery\<close> selects a given
  runnable process is its number of tickets times \<open>2 ^ 32\<close> divided by the tickets in play, up to rounding
  by at most one for each of its tickets; a process without tickets is selected from none.\<close>

theorem lottery_draw_is_proportional:
  assumes "tickets_ok k" and "0 < tickets_in_play k" and "i < NPROC" and "p_state (procs k ! i) = RUNNABLE"
  shows "(2 ^ 32 div tickets_in_play k) * share k i \<le> card {x. lottery_picks c k i x} \<and>
    card {x. lottery_picks c k i x} \<le> (2 ^ 32 div tickets_in_play k + 1) * share k i"
  using lottery_picks_count [OF assms] by blast

theorem lottery_draw_is_proportional_witness:
  "42949 \<le> card {x. lottery_picks 0 race_table 1 x} \<and> card {x. lottery_picks 0 race_table 1 x} \<le> 42950 \<and>
   card {x. lottery_picks 0 race_table 0 x} = 0"
proof -
  have shares: "share race_table i = (if i = 1 then 1 else if i = 2 then 100000 else 0)" if "i < NPROC" for i
    using that by (auto simp: share_def race_table_def zero_proc_def nth_list_update NPROC_def)
  have "[0..<NPROC] = [0, 1, 2] @ [3..<NPROC]"
    by (simp add: NPROC_def upt_conv_Cons numeral_eq_Suc)
  moreover have "(\<Sum>i\<leftarrow>[3..<NPROC]. share race_table i) = 0"
    by (auto simp: sum_list_eq_0_iff shares)
  ultimately have play: "tickets_in_play race_table = 100001"
    using shares by (simp add: tickets_in_play_def) (simp add: NPROC_def)
  have slots: "p_state (procs race_table ! 0) = RUNNABLE" "p_state (procs race_table ! 1) = RUNNABLE"
      "share race_table 0 = 0" "share race_table 1 = 1" "0 < NPROC" "1 < NPROC"
    using shares by (simp_all add: race_table_def NPROC_def)
  from lottery_draw_is_proportional [OF race_table_slots(1), of 1 0]
    lottery_draw_is_proportional [OF race_table_slots(1), of 0 0] slots play
  show ?thesis by simp
qed

text \<open>A runnable process that the other harts leave alone keeps both policies from reporting that there is
  nothing to run, whatever else they change while the table is walked.\<close>

theorem scheduler_finds_ready_work:
  assumes "ready j k" and "leave_ready j es"
  shows "fst (schedule_roundrobin c (k, es))" and "fst (schedule_lottery c (k, es))"
  using roundrobin_finds [OF assms] lottery_finds [OF assms] assms(1)
  by (auto simp: schedule_roundrobin_def schedule_lottery_def ready_def)

text \<open>But the process it selects then need not have a ticket, even if another one has tickets and is runnable
  all the time.\<close>

theorem fallback_ignores_tickets:
  "\<exists>k es k' es'. tickets_ok k \<and> ready 1 k \<and> p_tickets (procs k ! 1) = 1 \<and> leave_ready 1 es \<and>
     p_tickets (procs k ! 0) = 0 \<and> schedule_lottery 0 (k, es) = (True, k', es') \<and>
     p_sched_selections (procs k' ! 0) = 1 \<and> p_sched_selections (procs k' ! 1) = 0"
proof -
  obtain found k' es' where run: "schedule_lottery 0 (race_table, toggling) = (found, k', es')"
    by (metis surj_pair)
  with fallback_taken race_table_slots toggling_leaves_ready show ?thesis by fastforce
qed

text \<open>A process that is killed after \<open>kwait\<close> has found it not killed goes to sleep all the same.\<close>

theorem kill_before_sleep_is_missed:
  "\<exists>m. reachable [] m \<and> st m 0 = SLEEPING \<and> is_killed 0 (kern m) \<and> \<not> on_cpu m 0 \<and> \<not> plock m 0"
proof -
  obtain m where "demo killed_before_sleep = Some m" "st m 0 = SLEEPING" "is_killed 0 (kern m)" "\<not> on_cpu m 0" "\<not> plock m 0"
    using killed_before_sleep_state by (cases "demo killed_before_sleep") auto
  then show ?thesis using demo_reachable by blast
qed

text \<open>\<open>kill(0)\<close> finds the first unused slot and sets its \<open>killed\<close> flag, which allocation does not reset: the
  next child made there is killed.\<close>

theorem kill_zero_kills_next_child:
  "\<exists>k k' k''. kkill 0 k = (0, k') \<and> p_state (procs k ! 3) = UNUSED \<and> allocproc k' = (Some 3, k'') \<and>
     p_state (procs k'' ! 3) = USED \<and> is_killed 3 k''"
proof -
  have "(case kkill 0 race_table of (r, k') \<Rightarrow> case allocproc k' of (slot, k'') \<Rightarrow>
      r = 0 \<and> p_state (procs race_table ! 3) = UNUSED \<and> slot = Some 3 \<and> p_state (procs k'' ! 3) = USED \<and> is_killed 3 k'')"
    by code_simp
  then show ?thesis by (auto split: prod.splits)
qed

text \<open>A round-robin turn on a hart that is left alone, with every process running until its timer interrupt,
  selects each runnable process exactly once, in one pass over the table.\<close>

theorem round_robin_selects_everyone_once:
  assumes "length (procs k) = NPROC" and "c < length (cpus k)" and "cpus k ! c = None"
  shows "\<exists>n. schedule_roundrobin c (k, replicate (2 * NPROC) (timer c)) =
    (\<exists>p\<in>set (procs k). p_state p = RUNNABLE, k\<lparr>procs := map credited (procs k)\<rparr>, replicate n (timer c))"
proof -
  have "(\<exists>i\<in>set [0..<NPROC]. p_state (procs k ! i) = RUNNABLE) \<longleftrightarrow> (\<exists>p\<in>set (procs k). p_state p = RUNNABLE)"
    using assms(1) by (force simp: in_set_conv_nth)
  then show ?thesis
    using roundrobin_scan_timer [of "[0..<NPROC]" k c "2 * NPROC" False] fold_credited_all [OF assms(1)] assms
    by (simp add: schedule_roundrobin_def lessThan_atLeast0)
qed

text \<open>A system call that returns is counted once for its caller, before it is dispatched, and an unknown
  one is not.\<close>

theorem syscall_is_counted_once:
  assumes "me < NPROC" and "length (procs k) = NPROC" and "p_state (procs k ! me) = RUNNING"
    and "\<And>num. quiet (unmodelled num) me" and "syscall unmodelled me k = (out, k')"
  shows "p_syscall_count (procs k' ! me) = p_syscall_count (procs k ! me) +
    (if 0 < as_int (p_a7 (procs k ! me)) \<and> as_int (p_a7 (procs k ! me)) < int (length syscall_names) then 1 else 0)"
proof (cases "0 < as_int (p_a7 (procs k ! me)) \<and> as_int (p_a7 (procs k ! me)) < int (length syscall_names)")
  case True
  define num where "num = as_int (p_a7 (procs k ! me))"
  define k0 where "k0 = upd me (\<lambda>p. p\<lparr>p_syscall_count := p_syscall_count p + 1\<rparr>) k"
  obtain r k1 where call: "syscalls unmodelled num me k0 = (r, k1)" by fastforce
  have k0: "length (procs k0) = NPROC" "p_state (procs k0 ! me) = RUNNING"
    "p_syscall_count (procs k0 ! me) = p_syscall_count (procs k ! me) + 1" using assms(1-3) by (simp_all add: k0_def)
  have "quiet (syscalls unmodelled num) me" using quiet_syscalls assms(1,4) by blast
  then have "length (procs k1) = NPROC \<and> p_syscall_count (procs k1 ! me) = p_syscall_count (procs k0 ! me)"
    unfolding quiet_def using k0(1,2) call by blast
  then have k1: "length (procs k1) = NPROC" "p_syscall_count (procs k1 ! me) = p_syscall_count (procs k ! me) + 1"
    using k0(3) by simp_all
  have "snd (syscall unmodelled me k) = k'" using assms(5) by simp
  then have result: "snd (case syscalls unmodelled num me k0 of
           (None, k) \<Rightarrow> (None, k)
         | (Some r, k) \<Rightarrow>
             let k = upd me (p_a0_update (\<lambda>_. r)) k;
                 p = procs k ! me
             in (Some (),
                 if bit (p_trace_mask p) (nat num)
                 then printed (TraceLine (p_pid p) (syscall_names ! nat num) (as_int (p_a0 p))) k else k)) = k'"
    using True unfolding syscall_def Let_def k0_def num_def by simp
  have "procs k' = procs k1 \<or> (\<exists>x. procs k' = procs (upd me (p_a0_update (\<lambda>_. x)) k1))"
    using result by (cases r) (auto simp: call Let_def printed_def)
  with k1 show ?thesis using assms(1) True by auto
next
  case False
  have "snd (syscall unmodelled me k) = k'" using assms(5) by simp
  then have "k' = upd me (p_a0_update (\<lambda>_. -1)) (printed (UnknownSyscall (p_pid (procs k ! me)) (p_name (procs k ! me))
      (as_int (p_a7 (procs k ! me)))) k)"
    unfolding syscall_def Let_def if_not_P [OF False] by simp
  with assms(1,2) False show ?thesis by (simp add: printed_def)
qed

text \<open>xvtop shows exactly the rows that are neither free nor zombies, as \<open>xvstat\<close> answered for them, with the
  most run ticks first and equal ones in table order.\<close>

theorem xvtop_shows_active_rows_sorted:
  assumes "print_snapshot ask rows = (shown, n)" and "NPROC \<le> length rows"
  shows "n = length shown \<and> falling shown \<and> mset shown = mset (filter active (answered ask [0..<NPROC])) \<and>
    (\<forall>t. filter (\<lambda>x. ps_runticks x = t) shown = filter (\<lambda>x. ps_runticks x = t) (filter active (answered ask [0..<NPROC])))"
proof -
  obtain rows' where got: "collect ask rows = (rows', n)" "shown = take n (sort_by_runticks rows' n)"
    using assms(1) by (auto simp: print_snapshot_def split: prod.splits)
  from collect_from_rows [OF _ got(1) [unfolded collect_def]] assms(2)
  have rows: "length rows' = length rows" "n \<le> length rows" "take n rows' = filter active (answered ask [0..<NPROC])"
    by simp_all
  show ?thesis
  proof (cases "n = 0")
    case True
    then show ?thesis using got rows(3) by simp
  next
    case False
    then show ?thesis
      using sort_by_runticks_prefix [of n rows'] rows got(2) by simp
  qed
qed

end
