(* ===== verification/Spec2Isabelle.thy ===== *)
theory Spec2Isabelle
  imports Pebble_Store_Properties Pebble_Properties Arc_Parser_Properties Arc_Server_Properties Arc_Divergences Xv6_Properties
begin

text \<open>
  A verification library for three programs of the repository: PebbleDB, an LSM key-value store
  (src/projects/06-pebbledb), ArcServe, an HTTP/1.1 server on sockets and epoll
  (src/projects/05-arcserve), and the processes, the schedulers and the accounting of xv6-plus, a
  teaching kernel (src/projects/07-xv6plus).  The first two are modelled from the bytes on the disk and
  on the wire up to the calls a client makes, the third from the process table up to its system calls.
  Paths below are relative to the project's src directory, for xv6-plus to the project.

  \<^bold>\<open>The shape of the model.\<close>
  A class is a record of its fields and a method a function from the record (and the state of the
  operating system) to its result and the new record; enumerations and results are datatypes
  (\<open>Pebble_Status\<close>); a C++ integer is a word of its width, or a natural number where the code's own
  caps keep it small and the theory says so.  A buffer of \<open>std::byte\<close> or a \<open>std::string\<close> is a list of
  bytes.  What is undefined behaviour, an unhandled exception or a call that never returns is the value
  None of a partial function or of an option, so \<open>Some\<close> in a conclusion claims that the code returns.

  The operating system is part of the state, and what it does is a script in it:
  \<^item> PebbleDB runs on a \<open>world\<close> (\<open>Pebble_Posix\<close>): the files by path and one script of faults that says for
    every coming system call whether it succeeds, is short, is interrupted or fails.  A theorem over all
    worlds is a theorem over all failures.  A crash stops the process between two operations, or within
    one -- then it is the operation with the call failing at that point -- and leaves the files as the
    calls made them; that a loss of power may also drop bytes written but not synced is not modelled.
  \<^item> ArcServe's sockets carry scripts of the coming \<open>recv\<close> and \<open>send\<close> outcomes, its \<open>poll\<close>,
    \<open>accept\<close> and \<open>epoll_wait\<close> loops scripts of answers (\<open>Arc_Net\<close>, \<open>Arc_Blocking_Server\<close>,
    \<open>Arc_Reactor\<close>).  What a call answers when its script has run out is stated with the call.
  \<^item> Threads interleave at the granularity of the critical sections: a step relation whose
    configurations hold the shared state and the place of each thread (\<open>Arc_Work_Queue\<close>,
    \<open>Arc_Worker_Pool\<close>, \<open>Arc_Http_Steps\<close>, and for the harts of xv6-plus \<open>Xv6_Lifecycle\<close>).

  Loops are structural recursion where they follow their data, \<open>function\<close> with a measure where they
  consume a view or a script, and \<open>partial_function (option)\<close> where the code itself may not return;
  for the last kind definedness is proved under the component's invariant
  (\<open>operations_are_defined\<close>, \<open>blocking_server_returns\<close>, \<open>flush_output_sends_in_order\<close>).
  No definition takes fuel.

  \<^bold>\<open>PebbleDB, bottom up.\<close>
  \<^item> \<open>Pebble_Prelude\<close>, \<open>Pebble_Codec\<close>: types, automation, and a locale of self-delimiting encodings
    (\<open>item_codec\<close>) with the loop that decodes a sequence of them; log records, data entries, index
    entries and manifest entries each interpret it.
  \<^item> \<open>Pebble_Status\<close> (util/status.hpp), \<open>Pebble_Coding\<close> (util/coding.cpp), \<open>Pebble_Crc32c\<close>
    (util/crc32c.cpp: the table-driven checksum equals the bitwise one, is linear, and sees every
    change confined to four bytes), \<open>Pebble_Filenames\<close> (util/filenames.cpp).
  \<^item> \<open>Pebble_Posix\<close>, \<open>Pebble_Files\<close> (util/posix_file.cpp): the file operations with their retry loops, the
    frame of each operation, what a successful append and sync guarantee.
  \<^item> \<open>Pebble_Wal_Record\<close>, \<open>Pebble_Wal_Reader\<close>, \<open>Pebble_Wal_Writer\<close> (wal/): round trip of a record;
    replay refines a scan of the file's bytes; the sync policy bounds the counter behind it.  \<open>Pebble_Wal_Cut\<close>:
    a log cut anywhere replays to the records in front of the cut, and what an append that fails half way
    does to the records behind it.
  \<^item> \<open>Pebble_Memtable\<close> (memtable/), \<open>Pebble_Bloom\<close> (bloom/), \<open>Pebble_Block_Cache\<close> (cache/): lookup
    through a stack of tables as lookup in a merged map; no false negatives; the cache's list, index
    and byte count agree and stay within the capacity.
  \<^item> \<open>Pebble_Sst_Format\<close>, \<open>Pebble_Sst_Writer\<close>, \<open>Pebble_Sst_Reader\<close> (sstable/): a table written from a
    memtable holds that memtable; \<open>Get\<close> on an opened table is exact with or without a cache;
    handles are bounds checked without wrap-around; damaged blocks are refused.
  \<^item> \<open>Pebble_Manifest_Format\<close>, \<open>Pebble_Manifest\<close> (manifest/): a manifest is read back or refused, and
    its publication is atomic under any failures.
  \<^item> \<open>Pebble_Db\<close> (db.cpp): \<open>Open\<close>, \<open>Put\<close>, \<open>Delete\<close>, \<open>Get\<close>, \<open>Flush\<close>, \<open>Compact\<close> and the counters.
    \<open>Pebble_Db_Read\<close> defines what a store contains; \<open>Pebble_Db_Write\<close>, \<open>Pebble_Db_Flush\<close> and
    \<open>Pebble_Db_Recover\<close> show what each operation does to it and to what a recovery would find;
    \<open>Pebble_Db_Total\<close> and \<open>Pebble_Db_Live\<close> that the operations are defined and, where nothing
    fails, acknowledged.  \<open>Pebble_Db_Steps\<close> is the machine of all operations, crashes and
    reopenings, and its refinement of \<open>spec_step\<close>, a key-value map with a recoverable copy.  The machine
    \<open>store_step\<close> stands for no code of its own: each of its rules is a call of one modelled operation.
  \<^item> \<open>Pebble_Demo\<close> is a concrete history used as an instance, \<open>Pebble_Flush_Live\<close> the write of a table and
    a flush that succeed, \<open>Pebble_Divergences\<close> runs in which the store does not do what its comments say.  The properties are in \<open>Pebble_Properties\<close> and
    \<open>Pebble_Store_Properties\<close>.

  The bounds the theorems need are hypotheses with names: file numbers are left (\<open>numbers_left\<close>: the code
  counts them up in 64 bits without a check), no filter gets a multiple of \<open>2 ^ 32\<close> bits
  (\<open>filters_fit\<close>: the code would divide by zero), a manifest lists at most \<open>kMaxTableCount\<close> tables, and
  \<open>exists\<close> does not fail in \<open>Open\<close> (what happens then is one of the properties).

  \<^bold>\<open>ArcServe, bottom up.\<close>
  \<^item> \<open>Arc_Text\<close>, \<open>Arc_Message\<close> (protocol/http_message.cpp, server/default_handlers.cpp): views, trimming,
    case-insensitive headers, responses and their wire form.
  \<^item> \<open>Arc_Parser\<close> (protocol/http_parser.cpp): the incremental parser with every cap.
    \<open>Arc_Parser_Invariant\<close>: what it keeps between calls; \<open>Arc_Parser_Fragments\<close>: the outcome does
    not depend on how the bytes are cut; \<open>Arc_Parser_Requests\<close>: rendered requests are parsed back;
    \<open>Arc_Parser_Bounds\<close>: the cap on the request line.
  \<^item> \<open>Arc_Byte_Buffer\<close> (buffers/byte_buffer.cpp), \<open>Arc_Output_Queue\<close> (reactor/output_queue.cpp):
    both interpret one locale of bounded byte queues.
  \<^item> \<open>Arc_Net\<close> (net/socket.cpp, net/file_descriptor.hpp), \<open>Arc_Connection\<close> (reactor/connection.cpp).
  \<^item> \<open>Arc_Work_Queue\<close>, \<open>Arc_Worker_Pool\<close> (concurrency/): the monitor with its two condition variables
    (bounded, first in first out, no lost wake-up) and the pool (every accepted task runs once; stop
    returns under every schedule).
  \<^item> \<open>Arc_Serve\<close>: the reference of all HTTP servers -- the transcript of a byte string is the
    replies to its requests in order up to the first that closes the connection.
    \<open>Arc_Blocking_Server\<close> (server/blocking_server.cpp) writes exactly it.
  \<^item> \<open>Arc_Reactor\<close> (reactor/epoll_reactor.cpp): interest list, callbacks, the dispatch loop.
    \<open>Arc_Echo_Server\<close> (server/echo_reactor_server.cpp) on top of it.
  \<^item> \<open>Arc_Http_Server\<close> (server/nonblocking_http_server.cpp): connections, callbacks, the hand-over to
    the pool and the completions that come back.  \<open>Arc_Http_Invariant\<close>, \<open>Arc_Http_Callbacks\<close>,
    \<open>Arc_Http_Steps\<close>: an invariant of the reachable states that ties the registry, the reactor's
    interest and the work under way together.  \<open>Arc_Http_Transcript\<close>: without a pool a client
    reads a prefix of the transcript at every moment and all of it in the end.  \<open>Arc_Http_Demo\<close> and
    \<open>Arc_Http_Strand\<close>: a concrete run, and the two ways a connection is left waiting.
  \<^item> \<open>Arc_Cli\<close> (app/cli.cpp) and \<open>Arc_Divergences\<close>.  The properties are in
    \<open>Arc_Parser_Properties\<close> and \<open>Arc_Server_Properties\<close>.

  The handler of an HTTP server is a parameter: a function from a request to a response, or to None where
  it throws.  The properties about the default route instantiate it.

  \<^bold>\<open>xv6-plus.\<close>
  \<^item> \<open>Xv6_Proc\<close> (kernel/proc.c, proc.h): the process table, allocation, fork, exit, wait, sleep, wakeup and
    kill as functions on it.  Whether a call into the rest of the kernel succeeds (memory for a trap frame,
    a copy to user space) is a script in the state.
  \<^item> \<open>Xv6_Sched\<close> (kernel/proc.c): both policies, the lottery's generator, and the system calls that set
    tickets and policy.  What the other harts do between two locks is a list of functions on the table,
    one for each lock taken.  \<open>Xv6_Turns\<close>: whole turns of a hart that is left alone.
  \<^item> \<open>Xv6_Lifecycle\<close>: the machine of all processes on all harts, one step per critical section.
    \<open>Xv6_Lifecycle_Invariant\<close>, \<open>Xv6_Lifecycle_Steps\<close> and \<open>Xv6_Lifecycle_Wakeup\<close>: its invariant, one
    conjunct at a time -- harts and locks, forks under way, process ids, parents, and that no wakeup of a
    waiting parent is lost.  \<open>Xv6_Demo\<close>: runs of an executable part of the machine.
  \<^item> \<open>Xv6_Accounting\<close> (kernel/syscall.c, sysproc.c, pstat.h, the clock of trap.c) and \<open>Xv6_Xvtop\<close>
    (user/xvtop.c): the counters, the trace, the snapshots and the monitor that sorts and shows them.
  \<^item> \<open>Xv6_Divergences\<close>: a race in which the lottery runs a process without tickets.  The properties are in
    \<open>Xv6_Properties\<close>.

  Process ids are unbounded integers; the code counts them up in an \<open>int\<close> without a check.

  \<^bold>\<open>Not modelled.\<close>
  PebbleDB: the command-line tools and benchmarks (printing around the modelled calls); the mutex of the
  store and of the cache, since every public operation holds it throughout -- operations are atomic.
  ArcServe: \<open>TcpListener::listen\<close>, \<open>connect_loopback\<close> and \<open>describe_peer\<close> (set-up calls whose results the
  model takes as given) and main.cpp (signals and printing); destructors beyond the descriptor they
  close; the timestamp of the last activity, which nothing reads.  xv6-plus: the file system, the drivers,
  page tables, the rest of the traps, boot code and the user programs other than xvtop; the open files and
  the directory of a process.  The other projects of the repository (ForgeLM, KernelForge, MiniPaged,
  FlashLite, ReleaseGuard) are separate programs that share no code with these three.
\<close>

end
